(* ===== verification/Prelude.thy ===== *)
theory Prelude
  imports Main "HOL-Library.Word" "HOL-Library.List_Lexorder" "HOL-Library.Char_ord"
    "HOL-Library.Product_Lexorder"
begin

text \<open>
  Shared vocabulary of the development: the machine types the framework uses, the
  collections of facts (\<open>map_laws\<close>, \<open>inv_defs\<close>, \<open>op_defs\<close>) the component theories
  add to and their proofs use, and the generic facts on lists and words that more than
  one component needs.

  Conventions.  A \<open>std::string\<close> that carries text is a \<^typ>\<open>string\<close> (its elements are
  8-bit characters, ordered as \<open>std::string\<close> orders them); raw protocol data is a list
  of \<open>byte\<close>s.  A \<open>size_t\<close> that counts objects in memory is a \<^typ>\<open>nat\<close>: such a
  count cannot reach \<open>2 ^ 64\<close>.  Fields whose width matters (wire formats, quotas, GUID
  halves) are words.
\<close>

type_synonym byte = "8 word"
type_synonym bytes = "byte list"
type_synonym u16 = "16 word"
type_synonym u32 = "32 word"
type_synonym u64 = "64 word"

named_theorems map_laws "lookup laws of the ordered maps"
named_theorems inv_defs "definitions of the component invariants"
named_theorems op_defs "definitions of the component operations"

subsection \<open>Lists\<close>

lemma filter_neq_id [simp]: "x \<notin> set xs \<Longrightarrow> filter (\<lambda>y. y \<noteq> x) xs = xs"
  by (simp add: filter_id_conv) (metis)

lemma distinct_remove1_filter: "distinct xs \<Longrightarrow> remove1 x xs = filter (\<lambda>y. y \<noteq> x) xs"
  by (simp add: distinct_remove1_removeAll removeAll_filter_not_eq) (metis (mono_tags, lifting))

lemma take_append_exact [simp]: "length xs = n \<Longrightarrow> take n (xs @ ys) = xs"
  by simp

lemma drop_append_exact [simp]: "length xs = n \<Longrightarrow> drop n (xs @ ys) = ys"
  by simp

lemma sorted_wrt_less_distinct:
  "sorted_wrt (<) (xs :: 'a::linorder list) \<Longrightarrow> distinct xs"
  by (induction xs) auto

lemma find_append: "List.find P (xs @ ys) = (case List.find P xs of None \<Rightarrow> List.find P ys | Some x \<Rightarrow> Some x)"
  by (induction xs) auto

end
