(* ===== verification/PromiseResult.thy ===== *)
theory PromiseResult
  imports Prelude
begin

text \<open>
  \<open>CPromiseResult\<close> (\<open>src/Common/Async/PromiseResult.h\<close>): what one layer of a chain hands to
  the next, fulfilled or rejected with a shared, immutable exception object.  An exception
  object is its dynamic type and the text its constructor was given; \<open>what()\<close> is a C string,
  so it ends at the first NUL character.  The texts of the framework's own rejections are the
  UTF-8 bytes of the source's literals.
\<close>

datatype exn = Exn (dynamic_type: string) (exn_text: string)

datatype promise_result = CPromiseResult (m_spException: "exn option")

definition Resolve :: promise_result where
  "Resolve = CPromiseResult None"

definition Reject :: "exn \<Rightarrow> promise_result" where
  "Reject e = CPromiseResult (Some e)"

definition IsFulfilled :: "promise_result \<Rightarrow> bool" where
  "IsFulfilled r \<longleftrightarrow> m_spException r = None"

definition IsRejected :: "promise_result \<Rightarrow> bool" where
  "IsRejected r \<longleftrightarrow> m_spException r \<noteq> None"

definition what :: "exn \<Rightarrow> string" where
  "what e = takeWhile (\<lambda>c. c \<noteq> CHR 0x00) (exn_text e)"

definition What :: "promise_result \<Rightarrow> string" where
  "What r = (case m_spException r of None \<Rightarrow> [] | Some e \<Rightarrow> what e)"

definition Message :: "promise_result \<Rightarrow> string" where
  "Message r = What r"

definition result_eq :: "promise_result \<Rightarrow> promise_result \<Rightarrow> bool" where
  "result_eq a b =
     (if IsRejected a \<noteq> IsRejected b then False else IsFulfilled a \<or> What a = What b)"

definition runtime_error :: "string \<Rightarrow> exn" where
  "runtime_error t = Exn ''runtime_error'' t"

subsection \<open>The framework's own rejections\<close>

definition kStopped :: promise_result where
  "kStopped = Reject (runtime_error
     [CHR 0xE6, CHR 0x89, CHR 0xA7, CHR 0xE8, CHR 0xA1, CHR 0x8C, CHR 0xE5, CHR 0x99, CHR 0xA8,
      CHR 0xE5, CHR 0xB7, CHR 0xB2, CHR 0xE5, CHR 0x81, CHR 0x9C])"

definition kTimeout :: promise_result where
  "kTimeout = Reject (runtime_error
     [CHR 0xE7, CHR 0xAD, CHR 0x89, CHR 0xE5, CHR 0xBE, CHR 0x85, CHR 0xE8, CHR 0xB6, CHR 0x85,
      CHR 0xE6, CHR 0x97, CHR 0xB6])"

definition kHandlerThrew :: promise_result where
  "kHandlerThrew = Reject (runtime_error
     [CHR 0xE5, CHR 0xA4, CHR 0x84, CHR 0xE7, CHR 0x90, CHR 0x86, CHR 0xE5, CHR 0x99, CHR 0xA8,
      CHR 0xE5, CHR 0xBC, CHR 0x82, CHR 0xE5, CHR 0xB8, CHR 0xB8])"

definition kNoReason :: promise_result where
  "kNoReason = Reject (runtime_error
     [CHR 0xE6, CHR 0x9C, CHR 0xAA, CHR 0xE6, CHR 0x8C, CHR 0x87, CHR 0xE5, CHR 0xAE, CHR 0x9A,
      CHR 0xE5, CHR 0x8E, CHR 0x9F, CHR 0xE5, CHR 0x9B, CHR 0xA0])"

definition kGateTwice :: promise_result where
  "kGateTwice = Reject (runtime_error (''ASYNC_GATE '' @
     [CHR 0xE9, CHR 0x87, CHR 0x8D, CHR 0xE5, CHR 0xA4, CHR 0x8D, CHR 0xE6, CHR 0x8C, CHR 0x82,
      CHR 0xE8, CHR 0xB5, CHR 0xB7]))"

subsection \<open>What a piece of user code does\<close>

text \<open>User code returns a result, throws a \<open>std::exception\<close> or throws something else; the
  framework turns the last two into rejections, keeping only the text.\<close>

datatype outcome = Returns promise_result | Throws exn | ThrowsOther

fun capture :: "outcome \<Rightarrow> promise_result" where
  "capture (Returns r) = r"
| "capture (Throws e) = Reject (runtime_error (what e))"
| "capture ThrowsOther = kHandlerThrew"

subsection \<open>Facts\<close>

lemma result_simps [simp]:
  "IsFulfilled Resolve" "\<not> IsRejected Resolve" "IsRejected (Reject e)" "\<not> IsFulfilled (Reject e)"
  "What Resolve = []" "What (Reject e) = what e"
  by (simp_all add: IsFulfilled_def IsRejected_def Resolve_def Reject_def What_def)

lemma fulfilled_iff: "IsFulfilled r \<longleftrightarrow> \<not> IsRejected r"
  by (simp add: IsFulfilled_def IsRejected_def)

lemma fulfilled_Resolve: "IsFulfilled r \<Longrightarrow> r = Resolve"
  by (cases r) (simp add: IsFulfilled_def Resolve_def)

lemma framework_rejections [simp]:
  "IsRejected kStopped" "IsRejected kTimeout" "IsRejected kHandlerThrew" "IsRejected kNoReason" "IsRejected kGateTwice"
  by (simp_all add: kStopped_def kTimeout_def kHandlerThrew_def kNoReason_def kGateTwice_def)

lemma what_runtime_error [simp]: "what (runtime_error (what e)) = what e"
  by (simp add: what_def runtime_error_def takeWhile_idem)

text \<open>\<open>operator==\<close> is an equivalence, coarser than identity: it forgets the dynamic type.
  Capturing an exception keeps the text a handler will read and loses its type.\<close>

theorem result_eq_equivalence:
  "result_eq a a \<and> (result_eq a b \<longleftrightarrow> result_eq b a)
   \<and> (result_eq a b \<longrightarrow> result_eq b c \<longrightarrow> result_eq a c)
   \<and> (result_eq (capture (Throws e)) (Reject e) \<and> dynamic_type (the (m_spException (capture (Throws e)))) = ''runtime_error'')"
  by (auto simp: result_eq_def fulfilled_iff) (simp_all add: Reject_def runtime_error_def)

end
