(* ===== verification/ReadWriteGate.thy ===== *)
theory ReadWriteGate
  imports Prelude
begin

text \<open>
  \<open>CReadWriteGate\<close> (\<open>src/Common/Async/ReadWriteGate.cpp\<close>): a fair FIFO gate that lets
  read tasks run together and write tasks alone.  A task is a number with its kind.  The record
  is the gate's own state; a run of the system adds the tasks that hold a slot, which live in a
  submitter's dispatch buffer or in the thread pool, and the history of submissions and
  admissions.  A step is one critical section of one thread, so a run is any interleaving of
  submitters and pool threads.
\<close>

datatype task_kind = kRead | kWrite

type_synonym gtask = "nat \<times> task_kind"

record gate =
  m_nMaxReaders :: nat
  m_dequeTasks :: "gtask list"
  m_nActiveReaders :: nat
  m_bWriterActive :: bool
  m_bClosed :: bool
  m_nDrainWaiters :: nat

definition CReadWriteGate :: "nat \<Rightarrow> gate" where
  "CReadWriteGate nMaxReaders = \<lparr>m_nMaxReaders = nMaxReaders, m_dequeTasks = [],
     m_nActiveReaders = 0, m_bWriterActive = False, m_bClosed = False, m_nDrainWaiters = 0\<rparr>"

definition Close :: "gate \<Rightarrow> gate" where
  "Close g = g\<lparr>m_bClosed := True\<rparr>"

definition IsIdleLocked :: "gate \<Rightarrow> bool" where
  "IsIdleLocked g \<longleftrightarrow> m_nActiveReaders g = 0 \<and> \<not> m_bWriterActive g \<and> m_dequeTasks g = []"

text \<open>\<open>Drain\<close> registers itself before it looks at the gate and leaves when it has found the gate
  idle; \<open>NotifyDrainWaitersLocked\<close> notifies exactly when somebody is registered.\<close>

definition Drain_register :: "gate \<Rightarrow> gate" where
  "Drain_register g = g\<lparr>m_nDrainWaiters := m_nDrainWaiters g + 1\<rparr>"

definition Drain_leave :: "gate \<Rightarrow> gate" where
  "Drain_leave g = g\<lparr>m_nDrainWaiters := m_nDrainWaiters g - 1\<rparr>"

definition NotifyDrainWaitersLocked :: "gate \<Rightarrow> bool" where
  "NotifyDrainWaitersLocked g \<longleftrightarrow> m_nDrainWaiters g \<noteq> 0"

definition ReturnSlot :: "task_kind \<Rightarrow> gate \<Rightarrow> gate" where
  "ReturnSlot eKind g =
     (if eKind = kRead then g\<lparr>m_nActiveReaders := m_nActiveReaders g - 1\<rparr>
      else g\<lparr>m_bWriterActive := False\<rparr>)"

text \<open>The loop of \<open>PumpLocked\<close>: it stops at the first task that may not enter, and after a
  write.  The result is the list of tasks that got a slot, and the gate.\<close>

function PumpLocked :: "gate \<Rightarrow> gtask list \<times> gate" where
  "PumpLocked g =
     (case m_dequeTasks g of
        [] \<Rightarrow> ([], g)
      | entry # rest \<Rightarrow>
          if snd entry = kRead
          then (if m_bWriterActive g then ([], g)
                else if m_nMaxReaders g > 0 \<and> m_nActiveReaders g \<ge> m_nMaxReaders g then ([], g)
                else (let (vecDispatch, g') = PumpLocked (g\<lparr>m_dequeTasks := rest,
                                                            m_nActiveReaders := m_nActiveReaders g + 1\<rparr>)
                      in (entry # vecDispatch, g')))
          else (if m_bWriterActive g then ([], g)
                else if m_nActiveReaders g > 0 then ([], g)
                else ([entry], g\<lparr>m_dequeTasks := rest, m_bWriterActive := True\<rparr>)))"
  by pat_completeness auto

termination by (relation "measure (\<lambda>g. length (m_dequeTasks g))") auto

declare PumpLocked.simps [simp del]

text \<open>The critical section of \<open>Submit\<close>, and that of \<open>OnTaskExit\<close>.\<close>

definition Submit_locked :: "gtask \<Rightarrow> gate \<Rightarrow> gtask list \<times> gate" where
  "Submit_locked t g = PumpLocked (g\<lparr>m_dequeTasks := m_dequeTasks g @ [t]\<rparr>)"

definition OnTaskExit_locked :: "task_kind \<Rightarrow> gate \<Rightarrow> gtask list \<times> gate" where
  "OnTaskExit_locked eKind g = PumpLocked (ReturnSlot eKind g)"

text \<open>\<open>DispatchToPool\<close>: hand over the tasks one by one; one the pool refuses is dropped and its
  slot returned.  \<open>pool\<close> is the pool's \<open>Submit\<close>.  The flag says whether the drop was
  reported.\<close>

fun DispatchToPool :: "('p \<Rightarrow> gtask \<Rightarrow> bool \<times> 'p) \<Rightarrow> gtask list \<Rightarrow> 'p \<times> gate \<Rightarrow> bool \<times> 'p \<times> gate" where
  "DispatchToPool pool [] (p, g) = (False, p, g)"
| "DispatchToPool pool (t # vec) (p, g) =
     (let (ok, p') = pool p t;
          (dropped, s) = DispatchToPool pool vec (p', if ok then g else ReturnSlot (snd t) g)
      in (\<not> ok \<or> dropped, s))"

text \<open>\<open>Submit\<close> when no other thread intervenes.\<close>

definition Submit ::
  "('p \<Rightarrow> bool) \<Rightarrow> ('p \<Rightarrow> gtask \<Rightarrow> bool \<times> 'p) \<Rightarrow> gtask \<Rightarrow> 'p \<times> gate \<Rightarrow> bool \<times> 'p \<times> gate" where
  "Submit running pool t s =
     (if m_bClosed (snd s) \<or> \<not> running (fst s) then (False, s)
      else let (vecDispatch, g) = Submit_locked t (snd s)
           in (True, snd (DispatchToPool pool vecDispatch (fst s, g))))"

text \<open>The top frame of the calling thread: the gate and the kind of the task it is running.\<close>

definition CanRunInline :: "nat \<Rightarrow> (nat \<times> task_kind) option \<Rightarrow> task_kind \<Rightarrow> gate \<Rightarrow> bool" where
  "CanRunInline this pFrame eKind g \<longleftrightarrow> pFrame = Some (this, eKind) \<and> m_dequeTasks g = []"

definition PendingCount :: "gate \<Rightarrow> nat" where
  "PendingCount g = length (m_dequeTasks g)"

subsection \<open>What a pump does\<close>

definition reads :: "gtask list \<Rightarrow> nat" where
  "reads ts = length (filter (\<lambda>t. snd t = kRead) ts)"

definition writes :: "gtask list \<Rightarrow> nat" where
  "writes ts = length (filter (\<lambda>t. snd t = kWrite) ts)"

lemma reads_simps [simp]: "reads [] = 0" "reads (t # ts) = (if snd t = kRead then Suc (reads ts) else reads ts)"
  "reads (xs @ ys) = reads xs + reads ys"
  by (simp_all add: reads_def)

lemma writes_simps [simp]: "writes [] = 0" "writes (t # ts) = (if snd t = kWrite then Suc (writes ts) else writes ts)"
  "writes (xs @ ys) = writes xs + writes ys"
  by (simp_all add: writes_def)

lemma reads_remove1: "t \<in> set ts \<Longrightarrow> reads (remove1 t ts) = reads ts - (if snd t = kRead then 1 else 0)"
  by (simp add: reads_def filter_remove1 length_remove1)

lemma writes_remove1: "t \<in> set ts \<Longrightarrow> writes (remove1 t ts) = writes ts - (if snd t = kWrite then 1 else 0)"
  by (simp add: writes_def filter_remove1 length_remove1)

lemma reads_pos: "t \<in> set ts \<Longrightarrow> snd t = kRead \<Longrightarrow> 0 < reads ts"
  by (induction ts) auto

lemma writes_pos: "t \<in> set ts \<Longrightarrow> snd t = kWrite \<Longrightarrow> 0 < writes ts"
  by (induction ts) auto

definition slots_ok :: "gate \<Rightarrow> bool" where
  "slots_ok g \<longleftrightarrow> (m_bWriterActive g \<longrightarrow> m_nActiveReaders g = 0)
     \<and> (m_nMaxReaders g > 0 \<longrightarrow> m_nActiveReaders g \<le> m_nMaxReaders g)"

text \<open>The front of the queue may not enter.\<close>

definition front_blocked :: "gate \<Rightarrow> bool" where
  "front_blocked g \<longleftrightarrow> (case m_dequeTasks g of
       [] \<Rightarrow> True
     | t # _ \<Rightarrow> if snd t = kRead
                then m_bWriterActive g \<or> (m_nMaxReaders g > 0 \<and> m_nActiveReaders g \<ge> m_nMaxReaders g)
                else m_bWriterActive g \<or> m_nActiveReaders g > 0)"

lemma PumpLocked_spec:
  assumes "PumpLocked g = (vec, g')" and "slots_ok g"
  shows "m_dequeTasks g = vec @ m_dequeTasks g'
    \<and> m_nActiveReaders g' = m_nActiveReaders g + reads vec
    \<and> (m_bWriterActive g' \<longleftrightarrow> m_bWriterActive g \<or> writes vec > 0)
    \<and> writes vec + (if m_bWriterActive g then 1 else 0) \<le> 1
    \<and> m_nMaxReaders g' = m_nMaxReaders g \<and> m_bClosed g' = m_bClosed g \<and> m_nDrainWaiters g' = m_nDrainWaiters g
    \<and> slots_ok g' \<and> front_blocked g'"
  using assms
proof (induction g arbitrary: vec g' rule: PumpLocked.induct)
  case (1 g)
  show ?case
  proof (cases "m_dequeTasks g")
    case Nil
    with 1(2,3) show ?thesis by (auto simp: PumpLocked.simps[of g] front_blocked_def)
  next
    case (Cons t rest)
    let ?g = "g\<lparr>m_dequeTasks := rest, m_nActiveReaders := m_nActiveReaders g + 1\<rparr>"
    show ?thesis
    proof (cases "snd t")
      case kRead
      show ?thesis
      proof (cases "m_bWriterActive g \<or> m_nMaxReaders g > 0 \<and> m_nActiveReaders g \<ge> m_nMaxReaders g")
        case True
        with 1(2,3) Cons kRead show ?thesis by (auto simp: PumpLocked.simps[of g] front_blocked_def)
      next
        case False
        obtain v1 g1 where p: "PumpLocked ?g = (v1, g1)" by force
        have "slots_ok ?g" using False 1(3) by (auto simp: slots_ok_def)
        note IH = 1(1)[OF Cons kRead _ _ p this]
        show ?thesis
          using False IH 1(2) Cons kRead p by (auto simp: PumpLocked.simps[of g])
      qed
    next
      case kWrite
      with 1(2,3) Cons show ?thesis
        by (auto simp: PumpLocked.simps[of g] front_blocked_def slots_ok_def split: if_splits list.split)
    qed
  qed
qed

subsection \<open>Runs\<close>

record gate_sys =
  gt :: gate
  granted :: "gtask list"     \<comment> \<open>hold a slot, not yet handed to the pool\<close>
  in_pool :: "gtask list"     \<comment> \<open>hold a slot, queued or running in the pool\<close>
  submitted :: "gtask list"   \<comment> \<open>every task that was enqueued, in order\<close>
  admitted :: "gtask list"    \<comment> \<open>every task that was given a slot, in order\<close>

definition gate_init :: "nat \<Rightarrow> gate_sys" where
  "gate_init nMaxReaders = \<lparr>gt = CReadWriteGate nMaxReaders, granted = [], in_pool = [],
     submitted = [], admitted = []\<rparr>"

definition do_submit :: "gtask \<Rightarrow> gate_sys \<Rightarrow> gate_sys" where
  "do_submit t s = (let (vec, g) = Submit_locked t (gt s)
     in s\<lparr>gt := g, granted := granted s @ vec, submitted := submitted s @ [t], admitted := admitted s @ vec\<rparr>)"

definition do_hand_over :: "gtask \<Rightarrow> gate_sys \<Rightarrow> gate_sys" where
  "do_hand_over t s = s\<lparr>granted := remove1 t (granted s), in_pool := in_pool s @ [t]\<rparr>"

definition do_drop :: "gtask \<Rightarrow> gate_sys \<Rightarrow> gate_sys" where
  "do_drop t s = s\<lparr>gt := ReturnSlot (snd t) (gt s), granted := remove1 t (granted s)\<rparr>"

definition do_exit :: "gtask \<Rightarrow> gate_sys \<Rightarrow> gate_sys" where
  "do_exit t s = (let (vec, g) = OnTaskExit_locked (snd t) (gt s)
     in s\<lparr>gt := g, in_pool := remove1 t (in_pool s), granted := granted s @ vec, admitted := admitted s @ vec\<rparr>)"

text \<open>A submission whose early check has passed may be enqueued at any later moment, so the step
  has no premise.  The flag says whether the pool may refuse tasks.\<close>

inductive gate_step :: "bool \<Rightarrow> gate_sys \<Rightarrow> gate_sys \<Rightarrow> bool" for refusing where
  submit: "gate_step refusing s (do_submit t s)"
| hand: "t \<in> set (granted s) \<Longrightarrow> gate_step refusing s (do_hand_over t s)"
| drop: "refusing \<Longrightarrow> t \<in> set (granted s) \<Longrightarrow> gate_step refusing s (do_drop t s)"
| exit: "t \<in> set (in_pool s) \<Longrightarrow> gate_step refusing s (do_exit t s)"
| close: "gate_step refusing s (s\<lparr>gt := Close (gt s)\<rparr>)"

inductive gate_reach :: "bool \<Rightarrow> nat \<Rightarrow> gate_sys \<Rightarrow> bool" for refusing n where
  gate_start: "gate_reach refusing n (gate_init n)"
| gate_next: "gate_reach refusing n s \<Longrightarrow> gate_step refusing s s' \<Longrightarrow> gate_reach refusing n s'"

definition holders :: "gate_sys \<Rightarrow> gtask list" where
  "holders s = granted s @ in_pool s"

definition gate_inv :: "gate_sys \<Rightarrow> bool" where
  "gate_inv s \<longleftrightarrow> slots_ok (gt s)
     \<and> m_nActiveReaders (gt s) = reads (holders s)
     \<and> writes (holders s) = (if m_bWriterActive (gt s) then 1 else 0)
     \<and> submitted s = admitted s @ m_dequeTasks (gt s)"

lemma slots_ok_return: "slots_ok g \<Longrightarrow> slots_ok (ReturnSlot k g)"
  by (auto simp: slots_ok_def ReturnSlot_def)

lemma gate_inv_init: "gate_inv (gate_init n)"
  by (simp add: gate_inv_def gate_init_def CReadWriteGate_def slots_ok_def holders_def)

lemma gate_inv_submit: "gate_inv s \<Longrightarrow> gate_inv (do_submit t s)"
proof -
  assume inv: "gate_inv s"
  let ?g = "gt s\<lparr>m_dequeTasks := m_dequeTasks (gt s) @ [t]\<rparr>"
  obtain vec g where p: "PumpLocked ?g = (vec, g)" by force
  have "slots_ok (gt s)" using inv by (simp add: gate_inv_def)
  then have "slots_ok ?g" by (simp add: slots_ok_def)
  note spec = PumpLocked_spec[OF p this]
  have "do_submit t s = s\<lparr>gt := g, granted := granted s @ vec, submitted := submitted s @ [t],
      admitted := admitted s @ vec\<rparr>"
    by (simp add: do_submit_def Submit_locked_def p)
  with spec inv show ?thesis by (auto simp: gate_inv_def holders_def split: if_splits)
qed

lemma holders_remove:
  assumes "t \<in> set (granted s) \<or> t \<in> set (in_pool s)"
  shows "snd t = kRead \<Longrightarrow> 0 < reads (holders s)" and "snd t = kWrite \<Longrightarrow> 0 < writes (holders s)"
  using assms by (auto simp: holders_def dest: reads_pos writes_pos)

lemma task_kind_other [simp]: "k \<noteq> kRead \<longleftrightarrow> k = kWrite" "k \<noteq> kWrite \<longleftrightarrow> k = kRead"
  by (cases k; simp)+

lemma gate_inv_drop: "gate_inv s \<Longrightarrow> t \<in> set (granted s) \<Longrightarrow> gate_inv (do_drop t s)"
  using holders_remove[of t s] reads_pos[of t "granted s"] writes_pos[of t "granted s"]
  by (cases "snd t")
    (auto simp: gate_inv_def do_drop_def ReturnSlot_def holders_def reads_remove1 writes_remove1 slots_ok_def
      split: if_splits)

lemma gate_inv_exit: "gate_inv s \<Longrightarrow> t \<in> set (in_pool s) \<Longrightarrow> gate_inv (do_exit t s)"
proof -
  assume inv: "gate_inv s" and t: "t \<in> set (in_pool s)"
  let ?g = "ReturnSlot (snd t) (gt s)"
  obtain vec g where p: "PumpLocked ?g = (vec, g)" by force
  have "slots_ok ?g" using inv by (simp add: gate_inv_def slots_ok_return)
  note spec = PumpLocked_spec[OF p this]
  have "m_nActiveReaders ?g = reads (granted s @ remove1 t (in_pool s))
      \<and> writes (granted s @ remove1 t (in_pool s)) = (if m_bWriterActive ?g then 1 else 0)"
    using inv t reads_pos[of t "in_pool s"] writes_pos[of t "in_pool s"]
    by (cases "snd t") (auto simp: gate_inv_def ReturnSlot_def holders_def reads_remove1 writes_remove1 split: if_splits)
  moreover have "m_dequeTasks ?g = m_dequeTasks (gt s)" by (simp add: ReturnSlot_def)
  ultimately show ?thesis
    using spec inv by (auto simp: gate_inv_def do_exit_def OnTaskExit_locked_def p holders_def split: if_splits)
qed

lemma gate_inv_hand: "gate_inv s \<Longrightarrow> t \<in> set (granted s) \<Longrightarrow> gate_inv (do_hand_over t s)"
  using reads_pos[of t "granted s"] writes_pos[of t "granted s"]
  by (cases "snd t")
    (auto simp: gate_inv_def do_hand_over_def holders_def reads_remove1 writes_remove1 split: if_splits)

lemma Close_simps [simp]:
  "slots_ok (Close g) = slots_ok g" "front_blocked (Close g) = front_blocked g"
  "m_dequeTasks (Close g) = m_dequeTasks g" "m_nActiveReaders (Close g) = m_nActiveReaders g"
  "m_bWriterActive (Close g) = m_bWriterActive g" "m_nMaxReaders (Close g) = m_nMaxReaders g"
  by (simp_all add: Close_def slots_ok_def front_blocked_def split: list.split)

lemma gate_inv_close: "gate_inv s \<Longrightarrow> gate_inv (s\<lparr>gt := Close (gt s)\<rparr>)"
  by (simp add: gate_inv_def holders_def)

lemma gate_inv_step: "gate_step r s s' \<Longrightarrow> gate_inv s \<Longrightarrow> gate_inv s'"
  by (erule gate_step.cases)
    (simp_all add: gate_inv_submit gate_inv_drop gate_inv_exit gate_inv_hand gate_inv_close)

lemma PumpLocked_max: "slots_ok g \<Longrightarrow> m_nMaxReaders (snd (PumpLocked g)) = m_nMaxReaders g"
  using PumpLocked_spec[of g "fst (PumpLocked g)" "snd (PumpLocked g)"] by simp

lemma gate_step_max:
  assumes "gate_step r s s'" and "gate_inv s"
  shows "m_nMaxReaders (gt s') = m_nMaxReaders (gt s)"
proof -
  have ok: "slots_ok (gt s)" using assms(2) by (simp add: gate_inv_def)
  then have "slots_ok (gt s\<lparr>m_dequeTasks := q\<rparr>)" for q by (simp add: slots_ok_def)
  note max = PumpLocked_max[OF this] PumpLocked_max[OF slots_ok_return[OF ok]]
  have ret: "m_nMaxReaders (ReturnSlot k g) = m_nMaxReaders g" for k g by (simp add: ReturnSlot_def)
  from assms(1) show ?thesis
    by (cases rule: gate_step.cases)
      (simp_all add: do_submit_def do_exit_def do_hand_over_def do_drop_def Submit_locked_def
        OnTaskExit_locked_def max ret Let_def split_beta)
qed

lemma gate_reach_inv: "gate_reach r n s \<Longrightarrow> gate_inv s \<and> m_nMaxReaders (gt s) = n"
proof (induction rule: gate_reach.induct)
  case gate_start
  show ?case using gate_inv_init by (simp add: gate_init_def CReadWriteGate_def)
next
  case (gate_next s s')
  then show ?case using gate_inv_step gate_step_max by metis
qed

text \<open>Without refusals the front of the queue is always blocked by a task that holds a slot.\<close>

lemma gate_blocked_step:
  assumes "gate_step False s s'" and "gate_inv s" and "front_blocked (gt s)"
  shows "front_blocked (gt s')"
proof -
  have ok: "slots_ok (gt s)" using assms(2) by (simp add: gate_inv_def)
  then have "slots_ok (gt s\<lparr>m_dequeTasks := q\<rparr>)" for q by (simp add: slots_ok_def)
  note spec = PumpLocked_spec[OF prod.collapse[symmetric] this]
    PumpLocked_spec[OF prod.collapse[symmetric] slots_ok_return[OF ok]]
  from assms(1,3) show ?thesis
    by (cases rule: gate_step.cases)
      (simp_all add: do_submit_def do_exit_def do_hand_over_def Submit_locked_def
        OnTaskExit_locked_def spec Let_def split_beta)
qed

lemma gate_reach_blocked: "gate_reach False n s \<Longrightarrow> front_blocked (gt s)"
proof (induction rule: gate_reach.induct)
  case gate_start
  show ?case by (simp add: gate_init_def CReadWriteGate_def front_blocked_def)
next
  case (gate_next s s')
  then show ?case using gate_blocked_step gate_reach_inv by blast
qed

lemma front_blocked_holder: "gate_inv s \<Longrightarrow> front_blocked (gt s) \<Longrightarrow> m_dequeTasks (gt s) \<noteq> [] \<Longrightarrow> holders s \<noteq> []"
  by (auto simp: gate_inv_def front_blocked_def split: list.splits if_splits)

subsection \<open>Properties\<close>

text \<open>C2. Mutual exclusion and the reader bound: in every interleaving, refusals of the pool
  included, at most one write task holds a slot, then no read task does, and the number of read
  tasks holding one stays within the configured maximum.\<close>

theorem gate_exclusion:
  assumes "gate_reach refusing n s"
  shows "writes (holders s) \<le> 1 \<and> (writes (holders s) = 1 \<longrightarrow> reads (holders s) = 0)
    \<and> (n > 0 \<longrightarrow> reads (holders s) \<le> n)"
  using gate_reach_inv[OF assms] by (auto simp: gate_inv_def slots_ok_def split: if_splits)

text \<open>C3. Fairness: tasks are given their slots in exactly the order in which they were
  submitted; what has not been admitted yet is still in the queue.\<close>

theorem gate_fifo:
  assumes "gate_reach refusing n s"
  shows "submitted s = admitted s @ m_dequeTasks (gt s)"
  using gate_reach_inv[OF assms] by (simp add: gate_inv_def)


text \<open>Three readers with at most two at a time, then a writer.\<close>

definition demo_gate :: gate_sys where
  "demo_gate = do_submit (4, kWrite) (do_hand_over (1, kRead) (do_submit (3, kRead)
     (do_submit (2, kRead) (do_submit (1, kRead) (gate_init 2)))))"

lemma granted_demo: "(1, kRead) \<in> set (granted (do_submit (3, kRead) (do_submit (2, kRead) (do_submit (1, kRead) (gate_init 2)))))"
  by code_simp

lemma demo_gate_reach: "gate_reach refusing 2 demo_gate"
  unfolding demo_gate_def
  by (intro gate_next[OF _ submit] gate_next[OF _ hand] gate_start granted_demo)

theorem gate_exclusion_witness:
  "writes (holders demo_gate) = 0 \<and> reads (holders demo_gate) = 2 \<and> reads (holders demo_gate) \<le> 2"
  using gate_exclusion[OF demo_gate_reach[of True]] by code_simp

theorem gate_fifo_witness:
  "[(1, kRead), (2, kRead), (3, kRead), (4, kWrite)] = admitted demo_gate @ m_dequeTasks (gt demo_gate)"
  using gate_fifo[OF demo_gate_reach[of True]] by code_simp


definition stranded :: gate_sys where
  "stranded = do_drop (1, kWrite) (do_submit (2, kRead) (do_submit (1, kWrite) (gate_init 0)))"

text \<open>When the pool refuses a task, its slot is returned but the queue is not pumped: a
  task that was accepted earlier can remain queued with every slot free and nothing left that
  would admit it, and the gate never becomes idle for \<open>Drain\<close>.\<close>

theorem gate_drop_strands_queue:
  "gate_reach True 0 stranded \<and> holders stranded = [] \<and> m_dequeTasks (gt stranded) = [(2, kRead)]
   \<and> \<not> front_blocked (gt stranded) \<and> \<not> IsIdleLocked (gt stranded)"
proof -
  have "(1, kWrite) \<in> set (granted (do_submit (2, kRead) (do_submit (1, kWrite) (gate_init 0))))"
    by code_simp
  then have "gate_reach True 0 stranded"
    unfolding stranded_def by (intro gate_next[OF _ drop] gate_next[OF _ submit] gate_start) simp_all
  moreover have "holders stranded = []" "m_dequeTasks (gt stranded) = [(2, kRead)]"
    "\<not> front_blocked (gt stranded)" "\<not> IsIdleLocked (gt stranded)"
    by code_simp+
  ultimately show ?thesis by blast
qed

end
