(* ===== verification/PromiseState.thy ===== *)
theory PromiseState
  imports PromiseResult ReadWriteGate
begin

text \<open>
  \<open>detail::CPromiseState\<close> (\<open>src/Common/Async/PromiseState.h\<close>): the state of one layer, a
  one-way switch from pending to settled with the handlers registered in between.  Each
  definition ending in \<open>_locked\<close> is the critical section of the method; the handlers it takes
  off are called afterwards, outside the lock.  A handler is any closure (type \<open>'h\<close>); an empty
  \<open>std::function\<close> is \<open>None\<close>.
\<close>

text \<open>The task kinds: those the gate schedules, and tasks that bypass it.\<close>

datatype TaskKind = Gated task_kind | kDirect

definition kKindBookkeeping :: TaskKind where
  "kKindBookkeeping = kDirect"

record 'h pstate =
  m_handlerInline :: "'h option"
  m_vecHandlers :: "'h option list"
  m_eKind :: TaskKind
  m_bSettled :: bool
  m_result :: promise_result

definition CPromiseState :: "'h pstate" where
  "CPromiseState = \<lparr>m_handlerInline = None, m_vecHandlers = [], m_eKind = Gated kWrite,
     m_bSettled = False, m_result = CPromiseResult None\<rparr>"

definition SetKind :: "TaskKind \<Rightarrow> 'h pstate \<Rightarrow> 'h pstate" where
  "SetKind eKind st = st\<lparr>m_eKind := eKind\<rparr>"

definition opt_list :: "'a option \<Rightarrow> 'a list" where
  "opt_list x = (case x of None \<Rightarrow> [] | Some y \<Rightarrow> [y])"

text \<open>The handlers a settlement will call, in that order.\<close>

definition pending_handlers :: "'h pstate \<Rightarrow> 'h list" where
  "pending_handlers st = opt_list (m_handlerInline st) @ concat (map opt_list (m_vecHandlers st))"

definition Settle_locked :: "promise_result \<Rightarrow> 'h pstate \<Rightarrow> 'h list \<times> 'h pstate" where
  "Settle_locked result st =
     (if m_bSettled st then ([], st)
      else (pending_handlers st,
            st\<lparr>m_result := result, m_bSettled := True, m_handlerInline := None, m_vecHandlers := []\<rparr>))"

text \<open>The critical section of \<open>Register\<close>: the handler is stored, or the caller goes on with
  the result.\<close>

definition Register_locked :: "'h option \<Rightarrow> 'h pstate \<Rightarrow> promise_result option \<times> 'h pstate" where
  "Register_locked fnHandler st =
     (if \<not> m_bSettled st
      then (None, if m_handlerInline st = None then st\<lparr>m_handlerInline := fnHandler\<rparr>
                  else st\<lparr>m_vecHandlers := m_vecHandlers st @ [fnHandler]\<rparr>)
      else (Some (m_result st), st))"

text \<open>The rest of \<open>Register\<close>, once the layer is settled: \<open>post\<close> hands the call to the executor;
  a layer handler that cannot be posted is reported back, a notice is then called in place.
  The result says what happened and what the caller is told.\<close>

datatype 'h registered = Stored | NothingToRun | PostedCall 'h promise_result | CalledHere 'h promise_result | Refused

definition Register ::
  "('h \<Rightarrow> promise_result \<Rightarrow> bool) \<Rightarrow> 'h option \<Rightarrow> bool \<Rightarrow> 'h pstate \<Rightarrow> 'h registered \<times> 'h pstate" where
  "Register post fnHandler bGuaranteedDelivery st =
     (case Register_locked fnHandler st of
        (None, st') \<Rightarrow> (Stored, st')
      | (Some result, st') \<Rightarrow>
          (case fnHandler of
             None \<Rightarrow> (NothingToRun, st')
           | Some h \<Rightarrow>
               if post h result then (PostedCall h result, st')
               else if \<not> bGuaranteedDelivery then (Refused, st')
               else (CalledHere h result, st')))"

definition accepted_call :: "'h registered \<Rightarrow> bool" where
  "accepted_call x \<longleftrightarrow> x \<noteq> Refused"

definition AddHandler :: "('h \<Rightarrow> promise_result \<Rightarrow> bool) \<Rightarrow> 'h option \<Rightarrow> 'h pstate \<Rightarrow> 'h registered \<times> 'h pstate" where
  "AddHandler postGated fnHandler st = Register postGated fnHandler False st"

definition AddNotice :: "('h \<Rightarrow> promise_result \<Rightarrow> bool) \<Rightarrow> 'h \<Rightarrow> 'h pstate \<Rightarrow> 'h registered \<times> 'h pstate" where
  "AddNotice postDirect fnSettled st = Register postDirect (Some fnSettled) True st"

text \<open>\<open>Await\<close> returns when the layer is settled; \<open>AwaitFor\<close> gives up when the layer is still
  pending at its deadline, without touching it.  Each takes the layer at the moment the wait
  would end; \<open>None\<close> means that the caller is still waiting.\<close>

definition Await :: "'h pstate \<Rightarrow> promise_result option" where
  "Await st = (if m_bSettled st then Some (m_result st) else None)"

definition AwaitFor :: "int \<Rightarrow> 'h pstate \<Rightarrow> promise_result option" where
  "AwaitFor nTimeoutMs st =
     (if nTimeoutMs < 0 then Await st
      else if m_bSettled st then Some (m_result st)
      else Some kTimeout)"

subsection \<open>Facts\<close>

lemma opt_list_simps [simp]: "opt_list None = []" "opt_list (Some x) = [x]"
  by (simp_all add: opt_list_def)

lemma CPromiseState_simps [simp]:
  "m_bSettled CPromiseState = False" "pending_handlers CPromiseState = []"
  "m_bSettled (SetKind k st) = m_bSettled st" "pending_handlers (SetKind k st) = pending_handlers st"
  "m_eKind (SetKind k st) = k" "m_result (SetKind k st) = m_result st"
  by (simp_all add: CPromiseState_def pending_handlers_def SetKind_def)

text \<open>The inline slot is filled before the vector.\<close>

definition slots_in_order :: "'h pstate \<Rightarrow> bool" where
  "slots_in_order st \<longleftrightarrow> (m_handlerInline st = None \<longrightarrow> m_vecHandlers st = [])"

lemma Register_pending:
  assumes "slots_in_order st" and "\<not> m_bSettled st"
  shows "fst (Register_locked fn st) = None \<and> slots_in_order (snd (Register_locked fn st))
    \<and> \<not> m_bSettled (snd (Register_locked fn st))
    \<and> pending_handlers (snd (Register_locked fn st)) = pending_handlers st @ opt_list fn"
  using assms by (auto simp: Register_locked_def slots_in_order_def pending_handlers_def)

lemma Register_settled: "m_bSettled st \<Longrightarrow> Register_locked fn st = (Some (m_result st), st)"
  by (simp add: Register_locked_def)

lemma Settle_settled: "m_bSettled st \<Longrightarrow> Settle_locked r st = ([], st)"
  by (simp add: Settle_locked_def)

lemma Settle_pending:
  "\<not> m_bSettled st \<Longrightarrow> fst (Settle_locked r st) = pending_handlers st
     \<and> m_bSettled (snd (Settle_locked r st)) \<and> m_result (snd (Settle_locked r st)) = r
     \<and> pending_handlers (snd (Settle_locked r st)) = [] \<and> slots_in_order (snd (Settle_locked r st))"
  by (simp add: Settle_locked_def pending_handlers_def slots_in_order_def)

subsection \<open>Any sequence of settlements and registrations\<close>

text \<open>The critical sections of one layer in the order in which its lock was taken, and the calls
  they lead to: those of a settlement and those a registration on a settled layer asks for.\<close>

datatype 'h layer_op = OpSettle promise_result | OpRegister 'h

fun layer_run :: "'h layer_op list \<Rightarrow> 'h pstate \<Rightarrow> ('h \<times> promise_result) list" where
  "layer_run [] st = []"
| "layer_run (OpSettle r # ops) st =
     (let (hs, st') = Settle_locked r st in map (\<lambda>h. (h, r)) hs @ layer_run ops st')"
| "layer_run (OpRegister h # ops) st =
     (let (fired, st') = Register_locked (Some h) st
      in (case fired of None \<Rightarrow> [] | Some r \<Rightarrow> [(h, r)]) @ layer_run ops st')"

definition registered_in :: "'h layer_op list \<Rightarrow> 'h list" where
  "registered_in ops = concat (map (\<lambda>op. case op of OpSettle r \<Rightarrow> [] | OpRegister h \<Rightarrow> [h]) ops)"

fun first_settle :: "'h layer_op list \<Rightarrow> promise_result option" where
  "first_settle [] = None"
| "first_settle (OpSettle r # ops) = Some r"
| "first_settle (OpRegister h # ops) = first_settle ops"

lemma registered_in_simps [simp]:
  "registered_in [] = []" "registered_in (OpSettle r # ops) = registered_in ops"
  "registered_in (OpRegister h # ops) = h # registered_in ops"
  by (simp_all add: registered_in_def)

lemma layer_run_settled:
  "m_bSettled st \<Longrightarrow> layer_run ops st = map (\<lambda>h. (h, m_result st)) (registered_in ops)"
proof (induction ops)
  case (Cons op ops)
  then show ?case by (cases op) (simp_all add: Settle_settled Register_settled)
qed simp

lemma layer_run_pending:
  assumes "slots_in_order st" and "\<not> m_bSettled st"
  shows "layer_run ops st =
    (case first_settle ops of None \<Rightarrow> []
     | Some r \<Rightarrow> map (\<lambda>h. (h, r)) (pending_handlers st @ registered_in ops))"
  using assms
proof (induction ops arbitrary: st)
  case (Cons op ops)
  show ?case
  proof (cases op)
    case (OpSettle r)
    with Cons.prems show ?thesis
      using Settle_pending[of st r] by (simp add: split_beta layer_run_settled)
  next
    case (OpRegister h)
    with Cons Register_pending[OF Cons.prems, of "Some h"] show ?thesis
      by (simp add: split_beta split: option.split)
  qed
qed simp

text \<open>Whatever the order in which the lock of a layer is taken, the first settlement decides its
  result, and every handler registered before or after is called exactly once, in the order of
  registration, with that result; while the layer is pending none is.\<close>

theorem settle_once_delivers_all:
  "layer_run ops CPromiseState =
     (case first_settle ops of None \<Rightarrow> [] | Some r \<Rightarrow> map (\<lambda>h. (h, r)) (registered_in ops))"
  using layer_run_pending[of CPromiseState ops]
  by (simp add: slots_in_order_def CPromiseState_def pending_handlers_def split: option.splits)

end
