(* ===== verification/RefCount.thy ===== *)
theory RefCount
  imports Prelude
begin

text \<open>
  Reference counting with weak references: \<open>CRefObject\<close> (\<open>RefObject.cpp\<close>), the shared
  lifetime record and \<open>CWeakPtr::Lock\<close> (\<open>WeakPtr.h\<close>).  The count is an atomic
  \<open>unsigned int\<close>, which wraps; the lifetime record has a mutex and an alive flag.  One object is shared by \<open>N\<close> threads; a
  step is one atomic action of one thread, so every interleaving of the source's atomic
  operations and critical sections is a sequence of steps.  \<open>held\<close> counts the strong
  references a thread owns, \<open>deletes\<close> counts executions of \<open>delete this\<close>.
\<close>

datatype rc_pc =
    PcIdle
  | PcRelZero      \<comment> \<open>\<open>Release\<close>: \<open>fetch_sub\<close> gave zero, the mutex is not yet taken\<close>
  | PcRelLocked    \<comment> \<open>\<open>Release\<close>: inside the critical section\<close>
  | PcRelMarked    \<comment> \<open>\<open>Release\<close>: marked dead, about to delete\<close>
  | PcDelLocked    \<comment> \<open>the destructor: inside its critical section\<close>
  | PcWeakLocked   \<comment> \<open>\<open>Lock\<close>: inside the critical section\<close>
  | PcWeakAdded    \<comment> \<open>\<open>Lock\<close>: reference taken, still inside\<close>

record rc_state =
  m_nRefCount :: u32
  m_bAlive :: bool
  mtx :: "nat option"
  held :: "nat \<Rightarrow> nat"
  pcs :: "nat \<Rightarrow> rc_pc"
  deletes :: nat

text \<open>A new object: count one, owned by the thread that created it.\<close>

definition rc_init :: rc_state where
  "rc_init = \<lparr>m_nRefCount = 1, m_bAlive = True, mtx = None, held = (\<lambda>_. 0)(0 := 1),
              pcs = (\<lambda>_. PcIdle), deletes = 0\<rparr>"

definition AddRef :: "nat \<Rightarrow> rc_state \<Rightarrow> rc_state" where
  "AddRef t s = s\<lparr>m_nRefCount := m_nRefCount s + 1, held := (held s)(t := held s t + 1)\<rparr>"

text \<open>\<open>Release\<close>, first action: the atomic decrement and the test of the new value.\<close>

definition Release_dec :: "nat \<Rightarrow> rc_state \<Rightarrow> rc_state" where
  "Release_dec t s = s\<lparr>m_nRefCount := m_nRefCount s - 1, held := (held s)(t := held s t - 1),
     pcs := (pcs s)(t := if m_nRefCount s - 1 = 0 then PcRelZero else PcIdle)\<rparr>"

definition Release_lock :: "nat \<Rightarrow> rc_state \<Rightarrow> rc_state" where
  "Release_lock t s = s\<lparr>mtx := Some t, pcs := (pcs s)(t := PcRelLocked)\<rparr>"

definition MarkDead :: "nat \<Rightarrow> rc_state \<Rightarrow> rc_state" where
  "MarkDead t s = s\<lparr>m_bAlive := False, mtx := None, pcs := (pcs s)(t := PcRelMarked)\<rparr>"

text \<open>\<open>delete this\<close>: the destructor takes the mutex once more and marks the object dead again.\<close>

definition Destroy_lock :: "nat \<Rightarrow> rc_state \<Rightarrow> rc_state" where
  "Destroy_lock t s = s\<lparr>mtx := Some t, pcs := (pcs s)(t := PcDelLocked)\<rparr>"

definition Destroy :: "nat \<Rightarrow> rc_state \<Rightarrow> rc_state" where
  "Destroy t s = s\<lparr>m_bAlive := False, mtx := None, pcs := (pcs s)(t := PcIdle), deletes := deletes s + 1\<rparr>"

text \<open>\<open>Lock\<close>: take the mutex; test the flag and either give up or take a reference; leave.\<close>

definition Lock_enter :: "nat \<Rightarrow> rc_state \<Rightarrow> rc_state" where
  "Lock_enter t s = s\<lparr>mtx := Some t, pcs := (pcs s)(t := PcWeakLocked)\<rparr>"

definition Lock_dead :: "nat \<Rightarrow> rc_state \<Rightarrow> rc_state" where
  "Lock_dead t s = s\<lparr>mtx := None, pcs := (pcs s)(t := PcIdle)\<rparr>"

definition Lock_addref :: "nat \<Rightarrow> rc_state \<Rightarrow> rc_state" where
  "Lock_addref t s = (AddRef t s)\<lparr>pcs := (pcs s)(t := PcWeakAdded)\<rparr>"

definition Lock_leave :: "nat \<Rightarrow> rc_state \<Rightarrow> rc_state" where
  "Lock_leave t s = s\<lparr>mtx := None, pcs := (pcs s)(t := PcIdle)\<rparr>"

text \<open>One action of thread \<open>t\<close>.  A thread calls \<open>AddRef\<close> and \<open>Release\<close> only on a
  reference it owns; \<open>Lock\<close> needs none: a thread that got hold of the lifetime record before
  the object was deleted may still enter its mutex afterwards (and finds the flag cleared), while
  a \<open>Lock\<close> on an expired record changes nothing.\<close>

inductive rc_step :: "nat \<Rightarrow> rc_state \<Rightarrow> rc_state \<Rightarrow> bool" for N where
  add: "t < N \<Longrightarrow> pcs s t = PcIdle \<Longrightarrow> 0 < held s t \<Longrightarrow> rc_step N s (AddRef t s)"
| dec: "t < N \<Longrightarrow> pcs s t = PcIdle \<Longrightarrow> 0 < held s t \<Longrightarrow> rc_step N s (Release_dec t s)"
| rel_lock: "t < N \<Longrightarrow> pcs s t = PcRelZero \<Longrightarrow> mtx s = None \<Longrightarrow> rc_step N s (Release_lock t s)"
| mark: "t < N \<Longrightarrow> pcs s t = PcRelLocked \<Longrightarrow> rc_step N s (MarkDead t s)"
| del_lock: "t < N \<Longrightarrow> pcs s t = PcRelMarked \<Longrightarrow> mtx s = None \<Longrightarrow> rc_step N s (Destroy_lock t s)"
| del: "t < N \<Longrightarrow> pcs s t = PcDelLocked \<Longrightarrow> rc_step N s (Destroy t s)"
| lock: "t < N \<Longrightarrow> pcs s t = PcIdle \<Longrightarrow> mtx s = None \<Longrightarrow> rc_step N s (Lock_enter t s)"
| dead: "t < N \<Longrightarrow> pcs s t = PcWeakLocked \<Longrightarrow> \<not> m_bAlive s \<Longrightarrow> rc_step N s (Lock_dead t s)"
| up: "t < N \<Longrightarrow> pcs s t = PcWeakLocked \<Longrightarrow> m_bAlive s \<Longrightarrow> rc_step N s (Lock_addref t s)"
| leave: "t < N \<Longrightarrow> pcs s t = PcWeakAdded \<Longrightarrow> rc_step N s (Lock_leave t s)"

inductive rc_reach :: "nat \<Rightarrow> rc_state \<Rightarrow> bool" for N where
  rc_start: "rc_reach N rc_init"
| rc_next: "rc_reach N s \<Longrightarrow> rc_step N s s' \<Longrightarrow> rc_reach N s'"

subsection \<open>Invariant of the calm runs\<close>

definition total :: "nat \<Rightarrow> (nat \<Rightarrow> nat) \<Rightarrow> nat" where
  "total N f = (\<Sum>t<N. f t)"

text \<open>The window: a thread's \<open>Release\<close> has brought the count to zero but has not yet taken the mutex,
  and another thread, whose \<open>Lock\<close> found the flag still set, takes a reference.\<close>

definition late_lock :: "nat \<Rightarrow> rc_state \<Rightarrow> rc_state \<Rightarrow> bool" where
  "late_lock N s s' \<longleftrightarrow> (\<exists>r<N. pcs s r = PcRelZero) \<and> (\<exists>t<N. pcs s t = PcWeakLocked \<and> pcs s' t = PcWeakAdded)"

text \<open>Runs that never hit the window and never hold as many references as wrap the counter.\<close>

inductive rc_calm :: "nat \<Rightarrow> rc_state \<Rightarrow> bool" for N where
  calm_start: "rc_calm N rc_init"
| calm_next: "rc_calm N s \<Longrightarrow> rc_step N s s' \<Longrightarrow> \<not> late_lock N s s' \<Longrightarrow> total N (held s') < 2 ^ 32 \<Longrightarrow> rc_calm N s'"

definition releasing :: "rc_pc \<Rightarrow> nat" where
  "releasing p = (if p \<in> {PcRelZero, PcRelLocked, PcRelMarked, PcDelLocked} then 1 else 0)"

definition n_releasing :: "nat \<Rightarrow> (nat \<Rightarrow> rc_pc) \<Rightarrow> nat" where
  "n_releasing N p = total N (\<lambda>t. releasing (p t))"

text \<open>The threads inside a critical section, and those behind \<open>MarkDead\<close>.\<close>

definition inside :: "rc_pc \<Rightarrow> bool" where
  "inside p \<longleftrightarrow> p \<in> {PcRelLocked, PcDelLocked, PcWeakLocked, PcWeakAdded}"

definition marked :: "rc_pc \<Rightarrow> nat" where
  "marked p = (if p \<in> {PcRelMarked, PcDelLocked} then 1 else 0)"

definition n_marked :: "nat \<Rightarrow> (nat \<Rightarrow> rc_pc) \<Rightarrow> nat" where
  "n_marked N p = total N (\<lambda>t. marked (p t))"

definition rc_inv :: "nat \<Rightarrow> rc_state \<Rightarrow> bool" where
  "rc_inv N s \<longleftrightarrow> m_nRefCount s = of_nat (total N (held s)) \<and> total N (held s) < 2 ^ 32
     \<and> n_releasing N (pcs s) + deletes s = (if total N (held s) = 0 then 1 else 0)
     \<and> n_marked N (pcs s) + deletes s = (if m_bAlive s then 0 else 1)
     \<and> (\<forall>t<N. inside (pcs s t) \<longrightarrow> mtx s = Some t)"

lemma total_upd:
  assumes "t < N"
  shows "total N (f(t := v)) + f t = total N f + v"
proof -
  have "total N (f(t := v)) = v + (\<Sum>i\<in>{..<N} - {t}. f i)"
    using assms unfolding total_def by (subst sum.remove[of _ t]) (auto intro!: sum.cong)
  moreover have "total N f = f t + (\<Sum>i\<in>{..<N} - {t}. f i)"
    using assms unfolding total_def by (subst sum.remove[of _ t]) auto
  ultimately show ?thesis by simp
qed

lemma total_ge: "t < N \<Longrightarrow> f t \<le> total N f"
  unfolding total_def by (rule member_le_sum) auto

lemma total_ge2: "t < N \<Longrightarrow> u < N \<Longrightarrow> t \<noteq> u \<Longrightarrow> f t + f u \<le> total N f"
  using total_upd[of t N f 0] total_ge[of u N "f(t := 0)"] by simp

lemma total_zero: "total N f = 0 \<longleftrightarrow> (\<forall>t<N. f t = 0)"
  by (auto simp: total_def)

lemma n_releasing_upd:
  assumes "t < N"
  shows "n_releasing N (p(t := q)) + releasing (p t) = n_releasing N p + releasing q"
proof -
  have "(\<lambda>i. releasing ((p(t := q)) i)) = (\<lambda>i. releasing (p i))(t := releasing q)" by auto
  then show ?thesis
    using total_upd[OF assms, of "\<lambda>i. releasing (p i)" "releasing q"] by (simp add: n_releasing_def)
qed

lemma n_marked_upd:
  assumes "t < N"
  shows "n_marked N (p(t := q)) + marked (p t) = n_marked N p + marked q"
proof -
  have "(\<lambda>i. marked ((p(t := q)) i)) = (\<lambda>i. marked (p i))(t := marked q)" by auto
  then show ?thesis
    using total_upd[OF assms, of "\<lambda>i. marked (p i)" "marked q"] by (simp add: n_marked_def)
qed

lemmas rc_ops = AddRef_def Release_dec_def Release_lock_def MarkDead_def Destroy_lock_def Destroy_def
  Lock_enter_def Lock_dead_def Lock_addref_def Lock_leave_def

lemma releasing_simps [simp]:
  "releasing PcIdle = 0" "releasing PcRelZero = 1" "releasing PcRelLocked = 1"
  "releasing PcRelMarked = 1" "releasing PcDelLocked = 1" "releasing PcWeakLocked = 0" "releasing PcWeakAdded = 0"
  by (simp_all add: releasing_def)

lemma marked_simps [simp]:
  "marked PcIdle = 0" "marked PcRelZero = 0" "marked PcRelLocked = 0"
  "marked PcRelMarked = 1" "marked PcDelLocked = 1" "marked PcWeakLocked = 0" "marked PcWeakAdded = 0"
  by (simp_all add: marked_def)

lemma inside_simps [simp]:
  "\<not> inside PcIdle" "\<not> inside PcRelZero" "inside PcRelLocked"
  "\<not> inside PcRelMarked" "inside PcDelLocked" "inside PcWeakLocked" "inside PcWeakAdded"
  by (simp_all add: inside_def)

lemma rc_inv_init: "0 < N \<Longrightarrow> rc_inv N rc_init"
  using total_upd[of 0 N "\<lambda>_. 0" 1]
  by (simp add: rc_inv_def rc_init_def n_releasing_def n_marked_def total_def)

text \<open>The count as a number: below the bound the word is zero exactly when no reference is left.\<close>

lemma count_word: "n < 2 ^ 32 \<Longrightarrow> (of_nat n :: u32) = 0 \<longleftrightarrow> n = 0"
  by (auto simp: word_of_nat_eq_0_iff dest: dvd_imp_le)

text \<open>A thread that finds the flag set finds a reference left, or is in the window.\<close>

lemma alive_counted:
  assumes inv: "rc_inv N s" and t: "t < N" "pcs s t = PcWeakLocked" and alive: "m_bAlive s"
    and calm: "\<not> (\<exists>r<N. pcs s r = PcRelZero)"
  shows "0 < total N (held s)"
proof (rule ccontr)
  assume "\<not> 0 < total N (held s)"
  then have "n_releasing N (pcs s) + deletes s = 1" "n_marked N (pcs s) + deletes s = 0"
    using inv alive by (simp_all add: rc_inv_def)
  then obtain r where r: "r < N" "releasing (pcs s r) \<noteq> 0" "marked (pcs s r) = 0"
    using total_zero[of N "\<lambda>i. releasing (pcs s i)"] total_zero[of N "\<lambda>i. marked (pcs s i)"]
    by (auto simp: n_releasing_def n_marked_def)
  then have "pcs s r = PcRelLocked" using calm by (cases "pcs s r") auto
  moreover from this have "inside (pcs s r)" "inside (pcs s t)" using t(2) by simp_all
  then have "mtx s = Some r" "mtx s = Some t" using inv r(1) t(1) unfolding rc_inv_def by blast+
  ultimately show False using t(2) by simp
qed

text \<open>Only one thread is on its way to the deletion.\<close>

lemma only_releaser:
  assumes inv: "rc_inv N s" and t: "t < N" "releasing (pcs s t) = 1" "marked (pcs s t) = 0"
  shows "m_bAlive s"
proof -
  have "n_releasing N (pcs s) + deletes s \<le> 1" using inv by (simp add: rc_inv_def)
  moreover have "1 \<le> n_releasing N (pcs s)"
    using total_ge[OF t(1), of "\<lambda>i. releasing (pcs s i)"] t(2) by (simp add: n_releasing_def)
  ultimately have d: "deletes s = 0" "n_releasing N (pcs s) = 1" by auto
  have "marked (pcs s u) = 0" if "u < N" for u
  proof (cases "u = t")
    case False
    then have "releasing (pcs s u) = 0"
      using total_ge2[OF t(1) that, of "\<lambda>i. releasing (pcs s i)"] d(2) t(2) by (simp add: n_releasing_def)
    then show ?thesis by (cases "pcs s u") auto
  qed (use t(3) in simp)
  then have "n_marked N (pcs s) = 0" by (simp add: n_marked_def total_zero)
  then show ?thesis using inv d(1) by (auto simp: rc_inv_def split: if_splits)
qed

text \<open>A step of thread \<open>t\<close> keeps the invariant if it balances the books and respects the mutex.\<close>

lemma rc_inv_move:
  assumes inv: "rc_inv N s" and t: "t < N" and q: "pcs s' = (pcs s)(t := q)"
    and count: "m_nRefCount s' = of_nat (total N (held s'))" "total N (held s') < 2 ^ 32"
    and rel: "releasing q + deletes s' + (if total N (held s) = 0 then 1 else 0)
      = releasing (pcs s t) + deletes s + (if total N (held s') = 0 then 1 else 0)"
    and mark: "marked q + deletes s' + (if m_bAlive s then 0 else 1)
      = marked (pcs s t) + deletes s + (if m_bAlive s' then 0 else 1)"
    and mutex: "mtx s' = mtx s \<and> (inside q \<longrightarrow> mtx s = Some t) \<or> mtx s' = Some t \<and> mtx s = None
      \<or> mtx s' = None \<and> mtx s = Some t \<and> \<not> inside q"
  shows "rc_inv N s'"
proof -
  have old: "n_releasing N (pcs s) + deletes s = (if total N (held s) = 0 then 1 else 0)"
    "n_marked N (pcs s) + deletes s = (if m_bAlive s then 0 else 1)"
    "\<forall>u<N. inside (pcs s u) \<longrightarrow> mtx s = Some u"
    using inv by (simp_all add: rc_inv_def)
  have "n_releasing N (pcs s') + deletes s' = (if total N (held s') = 0 then 1 else 0)"
    using n_releasing_upd[OF t, of "pcs s" q] old(1) rel unfolding q by linarith
  moreover have "n_marked N (pcs s') + deletes s' = (if m_bAlive s' then 0 else 1)"
    using n_marked_upd[OF t, of "pcs s" q] old(2) mark unfolding q by linarith
  moreover have "\<forall>u<N. inside (pcs s' u) \<longrightarrow> mtx s' = Some u"
  proof (intro allI impI)
    fix u
    assume u: "u < N" "inside (pcs s' u)"
    show "mtx s' = Some u"
    proof (cases "u = t")
      case True
      with u(2) mutex show ?thesis by (auto simp: q)
    next
      case False
      then have "mtx s = Some u" using u old(3) by (simp add: q)
      with False mutex show ?thesis by auto
    qed
  qed
  ultimately show ?thesis using count by (simp add: rc_inv_def)
qed

lemma rc_inv_step:
  assumes "rc_step N s s'" and inv: "rc_inv N s" and calm: "\<not> late_lock N s s'" and bound: "total N (held s') < 2 ^ 32"
  shows "rc_inv N s'"
proof -
  have word: "m_nRefCount s = of_nat (total N (held s))" "total N (held s) < 2 ^ 32"
    and owner: "\<And>u. u < N \<Longrightarrow> inside (pcs s u) \<Longrightarrow> mtx s = Some u"
    using inv by (auto simp: rc_inv_def)
  from assms(1) show ?thesis
  proof cases
    case (add t)
    have "total N (held s') = total N (held s) + 1" "0 < total N (held s)"
      using add total_ge[of t N "held s"] total_upd[of t N "held s" "held s t + 1"] by (simp_all add: rc_ops)
    with add inv bound show ?thesis by (simp add: rc_inv_def rc_ops)
  next
    case (dec t)
    have tot: "total N (held s') + 1 = total N (held s)"
      using dec total_ge[of t N "held s"] total_upd[of t N "held s" "held s t - 1"] by (simp add: rc_ops)
    have less: "m_nRefCount s - 1 = of_nat (total N (held s'))" using word(1) tot[symmetric] by simp
    have zero: "m_nRefCount s - 1 = 0 \<longleftrightarrow> total N (held s') = 0" unfolding less by (rule count_word[OF bound])
    have "pcs s' = (pcs s)(t := if total N (held s') = 0 then PcRelZero else PcIdle)" "m_nRefCount s' = m_nRefCount s - 1"
      using zero by (simp_all add: dec(1) rc_ops)
    moreover have "deletes s' = deletes s" "m_bAlive s' = m_bAlive s" "mtx s' = mtx s" by (simp_all add: dec(1) rc_ops)
    ultimately show ?thesis
      using rc_inv_move[OF inv dec(2), of s'] less bound tot dec(3) by (auto split: if_splits)
  next
    case (up t)
    have pos: "0 < total N (held s)"
      by (rule alive_counted[OF inv up(2,3,4)]) (use calm up in \<open>auto simp: late_lock_def rc_ops\<close>)
    have "total N (held s') = total N (held s) + 1"
      using up total_upd[of t N "held s" "held s t + 1"] by (simp add: rc_ops)
    with up bound pos word(1) owner[of t] show ?thesis
      by (intro rc_inv_move[OF inv up(2), of s' PcWeakAdded]) (simp_all add: rc_ops)
  next
    case (rel_lock t)
    with word show ?thesis by (intro rc_inv_move[OF inv rel_lock(2), of s' PcRelLocked]) (simp_all add: rc_ops)
  next
    case (mark t)
    have "m_bAlive s" by (rule only_releaser[OF inv mark(2)]) (simp_all add: mark)
    with mark word owner[of t] show ?thesis
      by (intro rc_inv_move[OF inv mark(2), of s' PcRelMarked]) (simp_all add: rc_ops)
  next
    case (del_lock t)
    with word show ?thesis by (intro rc_inv_move[OF inv del_lock(2), of s' PcDelLocked]) (simp_all add: rc_ops)
  next
    case (del t)
    have "1 \<le> n_marked N (pcs s)"
      using total_ge[OF del(2), of "\<lambda>i. marked (pcs s i)"] del(3) by (simp add: n_marked_def)
    then have "\<not> m_bAlive s" using inv by (auto simp: rc_inv_def split: if_splits)
    with del word owner[of t] show ?thesis
      by (intro rc_inv_move[OF inv del(2), of s' PcIdle]) (simp_all add: rc_ops)
  next
    case (lock t)
    with word show ?thesis by (intro rc_inv_move[OF inv lock(2), of s' PcWeakLocked]) (simp_all add: rc_ops)
  next
    case (dead t)
    with word owner[of t] show ?thesis by (intro rc_inv_move[OF inv dead(2), of s' PcIdle]) (simp_all add: rc_ops)
  next
    case (leave t)
    with word owner[of t] show ?thesis by (intro rc_inv_move[OF inv leave(2), of s' PcIdle]) (simp_all add: rc_ops)
  qed
qed

lemma rc_calm_inv: "rc_calm N s \<Longrightarrow> 0 < N \<Longrightarrow> rc_inv N s"
  by (induction rule: rc_calm.induct) (auto intro: rc_inv_init rc_inv_step)

subsection \<open>Properties\<close>

text \<open>C31. Reference counting with weak references.  As long as no weak \<open>Lock\<close> takes its reference
  between the moment a \<open>Release\<close> brings the count to zero and the moment it takes the mutex, and fewer
  than \<open>2 ^ 32\<close> references are held at a time: the object is deleted at most once, never while a
  thread owns a strong reference; once it has been marked dead no weak reference gets hold of it
  any more; and when every thread is outside the operations and owns nothing, it has been
  deleted.\<close>

theorem refcount_safe:
  assumes "rc_calm N s" and "0 < N"
  shows "deletes s \<le> 1
    \<and> (deletes s = 1 \<longrightarrow> \<not> m_bAlive s) \<and> (\<not> m_bAlive s \<longrightarrow> (\<forall>t<N. held s t = 0))
    \<and> ((\<forall>t<N. pcs s t = PcIdle \<and> held s t = 0) \<longrightarrow> deletes s = 1)"
proof -
  have inv: "rc_inv N s" using assms by (rule rc_calm_inv)
  moreover have "n_releasing N (pcs s) = 0" if "\<forall>t<N. pcs s t = PcIdle"
    unfolding n_releasing_def total_zero using that by simp
  moreover have "n_marked N (pcs s) \<le> n_releasing N (pcs s)"
    unfolding n_marked_def n_releasing_def total_def by (intro sum_mono) (simp add: marked_def releasing_def)
  ultimately show ?thesis
    using total_zero[of N "held s"] by (auto simp: rc_inv_def split: if_splits)
qed

text \<open>A weak reference is locked while the object lives, both strong references are released, and
  a later attempt finds the object dead.\<close>

definition demo_refs :: rc_state where
  "demo_refs = Lock_dead 1 (Lock_enter 1 (Destroy 1 (Destroy_lock 1 (MarkDead 1 (Release_lock 1 (Release_dec 1
     (Release_dec 0 (Lock_leave 1 (Lock_addref 1 (Lock_enter 1 rc_init))))))))))"

lemma two: "(\<exists>t<2. P (t :: nat)) \<longleftrightarrow> P 0 \<or> P 1"
  by (auto simp: numeral_2_eq_2 less_Suc_eq)

lemma total_two: "total 2 f = f 0 + f 1"
  by (simp add: total_def numeral_2_eq_2)

lemma demo_refs_calm: "rc_calm 2 demo_refs"
  unfolding demo_refs_def
  by (intro calm_next[OF _ dead[of 1]] calm_next[OF _ lock[of 1]] calm_next[OF _ del[of 1]] calm_next[OF _ del_lock[of 1]]
      calm_next[OF _ mark[of 1]] calm_next[OF _ rel_lock[of 1]] calm_next[OF _ dec[of 1]] calm_next[OF _ dec[of 0]]
      calm_next[OF _ leave[of 1]] calm_next[OF _ up[of 1]] calm_next[OF calm_start lock[of 1]])
    (simp_all add: rc_ops rc_init_def late_lock_def two total_two)

theorem refcount_safe_witness:
  "deletes demo_refs = 1 \<and> \<not> m_bAlive demo_refs \<and> held demo_refs 0 = 0 \<and> held demo_refs 1 = 0"
proof -
  have "deletes demo_refs = 1" by (simp add: demo_refs_def rc_ops rc_init_def)
  then show ?thesis using refcount_safe[OF demo_refs_calm] by simp
qed

definition race_state :: rc_state where
  "race_state = Destroy 0 (Destroy_lock 0 (MarkDead 0 (Release_lock 0 (Lock_leave 1 (Lock_addref 1
     (Lock_enter 1 (Release_dec 0 rc_init)))))))"

text \<open>The premise of the previous property is needed: two threads, one dropping the last
  strong reference and one locking a weak reference, can reach a state in which the object has
  been deleted while the second thread owns a strong reference to it.  \<open>Release\<close> decrements
  the count before it takes the lifetime mutex, and \<open>Lock\<close> tests only the alive flag.\<close>

theorem weak_lock_use_after_free:
  "rc_reach 2 race_state \<and> deletes race_state = 1 \<and> held race_state 1 = 1 \<and> pcs race_state 1 = PcIdle"
proof -
  have "rc_reach 2 race_state"
    unfolding race_state_def
    by (intro rc_next[OF _ del[of 0]] rc_next[OF _ del_lock[of 0]] rc_next[OF _ mark[of 0]] rc_next[OF _ rel_lock[of 0]]
        rc_next[OF _ leave[of 1]] rc_next[OF _ up[of 1]] rc_next[OF _ lock[of 1]]
        rc_next[OF rc_start dec[of 0]]) (simp_all add: rc_ops rc_init_def)
  then show ?thesis by (simp add: race_state_def rc_ops rc_init_def)
qed

end
