(* ===== verification/ThreadPool.thy ===== *)
theory ThreadPool
  imports RefCount
begin

text \<open>
  \<open>CThreadPool\<close> (\<open>src/Common/Thread/ThreadPool.cpp\<close>): a fixed number of workers over one
  FIFO queue.  A worker takes a task under the lock, spins for a moment when there is none, and
  then waits on the condition variable; a submitter wakes one worker when the queue was empty
  and more when tasks pile up.  A step is one critical section, one notification or the end of
  one task; the notifications a submitter still owes are counted in the state, because they are
  sent after the lock is released.  A waiting worker may also wake up spuriously.
\<close>

datatype worker_pc =
    WkNone        \<comment> \<open>no thread\<close>
  | WkTop         \<comment> \<open>before the lock at the top of the loop\<close>
  | WkSpin        \<comment> \<open>counted as idle, spinning without the lock\<close>
  | WkWait        \<comment> \<open>in \<open>m_condition.wait\<close>\<close>
  | WkWoken       \<comment> \<open>notified, before it has the lock again\<close>
  | WkRun nat     \<comment> \<open>running a task\<close>
  | WkExit

datatype stop_pc = StopNone | StopNotify | StopJoin

record pool =
  m_dequeTasks :: "nat list"
  m_nPending :: int
  m_nIdleWorkers :: nat
  m_nThreadCount :: nat
  m_bRunning :: bool
  m_bStopping :: bool
  wpc :: "nat \<Rightarrow> worker_pc"
  notifies :: nat
  stopping_pc :: stop_pc
  accepted :: "nat list"
  taken :: "nat list"

definition CThreadPool :: "nat \<Rightarrow> pool" where
  "CThreadPool nThreadCount = \<lparr>m_dequeTasks = [], m_nPending = 0, m_nIdleWorkers = 0,
     m_nThreadCount = nThreadCount, m_bRunning = False, m_bStopping = False, wpc = (\<lambda>_. WkNone),
     notifies = 0, stopping_pc = StopNone, accepted = [], taken = []\<rparr>"

definition Start :: "pool \<Rightarrow> bool \<times> pool" where
  "Start p =
     (if m_bRunning p then (False, p)
      else if m_nThreadCount p = 0 then (False, p)
      else (True, p\<lparr>m_bRunning := True, m_bStopping := False, m_nIdleWorkers := 0,
                    wpc := (\<lambda>w. if w < m_nThreadCount p then WkTop else WkNone)\<rparr>))"

text \<open>The critical section of \<open>Submit\<close>, with the notifications it will send.\<close>

definition wakeups :: "pool \<Rightarrow> nat" where
  "wakeups p =
     (let nQueued = length (m_dequeTasks p) + 1
      in (if m_dequeTasks p = [] then 1 else 0)
         + (if nQueued > 1 then min (nQueued - 1) (m_nIdleWorkers p) else 0))"

definition Submit :: "nat \<Rightarrow> pool \<Rightarrow> bool \<times> pool" where
  "Submit t p =
     (if \<not> m_bRunning p \<or> m_bStopping p then (False, p)
      else (True, p\<lparr>m_dequeTasks := m_dequeTasks p @ [t], m_nPending := m_nPending p + 1,
                    notifies := notifies p + wakeups p, accepted := accepted p @ [t]\<rparr>))"

definition set_pc :: "nat \<Rightarrow> worker_pc \<Rightarrow> pool \<Rightarrow> pool" where
  "set_pc w q p = p\<lparr>wpc := (wpc p)(w := q)\<rparr>"

text \<open>The end of the critical section of \<open>WorkerLoop\<close>: leave the loop, or take the first
  task.\<close>

definition exit_or_take :: "nat \<Rightarrow> bool \<Rightarrow> pool \<Rightarrow> pool" where
  "exit_or_take w bWasIdle p =
     (let p1 = (if bWasIdle then p\<lparr>m_nIdleWorkers := m_nIdleWorkers p - 1\<rparr> else p)
      in case m_dequeTasks p of
           [] \<Rightarrow> set_pc w WkExit p1
         | t # rest \<Rightarrow> set_pc w (WkRun t) (p1\<lparr>m_dequeTasks := rest, m_nPending := m_nPending p - 1,
                                             taken := taken p @ [t]\<rparr>))"

text \<open>The three points at which a worker gets the lock.\<close>

definition worker_top :: "nat \<Rightarrow> pool \<Rightarrow> pool" where
  "worker_top w p =
     (if m_dequeTasks p = [] \<and> \<not> m_bStopping p
      then set_pc w WkSpin (p\<lparr>m_nIdleWorkers := m_nIdleWorkers p + 1\<rparr>)
      else exit_or_take w False p)"

definition worker_relock :: "nat \<Rightarrow> pool \<Rightarrow> pool" where
  "worker_relock w p =
     (if m_dequeTasks p = [] \<and> \<not> m_bStopping p then set_pc w WkWait p else exit_or_take w True p)"

text \<open>\<open>notify_one\<close> wakes some waiting worker, or nobody when none waits.\<close>

definition notify_worker :: "nat \<Rightarrow> pool \<Rightarrow> pool" where
  "notify_worker w p = set_pc w WkWoken (p\<lparr>notifies := notifies p - 1\<rparr>)"

definition notify_nobody :: "pool \<Rightarrow> pool" where
  "notify_nobody p = p\<lparr>notifies := notifies p - 1\<rparr>"

text \<open>\<open>Stop\<close>: set the flag, notify all, join all and reset.\<close>

definition Stop_begin :: "pool \<Rightarrow> pool" where
  "Stop_begin p = p\<lparr>m_bStopping := True, stopping_pc := StopNotify\<rparr>"

definition Stop_notify_all :: "pool \<Rightarrow> pool" where
  "Stop_notify_all p = p\<lparr>wpc := (\<lambda>w. if wpc p w = WkWait then WkWoken else wpc p w), stopping_pc := StopJoin\<rparr>"

definition Stop_joined :: "pool \<Rightarrow> pool" where
  "Stop_joined p = p\<lparr>wpc := (\<lambda>_. WkNone), m_bRunning := False, m_bStopping := False, stopping_pc := StopNone\<rparr>"

inductive pool_step :: "pool \<Rightarrow> pool \<Rightarrow> bool" where
  start: "stopping_pc p = StopNone \<Longrightarrow> pool_step p (snd (Start p))"
| submit: "pool_step p (snd (Submit t p))"
| notify: "0 < notifies p \<Longrightarrow> w < m_nThreadCount p \<Longrightarrow> wpc p w = WkWait \<Longrightarrow> pool_step p (notify_worker w p)"
| lost: "0 < notifies p \<Longrightarrow> \<forall>w < m_nThreadCount p. wpc p w \<noteq> WkWait \<Longrightarrow> pool_step p (notify_nobody p)"
| top: "w < m_nThreadCount p \<Longrightarrow> wpc p w = WkTop \<Longrightarrow> pool_step p (worker_top w p)"
| relock: "w < m_nThreadCount p \<Longrightarrow> wpc p w \<in> {WkSpin, WkWoken} \<Longrightarrow> pool_step p (worker_relock w p)"
| spurious: "w < m_nThreadCount p \<Longrightarrow> wpc p w = WkWait \<Longrightarrow> pool_step p (set_pc w WkWoken p)"
| finished: "w < m_nThreadCount p \<Longrightarrow> wpc p w = WkRun t \<Longrightarrow> pool_step p (set_pc w WkTop p)"
| stop1: "m_bRunning p \<Longrightarrow> stopping_pc p = StopNone \<Longrightarrow> pool_step p (Stop_begin p)"
| stop2: "stopping_pc p = StopNotify \<Longrightarrow> pool_step p (Stop_notify_all p)"
| stop3: "stopping_pc p = StopJoin \<Longrightarrow> \<forall>w < m_nThreadCount p. wpc p w = WkExit \<Longrightarrow> pool_step p (Stop_joined p)"

inductive pool_reach :: "nat \<Rightarrow> pool \<Rightarrow> bool" for n where
  pool_start: "pool_reach n (CThreadPool n)"
| pool_next: "pool_reach n p \<Longrightarrow> pool_step p p' \<Longrightarrow> pool_reach n p'"

subsection \<open>Invariants\<close>

definition idle_pc :: "worker_pc \<Rightarrow> nat" where
  "idle_pc q = (if q \<in> {WkSpin, WkWait, WkWoken} then 1 else 0)"

lemma idle_pc_simps [simp]:
  "idle_pc WkNone = 0" "idle_pc WkTop = 0" "idle_pc WkSpin = 1" "idle_pc WkWait = 1"
  "idle_pc WkWoken = 1" "idle_pc (WkRun t) = 0" "idle_pc WkExit = 0"
  by (simp_all add: idle_pc_def)

definition n_idle :: "nat \<Rightarrow> (nat \<Rightarrow> worker_pc) \<Rightarrow> nat" where
  "n_idle N f = total N (\<lambda>w. idle_pc (f w))"

lemma n_idle_upd: "w < N \<Longrightarrow> n_idle N (f(w := q)) + idle_pc (f w) = n_idle N f + idle_pc q"
proof -
  assume w: "w < N"
  have "(\<lambda>i. idle_pc ((f(w := q)) i)) = (\<lambda>i. idle_pc (f i))(w := idle_pc q)" by auto
  then show ?thesis using total_upd[OF w, of "\<lambda>i. idle_pc (f i)" "idle_pc q"] by (simp add: n_idle_def)
qed

text \<open>A worker that will look at the queue again without being notified.\<close>

definition awake :: "worker_pc \<Rightarrow> bool" where
  "awake q \<longleftrightarrow> q \<in> {WkTop, WkSpin, WkWoken} \<or> (\<exists>t. q = WkRun t)"

definition counts_ok :: "pool \<Rightarrow> bool" where
  "counts_ok p \<longleftrightarrow> m_nPending p = int (length (m_dequeTasks p))
     \<and> accepted p = taken p @ m_dequeTasks p
     \<and> m_nIdleWorkers p = n_idle (m_nThreadCount p) (wpc p)"

definition phase_ok :: "pool \<Rightarrow> bool" where
  "phase_ok p \<longleftrightarrow>
     (m_bRunning p \<longrightarrow> 0 < m_nThreadCount p \<and> (\<forall>w < m_nThreadCount p. wpc p w \<noteq> WkNone))
     \<and> (\<not> m_bRunning p \<longrightarrow> (\<forall>w. wpc p w = WkNone) \<and> m_dequeTasks p = [] \<and> stopping_pc p = StopNone)
     \<and> (m_bStopping p \<longleftrightarrow> stopping_pc p \<noteq> StopNone)
     \<and> (stopping_pc p = StopJoin \<longrightarrow> (\<forall>w < m_nThreadCount p. wpc p w \<noteq> WkWait))
     \<and> ((\<exists>w < m_nThreadCount p. wpc p w = WkExit) \<longrightarrow> m_bStopping p \<and> m_dequeTasks p = [])"

text \<open>No wakeup is lost: while tasks are queued, some worker is awake or will be notified.\<close>

definition wake_ok :: "pool \<Rightarrow> bool" where
  "wake_ok p \<longleftrightarrow> (m_dequeTasks p \<noteq> [] \<longrightarrow>
     0 < notifies p \<or> (\<exists>w < m_nThreadCount p. awake (wpc p w)))"


definition pool_inv :: "pool \<Rightarrow> bool" where
  "pool_inv p \<longleftrightarrow> counts_ok p \<and> phase_ok p \<and> wake_ok p"

lemmas pool_inv_defs = pool_inv_def counts_ok_def phase_ok_def wake_ok_def

lemma pool_inv_init: "pool_inv (CThreadPool n)"
  by (simp add: pool_inv_defs CThreadPool_def n_idle_def total_def)

lemma n_idle_const: "n_idle N (\<lambda>w. if w < N then WkTop else WkNone) = 0" "n_idle N (\<lambda>_. WkNone) = 0"
  by (simp_all add: n_idle_def total_def)

lemma pool_inv_start: "pool_inv p \<Longrightarrow> pool_inv (snd (Start p))"
  by (auto simp: pool_inv_defs Start_def n_idle_const awake_def)

lemma pool_inv_submit: "pool_inv p \<Longrightarrow> pool_inv (snd (Submit t p))"
  by (auto simp: pool_inv_defs Submit_def wakeups_def)

text \<open>A single worker moves on.\<close>

lemma pool_inv_set_pc:
  assumes "pool_inv p" and "w < m_nThreadCount p" and "idle_pc q = idle_pc (wpc p w)"
    and "q \<notin> {WkNone, WkWait, WkExit}" and "wpc p w \<noteq> WkNone"
  shows "pool_inv (set_pc w q p)"
proof -
  have "awake q" using assms(4) by (cases q) (auto simp: awake_def)
  with assms n_idle_upd[OF assms(2), of "wpc p" q] show ?thesis
    by (auto simp: pool_inv_defs set_pc_def)
qed

lemma awake_if: "q \<notin> {WkNone, WkWait, WkExit} \<Longrightarrow> awake q"
  by (cases q) (auto simp: awake_def)

lemma pool_inv_take:
  assumes inv: "pool_inv p" and w: "w < m_nThreadCount p" and run: "wpc p w \<noteq> WkNone"
    and idle: "idle_pc (wpc p w) = (if bWasIdle then 1 else 0)"
    and stop: "m_dequeTasks p = [] \<Longrightarrow> m_bStopping p"
  shows "pool_inv (exit_or_take w bWasIdle p)"
proof (cases "m_dequeTasks p")
  case Nil
  with assms n_idle_upd[OF w, of "wpc p" WkExit] show ?thesis
    by (auto simp: pool_inv_defs exit_or_take_def set_pc_def split: if_splits)
next
  case (Cons t rest)
  have "awake (WkRun t)" by (simp add: awake_def)
  with Cons assms n_idle_upd[OF w, of "wpc p" "WkRun t"] show ?thesis
    by (auto simp: pool_inv_defs exit_or_take_def set_pc_def Let_def split: if_splits)
qed

lemma pool_inv_top:
  assumes "pool_inv p" and "w < m_nThreadCount p" and "wpc p w = WkTop"
  shows "pool_inv (worker_top w p)"
proof (cases "m_dequeTasks p = [] \<and> \<not> m_bStopping p")
  case True
  with assms n_idle_upd[OF assms(2), of "wpc p" WkSpin] show ?thesis
    by (auto simp: pool_inv_defs worker_top_def set_pc_def)
next
  case False
  then show ?thesis using assms by (auto simp: worker_top_def intro!: pool_inv_take)
qed

lemma pool_inv_relock:
  assumes "pool_inv p" and "w < m_nThreadCount p" and "wpc p w \<in> {WkSpin, WkWoken}"
  shows "pool_inv (worker_relock w p)"
proof (cases "m_dequeTasks p = [] \<and> \<not> m_bStopping p")
  case True
  with assms n_idle_upd[OF assms(2), of "wpc p" WkWait] show ?thesis
    by (auto simp: pool_inv_defs worker_relock_def set_pc_def)
next
  case False
  then show ?thesis using assms by (auto simp: worker_relock_def intro!: pool_inv_take)
qed

lemma pool_inv_notify:
  assumes "pool_inv p" and "w < m_nThreadCount p" and "wpc p w = WkWait"
  shows "pool_inv (notify_worker w p)"
proof -
  have "awake WkWoken" by (simp add: awake_def)
  with assms n_idle_upd[OF assms(2), of "wpc p" WkWoken] show ?thesis
    by (auto simp: pool_inv_defs set_pc_def notify_worker_def)
qed

lemma pool_inv_lost:
  assumes "pool_inv p" and "\<forall>w < m_nThreadCount p. wpc p w \<noteq> WkWait"
  shows "pool_inv (notify_nobody p)"
proof -
  have "\<exists>w < m_nThreadCount p. awake (wpc p w)" if "m_dequeTasks p \<noteq> []"
  proof -
    have "0 < m_nThreadCount p" "wpc p 0 \<noteq> WkNone" "wpc p 0 \<noteq> WkExit"
      using assms(1) that by (auto simp: pool_inv_defs)
    then show ?thesis using assms(2) by (auto intro!: awake_if)
  qed
  with assms show ?thesis by (auto simp: pool_inv_defs notify_nobody_def)
qed

lemma pool_inv_stop:
  assumes "pool_inv p"
  shows "m_bRunning p \<Longrightarrow> stopping_pc p = StopNone \<Longrightarrow> pool_inv (Stop_begin p)"
    and "stopping_pc p = StopNotify \<Longrightarrow> pool_inv (Stop_notify_all p)"
    and "stopping_pc p = StopJoin \<Longrightarrow> \<forall>w < m_nThreadCount p. wpc p w = WkExit \<Longrightarrow> pool_inv (Stop_joined p)"
proof -
  show "m_bRunning p \<Longrightarrow> stopping_pc p = StopNone \<Longrightarrow> pool_inv (Stop_begin p)"
    using assms by (auto simp: pool_inv_defs Stop_begin_def)
  let ?f = "\<lambda>w. if wpc p w = WkWait then WkWoken else wpc p w"
  have "n_idle N ?f = n_idle N (wpc p)" for N
    unfolding n_idle_def total_def by (rule sum.cong) auto
  moreover have "awake WkWoken" "\<not> awake WkWait" by (simp_all add: awake_def)
  ultimately show "stopping_pc p = StopNotify \<Longrightarrow> pool_inv (Stop_notify_all p)"
    using assms by (fastforce simp: pool_inv_defs Stop_notify_all_def)
  assume all: "stopping_pc p = StopJoin" "\<forall>w < m_nThreadCount p. wpc p w = WkExit"
  have "n_idle (m_nThreadCount p) (wpc p) = 0" using all(2) by (simp add: n_idle_def total_def)
  then show "pool_inv (Stop_joined p)"
    using assms all by (auto simp: pool_inv_defs Stop_joined_def n_idle_const)
qed

lemma pool_inv_step: "pool_step p p' \<Longrightarrow> pool_inv p \<Longrightarrow> pool_inv p'"
proof (cases rule: pool_step.cases, assumption)
  fix w t
  assume "pool_inv p" "p' = set_pc w WkTop p" "w < m_nThreadCount p" "wpc p w = WkRun t"
  then show "pool_inv p'" by (simp add: pool_inv_set_pc)
next
  fix w
  assume "pool_inv p" "p' = set_pc w WkWoken p" "w < m_nThreadCount p" "wpc p w = WkWait"
  then show "pool_inv p'" by (simp add: pool_inv_set_pc)
qed (simp_all add: pool_inv_start pool_inv_submit pool_inv_notify pool_inv_lost pool_inv_top
      pool_inv_relock pool_inv_stop)

lemma pool_reach_inv: "pool_reach n p \<Longrightarrow> pool_inv p"
  by (induction rule: pool_reach.induct) (auto intro: pool_inv_init pool_inv_step)

subsection \<open>Properties\<close>

text \<open>C19. No wakeup is lost: in every interleaving, spurious wakeups and notifications that
  find nobody waiting included, while tasks are queued some worker is running, about to look at
  the queue, or will be notified; so the queue never sits still with all workers asleep.\<close>

theorem pool_no_lost_wakeup:
  assumes "pool_reach n p" and "m_dequeTasks p \<noteq> []"
  shows "0 < notifies p \<or> (\<exists>w < m_nThreadCount p. awake (wpc p w))"
  using pool_reach_inv[OF assms(1)] assms(2) by (simp add: pool_inv_defs)

text \<open>Tasks are taken in the order in which they were accepted, each once; the lock-free
  pending counter is the length of the queue, and the idle counter that decides how many
  workers a submitter wakes is the number of workers that are spinning or waiting.\<close>

theorem pool_fifo_and_counters:
  assumes "pool_reach n p"
  shows "accepted p = taken p @ m_dequeTasks p \<and> m_nPending p = int (length (m_dequeTasks p))
    \<and> m_nIdleWorkers p = n_idle (m_nThreadCount p) (wpc p)"
  using pool_reach_inv[OF assms] by (simp add: pool_inv_defs)

text \<open>C20. When \<open>Stop\<close> has joined the workers, every task accepted before has been taken and
  run to its end; after \<open>Stop\<close> nothing is accepted until the pool is started again.\<close>

theorem pool_stop_drains:
  assumes "pool_reach n p" and "stopping_pc p = StopJoin" and "\<forall>w < m_nThreadCount p. wpc p w = WkExit"
  shows "taken p = accepted p \<and> m_dequeTasks p = [] \<and> (\<forall>w < m_nThreadCount p. \<forall>t. wpc p w \<noteq> WkRun t)
    \<and> fst (Submit t (Stop_joined p)) = False"
  using pool_reach_inv[OF assms(1)] assms(2,3) by (auto simp: pool_inv_defs Submit_def Stop_joined_def)

text \<open>One worker waits, a task is submitted, and the pool is stopped before the notification
  arrives.\<close>

definition demo_pool :: pool where
  "demo_pool = snd (Submit 7 (worker_relock 0 (worker_top 0 (snd (Start (CThreadPool 1))))))"

definition demo_pool_stopped :: pool where
  "demo_pool_stopped = worker_top 0 (set_pc 0 WkTop (worker_relock 0 (Stop_notify_all (Stop_begin demo_pool))))"

lemma demo_pool_reach: "pool_reach 1 demo_pool"
proof -
  have pc: "wpc (snd (Start (CThreadPool 1))) 0 = WkTop"
    "wpc (worker_top 0 (snd (Start (CThreadPool 1)))) 0 \<in> {WkSpin, WkWoken}"
    "m_nThreadCount (snd (Start (CThreadPool 1))) = 1"
    "m_nThreadCount (worker_top 0 (snd (Start (CThreadPool 1)))) = 1"
    "stopping_pc (CThreadPool 1) = StopNone"
    by code_simp+
  show ?thesis
    unfolding demo_pool_def
    by (intro pool_next[OF _ submit] pool_next[OF _ relock] pool_next[OF _ top] pool_next[OF pool_start start])
      (simp_all add: pc[simplified])
qed

lemma demo_pool_stopped_reach: "pool_reach 1 demo_pool_stopped"
proof -
  let ?a = "Stop_notify_all (Stop_begin demo_pool)"
  have pc: "m_bRunning demo_pool" "stopping_pc demo_pool = StopNone" "stopping_pc (Stop_begin demo_pool) = StopNotify"
    "m_nThreadCount ?a = 1" "wpc ?a 0 \<in> {WkSpin, WkWoken}" "wpc (worker_relock 0 ?a) 0 = WkRun 7"
    "m_nThreadCount (worker_relock 0 ?a) = 1" "m_nThreadCount (set_pc 0 WkTop (worker_relock 0 ?a)) = 1"
    "wpc (set_pc 0 WkTop (worker_relock 0 ?a)) 0 = WkTop"
    by code_simp+
  show ?thesis
    unfolding demo_pool_stopped_def
    by (intro pool_next[OF _ top] pool_next[OF _ finished[where t = 7]] pool_next[OF _ relock] pool_next[OF _ stop2]
        pool_next[OF demo_pool_reach stop1]) (simp_all add: pc[simplified])
qed

theorem pool_no_lost_wakeup_witness:
  "m_dequeTasks demo_pool = [7] \<and> wpc demo_pool 0 = WkWait \<and> 0 < notifies demo_pool"
proof -
  have "m_dequeTasks demo_pool = [7]" "wpc demo_pool 0 = WkWait" "m_nThreadCount demo_pool = 1"
    by code_simp+
  then show ?thesis using pool_no_lost_wakeup[OF demo_pool_reach] by (auto simp: awake_def)
qed

theorem pool_fifo_and_counters_witness:
  "accepted demo_pool = taken demo_pool @ m_dequeTasks demo_pool \<and> m_nIdleWorkers demo_pool = 1"
proof -
  have "n_idle (m_nThreadCount demo_pool) (wpc demo_pool) = 1" by code_simp
  then show ?thesis using pool_fifo_and_counters[OF demo_pool_reach] by simp
qed

theorem pool_stop_drains_witness:
  "taken demo_pool_stopped = [7] \<and> fst (Submit 8 (Stop_joined demo_pool_stopped)) = False"
proof -
  have "stopping_pc demo_pool_stopped = StopJoin" "m_nThreadCount demo_pool_stopped = 1"
    "wpc demo_pool_stopped 0 = WkExit" "accepted demo_pool_stopped = [7]"
    by code_simp+
  then show ?thesis using pool_stop_drains[OF demo_pool_stopped_reach, of 8] by simp
qed

end
