(* ===== verification/AsyncExecutor.thy ===== *)
theory AsyncExecutor
  imports PromiseState ThreadPool
begin

text \<open>
  \<open>CAsyncExecutor\<close> and its handle (\<open>src/Common/Async/AsyncExecutor.h\<close>, \<open>AsyncExecutor.cpp\<close>): a
  thread pool, the read/write gate bound to it and a stop flag; the single funnel through which
  layers, notices and \<open>Post\<close> reach them; the rule that decides between running in place and
  posting.  Then the three run together: an executor that is posted to, runs and is stopped, as
  interleaved steps of the gate and of the pool.  Tasks are numbers; the null handle is \<open>None\<close>.
\<close>

record handle =
  m_pPool :: pool
  m_pGate :: gate
  m_bStopped :: bool

record executor =
  m_nThreadCount :: nat
  m_pHandle :: handle

definition MakeHandle :: "nat \<Rightarrow> handle" where
  "MakeHandle nThreadCount =
     \<lparr>m_pPool = CThreadPool nThreadCount, m_pGate = CReadWriteGate 0, m_bStopped = False\<rparr>"

definition CAsyncExecutor :: "nat \<Rightarrow> executor" where
  "CAsyncExecutor nThreadCount =
     \<lparr>m_nThreadCount = nThreadCount, m_pHandle = MakeHandle nThreadCount\<rparr>"

definition PostDirect :: "handle option \<Rightarrow> nat \<Rightarrow> bool \<times> handle option" where
  "PostDirect pHandle fnTask =
     (case pHandle of
        None \<Rightarrow> (False, None)
      | Some h \<Rightarrow>
          if m_bStopped h then (False, pHandle)
          else let (ok, p) = ThreadPool.Submit fnTask (m_pPool h) in (ok, Some (h\<lparr>m_pPool := p\<rparr>)))"

definition pool_submit :: "pool \<Rightarrow> gtask \<Rightarrow> bool \<times> pool" where
  "pool_submit p t = ThreadPool.Submit (fst t) p"

definition PostToHandle :: "handle option \<Rightarrow> TaskKind \<Rightarrow> nat \<Rightarrow> bool \<times> handle option" where
  "PostToHandle pHandle eKind fnTask =
     (case eKind of
        kDirect \<Rightarrow> PostDirect pHandle fnTask
      | Gated k \<Rightarrow>
          (case pHandle of
             None \<Rightarrow> (False, None)
           | Some h \<Rightarrow>
               if m_bStopped h then (False, pHandle)
               else let (ok, p, g) = ReadWriteGate.Submit m_bRunning pool_submit (fnTask, k) (m_pPool h, m_pGate h)
                    in (ok, Some (h\<lparr>m_pPool := p, m_pGate := g\<rparr>))))"

definition kMaxInlineDepth :: nat where
  "kMaxInlineDepth = 64"

text \<open>\<open>ShouldInline\<close>: \<open>canRunInline\<close> is the gate's \<open>CanRunInline\<close> for the calling thread,
  \<open>pending\<close> the pool's \<open>PendingCount\<close>.\<close>

definition ShouldInline :: "bool \<Rightarrow> nat \<Rightarrow> (task_kind \<Rightarrow> bool) \<Rightarrow> TaskKind \<Rightarrow> bool \<Rightarrow> nat \<Rightarrow> bool" where
  "ShouldInline inExecutorThread depth canRunInline eKind bRequireIdle pending =
     (if \<not> inExecutorThread \<or> depth \<ge> kMaxInlineDepth then False
      else if (case eKind of kDirect \<Rightarrow> False | Gated k \<Rightarrow> \<not> canRunInline k) then False
      else \<not> bRequireIdle \<or> pending = 0)"

definition PostImpl :: "TaskKind \<Rightarrow> nat option \<Rightarrow> executor \<Rightarrow> bool \<times> executor" where
  "PostImpl eKind fnTask e =
     (if m_bStopped (m_pHandle e) then (False, e)
      else case fnTask of
        None \<Rightarrow> (False, e)
      | Some t \<Rightarrow>
          let (ok, h) = PostToHandle (Some (m_pHandle e)) eKind t
          in (ok, e\<lparr>m_pHandle := (case h of None \<Rightarrow> m_pHandle e | Some h' \<Rightarrow> h')\<rparr>))"

definition Post :: "TaskKind \<Rightarrow> nat option \<Rightarrow> executor \<Rightarrow> bool \<times> executor" where
  "Post eKind fnTask e = PostImpl eKind fnTask e"

definition Start :: "executor \<Rightarrow> bool \<times> executor" where
  "Start e =
     (if m_bRunning (m_pPool (m_pHandle e)) then (False, e)
      else if m_nThreadCount e = 0 then (False, e)
      else let h = (if m_bStopped (m_pHandle e) then MakeHandle (m_nThreadCount e) else m_pHandle e);
               (ok, p) = ThreadPool.Start (m_pPool h)
           in (ok, e\<lparr>m_pHandle := h\<lparr>m_pPool := p\<rparr>\<rparr>))"

definition IsRunning :: "executor \<Rightarrow> bool" where
  "IsRunning e \<longleftrightarrow> \<not> m_bStopped (m_pHandle e) \<and> m_bRunning (m_pPool (m_pHandle e))"

definition IsStopped :: "executor \<Rightarrow> bool" where
  "IsStopped e \<longleftrightarrow> m_bStopped (m_pHandle e)"

subsection \<open>What the gate needs of a pool\<close>

text \<open>The interface: a pool that is open takes a task to the end of what it has accepted and
  stays open; one that is not refuses and does not change.\<close>

locale task_pool =
  fixes submit :: "'p \<Rightarrow> gtask \<Rightarrow> bool \<times> 'p"
    and accepting :: "'p \<Rightarrow> bool"
    and tasks_of :: "'p \<Rightarrow> nat list"
  assumes submit_open: "accepting p \<Longrightarrow> fst (submit p t) \<and> accepting (snd (submit p t))
      \<and> tasks_of (snd (submit p t)) = tasks_of p @ [fst t]"
    and submit_closed: "\<not> accepting p \<Longrightarrow> submit p t = (False, p)"
begin

lemma dispatch_open:
  "accepting p \<Longrightarrow> (\<exists>p'. DispatchToPool submit vec (p, g) = (False, p', g) \<and> accepting p'
     \<and> tasks_of p' = tasks_of p @ map fst vec)"
proof (induction vec arbitrary: p)
  case (Cons t vec)
  from submit_open[OF Cons.prems, of t] have s: "fst (submit p t)" "accepting (snd (submit p t))"
    "tasks_of (snd (submit p t)) = tasks_of p @ [fst t]" by simp_all
  from Cons.IH[OF s(2)] s show ?case by (force simp: split_beta)
qed simp

lemma dispatch_closed:
  "\<not> accepting p \<Longrightarrow> fst (DispatchToPool submit vec (p, g)) = (vec \<noteq> [])
     \<and> fst (snd (DispatchToPool submit vec (p, g))) = p"
  by (induction vec arbitrary: g) (simp_all add: submit_closed split_beta)

end

definition pool_open :: "pool \<Rightarrow> bool" where
  "pool_open p \<longleftrightarrow> m_bRunning p \<and> \<not> m_bStopping p"

interpretation workers: task_pool pool_submit pool_open accepted
  by unfold_locales (simp_all add: pool_submit_def pool_open_def ThreadPool.Submit_def)

subsection \<open>Posting\<close>

definition running_handle :: "handle \<Rightarrow> bool" where
  "running_handle h \<longleftrightarrow> \<not> m_bStopped h \<and> \<not> m_bClosed (m_pGate h) \<and> pool_open (m_pPool h)"

text \<open>A direct task reaches the pool of a running executor at once.  A gated task is accepted;
  the tasks it lets through the gate, and no others, reach the pool, in their order.\<close>

lemma post_direct_running:
  "running_handle h \<Longrightarrow> \<exists>h'. PostToHandle (Some h) kDirect t = (True, Some h')
     \<and> running_handle h' \<and> m_pGate h' = m_pGate h \<and> accepted (m_pPool h') = accepted (m_pPool h) @ [t]"
  by (simp add: PostToHandle_def PostDirect_def running_handle_def pool_open_def ThreadPool.Submit_def)

lemma Submit_locked_closed: "m_bClosed (snd (Submit_locked t g)) = m_bClosed g" if "slots_ok g"
proof -
  have "slots_ok (g\<lparr>gate.m_dequeTasks := gate.m_dequeTasks g @ [t]\<rparr>)" using that by (simp add: slots_ok_def)
  from PumpLocked_spec[OF prod.collapse[symmetric] this] show ?thesis by (simp add: Submit_locked_def)
qed

lemma post_gated_running:
  assumes run: "running_handle h" and ok: "slots_ok (m_pGate h)" and sub: "Submit_locked (t, k) (m_pGate h) = (vec, g)"
  shows "\<exists>h'. PostToHandle (Some h) (Gated k) t = (True, Some h') \<and> running_handle h' \<and> m_pGate h' = g
     \<and> accepted (m_pPool h') = accepted (m_pPool h) @ map fst vec"
proof -
  have op: "pool_open (m_pPool h)" using run by (simp add: running_handle_def)
  from workers.dispatch_open[OF op, of vec g] obtain p' where
    d: "DispatchToPool pool_submit vec (m_pPool h, g) = (False, p', g)" "pool_open p'"
       "accepted p' = accepted (m_pPool h) @ map fst vec" by blast
  have "\<not> m_bClosed g" using Submit_locked_closed[OF ok, of "(t, k)"] sub run by (simp add: running_handle_def)
  with d run sub show ?thesis
    by (simp add: PostToHandle_def ReadWriteGate.Submit_def running_handle_def pool_open_def)
qed

lemma post_stopped: "m_bStopped h \<Longrightarrow> PostToHandle (Some h) eKind t = (False, Some h)"
  by (simp add: PostToHandle_def PostDirect_def split: TaskKind.split)

text \<open>Running in place never exceeds the depth limit, never leaves the executor's thread, and
  for a gated layer only happens with the slot in hand and nobody waiting.\<close>

lemma should_inline_sound:
  "ShouldInline inThread depth (\<lambda>k. CanRunInline this frame k g) eKind idle pending \<Longrightarrow>
     inThread \<and> Suc depth \<le> kMaxInlineDepth
     \<and> (\<forall>k. eKind = Gated k \<longrightarrow> frame = Some (this, k) \<and> gate.m_dequeTasks g = [])
     \<and> (idle \<longrightarrow> pending = 0)"
  by (auto simp: ShouldInline_def CanRunInline_def split: if_splits TaskKind.splits)

end
