(* ===== verification/Promise.thy ===== *)
theory Promise
  imports AsyncExecutor
begin

text \<open>
  Promise chains (\<open>src/Common/Async/Promise.h\<close>, \<open>PromiseCore.h\<close>, \<open>PromiseLayer.h\<close>,
  \<open>GateGuard.h\<close>) as one system: the layers of all chains, the shared contexts, the posted tasks,
  and threads that run them.  Every closure the code creates is a constructor of a datatype
  below, with what the closure captures as its arguments; the code the closure runs is
  \<open>perform\<close>.  A thread has a stack of what it still has to do, because a settlement calls the
  next layer's handler from inside the call.  A step is one such piece of work of one thread, so
  a run is any interleaving.  A gated task is taken when the gate of its executor lets it pass:
  the gates are first come first served, with any number of readers together and a writer alone,
  so a task passes when no task that runs or was posted before it excludes it; among the tasks
  that may run any may be taken next.  A task that was accepted may still be lost: when the pool
  of an executor that has stopped refuses what the gate lets pass, \<open>DispatchToPool\<close> drops it.

  User code of a layer is a function on the shared context, with the gates it asks for by
  \<open>ASYNC_GATE\<close> before anything else.  User code that may create promises itself (factories,
  starters, notices, the copy function of \<open>ThenBridge\<close>) is the environment's choice in the step
  that runs it: whatever chains it builds are steps of their own.  User code returns; a thread that
  blocks in \<open>Await\<close> for ever is outside the model.
\<close>

subsection \<open>Closures\<close>

text \<open>A core is an executor and a context; a handle to a layer is a core and the layer.\<close>

type_synonym core = "nat \<times> nat"

datatype HandlerMode = kModeThen | kModeCatch | kModeFinally

datatype 'c then_fn = ThenFn (then_gates: "TaskKind list") (then_code: "'c \<Rightarrow> outcome \<times> 'c")

datatype 'c result_fn =
  ResultFn (result_gates: "TaskKind list") (result_code: "promise_result \<Rightarrow> 'c \<Rightarrow> outcome \<times> 'c")

text \<open>The handlers that are registered on a layer.  The first three are the closures of
  \<open>AppendThenLayer\<close>, \<open>AppendResultLayer\<close> and \<open>ThenPromise\<close>, with the layer they lead to; then
  the notices of \<open>OnSettled\<close> and \<open>OnSettledOn\<close>; last the notices by which the framework itself
  waits for a child: that of \<open>Adopt\<close> and that of \<open>BindChildSettle\<close>.\<close>

datatype 'c handler =
    AfterThen core nat "'c then_fn"
  | AfterResult core nat "'c result_fn" HandlerMode
  | AfterPromise core nat bool      \<comment> \<open>whether a factory was given\<close>
  | Notice nat
  | NoticeOn nat nat                \<comment> \<open>the target executor\<close>
  | AdoptChild nat
  | Bridge nat nat                  \<comment> \<open>the context to copy to, and the layer to settle\<close>

text \<open>The bodies of \<open>MakeThenRunner\<close> and \<open>MakeResultRunner\<close>.\<close>

datatype 'c body = ThenBody "'c then_fn" | ResultBody "'c result_fn" promise_result HandlerMode

fun body_gates :: "'c body \<Rightarrow> TaskKind list" where
  "body_gates (ThenBody fn) = then_gates fn"
| "body_gates (ResultBody fn upResult eMode) = result_gates fn"

fun run_body :: "'c body \<Rightarrow> 'c \<Rightarrow> promise_result \<times> 'c" where
  "run_body (ThenBody fn) c = (let (r, c') = then_code fn c in (capture r, c'))"
| "run_body (ResultBody fn upResult eMode) c =
     (let (r, c') = result_code fn upResult c
      in (case r of
            Returns ownResult \<Rightarrow> (if eMode = kModeFinally then upResult else ownResult, c')
          | _ \<Rightarrow> (capture r, c')))"

datatype 'c action =
    Call "'c handler" promise_result
  | RunLayer core nat "'c body" bool     \<comment> \<open>\<open>MakeLayerRunner\<close>; whether it has been suspended before\<close>
  | DoAdopt core nat bool
  | BindChild nat nat core nat           \<comment> \<open>context and layer of the bridge, the child\<close>
  | RunStarter nat
  | RunNotice nat promise_result
  | Settle nat promise_result
  | EndInline                            \<comment> \<open>the destructor of \<open>CInlineGuard\<close>\<close>
  | EndTask                              \<comment> \<open>the destructor of \<open>CTaskFrame\<close>\<close>

text \<open>How a layer came to be.\<close>

datatype 'c origin =
    OFirst core "'c then_fn"
  | OThen core nat "'c then_fn"
  | OResult core nat "'c result_fn" HandlerMode
  | OPromise core nat
  | OBridge core nat
  | OExternal core

record 'c thread =
  t_exec :: "nat option"                    \<comment> \<open>the executor whose worker it is\<close>
  t_frame :: "(nat \<times> task_kind) option"     \<comment> \<open>the gated task it is running\<close>
  t_depth :: nat
  t_stack :: "'c action list"

datatype event =
    Ran nat "(nat \<times> task_kind) option" promise_result   \<comment> \<open>a layer's user code, and the frame it ran in\<close>
  | Noticed nat promise_result
  | SettledBy nat promise_result
  | Registered nat nat                  \<comment> \<open>a client's notice and its layer, when it is registered\<close>

record 'c sys =
  s_layers :: "'c handler pstate list"
  s_origin :: "'c origin list"
  s_ctx :: "nat \<Rightarrow> 'c"
  s_posted :: "(nat \<times> TaskKind \<times> 'c action) list"
  s_dropped :: "(nat \<times> TaskKind \<times> 'c action) list"    \<comment> \<open>accepted, and then dropped by a stopped executor\<close>
  s_accepts :: "nat \<Rightarrow> TaskKind \<Rightarrow> bool"
  s_threads :: "'c thread list"
  s_events :: "event list"

text \<open>What the environment decides in a step: whether the gate has nobody queued, what the user
  code that the step runs did, and what it left in the context.\<close>

datatype child_outcome = Child core nat | ChildThrows exn | ChildThrowsOther

datatype starter_outcome = StarterOk | StarterThrows exn | StarterThrowsOther | StarterMissing

record 'c env =
  gate_free :: bool
  child_is :: child_outcome
  starter_is :: starter_outcome
  apply_is :: outcome
  ctx_is :: 'c

subsection \<open>Running a closure\<close>

type_synonym 'c conf = "'c sys \<times> 'c thread"

definition push :: "'c action list \<Rightarrow> 'c conf \<Rightarrow> 'c conf" where
  "push as c = (fst c, snd c\<lparr>t_stack := as @ t_stack (snd c)\<rparr>)"

definition log_event :: "event \<Rightarrow> 'c conf \<Rightarrow> 'c conf" where
  "log_event ev c = ((fst c)\<lparr>s_events := s_events (fst c) @ [ev]\<rparr>, snd c)"

text \<open>\<open>PostToHandle\<close> as the layers see it: the task is accepted, or it is not; \<open>refused\<close> is what
  the caller does then.\<close>

definition post_or :: "nat \<Rightarrow> TaskKind \<Rightarrow> 'c action \<Rightarrow> 'c action list \<Rightarrow> 'c conf \<Rightarrow> 'c conf" where
  "post_or e k a refused c =
     (if s_accepts (fst c) e k then ((fst c)\<lparr>s_posted := s_posted (fst c) @ [(e, k, a)]\<rparr>, snd c)
      else push refused c)"

text \<open>\<open>ShouldInline\<close> for this thread.\<close>

definition inlines :: "nat \<Rightarrow> TaskKind \<Rightarrow> 'c env \<Rightarrow> 'c thread \<Rightarrow> bool" where
  "inlines e k env th = ShouldInline (t_exec th = Some e) (t_depth th)
     (\<lambda>g. t_frame th = Some (e, g) \<and> gate_free env) k False 0"

definition inline_call :: "'c action \<Rightarrow> 'c conf \<Rightarrow> 'c conf" where
  "inline_call a c = push [a, EndInline] (fst c, (snd c)\<lparr>t_depth := Suc (t_depth (snd c))\<rparr>)"

text \<open>\<open>CPromiseCore::Dispatch\<close>: \<open>DispatchInlineOrPost\<close>, and \<open>L\<close> settled when it fails.\<close>

definition kind_of :: "nat \<Rightarrow> 'c sys \<Rightarrow> TaskKind" where
  "kind_of L s = m_eKind (s_layers s ! L)"

definition Dispatch :: "core \<Rightarrow> nat \<Rightarrow> 'c action \<Rightarrow> 'c env \<Rightarrow> 'c conf \<Rightarrow> 'c conf" where
  "Dispatch core L a env c =
     (let k = kind_of L (fst c)
      in if inlines (fst core) k env (snd c) then inline_call a c
         else post_or (fst core) k a [Settle L kStopped] c)"

text \<open>\<open>AddNotice\<close> on the layer \<open>U\<close>, whose executor is \<open>e\<close>.\<close>

definition add_notice :: "nat \<Rightarrow> nat \<Rightarrow> 'c handler \<Rightarrow> 'c conf \<Rightarrow> 'c conf" where
  "add_notice e U h c =
     (case Register_locked (Some h) (s_layers (fst c) ! U) of
        (None, st) \<Rightarrow> ((fst c)\<lparr>s_layers := (s_layers (fst c))[U := st]\<rparr>, snd c)
      | (Some r, st) \<Rightarrow>
          if s_accepts (fst c) e kDirect
          then ((fst c)\<lparr>s_posted := s_posted (fst c) @ [(e, kDirect, Call h r)]\<rparr>, snd c)
          else inline_call (Call h r) c)"

text \<open>\<open>AddHandler\<close> on \<open>U\<close> for the new layer \<open>L\<close>, and \<open>SettleStopped\<close> when it is refused.\<close>

definition add_handler :: "nat \<Rightarrow> nat \<Rightarrow> nat \<Rightarrow> 'c handler \<Rightarrow> 'c conf \<Rightarrow> 'c conf" where
  "add_handler e U L h c =
     (case Register_locked (Some h) (s_layers (fst c) ! U) of
        (None, st) \<Rightarrow> ((fst c)\<lparr>s_layers := (s_layers (fst c))[U := st]\<rparr>, snd c)
      | (Some r, st) \<Rightarrow> post_or e (kind_of L (fst c)) (Call h r) [Settle L kStopped] c)"

text \<open>\<open>EnterGate\<close> for each gate the body asks for: the first one whose slot the thread does not
  hold suspends the layer.\<close>

definition InGateSlot :: "nat \<Rightarrow> task_kind \<Rightarrow> 'c thread \<Rightarrow> bool" where
  "InGateSlot e g th \<longleftrightarrow> t_frame th = Some (e, g)"

fun EnterGates :: "nat \<Rightarrow> TaskKind list \<Rightarrow> 'c thread \<Rightarrow> task_kind option" where
  "EnterGates e [] th = None"
| "EnterGates e (kDirect # ks) th = EnterGates e ks th"
| "EnterGates e (Gated g # ks) th = (if InGateSlot e g th then EnterGates e ks th else Some g)"

text \<open>The notice of \<open>BindChildSettle\<close>, called with the child's result.\<close>

definition BindChildSettle :: "nat \<Rightarrow> nat \<Rightarrow> promise_result \<Rightarrow> 'c env \<Rightarrow> 'c conf \<Rightarrow> 'c conf" where
  [simp]: "BindChildSettle x L r env c =
     (if IsRejected r then push [Settle L r] c
      else push [Settle L (case apply_is env of Returns _ \<Rightarrow> Resolve | o' \<Rightarrow> capture o')]
             ((fst c)\<lparr>s_ctx := (s_ctx (fst c))(x := ctx_is env)\<rparr>, snd c))"

definition RunChainStarter :: "nat \<Rightarrow> 'c env \<Rightarrow> 'c conf \<Rightarrow> 'c conf" where
  [simp]: "RunChainStarter L env c =
     (case starter_is env of
        StarterOk \<Rightarrow> c
      | StarterThrows e \<Rightarrow> push [Settle L (capture (Throws e))] c
      | StarterThrowsOther \<Rightarrow> push [Settle L (capture ThrowsOther)] c
      | StarterMissing \<Rightarrow> push [Settle L kNoReason] c)"

fun call_handler :: "'c handler \<Rightarrow> promise_result \<Rightarrow> 'c env \<Rightarrow> 'c conf \<Rightarrow> 'c conf" where
  "call_handler (AfterThen core L fn) upResult env c =
     (if IsRejected upResult then push [Settle L upResult] c
      else Dispatch core L (RunLayer core L (ThenBody fn) False) env c)"
| "call_handler (AfterResult core L fn eMode) upResult env c =
     (if eMode = kModeCatch \<and> IsFulfilled upResult then push [Settle L upResult] c
      else Dispatch core L (RunLayer core L (ResultBody fn upResult eMode) False) env c)"
| "call_handler (AfterPromise core L given) upResult env c =
     (if IsRejected upResult then push [Settle L upResult] c
      else Dispatch core L (DoAdopt core L given) env c)"
| "call_handler (Notice n) r env c = push [RunNotice n r] c"
| "call_handler (NoticeOn e n) r env c =
     (if t_exec (snd c) = Some e then push [RunNotice n r] c
      else post_or e kDirect (RunNotice n r) [RunNotice n r] c)"
| "call_handler (AdoptChild L) r env c = push [Settle L r] c"
| "call_handler (Bridge x L) r env c = BindChildSettle x L r env c"

definition run_layer :: "core \<Rightarrow> nat \<Rightarrow> 'c body \<Rightarrow> bool \<Rightarrow> 'c conf \<Rightarrow> 'c conf" where
  "run_layer core L body bRetried c =
     (case EnterGates (fst core) (body_gates body) (snd c) of
        Some g \<Rightarrow>
          if bRetried then push [Settle L kGateTwice] c
          else post_or (fst core) (Gated g) (RunLayer core L body True) [Settle L kStopped] c
      | None \<Rightarrow>
          let (result, ctx) = run_body body (s_ctx (fst c) (snd core))
          in push [Settle L result] (log_event (Ran L (t_frame (snd c)) result)
               ((fst c)\<lparr>s_ctx := (s_ctx (fst c))(snd core := ctx)\<rparr>, snd c)))"

definition adopt :: "core \<Rightarrow> nat \<Rightarrow> bool \<Rightarrow> 'c env \<Rightarrow> 'c conf \<Rightarrow> 'c conf" where
  "adopt core L given env c =
     (if \<not> given then push [Settle L kStopped] c
      else let c' = ((fst c)\<lparr>s_ctx := (s_ctx (fst c))(snd core := ctx_is env)\<rparr>, snd c)
           in case child_is env of
                Child child u \<Rightarrow> add_notice (fst child) u (AdoptChild L) c'
              | ChildThrows e \<Rightarrow> push [Settle L (capture (Throws e))] c'
              | ChildThrowsOther \<Rightarrow> push [Settle L (capture ThrowsOther)] c')"

definition settle :: "nat \<Rightarrow> promise_result \<Rightarrow> 'c conf \<Rightarrow> 'c conf" where
  "settle L r c =
     (let (hs, st) = Settle_locked r (s_layers (fst c) ! L)
      in push (map (\<lambda>h. Call h r) hs)
           ((fst c)\<lparr>s_layers := (s_layers (fst c))[L := st],
              s_events := s_events (fst c)
                @ (if m_bSettled (s_layers (fst c) ! L) then [] else [SettledBy L r])\<rparr>, snd c))"

fun perform :: "'c action \<Rightarrow> 'c env \<Rightarrow> 'c conf \<Rightarrow> 'c conf" where
  "perform (Call h r) env c = call_handler h r env c"
| "perform (RunLayer core L body bRetried) env c = run_layer core L body bRetried c"
| "perform (DoAdopt core L given) env c = adopt core L given env c"
| "perform (BindChild x L child u) env c = add_notice (fst child) u (Bridge x L) c"
| "perform (RunStarter L) env c = RunChainStarter L env c"
| "perform (RunNotice n r) env c = log_event (Noticed n r) c"
| "perform (Settle L r) env c = settle L r c"
| "perform EndInline env c = (fst c, (snd c)\<lparr>t_depth := t_depth (snd c) - 1\<rparr>)"
| "perform EndTask env c = (fst c, (snd c)\<lparr>t_frame := None\<rparr>)"

subsection \<open>What clients do\<close>

text \<open>\<open>NewLayerState\<close> with how the layer came to be; the new layer is the last one.\<close>

definition new_layer :: "TaskKind \<Rightarrow> 'c origin \<Rightarrow> 'c conf \<Rightarrow> 'c conf" where
  "new_layer k og c = ((fst c)\<lparr>s_layers := s_layers (fst c) @ [SetKind k CPromiseState],
     s_origin := s_origin (fst c) @ [og]\<rparr>, snd c)"

definition next_id :: "'c conf \<Rightarrow> nat" where
  "next_id c = length (s_layers (fst c))"

text \<open>\<open>StartChain\<close>: \<open>exec.NewPromise\<close> with a handler, and the one of a coroutine.\<close>

definition StartChain :: "core \<Rightarrow> TaskKind \<Rightarrow> 'c then_fn \<Rightarrow> 'c conf \<Rightarrow> 'c conf" where
  "StartChain core k fn c =
     (let L = next_id c
      in post_or (fst core) k (RunLayer core L (ThenBody fn) False) [Settle L kStopped]
           (new_layer k (OFirst core fn) c))"

text \<open>\<open>NewFromHandle\<close> with a starter, whose resolve and reject functions settle the layer.\<close>

definition NewFromHandle :: "core \<Rightarrow> TaskKind \<Rightarrow> 'c env \<Rightarrow> 'c conf \<Rightarrow> 'c conf" where
  "NewFromHandle core k env c =
     (let L = next_id c in Dispatch core L (RunStarter L) env (new_layer k (OExternal core) c))"

text \<open>\<open>NewFromHandle\<close> as \<open>ThenBridge\<close> uses it: its starter is \<open>BindChildSettle\<close> on the child.\<close>

definition NewBridge :: "core \<Rightarrow> core \<Rightarrow> nat \<Rightarrow> 'c env \<Rightarrow> 'c conf \<Rightarrow> 'c conf" where
  "NewBridge core child u env c =
     (let L = next_id c
      in Dispatch core L (BindChild (snd core) L child u) env (new_layer kKindBookkeeping (OBridge core u) c))"

definition AppendThenLayer :: "core \<Rightarrow> nat \<Rightarrow> 'c then_fn \<Rightarrow> TaskKind \<Rightarrow> 'c conf \<Rightarrow> 'c conf" where
  "AppendThenLayer core U fn k c =
     (let L = next_id c in add_handler (fst core) U L (AfterThen core L fn) (new_layer k (OThen core U fn) c))"

definition AppendResultLayer ::
  "core \<Rightarrow> nat \<Rightarrow> 'c result_fn \<Rightarrow> HandlerMode \<Rightarrow> TaskKind \<Rightarrow> 'c conf \<Rightarrow> 'c conf" where
  "AppendResultLayer core U fn eMode k c =
     (let L = next_id c
      in add_handler (fst core) U L (AfterResult core L fn eMode) (new_layer k (OResult core U fn eMode) c))"

definition ThenPromise :: "core \<Rightarrow> nat \<Rightarrow> bool \<Rightarrow> TaskKind \<Rightarrow> 'c conf \<Rightarrow> 'c conf" where
  "ThenPromise core U given k c =
     (let L = next_id c in add_handler (fst core) U L (AfterPromise core L given) (new_layer k (OPromise core U) c))"

definition OnSettled :: "core \<Rightarrow> nat \<Rightarrow> nat \<Rightarrow> 'c conf \<Rightarrow> 'c conf" where
  "OnSettled core U n c = add_notice (fst core) U (Notice n) (log_event (Registered n U) c)"

definition OnSettledOn :: "nat \<Rightarrow> nat \<Rightarrow> nat \<Rightarrow> 'c conf \<Rightarrow> 'c conf" where
  "OnSettledOn target U n c = add_notice target U (NoticeOn target n) (log_event (Registered n U) c)"

subsection \<open>Runs\<close>

definition put :: "nat \<Rightarrow> 'c conf \<Rightarrow> 'c sys" where
  "put i c = (fst c)\<lparr>s_threads := (s_threads (fst c))[i := snd c]\<rparr>"

text \<open>The internal steps: a thread goes on with its stack, or an idle worker takes a task of its
  executor; a gated task runs in the frame of its gate, when the gate lets it pass
  (\<open>CReadWriteGate::PumpLocked\<close> on the tasks in the order they were posted, with no limit on the
  readers, as \<open>MakeHandle\<close> creates the gate).\<close>

definition env_ok :: "'c sys \<Rightarrow> 'c env \<Rightarrow> bool" where
  "env_ok s env \<longleftrightarrow> (\<forall>child u. child_is env = Child child u \<longrightarrow> u < length (s_layers s))"

definition act :: "nat \<Rightarrow> 'c env \<Rightarrow> 'c sys \<Rightarrow> 'c sys" where
  "act i env s =
     (case t_stack (s_threads s ! i) of
        [] \<Rightarrow> s
      | a # rest \<Rightarrow> put i (perform a env (s, (s_threads s ! i)\<lparr>t_stack := rest\<rparr>)))"

definition frame_of :: "nat \<Rightarrow> TaskKind \<Rightarrow> (nat \<times> task_kind) option" where
  "frame_of e k = (case k of kDirect \<Rightarrow> None | Gated g \<Rightarrow> Some (e, g))"

definition take_task :: "nat \<Rightarrow> nat \<Rightarrow> 'c sys \<Rightarrow> 'c sys" where
  "take_task i j s =
     (let (e, k, a) = s_posted s ! j
      in put i (s\<lparr>s_posted := take j (s_posted s) @ drop (Suc j) (s_posted s)\<rparr>,
                (s_threads s ! i)\<lparr>t_frame := frame_of e k, t_stack := [a, EndTask]\<rparr>))"

definition excludes :: "task_kind \<Rightarrow> task_kind \<Rightarrow> bool" where
  "excludes g g' \<longleftrightarrow> g = kWrite \<or> g' = kWrite"

definition gate_admits :: "nat \<Rightarrow> 'c sys \<Rightarrow> bool" where
  "gate_admits j s =
     (case s_posted s ! j of
        (e, kDirect, a) \<Rightarrow> True
      | (e, Gated g, a) \<Rightarrow>
          list_all (\<lambda>th. case t_frame th of None \<Rightarrow> True | Some (e', g') \<Rightarrow> e' = e \<longrightarrow> \<not> excludes g g')
            (s_threads s)
          \<and> list_all (\<lambda>(e', k', a'). case k' of kDirect \<Rightarrow> True | Gated g' \<Rightarrow> e' = e \<longrightarrow> \<not> excludes g g')
              (take j (s_posted s)))"

definition worker_idle :: "nat \<Rightarrow> nat \<Rightarrow> 'c sys \<Rightarrow> bool" where
  "worker_idle i j s \<longleftrightarrow> i < length (s_threads s) \<and> t_stack (s_threads s ! i) = []
     \<and> j < length (s_posted s) \<and> t_exec (s_threads s ! i) = Some (fst (s_posted s ! j)) \<and> gate_admits j s"

inductive run_step :: "'c sys \<Rightarrow> 'c sys \<Rightarrow> bool" where
  act: "i < length (s_threads s) \<Longrightarrow> t_stack (s_threads s ! i) \<noteq> [] \<Longrightarrow> env_ok s env \<Longrightarrow> run_step s (act i env s)"
| take: "worker_idle i j s \<Longrightarrow> run_step s (take_task i j s)"

text \<open>\<open>DispatchToPool\<close> when the pool refuses: a gated task of an executor that has stopped is lost.
  Those behind it stay where they are; as nobody need let them pass any more, they are lost by
  further steps of this kind.\<close>

definition drop_task :: "nat \<Rightarrow> 'c sys \<Rightarrow> 'c sys" where
  "drop_task j s = s\<lparr>s_posted := take j (s_posted s) @ drop (Suc j) (s_posted s),
     s_dropped := s_dropped s @ [s_posted s ! j]\<rparr>"

definition droppable :: "nat \<Rightarrow> 'c sys \<Rightarrow> bool" where
  "droppable j s \<longleftrightarrow> j < length (s_posted s)
     \<and> (case s_posted s ! j of (e, k, a) \<Rightarrow> k \<noteq> kDirect \<and> \<not> s_accepts s e k)"

inductive drop_step :: "'c sys \<Rightarrow> 'c sys \<Rightarrow> bool" where
  dropped: "droppable j s \<Longrightarrow> drop_step s (drop_task j s)"

text \<open>The operations of clients, each by any thread at any moment, from inside user code or from
  outside; a resolve or reject function of a starter may be called any number of times.\<close>

definition on_thread :: "nat \<Rightarrow> ('c conf \<Rightarrow> 'c conf) \<Rightarrow> 'c sys \<Rightarrow> 'c sys" where
  "on_thread i f s = put i (f (s, s_threads s ! i))"

definition is_external :: "'c origin \<Rightarrow> bool" where
  "is_external og = (case og of OExternal core \<Rightarrow> True | _ \<Rightarrow> False)"

inductive client_step :: "'c sys \<Rightarrow> 'c sys \<Rightarrow> bool" where
  start: "i < length (s_threads s) \<Longrightarrow> client_step s (on_thread i (StartChain core k fn) s)"
| starter: "i < length (s_threads s) \<Longrightarrow> client_step s (on_thread i (NewFromHandle core k env) s)"
| bridge: "i < length (s_threads s) \<Longrightarrow> u < length (s_layers s) \<Longrightarrow>
    client_step s (on_thread i (NewBridge core child u env) s)"
| append_then: "i < length (s_threads s) \<Longrightarrow> U < length (s_layers s) \<Longrightarrow>
    client_step s (on_thread i (AppendThenLayer core U fn k) s)"
| append_result: "i < length (s_threads s) \<Longrightarrow> U < length (s_layers s) \<Longrightarrow> eMode \<noteq> kModeThen \<Longrightarrow>
    client_step s (on_thread i (AppendResultLayer core U rfn eMode k) s)"
| append_promise: "i < length (s_threads s) \<Longrightarrow> U < length (s_layers s) \<Longrightarrow>
    client_step s (on_thread i (ThenPromise core U given k) s)"
| on_settled: "i < length (s_threads s) \<Longrightarrow> U < length (s_layers s) \<Longrightarrow>
    client_step s (on_thread i (OnSettled core U n) s)"
| on_settled_on: "i < length (s_threads s) \<Longrightarrow> U < length (s_layers s) \<Longrightarrow>
    client_step s (on_thread i (OnSettledOn target U n) s)"
| resolve: "i < length (s_threads s) \<Longrightarrow> L < length (s_layers s) \<Longrightarrow> is_external (s_origin s ! L) \<Longrightarrow>
    client_step s (on_thread i (push [Settle L r]) s)"
| accepts: "client_step s (s\<lparr>s_accepts := f\<rparr>)"
| user_code: "client_step s (s\<lparr>s_ctx := x\<rparr>)"

definition sys_init :: "(nat \<Rightarrow> 'c) \<Rightarrow> nat option list \<Rightarrow> 'c sys" where
  "sys_init ctx execs = \<lparr>s_layers = [], s_origin = [], s_ctx = ctx, s_posted = [], s_dropped = [],
     s_accepts = (\<lambda>_ _. True),
     s_threads = map (\<lambda>e. \<lparr>t_exec = e, t_frame = None, t_depth = 0, t_stack = []\<rparr>) execs,
     s_events = []\<rparr>"

inductive sys_reach :: "(nat \<Rightarrow> 'c) \<Rightarrow> nat option list \<Rightarrow> 'c sys \<Rightarrow> bool" for ctx execs where
  sys_start: "sys_reach ctx execs (sys_init ctx execs)"
| sys_run: "sys_reach ctx execs s \<Longrightarrow> run_step s s' \<Longrightarrow> sys_reach ctx execs s'"
| sys_drop: "sys_reach ctx execs s \<Longrightarrow> drop_step s s' \<Longrightarrow> sys_reach ctx execs s'"
| sys_client: "sys_reach ctx execs s \<Longrightarrow> client_step s s' \<Longrightarrow> sys_reach ctx execs s'"

end
