(* ===== verification/StdMap.thy ===== *)
theory StdMap
  imports Prelude
begin

text \<open>
  The ordered containers of the C++ standard library the framework relies on.  A
  \<open>std::map\<close> is the list of its entries in iteration order; \<open>sm_ok\<close> says that order is
  strictly ascending in the key.  A \<open>std::multimap\<close> is the same list with keys allowed
  to repeat; \<open>insert\<close> puts an entry behind the entries with the same key, as C++11
  requires.  Every operation is characterised through \<^const>\<open>map_of\<close>, so a component
  proof never looks at the list.
\<close>

type_synonym ('k, 'v) smap = "('k \<times> 'v) list"

definition sm_ok :: "('k::linorder, 'v) smap \<Rightarrow> bool" where
  "sm_ok m \<longleftrightarrow> sorted_wrt (<) (map fst m)"

definition sm_find :: "('k, 'v) smap \<Rightarrow> 'k \<Rightarrow> 'v option" where
  "sm_find m k = map_of m k"

text \<open>\<open>m[k] = v\<close>.\<close>

fun sm_put :: "'k::linorder \<Rightarrow> 'v \<Rightarrow> ('k, 'v) smap \<Rightarrow> ('k, 'v) smap" where
  "sm_put k v [] = [(k, v)]"
| "sm_put k v ((k', v') # m) =
     (if k < k' then (k, v) # (k', v') # m
      else if k = k' then (k, v) # m
      else (k', v') # sm_put k v m)"

text \<open>\<open>m.erase(k)\<close>.\<close>

definition sm_erase :: "'k \<Rightarrow> ('k, 'v) smap \<Rightarrow> ('k, 'v) smap" where
  "sm_erase k m = filter (\<lambda>p. fst p \<noteq> k) m"

text \<open>\<open>m.insert(entry)\<close> keeps an entry that is already there; the range form inserts one
  entry after another.\<close>

definition sm_insert :: "'k::linorder \<Rightarrow> 'v \<Rightarrow> ('k, 'v) smap \<Rightarrow> ('k, 'v) smap" where
  "sm_insert k v m = (case sm_find m k of None \<Rightarrow> sm_put k v m | Some _ \<Rightarrow> m)"

definition sm_insert_range :: "('k::linorder, 'v) smap \<Rightarrow> ('k, 'v) smap \<Rightarrow> ('k, 'v) smap" where
  "sm_insert_range m src = fold (\<lambda>(k, v). sm_insert k v) src m"

subsection \<open>Lookup laws\<close>

lemma map_of_sm_put: "map_of (sm_put k v m) = (map_of m)(k \<mapsto> v)"
  by (induction k v m rule: sm_put.induct) auto

lemma sm_find_Nil [simp, map_laws]: "sm_find [] k = None"
  by (simp add: sm_find_def)

lemma sm_find_put [simp, map_laws]:
  "sm_find (sm_put k v m) k' = (if k' = k then Some v else sm_find m k')"
  by (simp add: sm_find_def map_of_sm_put)

lemma map_of_sm_erase: "map_of (sm_erase k m) = (map_of m)(k := None)"
  by (induction m) (auto simp: sm_erase_def)

lemma sm_find_erase [simp, map_laws]:
  "sm_find (sm_erase k m) k' = (if k' = k then None else sm_find m k')"
  by (simp add: sm_find_def map_of_sm_erase)

lemma sm_find_insert [simp, map_laws]:
  "sm_find (sm_insert k v m) k' =
     (if k' = k \<and> sm_find m k = None then Some v else sm_find m k')"
  by (auto simp: sm_insert_def split: option.splits)

lemma sm_find_insert_range [map_laws]:
  "sm_find (sm_insert_range m src) k =
     (case sm_find m k of Some v \<Rightarrow> Some v | None \<Rightarrow> sm_find src k)"
  unfolding sm_insert_range_def
  by (induction src arbitrary: m) (auto simp: sm_find_def[of "_ # _"] sm_find_def[of "[]"]
      split: option.splits if_splits simp flip: sm_find_def)

lemma sm_find_None_iff: "sm_find m k = None \<longleftrightarrow> k \<notin> fst ` set m"
  by (simp add: sm_find_def map_of_eq_None_iff)

lemma sm_erase_absent: "sm_find m k = None \<Longrightarrow> sm_erase k m = m"
  by (auto simp: sm_erase_def sm_find_None_iff filter_id_conv)

subsection \<open>The iteration order\<close>

lemma fst_set_sm_put: "fst ` set (sm_put k v m) = insert k (fst ` set m)"
  by (induction k v m rule: sm_put.induct) auto

lemma sm_ok_Nil [simp]: "sm_ok []"
  by (simp add: sm_ok_def)

lemma sm_ok_put [simp]: "sm_ok m \<Longrightarrow> sm_ok (sm_put k v m)"
proof (induction k v m rule: sm_put.induct)
  case (2 k v k' v' m)
  have "\<forall>x \<in> fst ` set (sm_put k v m). k' < x" if "k' < k"
    using that 2(2) by (auto simp: fst_set_sm_put sm_ok_def)
  with 2 show ?case
    by (fastforce simp: sm_ok_def)
qed (simp add: sm_ok_def)

lemma sm_ok_filter [simp]: "sm_ok m \<Longrightarrow> sm_ok (filter P m)"
  by (induction m) (auto simp: sm_ok_def)

lemma sm_ok_erase [simp]: "sm_ok m \<Longrightarrow> sm_ok (sm_erase k m)"
  by (simp add: sm_erase_def)

lemma sm_ok_insert [simp]: "sm_ok m \<Longrightarrow> sm_ok (sm_insert k v m)"
  by (simp add: sm_insert_def split: option.split)

lemma sm_ok_insert_range [simp]: "sm_ok m \<Longrightarrow> sm_ok (sm_insert_range m src)"
  unfolding sm_insert_range_def by (induction src arbitrary: m) auto

lemma sm_ok_distinct: "sm_ok m \<Longrightarrow> distinct (map fst m)"
  by (simp add: sm_ok_def sorted_wrt_less_distinct)

lemma sm_find_Some_iff: "sm_ok m \<Longrightarrow> sm_find m k = Some v \<longleftrightarrow> (k, v) \<in> set m"
  by (simp add: sm_find_def sm_ok_distinct)

lemma sm_find_in_set: "sm_find m k = Some v \<Longrightarrow> (k, v) \<in> set m"
  by (simp add: sm_find_def map_of_SomeD)

text \<open>Two ordered maps with the same lookups are the same list: the order of insertion leaves
  no trace.\<close>

lemma sm_ext:
  assumes "sm_ok m" and "sm_ok m'" and "\<And>k. sm_find m k = sm_find m' k"
  shows "m = m'"
proof (rule map_sorted_distinct_set_unique[where f = fst])
  show "set m = set m'"
    using assms by (auto simp: sm_find_Some_iff[symmetric])
  then show "inj_on fst (set m \<union> set m')"
    using sm_ok_distinct[OF assms(2)] by (simp add: distinct_map)
qed (use assms in \<open>auto simp: sm_ok_distinct sm_ok_def strict_sorted_imp_sorted\<close>)

subsection \<open>Totals over the values\<close>

definition sm_sum :: "('v \<Rightarrow> nat) \<Rightarrow> ('k, 'v) smap \<Rightarrow> nat" where
  "sm_sum f m = sum_list (map (f \<circ> snd) m)"

lemma sm_sum_Nil [simp]: "sm_sum f [] = 0"
  by (simp add: sm_sum_def)

lemma sm_sum_put_new: "sm_find m k = None \<Longrightarrow> sm_sum f (sm_put k v m) = f v + sm_sum f m"
  by (induction k v m rule: sm_put.induct) (auto simp: sm_sum_def sm_find_def split: if_splits)

lemma sm_sum_erase:
  "sm_ok m \<Longrightarrow> sm_find m k = Some v \<Longrightarrow> sm_sum f m = f v + sm_sum f (sm_erase k m)"
proof (induction m)
  case (Cons p m)
  then show ?case
    by (cases p) (auto simp: sm_ok_def sm_sum_def sm_find_def sm_erase_def split: if_splits
        intro!: arg_cong[where f = sum_list] arg_cong2[where f = map] sym[OF filter_id_conv[THEN iffD2]])
qed simp

subsection \<open>The contract of an ordered map\<close>

text \<open>What the components use of \<open>std::map\<close>: find, indexed assignment, erase, ordered
  iteration.\<close>

locale ordered_map =
  fixes empty :: 'm
    and find :: "'m \<Rightarrow> 'k::linorder \<Rightarrow> 'v option"
    and put :: "'k \<Rightarrow> 'v \<Rightarrow> 'm \<Rightarrow> 'm"
    and erase :: "'k \<Rightarrow> 'm \<Rightarrow> 'm"
    and entries :: "'m \<Rightarrow> ('k \<times> 'v) list"
    and ok :: "'m \<Rightarrow> bool"
  assumes find_empty: "find empty k = None"
    and find_put: "find (put k v m) k' = (if k' = k then Some v else find m k')"
    and find_erase: "find (erase k m) k' = (if k' = k then None else find m k')"
    and entries_find: "ok m \<Longrightarrow> (k, v) \<in> set (entries m) \<longleftrightarrow> find m k = Some v"
    and entries_sorted: "ok m \<Longrightarrow> sorted_wrt (<) (map fst (entries m))"
    and ok_empty: "ok empty"
    and ok_put: "ok m \<Longrightarrow> ok (put k v m)"
    and ok_erase: "ok m \<Longrightarrow> ok (erase k m)"
begin

lemma put_put_commute:
  "k \<noteq> k' \<Longrightarrow> find (put k v (put k' v' m)) = find (put k' v' (put k v m))"
  by (auto simp: fun_eq_iff find_put)

lemma erase_put_other: "k \<noteq> k' \<Longrightarrow> find (erase k (put k' v m)) = find (put k' v (erase k m))"
  by (auto simp: fun_eq_iff find_put find_erase)

lemma keys_distinct: "ok m \<Longrightarrow> distinct (map fst (entries m))"
  using entries_sorted sorted_wrt_less_distinct by blast

lemma keys_entries: "ok m \<Longrightarrow> fst ` set (entries m) = {k. find m k \<noteq> None}"
proof (intro set_eqI)
  fix k
  assume "ok m"
  then show "k \<in> fst ` set (entries m) \<longleftrightarrow> k \<in> {k. find m k \<noteq> None}"
    using entries_find[of m k] by (force simp: image_iff)
qed

lemma size_entries: "ok m \<Longrightarrow> length (entries m) = card {k. find m k \<noteq> None}"
  using distinct_card[OF keys_distinct] keys_entries by fastforce

end

interpretation std_map: ordered_map "[]" sm_find sm_put sm_erase "\<lambda>m. m" sm_ok
  by unfold_locales (auto simp: sm_find_Some_iff, simp add: sm_ok_def)

lemma length_smap: "sm_ok m \<Longrightarrow> length m = card {k. sm_find m k \<noteq> None}"
  by (rule std_map.size_entries)

subsection \<open>The multimap\<close>

fun mm_insert :: "'k::linorder \<Rightarrow> 'v \<Rightarrow> ('k \<times> 'v) list \<Rightarrow> ('k \<times> 'v) list" where
  "mm_insert k v [] = [(k, v)]"
| "mm_insert k v ((k', v') # m) =
     (if k < k' then (k, v) # (k', v') # m else (k', v') # mm_insert k v m)"

definition mm_range :: "'k \<Rightarrow> ('k \<times> 'v) list \<Rightarrow> 'v list" where
  "mm_range k m = map snd (filter (\<lambda>p. fst p = k) m)"

text \<open>\<open>find\<close> on a \<open>std::multimap\<close> gives the first of several entries with the key: the standard
  leaves open which one, libstdc++ and libc++ return the lower bound.\<close>

definition mm_find :: "('k \<times> 'v) list \<Rightarrow> 'k \<Rightarrow> 'v option" where
  "mm_find m k = map_of m k"

definition mm_ok :: "('k::linorder \<times> 'v) list \<Rightarrow> bool" where
  "mm_ok m \<longleftrightarrow> sorted (map fst m)"

lemma mm_find_range: "mm_find m k = (case mm_range k m of [] \<Rightarrow> None | v # _ \<Rightarrow> Some v)"
  by (induction m) (auto simp: mm_find_def mm_range_def)

lemma fst_set_mm_insert: "set (mm_insert k v m) = insert (k, v) (set m)"
  by (induction k v m rule: mm_insert.induct) auto

lemma mm_ok_insert: "mm_ok m \<Longrightarrow> mm_ok (mm_insert k v m)"
  by (induction k v m rule: mm_insert.induct)
    (auto simp: mm_ok_def fst_set_mm_insert image_iff Ball_def)

lemma mm_range_insert:
  "mm_ok m \<Longrightarrow> mm_range k' (mm_insert k v m) = (if k' = k then mm_range k' m @ [v] else mm_range k' m)"
proof (induction k v m rule: mm_insert.induct)
  case (2 k v k' v' m)
  have "mm_range k ((k', v') # m) = []" if "k < k'"
    using that 2(2) by (force simp: mm_ok_def mm_range_def filter_empty_conv)
  with 2 show ?case
    by (auto simp: mm_ok_def mm_range_def)
qed (simp add: mm_range_def)

lemma mm_range_Nil [simp]: "mm_range k [] = []"
  by (simp add: mm_range_def)

end
