(* ===== verification/UserTable.thy ===== *)
theory UserTable
  imports Promise StdMap Text
begin

text \<open>
  The data access module of the example server (\<open>src/ServerExample/Module/ExampleDbModule.cpp\<close>,
  \<open>IUserTable.h\<close>): a table of users without a lock of its own, worked on by promise chains over the
  module's executor, whose gate lets a writing layer run alone.  A layer is therefore one step here:
  its code changes the table and the operation's context together, and between two layers of a
  chain the layers of other chains may run.  Every layer that changes the table is posted as a
  writer; the layers of a query are posted as readers and may overlap each other, but none of them
  changes the table, so that any order of them as single steps gives the same results.  How a layer follows the result of the one before is
  that of the chains of \<open>Promise\<close>: the code of a layer is a body of that theory, run by
  \<open>run_body\<close>, over the pair of the table and the context.  The kind of an exception that the code
  distinguishes by its class and \<open>Kind()\<close> is its dynamic type.  Versions and levels are integers
  without a bound: the overflow of \<open>int\<close> is undefined.  Texts are the UTF-8 bytes of the source.
\<close>

subsection \<open>Records and errors\<close>

record CUserRecord =
  nUserId :: u64
  strName :: string
  strMail :: string
  nLevel :: int
  nVersion :: int

definition CUserRecord :: CUserRecord where
  "CUserRecord = \<lparr>nUserId = 0, strName = [], strMail = [], nLevel = 1, nVersion = 1\<rparr>"

record CUserTableOp =
  op_nUserId :: u64
  recRequest :: CUserRecord
  recResult :: CUserRecord
  bFound :: bool
  bSimulateDbError :: bool
  strTrace :: string

definition CUserTableOp :: CUserTableOp where
  "CUserTableOp = \<lparr>op_nUserId = 0, recRequest = CUserRecord, recResult = CUserRecord, bFound = False,
     bSimulateDbError = False, strTrace = []\<rparr>"

datatype EKind = kRowNotFound | kDuplicateKey | kVersionConflict

definition db_error_type :: "EKind \<Rightarrow> string" where
  "db_error_type k = (case k of
     kRowNotFound \<Rightarrow> ''CDbError:kRowNotFound''
   | kDuplicateKey \<Rightarrow> ''CDbError:kDuplicateKey''
   | kVersionConflict \<Rightarrow> ''CDbError:kVersionConflict'')"

definition CDbError :: "EKind \<Rightarrow> string \<Rightarrow> exn" where
  "CDbError eKind strWhat = Exn (db_error_type eKind) strWhat"

definition TryGetDbError :: "promise_result \<Rightarrow> (EKind \<times> string) option" where
  "TryGetDbError result =
     (case m_spException result of
        None \<Rightarrow> None
      | Some e \<Rightarrow> (case List.find (\<lambda>k. dynamic_type e = db_error_type k) [kRowNotFound, kDuplicateKey, kVersionConflict] of
            None \<Rightarrow> None
          | Some k \<Rightarrow> Some (k, what e)))"

subsection \<open>The module\<close>

record db_module =
  m_mapRows :: "(u64, CUserRecord) smap"
  m_nRows :: u64
  m_nNextId :: u64
  m_nLatencyMs :: int
  m_nThreadCount :: int
  m_pExecutor :: bool                \<comment> \<open>whether there is one\<close>

definition kFirstAutoId :: u64 where
  "kFirstAutoId = 2001"

definition CExampleDbModule :: "int \<Rightarrow> int \<Rightarrow> db_module" where
  "CExampleDbModule nLatencyMs nThreadCount = \<lparr>m_mapRows = [], m_nRows = 0, m_nNextId = kFirstAutoId,
     m_nLatencyMs = (if nLatencyMs < 0 then 0 else nLatencyMs),
     m_nThreadCount = (if nThreadCount < 1 then 1 else nThreadCount), m_pExecutor = False\<rparr>"

definition seed_rows :: "(u64, CUserRecord) smap" where
  "seed_rows =
     (let recAlice = CUserRecord\<lparr>nUserId := 1001, strName := ''alice'', strMail := ''alice@example.com'',
            nLevel := 3, nVersion := 1\<rparr>;
          recBob = CUserRecord\<lparr>nUserId := 1002, strName := ''bob'', strMail := ''bob@example.com'',
            nLevel := 1, nVersion := 1\<rparr>
      in sm_put (nUserId recBob) recBob (sm_put (nUserId recAlice) recAlice []))"

text \<open>\<open>starts\<close>: whether the new executor starts.\<close>

definition Start :: "bool \<Rightarrow> db_module \<Rightarrow> bool \<times> db_module" where
  "Start starts d =
     (let d = d\<lparr>m_mapRows := seed_rows, m_nRows := of_nat (length seed_rows)\<rparr>
      in if starts then (True, d\<lparr>m_pExecutor := True\<rparr>) else (False, d\<lparr>m_pExecutor := False\<rparr>))"

definition Stop :: "db_module \<Rightarrow> db_module" where
  "Stop d = (if m_pExecutor d then d\<lparr>m_pExecutor := False\<rparr> else d)"

definition Shutdown :: "db_module \<Rightarrow> db_module" where
  "Shutdown d = (Stop d)\<lparr>m_mapRows := [], m_nRows := 0\<rparr>"

definition GetStatus :: "db_module \<Rightarrow> string" where
  "GetStatus d = ''example-db '' @ [CHR 0xE8, CHR 0xA1, CHR 0x8C, CHR 0xE6, CHR 0x95, CHR 0xB0] @ ''='' @ decimal (unat (m_nRows d))"

subsection \<open>The code of the layers\<close>

type_synonym db_ctx = "db_module \<times> CUserTableOp"

definition trace_op :: "string \<Rightarrow> CUserTableOp \<Rightarrow> CUserTableOp" where
  "trace_op t spOp = spOp\<lparr>strTrace := strTrace spOp @ t\<rparr>"

definition StepAcquireConn :: "db_ctx \<Rightarrow> outcome \<times> db_ctx" where
  "StepAcquireConn c = (let (d, spOp) = c in (Returns Resolve, d, trace_op ([CHR 0xE5, CHR 0x8F, CHR 0x96, CHR 0xE8, CHR 0xBF, CHR 0x9E, CHR 0xE6, CHR 0x8E, CHR 0xA5] @ '';'') spOp))"

definition driver_text :: string where
  "driver_text = [CHR 0xE6, CHR 0xA8, CHR 0xA1, CHR 0xE6, CHR 0x8B, CHR 0x9F, CHR 0xE6, CHR 0x95, CHR 0xB0, CHR 0xE6, CHR 0x8D, CHR 0xAE, CHR 0xE5, CHR 0xBA, CHR 0x93, CHR 0xE9, CHR 0xA9, CHR 0xB1, CHR 0xE5, CHR 0x8A, CHR 0xA8, CHR 0xE5, CHR 0xBC, CHR 0x82, CHR 0xE5, CHR 0xB8, CHR 0xB8]"

definition StepLoadRow :: "db_ctx \<Rightarrow> outcome \<times> db_ctx" where
  "StepLoadRow c =
     (let (d, spOp) = c
      in if bSimulateDbError spOp
         then (Throws (runtime_error driver_text), d, trace_op ([CHR 0xE9, CHR 0xA9, CHR 0xB1, CHR 0xE5, CHR 0x8A, CHR 0xA8, CHR 0xE5, CHR 0xBC, CHR 0x82, CHR 0xE5, CHR 0xB8, CHR 0xB8] @ '';'') spOp)
         else (case sm_find (m_mapRows d) (op_nUserId spOp) of
             None \<Rightarrow>
               (Returns (Reject (CDbError kRowNotFound
                   ([CHR 0xE8, CHR 0xAE, CHR 0xB0, CHR 0xE5, CHR 0xBD, CHR 0x95, CHR 0xE4, CHR 0xB8, CHR 0x8D, CHR 0xE5, CHR 0xAD, CHR 0x98, CHR 0xE5, CHR 0x9C, CHR 0xA8] @ ''(id='' @ decimal (unat (op_nUserId spOp)) @ '')''))),
                d, trace_op ([CHR 0xE8, CHR 0xAF, CHR 0xBB, CHR 0xE8, CHR 0xA1, CHR 0xA8, CHR 0xE6, CHR 0x9C, CHR 0xAA, CHR 0xE5, CHR 0x91, CHR 0xBD, CHR 0xE4, CHR 0xB8, CHR 0xAD] @ ''(id='' @ decimal (unat (op_nUserId spOp)) @ '');'') (spOp\<lparr>bFound := False\<rparr>))
           | Some recRow \<Rightarrow>
               (Returns Resolve, d, trace_op ([CHR 0xE8, CHR 0xAF, CHR 0xBB, CHR 0xE8, CHR 0xA1, CHR 0xA8, CHR 0xE5, CHR 0x91, CHR 0xBD, CHR 0xE4, CHR 0xB8, CHR 0xAD] @ '';'') (spOp\<lparr>bFound := True, recResult := recRow\<rparr>))))"

definition StepAcceptNotFound :: "promise_result \<Rightarrow> db_ctx \<Rightarrow> outcome \<times> db_ctx" where
  "StepAcceptNotFound upResult c =
     (let (d, spOp) = c
      in case TryGetDbError upResult of
           Some (kRowNotFound, strWhat) \<Rightarrow> (Returns Resolve, d, trace_op ([CHR 0xE5, CHR 0xBD, CHR 0x92, CHR 0xE4, CHR 0xB8, CHR 0x80, CHR 0xE5, CHR 0x8C, CHR 0x96] @ ''('' @ [CHR 0xE6, CHR 0x9C, CHR 0xAA, CHR 0xE5, CHR 0x91, CHR 0xBD, CHR 0xE4, CHR 0xB8, CHR 0xAD, CHR 0xE2, CHR 0x86, CHR 0x92, CHR 0xE5, CHR 0x85, CHR 0x91, CHR 0xE7, CHR 0x8E, CHR 0xB0] @ '');'') spOp)
         | _ \<Rightarrow> (Returns upResult, c))"

definition StepRejectIfExists :: "db_ctx \<Rightarrow> outcome \<times> db_ctx" where
  "StepRejectIfExists c =
     (let (d, spOp) = c
      in if bFound spOp
         then (Returns (Reject (CDbError kDuplicateKey ([CHR 0xE4, CHR 0xB8, CHR 0xBB, CHR 0xE9, CHR 0x94, CHR 0xAE, CHR 0xE5, CHR 0x86, CHR 0xB2, CHR 0xE7, CHR 0xAA, CHR 0x81, CHR 0xEF, CHR 0xBC, CHR 0x88, CHR 0xE7, CHR 0x94, CHR 0xA8, CHR 0xE6, CHR 0x88, CHR 0xB7, CHR 0xE5, CHR 0xB7, CHR 0xB2, CHR 0xE5, CHR 0xAD, CHR 0x98, CHR 0xE5, CHR 0x9C, CHR 0xA8, CHR 0xEF, CHR 0xBC, CHR 0x89]))), d, trace_op ([CHR 0xE4, CHR 0xB8, CHR 0xBB, CHR 0xE9, CHR 0x94, CHR 0xAE, CHR 0xE5, CHR 0x86, CHR 0xB2, CHR 0xE7, CHR 0xAA, CHR 0x81] @ '';'') spOp)
         else (Returns Resolve, c))"

definition StepInsertRow :: "db_ctx \<Rightarrow> outcome \<times> db_ctx" where
  "StepInsertRow c =
     (let (d, spOp) = c;
          (newId, d) = (if nUserId (recRequest spOp) = 0 then (m_nNextId d, d\<lparr>m_nNextId := m_nNextId d + 1\<rparr>)
                        else (nUserId (recRequest spOp), d))
      in if sm_find (m_mapRows d) newId \<noteq> None
         then (Returns (Reject (CDbError kDuplicateKey ([CHR 0xE4, CHR 0xB8, CHR 0xBB, CHR 0xE9, CHR 0x94, CHR 0xAE, CHR 0xE5, CHR 0x86, CHR 0xB2, CHR 0xE7, CHR 0xAA, CHR 0x81, CHR 0xEF, CHR 0xBC, CHR 0x88, CHR 0xE5, CHR 0xB9, CHR 0xB6, CHR 0xE5, CHR 0x8F, CHR 0x91, CHR 0xE6, CHR 0x8F, CHR 0x92, CHR 0xE5, CHR 0x85, CHR 0xA5, CHR 0xEF, CHR 0xBC, CHR 0x89]))), d, trace_op ([CHR 0xE4, CHR 0xB8, CHR 0xBB, CHR 0xE9, CHR 0x94, CHR 0xAE, CHR 0xE5, CHR 0x86, CHR 0xB2, CHR 0xE7, CHR 0xAA, CHR 0x81] @ '';'') spOp)
         else
           let recRow = (recRequest spOp)\<lparr>nUserId := newId, nVersion := 1\<rparr>
           in (Returns Resolve, d\<lparr>m_mapRows := sm_put newId recRow (m_mapRows d), m_nRows := m_nRows d + 1\<rparr>,
               trace_op ([CHR 0xE5, CHR 0x86, CHR 0x99, CHR 0xE8, CHR 0xA1, CHR 0xA8] @ ''('' @ [CHR 0xE6, CHR 0x8F, CHR 0x92, CHR 0xE5, CHR 0x85, CHR 0xA5] @ '' id='' @ decimal (unat newId) @ '');'') (spOp\<lparr>op_nUserId := newId, recResult := recRow\<rparr>)))"

definition StepApplyUpdate :: "db_ctx \<Rightarrow> outcome \<times> db_ctx" where
  "StepApplyUpdate c =
     (let (d, spOp) = c
      in case sm_find (m_mapRows d) (op_nUserId spOp) of
           None \<Rightarrow> (Returns (Reject (CDbError kRowNotFound ([CHR 0xE8, CHR 0xAE, CHR 0xB0, CHR 0xE5, CHR 0xBD, CHR 0x95, CHR 0xE4, CHR 0xB8, CHR 0x8D, CHR 0xE5, CHR 0xAD, CHR 0x98, CHR 0xE5, CHR 0x9C, CHR 0xA8, CHR 0xEF, CHR 0xBC, CHR 0x88, CHR 0xE6, CHR 0x9B, CHR 0xB4, CHR 0xE6, CHR 0x96, CHR 0xB0, CHR 0xEF, CHR 0xBC, CHR 0x89]))), d,
                    trace_op ([CHR 0xE6, CHR 0x9B, CHR 0xB4, CHR 0xE6, CHR 0x96, CHR 0xB0, CHR 0xE5, CHR 0xA4, CHR 0xB1, CHR 0xE8, CHR 0xB4, CHR 0xA5] @ ''('' @ [CHR 0xE8, CHR 0xAE, CHR 0xB0, CHR 0xE5, CHR 0xBD, CHR 0x95, CHR 0xE4, CHR 0xB8, CHR 0x8D, CHR 0xE5, CHR 0xAD, CHR 0x98, CHR 0xE5, CHR 0x9C, CHR 0xA8] @ '');'') spOp)
         | Some row \<Rightarrow>
             if nVersion row \<noteq> nVersion (recRequest spOp)
             then (Returns (Reject (CDbError kVersionConflict ([CHR 0xE4, CHR 0xB9, CHR 0x90, CHR 0xE8, CHR 0xA7, CHR 0x82, CHR 0xE9, CHR 0x94, CHR 0x81, CHR 0xE7, CHR 0x89, CHR 0x88, CHR 0xE6, CHR 0x9C, CHR 0xAC, CHR 0xE5, CHR 0x86, CHR 0xB2, CHR 0xE7, CHR 0xAA, CHR 0x81, CHR 0xEF, CHR 0xBC, CHR 0x88, CHR 0xE5, CHR 0xBA, CHR 0x93, CHR 0xE4, CHR 0xB8, CHR 0xAD, CHR 0xE6, CHR 0x9C, CHR 0x80, CHR 0xE6, CHR 0x96, CHR 0xB0, CHR 0xE8, CHR 0xA1, CHR 0x8C, CHR 0xE5, CHR 0xB7, CHR 0xB2, CHR 0xE5, CHR 0x9B, CHR 0x9E, CHR 0xE5, CHR 0x90, CHR 0x90, CHR 0xEF, CHR 0xBC, CHR 0x89]))), d,
                   trace_op ([CHR 0xE7, CHR 0x89, CHR 0x88, CHR 0xE6, CHR 0x9C, CHR 0xAC, CHR 0xE5, CHR 0x86, CHR 0xB2, CHR 0xE7, CHR 0xAA, CHR 0x81] @ ''('' @ [CHR 0xE5, CHR 0xBA, CHR 0x93] @ ''='' @ decimal_int (nVersion row) @ '','' @ [CHR 0xE6, CHR 0x9C, CHR 0x9F, CHR 0xE6, CHR 0x9C, CHR 0x9B] @ ''=''
                     @ decimal_int (nVersion (recRequest spOp)) @ '');'') (spOp\<lparr>recResult := row\<rparr>))
             else
               let recRow = (recRequest spOp)\<lparr>nVersion := nVersion row + 1\<rparr>
               in (Returns Resolve, d\<lparr>m_mapRows := sm_put (op_nUserId spOp) recRow (m_mapRows d)\<rparr>,
                   trace_op ([CHR 0xE5, CHR 0x86, CHR 0x99, CHR 0xE8, CHR 0xA1, CHR 0xA8] @ ''('' @ [CHR 0xE6, CHR 0x9B, CHR 0xB4, CHR 0xE6, CHR 0x96, CHR 0xB0] @ '' version='' @ decimal_int (nVersion recRow) @ '');'') (spOp\<lparr>recResult := recRow\<rparr>)))"

definition StepEraseRow :: "db_ctx \<Rightarrow> outcome \<times> db_ctx" where
  "StepEraseRow c =
     (let (d, spOp) = c
      in case sm_find (m_mapRows d) (op_nUserId spOp) of
           None \<Rightarrow> (Returns (Reject (CDbError kRowNotFound ([CHR 0xE8, CHR 0xAE, CHR 0xB0, CHR 0xE5, CHR 0xBD, CHR 0x95, CHR 0xE4, CHR 0xB8, CHR 0x8D, CHR 0xE5, CHR 0xAD, CHR 0x98, CHR 0xE5, CHR 0x9C, CHR 0xA8, CHR 0xEF, CHR 0xBC, CHR 0x88, CHR 0xE5, CHR 0x88, CHR 0xA0, CHR 0xE9, CHR 0x99, CHR 0xA4, CHR 0xEF, CHR 0xBC, CHR 0x89]))), d,
                    trace_op ([CHR 0xE5, CHR 0x88, CHR 0xA0, CHR 0xE9, CHR 0x99, CHR 0xA4, CHR 0xE5, CHR 0xA4, CHR 0xB1, CHR 0xE8, CHR 0xB4, CHR 0xA5] @ ''('' @ [CHR 0xE8, CHR 0xAE, CHR 0xB0, CHR 0xE5, CHR 0xBD, CHR 0x95, CHR 0xE4, CHR 0xB8, CHR 0x8D, CHR 0xE5, CHR 0xAD, CHR 0x98, CHR 0xE5, CHR 0x9C, CHR 0xA8] @ '');'') spOp)
         | Some row \<Rightarrow>
             (Returns Resolve, d\<lparr>m_mapRows := sm_erase (op_nUserId spOp) (m_mapRows d), m_nRows := m_nRows d - 1\<rparr>,
              trace_op ([CHR 0xE5, CHR 0x86, CHR 0x99, CHR 0xE8, CHR 0xA1, CHR 0xA8] @ ''('' @ [CHR 0xE5, CHR 0x88, CHR 0xA0, CHR 0xE9, CHR 0x99, CHR 0xA4] @ '' id='' @ decimal (unat (op_nUserId spOp)) @ '');'') spOp))"

definition StepReleaseConn :: "promise_result \<Rightarrow> db_ctx \<Rightarrow> outcome \<times> db_ctx" where
  "StepReleaseConn upResult c = (let (d, spOp) = c in (Returns upResult, d, trace_op ([CHR 0xE6, CHR 0x94, CHR 0xBE, CHR 0xE8, CHR 0xBF, CHR 0x9E, CHR 0xE6, CHR 0x8E, CHR 0xA5] @ '';'') spOp))"

subsection \<open>The chains\<close>

text \<open>A layer of a chain with the kind of its task and its code.\<close>

datatype 'c layer =
    LThen TaskKind "'c \<Rightarrow> outcome \<times> 'c"
  | LCatch TaskKind "promise_result \<Rightarrow> 'c \<Rightarrow> outcome \<times> 'c"
  | LFinally TaskKind "promise_result \<Rightarrow> 'c \<Rightarrow> outcome \<times> 'c"

definition LoadRowAsync :: "TaskKind \<Rightarrow> db_ctx layer list" where
  "LoadRowAsync eKind = [LThen eKind StepAcquireConn, LThen eKind StepLoadRow]"

definition QueryUserAsync :: "db_ctx layer list" where
  "QueryUserAsync = LoadRowAsync (Gated kRead) @ [LFinally (Gated kRead) StepReleaseConn]"

definition InsertUserAsync :: "db_ctx layer list" where
  "InsertUserAsync = LoadRowAsync (Gated kWrite) @ [LCatch (Gated kWrite) StepAcceptNotFound, LThen (Gated kWrite) StepRejectIfExists,
     LThen (Gated kWrite) StepInsertRow, LFinally (Gated kWrite) StepReleaseConn]"

definition UpdateUserAsync :: "db_ctx layer list" where
  "UpdateUserAsync = LoadRowAsync (Gated kWrite) @ [LCatch (Gated kWrite) StepAcceptNotFound, LThen (Gated kWrite) StepApplyUpdate,
     LFinally (Gated kWrite) StepReleaseConn]"

definition DeleteUserAsync :: "db_ctx layer list" where
  "DeleteUserAsync = LoadRowAsync (Gated kWrite) @ [LCatch (Gated kWrite) StepAcceptNotFound, LThen (Gated kWrite) StepEraseRow,
     LFinally (Gated kWrite) StepReleaseConn]"

text \<open>What a layer makes of the result before it, when its executor takes it.\<close>

fun run_chain_layer :: "'c layer \<Rightarrow> promise_result \<Rightarrow> 'c \<Rightarrow> promise_result \<times> 'c" where
  "run_chain_layer (LThen k f) up c = (if IsRejected up then (up, c) else run_body (ThenBody (ThenFn [] f)) c)"
| "run_chain_layer (LCatch k f) up c =
     (if IsFulfilled up then (up, c) else run_body (ResultBody (ResultFn [] f) up kModeCatch) c)"
| "run_chain_layer (LFinally k f) up c = run_body (ResultBody (ResultFn [] f) up kModeFinally) c"


text \<open>A chain with nobody in between.\<close>

definition run_chain :: "'c layer list \<Rightarrow> 'c \<Rightarrow> promise_result \<times> 'c" where
  "run_chain ls c = fold (\<lambda>l (r, c). run_chain_layer l r c) ls (Resolve, c)"

subsection \<open>Interleaved calls\<close>

datatype db_op = Query | Insert | Update | Delete

fun chain_of :: "db_op \<Rightarrow> db_ctx layer list" where
  "chain_of Query = QueryUserAsync"
| "chain_of Insert = InsertUserAsync"
| "chain_of Update = UpdateUserAsync"
| "chain_of Delete = DeleteUserAsync"

text \<open>A call with the layers that have not been taken yet, the result of the last one and the
  context, next to the context it was made with.\<close>

record db_call =
  c_kind :: db_op
  c_given :: CUserTableOp
  c_layers :: "db_ctx layer list"
  c_result :: promise_result
  c_op :: CUserTableOp

definition new_call :: "db_op \<Rightarrow> CUserTableOp \<Rightarrow> db_call" where
  "new_call k spOp = \<lparr>c_kind = k, c_given = spOp, c_layers = chain_of k, c_result = Resolve, c_op = spOp\<rparr>"

type_synonym rows = "u64 \<Rightarrow> CUserRecord option"

text \<open>The log notes for every layer taken whose call it was and the rows before and after.\<close>

record table_sys =
  t_db :: db_module
  t_calls :: "db_call list"
  t_log :: "(nat \<times> rows \<times> rows) list"

definition layer_runs :: "nat \<Rightarrow> table_sys \<Rightarrow> table_sys" where
  "layer_runs i s =
     (let c = t_calls s ! i
      in case c_layers c of
           [] \<Rightarrow> s
         | l # ls \<Rightarrow>
             let (r, d, spOp) = run_chain_layer l (c_result c) (t_db s, c_op c)
             in s\<lparr>t_db := d, t_calls := (t_calls s)[i := c\<lparr>c_layers := ls, c_result := r, c_op := spOp\<rparr>],
                  t_log := t_log s @ [(i, sm_find (m_mapRows (t_db s)), sm_find (m_mapRows d))]\<rparr>)"

text \<open>The executor refuses the task of a layer.\<close>

definition layer_refused :: "nat \<Rightarrow> table_sys \<Rightarrow> table_sys" where
  "layer_refused i s =
     (let c = t_calls s ! i
      in s\<lparr>t_calls := (t_calls s)[i := c\<lparr>c_layers := tl (c_layers c), c_result := kStopped\<rparr>]\<rparr>)"

definition open_call :: "nat \<Rightarrow> table_sys \<Rightarrow> bool" where
  "open_call i s \<longleftrightarrow> i < length (t_calls s) \<and> c_layers (t_calls s ! i) \<noteq> []"

inductive table_step :: "table_sys \<Rightarrow> table_sys \<Rightarrow> bool" where
  called: "m_pExecutor (t_db s) \<Longrightarrow> table_step s (s\<lparr>t_calls := t_calls s @ [new_call k spOp]\<rparr>)"
| layer: "open_call i s \<Longrightarrow> table_step s (layer_runs i s)"
| refused: "open_call i s \<Longrightarrow> table_step s (layer_refused i s)"

definition table_start :: "int \<Rightarrow> int \<Rightarrow> table_sys" where
  "table_start nLatencyMs nThreadCount =
     \<lparr>t_db = snd (Start True (CExampleDbModule nLatencyMs nThreadCount)), t_calls = [], t_log = []\<rparr>"

inductive table_reach :: "table_sys \<Rightarrow> bool" where
  t_start: "table_reach (table_start nLatencyMs nThreadCount)"
| t_next: "table_reach s \<Longrightarrow> table_step s s' \<Longrightarrow> table_reach s'"

subsection \<open>What an operation promises\<close>

definition is_db :: "EKind \<Rightarrow> promise_result \<Rightarrow> bool" where
  "is_db k r \<longleftrightarrow> (\<exists>t. r = Reject (CDbError k t))"

fun db_contract :: "db_op \<Rightarrow> CUserTableOp \<Rightarrow> promise_result \<Rightarrow> CUserTableOp \<Rightarrow> rows \<Rightarrow> rows \<Rightarrow> bool" where
  "db_contract Query o0 r spOp t t' \<longleftrightarrow> t' = t \<and>
     (r = Resolve \<and> t (op_nUserId o0) = Some (recResult spOp) \<or> is_db kRowNotFound r \<and> t (op_nUserId o0) = None)"
| "db_contract Insert o0 r spOp t t' \<longleftrightarrow>
     (r = Resolve \<and> t (op_nUserId spOp) = None \<and> (nUserId (recRequest o0) \<noteq> 0 \<longrightarrow> op_nUserId spOp = nUserId (recRequest o0))
        \<and> recResult spOp = (recRequest o0)\<lparr>nUserId := op_nUserId spOp, nVersion := 1\<rparr>
        \<and> t' = t(op_nUserId spOp := Some (recResult spOp)))
     \<or> (is_db kDuplicateKey r \<and> t' = t
        \<and> (\<exists>n. t n \<noteq> None \<and> (n = op_nUserId o0 \<or> n = nUserId (recRequest o0) \<or> nUserId (recRequest o0) = 0)))"
| "db_contract Update o0 r spOp t t' \<longleftrightarrow>
     (case t (op_nUserId o0) of
        None \<Rightarrow> is_db kRowNotFound r \<and> t' = t
      | Some row \<Rightarrow>
          if nVersion row = nVersion (recRequest o0)
          then r = Resolve \<and> recResult spOp = (recRequest o0)\<lparr>nVersion := nVersion row + 1\<rparr>
             \<and> t' = t(op_nUserId o0 := Some (recResult spOp))
          else is_db kVersionConflict r \<and> recResult spOp = row \<and> t' = t)"
| "db_contract Delete o0 r spOp t t' \<longleftrightarrow>
     (if t (op_nUserId o0) = None then is_db kRowNotFound r \<and> t' = t
      else r = Resolve \<and> t' = t(op_nUserId o0 := None))"

text \<open>The log is one history of the table.\<close>

fun linked :: "rows \<Rightarrow> (nat \<times> rows \<times> rows) list \<Rightarrow> rows \<Rightarrow> bool" where
  "linked t [] t' \<longleftrightarrow> t = t'"
| "linked t ((i, a, b) # es) t' \<longleftrightarrow> t = a \<and> linked b es t'"

definition quiet :: "(nat \<times> rows \<times> rows) list \<Rightarrow> bool" where
  "quiet es \<longleftrightarrow> (\<forall>(i, a, b) \<in> set es. a = b)"

text \<open>One of the steps of a call took effect as \<open>P\<close> says, the others changed nothing.\<close>

definition acted :: "(rows \<Rightarrow> rows \<Rightarrow> bool) \<Rightarrow> (nat \<times> rows \<times> rows) list \<Rightarrow> bool" where
  "acted P es \<longleftrightarrow> (\<exists>es1 i a b es2. es = es1 @ (i, a, b) # es2 \<and> quiet es1 \<and> quiet es2 \<and> P a b)"

definition own :: "nat \<Rightarrow> (nat \<times> 'a) list \<Rightarrow> (nat \<times> 'a) list" where
  "own i es = filter (\<lambda>e. fst e = i) es"

definition driver_failed :: promise_result where
  "driver_failed = capture (Throws (runtime_error driver_text))"

text \<open>What may be said of a call that has ended: it kept its contract in one step; or the driver
  failed, as it was asked to; or an executor that stopped refused one of its layers, after which
  its effect, if it had one already, stays.\<close>

definition call_kept :: "db_op \<Rightarrow> CUserTableOp \<Rightarrow> promise_result \<Rightarrow> CUserTableOp \<Rightarrow> (nat \<times> rows \<times> rows) list \<Rightarrow> bool" where
  "call_kept k o0 r spOp es \<longleftrightarrow>
     acted (db_contract k o0 r spOp) es
     \<or> (r = driver_failed \<and> bSimulateDbError o0 \<and> quiet es)
     \<or> (r = kStopped \<and> (quiet es \<or> acted (\<lambda>t t'. \<exists>r' spOp'. db_contract k o0 r' spOp' t t') es))"

subsection \<open>Histories\<close>

lemma quiet_simps [simp]: "quiet []" "quiet ((i, a, b) # es) \<longleftrightarrow> a = b \<and> quiet es" "quiet (es @ fs) \<longleftrightarrow> quiet es \<and> quiet fs"
  by (auto simp: quiet_def ball_Un)

lemma acted_snoc: "acted P es \<Longrightarrow> acted P (es @ [(i, a, a)])"
  unfolding acted_def by (metis append.assoc append_Cons quiet_simps)

lemma acted_now: "quiet es \<Longrightarrow> P a b \<Longrightarrow> acted P (es @ [(i, a, b)])"
  unfolding acted_def by (metis quiet_simps(1))

lemma acted_mono: "acted P es \<Longrightarrow> (\<And>a b. P a b \<Longrightarrow> Q a b) \<Longrightarrow> acted Q es"
  unfolding acted_def by blast

lemma acted_member: "quiet es \<Longrightarrow> (i, a, b) \<in> set es \<Longrightarrow> P a b \<Longrightarrow> acted P es"
  unfolding acted_def by (metis split_list quiet_simps(2,3))

lemma linked_snoc: "linked t es a \<Longrightarrow> linked t (es @ [(i, a, b)]) b"
  by (induction es arbitrary: t) auto

lemma own_call_simps [simp]: "own i [] = []" "own i (es @ fs) = own i es @ own i fs" "own i [(j, x)] = (if j = i then [(j, x)] else [])"
  by (simp_all add: own_def)

lemma own_none: "\<forall>e \<in> set es. fst e < n \<Longrightarrow> own n es = []"
  by (auto simp: own_def filter_empty_conv)

subsection \<open>Results\<close>

definition framework :: "promise_result \<Rightarrow> bool" where
  "framework r \<longleftrightarrow> r = kStopped \<or> r = driver_failed"

lemma framework_rejected: "framework r \<Longrightarrow> IsRejected r"
  by (auto simp: framework_def driver_failed_def)

lemma framework_db: "framework r \<Longrightarrow> TryGetDbError r = None"
  by (auto simp: framework_def driver_failed_def TryGetDbError_def kStopped_def Reject_def runtime_error_def db_error_type_def)

lemma is_db_rejected: "is_db k r \<Longrightarrow> IsRejected r \<and> r \<noteq> Resolve"
  by (auto simp: is_db_def Resolve_def Reject_def IsRejected_def)

lemma TryGetDbError_db: "is_db k r \<Longrightarrow> \<exists>w. TryGetDbError r = Some (k, w)"
  by (cases k) (auto simp: is_db_def TryGetDbError_def Reject_def CDbError_def db_error_type_def)

lemma is_db_Reject [simp]: "is_db k (Reject (CDbError k t))"
  by (auto simp: is_db_def)

lemma layer_simps:
  "run_chain_layer (LThen k f) up c = (if IsRejected up then (up, c) else (capture (fst (f c)), snd (f c)))"
  "run_chain_layer (LFinally k g) up c =
     (case fst (g up c) of Returns q \<Rightarrow> up | w \<Rightarrow> capture w, snd (g up c))"
  "run_chain_layer (LCatch k g) up c = (if IsFulfilled up then (up, c) else (capture (fst (g up c)), snd (g up c)))"
  by (auto simp: split_beta split: outcome.split)

declare run_chain_layer.simps [simp del] chain_of.simps [simp del]

lemmas chain_defs = chain_of.simps QueryUserAsync_def InsertUserAsync_def UpdateUserAsync_def DeleteUserAsync_def LoadRowAsync_def

subsection \<open>One call\<close>

definition same_request :: "CUserTableOp \<Rightarrow> CUserTableOp \<Rightarrow> bool" where
  "same_request a b \<longleftrightarrow> op_nUserId a = op_nUserId b \<and> recRequest a = recRequest b \<and> bSimulateDbError a = bSimulateDbError b"

definition seen :: "u64 \<Rightarrow> (nat \<times> rows \<times> rows) list \<Rightarrow> bool" where
  "seen n es \<longleftrightarrow> (\<exists>(i, a, b) \<in> set es. a n \<noteq> None)"

definition undecided :: "db_op \<Rightarrow> nat \<Rightarrow> promise_result \<Rightarrow> CUserTableOp \<Rightarrow> CUserTableOp \<Rightarrow> (nat \<times> rows \<times> rows) list \<Rightarrow> bool" where
  "undecided k p r spOp o0 es \<longleftrightarrow> same_request spOp o0 \<and> quiet es
     \<and> (p \<le> 1 \<and> r = Resolve
        \<or> k \<noteq> Query \<and> p = 2 \<and> (r = Resolve \<and> (bFound spOp \<longrightarrow> seen (op_nUserId o0) es) \<or> is_db kRowNotFound r \<and> \<not> bFound spOp)
        \<or> k \<noteq> Query \<and> p = 3 \<and> r = Resolve \<and> (bFound spOp \<longrightarrow> seen (op_nUserId o0) es)
        \<or> k = Insert \<and> p = 4 \<and> r = Resolve \<and> \<not> bFound spOp)"

definition phase_ok :: "db_op \<Rightarrow> nat \<Rightarrow> promise_result \<Rightarrow> CUserTableOp \<Rightarrow> CUserTableOp \<Rightarrow> (nat \<times> rows \<times> rows) list \<Rightarrow> bool" where
  "phase_ok k p r spOp o0 es \<longleftrightarrow> undecided k p r spOp o0 es
     \<or> call_kept k o0 r spOp es \<and> (framework r \<or> k = Query \<and> p \<ge> 2 \<or> k = Insert \<and> p = 4 \<and> IsRejected r
          \<or> k = Insert \<and> p \<ge> 5 \<or> k \<noteq> Query \<and> k \<noteq> Insert \<and> p \<ge> 4)"

text \<open>A layer that hands the result on, and the context but for its trace.\<close>

lemma contract_trace: "db_contract k o0 r (trace_op t spOp) = db_contract k o0 r spOp"
  by (cases k) (simp_all add: trace_op_def fun_eq_iff cong: option.case_cong)

lemma kept_on:
  "call_kept k o0 r spOp es \<Longrightarrow> call_kept k o0 r spOp (es @ [(i, a, a)])"
  "call_kept k o0 r spOp es \<Longrightarrow> call_kept k o0 r (trace_op t spOp) (es @ [(i, a, a)])"
  by (auto simp: call_kept_def contract_trace intro: acted_snoc)

lemma kept_now: "quiet es \<Longrightarrow> db_contract k o0 r spOp a b \<Longrightarrow> call_kept k o0 r spOp (es @ [(i, a, b)])"
  by (simp add: call_kept_def acted_now)

text \<open>The layers, each behind any of the results it may find.\<close>

lemma acquire_ok:
  assumes "undecided k 0 r spOp o0 es" "run_chain_layer (LThen g StepAcquireConn) r (d, spOp) = (r', d', spOp')"
  shows "undecided k 1 r' spOp' o0 (es @ [(i, sm_find (m_mapRows d), sm_find (m_mapRows d'))])"
  using assms by (auto simp: undecided_def layer_simps StepAcquireConn_def same_request_def trace_op_def)

lemma load_ok:
  assumes "undecided k 1 r spOp o0 es" "run_chain_layer (LThen g StepLoadRow) r (d, spOp) = (r', d', spOp')"
  shows "phase_ok k 2 r' spOp' o0 (es @ [(i, sm_find (m_mapRows d), sm_find (m_mapRows d'))])"
proof -
  have u: "same_request spOp o0" "quiet es" "r = Resolve" using assms(1) by (auto simp: undecided_def)
  show ?thesis
  proof (cases "bSimulateDbError spOp")
    case True
    then show ?thesis
      using u assms(2) by (auto simp: layer_simps StepLoadRow_def phase_ok_def call_kept_def framework_def driver_failed_def
          same_request_def)
  next
    case False
    then have d: "d' = d" using u assms(2) by (auto simp: layer_simps StepLoadRow_def split: option.splits)
    let ?e = "(i, sm_find (m_mapRows d), sm_find (m_mapRows d))"
    show ?thesis
    proof (cases "k = Query")
      case True
      have "db_contract Query o0 r' spOp' (sm_find (m_mapRows d)) (sm_find (m_mapRows d))"
        using u assms(2) False by (auto simp: layer_simps StepLoadRow_def same_request_def trace_op_def split: option.splits)
      with True u(2) d show ?thesis by (simp add: phase_ok_def kept_now)
    next
      case other: False
      have "undecided k 2 r' spOp' o0 (es @ [?e])"
        using u assms(2) False other
        by (auto simp: undecided_def layer_simps StepLoadRow_def same_request_def trace_op_def seen_def split: option.splits)
      then show ?thesis by (simp add: phase_ok_def d)
    qed
  qed
qed

lemma accept_ok:
  assumes "phase_ok k 2 r spOp o0 es" "k \<noteq> Query"
    and "run_chain_layer (LCatch g StepAcceptNotFound) r (d, spOp) = (r', d', spOp')"
  shows "phase_ok k 3 r' spOp' o0 (es @ [(i, sm_find (m_mapRows d), sm_find (m_mapRows d'))])"
proof (cases "undecided k 2 r spOp o0 es")
  case True
  then have u: "same_request spOp o0" "quiet es"
    "r = Resolve \<and> (bFound spOp \<longrightarrow> seen (op_nUserId o0) es) \<or> is_db kRowNotFound r \<and> \<not> bFound spOp"
    by (auto simp: undecided_def)
  have "d' = d \<and> same_request spOp' o0 \<and> r' = Resolve \<and> bFound spOp' = bFound spOp"
    using u assms(3) TryGetDbError_db[of kRowNotFound r] is_db_rejected[of kRowNotFound r]
    by (auto simp: layer_simps StepAcceptNotFound_def same_request_def trace_op_def fulfilled_iff)
  with u assms(2) show ?thesis by (auto simp: phase_ok_def undecided_def seen_def)
next
  case False
  then have "call_kept k o0 r spOp es" "framework r" using assms(1,2) by (auto simp: phase_ok_def)
  with assms(3) framework_rejected[OF this(2)] framework_db[OF this(2)] show ?thesis
    by (auto simp: layer_simps StepAcceptNotFound_def fulfilled_iff phase_ok_def kept_on)
qed

lemma skipped_ok:
  assumes "call_kept k o0 r spOp es" "IsRejected r" "run_chain_layer (LThen g f) r (d, spOp) = (r', d', spOp')"
  shows "call_kept k o0 r' spOp' (es @ [(i, sm_find (m_mapRows d), sm_find (m_mapRows d'))]) \<and> r' = r"
  using assms by (auto simp: layer_simps kept_on)

lemma release_ok:
  assumes "call_kept k o0 r spOp es" "run_chain_layer (LFinally g StepReleaseConn) r (d, spOp) = (r', d', spOp')"
  shows "call_kept k o0 r' spOp' (es @ [(i, sm_find (m_mapRows d), sm_find (m_mapRows d'))])"
  using assms by (auto simp: layer_simps StepReleaseConn_def kept_on)

lemma exists_ok:
  assumes "phase_ok Insert 3 r spOp o0 es" "run_chain_layer (LThen g StepRejectIfExists) r (d, spOp) = (r', d', spOp')"
  shows "phase_ok Insert 4 r' spOp' o0 (es @ [(i, sm_find (m_mapRows d), sm_find (m_mapRows d'))])"
proof (cases "undecided Insert 3 r spOp o0 es")
  case True
  then have u: "same_request spOp o0" "quiet es" "r = Resolve" "bFound spOp \<Longrightarrow> seen (op_nUserId o0) es"
    by (auto simp: undecided_def)
  show ?thesis
  proof (cases "bFound spOp")
    case found: True
    then obtain j a b where "(j, a, b) \<in> set es" "a (op_nUserId o0) \<noteq> None" using u(4) by (auto simp: seen_def)
    moreover have "is_db kDuplicateKey r'" "d' = d" "IsRejected r'"
      using found u assms(2) by (auto simp: layer_simps StepRejectIfExists_def)
    moreover have "a = b" using calculation(1) u(2) by (auto simp: quiet_def)
    ultimately have "acted (db_contract Insert o0 r' spOp') es"
      using u(2) by (intro acted_member[of es j a b]) auto
    then show ?thesis using \<open>IsRejected r'\<close> \<open>d' = d\<close> by (simp add: phase_ok_def call_kept_def acted_snoc)
  next
    case False
    then show ?thesis using u assms(2) by (auto simp: layer_simps StepRejectIfExists_def phase_ok_def undecided_def)
  qed
next
  case False
  then have "call_kept Insert o0 r spOp es" "framework r" using assms(1) by (auto simp: phase_ok_def)
  with skipped_ok[OF this(1) framework_rejected[OF this(2)] assms(2), of i] show ?thesis by (auto simp: phase_ok_def)
qed

lemma insert_ok:
  assumes "phase_ok Insert 4 r spOp o0 es" "run_chain_layer (LThen g StepInsertRow) r (d, spOp) = (r', d', spOp')"
  shows "phase_ok Insert 5 r' spOp' o0 (es @ [(i, sm_find (m_mapRows d), sm_find (m_mapRows d'))])"
proof (cases "undecided Insert 4 r spOp o0 es")
  case True
  then have u: "same_request spOp o0" "quiet es" "r = Resolve" by (auto simp: undecided_def)
  have "db_contract Insert o0 r' spOp' (sm_find (m_mapRows d)) (sm_find (m_mapRows d'))"
    using u assms(2)
    by (auto simp: layer_simps StepInsertRow_def same_request_def trace_op_def Let_def fun_eq_iff split: if_splits)
  with u(2) show ?thesis by (simp add: phase_ok_def kept_now)
next
  case False
  then have "call_kept Insert o0 r spOp es" "IsRejected r" using assms(1) framework_rejected by (auto simp: phase_ok_def)
  with skipped_ok[OF this(1,2) assms(2), of i] show ?thesis by (auto simp: phase_ok_def)
qed

lemma write_ok:
  assumes "phase_ok k 3 r spOp o0 es" "k = Update \<and> f = StepApplyUpdate \<or> k = Delete \<and> f = StepEraseRow"
    and "run_chain_layer (LThen g f) r (d, spOp) = (r', d', spOp')"
  shows "phase_ok k 4 r' spOp' o0 (es @ [(i, sm_find (m_mapRows d), sm_find (m_mapRows d'))])"
proof (cases "undecided k 3 r spOp o0 es")
  case True
  then have u: "same_request spOp o0" "quiet es" "r = Resolve" by (auto simp: undecided_def)
  have "db_contract k o0 r' spOp' (sm_find (m_mapRows d)) (sm_find (m_mapRows d'))"
    using assms(2)
  proof (elim disjE conjE)
    assume "k = Update" "f = StepApplyUpdate"
    then show ?thesis
      using u assms(3) by (auto simp: layer_simps StepApplyUpdate_def same_request_def trace_op_def Let_def fun_eq_iff
          split: if_splits option.splits)
  next
    assume "k = Delete" "f = StepEraseRow"
    then show ?thesis
      using u assms(3) by (auto simp: layer_simps StepEraseRow_def same_request_def trace_op_def fun_eq_iff split: option.splits)
  qed
  with u(2) assms(2) show ?thesis by (auto simp: phase_ok_def kept_now)
next
  case False
  then have "call_kept k o0 r spOp es" "IsRejected r" using assms(1,2) framework_rejected by (auto simp: phase_ok_def)
  with skipped_ok[OF this(1,2) assms(3), of i] assms(2) show ?thesis by (auto simp: phase_ok_def)
qed

lemma chain_length: "length (chain_of k) = (case k of Query \<Rightarrow> 3 | Insert \<Rightarrow> 6 | _ \<Rightarrow> 5)"
  by (cases k) (simp_all add: chain_defs)

lemma chain_front:
  "chain_of k ! 0 = LThen (Gated (if k = Query then kRead else kWrite)) StepAcquireConn"
  "chain_of k ! Suc 0 = LThen (Gated (if k = Query then kRead else kWrite)) StepLoadRow"
  "k \<noteq> Query \<Longrightarrow> chain_of k ! 2 = LCatch (Gated kWrite) StepAcceptNotFound"
  "chain_of k ! (length (chain_of k) - 1) = LFinally (Gated (if k = Query then kRead else kWrite)) StepReleaseConn"
  "chain_of Insert ! 3 = LThen (Gated kWrite) StepRejectIfExists"
  "chain_of Insert ! 4 = LThen (Gated kWrite) StepInsertRow"
  "chain_of Update ! 3 = LThen (Gated kWrite) StepApplyUpdate"
  "chain_of Delete ! 3 = LThen (Gated kWrite) StepEraseRow"
  by (cases k; simp add: chain_defs)+

lemma layer_ok:
  assumes ok: "phase_ok k p r spOp o0 es" and p: "p < length (chain_of k)"
    and run: "run_chain_layer (chain_of k ! p) r (d, spOp) = (r', d', spOp')"
  shows "phase_ok k (Suc p) r' spOp' o0 (es @ [(i, sm_find (m_mapRows d), sm_find (m_mapRows d'))])"
proof -
  have kept: "undecided k p r spOp o0 es \<or> p \<ge> 2 \<or> framework r \<and> call_kept k o0 r spOp es"
    using ok by (auto simp: phase_ok_def)
  have skip: "phase_ok k (Suc p) r' spOp' o0 (es @ [(i, sm_find (m_mapRows d), sm_find (m_mapRows d'))])"
    if "framework r" "call_kept k o0 r spOp es" "chain_of k ! p = LThen g f" for g f
    using that run skipped_ok[OF that(2) framework_rejected[OF that(1)], of g f d r' d' spOp' i] by (auto simp: phase_ok_def)
  consider "p = 0" | "p = 1" | "p = 2" "k \<noteq> Query" | "p = 3" "p < length (chain_of k) - 1" | "p = 4" "k = Insert"
    | "p = length (chain_of k) - 1" "p \<ge> 2"
    using p by (cases k) (auto simp: chain_length numeral_eq_Suc less_Suc_eq)
  then show ?thesis
  proof cases
    case 1
    then show ?thesis using kept skip run acquire_ok[of k r spOp o0 es _ d r' d' spOp' i]
      by (auto simp: chain_front phase_ok_def)
  next
    case 2
    then show ?thesis using kept skip run load_ok[of k r spOp o0 es _ d r' d' spOp' i]
      by (auto simp: chain_front numeral_2_eq_2)
  next
    case 3
    then show ?thesis using ok run accept_ok[of k r spOp o0 es _ d r' d' spOp' i] by (simp add: chain_front)
  next
    case 4
    then consider "k = Insert" | "k = Update" | "k = Delete" by (cases k) (auto simp: chain_length)
    then show ?thesis
    proof cases
      case 1
      then show ?thesis using 4(1) ok run exists_ok[of r spOp o0 es _ d r' d' spOp' i] by (simp add: chain_front)
    next
      case 2
      then show ?thesis using 4(1) ok run write_ok[of k r spOp o0 es _ _ d r' d' spOp' i] by (simp add: chain_front)
    next
      case 3
      then show ?thesis using 4(1) ok run write_ok[of k r spOp o0 es _ _ d r' d' spOp' i] by (simp add: chain_front)
    qed
  next
    case 5
    then show ?thesis using ok run insert_ok[of r spOp o0 es _ d r' d' spOp' i] by (simp add: chain_front)
  next
    case 6
    then have "call_kept k o0 r spOp es" using ok p
      by (cases k) (auto simp: phase_ok_def undecided_def chain_length)
    from release_ok[OF this run[unfolded 6(1) chain_front(4)], of i] 6 p show ?thesis
      by (cases k) (auto simp: phase_ok_def chain_length)
  qed
qed

subsection \<open>The table\<close>

definition rows_ok :: "db_module \<Rightarrow> bool" where
  "rows_ok d \<longleftrightarrow> sm_ok (m_mapRows d) \<and> m_nRows d = of_nat (length (m_mapRows d))"

lemma length_put: "sm_find m k = None \<Longrightarrow> length (sm_put k v m) = Suc (length m)"
  using sm_sum_put_new[of m k "\<lambda>_. 1" v] by (simp add: sm_sum_def sum_list_triv comp_def)

lemma length_put_old: "sm_ok m \<Longrightarrow> sm_find m k \<noteq> None \<Longrightarrow> length (sm_put k v m) = length m"
  by (simp add: length_smap) (metis (mono_tags, lifting) option.distinct(1))

lemma length_erase: "sm_ok m \<Longrightarrow> sm_find m k \<noteq> None \<Longrightarrow> Suc (length (sm_erase k m)) = length m"
  using sm_sum_erase[of m k _ "\<lambda>_. 1"] by (auto simp: sm_sum_def sum_list_triv comp_def)

lemma rows_kept:
  assumes "l \<in> set (chain_of k)" "run_chain_layer l r (d, spOp) = (r', d', spOp')" "rows_ok d"
  shows "rows_ok d'"
proof -
  have id: "rows_ok (fst (snd (StepAcquireConn (d, spOp))))" "rows_ok (fst (snd (StepLoadRow (d, spOp))))"
    "rows_ok (fst (snd (StepAcceptNotFound r (d, spOp))))" "rows_ok (fst (snd (StepRejectIfExists (d, spOp))))"
    "rows_ok (fst (snd (StepReleaseConn r (d, spOp))))"
    using assms(3) by (auto simp: StepAcquireConn_def StepLoadRow_def StepAcceptNotFound_def StepRejectIfExists_def
        StepReleaseConn_def split: option.split EKind.split)
  have ins: "rows_ok (fst (snd (StepInsertRow (d, spOp))))"
    using assms(3) by (auto simp: StepInsertRow_def rows_ok_def length_put Let_def add.commute split: option.splits)
  have upd: "rows_ok (fst (snd (StepApplyUpdate (d, spOp))))"
    using assms(3) by (auto simp: StepApplyUpdate_def rows_ok_def length_put_old Let_def split: option.splits)
  have del: "rows_ok (fst (snd (StepEraseRow (d, spOp))))"
    using assms(3) length_erase[of "m_mapRows d" "op_nUserId spOp"]
    by (auto simp: StepEraseRow_def rows_ok_def split: option.splits) (metis add_diff_cancel_left' of_nat_Suc)
  from id ins upd del assms(1,2,3) show ?thesis
    by (cases k) (auto simp: chain_defs layer_simps split: if_splits outcome.splits)
qed

subsection \<open>All calls\<close>

definition call_ok :: "db_call \<Rightarrow> (nat \<times> rows \<times> rows) list \<Rightarrow> bool" where
  "call_ok c es \<longleftrightarrow> (\<exists>p \<le> length (chain_of (c_kind c)). c_layers c = drop p (chain_of (c_kind c))
     \<and> phase_ok (c_kind c) p (c_result c) (c_op c) (c_given c) es)"

definition table_inv :: "table_sys \<Rightarrow> bool" where
  "table_inv s \<longleftrightarrow> rows_ok (t_db s) \<and> linked (sm_find seed_rows) (t_log s) (sm_find (m_mapRows (t_db s)))
     \<and> (\<forall>e \<in> set (t_log s). fst e < length (t_calls s))
     \<and> (\<forall>i < length (t_calls s). call_ok (t_calls s ! i) (own i (t_log s)))"

lemma new_call_ok: "call_ok (new_call k spOp) []"
  by (auto simp: call_ok_def new_call_def phase_ok_def undecided_def same_request_def intro!: exI[of _ 0])

lemma call_layer_ok:
  assumes "call_ok c es" "c_layers c = l # ls" "run_chain_layer l (c_result c) (d, c_op c) = (r', d', spOp')"
  shows "call_ok (c\<lparr>c_layers := ls, c_result := r', c_op := spOp'\<rparr>)
      (es @ [(i, sm_find (m_mapRows d), sm_find (m_mapRows d'))]) \<and> l \<in> set (chain_of (c_kind c))"
proof -
  obtain p where p: "c_layers c = drop p (chain_of (c_kind c))"
    "phase_ok (c_kind c) p (c_result c) (c_op c) (c_given c) es" using assms(1) by (auto simp: call_ok_def)
  then have lt: "p < length (chain_of (c_kind c))" using assms(2) by (metis drop_all list.distinct(1) not_less)
  then have "l = chain_of (c_kind c) ! p" "ls = drop (Suc p) (chain_of (c_kind c))"
    using p(1) assms(2) by (metis Cons_nth_drop_Suc list.inject)+
  with layer_ok[OF p(2) lt] assms(3) lt show ?thesis by (auto simp: call_ok_def intro!: exI[of _ "Suc p"])
qed

lemma refused_kept: "phase_ok k p r spOp o0 es \<Longrightarrow> call_kept k o0 kStopped spOp es"
  by (auto simp: phase_ok_def undecided_def call_kept_def intro: acted_mono)

lemma call_refused_ok:
  assumes "call_ok c es" "c_layers c \<noteq> []"
  shows "call_ok (c\<lparr>c_layers := tl (c_layers c), c_result := kStopped\<rparr>) es"
proof -
  obtain p where p: "p \<le> length (chain_of (c_kind c))" "c_layers c = drop p (chain_of (c_kind c))"
    "phase_ok (c_kind c) p (c_result c) (c_op c) (c_given c) es" using assms(1) by (auto simp: call_ok_def)
  then have "p < length (chain_of (c_kind c))" using assms(2) by (metis drop_all not_less)
  moreover have "tl (c_layers c) = drop (Suc p) (chain_of (c_kind c))" by (simp add: p(2) drop_Suc tl_drop)
  ultimately show ?thesis using p refused_kept[OF p(3)]
    by (auto simp: call_ok_def phase_ok_def framework_def intro!: exI[of _ "Suc p"])
qed

lemma table_inv_layer:
  assumes inv: "table_inv s" and opn: "open_call i s"
  shows "table_inv (layer_runs i s)"
proof -
  let ?c = "t_calls s ! i"
  obtain l ls where l: "c_layers ?c = l # ls" using opn by (auto simp: open_call_def neq_Nil_conv)
  obtain r d spOp where run: "run_chain_layer l (c_result ?c) (t_db s, c_op ?c) = (r, d, spOp)"
    by (cases "run_chain_layer l (c_result ?c) (t_db s, c_op ?c)") auto
  have i: "i < length (t_calls s)" using opn by (simp add: open_call_def)
  have ok: "call_ok ?c (own i (t_log s))" using inv i by (simp add: table_inv_def)
  note step = call_layer_ok[OF ok l run]
  have "rows_ok d" using rows_kept[OF conjunct2[OF step] run] inv by (simp add: table_inv_def)
  with step inv i l run show ?thesis
    by (auto simp: table_inv_def layer_runs_def nth_list_update intro: linked_snoc)
qed

lemma table_inv_step: "table_step s s' \<Longrightarrow> table_inv s \<Longrightarrow> table_inv s'"
proof (induction rule: table_step.induct)
  case (called s k spOp)
  then show ?case
    by (auto simp: table_inv_def nth_append less_Suc_eq own_none new_call_ok)
next
  case (layer i s)
  then show ?case by (simp add: table_inv_layer)
next
  case (refused i s)
  then show ?case
    using call_refused_ok[of "t_calls s ! i" "own i (t_log s)"]
    by (auto simp: table_inv_def layer_refused_def Let_def nth_list_update open_call_def)
qed

lemma table_reach_inv: "table_reach s \<Longrightarrow> table_inv s"
proof (induction rule: table_reach.induct)
  case (t_start nLatencyMs nThreadCount)
  show ?case by (simp add: table_inv_def table_start_def Start_def rows_ok_def)
      (simp add: seed_rows_def sm_ok_def CUserRecord_def)
qed (rule table_inv_step)

lemma ended_kept:
  assumes "table_reach s" and "i < length (t_calls s)" and "c_layers (t_calls s ! i) = []"
  shows "call_kept (c_kind (t_calls s ! i)) (c_given (t_calls s ! i)) (c_result (t_calls s ! i)) (c_op (t_calls s ! i))
         (own i (t_log s))"
proof -
  have "call_ok (t_calls s ! i) (own i (t_log s))" using table_reach_inv[OF assms(1)] assms(2) by (simp add: table_inv_def)
  with assms(3) have "phase_ok (c_kind (t_calls s ! i)) (length (chain_of (c_kind (t_calls s ! i)))) (c_result (t_calls s ! i))
      (c_op (t_calls s ! i)) (c_given (t_calls s ! i)) (own i (t_log s))"
    by (auto simp: call_ok_def)
  then show ?thesis
    by (cases "c_kind (t_calls s ! i)") (auto simp: phase_ok_def undecided_def chain_length)
qed

subsection \<open>Properties\<close>

text \<open>C37. The table without a lock.  Whatever the layers of concurrent operations are interleaved like,
  the steps taken are one history of the table from the seed rows to the present ones, the row
  count is exact, and an operation that has ended has kept its contract in a single step of it: it
  reports what was in the table at that step and changed what it was asked to, and none of its
  other steps changed anything; unless the driver failed on purpose or the executor has stopped.\<close>

theorem table_operations_atomic:
  assumes "table_reach s" and "i < length (t_calls s)" and "c_layers (t_calls s ! i) = []"
  shows "linked (sm_find seed_rows) (t_log s) (sm_find (m_mapRows (t_db s)))
     \<and> m_nRows (t_db s) = of_nat (length (m_mapRows (t_db s)))
     \<and> call_kept (c_kind (t_calls s ! i)) (c_given (t_calls s ! i)) (c_result (t_calls s ! i)) (c_op (t_calls s ! i))
         (own i (t_log s))"
  using table_reach_inv[OF assms(1)] ended_kept[OF assms] by (simp add: table_inv_def rows_ok_def)

subsection \<open>Some runs\<close>

text \<open>All the calls are made first; then the schedule says whose layer runs.\<close>

definition table_run :: "(db_op \<times> CUserTableOp) list \<Rightarrow> nat list \<Rightarrow> table_sys" where
  "table_run cs sched =
     fold layer_runs sched ((table_start 0 4)\<lparr>t_calls := map (\<lambda>(k, spOp). new_call k spOp) cs\<rparr>)"

lemma reach_calls: "table_reach ((table_start 0 4)\<lparr>t_calls := map (\<lambda>(k, spOp). new_call k spOp) cs\<rparr>)"
proof (induction cs rule: rev_induct)
  case Nil
  show ?case using t_start[of 0 4] by (simp add: table_start_def)
next
  case (snoc c cs)
  obtain k spOp where c: "c = (k, spOp)" by (cases c)
  let ?s = "(table_start 0 4)\<lparr>t_calls := map (\<lambda>(k, spOp). new_call k spOp) cs\<rparr>"
  have "table_step ?s (?s\<lparr>t_calls := t_calls ?s @ [new_call k spOp]\<rparr>)"
    by (rule called) (simp add: table_start_def Start_def Let_def)
  with t_next[OF snoc.IH] show ?case by (simp add: c)
qed

lemma length_layer_runs [simp]: "length (t_calls (layer_runs i s)) = length (t_calls s)"
  by (auto simp: layer_runs_def Let_def split: list.split prod.split)

lemma reach_sched: "table_reach s \<Longrightarrow> \<forall>i \<in> set sched. i < length (t_calls s) \<Longrightarrow> table_reach (fold layer_runs sched s)"
proof (induction sched arbitrary: s)
  case (Cons i sched)
  have "table_reach (layer_runs i s)"
  proof (cases "open_call i s")
    case True
    then show ?thesis using t_next[OF Cons.prems(1) table_step.layer] by simp
  next
    case False
    then have "layer_runs i s = s" using Cons.prems(2) by (simp add: open_call_def layer_runs_def Let_def)
    then show ?thesis using Cons.prems(1) by simp
  qed
  then show ?case using Cons by simp
qed simp

lemma reach_run: "\<forall>i \<in> set sched. i < length cs \<Longrightarrow> table_reach (table_run cs sched)"
  unfolding table_run_def by (rule reach_sched[OF reach_calls]) simp

definition asks :: "u64 \<Rightarrow> CUserRecord \<Rightarrow> CUserTableOp" where
  "asks n rec = CUserTableOp\<lparr>op_nUserId := n, recRequest := rec\<rparr>"

definition row7 :: CUserRecord where
  "row7 = CUserRecord\<lparr>nUserId := 7, strName := ''seven'', strMail := ''old@example.com''\<rparr>"

text \<open>Two inserts of one row: the second runs between two layers of the first.\<close>

definition race :: table_sys where
  "race = table_run [(Insert, asks 7 row7), (Insert, asks 7 row7)] [0, 0, 0, 1, 1, 1, 1, 1, 1, 0, 0, 0]"

lemma race_reach: "table_reach race"
  unfolding race_def by (rule reach_run) simp

theorem table_operations_atomic_witness:
  "m_nRows (t_db race) = of_nat (length (m_mapRows (t_db race)))
   \<and> call_kept Insert (asks 7 row7) (c_result (t_calls race ! 0)) (c_op (t_calls race ! 0)) (own 0 (t_log race))"
proof -
  have "0 < length (t_calls race)" "length (c_layers (t_calls race ! 0)) = 0" "c_kind (t_calls race ! 0) = Insert"
    "c_given (t_calls race ! 0) = asks 7 row7" by code_simp+
  with table_operations_atomic[OF race_reach, of 0] show ?thesis by simp
qed

text \<open>The insert is not one stretch of exclusive work: a check that the code says can only fail
  because of changes from outside the module fails because of another insert of the module.\<close>

theorem insert_interrupted:
  "table_reach race \<and> IsFulfilled (c_result (t_calls race ! 1))
   \<and> m_spException (c_result (t_calls race ! 0)) = Some (CDbError kDuplicateKey ([CHR 0xE4, CHR 0xB8, CHR 0xBB, CHR 0xE9, CHR 0x94, CHR 0xAE, CHR 0xE5, CHR 0x86, CHR 0xB2, CHR 0xE7, CHR 0xAA, CHR 0x81, CHR 0xEF, CHR 0xBC, CHR 0x88, CHR 0xE5, CHR 0xB9, CHR 0xB6, CHR 0xE5, CHR 0x8F, CHR 0x91, CHR 0xE6, CHR 0x8F, CHR 0x92, CHR 0xE5, CHR 0x85, CHR 0xA5, CHR 0xEF, CHR 0xBC, CHR 0x89]))"
proof -
  have "IsFulfilled (c_result (t_calls race ! 1))" by code_simp
  moreover have "m_spException (c_result (t_calls race ! 0)) = Some (CDbError kDuplicateKey ([CHR 0xE4, CHR 0xB8, CHR 0xBB, CHR 0xE9, CHR 0x94, CHR 0xAE, CHR 0xE5, CHR 0x86, CHR 0xB2, CHR 0xE7, CHR 0xAA, CHR 0x81, CHR 0xEF, CHR 0xBC, CHR 0x88, CHR 0xE5, CHR 0xB9, CHR 0xB6, CHR 0xE5, CHR 0x8F, CHR 0x91, CHR 0xE6, CHR 0x8F, CHR 0x92, CHR 0xE5, CHR 0x85, CHR 0xA5, CHR 0xEF, CHR 0xBC, CHR 0x89]))"
    by code_simp
  ultimately show ?thesis using race_reach by blast
qed

text \<open>Versions start again when a row is inserted anew: an update prepared before the row was
  deleted and inserted again passes the version check and brings back the old fields.\<close>

definition stale :: table_sys where
  "stale = table_run [(Insert, asks 7 row7), (Query, asks 7 CUserRecord), (Delete, asks 7 CUserRecord),
      (Insert, asks 7 (row7\<lparr>strMail := ''new@example.com''\<rparr>)), (Update, asks 7 (row7\<lparr>strName := ''sept''\<rparr>))]
    [0, 0, 0, 0, 0, 0, 1, 1, 1, 2, 2, 2, 2, 2, 3, 3, 3, 3, 3, 3, 4, 4, 4, 4, 4]"

theorem stale_update_after_reinsert:
  "table_reach stale \<and> recResult (c_op (t_calls stale ! 1)) = row7
   \<and> IsFulfilled (c_result (t_calls stale ! 3)) \<and> IsFulfilled (c_result (t_calls stale ! 4))
   \<and> map_option strMail (sm_find (m_mapRows (t_db stale)) 7) = Some (strMail row7)"
proof -
  have "table_reach stale" unfolding stale_def by (rule reach_run) simp
  moreover have "recResult (c_op (t_calls stale ! 1)) = row7" by code_simp
  moreover have "IsFulfilled (c_result (t_calls stale ! 3))" by code_simp
  moreover have "IsFulfilled (c_result (t_calls stale ! 4))" by code_simp
  moreover have "map_option strMail (sm_find (m_mapRows (t_db stale)) 7) = Some (strMail row7)" by code_simp
  ultimately show ?thesis by blast
qed

text \<open>An update stores the identifier of the request, not the key of the row.\<close>

definition rekeyed :: table_sys where
  "rekeyed = table_run [(Insert, asks 7 row7), (Update, asks 7 CUserRecord)]
    [0, 0, 0, 0, 0, 0, 1, 1, 1, 1, 1]"

theorem update_loses_identifier:
  "table_reach rekeyed \<and> IsFulfilled (c_result (t_calls rekeyed ! 1))
   \<and> map_option nUserId (sm_find (m_mapRows (t_db rekeyed)) 7) = Some 0"
proof -
  have "table_reach rekeyed" unfolding rekeyed_def by (rule reach_run) simp
  moreover have "IsFulfilled (c_result (t_calls rekeyed ! 1))" by code_simp
  moreover have "map_option nUserId (sm_find (m_mapRows (t_db rekeyed)) 7) = Some 0" by code_simp
  ultimately show ?thesis by blast
qed

end
