(* ===== verification/UserService.thy ===== *)
theory UserService
  imports UserTable "HOL-Library.Char_ord"
begin

text \<open>
  The user service of the example server (\<open>src/ServerExample/Module/ExampleAsyncModule.cpp\<close>,
  \<open>IUserService.h\<close>) on top of the user table: four asynchronous functions, each a chain on the
  executor of the service whose bridging layers call the table and wait, without a thread, for the
  chain there.  A layer of the service and a layer of the table are one step each, in any
  interleaving; the notice by which a bridge hears of its call is a step of its own.  The context
  of a call to the table is shared with it: the table works on its copy in \<open>t_calls\<close> while it runs,
  and the notice takes it over.  Log lines are left out.
\<close>

subsection \<open>Contexts and errors\<close>

record CUserOpContext =
  u_nUserId :: u64
  u_recRequest :: CUserRecord
  u_recResult :: CUserRecord
  spDbOp :: CUserTableOp
  bExists :: bool
  nAttempt :: nat
  strAction :: string
  u_strTrace :: string
  strError :: string

definition CUserOpContext :: CUserOpContext where
  "CUserOpContext = \<lparr>u_nUserId = 0, u_recRequest = CUserRecord, u_recResult = CUserRecord, spDbOp = CUserTableOp,
     bExists = False, nAttempt = 0, strAction = [], u_strTrace = [], strError = []\<rparr>"

definition MakeContext :: "string \<Rightarrow> CUserOpContext" where
  "MakeContext strName' = CUserOpContext\<lparr>strAction := strName'\<rparr>"

datatype UserEKind = kInvalidParam | kNotFound | kDuplicate | kDbUnavailable | kUserVersionConflict

definition user_error_type :: "UserEKind \<Rightarrow> string" where
  "user_error_type k = (case k of
     kInvalidParam \<Rightarrow> ''CUserError:kInvalidParam''
   | kNotFound \<Rightarrow> ''CUserError:kNotFound''
   | kDuplicate \<Rightarrow> ''CUserError:kDuplicate''
   | kDbUnavailable \<Rightarrow> ''CUserError:kDbUnavailable''
   | kUserVersionConflict \<Rightarrow> ''CUserError:kVersionConflict'')"

definition CUserError :: "UserEKind \<Rightarrow> string \<Rightarrow> exn" where
  "CUserError eKind strWhat = Exn (user_error_type eKind) strWhat"

definition TryGetUserError :: "promise_result \<Rightarrow> (UserEKind \<times> string) option" where
  "TryGetUserError result =
     (case m_spException result of
        None \<Rightarrow> None
      | Some e \<Rightarrow> (case List.find (\<lambda>k. dynamic_type e = user_error_type k)
              [kInvalidParam, kNotFound, kDuplicate, kDbUnavailable, kUserVersionConflict] of
            None \<Rightarrow> None
          | Some k \<Rightarrow> Some (k, what e)))"

definition kMaxNameLength :: nat where "kMaxNameLength = 32"

definition kMaxUpdateAttempts :: nat where "kMaxUpdateAttempts = 3"

definition DescribeResult :: "promise_result \<Rightarrow> string" where
  "DescribeResult result = (if IsFulfilled result then [CHR 0xE5, CHR 0x85, CHR 0x91, CHR 0xE7, CHR 0x8E, CHR 0xB0] else [CHR 0xE6, CHR 0x8B, CHR 0x92, CHR 0xE7, CHR 0xBB, CHR 0x9D] @ ''('' @ [CHR 0xE3, CHR 0x80, CHR 0x8C] @ Message result @ [CHR 0xE3, CHR 0x80, CHR 0x8D] @ '')'')"

definition name_char :: "char \<Rightarrow> bool" where
  "name_char ch \<longleftrightarrow> (CHR ''a'' \<le> ch \<and> ch \<le> CHR ''z'') \<or> (CHR ''A'' \<le> ch \<and> ch \<le> CHR ''Z'')
     \<or> (CHR ''0'' \<le> ch \<and> ch \<le> CHR ''9'') \<or> ch = CHR ''_'' \<or> ch = CHR ''-''"

definition IsValidUserName :: "string \<Rightarrow> bool" where
  "IsValidUserName s \<longleftrightarrow> \<not> (s = [] \<or> length s > kMaxNameLength) \<and> list_all name_char s"

subsection \<open>The code of the layers\<close>

definition u_trace :: "string \<Rightarrow> CUserOpContext \<Rightarrow> CUserOpContext" where
  "u_trace t c = c\<lparr>u_strTrace := u_strTrace c @ t\<rparr>"

definition fails :: "UserEKind \<Rightarrow> string \<Rightarrow> CUserOpContext \<Rightarrow> outcome \<times> CUserOpContext" where
  "fails k t c = (Returns (Reject (CUserError k t)), c\<lparr>strError := t\<rparr>)"

definition StepValidateUserId :: "CUserOpContext \<Rightarrow> outcome \<times> CUserOpContext" where
  "StepValidateUserId c =
     (let c = u_trace ([CHR 0xE6, CHR 0xA0, CHR 0xA1, CHR 0xE9, CHR 0xAA, CHR 0x8C, CHR 0xE5, CHR 0x8F, CHR 0x82, CHR 0xE6, CHR 0x95, CHR 0xB0] @ '';'') c
      in if u_nUserId c = 0 then fails kInvalidParam ([CHR 0xE7, CHR 0x94, CHR 0xA8, CHR 0xE6, CHR 0x88, CHR 0xB7] @ '' id '' @ [CHR 0xE9, CHR 0x9D, CHR 0x9E, CHR 0xE6, CHR 0xB3, CHR 0x95]) c else (Returns Resolve, c))"

definition StepValidateRecord :: "CUserOpContext \<Rightarrow> outcome \<times> CUserOpContext" where
  "StepValidateRecord c =
     (let c = u_trace ([CHR 0xE6, CHR 0xA0, CHR 0xA1, CHR 0xE9, CHR 0xAA, CHR 0x8C, CHR 0xE5, CHR 0x8F, CHR 0x82, CHR 0xE6, CHR 0x95, CHR 0xB0] @ '';'') c
      in if \<not> IsValidUserName (strName (u_recRequest c))
         then fails kInvalidParam ([CHR 0xE7, CHR 0x94, CHR 0xA8, CHR 0xE6, CHR 0x88, CHR 0xB7, CHR 0xE5, CHR 0x90, CHR 0x8D, CHR 0xE9, CHR 0x9D, CHR 0x9E, CHR 0xE6, CHR 0xB3, CHR 0x95, CHR 0xEF, CHR 0xBC, CHR 0x88] @ ''1-'' @ decimal kMaxNameLength @ '' '' @ [CHR 0xE4, CHR 0xB8, CHR 0xAA, CHR 0xE5, CHR 0xAD, CHR 0x97, CHR 0xE6, CHR 0xAF, CHR 0x8D] @ '' / '' @ [CHR 0xE6, CHR 0x95, CHR 0xB0, CHR 0xE5, CHR 0xAD, CHR 0x97] @ '' / '' @ [CHR 0xE4, CHR 0xB8, CHR 0x8B, CHR 0xE5, CHR 0x88, CHR 0x92, CHR 0xE7, CHR 0xBA, CHR 0xBF] @ '' / '' @ [CHR 0xE8, CHR 0xBF, CHR 0x9E, CHR 0xE5, CHR 0xAD, CHR 0x97, CHR 0xE7, CHR 0xAC, CHR 0xA6, CHR 0xEF, CHR 0xBC, CHR 0x89]) c
         else if CHR ''@'' \<notin> set (strMail (u_recRequest c)) then fails kInvalidParam ([CHR 0xE9, CHR 0x82, CHR 0xAE, CHR 0xE7, CHR 0xAE, CHR 0xB1, CHR 0xE6, CHR 0xA0, CHR 0xBC, CHR 0xE5, CHR 0xBC, CHR 0x8F, CHR 0xE9, CHR 0x9D, CHR 0x9E, CHR 0xE6, CHR 0xB3, CHR 0x95]) c
         else if nLevel (u_recRequest c) \<le> 0 then fails kInvalidParam ([CHR 0xE7, CHR 0x94, CHR 0xA8, CHR 0xE6, CHR 0x88, CHR 0xB7, CHR 0xE7, CHR 0xAD, CHR 0x89, CHR 0xE7, CHR 0xBA, CHR 0xA7, CHR 0xE9, CHR 0x9D, CHR 0x9E, CHR 0xE6, CHR 0xB3, CHR 0x95]) c
         else (Returns Resolve, c))"

definition StepRejectIfAbsent :: "CUserOpContext \<Rightarrow> outcome \<times> CUserOpContext" where
  "StepRejectIfAbsent c =
     (if \<not> bExists c then fails kNotFound ([CHR 0xE7, CHR 0x94, CHR 0xA8, CHR 0xE6, CHR 0x88, CHR 0xB7, CHR 0xE4, CHR 0xB8, CHR 0x8D, CHR 0xE5, CHR 0xAD, CHR 0x98, CHR 0xE5, CHR 0x9C, CHR 0xA8]) (u_trace ([CHR 0xE6, CHR 0x8B, CHR 0x92, CHR 0xE7, CHR 0xBB, CHR 0x9D] @ ''('' @ [CHR 0xE7, CHR 0x94, CHR 0xA8, CHR 0xE6, CHR 0x88, CHR 0xB7, CHR 0xE4, CHR 0xB8, CHR 0x8D, CHR 0xE5, CHR 0xAD, CHR 0x98, CHR 0xE5, CHR 0x9C, CHR 0xA8] @ '');'') c) else (Returns Resolve, c))"

definition StepRejectUserExists :: "CUserOpContext \<Rightarrow> outcome \<times> CUserOpContext" where
  "StepRejectUserExists c =
     (if bExists c then fails kDuplicate ([CHR 0xE7, CHR 0x94, CHR 0xA8, CHR 0xE6, CHR 0x88, CHR 0xB7, CHR 0xE5, CHR 0xB7, CHR 0xB2, CHR 0xE5, CHR 0xAD, CHR 0x98, CHR 0xE5, CHR 0x9C, CHR 0xA8]) (u_trace ([CHR 0xE6, CHR 0x8B, CHR 0x92, CHR 0xE7, CHR 0xBB, CHR 0x9D] @ ''('' @ [CHR 0xE7, CHR 0x94, CHR 0xA8, CHR 0xE6, CHR 0x88, CHR 0xB7, CHR 0xE5, CHR 0xB7, CHR 0xB2, CHR 0xE5, CHR 0xAD, CHR 0x98, CHR 0xE5, CHR 0x9C, CHR 0xA8] @ '');'') c) else (Returns Resolve, c))"

definition StepPrepareRename :: "CUserOpContext \<Rightarrow> outcome \<times> CUserOpContext" where
  "StepPrepareRename c =
     (if \<not> bExists c then fails kNotFound ([CHR 0xE7, CHR 0x94, CHR 0xA8, CHR 0xE6, CHR 0x88, CHR 0xB7, CHR 0xE4, CHR 0xB8, CHR 0x8D, CHR 0xE5, CHR 0xAD, CHR 0x98, CHR 0xE5, CHR 0x9C, CHR 0xA8]) c
      else
        let rec = (u_recResult c)\<lparr>strName := strName (u_recRequest c), nVersion := nVersion (u_recResult c)\<rparr>
        in (Returns Resolve, u_trace ([CHR 0xE7, CHR 0xBB, CHR 0x84, CHR 0xE8, CHR 0xA3, CHR 0x85, CHR 0xE6, CHR 0x9B, CHR 0xB4, CHR 0xE6, CHR 0x96, CHR 0xB0] @ ''('' @ [CHR 0xE6, CHR 0x9C, CHR 0x9F, CHR 0xE6, CHR 0x9C, CHR 0x9B, CHR 0xE7, CHR 0x89, CHR 0x88, CHR 0xE6, CHR 0x9C, CHR 0xAC] @ ''='' @ decimal_int (nVersion rec) @ '');'') (c\<lparr>u_recRequest := rec\<rparr>)))"

definition StepAudit :: "promise_result \<Rightarrow> CUserOpContext \<Rightarrow> outcome \<times> CUserOpContext" where
  "StepAudit upResult c = (Returns upResult, u_trace ([CHR 0xE5, CHR 0xAE, CHR 0xA1, CHR 0xE8, CHR 0xAE, CHR 0xA1] @ '';'') c)"

subsection \<open>Bridges to the table\<close>

text \<open>The starters: what is written into the contexts before the table is called.\<close>

definition UpdateUserAttempt :: "nat \<Rightarrow> CUserOpContext \<Rightarrow> CUserOpContext" where
  "UpdateUserAttempt n c =
     c\<lparr>nAttempt := n, spDbOp := (spDbOp c)\<lparr>op_nUserId := u_nUserId c, recRequest := u_recRequest c\<rparr>\<rparr>"

fun bridge_start :: "db_op \<Rightarrow> CUserOpContext \<Rightarrow> CUserOpContext" where
  "bridge_start Query c = c\<lparr>spDbOp := (spDbOp c)\<lparr>op_nUserId := u_nUserId c, bFound := False\<rparr>\<rparr>"
| "bridge_start Insert c =
     c\<lparr>spDbOp := (spDbOp c)\<lparr>op_nUserId := nUserId (u_recRequest c), recRequest := u_recRequest c\<rparr>\<rparr>"
| "bridge_start Update c = UpdateUserAttempt 1 c"
| "bridge_start Delete c = c\<lparr>spDbOp := (spDbOp c)\<lparr>op_nUserId := u_nUserId c\<rparr>\<rparr>"

text \<open>The notices: the result the bridge is settled with; \<open>None\<close> is another attempt.\<close>

definition passes_on :: "promise_result \<Rightarrow> CUserOpContext \<Rightarrow> promise_result option \<times> CUserOpContext" where
  "passes_on r c = (Some r, u_trace ([CHR 0xE5, CHR 0xA4, CHR 0xB1, CHR 0xE8, CHR 0xB4, CHR 0xA5] @ ''('' @ [CHR 0xE9, CHR 0x9D, CHR 0x9E, CHR 0xE6, CHR 0x95, CHR 0xB0, CHR 0xE6, CHR 0x8D, CHR 0xAE, CHR 0xE5, CHR 0xB1, CHR 0x82] @ '');'') c)"

definition bridge_fails :: "UserEKind \<Rightarrow> string \<Rightarrow> string \<Rightarrow> CUserOpContext \<Rightarrow> promise_result option \<times> CUserOpContext" where
  "bridge_fails k err t c = (Some (Reject (CUserError k err)), u_trace t (c\<lparr>strError := err\<rparr>))"

definition query_settled :: "promise_result \<Rightarrow> CUserOpContext \<Rightarrow> promise_result option \<times> CUserOpContext" where
  "query_settled r c =
     (if IsFulfilled r
      then (Some Resolve, u_trace ([CHR 0xE6, CHR 0x9F, CHR 0xA5, CHR 0xE5, CHR 0xBA, CHR 0x93, CHR 0xE5, CHR 0x91, CHR 0xBD, CHR 0xE4, CHR 0xB8, CHR 0xAD] @ '';'') (c\<lparr>bExists := True, u_recResult := recResult (spDbOp c)\<rparr>))
      else case TryGetDbError r of
             None \<Rightarrow> passes_on r c
           | Some (eKind, strDbWhat) \<Rightarrow>
               if eKind = kRowNotFound then (Some Resolve, u_trace ([CHR 0xE6, CHR 0x9F, CHR 0xA5, CHR 0xE5, CHR 0xBA, CHR 0x93, CHR 0xE6, CHR 0x9C, CHR 0xAA, CHR 0xE5, CHR 0x91, CHR 0xBD, CHR 0xE4, CHR 0xB8, CHR 0xAD] @ '';'') (c\<lparr>bExists := False\<rparr>))
               else bridge_fails kDbUnavailable ([CHR 0xE6, CHR 0x9F, CHR 0xA5, CHR 0xE8, CHR 0xAF, CHR 0xA2, CHR 0xE5, CHR 0xA4, CHR 0xB1, CHR 0xE8, CHR 0xB4, CHR 0xA5, CHR 0xEF, CHR 0xBC, CHR 0x9A] @ strDbWhat) ([CHR 0xE5, CHR 0xA4, CHR 0xB1, CHR 0xE8, CHR 0xB4, CHR 0xA5] @ ''('' @ [CHR 0xE6, CHR 0x9F, CHR 0xA5, CHR 0xE8, CHR 0xAF, CHR 0xA2] @ '');'') c)"

definition insert_settled :: "promise_result \<Rightarrow> CUserOpContext \<Rightarrow> promise_result option \<times> CUserOpContext" where
  "insert_settled r c =
     (if IsFulfilled r
      then let c = c\<lparr>u_recResult := recResult (spDbOp c), u_nUserId := nUserId (recResult (spDbOp c))\<rparr>
           in (Some Resolve, u_trace ([CHR 0xE5, CHR 0x86, CHR 0x99, CHR 0xE5, CHR 0xBA, CHR 0x93, CHR 0xE6, CHR 0x88, CHR 0x90, CHR 0xE5, CHR 0x8A, CHR 0x9F] @ ''(id='' @ decimal (unat (u_nUserId c)) @ '');'') c)
      else case TryGetDbError r of
             None \<Rightarrow> passes_on r c
           | Some (eKind, strDbWhat) \<Rightarrow>
               if eKind = kDuplicateKey then bridge_fails kDuplicate ([CHR 0xE7, CHR 0x94, CHR 0xA8, CHR 0xE6, CHR 0x88, CHR 0xB7, CHR 0xE5, CHR 0xB7, CHR 0xB2, CHR 0xE5, CHR 0xAD, CHR 0x98, CHR 0xE5, CHR 0x9C, CHR 0xA8]) ([CHR 0xE5, CHR 0x86, CHR 0x99, CHR 0xE5, CHR 0xBA, CHR 0x93, CHR 0xE5, CHR 0x86, CHR 0xB2, CHR 0xE7, CHR 0xAA, CHR 0x81] @ '';'') c
               else bridge_fails kDbUnavailable ([CHR 0xE6, CHR 0x8F, CHR 0x92, CHR 0xE5, CHR 0x85, CHR 0xA5, CHR 0xE5, CHR 0xA4, CHR 0xB1, CHR 0xE8, CHR 0xB4, CHR 0xA5, CHR 0xEF, CHR 0xBC, CHR 0x9A] @ strDbWhat) ([CHR 0xE5, CHR 0xA4, CHR 0xB1, CHR 0xE8, CHR 0xB4, CHR 0xA5] @ ''('' @ [CHR 0xE6, CHR 0x8F, CHR 0x92, CHR 0xE5, CHR 0x85, CHR 0xA5] @ '');'') c)"

definition update_settled :: "promise_result \<Rightarrow> CUserOpContext \<Rightarrow> promise_result option \<times> CUserOpContext" where
  "update_settled r c =
     (if IsFulfilled r
      then (Some Resolve, u_trace ([CHR 0xE6, CHR 0x94, CHR 0xB9, CHR 0xE5, CHR 0xBA, CHR 0x93, CHR 0xE6, CHR 0x88, CHR 0x90, CHR 0xE5, CHR 0x8A, CHR 0x9F] @ ''('' @ [CHR 0xE7, CHR 0xAC, CHR 0xAC] @ decimal (nAttempt c) @ [CHR 0xE6, CHR 0xAC, CHR 0xA1] @ '');'') (c\<lparr>u_recResult := recResult (spDbOp c)\<rparr>))
      else case TryGetDbError r of
             None \<Rightarrow> passes_on r c
           | Some (eKind, strDbWhat) \<Rightarrow>
               if eKind \<noteq> kVersionConflict \<or> nAttempt c \<ge> kMaxUpdateAttempts
               then (if eKind = kVersionConflict
                     then bridge_fails kUserVersionConflict ([CHR 0xE4, CHR 0xB9, CHR 0x90, CHR 0xE8, CHR 0xA7, CHR 0x82, CHR 0xE9, CHR 0x94, CHR 0x81, CHR 0xE5, CHR 0x86, CHR 0xB2, CHR 0xE7, CHR 0xAA, CHR 0x81, CHR 0xE9, CHR 0x87, CHR 0x8D, CHR 0xE8, CHR 0xAF, CHR 0x95, CHR 0xE6, CHR 0xAC, CHR 0xA1, CHR 0xE6, CHR 0x95, CHR 0xB0, CHR 0xE7, CHR 0x94, CHR 0xA8, CHR 0xE5, CHR 0xB0, CHR 0xBD]) ([CHR 0xE5, CHR 0xA4, CHR 0xB1, CHR 0xE8, CHR 0xB4, CHR 0xA5] @ ''('' @ [CHR 0xE6, CHR 0x9B, CHR 0xB4, CHR 0xE6, CHR 0x96, CHR 0xB0] @ '');'') c
                     else bridge_fails kDbUnavailable ([CHR 0xE6, CHR 0x9B, CHR 0xB4, CHR 0xE6, CHR 0x96, CHR 0xB0, CHR 0xE5, CHR 0xA4, CHR 0xB1, CHR 0xE8, CHR 0xB4, CHR 0xA5, CHR 0xEF, CHR 0xBC, CHR 0x9A] @ strDbWhat) ([CHR 0xE5, CHR 0xA4, CHR 0xB1, CHR 0xE8, CHR 0xB4, CHR 0xA5] @ ''('' @ [CHR 0xE6, CHR 0x9B, CHR 0xB4, CHR 0xE6, CHR 0x96, CHR 0xB0] @ '');'') c)
               else
                 let recLatest = (recResult (spDbOp c))\<lparr>strName := strName (u_recRequest c)\<rparr>
                 in (None, u_trace ([CHR 0xE7, CHR 0x89, CHR 0x88, CHR 0xE6, CHR 0x9C, CHR 0xAC, CHR 0xE5, CHR 0x86, CHR 0xB2, CHR 0xE7, CHR 0xAA, CHR 0x81, CHR 0xE9, CHR 0x87, CHR 0x8D, CHR 0xE8, CHR 0xAF, CHR 0x95] @ '';'') (c\<lparr>u_recRequest := recLatest\<rparr>)))"

definition delete_settled :: "promise_result \<Rightarrow> CUserOpContext \<Rightarrow> promise_result option \<times> CUserOpContext" where
  "delete_settled r c =
     (if IsFulfilled r then (Some Resolve, u_trace ([CHR 0xE5, CHR 0x88, CHR 0xA0, CHR 0xE5, CHR 0xBA, CHR 0x93, CHR 0xE6, CHR 0x88, CHR 0x90, CHR 0xE5, CHR 0x8A, CHR 0x9F] @ '';'') c)
      else case TryGetDbError r of
             None \<Rightarrow> passes_on r c
           | Some (eKind, strDbWhat) \<Rightarrow>
               if eKind = kRowNotFound then bridge_fails kNotFound ([CHR 0xE7, CHR 0x94, CHR 0xA8, CHR 0xE6, CHR 0x88, CHR 0xB7, CHR 0xE4, CHR 0xB8, CHR 0x8D, CHR 0xE5, CHR 0xAD, CHR 0x98, CHR 0xE5, CHR 0x9C, CHR 0xA8]) ([CHR 0xE5, CHR 0x88, CHR 0xA0, CHR 0xE5, CHR 0xBA, CHR 0x93, CHR 0xE6, CHR 0x9C, CHR 0xAA, CHR 0xE5, CHR 0x91, CHR 0xBD, CHR 0xE4, CHR 0xB8, CHR 0xAD] @ '';'') c
               else bridge_fails kDbUnavailable ([CHR 0xE5, CHR 0x88, CHR 0xA0, CHR 0xE9, CHR 0x99, CHR 0xA4, CHR 0xE5, CHR 0xA4, CHR 0xB1, CHR 0xE8, CHR 0xB4, CHR 0xA5, CHR 0xEF, CHR 0xBC, CHR 0x9A] @ strDbWhat) ([CHR 0xE5, CHR 0xA4, CHR 0xB1, CHR 0xE8, CHR 0xB4, CHR 0xA5] @ ''('' @ [CHR 0xE5, CHR 0x88, CHR 0xA0, CHR 0xE9, CHR 0x99, CHR 0xA4] @ '');'') c)"

fun bridge_settled :: "db_op \<Rightarrow> promise_result \<Rightarrow> CUserOpContext \<Rightarrow> promise_result option \<times> CUserOpContext" where
  "bridge_settled Query = query_settled"
| "bridge_settled Insert = insert_settled"
| "bridge_settled Update = update_settled"
| "bridge_settled Delete = delete_settled"

subsection \<open>The chains\<close>

text \<open>A layer with code of its own, or a \<open>ThenPromise\<close> layer whose factory is a bridge.\<close>

datatype user_layer = Code "CUserOpContext layer" | Bridge TaskKind db_op

definition LoadUserAsync :: "TaskKind \<Rightarrow> user_layer list" where
  "LoadUserAsync eKind = [Code (LThen eKind StepValidateUserId), Bridge eKind Query]"

definition BuildQueryFlow :: "user_layer list" where
  "BuildQueryFlow = LoadUserAsync (Gated kRead) @ [Code (LThen (Gated kRead) StepRejectIfAbsent),
     Code (LFinally (Gated kRead) StepAudit)]"

definition BuildRegisterFlow :: "user_layer list" where
  "BuildRegisterFlow = [Code (LThen (Gated kWrite) StepValidateRecord), Bridge (Gated kWrite) Query,
     Code (LThen (Gated kWrite) StepRejectUserExists), Bridge (Gated kWrite) Insert, Code (LFinally (Gated kWrite) StepAudit)]"

definition BuildRenameFlow :: "user_layer list" where
  "BuildRenameFlow = LoadUserAsync (Gated kWrite) @ [Code (LThen (Gated kWrite) StepRejectIfAbsent),
     Code (LThen (Gated kWrite) StepPrepareRename), Bridge (Gated kWrite) Update, Code (LFinally (Gated kWrite) StepAudit)]"

definition BuildRemoveFlow :: "user_layer list" where
  "BuildRemoveFlow = LoadUserAsync (Gated kWrite) @ [Code (LThen (Gated kWrite) StepRejectIfAbsent),
     Bridge (Gated kWrite) Delete, Code (LFinally (Gated kWrite) StepAudit)]"

text \<open>The four functions: the context they make, and their chain.\<close>

datatype request = QueryUser u64 | RegisterUser CUserRecord | RenameUser u64 string | RemoveUser u64

fun request_ctx :: "request \<Rightarrow> CUserOpContext" where
  "request_ctx (QueryUser n) = (MakeContext ([CHR 0xE6, CHR 0x9F, CHR 0xA5, CHR 0xE8, CHR 0xAF, CHR 0xA2, CHR 0xE7, CHR 0x94, CHR 0xA8, CHR 0xE6, CHR 0x88, CHR 0xB7]))\<lparr>u_nUserId := n\<rparr>"
| "request_ctx (RegisterUser rec) = (MakeContext ([CHR 0xE6, CHR 0xB3, CHR 0xA8, CHR 0xE5, CHR 0x86, CHR 0x8C, CHR 0xE7, CHR 0x94, CHR 0xA8, CHR 0xE6, CHR 0x88, CHR 0xB7]))\<lparr>u_recRequest := rec, u_nUserId := nUserId rec\<rparr>"
| "request_ctx (RenameUser n s) =
     (MakeContext ([CHR 0xE4, CHR 0xBF, CHR 0xAE, CHR 0xE6, CHR 0x94, CHR 0xB9, CHR 0xE7, CHR 0x94, CHR 0xA8, CHR 0xE6, CHR 0x88, CHR 0xB7, CHR 0xE5, CHR 0x90, CHR 0x8D]))\<lparr>u_nUserId := n, u_recRequest := CUserRecord\<lparr>strName := s\<rparr>\<rparr>"
| "request_ctx (RemoveUser n) = (MakeContext ([CHR 0xE5, CHR 0x88, CHR 0xA0, CHR 0xE9, CHR 0x99, CHR 0xA4, CHR 0xE7, CHR 0x94, CHR 0xA8, CHR 0xE6, CHR 0x88, CHR 0xB7]))\<lparr>u_nUserId := n\<rparr>"

fun request_flow :: "request \<Rightarrow> user_layer list" where
  "request_flow (QueryUser n) = BuildQueryFlow"
| "request_flow (RegisterUser rec) = BuildRegisterFlow"
| "request_flow (RenameUser n s) = BuildRenameFlow"
| "request_flow (RemoveUser n) = BuildRemoveFlow"

text \<open>\<open>MakeRejectedPromise\<close>: without the table's interface the starter of a chain of one layer
  rejects it.\<close>

definition MakeRejectedPromise :: "CUserOpContext \<Rightarrow> promise_result \<times> CUserOpContext" where
  "MakeRejectedPromise c =
     (Reject (CUserError kDbUnavailable ([CHR 0xE6, CHR 0x95, CHR 0xB0, CHR 0xE6, CHR 0x8D, CHR 0xAE, CHR 0xE8, CHR 0xAE, CHR 0xBF, CHR 0xE9, CHR 0x97, CHR 0xAE, CHR 0xE6, CHR 0xA8, CHR 0xA1, CHR 0xE5, CHR 0x9D, CHR 0x97, CHR 0xE4, CHR 0xB8, CHR 0x8D, CHR 0xE5, CHR 0x8F, CHR 0xAF, CHR 0xE7, CHR 0x94, CHR 0xA8])), c\<lparr>strError := [CHR 0xE6, CHR 0x95, CHR 0xB0, CHR 0xE6, CHR 0x8D, CHR 0xAE, CHR 0xE8, CHR 0xAE, CHR 0xBF, CHR 0xE9, CHR 0x97, CHR 0xAE, CHR 0xE6, CHR 0xA8, CHR 0xA1, CHR 0xE5, CHR 0x9D, CHR 0x97, CHR 0xE4, CHR 0xB8, CHR 0x8D, CHR 0xE5, CHR 0x8F, CHR 0xAF, CHR 0xE7, CHR 0x94, CHR 0xA8]\<rparr>)"

subsection \<open>Interleaved calls\<close>

record user_call =
  v_request :: request
  v_layers :: "user_layer list"
  v_result :: promise_result
  v_ctx :: CUserOpContext
  v_wait :: "nat option"          \<comment> \<open>the call to the table that the bridge waits for\<close>
  v_made :: "nat list"            \<comment> \<open>the calls to the table that have ended\<close>

record user_sys =
  v_table :: table_sys
  v_calls :: "user_call list"

definition new_user_call :: "request \<Rightarrow> user_call" where
  "new_user_call q = \<lparr>v_request = q, v_layers = request_flow q, v_result = Resolve, v_ctx = request_ctx q,
     v_wait = None, v_made = []\<rparr>"

definition put_call :: "nat \<Rightarrow> user_call \<Rightarrow> user_sys \<Rightarrow> user_sys" where
  "put_call j c s = s\<lparr>v_calls := (v_calls s)[j := c]\<rparr>"

text \<open>The next layer is taken: its own code runs, a rejected result passes a bridge by, or the
  bridge calls the table.\<close>

definition call_table :: "nat \<Rightarrow> db_op \<Rightarrow> user_call \<Rightarrow> user_sys \<Rightarrow> user_sys" where
  "call_table j op c s =
     put_call j (c\<lparr>v_wait := Some (length (t_calls (v_table s)))\<rparr>)
       (s\<lparr>v_table := (v_table s)\<lparr>t_calls := t_calls (v_table s) @ [new_call op (spDbOp (v_ctx c))]\<rparr>\<rparr>)"

definition user_layer_runs :: "nat \<Rightarrow> user_sys \<Rightarrow> user_sys" where
  "user_layer_runs j s =
     (let c = v_calls s ! j
      in case v_layers c of
           [] \<Rightarrow> s
         | Code l # ls \<Rightarrow>
             let (r, ctx) = run_chain_layer l (v_result c) (v_ctx c)
             in put_call j (c\<lparr>v_layers := ls, v_result := r, v_ctx := ctx\<rparr>) s
         | Bridge k op # ls \<Rightarrow>
             if IsRejected (v_result c) then put_call j (c\<lparr>v_layers := ls\<rparr>) s
             else call_table j op (c\<lparr>v_ctx := bridge_start op (v_ctx c)\<rparr>) s)"

text \<open>The notice for the call \<open>n\<close>, which has ended.\<close>

definition user_notice :: "nat \<Rightarrow> nat \<Rightarrow> user_sys \<Rightarrow> user_sys" where
  "user_notice j n s =
     (let c = v_calls s ! j;
          d = t_calls (v_table s) ! n;
          c = c\<lparr>v_ctx := (v_ctx c)\<lparr>spDbOp := c_op d\<rparr>, v_wait := None, v_made := v_made c @ [n]\<rparr>
      in case v_layers c of
           Bridge k op # ls \<Rightarrow>
             (case bridge_settled op (c_result d) (v_ctx c) of
                (Some r, ctx) \<Rightarrow> put_call j (c\<lparr>v_layers := ls, v_result := r, v_ctx := ctx\<rparr>) s
              | (None, ctx) \<Rightarrow> call_table j op (c\<lparr>v_ctx := UpdateUserAttempt (nAttempt ctx + 1) ctx\<rparr>) s)
         | _ \<Rightarrow> s)"

text \<open>The executor of the service refuses the task of a layer.\<close>

definition user_refused :: "nat \<Rightarrow> user_sys \<Rightarrow> user_sys" where
  "user_refused j s =
     (let c = v_calls s ! j in put_call j (c\<lparr>v_layers := tl (v_layers c), v_result := kStopped\<rparr>) s)"

definition ready :: "nat \<Rightarrow> user_sys \<Rightarrow> bool" where
  "ready j s \<longleftrightarrow> j < length (v_calls s) \<and> v_layers (v_calls s ! j) \<noteq> [] \<and> v_wait (v_calls s ! j) = None"

definition ended :: "nat \<Rightarrow> table_sys \<Rightarrow> bool" where
  "ended n t \<longleftrightarrow> n < length (t_calls t) \<and> c_layers (t_calls t ! n) = []"

text \<open>The assertions of the table's functions: it has been started.\<close>

inductive user_step :: "user_sys \<Rightarrow> user_sys \<Rightarrow> bool" where
  table: "table_step (v_table s) t' \<Longrightarrow> user_step s (s\<lparr>v_table := t'\<rparr>)"
| request: "user_step s (s\<lparr>v_calls := v_calls s @ [new_user_call q]\<rparr>)"
| layer: "ready j s \<Longrightarrow> m_pExecutor (t_db (v_table s)) \<Longrightarrow> user_step s (user_layer_runs j s)"
| notice: "j < length (v_calls s) \<Longrightarrow> v_wait (v_calls s ! j) = Some n \<Longrightarrow> ended n (v_table s) \<Longrightarrow>
    m_pExecutor (t_db (v_table s)) \<Longrightarrow> user_step s (user_notice j n s)"
| refused: "ready j s \<Longrightarrow> user_step s (user_refused j s)"

inductive user_reach :: "user_sys \<Rightarrow> bool" where
  u_start: "user_reach \<lparr>v_table = table_start nLatencyMs nThreadCount, v_calls = []\<rparr>"
| u_next: "user_reach s \<Longrightarrow> user_step s s' \<Longrightarrow> user_reach s'"

subsection \<open>What the functions promise\<close>

definition is_user :: "UserEKind \<Rightarrow> promise_result \<Rightarrow> bool" where
  "is_user k r \<longleftrightarrow> (\<exists>t. r = Reject (CUserError k t))"

text \<open>The steps of the table that calls of the request made.\<close>

definition mine :: "nat list \<Rightarrow> table_sys \<Rightarrow> (nat \<times> rows \<times> rows) list" where
  "mine ns t = filter (\<lambda>e. fst e \<in> set ns) (t_log t)"

text \<open>The change each request is for.  A rename writes a row that it has seen, under the new name and
  the next version, where the table still has the version it has seen.\<close>

fun effect :: "request \<Rightarrow> CUserOpContext \<Rightarrow> (CUserRecord \<Rightarrow> bool) \<Rightarrow> rows \<Rightarrow> rows \<Rightarrow> bool" where
  "effect (QueryUser n) c sn t t' \<longleftrightarrow> False"
| "effect (RegisterUser rec) c sn t t' \<longleftrightarrow>
     t (u_nUserId c) = None \<and> (nUserId rec \<noteq> 0 \<longrightarrow> u_nUserId c = nUserId rec)
     \<and> u_recResult c = rec\<lparr>nUserId := u_nUserId c, nVersion := 1\<rparr> \<and> t' = t(u_nUserId c := Some (u_recResult c))"
| "effect (RenameUser n s) c sn t t' \<longleftrightarrow>
     (\<exists>row cur. sn row \<and> t n = Some cur \<and> nVersion cur = nVersion row
        \<and> u_recResult c = row\<lparr>strName := s, nVersion := nVersion row + 1\<rparr> \<and> t' = t(n := Some (u_recResult c)))"
| "effect (RemoveUser n) c sn t t' \<longleftrightarrow> t n \<noteq> None \<and> t' = t(n := None)"

definition row_seen :: "u64 \<Rightarrow> (nat \<times> rows \<times> rows) list \<Rightarrow> CUserRecord \<Rightarrow> bool" where
  "row_seen n es row \<longleftrightarrow> (\<exists>(i, a, b) \<in> set es. a n = Some row)"

definition none_seen :: "u64 \<Rightarrow> (nat \<times> rows \<times> rows) list \<Rightarrow> bool" where
  "none_seen n es \<longleftrightarrow> (\<exists>(i, a, b) \<in> set es. a n = None)"

fun request_id :: "request \<Rightarrow> u64" where
  "request_id (QueryUser n) = n"
| "request_id (RegisterUser rec) = nUserId rec"
| "request_id (RenameUser n s) = n"
| "request_id (RemoveUser n) = n"

definition acts :: "request \<Rightarrow> (nat \<times> rows \<times> rows) list \<Rightarrow> bool" where
  "acts q es \<longleftrightarrow> (\<exists>c. acted (effect q c (row_seen (request_id q) es)) es)"

definition record_valid :: "CUserRecord \<Rightarrow> bool" where
  "record_valid rec \<longleftrightarrow> IsValidUserName (strName rec) \<and> CHR ''@'' \<in> set (strMail rec) \<and> nLevel rec > 0"

text \<open>The errors a request may end with, and what they say of the table.  A rename whose row is removed
  between its reading and its update ends with \<open>kDbUnavailable\<close>.\<close>

definition refusal :: "request \<Rightarrow> promise_result \<Rightarrow> CUserOpContext \<Rightarrow> (nat \<times> rows \<times> rows) list \<Rightarrow> bool" where
  "refusal q r c es \<longleftrightarrow> quiet es \<and> (case q of
       QueryUser n \<Rightarrow> is_user kInvalidParam r \<and> n = 0 \<and> es = [] \<or> is_user kNotFound r \<and> none_seen n es
     | RegisterUser rec \<Rightarrow> is_user kInvalidParam r \<and> \<not> record_valid rec \<and> es = []
         \<or> is_user kDuplicate r \<and> record_valid rec \<and> (\<exists>n row. row_seen n es row \<and> (n = nUserId rec \<or> nUserId rec = 0))
     | RenameUser n s \<Rightarrow> is_user kInvalidParam r \<and> n = 0 \<and> es = []
         \<or> (is_user kNotFound r \<or> is_user kDbUnavailable r) \<and> none_seen n es
         \<or> is_user kUserVersionConflict r \<and> nAttempt c = kMaxUpdateAttempts
     | RemoveUser n \<Rightarrow> is_user kInvalidParam r \<and> n = 0 \<and> es = [] \<or> is_user kNotFound r \<and> none_seen n es)"

definition request_kept :: "request \<Rightarrow> promise_result \<Rightarrow> CUserOpContext \<Rightarrow> (nat \<times> rows \<times> rows) list \<Rightarrow> bool" where
  "request_kept q r c es \<longleftrightarrow>
     (r = Resolve \<and> (case q of QueryUser n \<Rightarrow> quiet es \<and> row_seen n es (u_recResult c)
                      | _ \<Rightarrow> acted (effect q c (row_seen (request_id q) es)) es))
     \<or> refusal q r c es \<or> r = kStopped \<and> (quiet es \<or> acts q es)"

subsection \<open>Steps of the table seen from a request\<close>

lemma quiet_filter: "quiet es \<Longrightarrow> quiet (filter P es)"
  by (auto simp: quiet_def)

lemma set_mine: "set (mine ns t) = {e \<in> set (t_log t). fst e \<in> set ns}"
  by (auto simp: mine_def)

lemma mine_Nil [simp]: "mine [] t = []"
  by (simp add: mine_def)

lemma quiet_mine: "quiet (mine ns t) \<Longrightarrow> quiet (own n (t_log t)) \<Longrightarrow> quiet (mine (ns @ [n]) t)"
  by (fastforce simp: quiet_def mine_def own_def)

lemma filter_split: "filter P l = es1 @ x # es2 \<Longrightarrow> \<exists>l1 l2. l = l1 @ x # l2 \<and> filter P l1 = es1 \<and> filter P l2 = es2"
proof (induction es1 arbitrary: l)
  case Nil
  then obtain l1 l2 where "l = l1 @ x # l2" "\<forall>u \<in> set l1. \<not> P u" "filter P l2 = es2"
    by (auto simp: filter_eq_Cons_iff)
  then show ?case by (intro exI[of _ l1] exI[of _ l2]) simp
next
  case (Cons y es1)
  then obtain l1 l2 where l: "l = l1 @ y # l2" "\<forall>u \<in> set l1. \<not> P u" "P y" "filter P l2 = es1 @ x # es2"
    by (auto simp: filter_eq_Cons_iff)
  then obtain l3 l4 where "l2 = l3 @ x # l4" "filter P l3 = es1" "filter P l4 = es2" using Cons.IH by blast
  with l show ?case by (intro exI[of _ "l1 @ y # l3"] exI[of _ l4]) simp
qed

lemma acted_mine:
  assumes q: "quiet (mine ns t)" and a: "acted P (own n (t_log t))"
  shows "acted P (mine (ns @ [n]) t)"
proof -
  obtain es1 i a b es2 where es: "own n (t_log t) = es1 @ (i, a, b) # es2" "quiet es1" "quiet es2" "P a b"
    using a by (auto simp: acted_def)
  then obtain l1 l2 where l: "t_log t = l1 @ (i, a, b) # l2" "own n l1 = es1" "own n l2 = es2"
    using filter_split[of "\<lambda>e. fst e = n"] unfolding own_def by metis
  then have "i = n" using es(1) by (auto simp: own_def split: if_splits dest!: arg_cong[of _ _ set])
  have sub: "quiet (filter (\<lambda>e. fst e \<in> set (ns @ [n])) l)" if "set l \<subseteq> set (t_log t)" "quiet (own n l)" for l
    using that q by (fastforce simp: quiet_def mine_def own_def)
  have "quiet (filter (\<lambda>e. fst e \<in> set (ns @ [n])) l1)" "quiet (filter (\<lambda>e. fst e \<in> set (ns @ [n])) l2)"
    using sub[of l1] sub[of l2] l es by auto
  moreover have "mine (ns @ [n]) t = filter (\<lambda>e. fst e \<in> set (ns @ [n])) l1 @ (i, a, b)
      # filter (\<lambda>e. fst e \<in> set (ns @ [n])) l2"
    using l(1) \<open>i = n\<close> by (simp add: mine_def)
  ultimately show ?thesis using es(4) unfolding acted_def by blast
qed

lemma row_seen_mine: "row_seen m (mine ns t) row \<Longrightarrow> row_seen m (mine (ns @ [n]) t) row"
  "row_seen m (own n (t_log t)) row \<Longrightarrow> row_seen m (mine (ns @ [n]) t) row"
  by (auto simp: row_seen_def set_mine own_def)

lemma none_seen_mine: "none_seen m (own n (t_log t)) \<Longrightarrow> none_seen m (mine (ns @ [n]) t)"
  by (auto simp: none_seen_def set_mine own_def)

lemma ended_table_step:
  assumes "table_step t t'" "ended n t"
  shows "ended n t' \<and> t_calls t' ! n = t_calls t ! n \<and> own n (t_log t') = own n (t_log t)"
  using assms
proof (induction rule: table_step.induct)
  case (called t k spOp)
  then show ?case by (auto simp: ended_def nth_append)
next
  case (layer i t)
  then have "i \<noteq> n" by (auto simp: ended_def open_call_def)
  with layer show ?case
    by (auto simp: ended_def layer_runs_def Let_def split: list.split prod.split)
next
  case (refused i t)
  then have "i \<noteq> n" by (auto simp: ended_def open_call_def)
  with refused show ?case by (auto simp: ended_def layer_refused_def Let_def)
qed

lemma log_grows: "table_step t t' \<Longrightarrow> \<exists>es. t_log t' = t_log t @ es"
  by (induction rule: table_step.induct) (auto simp: layer_runs_def layer_refused_def Let_def split: list.split prod.split)

lemma mine_table_step:
  assumes "table_step t t'" "\<forall>n \<in> set ns. ended n t"
  shows "mine ns t' = mine ns t"
proof -
  obtain es where es: "t_log t' = t_log t @ es" using log_grows[OF assms(1)] by blast
  have "own n es = []" if "n \<in> set ns" for n
    using ended_table_step[OF assms(1)] assms(2) that es by (metis append_self_conv own_call_simps(2))
  then have "filter (\<lambda>e. fst e \<in> set ns) es = []"
    by (auto simp: own_def filter_empty_conv)
  then show ?thesis by (simp add: mine_def es)
qed

text \<open>What a call of the table says when it has ended.\<close>

lemma acted_same: "acted P es \<Longrightarrow> (\<And>a b. P a b \<Longrightarrow> a = b) \<Longrightarrow> quiet es"
  by (auto simp: acted_def)

lemma acted_before: "acted P es \<Longrightarrow> \<exists>(i, a, b) \<in> set es. P a b"
  by (auto simp: acted_def)

lemma contract_refuses: "db_contract k o0 r spOp t t' \<Longrightarrow> r \<noteq> Resolve \<Longrightarrow> t' = t"
  by (cases k) (auto split: option.splits if_splits)

lemma contract_query: "db_contract Query o0 r spOp t t' \<Longrightarrow> t' = t"
  by simp

lemma contract_results: "db_contract k o0 r spOp t t' \<Longrightarrow> r = Resolve \<or> (\<exists>e. is_db e r)"
  by (cases k) (auto split: option.splits if_splits)

lemma stopped_not_db: "\<not> is_db e kStopped" "kStopped \<noteq> Resolve"
  using framework_db[of kStopped] TryGetDbError_db[of e kStopped] framework_rejected[of kStopped]
  by (auto simp: framework_def kStopped_def Reject_def Resolve_def)

lemma stopped_said:
  assumes "call_kept k o0 kStopped spOp es" "\<not> bSimulateDbError o0"
  shows "quiet es \<or> k \<noteq> Query \<and> (\<exists>o'. acted (db_contract k o0 Resolve o') es)"
proof -
  have "\<not> acted (db_contract k o0 kStopped spOp) es"
    using acted_before contract_results stopped_not_db by fast
  then consider "quiet es" | "acted (\<lambda>t t'. \<exists>r' o'. db_contract k o0 r' o' t t') es"
    using assms by (auto simp: call_kept_def)
  then show ?thesis
  proof cases
    case 2
    then obtain es1 i a b es2 r' o' where es: "es = es1 @ (i, a, b) # es2" "quiet es1" "quiet es2" "db_contract k o0 r' o' a b"
      by (auto simp: acted_def)
    show ?thesis
    proof (cases "r' = Resolve \<and> k \<noteq> Query")
      case True
      then have "acted (db_contract k o0 Resolve o') es" using es unfolding acted_def by blast
      with True show ?thesis by blast
    next
      case False
      then have "a = b" using contract_refuses[OF es(4)] contract_query es(4) by metis
      with es show ?thesis by simp
    qed
  qed simp
qed

lemma query_said:
  assumes "call_kept Query o0 r spOp es" "\<not> bSimulateDbError o0"
  shows "quiet es \<and> (r = Resolve \<and> row_seen (op_nUserId o0) es (recResult spOp)
     \<or> is_db kRowNotFound r \<and> none_seen (op_nUserId o0) es \<or> r = kStopped)"
proof (cases "r = kStopped")
  case True
  then show ?thesis using stopped_said assms by fast
next
  case False
  then have a: "acted (db_contract Query o0 r spOp) es" using assms by (auto simp: call_kept_def)
  then have "quiet es" by (rule acted_same) simp
  with acted_before[OF a] show ?thesis by (auto simp: row_seen_def none_seen_def)
qed

lemma write_said:
  assumes "call_kept k o0 r spOp es" "\<not> bSimulateDbError o0"
  shows "r = Resolve \<and> acted (db_contract k o0 Resolve spOp) es
     \<or> (\<exists>e. is_db e r) \<and> quiet es \<and> (\<exists>(i, a, b) \<in> set es. db_contract k o0 r spOp a a)
     \<or> r = kStopped \<and> (quiet es \<or> k \<noteq> Query \<and> (\<exists>o'. acted (db_contract k o0 Resolve o') es))"
proof (cases "r = kStopped")
  case True
  then show ?thesis using stopped_said assms by fast
next
  case False
  then have a: "acted (db_contract k o0 r spOp) es" using assms by (auto simp: call_kept_def)
  show ?thesis
  proof (cases "r = Resolve")
    case False
    then have "quiet es" using acted_same[OF a] contract_refuses by metis
    moreover have "\<exists>(i, a, b) \<in> set es. db_contract k o0 r spOp a a"
      using acted_before[OF a] contract_refuses[OF _ False] by fast
    ultimately show ?thesis using a False acted_before contract_results by fast
  qed (use a in simp)
qed

subsection \<open>One request\<close>

definition looked :: "u64 \<Rightarrow> CUserOpContext \<Rightarrow> (nat \<times> rows \<times> rows) list \<Rightarrow> bool" where
  "looked n c es \<longleftrightarrow> quiet es \<and> (if bExists c then row_seen n es (u_recResult c) else none_seen n es)"

fun open_phase :: "request \<Rightarrow> nat \<Rightarrow> CUserOpContext \<Rightarrow> (nat \<times> rows \<times> rows) list \<Rightarrow> bool" where
  "open_phase (QueryUser n) p c es \<longleftrightarrow> u_nUserId c = n \<and> (p \<le> 1 \<and> es = [] \<or> p = 2 \<and> looked n c es)"
| "open_phase (RegisterUser rec) p c es \<longleftrightarrow> u_nUserId c = nUserId rec \<and> u_recRequest c = rec
     \<and> (p = 0 \<and> es = [] \<or> p = 1 \<and> record_valid rec \<and> es = [] \<or> p = 2 \<and> record_valid rec \<and> looked (nUserId rec) c es
        \<or> p = 3 \<and> record_valid rec \<and> quiet es)"
| "open_phase (RenameUser n s) p c es \<longleftrightarrow> u_nUserId c = n
     \<and> (strName (u_recRequest c) = s \<and> (p \<le> 1 \<and> es = [] \<or> p = 2 \<and> looked n c es \<or> p = 3 \<and> bExists c \<and> looked n c es)
        \<or> p = 4 \<and> quiet es \<and> (\<exists>row. row_seen n es row \<and> u_recRequest c = row\<lparr>strName := s\<rparr>))"
| "open_phase (RemoveUser n) p c es \<longleftrightarrow> u_nUserId c = n
     \<and> (p \<le> 1 \<and> es = [] \<or> p = 2 \<and> looked n c es \<or> p = 3 \<and> bExists c \<and> looked n c es)"

definition user_phase :: "request \<Rightarrow> nat \<Rightarrow> promise_result \<Rightarrow> CUserOpContext \<Rightarrow> (nat \<times> rows \<times> rows) list \<Rightarrow> bool" where
  "user_phase q p r c es \<longleftrightarrow> r = Resolve \<and> open_phase q p c es
     \<or> request_kept q r c es \<and> (IsRejected r \<or> p \<ge> length (request_flow q) - 1)"

declare request_flow.simps [simp del]

lemmas flow_defs = request_flow.simps BuildQueryFlow_def BuildRegisterFlow_def BuildRenameFlow_def BuildRemoveFlow_def LoadUserAsync_def

lemma flow_length: "length (request_flow q) = (case q of QueryUser _ \<Rightarrow> 4 | RenameUser _ _ \<Rightarrow> 6 | _ \<Rightarrow> 5)"
  by (cases q) (simp_all add: flow_defs)

lemma kept_trace [simp]: "request_kept q r (u_trace t c) es = request_kept q r c es"
proof -
  have "effect q (u_trace t c) sn a b = effect q c sn a b" for sn a b by (cases q) (simp_all add: u_trace_def)
  then have "effect q (u_trace t c) = effect q c" by (intro ext)
  then show ?thesis by (cases q) (simp_all add: request_kept_def refusal_def u_trace_def)
qed

lemma is_user_Reject [simp]: "is_user k (Reject (CUserError k t))"
  by (auto simp: is_user_def)

lemma kept_refusal: "refusal q (Reject e) c es \<Longrightarrow> user_phase q p (Reject e) c es"
  by (simp add: user_phase_def request_kept_def)

text \<open>A layer with code of its own.\<close>

lemma skip_phase: "user_phase q p r c es \<Longrightarrow> IsRejected r \<Longrightarrow> user_phase q (Suc p) r c es"
  by (auto simp: user_phase_def)

lemma audit_phase:
  assumes "user_phase q p r c es" "p = length (request_flow q) - 1"
  shows "user_phase q (Suc p) r (u_trace t c) es"
proof -
  have "request_kept q r c es"
    using assms by (cases q) (auto simp: user_phase_def flow_length)
  then show ?thesis using assms(2) by (auto simp: user_phase_def)
qed

lemma validate_id_phase:
  assumes "open_phase q 0 c es" "\<not> (\<exists>rec. q = RegisterUser rec)"
  shows "user_phase q 1 (capture (fst (StepValidateUserId c))) (snd (StepValidateUserId c)) es"
  using assms
  by (cases q) (auto simp: StepValidateUserId_def fails_def u_trace_def Let_def user_phase_def request_kept_def refusal_def)

lemma validate_record_phase:
  assumes "open_phase (RegisterUser rec) 0 c es"
  shows "user_phase (RegisterUser rec) 1 (capture (fst (StepValidateRecord c))) (snd (StepValidateRecord c)) es"
  using assms by (auto simp: StepValidateRecord_def fails_def u_trace_def Let_def user_phase_def request_kept_def refusal_def
      record_valid_def)

lemma absent_phase:
  assumes "open_phase q 2 c es" "\<not> (\<exists>rec. q = RegisterUser rec)"
  shows "user_phase q 3 (capture (fst (StepRejectIfAbsent c))) (snd (StepRejectIfAbsent c)) es"
  using assms
  by (cases q) (auto simp: StepRejectIfAbsent_def fails_def u_trace_def user_phase_def request_kept_def refusal_def looked_def
      flow_length split: if_splits)

lemma user_exists_phase:
  assumes "open_phase (RegisterUser rec) 2 c es"
  shows "user_phase (RegisterUser rec) 3 (capture (fst (StepRejectUserExists c))) (snd (StepRejectUserExists c)) es"
  using assms by (auto simp: StepRejectUserExists_def fails_def u_trace_def user_phase_def request_kept_def refusal_def looked_def
      split: if_splits)

lemma prepare_phase:
  assumes "open_phase (RenameUser n s) 3 c es"
  shows "user_phase (RenameUser n s) 4 (capture (fst (StepPrepareRename c))) (snd (StepPrepareRename c)) es"
  using assms by (auto simp: StepPrepareRename_def u_trace_def user_phase_def looked_def Let_def)

text \<open>A bridge that waits, and its notice.\<close>

definition user_wait :: "request \<Rightarrow> nat \<Rightarrow> CUserOpContext \<Rightarrow> (nat \<times> rows \<times> rows) list \<Rightarrow> db_op \<Rightarrow> CUserTableOp \<Rightarrow> bool" where
  "user_wait q p c es op o0 \<longleftrightarrow> open_phase q p c es \<and> p < length (request_flow q) \<and> (\<exists>k. request_flow q ! p = Bridge k op)
     \<and> o0 = spDbOp c \<and> op_nUserId o0 = (if op = Insert then nUserId (u_recRequest c) else u_nUserId c)
     \<and> (op = Insert \<or> op = Update \<longrightarrow> recRequest o0 = u_recRequest c) \<and> (op = Update \<longrightarrow> nAttempt c \<le> kMaxUpdateAttempts)"

lemma bridge_at:
  assumes "request_flow q ! p = Bridge k op" "p < length (request_flow q)"
  shows "p = 1 \<and> op = Query \<or> p = 3 \<and> op = Insert \<and> (\<exists>rec. q = RegisterUser rec)
     \<or> p = 4 \<and> op = Update \<and> (\<exists>n s. q = RenameUser n s) \<or> p = 3 \<and> op = Delete \<and> (\<exists>n. q = RemoveUser n)"
  using assms by (cases q) (auto simp: flow_length flow_defs nth_Cons' split: if_splits)

lemma bridge_query: "request_flow q ! 1 = Bridge k op \<Longrightarrow> op = Query"
  by (cases q) (auto simp: flow_defs)

lemma start_wait:
  assumes "open_phase q p c es" "p < length (request_flow q)" "request_flow q ! p = Bridge k op"
  shows "user_wait q p (bridge_start op c) es op (spDbOp (bridge_start op c))"
proof -
  have "open_phase q p (bridge_start op c) es"
    using assms(1) by (cases op; cases q) (auto simp: UpdateUserAttempt_def looked_def)
  then show ?thesis using assms(2,3)
    by (cases op) (auto simp: user_wait_def UpdateUserAttempt_def kMaxUpdateAttempts_def)
qed

text \<open>What the steps of the call add to those of the request.\<close>

definition joins :: "(nat \<times> rows \<times> rows) list \<Rightarrow> (nat \<times> rows \<times> rows) list \<Rightarrow> (nat \<times> rows \<times> rows) list \<Rightarrow> bool" where
  "joins es es' es2 \<longleftrightarrow> (quiet es \<longrightarrow> quiet es' \<longrightarrow> quiet es2) \<and> (\<forall>P. quiet es \<longrightarrow> acted P es' \<longrightarrow> acted P es2)
     \<and> set es \<union> set es' \<subseteq> set es2"

lemma joins_mine: "joins (mine ns t) (own n (t_log t)) (mine (ns @ [n]) t)"
  by (auto simp: joins_def set_mine own_def quiet_mine acted_mine)

lemma joins_seen:
  "joins es es' es2 \<Longrightarrow> row_seen n es row \<Longrightarrow> row_seen n es2 row"
  "joins es es' es2 \<Longrightarrow> row_seen n es' row \<Longrightarrow> row_seen n es2 row"
  "joins es es' es2 \<Longrightarrow> none_seen n es' \<Longrightarrow> none_seen n es2"
  unfolding joins_def row_seen_def none_seen_def by blast+

lemma stopped_kept:
  assumes "joins es es' es2" "quiet es" "quiet es' \<or> (\<exists>c. acted (effect q c (row_seen (request_id q) es2)) es')"
  shows "user_phase q p kStopped c es2"
proof -
  have "quiet es2 \<or> acts q es2" using assms unfolding joins_def acts_def by blast
  then show ?thesis by (auto simp: user_phase_def request_kept_def framework_rejected framework_def)
qed

lemma query_notice:
  assumes w: "user_wait q p c es Query o0" and s: "call_kept Query o0 r spOp es'" "\<not> bSimulateDbError o0"
    and j: "joins es es' es2" and b: "query_settled r (c\<lparr>spDbOp := spOp\<rparr>) = (out, c')"
  shows "\<exists>r'. out = Some r' \<and> user_phase q (Suc p) r' c' es2"
proof -
  have p: "p = 1" using w bridge_at by (auto simp: user_wait_def)
  have e: "es = []" "op_nUserId o0 = request_id q" using w p by (cases q; auto simp: user_wait_def)+
  then have q2: "quiet es2" using query_said[OF s] j by (simp add: joins_def)
  from query_said[OF s] consider "r = Resolve" "row_seen (request_id q) es2 (recResult spOp)"
    | "is_db kRowNotFound r" "none_seen (request_id q) es2" | "r = kStopped"
    using joins_seen(2,3)[OF j] e(2) by auto
  then show ?thesis
  proof cases
    case 1
    then have "out = Some Resolve" "looked (request_id q) c' es2"
      using b q2 by (auto simp: query_settled_def looked_def u_trace_def)
    moreover have "open_phase q 2 c' es2"
      using w p b 1 calculation(2) by (cases q) (auto simp: user_wait_def query_settled_def u_trace_def)
    ultimately show ?thesis using p by (simp add: user_phase_def numeral_2_eq_2)
  next
    case 2
    then obtain t where t: "TryGetDbError r = Some (kRowNotFound, t)" "\<not> IsFulfilled r"
      using TryGetDbError_db is_db_rejected fulfilled_iff by blast
    then have "out = Some Resolve" "looked (request_id q) c' es2"
      using b q2 2 by (auto simp: query_settled_def looked_def u_trace_def)
    moreover have "open_phase q 2 c' es2"
      using w p b t calculation(2) by (cases q) (auto simp: user_wait_def query_settled_def u_trace_def)
    ultimately show ?thesis using p by (simp add: user_phase_def numeral_2_eq_2)
  next
    case 3
    then have "out = Some kStopped"
      using b by (auto simp: query_settled_def passes_on_def fulfilled_iff framework_db framework_def)
    moreover have "user_phase q (Suc p) kStopped c' es2"
      using q2 by (auto simp: user_phase_def request_kept_def)
    ultimately show ?thesis by blast
  qed
qed

lemma stopped_notice:
  assumes "b = passes_on \<or> b = insert_settled \<or> b = update_settled \<or> b = delete_settled"
  shows "\<exists>c'. b kStopped c = (Some kStopped, c')"
  using assms framework_db[of kStopped]
  by (auto simp: framework_def insert_settled_def update_settled_def delete_settled_def passes_on_def fulfilled_iff)

lemma insert_notice:
  assumes w: "user_wait q p c es Insert o0" and s: "call_kept Insert o0 r spOp es'" "\<not> bSimulateDbError o0"
    and j: "joins es es' es2" and b: "insert_settled r (c\<lparr>spDbOp := spOp\<rparr>) = (out, c')"
  shows "\<exists>r'. out = Some r' \<and> user_phase q (Suc p) r' c' es2"
proof -
  obtain rec where q: "q = RegisterUser rec" "p = 3" using w by (auto simp: user_wait_def dest: bridge_at)
  have e: "quiet es" "record_valid rec" "nUserId (recRequest o0) = nUserId rec" "op_nUserId o0 = nUserId rec" "recRequest o0 = rec"
    using w q by (auto simp: user_wait_def)
  from write_said[OF s] show ?thesis
  proof (elim disjE conjE)
    assume r: "r = Resolve" and a: "acted (db_contract Insert o0 Resolve spOp) es'"
    have "acted (effect q c' (row_seen (request_id q) es2)) es'"
      by (rule acted_mono[OF a]) (use b r e q is_db_rejected in \<open>auto simp: insert_settled_def u_trace_def Let_def\<close>)
    then have "request_kept q Resolve c' es2" using j e(1) q by (simp add: joins_def request_kept_def)
    then show ?thesis using b r q by (auto simp: insert_settled_def user_phase_def flow_length Let_def)
  next
    assume d: "\<exists>e. is_db e r" and q': "quiet es'" and m: "\<exists>(i, a, b) \<in> set es'. db_contract Insert o0 r spOp a a"
    then have dup: "is_db kDuplicateKey r" "\<exists>n row. row_seen n es' row \<and> (n = nUserId rec \<or> nUserId rec = 0)"
      using e is_db_rejected by (fastforce simp: row_seen_def)+
    then obtain t where t: "TryGetDbError r = Some (kDuplicateKey, t)" "\<not> IsFulfilled r"
      using TryGetDbError_db is_db_rejected fulfilled_iff by blast
    have "refusal q (Reject (CUserError kDuplicate t')) c' es2" for t'
      using dup(2) e j q' q joins_seen(2)[OF j] by (auto simp: refusal_def joins_def)
    with b t show ?thesis
      by (auto simp: insert_settled_def bridge_fails_def intro: kept_refusal)
  next
    assume r: "r = kStopped" and x: "quiet es'"
    then show ?thesis using b stopped_notice[of insert_settled "c\<lparr>spDbOp := spOp\<rparr>"] stopped_kept[OF j e(1)]
      by (auto intro: skip_phase)
  next
    assume r: "r = kStopped" and x: "\<exists>o'. acted (db_contract Insert o0 Resolve o') es'"
    then obtain o' where a: "acted (db_contract Insert o0 Resolve o') es'" by blast
    have "acted (effect q (c\<lparr>u_nUserId := op_nUserId o', u_recResult := recResult o'\<rparr>) (row_seen (request_id q) es2)) es'"
      by (rule acted_mono[OF a]) (use e q is_db_rejected in auto)
    then show ?thesis using b r stopped_notice[of insert_settled "c\<lparr>spDbOp := spOp\<rparr>"] stopped_kept[OF j e(1)]
      by (auto intro: skip_phase)
  qed
qed

lemma delete_notice:
  assumes w: "user_wait q p c es Delete o0" and s: "call_kept Delete o0 r spOp es'" "\<not> bSimulateDbError o0"
    and j: "joins es es' es2" and b: "delete_settled r (c\<lparr>spDbOp := spOp\<rparr>) = (out, c')"
  shows "\<exists>r'. out = Some r' \<and> user_phase q (Suc p) r' c' es2"
proof -
  obtain n where q: "q = RemoveUser n" "p = 3" using w by (auto simp: user_wait_def dest: bridge_at)
  have e: "quiet es" "op_nUserId o0 = n" using w q by (auto simp: user_wait_def looked_def)
  have eff: "acted (effect q c'' (row_seen (request_id q) es2)) es'" if "acted (db_contract Delete o0 Resolve o') es'" for o' c''
    by (rule acted_mono[OF that]) (use e q is_db_rejected in \<open>auto split: if_splits\<close>)
  from write_said[OF s] show ?thesis
  proof (elim disjE conjE)
    assume r: "r = Resolve" and a: "acted (db_contract Delete o0 Resolve spOp) es'"
    have "request_kept q Resolve c' es2" using eff[OF a] j e(1) q by (simp add: joins_def request_kept_def)
    then show ?thesis using b r q by (auto simp: delete_settled_def user_phase_def flow_length)
  next
    assume d: "\<exists>e. is_db e r" and q': "quiet es'" and m: "\<exists>(i, a, b) \<in> set es'. db_contract Delete o0 r spOp a a"
    then have nf: "is_db kRowNotFound r" "none_seen n es'"
      using e is_db_rejected by (fastforce simp: none_seen_def split: if_splits)+
    then obtain t where t: "TryGetDbError r = Some (kRowNotFound, t)" "\<not> IsFulfilled r"
      using TryGetDbError_db is_db_rejected fulfilled_iff by blast
    have "refusal q (Reject (CUserError kNotFound t')) c' es2" for t'
      using nf(2) e j q' q joins_seen(3)[OF j] by (auto simp: refusal_def joins_def)
    with b t show ?thesis by (auto simp: delete_settled_def bridge_fails_def intro: kept_refusal)
  next
    assume r: "r = kStopped" and x: "quiet es'"
    then show ?thesis using b stopped_notice[of delete_settled "c\<lparr>spDbOp := spOp\<rparr>"] stopped_kept[OF j e(1)]
      by (auto intro: skip_phase)
  next
    assume r: "r = kStopped" and x: "\<exists>o'. acted (db_contract Delete o0 Resolve o') es'"
    then show ?thesis using b stopped_notice[of delete_settled "c\<lparr>spDbOp := spOp\<rparr>"] stopped_kept[OF j e(1)] eff
      by (auto intro: skip_phase)
  qed
qed

lemma update_notice:
  assumes w: "user_wait q p c es Update o0" and s: "call_kept Update o0 r spOp es'" "\<not> bSimulateDbError o0"
    and j: "joins es es' es2" and b: "update_settled r (c\<lparr>spDbOp := spOp\<rparr>) = (out, c')"
  shows "(\<exists>r'. out = Some r' \<and> user_phase q (Suc p) r' c' es2)
     \<or> out = None \<and> (let c = UpdateUserAttempt (nAttempt c' + 1) c' in user_wait q p c es2 Update (spDbOp c)) \<and> spDbOp c' = spOp"
proof -
  obtain n name where q: "q = RenameUser n name" "p = 4" using w by (auto simp: user_wait_def dest: bridge_at)
  obtain row where e: "quiet es" "op_nUserId o0 = n" "row_seen n es row" "recRequest o0 = row\<lparr>strName := name\<rparr>"
    "u_recRequest c = row\<lparr>strName := name\<rparr>" "nAttempt c \<le> kMaxUpdateAttempts"
    using w q by (auto simp: user_wait_def)
  have row2: "row_seen n es2 row" using joins_seen(1)[OF j e(3)] .
  have eff: "acted (effect q (c''\<lparr>u_recResult := recResult o'\<rparr>) (row_seen (request_id q) es2)) es'"
    if "acted (db_contract Update o0 Resolve o') es'" for o' c''
    by (rule acted_mono[OF that]) (use e row2 q is_db_rejected in \<open>auto split: option.splits if_splits\<close>)
  have eff_id: "effect q (c''\<lparr>u_recResult := x\<rparr>) = effect q c3" if "u_recResult c3 = x" for c'' c3 x
    using that q by (intro ext) simp
  from write_said[OF s] show ?thesis
  proof (elim disjE conjE)
    assume r: "r = Resolve" and a: "acted (db_contract Update o0 Resolve spOp) es'"
    have "u_recResult c' = recResult spOp" "out = Some Resolve" using b r by (auto simp: update_settled_def u_trace_def)
    moreover have "request_kept q Resolve c' es2"
      using eff[OF a] eff_id[OF calculation(1)] j e(1) q by (auto simp: joins_def request_kept_def)
    ultimately show ?thesis using q by (auto simp: user_phase_def flow_length)
  next
    assume d: "\<exists>e. is_db e r" and q': "quiet es'" and m: "\<exists>(i, a, b) \<in> set es'. db_contract Update o0 r spOp a a"
    have q2: "quiet es2" using j e(1) q' by (simp add: joins_def)
    from m obtain i x y where xy: "(i, x, y) \<in> set es'" "db_contract Update o0 r spOp x x" by blast
    have "r \<noteq> Resolve" using d is_db_rejected by blast
    then have "is_db kRowNotFound r \<and> x n = None \<or> is_db kVersionConflict r \<and> x n = Some (recResult spOp)"
      using xy(2) e(2) by (auto split: option.splits if_splits)
    then consider "is_db kRowNotFound r" "none_seen n es'" | "is_db kVersionConflict r" "row_seen n es' (recResult spOp)"
      using xy(1) unfolding none_seen_def row_seen_def by blast
    then show ?thesis
    proof cases
      case 1
      then obtain t where t: "TryGetDbError r = Some (kRowNotFound, t)" "\<not> IsFulfilled r"
        using TryGetDbError_db is_db_rejected fulfilled_iff by blast
      have "refusal q (Reject (CUserError kDbUnavailable t')) c' es2" for t'
        using joins_seen(3)[OF j 1(2)] q2 q by (auto simp: refusal_def)
      with b t show ?thesis by (auto simp: update_settled_def bridge_fails_def intro: kept_refusal)
    next
      case 2
      then obtain t where t: "TryGetDbError r = Some (kVersionConflict, t)" "\<not> IsFulfilled r"
        using TryGetDbError_db is_db_rejected fulfilled_iff by blast
      show ?thesis
      proof (cases "nAttempt c \<ge> kMaxUpdateAttempts")
        case True
        then have "nAttempt c' = kMaxUpdateAttempts" using b t e(6) by (auto simp: update_settled_def bridge_fails_def u_trace_def)
        then have "refusal q (Reject (CUserError kUserVersionConflict t')) c' es2" for t' using q2 q by (auto simp: refusal_def)
        with b t True show ?thesis by (auto simp: update_settled_def bridge_fails_def intro: kept_refusal)
      next
        case False
        then have c': "out = None" "c' = u_trace ([CHR 0xE7, CHR 0x89, CHR 0x88, CHR 0xE6, CHR 0x9C, CHR 0xAC, CHR 0xE5, CHR 0x86, CHR 0xB2, CHR 0xE7, CHR 0xAA, CHR 0x81, CHR 0xE9, CHR 0x87, CHR 0x8D, CHR 0xE8, CHR 0xAF, CHR 0x95] @ '';'')
            (c\<lparr>spDbOp := spOp, u_recRequest := (recResult spOp)\<lparr>strName := name\<rparr>\<rparr>)"
          using b t e(5) by (auto simp: update_settled_def Let_def)
        have "row_seen n es2 (recResult spOp)" using joins_seen(2)[OF j 2(2)] .
        then have "open_phase q p (UpdateUserAttempt (nAttempt c' + 1) c') es2"
          using w q q2 unfolding c'(2) by (auto simp: user_wait_def UpdateUserAttempt_def u_trace_def)
        then show ?thesis using w False unfolding c' by (auto simp: user_wait_def UpdateUserAttempt_def u_trace_def Let_def)
      qed
    qed
  next
    assume r: "r = kStopped" and x: "quiet es'"
    then show ?thesis using b stopped_notice[of update_settled "c\<lparr>spDbOp := spOp\<rparr>"] stopped_kept[OF j e(1)]
      by (auto intro: skip_phase)
  next
    assume r: "r = kStopped" and x: "\<exists>o'. acted (db_contract Update o0 Resolve o') es'"
    then obtain o' where a: "acted (db_contract Update o0 Resolve o') es'" by blast
    have "user_phase q (Suc p) kStopped c' es2" using stopped_kept[OF j e(1)] eff[OF a] by blast
    then show ?thesis using b r stopped_notice[of update_settled "c\<lparr>spDbOp := spOp\<rparr>"] by auto
  qed
qed

lemma notice_phase:
  assumes "user_wait q p c es op o0" "call_kept op o0 r spOp es'" "\<not> bSimulateDbError o0"
    "joins es es' es2" "bridge_settled op r (c\<lparr>spDbOp := spOp\<rparr>) = (out, c')"
  shows "(\<exists>r'. out = Some r' \<and> user_phase q (Suc p) r' c' es2)
     \<or> out = None \<and> (let c = UpdateUserAttempt (nAttempt c' + 1) c' in user_wait q p c es2 op (spDbOp c)) \<and> spDbOp c' = spOp"
  using assms query_notice[of q p c es o0 r spOp es' es2 out c'] insert_notice[of q p c es o0 r spOp es' es2 out c']
    update_notice[of q p c es o0 r spOp es' es2 out c'] delete_notice[of q p c es o0 r spOp es' es2 out c']
  by (cases op) auto

lemma settled_op: "bridge_settled op r c = (out, c') \<Longrightarrow> spDbOp c' = spDbOp c"
  by (cases op) (auto simp: query_settled_def insert_settled_def update_settled_def delete_settled_def passes_on_def
      bridge_fails_def u_trace_def Let_def split: if_splits option.splits)

lemma code_phase:
  assumes ph: "user_phase q p r c es" and p: "p < length (request_flow q)" "request_flow q ! p = Code l"
    and run: "run_chain_layer l r c = (r', c')"
  shows "user_phase q (Suc p) r' c' es \<and> spDbOp c' = spDbOp c"
proof -
  have at: "p = 0 \<and> (\<exists>k. l = LThen k StepValidateUserId) \<and> \<not> (\<exists>rec. q = RegisterUser rec)
    \<or> p = 0 \<and> (\<exists>k. l = LThen k StepValidateRecord) \<and> (\<exists>rec. q = RegisterUser rec)
    \<or> p = 2 \<and> (\<exists>k. l = LThen k StepRejectIfAbsent) \<and> \<not> (\<exists>rec. q = RegisterUser rec)
    \<or> p = 2 \<and> (\<exists>k. l = LThen k StepRejectUserExists) \<and> (\<exists>rec. q = RegisterUser rec)
    \<or> p = 3 \<and> (\<exists>k. l = LThen k StepPrepareRename) \<and> (\<exists>n s. q = RenameUser n s)
    \<or> p = length (request_flow q) - 1 \<and> (\<exists>k. l = LFinally k StepAudit)"
    using p by (cases q) (auto simp: flow_length flow_defs nth_Cons' split: if_splits)
  show ?thesis
  proof (cases "IsRejected r \<and> (\<exists>k f. l = LThen k f)")
    case True
    then show ?thesis using skip_phase[OF ph] run by (auto simp: layer_simps)
  next
    case live: False
    show ?thesis
    proof (cases "\<exists>k. l = LFinally k StepAudit")
      case True
      then have "p = length (request_flow q) - 1" using at by auto
      from audit_phase[OF ph this, of "[CHR 0xE5, CHR 0xAE, CHR 0xA1, CHR 0xE8, CHR 0xAE, CHR 0xA1] @ '';''"] True run show ?thesis
        by (auto simp: layer_simps StepAudit_def u_trace_def)
    next
      case False
      then have lt: "p < length (request_flow q) - 1" "\<not> IsRejected r"
        using at live by (auto simp: flow_length split: request.splits)
      then have op: "r = Resolve" "open_phase q p c es" using ph by (auto simp: user_phase_def)
      have d: "spDbOp c' = spDbOp c"
        using at False run op(1) by (auto simp: layer_simps StepValidateUserId_def StepValidateRecord_def StepRejectIfAbsent_def
            StepRejectUserExists_def StepPrepareRename_def fails_def u_trace_def Let_def split: if_splits)
      have "user_phase q (Suc p) r' c' es"
        using at False run op validate_id_phase[of q c es] validate_record_phase[of _ c es] absent_phase[of q c es]
          user_exists_phase[of _ c es] prepare_phase[of _ _ c es]
        by (auto simp: layer_simps numeral_2_eq_2 numeral_3_eq_3 eval_nat_numeral)
      with d show ?thesis by blast
    qed
  qed
qed

subsection \<open>All requests\<close>

lemma simulation_kept:
  assumes "l \<in> set (chain_of k)" "run_chain_layer l r (d, spOp) = (r', d', spOp')"
  shows "bSimulateDbError spOp' = bSimulateDbError spOp"
  using assms
  by (cases k) (auto simp: chain_defs layer_simps StepAcquireConn_def StepLoadRow_def StepAcceptNotFound_def
      StepRejectIfExists_def StepInsertRow_def StepApplyUpdate_def StepEraseRow_def StepReleaseConn_def trace_op_def Let_def
      split: if_splits option.splits EKind.splits)

lemma reach_simulation: "table_reach t \<Longrightarrow> n < length (t_calls t) \<Longrightarrow>
    bSimulateDbError (c_op (t_calls t ! n)) = bSimulateDbError (c_given (t_calls t ! n))"
proof (induction arbitrary: n rule: table_reach.induct)
  case (t_next t t')
  note inv = table_reach_inv[OF t_next.hyps(1)]
  from t_next.hyps(2) inv t_next.IH t_next.prems show ?case
  proof (induction rule: table_step.induct)
    case (layer i t)
    then obtain l ls where l: "c_layers (t_calls t ! i) = l # ls" by (auto simp: open_call_def neq_Nil_conv)
    obtain r d spOp where run: "run_chain_layer l (c_result (t_calls t ! i)) (t_db t, c_op (t_calls t ! i)) = (r, d, spOp)"
      by (cases "run_chain_layer l (c_result (t_calls t ! i)) (t_db t, c_op (t_calls t ! i))") auto
    have i: "i < length (t_calls t)" using layer(1) by (simp add: open_call_def)
    have "l \<in> set (chain_of (c_kind (t_calls t ! i)))"
      using call_layer_ok[OF _ l run] layer(2) i by (auto simp: table_inv_def)
    from simulation_kept[OF this run] layer(3,4) i l run show ?case
      by (auto simp: layer_runs_def nth_list_update)
  qed (auto simp: nth_append new_call_def layer_refused_def Let_def nth_list_update open_call_def less_Suc_eq)
qed (simp add: table_start_def)

lemma table_step_calls: "table_step t t' \<Longrightarrow> n < length (t_calls t) \<Longrightarrow>
    n < length (t_calls t') \<and> c_kind (t_calls t' ! n) = c_kind (t_calls t ! n) \<and> c_given (t_calls t' ! n) = c_given (t_calls t ! n)"
  by (induction rule: table_step.induct)
    (auto simp: nth_append layer_runs_def layer_refused_def Let_def nth_list_update open_call_def split: list.split prod.split)

definition user_ok :: "user_call \<Rightarrow> table_sys \<Rightarrow> bool" where
  "user_ok c t \<longleftrightarrow> (\<exists>p \<le> length (request_flow (v_request c)). v_layers c = drop p (request_flow (v_request c))
     \<and> (\<forall>n \<in> set (v_made c). ended n t) \<and> \<not> bSimulateDbError (spDbOp (v_ctx c))
     \<and> (case v_wait c of
          None \<Rightarrow> user_phase (v_request c) p (v_result c) (v_ctx c) (mine (v_made c) t)
        | Some n \<Rightarrow> n < length (t_calls t)
            \<and> user_wait (v_request c) p (v_ctx c) (mine (v_made c) t) (c_kind (t_calls t ! n)) (c_given (t_calls t ! n))))"

lemma user_ok_table: "table_step t t' \<Longrightarrow> user_ok c t \<Longrightarrow> user_ok c t'"
  unfolding user_ok_def
  using ended_table_step table_step_calls mine_table_step
  by (auto split: option.splits)

lemma new_user_ok: "user_ok (new_user_call q) t"
proof -
  have "open_phase q 0 (request_ctx q) []" by (cases q) (simp_all add: MakeContext_def)
  then show ?thesis
    by (cases q) (auto simp: user_ok_def new_user_call_def user_phase_def MakeContext_def CUserOpContext_def CUserTableOp_def
        intro!: exI[of _ 0])
qed

lemma open_quiet: "open_phase q p c es \<Longrightarrow> quiet es"
  by (cases q) (auto simp: looked_def)

lemma kept_acts:
  assumes "request_kept q r c es"
  shows "quiet es \<or> acts q es"
proof -
  have "quiet es \<or> acted (effect q c (row_seen (request_id q) es)) es \<or> acts q es"
    using assms unfolding request_kept_def refusal_def by (cases q; simp) blast+
  then show ?thesis unfolding acts_def by blast
qed

lemma kept_rename: "request_kept (RenameUser n s) Resolve c es \<Longrightarrow> acted (effect (RenameUser n s) c (row_seen n es)) es"
  using stopped_not_db(2) by (auto simp: request_kept_def refusal_def is_user_def Resolve_def Reject_def simp del: effect.simps)

lemma phase_refused: "user_phase q p r c es \<Longrightarrow> user_phase q p' kStopped c' es"
  using open_quiet[of q p c es] kept_acts[of q r c es] by (auto simp: user_phase_def request_kept_def)

definition user_inv :: "user_sys \<Rightarrow> bool" where
  "user_inv s \<longleftrightarrow> (\<forall>c \<in> set (v_calls s). user_ok c (v_table s))"

lemma inv_put: "user_inv s \<Longrightarrow> user_ok c (v_table s) \<Longrightarrow> user_inv (put_call j c s)"
  by (auto simp: user_inv_def put_call_def dest: set_update_subset_insert[THEN subsetD])

lemma table_put [simp]: "v_table (put_call j c s) = v_table s"
  by (simp add: put_call_def)

lemma called_step: "m_pExecutor (t_db t) \<Longrightarrow> table_step t (t\<lparr>t_calls := t_calls t @ [new_call op spOp]\<rparr>)"
  by (rule called)

lemma call_table_ok:
  assumes inv: "user_inv s" and ex: "m_pExecutor (t_db (v_table s))"
    and c: "p \<le> length (request_flow (v_request c))" "v_layers c = drop p (request_flow (v_request c))"
      "\<forall>n \<in> set (v_made c). ended n (v_table s)" "\<not> bSimulateDbError (spDbOp (v_ctx c))"
    and w: "user_wait (v_request c) p (v_ctx c) (mine (v_made c) (v_table s)) op (spDbOp (v_ctx c))"
  shows "user_inv (call_table j op c s) \<and> table_step (v_table s) (v_table (call_table j op c s))"
proof -
  let ?t = "(v_table s)\<lparr>t_calls := t_calls (v_table s) @ [new_call op (spDbOp (v_ctx c))]\<rparr>"
  have step: "table_step (v_table s) ?t" using ex by (rule called_step)
  have "\<forall>n \<in> set (v_made c). ended n ?t" using c(3) ended_table_step[OF step] by blast
  moreover have "mine (v_made c) ?t = mine (v_made c) (v_table s)" by (simp add: mine_def)
  ultimately have "user_ok (c\<lparr>v_wait := Some (length (t_calls (v_table s)))\<rparr>) ?t"
    using c w by (auto simp: user_ok_def new_call_def)
  moreover have "user_inv (s\<lparr>v_table := ?t\<rparr>)" using inv user_ok_table[OF step] by (simp add: user_inv_def)
  ultimately show ?thesis using step by (simp add: call_table_def inv_put)
qed

lemma user_ok_phase:
  assumes "user_ok c t" "v_wait c = None" "v_layers c = l # ls"
  obtains p where "p < length (request_flow (v_request c))" "request_flow (v_request c) ! p = l"
    "ls = drop (Suc p) (request_flow (v_request c))" "user_phase (v_request c) p (v_result c) (v_ctx c) (mine (v_made c) t)"
    "\<forall>n \<in> set (v_made c). ended n t" "\<not> bSimulateDbError (spDbOp (v_ctx c))" "v_layers c = drop p (request_flow (v_request c))"
proof -
  obtain p where p: "v_layers c = drop p (request_flow (v_request c))"
    "user_phase (v_request c) p (v_result c) (v_ctx c) (mine (v_made c) t)"
    "\<forall>n \<in> set (v_made c). ended n t" "\<not> bSimulateDbError (spDbOp (v_ctx c))"
    using assms(1,2) by (auto simp: user_ok_def)
  then have lt: "p < length (request_flow (v_request c))" using assms(3) by (metis drop_all list.distinct(1) not_less)
  then have "request_flow (v_request c) ! p = l" "ls = drop (Suc p) (request_flow (v_request c))"
    using p(1) assms(3) by (metis Cons_nth_drop_Suc list.inject)+
  with p lt show ?thesis using that by blast
qed

lemma user_layer_ok:
  assumes inv: "user_inv s" and rd: "ready j s" and ex: "m_pExecutor (t_db (v_table s))"
  shows "user_inv (user_layer_runs j s) \<and> (v_table (user_layer_runs j s) = v_table s
     \<or> table_step (v_table s) (v_table (user_layer_runs j s)))"
proof -
  let ?c = "v_calls s ! j"
  have ok: "user_ok ?c (v_table s)" "v_wait ?c = None" using inv rd by (auto simp: user_inv_def ready_def)
  obtain l ls where l: "v_layers ?c = l # ls" using rd by (auto simp: ready_def neq_Nil_conv)
  from ok l obtain p where p: "p < length (request_flow (v_request ?c))" "request_flow (v_request ?c) ! p = l"
    "ls = drop (Suc p) (request_flow (v_request ?c))"
    "user_phase (v_request ?c) p (v_result ?c) (v_ctx ?c) (mine (v_made ?c) (v_table s))"
    "\<forall>n \<in> set (v_made ?c). ended n (v_table s)" "\<not> bSimulateDbError (spDbOp (v_ctx ?c))"
    "v_layers ?c = drop p (request_flow (v_request ?c))" by (rule user_ok_phase)
  show ?thesis
  proof (cases l)
    case (Code code)
    obtain r ctx where run: "run_chain_layer code (v_result ?c) (v_ctx ?c) = (r, ctx)" by fastforce
    from code_phase[OF p(4,1) _ run] p Code ok(2)
    have "user_ok (?c\<lparr>v_layers := ls, v_result := r, v_ctx := ctx\<rparr>) (v_table s)"
      by (auto simp: user_ok_def intro!: exI[of _ "Suc p"])
    then show ?thesis using inv l Code run by (simp add: user_layer_runs_def inv_put)
  next
    case (Bridge k op)
    show ?thesis
    proof (cases "IsRejected (v_result ?c)")
      case True
      from skip_phase[OF p(4) True] p ok(2) have "user_ok (?c\<lparr>v_layers := ls\<rparr>) (v_table s)"
        by (auto simp: user_ok_def intro!: exI[of _ "Suc p"])
      then show ?thesis using inv l Bridge True by (simp add: user_layer_runs_def inv_put)
    next
      case False
      have "p < length (request_flow (v_request ?c)) - 1"
        using bridge_at[of "v_request ?c" p k op] p(1,2) Bridge by (auto simp: flow_length split: request.splits)
      then have op: "open_phase (v_request ?c) p (v_ctx ?c) (mine (v_made ?c) (v_table s))"
        using p(4) False by (auto simp: user_phase_def)
      have w: "user_wait (v_request ?c) p (bridge_start op (v_ctx ?c)) (mine (v_made ?c) (v_table s)) op
          (spDbOp (bridge_start op (v_ctx ?c)))"
        using start_wait[OF op p(1)] p(2) Bridge by blast
      have sim: "\<not> bSimulateDbError (spDbOp (bridge_start op (v_ctx ?c)))"
        using p(6) by (cases op) (simp_all add: UpdateUserAttempt_def)
      let ?c' = "?c\<lparr>v_ctx := bridge_start op (v_ctx ?c)\<rparr>"
      have "user_inv (call_table j op ?c' s) \<and> table_step (v_table s) (v_table (call_table j op ?c' s))"
        by (rule call_table_ok[OF inv ex, of p]) (use p w sim in simp_all)
      then show ?thesis using l Bridge False by (simp add: user_layer_runs_def Let_def)
    qed
  qed
qed

lemma user_notice_ok:
  assumes inv: "user_inv s" and tr: "table_reach (v_table s)" and j: "j < length (v_calls s)"
    and wt: "v_wait (v_calls s ! j) = Some n" and en: "ended n (v_table s)" and ex: "m_pExecutor (t_db (v_table s))"
  shows "user_inv (user_notice j n s) \<and> (v_table (user_notice j n s) = v_table s
     \<or> table_step (v_table s) (v_table (user_notice j n s)))"
proof -
  let ?c = "v_calls s ! j" and ?d = "t_calls (v_table s) ! n" and ?t = "v_table s"
  have "user_ok ?c ?t" using inv j by (simp add: user_inv_def)
  then obtain p where p: "v_layers ?c = drop p (request_flow (v_request ?c))" "\<forall>n \<in> set (v_made ?c). ended n ?t"
      "user_wait (v_request ?c) p (v_ctx ?c) (mine (v_made ?c) ?t) (c_kind ?d) (c_given ?d)"
      "\<not> bSimulateDbError (spDbOp (v_ctx ?c))"
    using wt by (auto simp: user_ok_def)
  obtain k where k: "p < length (request_flow (v_request ?c))" "request_flow (v_request ?c) ! p = Bridge k (c_kind ?d)"
    "c_given ?d = spDbOp (v_ctx ?c)" using p(3) by (auto simp: user_wait_def)
  then have l: "v_layers ?c = Bridge k (c_kind ?d) # drop (Suc p) (request_flow (v_request ?c))"
    using p(1) by (metis Cons_nth_drop_Suc)
  have n: "n < length (t_calls ?t)" "c_layers ?d = []" using en by (simp_all add: ended_def)
  have sim: "\<not> bSimulateDbError (c_given ?d)" "\<not> bSimulateDbError (c_op ?d)"
    using p(4) k(3) reach_simulation[OF tr n(1)] by simp_all
  have kept: "call_kept (c_kind ?d) (c_given ?d) (c_result ?d) (c_op ?d) (own n (t_log ?t))"
    using ended_kept[OF tr n] .
  obtain out ctx where b: "bridge_settled (c_kind ?d) (c_result ?d) ((v_ctx ?c)\<lparr>spDbOp := c_op ?d\<rparr>) = (out, ctx)"
    by fastforce
  have op: "spDbOp ctx = c_op ?d" using settled_op[OF b] by simp
  have made: "\<forall>m \<in> set (v_made ?c @ [n]). ended m ?t" using p(2) en by auto
  from notice_phase[OF p(3) kept sim(1) joins_mine b] show ?thesis
  proof (elim disjE exE conjE)
    fix r assume r: "out = Some r" "user_phase (v_request ?c) (Suc p) r ctx (mine (v_made ?c @ [n]) ?t)"
    then have "user_ok (?c\<lparr>v_wait := None, v_made := v_made ?c @ [n],
        v_layers := drop (Suc p) (request_flow (v_request ?c)), v_result := r, v_ctx := ctx\<rparr>) ?t"
      using made k(1) sim(2) op by (auto simp: user_ok_def intro!: exI[of _ "Suc p"])
    then show ?thesis using inv l b r(1) by (simp add: user_notice_def Let_def inv_put)
  next
    let ?ctx = "UpdateUserAttempt (nAttempt ctx + 1) ctx"
    assume r: "out = None" "let c = ?ctx in user_wait (v_request ?c) p c (mine (v_made ?c @ [n]) ?t) (c_kind ?d) (spDbOp c)"
    have "\<not> bSimulateDbError (spDbOp ?ctx)" using sim(2) op by (simp add: UpdateUserAttempt_def)
    let ?c' = "?c\<lparr>v_wait := None, v_made := v_made ?c @ [n], v_ctx := ?ctx\<rparr>"
    have "user_inv (call_table j (c_kind ?d) ?c' s) \<and> table_step ?t (v_table (call_table j (c_kind ?d) ?c' s))"
      by (rule call_table_ok[OF inv ex, of p])
        (use r(2) made k(1) p(1) \<open>\<not> bSimulateDbError (spDbOp ?ctx)\<close> in \<open>simp_all add: Let_def\<close>)
    then show ?thesis using l b r(1) by (simp add: user_notice_def Let_def)
  qed
qed

lemma user_inv_step:
  "user_step s s' \<Longrightarrow> user_inv s \<Longrightarrow> table_reach (v_table s) \<Longrightarrow> user_inv s' \<and> table_reach (v_table s')"
proof (induction rule: user_step.induct)
  case (table s t')
  then show ?case using user_ok_table t_next by (simp add: user_inv_def)
next
  case (request s q)
  then show ?case by (auto simp: user_inv_def new_user_ok)
next
  case (layer j s)
  then show ?case using user_layer_ok t_next by metis
next
  case (notice j s n)
  then show ?case using user_notice_ok t_next by metis
next
  case (refused j s)
  let ?c = "v_calls s ! j"
  have ok: "user_ok ?c (v_table s)" "v_wait ?c = None" using refused by (auto simp: user_inv_def ready_def)
  obtain l ls where l: "v_layers ?c = l # ls" using refused by (auto simp: ready_def neq_Nil_conv)
  from ok l obtain p where p: "p < length (request_flow (v_request ?c))" "ls = drop (Suc p) (request_flow (v_request ?c))"
    "user_phase (v_request ?c) p (v_result ?c) (v_ctx ?c) (mine (v_made ?c) (v_table s))"
    "\<forall>n \<in> set (v_made ?c). ended n (v_table s)" "\<not> bSimulateDbError (spDbOp (v_ctx ?c))" by (rule user_ok_phase)
  then have "user_ok (?c\<lparr>v_layers := tl (v_layers ?c), v_result := kStopped\<rparr>) (v_table s)"
    using phase_refused[OF p(3)] ok(2) l by (auto simp: user_ok_def intro!: exI[of _ "Suc p"])
  then show ?case using refused by (simp add: user_refused_def Let_def inv_put)
qed

lemma user_reach_inv: "user_reach s \<Longrightarrow> user_inv s \<and> table_reach (v_table s)"
proof (induction rule: user_reach.induct)
  case (u_start nLatencyMs nThreadCount)
  then show ?case by (simp add: user_inv_def t_start)
next
  case (u_next s s')
  then show ?case using user_inv_step by blast
qed

subsection \<open>Properties\<close>

text \<open>C38. The service over the table, with both executors and any number of other callers interleaved.
  A request that has ended fulfilled did what it is for, in one step of the table: a registration
  added exactly the requested row, a rename rewrote a row it had seen while the table still had the
  version it had seen, a removal took away a row that was there, and a query changed nothing and
  returned a row that was in the table at one of its steps.  A request rejected with an error of
  the service changed nothing, and the kind of the error is true of some step of the table while
  it ran: an invalid parameter, a duplicate, or a row that is not there, which a rename that had
  already read the row reports as \<open>kDbUnavailable\<close>; a version conflict is reported only after the
  third attempt of a rename.  The one other result is that of a stopped executor, which leaves
  open whether the request changed nothing or did what it is for.\<close>

theorem user_requests_kept:
  assumes "user_reach s" and "c \<in> set (v_calls s)" and "v_layers c = []" and "v_wait c = None"
  shows "request_kept (v_request c) (v_result c) (v_ctx c) (mine (v_made c) (v_table s))"
proof -
  have "user_ok c (v_table s)" using user_reach_inv[OF assms(1)] assms(2) by (simp add: user_inv_def)
  then have "user_phase (v_request c) (length (request_flow (v_request c))) (v_result c) (v_ctx c) (mine (v_made c) (v_table s))"
    using assms(3,4) by (auto simp: user_ok_def)
  then show ?thesis by (cases "v_request c") (auto simp: user_phase_def flow_length)
qed

subsection \<open>Some runs\<close>

datatype user_act = ULayer nat | UNotice nat nat | TLayer nat

fun user_do :: "user_act \<Rightarrow> user_sys \<Rightarrow> user_sys" where
  "user_do (ULayer j) s =
     (if j < length (v_calls s) \<and> length (v_layers (v_calls s ! j)) > 0 \<and> v_wait (v_calls s ! j) = None
         \<and> m_pExecutor (t_db (v_table s)) then user_layer_runs j s else s)"
| "user_do (UNotice j n) s =
     (if j < length (v_calls s) \<and> v_wait (v_calls s ! j) = Some n \<and> n < length (t_calls (v_table s))
         \<and> length (c_layers (t_calls (v_table s) ! n)) = 0 \<and> m_pExecutor (t_db (v_table s)) then user_notice j n s else s)"
| "user_do (TLayer i) s =
     (if i < length (t_calls (v_table s)) \<and> length (c_layers (t_calls (v_table s) ! i)) > 0
      then s\<lparr>v_table := layer_runs i (v_table s)\<rparr> else s)"

definition user_run :: "request list \<Rightarrow> user_act list \<Rightarrow> user_sys" where
  "user_run qs as = fold user_do as \<lparr>v_table = table_start 0 4, v_calls = map new_user_call qs\<rparr>"

lemma user_do_reach: "user_reach s \<Longrightarrow> user_reach (user_do a s)"
proof (cases a)
  case (ULayer j)
  assume r: "user_reach s"
  have "user_step s (user_layer_runs j s)" if "ready j s" "m_pExecutor (t_db (v_table s))"
    using that by (rule user_step.layer)
  then show ?thesis using r u_next[OF r] ULayer by (simp add: ready_def)
next
  case (UNotice j n)
  assume r: "user_reach s"
  have "user_step s (user_notice j n s)" if "j < length (v_calls s)" "v_wait (v_calls s ! j) = Some n" "ended n (v_table s)"
    "m_pExecutor (t_db (v_table s))"
    using that by (rule user_step.notice)
  then show ?thesis using r u_next[OF r] UNotice by (simp add: ended_def)
next
  case (TLayer i)
  assume r: "user_reach s"
  have "user_step s (s\<lparr>v_table := layer_runs i (v_table s)\<rparr>)" if "open_call i (v_table s)"
    using that by (intro user_step.table table_step.layer)
  then show ?thesis using r u_next[OF r] TLayer by (simp add: open_call_def)
qed

lemma user_run_reach: "user_reach (user_run qs as)"
proof -
  have "user_reach \<lparr>v_table = table_start 0 4, v_calls = map new_user_call qs\<rparr>"
  proof (induction qs rule: rev_induct)
    case Nil
    show ?case using u_start[of 0 4] by simp
  next
    case (snoc q qs)
    with u_next[OF snoc.IH user_step.request, of q] show ?case by simp
  qed
  moreover have "user_reach (fold user_do as s)" if "user_reach s" for s
    using that by (induction as arbitrary: s) (simp_all add: user_do_reach)
  ultimately show ?thesis by (simp add: user_run_def)
qed

lemma request_update: "v_request c = v_request (cs ! j) \<Longrightarrow> map v_request (cs[j := c]) = map v_request cs"
  by (cases "j < length cs") (auto simp: nth_list_update intro: nth_equalityI)

lemma put_requests:
  "v_request c = v_request (v_calls s ! j) \<Longrightarrow> map v_request (v_calls (put_call j c s)) = map v_request (v_calls s)"
  "v_request c = v_request (v_calls s ! j) \<Longrightarrow> map v_request (v_calls (call_table j op c s)) = map v_request (v_calls s)"
  by (simp_all add: put_call_def call_table_def request_update)

lemma user_do_requests: "map v_request (v_calls (user_do a s)) = map v_request (v_calls s)"
proof -
  have "map v_request (v_calls (user_layer_runs j s)) = map v_request (v_calls s)" for j
    unfolding user_layer_runs_def Let_def by (simp add: put_requests split: list.split user_layer.split prod.split)
  moreover have "map v_request (v_calls (user_notice j n s)) = map v_request (v_calls s)" for j n
    unfolding user_notice_def Let_def by (simp add: put_requests split: list.split user_layer.split prod.split option.split)
  ultimately show ?thesis by (cases a) simp_all
qed

lemma user_run_requests: "map v_request (v_calls (user_run qs as)) = qs"
proof -
  have "map v_request (v_calls (fold user_do as s)) = map v_request (v_calls s)" for s
    by (induction as arbitrary: s) (simp_all add: user_do_requests)
  then show ?thesis by (simp add: user_run_def comp_def new_user_call_def)
qed

definition loads :: "nat \<Rightarrow> nat \<Rightarrow> user_act list" where
  "loads j n = [ULayer j, ULayer j, TLayer n, TLayer n, TLayer n, UNotice j n, ULayer j]"

text \<open>Two renames of one user: both have read before either writes, so the second one conflicts and
  tries again.\<close>

definition contended :: user_sys where
  "contended = user_run [RenameUser 1001 ''al'', RenameUser 1001 ''ali'']
     (loads 0 0 @ [ULayer 0] @ loads 1 1 @ [ULayer 1]
      @ [ULayer 0, TLayer 2, TLayer 2, TLayer 2, TLayer 2, TLayer 2, UNotice 0 2, ULayer 0]
      @ [ULayer 1, TLayer 3, TLayer 3, TLayer 3, TLayer 3, TLayer 3, UNotice 1 3,
         TLayer 4, TLayer 4, TLayer 4, TLayer 4, TLayer 4, UNotice 1 4, ULayer 1])"

lemma contended_run:
  "map (\<lambda>c. (length (v_layers c), v_wait c, nAttempt (v_ctx c), m_spException (v_result c))) (v_calls contended)
     = [(0, None, 1, None), (0, None, 2, None)]"
  by code_simp

theorem user_requests_kept_witness:
  "acted (effect (RenameUser 1001 ''ali'') (v_ctx (v_calls contended ! 1))
       (row_seen 1001 (mine (v_made (v_calls contended ! 1)) (v_table contended))))
     (mine (v_made (v_calls contended ! 1)) (v_table contended))"
proof -
  obtain c0 c where c: "v_calls contended = [c0, c]" "v_layers c = []" "v_wait c = None" "m_spException (v_result c) = None"
    using contended_run by (auto simp: map_eq_Cons_conv)
  have "map v_request (v_calls contended) = [RenameUser 1001 ''al'', RenameUser 1001 ''ali'']"
    unfolding contended_def by (rule user_run_requests)
  then have "v_request c = RenameUser 1001 ''ali''" using c(1) by simp
  moreover have "user_reach contended" unfolding contended_def by (rule user_run_reach)
  moreover have "v_result c = Resolve" using c(4) by (cases "v_result c") (simp add: Resolve_def)
  ultimately have "request_kept (RenameUser 1001 ''ali'') Resolve (v_ctx c) (mine (v_made c) (v_table contended))"
    using user_requests_kept[of contended c] c by simp
  from kept_rename[OF this] show ?thesis unfolding c(1) by simp
qed

text \<open>A rename does not look at the new name.\<close>

definition renamed :: user_sys where
  "renamed = user_run [RenameUser 1001 []]
     (loads 0 0 @ [ULayer 0, ULayer 0, TLayer 1, TLayer 1, TLayer 1, TLayer 1, TLayer 1, UNotice 0 1, ULayer 0])"

lemma renamed_run:
  "map (\<lambda>c. (length (v_layers c), v_wait c, m_spException (v_result c), strName (u_recResult (v_ctx c)))) (v_calls renamed)
     = [(0, None, None, [])]"
  by code_simp

lemma renamed_call: "\<exists>c. v_calls renamed = [c] \<and> v_layers c = [] \<and> v_request c = RenameUser 1001 [] \<and> v_wait c = None
    \<and> v_result c = Resolve \<and> strName (u_recResult (v_ctx c)) = []"
proof -
  obtain c where c: "v_calls renamed = [c]" using renamed_run by (auto simp: map_eq_Cons_conv)
  then have "m_spException (v_result c) = None" using renamed_run by simp
  then have "v_result c = Resolve" by (cases "v_result c") (simp add: Resolve_def)
  moreover have "map v_request (v_calls renamed) = [RenameUser 1001 []]"
    unfolding renamed_def by (rule user_run_requests)
  ultimately show ?thesis using c renamed_run by simp
qed

theorem rename_accepts_any_name:
  "user_reach renamed \<and> \<not> IsValidUserName []
   \<and> (\<exists>c. v_calls renamed = [c] \<and> v_layers c = [] \<and> v_result c = Resolve \<and> strName (u_recResult (v_ctx c)) = [])"
proof -
  have "user_reach renamed" unfolding renamed_def by (rule user_run_reach)
  moreover have "\<not> IsValidUserName []" by (simp add: IsValidUserName_def)
  ultimately show ?thesis using renamed_call by blast
qed

text \<open>A user removed behind the read of a rename is reported as a database that is unavailable.\<close>

definition removed :: user_sys where
  "removed = user_run [RenameUser 1001 ''al'', RemoveUser 1001]
     (loads 0 0 @ [ULayer 0] @ loads 1 1 @ [ULayer 1, TLayer 2, TLayer 2, TLayer 2, TLayer 2, TLayer 2, UNotice 1 2, ULayer 1]
      @ [ULayer 0, TLayer 3, TLayer 3, TLayer 3, TLayer 3, TLayer 3, UNotice 0 3, ULayer 0])"

theorem rename_of_removed_user:
  "user_reach removed \<and> map (\<lambda>c. map_option dynamic_type (m_spException (v_result c))) (v_calls removed)
     = [Some (user_error_type kDbUnavailable), None]"
proof -
  have "user_reach removed" unfolding removed_def by (rule user_run_reach)
  moreover have "map (\<lambda>c. map_option dynamic_type (m_spException (v_result c))) (v_calls removed)
     = [Some (user_error_type kDbUnavailable), None]" by code_simp
  ultimately show ?thesis by blast
qed

end
