(* ===== verification/UserDemo.thy ===== *)
theory UserDemo
  imports UserService
begin

text \<open>
  The module around the user service (\<open>CExampleAsyncModule\<close>) and the demonstration it runs on its
  own executor (\<open>CDemoDriver\<close>), both of \<open>src/ServerExample/Module/ExampleAsyncModule.cpp\<close>.
\<close>

subsection \<open>The module\<close>

text \<open>\<open>m_spExecutor\<close> says whether there is an executor, and whether it accepts tasks.\<close>

record user_module =
  m_nIntervalMs :: int
  m_pTimer :: bool
  m_pUserTable :: bool
  m_spExecutor :: "bool option"
  m_tTimerId :: u64

datatype timer_call = AddPeriodicTimer int | CancelTimer u64

definition CExampleAsyncModule :: "int \<Rightarrow> user_module" where
  "CExampleAsyncModule nIntervalMs = \<lparr>m_nIntervalMs = (if nIntervalMs < 100 then 100 else nIntervalMs),
     m_pTimer = False, m_pUserTable = False, m_spExecutor = None, m_tTimerId = 0\<rparr>"

definition UM_Initialize :: "bool \<Rightarrow> bool \<Rightarrow> user_module \<Rightarrow> bool \<times> user_module" where
  "UM_Initialize pTimer pUserTable m = (pTimer \<and> pUserTable, m\<lparr>m_pTimer := pTimer, m_pUserTable := pUserTable\<rparr>)"

text \<open>\<open>starts\<close>: whether the executor starts; \<open>tid\<close>: what the timer returns.\<close>

definition UM_Start :: "bool \<Rightarrow> u64 \<Rightarrow> user_module \<Rightarrow> bool \<times> user_module \<times> timer_call list" where
  "UM_Start starts tid m =
     (if \<not> m_pTimer m \<or> \<not> m_pUserTable m then (False, m, [])
      else if \<not> starts then (False, m\<lparr>m_spExecutor := None\<rparr>, [])
      else (True, m\<lparr>m_spExecutor := Some True, m_tTimerId := tid\<rparr>, [AddPeriodicTimer (m_nIntervalMs m)]))"

definition UM_Stop :: "user_module \<Rightarrow> user_module \<times> timer_call list" where
  "UM_Stop m =
     (let calls = (if m_tTimerId m \<noteq> 0 \<and> m_pTimer m then [CancelTimer (m_tTimerId m)] else []);
          m = (if m_tTimerId m \<noteq> 0 then m\<lparr>m_tTimerId := 0\<rparr> else m)
      in (if m_spExecutor m \<noteq> None then m\<lparr>m_spExecutor := Some False\<rparr> else m, calls))"

definition UM_Shutdown :: "user_module \<Rightarrow> user_module \<times> timer_call list" where
  "UM_Shutdown m =
     (let (m, calls) = UM_Stop m in (m\<lparr>m_spExecutor := None, m_pUserTable := False, m_pTimer := False\<rparr>, calls))"

definition UM_GetStatus :: "user_module \<Rightarrow> string" where
  "UM_GetStatus m = ''user-service '' @ [CHR 0xE5, CHR 0x91, CHR 0xA8, CHR 0xE6, CHR 0x9C, CHR 0x9F] @ ''='' @ decimal_int (m_nIntervalMs m) @ ''ms '' @ [CHR 0xE6, CHR 0x95, CHR 0xB0, CHR 0xE6, CHR 0x8D, CHR 0xAE, CHR 0xE8, CHR 0xAE, CHR 0xBF, CHR 0xE9, CHR 0x97, CHR 0xAE] @ ''=''
     @ (if m_pUserTable m then [CHR 0xE5, CHR 0xB0, CHR 0xB1, CHR 0xE7, CHR 0xBB, CHR 0xAA] else [CHR 0xE7, CHR 0xBC, CHR 0xBA, CHR 0xE5, CHR 0xA4, CHR 0xB1])"

text \<open>The four functions of the interface: without the table the promise is rejected at once.\<close>

definition user_async :: "user_module \<Rightarrow> request \<Rightarrow> (promise_result \<times> CUserOpContext) + user_call" where
  "user_async m q = (if \<not> m_pUserTable m then Inl (MakeRejectedPromise (request_ctx q)) else Inr (new_user_call q))"

text \<open>The callback of the timer: whether the driver of the demonstration was posted.\<close>

definition ScheduleExample :: "user_module \<Rightarrow> bool option" where
  "ScheduleExample m = m_spExecutor m"

subsection \<open>The demonstration\<close>

text \<open>The scenarios of \<open>CDemoDriver\<close>, each started by the notice of the one before; in the fourth
  three queries and then three renames run at once.\<close>

datatype scenario = RunRegister | RunDuplicateRegister | RunQuery | GateRead nat | Rename string string
  | RunRemove | RunRemoveAgain | RunInvalidParam | RunDbError

record demo =
  d_nUserId :: u64
  d_nPending :: int
  d_strPhaseSummary :: string

definition CDemoDriver :: demo where
  "CDemoDriver = \<lparr>d_nUserId = 0, d_nPending = 0, d_strPhaseSummary = []\<rparr>"

text \<open>The request of a scenario; the last one calls the table itself.\<close>

fun scenario_request :: "scenario \<Rightarrow> demo \<Rightarrow> request + CUserTableOp" where
  "scenario_request RunRegister d =
     Inl (RegisterUser (CUserRecord\<lparr>strName := ''carol'', strMail := ''carol@example.com'', nLevel := 2\<rparr>))"
| "scenario_request RunDuplicateRegister d =
     Inl (RegisterUser (CUserRecord\<lparr>nUserId := d_nUserId d, strName := ''carol2'', strMail := ''carol2@example.com''\<rparr>))"
| "scenario_request RunQuery d = Inl (QueryUser (d_nUserId d))"
| "scenario_request (GateRead nBranch) d = Inl (QueryUser (d_nUserId d))"
| "scenario_request (Rename strTag strNewName) d = Inl (RenameUser (d_nUserId d) strNewName)"
| "scenario_request RunRemove d = Inl (RemoveUser (d_nUserId d))"
| "scenario_request RunRemoveAgain d = Inl (RemoveUser (d_nUserId d))"
| "scenario_request RunInvalidParam d = Inl (RegisterUser (CUserRecord\<lparr>strName := [], strMail := ''bad@example.com''\<rparr>))"
| "scenario_request RunDbError d = Inr (CUserTableOp\<lparr>op_nUserId := d_nUserId d, bSimulateDbError := True\<rparr>)"

definition AccumulateBranch :: "string \<Rightarrow> demo \<Rightarrow> demo" where
  "AccumulateBranch strLine d = d\<lparr>d_strPhaseSummary :=
     (if d_strPhaseSummary d \<noteq> [] then d_strPhaseSummary d @ '' | '' else []) @ strLine\<rparr>"

definition RunReadWriteContrast :: "demo \<Rightarrow> demo \<times> scenario list" where
  "RunReadWriteContrast d = (d\<lparr>d_strPhaseSummary := [], d_nPending := 3\<rparr>, map GateRead [1, 2, 3])"

definition OnReadPhaseDone :: "demo \<Rightarrow> demo \<times> scenario list" where
  "OnReadPhaseDone d = (d\<lparr>d_strPhaseSummary := [], d_nPending := 3\<rparr>,
     [Rename ''A'' ''carol-a'', Rename ''B'' ''carol-b'', Rename ''C'' ''carol-c''])"

text \<open>The notice of a scenario, and the scenarios it starts.\<close>

fun scenario_settled :: "scenario \<Rightarrow> promise_result \<Rightarrow> CUserOpContext \<Rightarrow> demo \<Rightarrow> demo \<times> scenario list" where
  "scenario_settled RunRegister r c d =
     (let d = d\<lparr>d_nUserId := u_nUserId c\<rparr> in (d, if u_nUserId c = 0 then [RunInvalidParam] else [RunDuplicateRegister]))"
| "scenario_settled RunDuplicateRegister r c d = (d, [RunQuery])"
| "scenario_settled RunQuery r c d = RunReadWriteContrast d"
| "scenario_settled (GateRead nBranch) r c d =
     (let d = AccumulateBranch ([CHR 0xE8, CHR 0xAF, CHR 0xBB] @ decimal nBranch @ ''='' @ DescribeResult r) d;
          last = (d_nPending d = 1);
          d = d\<lparr>d_nPending := d_nPending d - 1\<rparr>
      in if last then OnReadPhaseDone d else (d, []))"
| "scenario_settled (Rename strTag strNewName) r c d =
     (let d = AccumulateBranch (strTag @ ''='' @ DescribeResult r @ '' '' @ [CHR 0xE5, CHR 0xB0, CHR 0x9D, CHR 0xE8, CHR 0xAF, CHR 0x95] @ ''='' @ decimal (nAttempt c)) d;
          last = (d_nPending d = 1);
          d = d\<lparr>d_nPending := d_nPending d - 1\<rparr>
      in if last then (d\<lparr>d_strPhaseSummary := []\<rparr>, [RunRemove]) else (d, []))"
| "scenario_settled RunRemove r c d = (d, [RunRemoveAgain])"
| "scenario_settled RunRemoveAgain r c d = (d, [RunInvalidParam])"
| "scenario_settled RunInvalidParam r c d = (d, [RunDbError])"
| "scenario_settled RunDbError r c d = (d, [])"

text \<open>The promises settle in any order.\<close>

inductive demo_reach :: "scenario list \<Rightarrow> demo \<Rightarrow> bool" where
  d_start: "demo_reach [RunRegister] CDemoDriver"
| d_next: "demo_reach (xs @ sc # ys) d \<Longrightarrow> scenario_settled sc r c d = (d', new) \<Longrightarrow> demo_reach (xs @ ys @ new) d'"

fun stage :: "scenario \<Rightarrow> nat" where
  "stage RunRegister = 0" | "stage RunDuplicateRegister = 1" | "stage RunQuery = 2" | "stage (GateRead n) = 3"
| "stage (Rename t s) = 4" | "stage RunRemove = 5" | "stage RunRemoveAgain = 6" | "stage RunInvalidParam = 7"
| "stage RunDbError = 8"

definition is_branch :: "scenario \<Rightarrow> bool" where
  "is_branch sc \<longleftrightarrow> stage sc = 3 \<or> stage sc = 4"

definition at_stage :: "nat \<Rightarrow> scenario list \<Rightarrow> demo \<Rightarrow> bool" where
  "at_stage k scs d \<longleftrightarrow> (\<forall>a \<in> set scs. stage a = k)
     \<and> (if k = 3 \<or> k = 4 then d_nPending d = int (length scs) else length scs \<le> 1)"

lemma stage_step:
  assumes "at_stage (stage sc) (xs @ sc # ys) d" "scenario_settled sc r c d = (d', new)"
  shows "(new = [] \<and> (xs @ ys \<noteq> [] \<or> sc = RunDbError) \<and> at_stage (stage sc) (xs @ ys) d')
     \<or> (new \<noteq> [] \<and> xs @ ys = [] \<and> (\<exists>k. at_stage k new d'))"
proof (cases "stage sc = 3 \<or> stage sc = 4")
  case True
  then have "d_nPending d = int (length (xs @ sc # ys))" using assms(1) unfolding at_stage_def by metis
  then have p: "d_nPending d = 1 + int (length (xs @ ys))" by simp
  then have "d_nPending d = 1 \<longleftrightarrow> length (xs @ ys) = 0" by linarith
  then have n: "d_nPending d = 1 \<longleftrightarrow> xs @ ys = []" "d_nPending d - 1 = int (length (xs @ ys))"
    using p by auto
  have all: "\<forall>a \<in> set (xs @ ys). stage a = stage sc" using assms(1) by (simp add: at_stage_def)
  show ?thesis
  proof (cases "xs @ ys = []")
    case end': True
    have "new \<noteq> [] \<and> (at_stage 4 new d' \<or> at_stage 5 new d')"
      using True end' n assms(2) by (cases sc) (auto simp: at_stage_def AccumulateBranch_def OnReadPhaseDone_def Let_def)
    with end' show ?thesis by blast
  next
    case False
    then have "new = [] \<and> d_nPending d' = d_nPending d - 1"
      using True n assms(2) by (cases sc) (auto simp: AccumulateBranch_def OnReadPhaseDone_def Let_def)
    then show ?thesis using False True n(2) all unfolding at_stage_def by simp
  qed
next
  case False
  then have e: "xs @ ys = []" using assms(1) by (auto simp: at_stage_def)
  have "sc = RunDbError \<and> new = [] \<or> new \<noteq> [] \<and> (\<exists>k. at_stage k new d')"
  proof (cases sc)
    case RunRegister
    then have "at_stage 7 new d' \<or> at_stage 1 new d'" "new \<noteq> []"
      using assms(2) by (auto simp: at_stage_def Let_def split: if_splits)
    then show ?thesis by blast
  next
    case RunDuplicateRegister
    then have "at_stage 2 new d'" "new \<noteq> []" using assms(2) by (auto simp: at_stage_def)
    then show ?thesis by blast
  next
    case RunQuery
    then have "at_stage 3 new d'" "new \<noteq> []" using assms(2) by (auto simp: at_stage_def RunReadWriteContrast_def)
    then show ?thesis by blast
  next
    case RunRemove
    then have "at_stage 6 new d'" "new \<noteq> []" using assms(2) by (auto simp: at_stage_def)
    then show ?thesis by blast
  next
    case RunRemoveAgain
    then have "at_stage 7 new d'" "new \<noteq> []" using assms(2) by (auto simp: at_stage_def)
    then show ?thesis by blast
  next
    case RunInvalidParam
    then have "at_stage 8 new d'" "new \<noteq> []" using assms(2) by (auto simp: at_stage_def)
    then show ?thesis by blast
  next
    case RunDbError
    then show ?thesis using assms(2) by simp
  qed (use False in simp_all)
  moreover have "at_stage (stage sc) [] d'" if "sc = RunDbError" using that by (simp add: at_stage_def)
  ultimately show ?thesis using e by auto
qed

lemma demo_inv: "demo_reach scs d \<Longrightarrow> \<exists>k. at_stage k scs d"
proof (induction rule: demo_reach.induct)
  case d_start
  show ?case by (intro exI[of _ 0]) (simp add: at_stage_def)
next
  case (d_next xs sc ys d r c d' new)
  then obtain k where "at_stage k (xs @ sc # ys) d" by blast
  moreover from this have "k = stage sc" unfolding at_stage_def by simp
  ultimately have "at_stage (stage sc) (xs @ sc # ys) d" by metis
  from stage_step[OF this d_next.hyps(2)] show ?case by auto
qed

text \<open>The demonstration never has two stages under way, and starts the stage behind the concurrent
  queries, or behind the concurrent renames, once, when the last of them has been settled,
  whatever the order.\<close>

theorem demo_stages:
  assumes "demo_reach (xs @ sc # ys) d" and "scenario_settled sc r c d = (d', new)"
  shows "(\<forall>a \<in> set (xs @ ys). stage a = stage sc) \<and> (new \<noteq> [] \<longleftrightarrow> xs @ ys = [] \<and> sc \<noteq> RunDbError)"
proof -
  obtain k where "at_stage k (xs @ sc # ys) d" using demo_inv[OF assms(1)] by blast
  moreover from this have "k = stage sc" unfolding at_stage_def by simp
  ultimately have st: "at_stage (stage sc) (xs @ sc # ys) d" by metis
  then have "\<forall>a \<in> set (xs @ ys). stage a = stage sc" by (simp add: at_stage_def)
  moreover have "sc = RunDbError \<Longrightarrow> new = []" using assms(2) by simp
  ultimately show ?thesis using stage_step[OF st assms(2)] by blast
qed

end
