(* ===== verification/Registry.thy ===== *)
theory Registry
  imports StdMap
begin

text \<open>
  The two-index subscription table that \<open>CMessageRouter\<close> and \<open>CEventDispatcher\<close> both
  keep: a map from the subscription identifier to its type and handler, and a map from the
  type to the identifiers in the order of subscription.  The operations here are the common
  bodies of \<open>RegisterHandler\<close> / \<open>Subscribe\<close>, \<open>UnregisterHandler\<close> / \<open>Unsubscribe\<close> and
  the snapshot taken by \<open>Dispatch\<close> / \<open>Publish\<close>; the two components extend the record.
  The abstract view of a table is the list of its subscriptions in the order they were made.
\<close>

record ('t, 'h) registry =
  m_mapEntries :: "(nat, 't \<times> 'h) smap"
  m_mapByType :: "('t, nat list) smap"
  m_nNextId :: nat

definition kInvalidSubscriptionId :: nat where
  "kInvalidSubscriptionId = 0"

definition ids_of :: "('t, 'h, 'z) registry_scheme \<Rightarrow> 't \<Rightarrow> nat list" where
  "ids_of r t = (case sm_find (m_mapByType r) t of None \<Rightarrow> [] | Some ids \<Rightarrow> ids)"

definition reg_add ::
  "('t::linorder) \<Rightarrow> 'h \<Rightarrow> ('t, 'h, 'z) registry_scheme \<Rightarrow> nat \<times> ('t, 'h, 'z) registry_scheme" where
  "reg_add nType fnHandler r =
     (let nId = m_nNextId r
      in (nId, r\<lparr>m_nNextId := nId + 1,
                 m_mapEntries := sm_put nId (nType, fnHandler) (m_mapEntries r),
                 m_mapByType := sm_put nType (ids_of r nType @ [nId]) (m_mapByType r)\<rparr>))"

definition reg_remove ::
  "nat \<Rightarrow> ('t::linorder, 'h, 'z) registry_scheme \<Rightarrow> bool \<times> ('t, 'h, 'z) registry_scheme" where
  "reg_remove nId r =
     (case sm_find (m_mapEntries r) nId of
        None \<Rightarrow> (False, r)
      | Some (nType, _) \<Rightarrow>
          (let ids = remove1 nId (ids_of r nType)
           in (True, r\<lparr>m_mapByType := (if ids = [] then sm_erase nType (m_mapByType r)
                                       else sm_put nType ids (m_mapByType r)),
                       m_mapEntries := sm_erase nId (m_mapEntries r)\<rparr>)))"

text \<open>The handlers of a type, copied under the lock; \<^const>\<open>None\<close> when the type has no entry.\<close>

definition reg_targets :: "'t \<Rightarrow> ('t, 'h, 'z) registry_scheme \<Rightarrow> 'h list option" where
  "reg_targets nType r =
     (case sm_find (m_mapByType r) nType of
        None \<Rightarrow> None
      | Some ids \<Rightarrow> Some (List.map_filter (\<lambda>i. map_option snd (sm_find (m_mapEntries r) i)) ids))"

subsection \<open>Invariant\<close>

definition subs_of :: "('t, 'h, 'z) registry_scheme \<Rightarrow> 't \<Rightarrow> (nat \<times> 't \<times> 'h) list" where
  "subs_of r t = filter (\<lambda>e. fst (snd e) = t) (m_mapEntries r)"

definition reg_inv :: "('t::linorder, 'h, 'z) registry_scheme \<Rightarrow> bool" where
  "reg_inv r \<longleftrightarrow> sm_ok (m_mapEntries r) \<and> sm_ok (m_mapByType r)
     \<and> 0 < m_nNextId r \<and> (\<forall>i \<in> fst ` set (m_mapEntries r). 0 < i \<and> i < m_nNextId r)
     \<and> (\<forall>t. sm_find (m_mapByType r) t =
           (if subs_of r t = [] then None else Some (map fst (subs_of r t))))"

lemma ids_of_inv: "reg_inv r \<Longrightarrow> ids_of r t = map fst (subs_of r t)"
  by (simp add: reg_inv_def ids_of_def)

text \<open>An identifier above all others goes to the end of the ordered map.\<close>

lemma sm_put_last: "\<forall>i \<in> fst ` set m. i < k \<Longrightarrow> sm_put k v m = m @ [(k, v)]"
  by (induction k v m rule: sm_put.induct) auto

lemma filter_erase_other:
  "sm_ok m \<Longrightarrow> sm_find m k = Some v \<Longrightarrow> \<not> P (k, v) \<Longrightarrow> filter P (sm_erase k m) = filter P m"
  by (auto simp: sm_erase_def sm_find_Some_iff intro!: filter_cong)
    (metis eq_key_imp_eq_value sm_ok_distinct)

lemma map_fst_filter_erase:
  "map fst (filter P (sm_erase k m)) = filter (\<lambda>i. i \<noteq> k) (map fst (filter P m))"
  by (induction m) (auto simp: sm_erase_def)

lemma subs_of_add:
  assumes "reg_inv r"
  shows "subs_of (snd (reg_add t h r)) t' = subs_of r t' @ (if t' = t then [(m_nNextId r, t, h)] else [])"
proof -
  have "\<forall>i \<in> fst ` set (m_mapEntries r). i < m_nNextId r"
    using assms by (simp add: reg_inv_def)
  then show ?thesis
    by (simp add: subs_of_def reg_add_def Let_def sm_put_last)
qed

lemma reg_inv_add:
  assumes "reg_inv r"
  shows "reg_inv (snd (reg_add t h r))"
proof -
  let ?r = "snd (reg_add t h r)"
  have bound: "\<forall>i \<in> fst ` set (m_mapEntries r). 0 < i \<and> i < m_nNextId r" and pos: "0 < m_nNextId r"
    using assms by (auto simp: reg_inv_def)
  have "sm_find (m_mapByType ?r) t' =
      (if subs_of ?r t' = [] then None else Some (map fst (subs_of ?r t')))" for t'
    using assms unfolding subs_of_add[OF assms]
    by (simp add: reg_add_def Let_def ids_of_inv) (simp add: reg_inv_def)
  moreover have "\<forall>i \<in> fst ` set (m_mapEntries ?r). 0 < i \<and> i < m_nNextId ?r"
    using bound pos by (auto simp: reg_add_def Let_def fst_set_sm_put)
  ultimately show ?thesis
    using assms by (simp add: reg_inv_def reg_add_def Let_def)
qed

lemma subs_of_remove:
  assumes "reg_inv r"
  shows "subs_of (snd (reg_remove nId r)) t = filter (\<lambda>e. fst e \<noteq> nId) (subs_of r t)"
proof (cases "sm_find (m_mapEntries r) nId")
  case None
  then have "nId \<notin> fst ` set (m_mapEntries r)" by (simp add: sm_find_None_iff)
  then have "filter (\<lambda>e. fst e \<noteq> nId) (subs_of r t) = subs_of r t"
    unfolding subs_of_def filter_filter by (intro filter_cong) (auto simp: image_iff)
  with None show ?thesis by (simp add: reg_remove_def)
next
  case (Some e)
  then show ?thesis
    by (cases e) (simp add: reg_remove_def Let_def subs_of_def sm_erase_def conj_commute)
qed

lemma reg_inv_remove:
  assumes "reg_inv r"
  shows "reg_inv (snd (reg_remove nId r))"
proof (cases "sm_find (m_mapEntries r) nId")
  case None
  with assms show ?thesis by (simp add: reg_remove_def)
next
  case (Some e)
  then obtain t h where e: "sm_find (m_mapEntries r) nId = Some (t, h)" by (cases e) auto
  let ?r = "snd (reg_remove nId r)"
  have ok: "sm_ok (m_mapEntries r)" using assms by (simp add: reg_inv_def)
  have "distinct (map fst (subs_of r t'))" for t'
    using sm_ok_distinct[OF sm_ok_filter[OF ok]] by (simp add: subs_of_def)
  then have ids: "remove1 nId (ids_of r t) = map fst (subs_of ?r t)"
    by (simp add: ids_of_inv[OF assms] subs_of_remove[OF assms] distinct_remove1_filter filter_map o_def)
  have other: "subs_of ?r t' = subs_of r t'" if "t' \<noteq> t" for t'
    using e ok that by (simp add: reg_remove_def Let_def subs_of_def filter_erase_other)
  have "sm_find (m_mapByType ?r) t' =
      (if subs_of ?r t' = [] then None else Some (map fst (subs_of ?r t')))" for t'
  proof (cases "t' = t")
    case True
    with e ids show ?thesis by (auto simp: reg_remove_def Let_def)
  next
    case False
    with e other[OF False] assms show ?thesis by (auto simp: reg_remove_def Let_def reg_inv_def)
  qed
  moreover have "set (m_mapEntries ?r) \<subseteq> set (m_mapEntries r)" "m_nNextId ?r = m_nNextId r"
    using e by (auto simp: reg_remove_def Let_def sm_erase_def)
  moreover have "sm_ok (m_mapEntries ?r)" "sm_ok (m_mapByType ?r)"
    using assms e by (auto simp: reg_remove_def Let_def reg_inv_def)
  ultimately show ?thesis
    using assms by (auto simp: reg_inv_def)
qed

lemma map_filter_all: "\<forall>x \<in> set xs. f x = Some (g x) \<Longrightarrow> List.map_filter f xs = map g xs"
  by (induction xs) (auto simp: List.map_filter_simps)

lemma targets_subs:
  assumes "reg_inv r"
  shows "reg_targets t r = (if subs_of r t = [] then None else Some (map (snd \<circ> snd) (subs_of r t)))"
proof -
  have ok: "sm_ok (m_mapEntries r)" using assms by (simp add: reg_inv_def)
  have "List.map_filter (\<lambda>i. map_option snd (sm_find (m_mapEntries r) i)) (map fst (subs_of r t))
      = List.map_filter (\<lambda>e. map_option snd (sm_find (m_mapEntries r) (fst e))) (subs_of r t)"
    by (simp add: List.map_filter_def filter_map o_def)
  also have "\<dots> = map (snd \<circ> snd) (subs_of r t)"
    using ok by (intro map_filter_all) (auto simp: subs_of_def sm_find_Some_iff[symmetric])
  finally show ?thesis
    using assms by (simp add: reg_targets_def reg_inv_def)
qed

lemma reg_remove_found: "fst (reg_remove nId r) \<longleftrightarrow> sm_find (m_mapEntries r) nId \<noteq> None"
  by (auto simp: reg_remove_def Let_def split: option.splits)

subsection \<open>The contract of a subscription table\<close>

locale subscription_table =
  fixes inv :: "'s \<Rightarrow> bool"
    and subs :: "'s \<Rightarrow> 't \<Rightarrow> (nat \<times> 't \<times> 'h) list"
    and add :: "'t \<Rightarrow> 'h \<Rightarrow> 's \<Rightarrow> nat \<times> 's"
    and remove :: "nat \<Rightarrow> 's \<Rightarrow> bool \<times> 's"
    and targets :: "'t \<Rightarrow> 's \<Rightarrow> 'h list option"
  assumes inv_add: "inv s \<Longrightarrow> inv (snd (add t h s))"
    and inv_remove: "inv s \<Longrightarrow> inv (snd (remove i s))"
    and subs_add: "inv s \<Longrightarrow>
      subs (snd (add t h s)) t' = subs s t' @ (if t' = t then [(fst (add t h s), t, h)] else [])"
    and subs_remove: "inv s \<Longrightarrow> subs (snd (remove i s)) t = filter (\<lambda>e. fst e \<noteq> i) (subs s t)"
    and fresh: "inv s \<Longrightarrow> e \<in> set (subs s t') \<Longrightarrow> fst e \<noteq> fst (add t h s)"
    and targets_eq: "inv s \<Longrightarrow>
      targets t s = (if subs s t = [] then None else Some (map (snd \<circ> snd) (subs s t)))"
begin

definition handlers :: "'t \<Rightarrow> 's \<Rightarrow> 'h list" where
  "handlers t s = (case targets t s of None \<Rightarrow> [] | Some hs \<Rightarrow> hs)"

lemma handlers_eq: "inv s \<Longrightarrow> handlers t s = map (snd \<circ> snd) (subs s t)"
  by (simp add: handlers_def targets_eq)

lemma handlers_add:
  "inv s \<Longrightarrow> handlers t' (snd (add t h s)) = handlers t' s @ (if t' = t then [h] else [])"
  by (simp add: handlers_eq inv_add subs_add)

lemma add_remove_subs:
  "inv s \<Longrightarrow> subs (snd (remove (fst (add t h s)) (snd (add t h s)))) t' = subs s t'"
  using fresh[of s _ t' t h] by (auto simp: subs_remove inv_add subs_add filter_id_conv)

lemma add_remove_handlers:
  "inv s \<Longrightarrow> handlers t' (snd (remove (fst (add t h s)) (snd (add t h s)))) = handlers t' s"
  by (simp add: handlers_eq inv_add inv_remove add_remove_subs)

lemma remove_gone: "inv s \<Longrightarrow> e \<in> set (subs (snd (remove i s)) t) \<Longrightarrow> fst e \<noteq> i"
  by (simp add: subs_remove)

end

interpretation reg: subscription_table reg_inv subs_of reg_add reg_remove reg_targets
proof (unfold_locales, goal_cases)
  case (1 s t h)
  then show ?case by (rule reg_inv_add)
next
  case (2 s i)
  then show ?case by (rule reg_inv_remove)
next
  case (3 s t h t')
  then show ?case by (simp add: subs_of_add) (simp add: reg_add_def Let_def)
next
  case (4 s i t)
  then show ?case by (rule subs_of_remove)
next
  case (5 s e t' t h)
  then show ?case by (auto simp: reg_inv_def subs_of_def reg_add_def Let_def)
next
  case (6 s t)
  then show ?case by (rule targets_subs)
qed

end
