(* ===== verification/MessageRouter.thy ===== *)
theory MessageRouter
  imports Registry "HOL-Library.Sublist"
begin

text \<open>
  \<open>CMessageRouter\<close> (\<open>src/ServerCore/Message\<close>): per-connection receive buffers, a
  protocol-specific extractor that cuts complete messages off the front of a buffer, and a
  subscription table that routes each message by its type.  Handlers are opaque values; what
  running one does is the parameter \<open>run\<close>, which may change the router itself (handlers
  are called outside the lock and may register, unregister or close) and an outer state.
\<close>

datatype parse_result = KNeedMore | KOk | KInvalid

record extracted =
  x_result :: parse_result
  x_step :: nat
  x_type :: int
  x_payload :: bytes

record 'h router = "(int, 'h) registry" +
  m_fnExtractor :: "(bytes \<Rightarrow> extracted) option"
  m_mapBuffers :: "(nat, bytes) smap"

type_synonym ('h, 'e) handler_run = "'h \<Rightarrow> nat \<Rightarrow> int \<Rightarrow> bytes \<Rightarrow> 'h router \<times> 'e \<Rightarrow> 'h router \<times> 'e"

definition CMessageRouter :: "'h router" where
  "CMessageRouter = \<lparr>m_mapEntries = [], m_mapByType = [], m_nNextId = 1,
                     m_fnExtractor = None, m_mapBuffers = []\<rparr>"

definition SetExtractor :: "(bytes \<Rightarrow> extracted) option \<Rightarrow> 'h router \<Rightarrow> 'h router" where
  "SetExtractor fnExtractor r = r\<lparr>m_fnExtractor := fnExtractor\<rparr>"

text \<open>An empty \<open>std::function\<close> is \<^const>\<open>None\<close>.\<close>

definition RegisterHandler :: "int \<Rightarrow> 'h option \<Rightarrow> 'h router \<Rightarrow> nat \<times> 'h router" where
  "RegisterHandler nType fnHandler r =
     (case fnHandler of None \<Rightarrow> (kInvalidSubscriptionId, r) | Some h \<Rightarrow> reg_add nType h r)"

definition UnregisterHandler :: "nat \<Rightarrow> 'h router \<Rightarrow> bool \<times> 'h router" where
  "UnregisterHandler nId r = reg_remove nId r"

text \<open>The targets are copied first; the handlers then run one after the other.\<close>

definition Dispatch ::
  "('h, 'e) handler_run \<Rightarrow> nat \<Rightarrow> int \<Rightarrow> bytes \<Rightarrow> 'h router \<times> 'e \<Rightarrow> 'h router \<times> 'e" where
  "Dispatch run nId nType pPayload s =
     (case reg_targets nType (fst s) of
        None \<Rightarrow> s
      | Some vecTargets \<Rightarrow> fold (\<lambda>h. run h nId nType pPayload) vecTargets s)"

text \<open>The loop of \<open>OnData\<close>: the extractor is looked up again in every round.\<close>

function extract_loop ::
  "('h, 'e) handler_run \<Rightarrow> nat \<Rightarrow> bytes \<Rightarrow> nat \<Rightarrow> 'h router \<times> 'e \<Rightarrow> nat \<times> 'h router \<times> 'e" where
  "extract_loop run nId strPending nConsumed s =
     (if nConsumed < length strPending then
        (case m_fnExtractor (fst s) of
           None \<Rightarrow> (nConsumed, s)
         | Some ext \<Rightarrow>
             (let x = ext (drop nConsumed strPending)
              in if x_result x = KNeedMore then (nConsumed, s)
                 else if x_result x = KInvalid \<or> x_step x = 0 then (length strPending, s)
                 else extract_loop run nId strPending (nConsumed + x_step x)
                        (Dispatch run nId (x_type x) (x_payload x) s)))
      else (nConsumed, s))"
  by pat_completeness auto
termination
  by (relation "measure (\<lambda>(run, nId, p, c, s). length p - c)") auto

declare extract_loop.simps [simp del]

text \<open>\<open>substr\<close> throws when the extractor claimed more bytes than there are.\<close>

datatype router_error = SubstrOutOfRange

definition OnData ::
  "('h, 'e) handler_run \<Rightarrow> nat \<Rightarrow> bytes option \<Rightarrow> 'h router \<times> 'e \<Rightarrow> router_error option \<times> 'h router \<times> 'e" where
  "OnData run nId pData s =
     (case pData of
        None \<Rightarrow> (None, s)
      | Some d \<Rightarrow>
          if d = [] then (None, s)
          else
            (let r = fst s;
                 strPending = (case sm_find (m_mapBuffers r) nId of None \<Rightarrow> [] | Some b \<Rightarrow> b) @ d;
                 r1 = r\<lparr>m_mapBuffers := sm_erase nId (m_mapBuffers r)\<rparr>;
                 (nConsumed, s2) = extract_loop run nId strPending 0 (r1, snd s)
             in if nConsumed > length strPending then (Some SubstrOutOfRange, s2)
                else
                  (let strRemain = drop nConsumed strPending; r2 = fst s2
                   in (None, (if strRemain = [] then r2\<lparr>m_mapBuffers := sm_erase nId (m_mapBuffers r2)\<rparr>
                              else r2\<lparr>m_mapBuffers := sm_put nId strRemain (m_mapBuffers r2)\<rparr>, snd s2)))))"

definition OnClose :: "nat \<Rightarrow> 'h router \<Rightarrow> 'h router" where
  "OnClose nId r = r\<lparr>m_mapBuffers := sm_erase nId (m_mapBuffers r)\<rparr>"

subsection \<open>The table inside the router\<close>

lemma registry_update_buffers [simp]:
  "reg_inv (r\<lparr>m_mapBuffers := b\<rparr>) \<longleftrightarrow> reg_inv (r :: 'h router)"
  "subs_of (r\<lparr>m_mapBuffers := b\<rparr>) t = subs_of (r :: 'h router) t"
  "reg_targets t (r\<lparr>m_mapBuffers := b\<rparr>) = reg_targets t (r :: 'h router)"
  by (simp_all add: reg_inv_def subs_of_def reg_targets_def split: option.split)

lemma registry_update_extractor [simp]:
  "reg_inv (r\<lparr>m_fnExtractor := x\<rparr>) \<longleftrightarrow> reg_inv (r :: 'h router)"
  "reg_targets t (r\<lparr>m_fnExtractor := x\<rparr>) = reg_targets t (r :: 'h router)"
  by (simp_all add: reg_inv_def subs_of_def reg_targets_def split: option.split)

lemma reg_add_frame [simp]:
  "m_mapBuffers (snd (reg_add t h r)) = m_mapBuffers r"
  "m_fnExtractor (snd (reg_add t h r)) = m_fnExtractor r"
  by (simp_all add: reg_add_def Let_def)

lemma reg_inv_CMessageRouter: "reg_inv CMessageRouter"
  by (simp add: reg_inv_def CMessageRouter_def subs_of_def)

lemma reg_inv_RegisterHandler: "reg_inv r \<Longrightarrow> reg_inv (snd (RegisterHandler t h r))"
  by (cases h) (simp_all add: RegisterHandler_def reg_inv_add)

subsection \<open>Handlers that leave the router alone\<close>

text \<open>The framing results are about handlers that only produce effects outside the router: each
  delivery then appends to the outer state what the subscribed handlers do with it.\<close>

definition outer_run :: "('h \<Rightarrow> nat \<Rightarrow> int \<Rightarrow> bytes \<Rightarrow> 'e \<Rightarrow> 'e) \<Rightarrow> ('h, 'e) handler_run" where
  "outer_run f h nId nType pPayload s = (fst s, f h nId nType pPayload (snd s))"

definition deliver ::
  "('h \<Rightarrow> nat \<Rightarrow> int \<Rightarrow> bytes \<Rightarrow> 'e \<Rightarrow> 'e) \<Rightarrow> 'h router \<Rightarrow> nat \<Rightarrow> int \<times> bytes \<Rightarrow> 'e \<Rightarrow> 'e" where
  "deliver f r nId m e = fold (\<lambda>h. f h nId (fst m) (snd m)) (reg.handlers (fst m) r) e"

lemma fold_outer_run: "fold (\<lambda>h. outer_run f h nId t p) hs (r, e) = (r, fold (\<lambda>h. f h nId t p) hs e)"
  by (induction hs arbitrary: e) (simp_all add: outer_run_def)

lemma Dispatch_outer: "Dispatch (outer_run f) nId t p (r, e) = (r, deliver f r nId (t, p) e)"
  by (simp add: Dispatch_def deliver_def reg.handlers_def fold_outer_run split: option.split)

lemma deliver_buffers [simp]: "deliver f (r\<lparr>m_mapBuffers := b\<rparr>) = deliver f r"
  by (simp add: deliver_def fun_eq_iff reg.handlers_def)

subsection \<open>The loop stays inside the data\<close>

lemma m_fnExtractor_buffers [simp]: "m_fnExtractor (r\<lparr>m_mapBuffers := b\<rparr>) = m_fnExtractor r"
  by simp

lemma Dispatch_keeps_extractor:
  assumes "\<And>h i t p s. m_fnExtractor (fst (run h i t p s)) = m_fnExtractor (fst s)"
  shows "m_fnExtractor (fst (Dispatch run nId t p s)) = m_fnExtractor (fst s)"
proof -
  have "m_fnExtractor (fst (fold (\<lambda>h. run h nId t p) hs s)) = m_fnExtractor (fst s)" for hs
    using assms by (induction hs arbitrary: s) simp_all
  then show ?thesis by (simp add: Dispatch_def split: option.split)
qed

lemma OnData_throws:
  assumes "fst (OnData run nId pData s) = Some x"
  shows "\<exists>p s'. m_fnExtractor (fst s') = m_fnExtractor (fst s) \<and> length p < fst (extract_loop run nId p 0 s')"
proof -
  obtain d where d: "pData = Some d" "d \<noteq> []"
    using assms by (auto simp: OnData_def split: option.splits if_splits)
  let ?s = "(fst s\<lparr>m_mapBuffers := sm_erase nId (m_mapBuffers (fst s))\<rparr>, snd s)"
  define p where "p = (case sm_find (m_mapBuffers (fst s)) nId of None \<Rightarrow> [] | Some b \<Rightarrow> b) @ d"
  have "length p < fst (extract_loop run nId p 0 ?s)"
    using assms d by (auto simp: OnData_def Let_def p_def[symmetric] split: prod.splits if_splits)
      (simp add: p_def)
  then show ?thesis by (intro exI[of _ p] exI[of _ ?s]) simp
qed

lemma extract_loop_bounded:
  assumes keep: "\<And>h i t p s. m_fnExtractor (fst (run h i t p s)) = m_fnExtractor (fst s)"
    and step: "\<And>d. x_result (ext d) = KOk \<Longrightarrow> x_step (ext d) \<le> length d"
  shows "m_fnExtractor (fst s) = Some ext \<Longrightarrow> c \<le> length p \<Longrightarrow> fst (extract_loop run nId p c s) \<le> length p"
proof (induction "length p - c" arbitrary: c s rule: less_induct)
  case less
  let ?x = "ext (drop c p)"
  show ?case
  proof (cases "c < length p \<and> x_result ?x = KOk \<and> x_step ?x \<noteq> 0")
    case True
    then have "x_step ?x \<le> length p - c" using step[of "drop c p"] by simp
    with True have bound: "c + x_step ?x \<le> length p" by linarith
    have "fst (extract_loop run nId p (c + x_step ?x) (Dispatch run nId (x_type ?x) (x_payload ?x) s)) \<le> length p"
      using True bound less.prems(1)
      by (intro less.hyps) (auto simp: Dispatch_keeps_extractor[OF keep])
    with True less.prems show ?thesis
      by (subst extract_loop.simps) (simp add: Let_def)
  next
    case False
    with less.prems show ?thesis
      by (subst extract_loop.simps) (cases "x_result ?x"; auto simp: Let_def)
  qed
qed

subsection \<open>The contract of an extractor\<close>

text \<open>A framing of messages: the extractor recognises an encoded message at the front of any data
  and asks for more on every proper prefix of one.\<close>

locale framing =
  fixes ext :: "bytes \<Rightarrow> extracted"
    and enc :: "'m \<Rightarrow> bytes"
    and msg :: "'m \<Rightarrow> int \<times> bytes"
    and valid :: "'m \<Rightarrow> bool"
  assumes ext_enc: "valid m \<Longrightarrow> ext (enc m @ s) =
      \<lparr>x_result = KOk, x_step = length (enc m), x_type = fst (msg m), x_payload = snd (msg m)\<rparr>"
    and ext_prefix: "valid m \<Longrightarrow> strict_prefix p (enc m) \<Longrightarrow> x_result (ext p) = KNeedMore"
    and enc_nonempty: "valid m \<Longrightarrow> enc m \<noteq> []"
begin

text \<open>Data that waits for the rest of the next message.\<close>

definition pending :: "bytes \<Rightarrow> 'm list \<Rightarrow> bool" where
  "pending q ms \<longleftrightarrow> (q = [] \<or> (\<exists>m ms'. ms = m # ms' \<and> strict_prefix q (enc m)))"

lemma loop_messages:
  assumes "m_fnExtractor r = Some ext" and "\<forall>m \<in> set ms. valid m"
    and "q = [] \<or> (\<exists>m. valid m \<and> strict_prefix q (enc m))"
  shows "extract_loop (outer_run f) nId (d @ concat (map enc ms) @ q) (length d) (r, e)
       = (length d + length (concat (map enc ms)), r, fold (deliver f r nId) (map msg ms) e)"
  using assms(2)
proof (induction ms arbitrary: d e)
  case Nil
  show ?case
  proof (cases "q = []")
    case False
    with assms(3) ext_prefix obtain m where "x_result (ext q) = KNeedMore" by blast
    with assms(1) show ?thesis by (subst extract_loop.simps) (simp add: Let_def)
  qed (subst extract_loop.simps, simp)
next
  case (Cons m ms)
  then have m: "valid m" "0 < length (enc m)" using enc_nonempty by auto
  have "extract_loop (outer_run f) nId (d @ concat (map enc (m # ms)) @ q) (length d) (r, e)
      = extract_loop (outer_run f) nId ((d @ enc m) @ concat (map enc ms) @ q) (length (d @ enc m))
          (r, deliver f r nId (msg m) e)"
    using assms(1) m ext_enc[OF m(1), of "concat (map enc ms) @ q"]
    by (subst extract_loop.simps) (simp add: Let_def Dispatch_outer)
  with Cons.IH[of "d @ enc m" "deliver f r nId (msg m) e"] Cons.prems show ?case by simp
qed

lemma split_stream:
  "\<forall>m \<in> set ms. valid m \<Longrightarrow> prefix w (concat (map enc ms)) \<Longrightarrow>
    \<exists>ms1 ms2 q. ms = ms1 @ ms2 \<and> w = concat (map enc ms1) @ q \<and> pending q ms2"
proof (induction ms arbitrary: w)
  case Nil
  then show ?case by (auto simp: pending_def)
next
  case (Cons m ms)
  show ?case
  proof (cases "strict_prefix w (enc m)")
    case True
    then show ?thesis by (intro exI[of _ "[]"] exI[of _ "m # ms"] exI[of _ w]) (simp add: pending_def)
  next
    case False
    with Cons.prems(2) obtain w' where w': "w = enc m @ w'" "prefix w' (concat (map enc ms))"
      by (auto simp: strict_prefix_def prefix_append)
    with Cons obtain ms1 ms2 q where "ms = ms1 @ ms2" "w' = concat (map enc ms1) @ q" "pending q ms2"
      by (metis list.set_intros(2))
    with w' show ?thesis by (intro exI[of _ "m # ms1"] exI[of _ ms2] exI[of _ q]) simp
  qed
qed

text \<open>One arrival: whatever was waiting and the new data together are some complete messages and
  the beginning of the next; exactly those messages are delivered and the beginning is kept.\<close>

lemma OnData_step:
  assumes ext: "m_fnExtractor r = Some ext" and valid: "\<forall>m \<in> set ms. valid m"
    and d: "d \<noteq> []" and pre: "prefix (w @ d) (concat (map enc ms))"
    and buf: "sm_find (m_mapBuffers r) nId = (if w = [] then None else Some w)"
  shows "\<exists>ms1 ms2 q r'. ms = ms1 @ ms2 \<and> w @ d = concat (map enc ms1) @ q \<and> pending q ms2
     \<and> OnData (outer_run f) nId (Some d) (r, e) = (None, r', fold (deliver f r nId) (map msg ms1) e)
     \<and> sm_find (m_mapBuffers r') nId = (if q = [] then None else Some q)
     \<and> (\<exists>b. r' = r\<lparr>m_mapBuffers := b\<rparr> \<and> (\<forall>k. k \<noteq> nId \<longrightarrow> sm_find b k = sm_find (m_mapBuffers r) k))"
proof -
  from split_stream[OF valid pre] obtain ms1 ms2 q where
    ms: "ms = ms1 @ ms2" "w @ d = concat (map enc ms1) @ q" "pending q ms2" by blast
  let ?r1 = "r\<lparr>m_mapBuffers := sm_erase nId (m_mapBuffers r)\<rparr>"
  have q: "q = [] \<or> (\<exists>m. valid m \<and> strict_prefix q (enc m))"
    using ms(1,3) valid by (auto simp: pending_def)
  have "extract_loop (outer_run f) nId (concat (map enc ms1) @ q) 0 (?r1, e)
      = (length (concat (map enc ms1)), ?r1, fold (deliver f r nId) (map msg ms1) e)"
    using loop_messages[of ?r1 ms1 q f nId "[]" e] ext valid ms(1) q by simp
  moreover have "(case sm_find (m_mapBuffers r) nId of None \<Rightarrow> [] | Some b \<Rightarrow> b) @ d
      = concat (map enc ms1) @ q"
    using buf ms(2) by (cases "w = []") auto
  ultimately have "OnData (outer_run f) nId (Some d) (r, e) =
      (None, (if q = [] then ?r1\<lparr>m_mapBuffers := sm_erase nId (m_mapBuffers ?r1)\<rparr>
              else ?r1\<lparr>m_mapBuffers := sm_put nId q (m_mapBuffers ?r1)\<rparr>),
       fold (deliver f r nId) (map msg ms1) e)"
    using d by (simp add: OnData_def Let_def del: length_append) simp
  with ms show ?thesis
    by (intro exI[of _ ms1] exI[of _ ms2] exI[of _ q]) (auto intro!: exI)
qed

text \<open>Arrivals of one connection, in order; the error of the first throwing call is kept.\<close>

lemma OnData_chunks:
  assumes "m_fnExtractor r = Some ext" and "\<forall>m \<in> set ms. valid m"
    and "concat (map enc ms) = w @ concat ds"
    and "sm_find (m_mapBuffers r) nId = (if w = [] then None else Some w)"
    and "pending w ms"
  shows "\<exists>r'. fold (\<lambda>d s. snd (OnData (outer_run f) nId (Some d) s)) ds (r, e)
       = (r', fold (deliver f r nId) (map msg ms) e) \<and> sm_find (m_mapBuffers r') nId = None
       \<and> (\<exists>b. r' = r\<lparr>m_mapBuffers := b\<rparr> \<and> (\<forall>k. k \<noteq> nId \<longrightarrow> sm_find b k = sm_find (m_mapBuffers r) k))"
  using assms
proof (induction ds arbitrary: r e ms w)
  case Nil
  then have "ms = [] \<and> w = []"
    using enc_nonempty by (cases ms) (auto simp: pending_def strict_prefix_def prefix_def)
  with Nil.prems(4) show ?case
    by (auto intro!: exI[of _ "m_mapBuffers r"])
next
  case (Cons d ds)
  show ?case
  proof (cases "d = []")
    case True
    with Cons.prems Cons.IH[of r ms w e] show ?thesis by (simp add: OnData_def)
  next
    case False
    have "prefix (w @ d) (concat (map enc ms))" using Cons.prems(3) by (simp add: prefix_def)
    from OnData_step[OF Cons.prems(1,2) False this Cons.prems(4), of f e]
    obtain ms1 ms2 q r1 b where s: "ms = ms1 @ ms2" "w @ d = concat (map enc ms1) @ q" "pending q ms2"
      "OnData (outer_run f) nId (Some d) (r, e) = (None, r1, fold (deliver f r nId) (map msg ms1) e)"
      "sm_find (m_mapBuffers r1) nId = (if q = [] then None else Some q)"
      "r1 = r\<lparr>m_mapBuffers := b\<rparr>" "\<forall>k. k \<noteq> nId \<longrightarrow> sm_find b k = sm_find (m_mapBuffers r) k"
      by blast
    have "concat (map enc ms1) @ concat (map enc ms2) = (w @ d) @ concat ds"
      using Cons.prems(3) s(1) by simp
    then have rest: "concat (map enc ms2) = q @ concat ds" by (simp add: s(2))
    have r1: "m_fnExtractor r1 = Some ext" "\<forall>m \<in> set ms2. valid m" "deliver f r1 nId = deliver f r nId"
      using Cons.prems(1,2) s(1,6) by simp_all
    from Cons.IH[OF r1(1,2) rest s(5,3), of "fold (deliver f r nId) (map msg ms1) e"] obtain r' b' where
      r': "fold (\<lambda>d s. snd (OnData (outer_run f) nId (Some d) s)) ds
             (r1, fold (deliver f r nId) (map msg ms1) e)
           = (r', fold (deliver f r nId) (map msg ms2) (fold (deliver f r nId) (map msg ms1) e))"
        "sm_find (m_mapBuffers r') nId = None" "r' = r1\<lparr>m_mapBuffers := b'\<rparr>"
        "\<forall>k. k \<noteq> nId \<longrightarrow> sm_find b' k = sm_find (m_mapBuffers r1) k"
      unfolding r1(3) by blast
    moreover have "r' = r\<lparr>m_mapBuffers := b'\<rparr>" "\<forall>k. k \<noteq> nId \<longrightarrow> sm_find b' k = sm_find (m_mapBuffers r) k"
      using r'(3,4) s(6,7) by simp_all
    ultimately show ?thesis
      using s(1,4) by (intro exI[of _ r'] conjI exI[of _ b']) simp_all
  qed
qed

end

end
