(* ===== verification/Serialization.thy ===== *)
theory Serialization
  imports Prelude "HOL-Library.Sublist"
begin

unbundle bit_operations_syntax

text \<open>
  \<open>CBinaryWriter\<close> and \<open>CBinaryReader\<close> (\<open>src/Common/Serialization\<close>): little-endian fields
  with a four-byte length prefix for byte strings.  The writer's state is its buffer.  The
  reader keeps the borrowed data, the size it was told, the position and the failure flag.
  A read either yields a value, fails (\<open>false\<close>), or would touch memory outside the
  borrowed data.
\<close>

datatype 'a read_result = RdOk 'a | RdFail | RdOutOfBounds

record creader =
  m_pData :: bytes
  m_nSize :: nat
  m_nPos :: nat
  m_bFailed :: bool

subsection \<open>Little-endian words\<close>

text \<open>The loops \<open>szTmp[i] = (nValue >> (i * 8)) & 0xFF\<close> and
  \<open>nValue |= szTmp[i] << (i * 8)\<close>.\<close>

definition le_split :: "nat \<Rightarrow> 'a::len word \<Rightarrow> bytes" where
  "le_split n nValue = map (\<lambda>i. ucast (drop_bit (i * 8) nValue AND 0xFF)) [0..<n]"

definition le_join :: "bytes \<Rightarrow> 'a::len word" where
  "le_join szTmp = fold (\<lambda>i nValue. nValue OR push_bit (i * 8) (ucast (szTmp ! i))) [0..<length szTmp] 0"

lemma length_le_split [simp]: "length (le_split n w) = n"
  by (simp add: le_split_def)

lemma bit_le_fold:
  "bit (fold (\<lambda>i v. v OR push_bit (i * 8) (ucast (f i :: byte))) [0..<n] (0 :: 'a::len word)) k
     \<longleftrightarrow> k < LENGTH('a) \<and> k < 8 * n \<and> bit (f (k div 8)) (k mod 8)"
proof (induction n)
  case (Suc n)
  have top: "bit (push_bit (n * 8) (ucast (f n)) :: 'a word) k
      \<longleftrightarrow> k < LENGTH('a) \<and> n * 8 \<le> k \<and> k < 8 * Suc n \<and> bit (f n) (k - n * 8)"
    by (auto simp: bit_simps dest: bit_imp_le_length)
  show ?case
  proof (cases "k < 8 * n")
    case True
    with Suc top show ?thesis by (simp add: bit_or_iff)
  next
    case False
    have pos: "k div 8 = n" "k mod 8 = k - n * 8" if "k < 8 * Suc n"
    proof -
      define j where "j = k - n * 8"
      have "k = n * 8 + j" "j < 8" using that False by (simp_all add: j_def)
      then show "k div 8 = n" "k mod 8 = k - n * 8" by simp_all
    qed
    have "bit (fold (\<lambda>i v. v OR push_bit (i * 8) (ucast (f i))) [0..<n] (0 :: 'a word)) k = False"
      using Suc False by simp
    with top have "bit (fold (\<lambda>i v. v OR push_bit (i * 8) (ucast (f i))) [0..<Suc n] (0 :: 'a word)) k
        \<longleftrightarrow> k < LENGTH('a) \<and> n * 8 \<le> k \<and> k < 8 * Suc n \<and> bit (f n) (k - n * 8)"
      by (simp only: upt_Suc fold_append bit_or_iff) (simp add: bit_or_iff)
    with False pos show ?thesis by (cases "k < 8 * Suc n") simp_all
  qed
qed simp

lemma bit_le_join:
  "bit (le_join bs :: 'a::len word) k
     \<longleftrightarrow> k < LENGTH('a) \<and> k < 8 * length bs \<and> bit (bs ! (k div 8)) (k mod 8)"
  unfolding le_join_def by (rule bit_le_fold)

lemma nth_le_split: "i < n \<Longrightarrow> bit (le_split n w ! i) j \<longleftrightarrow> j < 8 \<and> bit w (i * 8 + j)"
proof -
  have mask: "(0xFF :: 'a::len word) = mask 8" by (simp add: mask_eq_exp_minus_1)
  show "i < n \<Longrightarrow> ?thesis"
    unfolding le_split_def mask by (auto simp: bit_simps dest: bit_imp_le_length)
qed

lemma le_join_split:
  "LENGTH('a) \<le> 8 * n \<Longrightarrow> le_join (le_split n (w :: 'a::len word)) = w"
  by (rule bit_word_eqI) (simp add: bit_le_join nth_le_split less_mult_imp_div_less mult.commute)

lemma le_split_join:
  assumes "8 * length bs \<le> LENGTH('a)"
  shows "le_split (length bs) (le_join bs :: 'a::len word) = bs"
proof (rule nth_equalityI)
  fix i
  assume i: "i < length (le_split (length bs) (le_join bs :: 'a word))"
  show "le_split (length bs) (le_join bs :: 'a word) ! i = bs ! i"
  proof (rule bit_word_eqI)
    fix j
    assume "j < LENGTH(8)"
    with i assms show "bit (le_split (length bs) (le_join bs :: 'a word) ! i) j \<longleftrightarrow> bit (bs ! i) j"
      by (simp add: nth_le_split bit_le_join)
  qed
qed simp

subsection \<open>The writer\<close>

definition WriteU8 :: "byte \<Rightarrow> bytes \<Rightarrow> bytes" where
  "WriteU8 nValue m_buffer = m_buffer @ [nValue]"

definition WriteU16 :: "u16 \<Rightarrow> bytes \<Rightarrow> bytes" where
  "WriteU16 nValue m_buffer =
     m_buffer @ [ucast (nValue AND 0xFF), ucast (drop_bit 8 nValue AND 0xFF)]"

definition WriteU32 :: "u32 \<Rightarrow> bytes \<Rightarrow> bytes" where
  "WriteU32 nValue m_buffer = m_buffer @ le_split 4 nValue"

definition WriteU64 :: "u64 \<Rightarrow> bytes \<Rightarrow> bytes" where
  "WriteU64 nValue m_buffer = m_buffer @ le_split 8 nValue"

definition WriteBool :: "bool \<Rightarrow> bytes \<Rightarrow> bytes" where
  "WriteBool bValue = WriteU8 (if bValue then 1 else 0)"

text \<open>The length is cast to 32 bits.\<close>

definition WriteBytes :: "bytes \<Rightarrow> bytes \<Rightarrow> bytes" where
  "WriteBytes pData m_buffer =
     (let m_buffer' = WriteU32 (of_nat (length pData)) m_buffer
      in if length pData > 0 then m_buffer' @ pData else m_buffer')"

definition WriteString :: "bytes \<Rightarrow> bytes \<Rightarrow> bytes" where
  "WriteString strValue = WriteBytes strValue"

definition WriterTake :: "bytes \<Rightarrow> bytes \<times> bytes" where
  "WriterTake m_buffer = (m_buffer, [])"

definition WriterClear :: "bytes \<Rightarrow> bytes" where
  "WriterClear m_buffer = []"

subsection \<open>The reader\<close>

text \<open>A null pointer is replaced by the empty string; the size is kept as given.\<close>

definition CBinaryReader :: "bytes option \<Rightarrow> nat \<Rightarrow> creader" where
  "CBinaryReader pData nSize =
     \<lparr>m_pData = (case pData of None \<Rightarrow> [] | Some d \<Rightarrow> d), m_nSize = nSize, m_nPos = 0, m_bFailed = False\<rparr>"

definition ReaderOfString :: "bytes \<Rightarrow> creader" where
  "ReaderOfString strData = \<lparr>m_pData = strData, m_nSize = length strData, m_nPos = 0, m_bFailed = False\<rparr>"

definition ReadRaw :: "nat \<Rightarrow> creader \<Rightarrow> bytes read_result \<times> creader" where
  "ReadRaw nLen r =
     (if m_bFailed r \<or> m_nSize r - m_nPos r < nLen then (RdFail, r\<lparr>m_bFailed := True\<rparr>)
      else if length (m_pData r) < m_nPos r + nLen then (RdOutOfBounds, r)
      else (RdOk (take nLen (drop (m_nPos r) (m_pData r))), r\<lparr>m_nPos := m_nPos r + nLen\<rparr>))"

fun map_read :: "('a \<Rightarrow> 'b) \<Rightarrow> 'a read_result \<times> creader \<Rightarrow> 'b read_result \<times> creader" where
  "map_read f (RdOk x, r) = (RdOk (f x), r)"
| "map_read f (RdFail, r) = (RdFail, r)"
| "map_read f (RdOutOfBounds, r) = (RdOutOfBounds, r)"

text \<open>The first argument says whether the output pointer is non-null.\<close>

definition ReadU8 :: "bool \<Rightarrow> creader \<Rightarrow> byte read_result \<times> creader" where
  "ReadU8 pOut r = (if \<not> pOut then (RdFail, r\<lparr>m_bFailed := True\<rparr>) else map_read hd (ReadRaw 1 r))"

definition ReadU16 :: "bool \<Rightarrow> creader \<Rightarrow> u16 read_result \<times> creader" where
  "ReadU16 pOut r = (if \<not> pOut then (RdFail, r\<lparr>m_bFailed := True\<rparr>) else map_read le_join (ReadRaw 2 r))"

definition ReadU32 :: "bool \<Rightarrow> creader \<Rightarrow> u32 read_result \<times> creader" where
  "ReadU32 pOut r = (if \<not> pOut then (RdFail, r\<lparr>m_bFailed := True\<rparr>) else map_read le_join (ReadRaw 4 r))"

definition ReadU64 :: "bool \<Rightarrow> creader \<Rightarrow> u64 read_result \<times> creader" where
  "ReadU64 pOut r = (if \<not> pOut then (RdFail, r\<lparr>m_bFailed := True\<rparr>) else map_read le_join (ReadRaw 8 r))"

definition ReadBool :: "creader \<Rightarrow> bool read_result \<times> creader" where
  "ReadBool r = map_read (\<lambda>nValue. nValue \<noteq> 0) (ReadU8 True r)"

definition ReadBytes :: "creader \<Rightarrow> bytes read_result \<times> creader" where
  "ReadBytes r =
     (case ReadU32 True r of
        (RdOk nLen, r1) \<Rightarrow>
          (if m_bFailed r1 \<or> unat nLen > m_nSize r1 - m_nPos r1 then (RdFail, r1\<lparr>m_bFailed := True\<rparr>)
           else if length (m_pData r1) < m_nPos r1 + unat nLen then (RdOutOfBounds, r1)
           else (RdOk (take (unat nLen) (drop (m_nPos r1) (m_pData r1))),
                 r1\<lparr>m_nPos := m_nPos r1 + unat nLen\<rparr>))
      | (RdFail, r1) \<Rightarrow> (RdFail, r1)
      | (RdOutOfBounds, r1) \<Rightarrow> (RdOutOfBounds, r1))"

definition ReadString :: "creader \<Rightarrow> bytes read_result \<times> creader" where
  "ReadString r = ReadBytes r"

definition Position :: "creader \<Rightarrow> nat" where
  "Position r = m_nPos r"

definition Remaining :: "creader \<Rightarrow> nat" where
  "Remaining r = (if m_bFailed r then 0 else m_nSize r - m_nPos r)"

definition AtEnd :: "creader \<Rightarrow> bool" where
  "AtEnd r \<longleftrightarrow> m_bFailed r \<or> m_nPos r \<ge> m_nSize r"

definition Failed :: "creader \<Rightarrow> bool" where
  "Failed r \<longleftrightarrow> m_bFailed r"

subsection \<open>Single reads\<close>

definition reader_good :: "creader \<Rightarrow> bool" where
  "reader_good r \<longleftrightarrow> \<not> m_bFailed r \<and> m_nPos r \<le> m_nSize r \<and> m_nSize r = length (m_pData r)"

definition reader_rest :: "creader \<Rightarrow> bytes" where
  "reader_rest r = drop (m_nPos r) (m_pData r)"

lemma reader_good_ReaderOfString: "reader_good (ReaderOfString d) \<and> reader_rest (ReaderOfString d) = d"
  by (simp add: reader_good_def reader_rest_def ReaderOfString_def)

lemma ReadRaw_ok:
  assumes "reader_good r" and "n \<le> length (reader_rest r)"
  shows "ReadRaw n r = (RdOk (take n (reader_rest r)), r\<lparr>m_nPos := m_nPos r + n\<rparr>)"
    and "reader_good (r\<lparr>m_nPos := m_nPos r + n\<rparr>)"
    and "reader_rest (r\<lparr>m_nPos := m_nPos r + n\<rparr>) = drop n (reader_rest r)"
  using assms by (auto simp: ReadRaw_def reader_good_def reader_rest_def add.commute)

lemma ReadRaw_fail:
  "reader_good r \<Longrightarrow> length (reader_rest r) < n \<Longrightarrow> ReadRaw n r = (RdFail, r\<lparr>m_bFailed := True\<rparr>)"
  by (auto simp: ReadRaw_def reader_good_def reader_rest_def)

lemma ReadRaw_append:
  assumes "reader_good r" and "reader_rest r = xs @ s" and "length xs = n"
  obtains r' where "ReadRaw n r = (RdOk xs, r')" "reader_good r'" "reader_rest r' = s"
  using ReadRaw_ok[OF assms(1), of n] assms by simp

lemma ReadU32_append:
  assumes "reader_good r" and "reader_rest r = le_split 4 n @ s"
  obtains r' where "ReadU32 True r = (RdOk n, r')" "reader_good r'" "reader_rest r' = s"
proof -
  obtain r' where "ReadRaw 4 r = (RdOk (le_split 4 n), r')" "reader_good r'" "reader_rest r' = s"
    using ReadRaw_append[OF assms, of 4] by auto
  then show ?thesis
    using that[of r'] by (simp add: ReadU32_def le_join_split)
qed

lemma ReadBytes_append:
  assumes "reader_good r" and "reader_rest r = le_split 4 (of_nat (length xs) :: u32) @ xs @ s"
    and "length xs < 2 ^ 32"
  shows "\<exists>r'. ReadBytes r = (RdOk xs, r') \<and> reader_good r' \<and> reader_rest r' = s"
proof -
  from ReadU32_append[OF assms(1,2)] obtain r1 where
    r1: "ReadU32 True r = (RdOk (of_nat (length xs)), r1)" "reader_good r1" "reader_rest r1 = xs @ s"
    by blast
  have n: "unat (of_nat (length xs) :: u32) = length xs"
    using assms(3) by (simp add: unsigned_of_nat take_bit_nat_eq_self)
  have "length xs \<le> length (reader_rest r1)"
    using r1(3) by simp
  then have "\<not> m_bFailed r1" "length xs \<le> m_nSize r1 - m_nPos r1"
    "m_nPos r1 + length xs \<le> length (m_pData r1)"
    using r1(2) by (auto simp: reader_good_def reader_rest_def)
  then have "ReadBytes r = (RdOk (take (length xs) (reader_rest r1)), r1\<lparr>m_nPos := m_nPos r1 + length xs\<rparr>)"
    using r1(1) n by (simp add: ReadBytes_def reader_rest_def)
  then show ?thesis
    using ReadRaw_ok[OF r1(2), of "length xs"] r1(3) by simp
qed

lemma ReadBytes_trunc:
  assumes good: "reader_good r" and len: "length xs < 2 ^ 32"
    and pre: "strict_prefix (reader_rest r) (le_split 4 (of_nat (length xs) :: u32) @ xs)"
  shows "fst (ReadBytes r) = RdFail"
proof (cases "length (reader_rest r) < 4")
  case True
  then show ?thesis
    using ReadRaw_fail[OF good, of 4] by (simp add: ReadBytes_def ReadU32_def)
next
  case False
  let ?l = "le_split 4 (of_nat (length xs) :: u32)"
  from pre obtain t where t: "reader_rest r @ t = ?l @ xs" "t \<noteq> []"
    by (auto simp: strict_prefix_def prefix_def)
  define s where "s = drop 4 (reader_rest r)"
  have "take 4 (reader_rest r @ t) = ?l" "drop 4 (reader_rest r @ t) = xs"
    by (simp_all add: t(1))
  with False have s: "reader_rest r = ?l @ s" "s @ t = xs"
    by (simp_all add: s_def) (metis append_take_drop_id)
  from ReadU32_append[OF good s(1)] obtain r1 where
    r1: "ReadU32 True r = (RdOk (of_nat (length xs)), r1)" "reader_good r1" "reader_rest r1 = s"
    by blast
  have n: "unat (of_nat (length xs) :: u32) = length xs"
    using len by (simp add: unsigned_of_nat take_bit_nat_eq_self)
  have "length s < length xs"
    using s(2) t(2) by auto
  then have "m_nSize r1 - m_nPos r1 < length xs"
    using r1(2,3) by (auto simp: reader_good_def reader_rest_def)
  then show ?thesis
    using r1(1) n by (simp add: ReadBytes_def)
qed

subsection \<open>Messages of fields\<close>

datatype field = FU8 byte | FU16 u16 | FU32 u32 | FU64 u64 | FBool bool | FBytes bytes

datatype field_kind = KU8 | KU16 | KU32 | KU64 | KBool | KBytes

fun field_kind_of :: "field \<Rightarrow> field_kind" where
  "field_kind_of (FU8 _) = KU8"
| "field_kind_of (FU16 _) = KU16"
| "field_kind_of (FU32 _) = KU32"
| "field_kind_of (FU64 _) = KU64"
| "field_kind_of (FBool _) = KBool"
| "field_kind_of (FBytes _) = KBytes"

fun write_field :: "field \<Rightarrow> bytes \<Rightarrow> bytes" where
  "write_field (FU8 v) = WriteU8 v"
| "write_field (FU16 v) = WriteU16 v"
| "write_field (FU32 v) = WriteU32 v"
| "write_field (FU64 v) = WriteU64 v"
| "write_field (FBool v) = WriteBool v"
| "write_field (FBytes v) = WriteBytes v"

fun read_field :: "field_kind \<Rightarrow> creader \<Rightarrow> field read_result \<times> creader" where
  "read_field KU8 r = map_read FU8 (ReadU8 True r)"
| "read_field KU16 r = map_read FU16 (ReadU16 True r)"
| "read_field KU32 r = map_read FU32 (ReadU32 True r)"
| "read_field KU64 r = map_read FU64 (ReadU64 True r)"
| "read_field KBool r = map_read FBool (ReadBool r)"
| "read_field KBytes r = map_read FBytes (ReadBytes r)"

text \<open>A message is read field by field and given up at the first read that does not succeed.\<close>

fun read_fields :: "('k \<Rightarrow> 'r \<Rightarrow> 'f read_result \<times> 'r) \<Rightarrow> 'k list \<Rightarrow> 'r \<Rightarrow> 'f list read_result \<times> 'r" where
  "read_fields rd [] r = (RdOk [], r)"
| "read_fields rd (k # ks) r =
     (case rd k r of
        (RdOk f, r1) \<Rightarrow> (case read_fields rd ks r1 of
            (RdOk fs, r2) \<Rightarrow> (RdOk (f # fs), r2)
          | (RdFail, r2) \<Rightarrow> (RdFail, r2)
          | (RdOutOfBounds, r2) \<Rightarrow> (RdOutOfBounds, r2))
      | (RdFail, r1) \<Rightarrow> (RdFail, r1)
      | (RdOutOfBounds, r1) \<Rightarrow> (RdOutOfBounds, r1))"

fun field_fits :: "field \<Rightarrow> bool" where
  "field_fits (FBytes v) \<longleftrightarrow> length v < 2 ^ 32"
| "field_fits _ \<longleftrightarrow> True"

locale field_codec =
  fixes enc :: "'f \<Rightarrow> bytes"
    and kind :: "'f \<Rightarrow> 'k"
    and rd :: "'k \<Rightarrow> 'r \<Rightarrow> 'f read_result \<times> 'r"
    and good :: "'r \<Rightarrow> bool"
    and rest :: "'r \<Rightarrow> bytes"
    and fits :: "'f \<Rightarrow> bool"
  assumes rd_enc: "good r \<Longrightarrow> fits f \<Longrightarrow> rest r = enc f @ s \<Longrightarrow>
      \<exists>r'. rd (kind f) r = (RdOk f, r') \<and> good r' \<and> rest r' = s"
    and rd_trunc: "good r \<Longrightarrow> fits f \<Longrightarrow> strict_prefix (rest r) (enc f) \<Longrightarrow>
      fst (rd (kind f) r) = RdFail"
begin

lemma fields_roundtrip:
  "good r \<Longrightarrow> \<forall>f \<in> set fs. fits f \<Longrightarrow> rest r = concat (map enc fs) @ s \<Longrightarrow>
    \<exists>r'. read_fields rd (map kind fs) r = (RdOk fs, r') \<and> good r' \<and> rest r' = s"
proof (induction fs arbitrary: r)
  case (Cons f fs)
  then obtain r1 where "rd (kind f) r = (RdOk f, r1)" "good r1" "rest r1 = concat (map enc fs) @ s"
    using rd_enc[of r f "concat (map enc fs) @ s"] by auto
  with Cons.IH[of r1] Cons.prems(2) show ?case by auto
qed simp

lemma fields_truncated:
  "good r \<Longrightarrow> \<forall>f \<in> set fs. fits f \<Longrightarrow> strict_prefix (rest r) (concat (map enc fs)) \<Longrightarrow>
    fst (read_fields rd (map kind fs) r) = RdFail"
proof (induction fs arbitrary: r)
  case (Cons f fs)
  show ?case
  proof (cases "strict_prefix (rest r) (enc f)")
    case True
    with Cons.prems rd_trunc[of r f] show ?thesis
      by (auto split: prod.splits read_result.splits)
  next
    case False
    with Cons.prems(3) obtain t where t: "rest r = enc f @ t" "strict_prefix t (concat (map enc fs))"
      by (auto simp: strict_prefix_def prefix_append)
    then obtain r1 where "rd (kind f) r = (RdOk f, r1)" "good r1" "rest r1 = t"
      using rd_enc[of r f t] Cons.prems by auto
    with t Cons.IH[of r1] Cons.prems(2) show ?thesis
      by (auto split: prod.splits read_result.splits)
  qed
qed simp

end

definition field_bytes :: "field \<Rightarrow> bytes" where
  "field_bytes f = write_field f []"

lemma write_field_append: "write_field f b = b @ field_bytes f"
  by (cases f) (simp_all add: field_bytes_def WriteU8_def WriteU16_def WriteU32_def WriteU64_def
      WriteBool_def WriteBytes_def Let_def)

lemma WriteU16_le_split: "WriteU16 v b = b @ le_split 2 v"
  by (simp add: WriteU16_def le_split_def numeral_2_eq_2)

lemma field_bytes_simps:
  "field_bytes (FU8 v) = [v]" "field_bytes (FU16 h) = le_split 2 h" "field_bytes (FU32 w) = le_split 4 w"
  "field_bytes (FU64 d) = le_split 8 d" "field_bytes (FBool b) = [if b then 1 else 0]"
  "field_bytes (FBytes xs) = le_split 4 (of_nat (length xs) :: u32) @ xs"
  by (simp_all add: field_bytes_def WriteU8_def WriteU16_le_split WriteU32_def WriteU64_def
      WriteBool_def WriteBytes_def Let_def)

lemma read_field_field_bytes:
  assumes "reader_good r" and "field_fits f" and "reader_rest r = field_bytes f @ s"
  shows "\<exists>r'. read_field (field_kind_of f) r = (RdOk f, r') \<and> reader_good r' \<and> reader_rest r' = s"
proof (cases f)
  case (FBytes xs)
  with assms ReadBytes_append[of r xs s] show ?thesis by (auto simp: field_bytes_simps)
qed (use assms in \<open>auto simp: field_bytes_simps ReadU8_def ReadU16_def ReadU32_def ReadU64_def ReadBool_def
      le_join_split elim!: ReadRaw_append[of r _ s]\<close>)

lemma strict_prefix_length_less: "strict_prefix xs ys \<Longrightarrow> length xs < length ys"
  by (rule prefix_length_less)

lemma read_field_truncated:
  assumes "reader_good r" and "field_fits f" and "strict_prefix (reader_rest r) (field_bytes f)"
  shows "fst (read_field (field_kind_of f) r) = RdFail"
proof (cases f)
  case (FBytes xs)
  with assms ReadBytes_trunc[of r xs] have "fst (ReadBytes r) = RdFail" by (simp add: field_bytes_simps)
  with FBytes show ?thesis by (cases "ReadBytes r") auto
qed (use assms(1) ReadRaw_fail[OF assms(1)] strict_prefix_length_less[OF assms(3)] in
    \<open>simp_all add: field_bytes_simps ReadU8_def ReadU16_def ReadU32_def ReadU64_def ReadBool_def\<close>)

interpretation fields: field_codec field_bytes field_kind_of read_field reader_good reader_rest field_fits
  by unfold_locales (rule read_field_field_bytes read_field_truncated; assumption)+

definition write_fields :: "field list \<Rightarrow> bytes" where
  "write_fields fs = fold write_field fs []"

lemma fold_write_field: "fold write_field fs b = b @ concat (map field_bytes fs)"
  by (induction fs arbitrary: b) (simp_all add: write_field_append)

lemma write_fields_eq: "write_fields fs = concat (map field_bytes fs)"
  by (simp add: write_fields_def fold_write_field)

subsection \<open>Memory safety and failure\<close>

definition reader_safe :: "creader \<Rightarrow> bool" where
  "reader_safe r \<longleftrightarrow> m_nPos r \<le> m_nSize r \<and> m_nSize r = length (m_pData r)"

definition read_safe :: "'a read_result \<times> creader \<Rightarrow> creader \<Rightarrow> bool" where
  "read_safe p r \<longleftrightarrow> fst p \<noteq> RdOutOfBounds \<and> reader_safe (snd p) \<and> m_nPos r \<le> m_nPos (snd p)"

lemma read_safe_map [simp]: "read_safe (map_read f p) r \<longleftrightarrow> read_safe p r"
  by (cases "(f, p)" rule: map_read.cases) (auto simp: read_safe_def)

lemma read_safe_ReadRaw: "reader_safe r \<Longrightarrow> read_safe (ReadRaw n r) r"
  by (auto simp: read_safe_def reader_safe_def ReadRaw_def)

lemma read_safe_fail: "reader_safe r \<Longrightarrow> read_safe (RdFail, r\<lparr>m_bFailed := True\<rparr>) r"
  by (simp add: read_safe_def reader_safe_def)

lemma read_safe_ReadBytes:
  assumes "reader_safe r"
  shows "read_safe (ReadBytes r) r"
proof -
  have "read_safe (ReadU32 True r) r"
    using assms by (simp add: ReadU32_def read_safe_ReadRaw)
  then show ?thesis
    by (auto simp: ReadBytes_def read_safe_def reader_safe_def
        split: prod.splits read_result.splits)
qed

lemma read_safe_field: "reader_safe r \<Longrightarrow> read_safe (read_field k r) r"
  by (cases k) (simp_all add: ReadU8_def ReadU16_def ReadU32_def ReadU64_def ReadBool_def
      read_safe_ReadRaw read_safe_ReadBytes)

lemma map_read_failed [simp]: "p = (RdFail, r') \<Longrightarrow> map_read f p = (RdFail, r')"
  by simp

lemma ReadRaw_failed: "m_bFailed r \<Longrightarrow> ReadRaw n r = (RdFail, r)"
  by (simp add: ReadRaw_def)

subsection \<open>Properties\<close>

text \<open>C28. Round trip: a message written field by field and read back with the same kinds gives the
  same fields, for every sequence of fields whose strings are shorter than 4 GiB, whatever
  follows it in the data; the reader then stands exactly behind the message.\<close>

theorem serialization_roundtrip:
  assumes "\<forall>f \<in> set fs. field_fits f"
  shows "\<exists>r. read_fields read_field (map field_kind_of fs) (ReaderOfString (write_fields fs @ s)) = (RdOk fs, r)
           \<and> reader_rest r = s \<and> \<not> Failed r \<and> Remaining r = length s"
proof -
  have good: "reader_good (ReaderOfString d)" and rest: "reader_rest (ReaderOfString d) = d" for d
    by (simp_all add: reader_good_ReaderOfString)
  obtain r where "read_fields read_field (map field_kind_of fs) (ReaderOfString (write_fields fs @ s)) = (RdOk fs, r)"
    and r: "reader_good r" "reader_rest r = s"
    using fields.fields_roundtrip[OF good assms, of "write_fields fs @ s" s] by (auto simp: rest write_fields_eq)
  moreover have "Remaining r = length (reader_rest r)"
    using r(1) by (simp add: Remaining_def reader_rest_def reader_good_def)
  ultimately show ?thesis
    by (auto simp: Failed_def reader_good_def)
qed

theorem serialization_roundtrip_witness:
  "\<exists>r. read_fields read_field [KU16, KBytes] (ReaderOfString (write_fields [FU16 513, FBytes [7, 8]] @ [9]))
     = (RdOk [FU16 513, FBytes [7, 8]], r) \<and> reader_rest r = [9]"
  using serialization_roundtrip[of "[FU16 513, FBytes [7, 8]]" "[9]"] by auto

text \<open>C29. Truncation: reading a message of which only a proper prefix has arrived always reports
  failure; it never returns a wrong value and never leaves the data.\<close>

theorem serialization_truncated:
  assumes "\<forall>f \<in> set fs. field_fits f" and "strict_prefix d (write_fields fs)"
  shows "fst (read_fields read_field (map field_kind_of fs) (ReaderOfString d)) = RdFail"
  using fields.fields_truncated[of "ReaderOfString d" fs] reader_good_ReaderOfString[of d] assms
  by (simp add: write_fields_eq)

theorem serialization_truncated_witness:
  "fst (read_fields read_field [KU32] (ReaderOfString [1, 2, 3])) = RdFail"
proof -
  have "write_fields [FU32 67305985] = [1, 2, 3, 4]"
    by (simp add: write_fields_def WriteU32_def le_split_def upt_rec)
  then show ?thesis
    using serialization_truncated[of "[FU32 67305985]" "[1, 2, 3]"] by (simp add: strict_prefix_def)
qed

text \<open>A reader over a valid buffer never touches memory outside it and never moves backwards,
  whatever sequence of fields is requested and whatever the (possibly hostile) data says.\<close>

theorem reads_stay_in_bounds:
  assumes "reader_safe r"
  shows "fst (read_fields read_field ks r) \<noteq> RdOutOfBounds
       \<and> reader_safe (snd (read_fields read_field ks r))
       \<and> Position r \<le> Position (snd (read_fields read_field ks r))"
  using assms
proof (induction ks arbitrary: r)
  case (Cons k ks)
  obtain x r1 where x: "read_field k r = (x, r1)" by fastforce
  with read_safe_field[OF Cons.prems, of k]
  have r1: "x \<noteq> RdOutOfBounds" "reader_safe r1" "m_nPos r \<le> m_nPos r1" by (auto simp: read_safe_def)
  with x Cons.IH[OF r1(2)] show ?case
    by (cases x) (auto simp: Position_def split: prod.splits read_result.splits)
qed (simp add: Position_def)

theorem reads_stay_in_bounds_witness:
  "fst (read_fields read_field [KBytes, KU8] (ReaderOfString [255, 255, 255, 255, 0])) \<noteq> RdOutOfBounds"
  using reads_stay_in_bounds[of "ReaderOfString [255, 255, 255, 255, 0]" "[KBytes, KU8]"]
  by (simp add: reader_safe_def ReaderOfString_def)

text \<open>The header promises that a read without enough data keeps the position. \<open>ReadBytes\<close> does
  not: when the length prefix is there and the body is not, it fails four bytes further on.\<close>

theorem ReadBytes_failure_moves:
  assumes "reader_good r" and "reader_rest r = le_split 4 (n :: u32) @ s" and "length s < unat n"
  shows "fst (ReadBytes r) = RdFail \<and> Position (snd (ReadBytes r)) = Position r + 4"
proof -
  have len: "4 \<le> length (reader_rest r)" using assms(2) by simp
  note rd = ReadRaw_ok[OF assms(1) len]
  have raw: "ReadU32 True r = (RdOk n, r\<lparr>m_nPos := m_nPos r + 4\<rparr>)"
    using rd(1) assms(2) by (simp add: ReadU32_def le_join_split)
  have "length (reader_rest r) = m_nSize r - m_nPos r"
    using assms(1) by (simp add: reader_good_def reader_rest_def)
  with assms(2,3) have "m_nSize r - (m_nPos r + 4) < unat n" by simp
  with raw show ?thesis
    by (auto simp: ReadBytes_def Position_def)
qed

theorem ReadBytes_failure_moves_witness:
  "Position (snd (ReadBytes (ReaderOfString [5, 0, 0, 0, 65]))) = 4"
proof -
  have "le_split 4 (5 :: u32) = [5, 0, 0, 0]" by (simp add: le_split_def upt_rec)
  then show ?thesis
    using ReadBytes_failure_moves[of "ReaderOfString [5, 0, 0, 0, 65]" 5 "[65]"]
      reader_good_ReaderOfString[of "[5, 0, 0, 0, 65]"]
    by (simp add: Position_def ReaderOfString_def)
qed

text \<open>The constructor replaces a null pointer by the empty string but keeps the size it was
  given, so the first read of a reader made from a null pointer and a positive size leaves
  the data.\<close>

theorem null_reader_out_of_bounds:
  assumes "0 < n"
  shows "fst (ReadU8 True (CBinaryReader None n)) = RdOutOfBounds"
  using assms by (simp add: ReadU8_def ReadRaw_def CBinaryReader_def)

theorem null_reader_out_of_bounds_witness: "fst (ReadU8 True (CBinaryReader None 3)) = RdOutOfBounds"
  by (rule null_reader_out_of_bounds) simp

end
