(* ===== verification/ExampleProtocol.thy ===== *)
theory ExampleProtocol
  imports MessageRouter Serialization
begin

unbundle bit_operations_syntax

text \<open>
  The wire protocol of the example server (\<open>src/ServerExample/Protocol/ExampleProtocol.cpp\<close>)
  and its message extractor.  A packet is a four-byte length in network order, a command
  byte and a payload; the length counts the command and the payload.  The extractor is the
  framing that \<open>CMessageRouter\<close> is used with: the interpretation below discharges the
  extractor contract, and the reassembly property of the router follows.
\<close>

record packet =
  command :: byte
  payload :: bytes

definition kCmdPing :: byte where "kCmdPing = 1"
definition kCmdEcho :: byte where "kCmdEcho = 2"
definition kCmdPong :: byte where "kCmdPong = 3"

definition kHeaderSize :: nat where "kHeaderSize = 4"
definition kMaxPacketSize :: nat where "kMaxPacketSize = 1 * 1024 * 1024"

text \<open>\<open>htonl\<close> followed by copying out the four bytes, and copying in followed by \<open>ntohl\<close>:
  the most significant byte travels first.\<close>

definition net32 :: "u32 \<Rightarrow> bytes" where
  "net32 len = rev (le_split 4 len)"

definition host32 :: "bytes \<Rightarrow> u32" where
  "host32 bs = le_join (rev bs)"

text \<open>The flag says whether both output pointers are non-null; the second component is what is
  stored in \<open>consumed\<close>.\<close>

definition ParsePacket :: "bool \<Rightarrow> bytes \<Rightarrow> parse_result \<times> nat \<times> packet option" where
  "ParsePacket outs data =
     (if \<not> outs then (KInvalid, 0, None)
      else if length data < kHeaderSize then (KNeedMore, 0, None)
      else
        (let len = unat (host32 (take 4 data))
         in if len < 1 then (KInvalid, 0, None)
            else if len > kMaxPacketSize then (KInvalid, 0, None)
            else
              (let total = kHeaderSize + len
               in if length data < total then (KNeedMore, 0, None)
                  else (KOk, total,
                        Some \<lparr>command = data ! kHeaderSize,
                              payload = take (len - 1) (drop (kHeaderSize + 1) data)\<rparr>))))"

text \<open>The length is computed in 32 bits.\<close>

definition BuildPacket :: "byte \<Rightarrow> bytes \<Rightarrow> bytes" where
  "BuildPacket cmd pl = net32 (of_nat (1 + length pl)) @ [cmd] @ pl"

definition BuildPing :: bytes where
  "BuildPing = BuildPacket kCmdPing [112, 105, 110, 103]"

definition BuildPong :: bytes where
  "BuildPong = BuildPacket kCmdPong [112, 111, 110, 103]"

text \<open>The extractor on a non-null data pointer.\<close>

definition MessageExtractor :: "bytes \<Rightarrow> extracted" where
  "MessageExtractor pData =
     (let more = \<lparr>x_result = KNeedMore, x_step = 0, x_type = 0, x_payload = []\<rparr>
      in if length pData < kHeaderSize then more
         else
           (let nLenField = unat (host32 (take 4 pData))
            in if nLenField < 1 \<or> nLenField > kMaxPacketSize then more\<lparr>x_result := KInvalid\<rparr>
               else
                 (let nTotal = kHeaderSize + nLenField
                  in if length pData < nTotal then more
                     else \<lparr>x_result = KOk, x_step = nTotal, x_type = uint (pData ! kHeaderSize),
                           x_payload = take (nLenField - 1) (drop (kHeaderSize + 1) pData)\<rparr>)))"

subsection \<open>Building and parsing\<close>

lemma host32_net32 [simp]: "host32 (net32 n) = n"
  by (simp add: host32_def net32_def le_join_split)

lemma length_net32 [simp]: "length (net32 n) = 4"
  by (simp add: net32_def)

definition packet_fits :: "packet \<Rightarrow> bool" where
  "packet_fits p \<longleftrightarrow> 1 + length (payload p) \<le> kMaxPacketSize"

definition packet_bytes :: "packet \<Rightarrow> bytes" where
  "packet_bytes p = BuildPacket (command p) (payload p)"

definition packet_msg :: "packet \<Rightarrow> int \<times> bytes" where
  "packet_msg p = (uint (command p), payload p)"

lemma length_packet_bytes: "length (packet_bytes p) = 5 + length (payload p)"
  by (simp add: packet_bytes_def BuildPacket_def)

lemma packet_layout:
  assumes "packet_fits p" and d: "d = packet_bytes p @ s"
  shows "unat (host32 (take 4 d)) = 1 + length (payload p)"
    and "d ! 4 = command p" and "take (length (payload p)) (drop (Suc 4) d) = payload p"
    and "length d = 5 + length (payload p) + length s"
    and "\<not> kMaxPacketSize < 1 + length (payload p)"
proof -
  have "unat (of_nat (1 + length (payload p)) :: u32) = 1 + length (payload p)"
    using assms(1) unfolding packet_fits_def kMaxPacketSize_def
    by (subst unsigned_of_nat) (simp add: take_bit_nat_eq_self)
  then show "unat (host32 (take 4 d)) = 1 + length (payload p)"
    unfolding d packet_bytes_def BuildPacket_def by simp
qed (use assms in \<open>simp_all add: packet_bytes_def BuildPacket_def nth_append length_packet_bytes packet_fits_def\<close>)

lemma ParsePacket_packet:
  assumes "packet_fits p"
  shows "ParsePacket True (packet_bytes p @ s) = (KOk, length (packet_bytes p), Some p)"
proof -
  obtain d where d: "d = packet_bytes p @ s" by blast
  note lay = packet_layout[OF assms d]
  have "ParsePacket True d = (KOk, length (packet_bytes p), Some p)"
    using lay by (simp add: ParsePacket_def kHeaderSize_def length_packet_bytes)
  then show ?thesis by (simp add: d)
qed

lemma MessageExtractor_packet:
  assumes "packet_fits p"
  shows "MessageExtractor (packet_bytes p @ s) =
    \<lparr>x_result = KOk, x_step = length (packet_bytes p), x_type = fst (packet_msg p),
     x_payload = snd (packet_msg p)\<rparr>"
proof -
  obtain d where d: "d = packet_bytes p @ s" by blast
  note lay = packet_layout[OF assms d]
  have "MessageExtractor d = \<lparr>x_result = KOk, x_step = length (packet_bytes p),
      x_type = fst (packet_msg p), x_payload = snd (packet_msg p)\<rparr>"
    using lay by (simp add: MessageExtractor_def kHeaderSize_def length_packet_bytes packet_msg_def)
  then show ?thesis by (simp add: d)
qed

lemma MessageExtractor_prefix:
  assumes "packet_fits p" and "strict_prefix d (packet_bytes p)"
  shows "x_result (MessageExtractor d) = KNeedMore"
proof (cases "length d < 4")
  case False
  from assms(2) obtain t where t: "packet_bytes p = d @ t" "t \<noteq> []"
    by (auto simp: strict_prefix_def prefix_def)
  then have "take 4 d = take 4 (packet_bytes p)" using False by simp
  then have "unat (host32 (take 4 d)) = 1 + length (payload p)" "\<not> kMaxPacketSize < 1 + length (payload p)"
    using packet_layout(1,5)[OF assms(1), of "packet_bytes p" "[]"] by simp_all
  moreover have "length d < 5 + length (payload p)"
    using arg_cong[OF t(1), of length] t(2) length_packet_bytes[of p] by simp
  ultimately show ?thesis
    using False by (simp add: MessageExtractor_def kHeaderSize_def)
qed (simp add: MessageExtractor_def kHeaderSize_def)

interpretation example: framing MessageExtractor packet_bytes packet_msg packet_fits
proof (unfold_locales, goal_cases)
  case (1 m s)
  then show ?case by (rule MessageExtractor_packet)
next
  case (2 m p)
  then show ?case by (rule MessageExtractor_prefix)
next
  case (3 m)
  then show ?case using length_packet_bytes[of m] by auto
qed

text \<open>The extractor never claims more than there is.\<close>

lemma MessageExtractor_step:
  "x_result (MessageExtractor d) = KOk \<Longrightarrow> 5 \<le> x_step (MessageExtractor d) \<and> x_step (MessageExtractor d) \<le> length d"
  by (auto simp: MessageExtractor_def kHeaderSize_def Let_def split: if_splits)

lemma router_no_throw:
  assumes "\<And>h i t p s. m_fnExtractor (fst (run h i t p s)) = m_fnExtractor (fst s)"
    and "m_fnExtractor (fst s) = Some MessageExtractor"
  shows "fst (OnData run nId pData s) = None"
proof -
  have "fst (extract_loop run nId p 0 s') \<le> length p" if "m_fnExtractor (fst s') = Some MessageExtractor" for p s'
    using that by (intro extract_loop_bounded[OF assms(1)]) (auto simp: MessageExtractor_step)
  then show ?thesis
    using assms(2) OnData_throws[of run nId pData s] by (metis leD option.exhaust router_error.exhaust)
qed

subsection \<open>Properties\<close>

text \<open>C1. Half packets and sticky packets: however the network cuts the byte stream of a connection
  into arrivals, the router delivers exactly the packets that were sent, in order, to the
  handlers of their type, keeps nothing back at the end, and leaves the buffers of other
  connections alone.\<close>

theorem stream_reassembly:
  assumes "m_fnExtractor r = Some MessageExtractor" and "\<forall>p \<in> set ps. packet_fits p"
    and "concat ds = concat (map packet_bytes ps)" and "sm_find (m_mapBuffers r) nId = None"
  shows "\<exists>r'. fold (\<lambda>d s. snd (OnData (outer_run f) nId (Some d) s)) ds (r, e)
           = (r', fold (deliver f r nId) (map packet_msg ps) e)
         \<and> sm_find (m_mapBuffers r') nId = None
         \<and> (\<forall>k. k \<noteq> nId \<longrightarrow> sm_find (m_mapBuffers r') k = sm_find (m_mapBuffers r) k)"
proof -
  have "example.pending [] ps" by (simp add: example.pending_def)
  with example.OnData_chunks[OF assms(1,2), of "[]" ds nId f e] assms(3,4) show ?thesis
    by fastforce
qed

definition demo_router :: "nat router" where
  "demo_router = SetExtractor (Some MessageExtractor) (snd (RegisterHandler 2 (Some 7) CMessageRouter))"

theorem stream_reassembly_witness:
  "\<exists>r'. fold (\<lambda>d s. snd (OnData (outer_run (\<lambda>h i t p e. e @ [(h, i, t, p)])) 5 (Some d) s))
      [[0, 0], [0, 2, 2, 65, 0, 0, 0], [1, 2]] (demo_router, [])
    = (r', [(7, 5, 2, [65]), (7, 5, 2, [])]) \<and> sm_find (m_mapBuffers r') 5 = None"
proof -
  let ?ps = "[\<lparr>command = 2, payload = [65]\<rparr>, \<lparr>command = 2, payload = []\<rparr>]"
  have ext: "m_fnExtractor demo_router = Some MessageExtractor" "sm_find (m_mapBuffers demo_router) 5 = None"
    by (simp_all add: demo_router_def SetExtractor_def RegisterHandler_def CMessageRouter_def)
  have bytes: "concat [[0, 0], [0, 2, 2, 65, 0, 0, 0], [1, 2]] = concat (map packet_bytes ?ps)"
    by (simp add: packet_bytes_def BuildPacket_def net32_def le_split_def upt_rec)
  have "deliver (\<lambda>h i t p e. e @ [(h, i, t, p)]) demo_router 5 (2, p) e = e @ [(7, 5, 2, p)]" for p e
    by (simp add: deliver_def reg.handlers_def demo_router_def SetExtractor_def RegisterHandler_def
        CMessageRouter_def reg_add_def Let_def reg_targets_def
        ids_of_def List.map_filter_simps sm_find_def)
  then show ?thesis
    using stream_reassembly[OF ext(1) _ bytes ext(2), of "\<lambda>h i t p e. e @ [(h, i, t, p)]" "[]"]
    by (auto simp: packet_fits_def kMaxPacketSize_def packet_msg_def)
qed

text \<open>Parsing what was built gives the packet back and consumes exactly its bytes, whatever
  follows, for every payload that fits the packet limit.\<close>

theorem parse_build_roundtrip:
  assumes "1 + length pl \<le> kMaxPacketSize"
  shows "ParsePacket True (BuildPacket cmd pl @ s) =
    (KOk, 5 + length pl, Some \<lparr>command = cmd, payload = pl\<rparr>)"
  using ParsePacket_packet[of "\<lparr>command = cmd, payload = pl\<rparr>" s] assms
    length_packet_bytes[of "\<lparr>command = cmd, payload = pl\<rparr>"]
  by (simp add: packet_fits_def packet_bytes_def)

theorem parse_build_roundtrip_witness:
  "ParsePacket True (BuildPacket 2 [104, 105] @ [9]) = (KOk, 7, Some \<lparr>command = 2, payload = [104, 105]\<rparr>)"
  using parse_build_roundtrip[of "[104, 105]" 2 "[9]"] by (simp add: kMaxPacketSize_def)

text \<open>The zero-copy extractor agrees with \<open>ParsePacket\<close> on all data, malformed or not.\<close>

theorem extractor_agrees_with_parser:
  "ParsePacket True d =
     (x_result (MessageExtractor d), x_step (MessageExtractor d),
      if x_result (MessageExtractor d) = KOk
      then Some \<lparr>command = word_of_int (x_type (MessageExtractor d)), payload = x_payload (MessageExtractor d)\<rparr>
      else None)"
  by (simp add: ParsePacket_def MessageExtractor_def Let_def)

text \<open>Hostile input: with this extractor \<open>OnData\<close> never throws, whatever bytes arrive and
  whatever the handlers do to the router short of exchanging the extractor.\<close>

theorem example_router_never_throws:
  assumes "\<And>h i t p s. m_fnExtractor (fst (run h i t p s)) = m_fnExtractor (fst s)"
    and "m_fnExtractor (fst s) = Some MessageExtractor"
  shows "fst (OnData run nId pData s) = None"
  by (rule router_no_throw) (fact assms)+

theorem example_router_never_throws_witness:
  "fst (OnData (\<lambda>h i t p s. (OnClose i (fst s), snd s)) 3 (Some [0, 0, 0, 2, 2, 65, 0, 0]) (demo_router, ())) = None"
  by (rule example_router_never_throws)
    (simp_all add: OnClose_def demo_router_def SetExtractor_def)

text \<open>\<open>BuildPacket\<close> does not check the limit its peer enforces: a payload of 1 MiB or more (short
  of 4 GiB) is built into a packet that every reader rejects as invalid.\<close>

theorem oversized_packet_rejected:
  assumes "kMaxPacketSize \<le> length pl" and "1 + length pl < 2 ^ 32"
  shows "fst (ParsePacket True (BuildPacket cmd pl)) = KInvalid"
proof -
  have "unat (of_nat (1 + length pl) :: u32) = 1 + length pl"
    using assms(2) by (subst unsigned_of_nat) (simp add: take_bit_nat_eq_self)
  then have "unat (host32 (take 4 (BuildPacket cmd pl))) = 1 + length pl"
    unfolding BuildPacket_def by simp
  moreover have "\<not> length (BuildPacket cmd pl) < 4" by (simp add: BuildPacket_def)
  ultimately show ?thesis
    using assms(1) by (simp add: ParsePacket_def kHeaderSize_def)
qed

theorem oversized_packet_rejected_witness:
  "fst (ParsePacket True (BuildPacket 2 (replicate 1048576 0))) = KInvalid"
  by (rule oversized_packet_rejected) (simp_all add: kMaxPacketSize_def)

end
