(* ===== verification/Buffer.thy ===== *)
theory Buffer
  imports Prelude
begin

text \<open>
  \<open>CBuffer\<close> (\<open>src/Common/Network/Buffer.h\<close>, \<open>Buffer.cpp\<close>): a vector with a read and a
  write index.  The readable region is the bytes between the two indices; appending makes
  room by using the free tail, by moving the readable bytes to the front, or by doubling
  the vector.  The doubling loop is a \<^theory_text>\<open>partial_function\<close>: \<^const>\<open>None\<close> means that it
  does not return.
\<close>

record cbuffer =
  m_vecData :: bytes
  m_nReadIndex :: nat
  m_nWriteIndex :: nat

definition CBuffer :: "nat \<Rightarrow> cbuffer" where
  "CBuffer initialSize = \<lparr>m_vecData = replicate initialSize 0, m_nReadIndex = 0, m_nWriteIndex = 0\<rparr>"

definition Readable :: "cbuffer \<Rightarrow> nat" where
  "Readable b = m_nWriteIndex b - m_nReadIndex b"

definition Writable :: "cbuffer \<Rightarrow> nat" where
  "Writable b = length (m_vecData b) - m_nWriteIndex b"

definition Capacity :: "cbuffer \<Rightarrow> nat" where
  "Capacity b = length (m_vecData b)"

definition ToString :: "cbuffer \<Rightarrow> bytes" where
  "ToString b = take (Readable b) (drop (m_nReadIndex b) (m_vecData b))"

text \<open>\<open>memcpy\<close> / \<open>memmove\<close> of \<open>xs\<close> to position \<open>i\<close> of a vector that has room for it.\<close>

definition memcpy_at :: "nat \<Rightarrow> bytes \<Rightarrow> bytes \<Rightarrow> bytes" where
  "memcpy_at i xs v = take i v @ xs @ drop (i + length xs) v"

text \<open>The loop \<open>while (nNewSize - m_nWriteIndex < nLen) nNewSize *= 2\<close>.\<close>

partial_function (option) grow_size :: "nat \<Rightarrow> nat \<Rightarrow> nat \<Rightarrow> nat option" where
  "grow_size w nLen nNewSize =
     (if nNewSize - w < nLen then grow_size w nLen (nNewSize * 2) else Some nNewSize)"

definition EnsureWritable :: "cbuffer \<Rightarrow> nat \<Rightarrow> cbuffer option" where
  "EnsureWritable b nLen =
     (if Writable b \<ge> nLen then Some b
      else if m_nReadIndex b + Writable b \<ge> nLen then
        Some (b\<lparr>m_vecData := memcpy_at 0 (ToString b) (m_vecData b),
                m_nWriteIndex := Readable b, m_nReadIndex := 0\<rparr>)
      else (case grow_size (m_nWriteIndex b) nLen (length (m_vecData b) * 2) of
              None \<Rightarrow> None
            | Some nNewSize \<Rightarrow>
                Some (b\<lparr>m_vecData := memcpy_at 0 (ToString b) (replicate nNewSize 0),
                        m_nWriteIndex := Readable b, m_nReadIndex := 0\<rparr>)))"

definition Append :: "cbuffer \<Rightarrow> bytes \<Rightarrow> cbuffer option" where
  "Append b pData =
     (case EnsureWritable b (length pData) of
        None \<Rightarrow> None
      | Some b' \<Rightarrow> Some (b'\<lparr>m_vecData := memcpy_at (m_nWriteIndex b') pData (m_vecData b'),
                            m_nWriteIndex := m_nWriteIndex b' + length pData\<rparr>))"

definition RetrieveAll :: "cbuffer \<Rightarrow> cbuffer" where
  "RetrieveAll b = b\<lparr>m_nReadIndex := 0, m_nWriteIndex := 0\<rparr>"

definition Retrieve :: "cbuffer \<Rightarrow> nat \<Rightarrow> cbuffer" where
  "Retrieve b nLen =
     (if nLen \<ge> Readable b then RetrieveAll b
      else b\<lparr>m_nReadIndex := m_nReadIndex b + nLen\<rparr>)"

subsection \<open>Invariant\<close>

definition buf_inv :: "cbuffer \<Rightarrow> bool" where
  "buf_inv b \<longleftrightarrow> m_nReadIndex b \<le> m_nWriteIndex b \<and> m_nWriteIndex b \<le> length (m_vecData b)
     \<and> 0 < length (m_vecData b)"

lemma length_memcpy_at: "i + length xs \<le> length v \<Longrightarrow> length (memcpy_at i xs v) = length v"
  by (simp add: memcpy_at_def)

lemma length_ToString: "buf_inv b \<Longrightarrow> length (ToString b) = Readable b"
  by (auto simp: ToString_def Readable_def buf_inv_def min_def)

lemma buf_inv_CBuffer: "0 < n \<Longrightarrow> buf_inv (CBuffer n)"
  by (simp add: buf_inv_def CBuffer_def)

lemma ToString_CBuffer: "ToString (CBuffer n) = []"
  by (simp add: ToString_def CBuffer_def Readable_def)

subsection \<open>The growth loop\<close>

lemma grow_size_unfold:
  "grow_size w n s = (if s - w < n then grow_size w n (s * 2) else Some s)"
  by (rule grow_size.simps)

text \<open>From a positive size the loop stops at the first doubling that leaves room, and that is
  less than twice what is needed unless the first doubling is already enough.\<close>

lemma grow_size_Some:
  assumes "0 < s"
  shows "\<exists>s'. grow_size w n s = Some s' \<and> n \<le> s' - w \<and> s \<le> s' \<and> s' \<le> max s (2 * (w + n))
           \<and> (\<exists>k. s' = s * 2 ^ k)"
  using assms
proof (induction "w + n - s" arbitrary: s rule: less_induct)
  case less
  show ?case
  proof (cases "s - w < n")
    case True
    with less.prems have "w + n - s * 2 < w + n - s" and "0 < s * 2" by arith+
    from less.hyps[OF this] obtain s' k where s': "grow_size w n (s * 2) = Some s'"
      "n \<le> s' - w" "s * 2 \<le> s'" "s' \<le> max (s * 2) (2 * (w + n))" "s' = s * 2 * 2 ^ k"
      by blast
    moreover have "grow_size w n s = grow_size w n (s * 2)"
      using True by (simp add: grow_size_unfold[of w n s])
    moreover have "s * 2 * 2 ^ k = s * 2 ^ Suc k" by simp
    ultimately show ?thesis
      using True by (intro exI[of _ s']) (auto intro!: exI[of _ "Suc k"])
  next
    case False
    then show ?thesis
      by (simp add: grow_size_unfold[of w n s] exI[of _ 0])
  qed
qed

text \<open>From size zero the loop doubles zero for ever.\<close>

lemma grow_size_zero:
  assumes "0 < n"
  shows "grow_size 0 n 0 = None"
proof (rule ccontr)
  assume "grow_size 0 n 0 \<noteq> None"
  then obtain r where ret: "grow_size 0 n 0 = Some r" by blast
  have "\<not> (0 < n \<and> (0::nat) = 0 \<and> (0::nat) = 0)"
  proof (rule grow_size.raw_induct[where P = "\<lambda>w n s r. \<not> (0 < n \<and> w = 0 \<and> s = 0)", OF _ ret])
    fix f and w n s r :: nat
    assume IH: "\<And>w n s r. f w n s = Some r \<Longrightarrow> \<not> (0 < n \<and> w = 0 \<and> s = 0)"
      and eq: "(if s - w < n then f w n (s * 2) else Some s) = Some r"
    show "\<not> (0 < n \<and> w = 0 \<and> s = 0)"
      using IH[of w n "s * 2" r] eq by auto
  qed
  with assms show False by simp
qed

subsection \<open>Making room\<close>

lemma ToString_front:
  assumes "buf_inv b" and "Readable b \<le> length v"
  shows "ToString (b\<lparr>m_vecData := memcpy_at 0 (ToString b) v, m_nWriteIndex := Readable b,
           m_nReadIndex := 0\<rparr>) = ToString b"
  using length_ToString[OF assms(1)] assms(2)
  by (simp add: ToString_def[of "_\<lparr>m_vecData := _, m_nWriteIndex := _, m_nReadIndex := _\<rparr>"]
      Readable_def[of "_\<lparr>m_vecData := _, m_nWriteIndex := _, m_nReadIndex := _\<rparr>"] memcpy_at_def)

lemma EnsureWritable_Some:
  assumes "buf_inv b"
  shows "\<exists>b'. EnsureWritable b n = Some b' \<and> buf_inv b' \<and> n \<le> Writable b'
           \<and> ToString b' = ToString b \<and> Capacity b \<le> Capacity b'
           \<and> Capacity b' \<le> max (2 * Capacity b) (2 * (m_nWriteIndex b + n))"
proof -
  let ?front = "\<lambda>v. b\<lparr>m_vecData := memcpy_at 0 (ToString b) v, m_nWriteIndex := Readable b,
                      m_nReadIndex := 0\<rparr>"
  have R: "Readable b \<le> length (m_vecData b)" and len: "length (ToString b) = Readable b"
    using assms by (auto simp: buf_inv_def Readable_def length_ToString)
  have inv: "buf_inv (?front v)" "Writable (?front v) = length v - Readable b"
    "Capacity (?front v) = length v" if "Readable b \<le> length v" "0 < length v" for v
    using that by (simp_all add: buf_inv_def Writable_def Capacity_def length_memcpy_at len)
  consider (room) "n \<le> Writable b"
    | (compact) "\<not> n \<le> Writable b" "n \<le> m_nReadIndex b + Writable b"
    | (grow) "\<not> n \<le> Writable b" "\<not> n \<le> m_nReadIndex b + Writable b" by blast
  then show ?thesis
  proof cases
    case room
    with assms show ?thesis by (auto simp: EnsureWritable_def Capacity_def)
  next
    case compact
    with assms R inv[of "m_vecData b"] ToString_front[OF assms R] show ?thesis
      by (auto simp: EnsureWritable_def buf_inv_def Writable_def Readable_def Capacity_def)
  next
    case grow
    have "0 < length (m_vecData b) * 2" using assms by (simp add: buf_inv_def)
    from grow_size_Some[OF this, of "m_nWriteIndex b" n] obtain s where
      s: "grow_size (m_nWriteIndex b) n (length (m_vecData b) * 2) = Some s"
        "n \<le> s - m_nWriteIndex b" "length (m_vecData b) * 2 \<le> s"
        "s \<le> max (length (m_vecData b) * 2) (2 * (m_nWriteIndex b + n))" by blast
    have "0 < length (m_vecData b)" using assms unfolding buf_inv_def by blast
    then have pos: "0 < s" using s(3) by linarith
    have R': "Readable b \<le> length (replicate s (0::byte))"
      using R s(3) by simp
    have "n \<le> s - Readable b" using s(2) by (simp add: Readable_def)
    with grow s R' pos inv[of "replicate s 0"] ToString_front[OF assms R'] show ?thesis
      by (auto simp: EnsureWritable_def Capacity_def max_def mult.commute)
  qed
qed

subsection \<open>The operations on the readable bytes\<close>

lemma Append_content:
  assumes "buf_inv b"
  shows "\<exists>b'. Append b xs = Some b' \<and> buf_inv b' \<and> ToString b' = ToString b @ xs"
proof -
  from EnsureWritable_Some[OF assms, of "length xs"] obtain b1 where
    b1: "EnsureWritable b (length xs) = Some b1" "buf_inv b1" "length xs \<le> Writable b1"
      "ToString b1 = ToString b" by blast
  define b2 where "b2 = b1\<lparr>m_vecData := memcpy_at (m_nWriteIndex b1) xs (m_vecData b1),
    m_nWriteIndex := m_nWriteIndex b1 + length xs\<rparr>"
  have room: "m_nWriteIndex b1 + length xs \<le> length (m_vecData b1)"
    using b1(2,3) unfolding Writable_def buf_inv_def by linarith
  have "buf_inv b2"
    using b1(2) room by (simp add: b2_def buf_inv_def length_memcpy_at)
  moreover have "ToString b2 = ToString b1 @ xs"
    using b1(2) room by (simp add: b2_def ToString_def Readable_def memcpy_at_def buf_inv_def
        drop_take algebra_simps)
  ultimately show ?thesis
    using b1 by (auto simp: Append_def b2_def)
qed

lemma Retrieve_content:
  assumes "buf_inv b"
  shows "buf_inv (Retrieve b n)" and "ToString (Retrieve b n) = drop n (ToString b)"
proof -
  show "buf_inv (Retrieve b n)"
    using assms by (auto simp: Retrieve_def RetrieveAll_def buf_inv_def Readable_def)
  show "ToString (Retrieve b n) = drop n (ToString b)"
    using assms length_ToString[OF assms]
    by (auto simp: Retrieve_def RetrieveAll_def ToString_def Readable_def drop_take add.commute)
qed

lemma RetrieveAll_content: "buf_inv b \<Longrightarrow> buf_inv (RetrieveAll b) \<and> ToString (RetrieveAll b) = []"
  by (simp add: RetrieveAll_def buf_inv_def ToString_def Readable_def)

subsection \<open>The contract of a byte queue\<close>

text \<open>What the network layer uses of the buffer: bytes come out in the order they went in.\<close>

locale byte_queue =
  fixes inv :: "'b \<Rightarrow> bool"
    and content :: "'b \<Rightarrow> bytes"
    and app :: "'b \<Rightarrow> bytes \<Rightarrow> 'b option"
    and ret :: "'b \<Rightarrow> nat \<Rightarrow> 'b"
  assumes app_ok: "inv b \<Longrightarrow> \<exists>b'. app b xs = Some b' \<and> inv b' \<and> content b' = content b @ xs"
    and ret_inv: "inv b \<Longrightarrow> inv (ret b n)"
    and ret_content: "inv b \<Longrightarrow> content (ret b n) = drop n (content b)"
begin

lemma app_ret_all:
  assumes "inv b" and "content b = []" and "app b xs = Some b'"
  shows "content (ret b' (length xs)) = []"
  using app_ok[OF assms(1), of xs] assms ret_content by auto

lemma app_app:
  assumes "inv b" and "app b xs = Some b1" and "app b1 ys = Some b2"
  shows "content b2 = content b @ xs @ ys"
  using app_ok[OF assms(1), of xs] app_ok[of b1 ys] assms by auto

lemma run_content:
  assumes step: "\<And>b o'. inv b \<Longrightarrow> (\<exists>xs. f o' b = app b xs \<and> g o' (content b) = content b @ xs)
                   \<or> (\<exists>n. f o' b = Some (ret b n) \<and> g o' (content b) = drop n (content b))"
    and "inv b"
  shows "\<exists>b'. fold (\<lambda>o' acc. Option.bind acc (f o')) ops (Some b) = Some b'
           \<and> inv b' \<and> content b' = fold g ops (content b)"
  using assms(2)
proof (induction ops arbitrary: b)
  case (Cons o' ops)
  have "\<exists>b1. f o' b = Some b1 \<and> inv b1 \<and> content b1 = g o' (content b)"
    using step[OF Cons.prems, of o'] app_ok[OF Cons.prems] ret_inv[OF Cons.prems]
      ret_content[OF Cons.prems] by fastforce
  then show ?case
    using Cons.IH by fastforce
qed simp

end

interpretation cbuf: byte_queue buf_inv ToString Append Retrieve
  by unfold_locales (auto simp: Append_content Retrieve_content)

text \<open>A client drives the buffer with a sequence of operations; the abstract queue is a list.\<close>

datatype buf_op = OpAppend bytes | OpRetrieve nat | OpRetrieveAll

fun buf_step :: "buf_op \<Rightarrow> cbuffer \<Rightarrow> cbuffer option" where
  "buf_step (OpAppend xs) b = Append b xs"
| "buf_step (OpRetrieve n) b = Some (Retrieve b n)"
| "buf_step OpRetrieveAll b = Some (RetrieveAll b)"

fun queue_step :: "buf_op \<Rightarrow> bytes \<Rightarrow> bytes" where
  "queue_step (OpAppend xs) q = q @ xs"
| "queue_step (OpRetrieve n) q = drop n q"
| "queue_step OpRetrieveAll q = []"

definition buf_run :: "buf_op list \<Rightarrow> cbuffer \<Rightarrow> cbuffer option" where
  "buf_run ops b = fold (\<lambda>op acc. Option.bind acc (buf_step op)) ops (Some b)"

lemma RetrieveAll_Retrieve: "RetrieveAll b = Retrieve b (Readable b)"
  by (simp add: Retrieve_def)

lemma buf_step_cases:
  assumes "buf_inv b"
  shows "(\<exists>xs. buf_step op b = Append b xs \<and> queue_step op (ToString b) = ToString b @ xs)
       \<or> (\<exists>n. buf_step op b = Some (Retrieve b n) \<and> queue_step op (ToString b) = drop n (ToString b))"
proof (cases op)
  case OpRetrieveAll
  then show ?thesis
    using length_ToString[OF assms] by (auto simp: RetrieveAll_Retrieve intro!: exI[of _ "Readable b"])
qed auto

text \<open>C30. Any sequence of appends and retrievals on a buffer created with a positive size returns,
  keeps the index invariant, and leaves exactly the bytes that the list queue holds.\<close>

theorem buffer_refines_queue:
  assumes "0 < n"
  shows "\<exists>b. buf_run ops (CBuffer n) = Some b \<and> buf_inv b \<and> ToString b = fold queue_step ops []"
  using cbuf.run_content[of buf_step queue_step, OF buf_step_cases buf_inv_CBuffer[OF assms], of ops]
  by (simp add: buf_run_def ToString_CBuffer)

theorem buffer_refines_queue_witness:
  "\<exists>b. buf_run [OpAppend [1, 2, 3], OpRetrieve 1, OpAppend [4]] (CBuffer 2) = Some b
     \<and> buf_inv b \<and> ToString b = [2, 3, 4]"
  using buffer_refines_queue[of 2 "[OpAppend [1, 2, 3], OpRetrieve 1, OpAppend [4]]"] by simp

text \<open>Making room never shrinks the vector and at most doubles what was there or what was
  needed, whichever is larger: the cost of an append is bounded by the data it is given.\<close>

theorem ensure_writable_capacity:
  assumes "buf_inv b"
  shows "\<exists>b'. EnsureWritable b n = Some b' \<and> n \<le> Writable b' \<and> Capacity b \<le> Capacity b'
           \<and> Capacity b' \<le> max (2 * Capacity b) (2 * (m_nWriteIndex b + n))"
  using EnsureWritable_Some[OF assms, of n] by blast

theorem ensure_writable_capacity_witness:
  "\<exists>b'. EnsureWritable (CBuffer 4) 11 = Some b' \<and> 11 \<le> Writable b' \<and> Capacity b' \<le> 22"
  using ensure_writable_capacity[OF buf_inv_CBuffer[of 4], of 11]
  by (auto simp: Capacity_def CBuffer_def)

text \<open>A buffer created with size 0 can never take data: the growth loop doubles zero for ever,
  so the first non-empty append does not return.\<close>

theorem append_to_empty_vector_diverges:
  assumes "xs \<noteq> []"
  shows "Append (CBuffer 0) xs = None"
  using assms grow_size_zero[of "length xs"]
  by (simp add: Append_def EnsureWritable_def CBuffer_def Writable_def)

theorem append_to_empty_vector_diverges_witness: "Append (CBuffer 0) [65] = None"
  by (rule append_to_empty_vector_diverges) simp

end
