(* ===== verification/OutputStream.thy ===== *)
theory OutputStream
  imports Buffer
begin

text \<open>
  The output side of a TCP socket as \<open>CTcpConnection\<close> and \<open>CTcpClient\<close> have it in common
  (\<open>src/Common/Network/TcpConnection.cpp\<close>, \<open>TcpClient.cpp\<close>): a string of pending output, of which
  at most one asynchronous write is outstanding.  The write refers to the memory of the string, so
  the string has a storage, a number that changes when an append does not fit its capacity.  The
  socket is that of \<open>asio\<close>, used as documented: an operation ends once, a closed socket ends the
  outstanding operations with an error, and an operation that was already complete keeps its
  result.
\<close>

datatype read_state = NoRead | ReadPending | ReadData bytes | ReadError

text \<open>A write of the first \<open>n\<close> bytes of the storage; when it has ended, the number written.\<close>

datatype write_state = NoWrite | WritePending nat nat | WriteDone nat | WriteError

record out_stream =
  sock_open :: bool
  rd :: read_state
  wr :: write_state
  m_strPendingOutput :: bytes
  storage :: nat
  capacity :: nat
  wire :: bytes           \<comment> \<open>what the socket has been given\<close>
  appended :: bytes       \<comment> \<open>what \<open>AppendWrite\<close> was given\<close>
  stale :: bool           \<comment> \<open>a write was outstanding on a storage that was given up\<close>

text \<open>\<open>socket.close()\<close>: what is outstanding ends with an error.\<close>

definition close_socket :: "'a out_stream_scheme \<Rightarrow> 'a out_stream_scheme" where
  "close_socket c = c\<lparr>sock_open := False,
     rd := (if rd c = ReadPending then ReadError else rd c),
     wr := (case wr c of WritePending s n \<Rightarrow> WriteError | w \<Rightarrow> w)\<rparr>"

text \<open>\<open>async_read_some\<close> and \<open>async_write_some\<close> on the pending output.\<close>

definition start_read :: "'a out_stream_scheme \<Rightarrow> 'a out_stream_scheme" where
  "start_read c = c\<lparr>rd := (if sock_open c then ReadPending else ReadError)\<rparr>"

definition start_write :: "'a out_stream_scheme \<Rightarrow> 'a out_stream_scheme" where
  "start_write c = c\<lparr>wr := (if sock_open c then WritePending (storage c) (length (m_strPendingOutput c)) else WriteError)\<rparr>"

text \<open>\<open>m_strPendingOutput.append\<close>: the string moves when it does not fit, to a capacity that is
  large enough.\<close>

definition append_output :: "bytes \<Rightarrow> nat \<Rightarrow> 'a out_stream_scheme \<Rightarrow> 'a out_stream_scheme" where
  "append_output d nNewCapacity c =
     (let out = m_strPendingOutput c @ d; moves = capacity c < length out
      in c\<lparr>m_strPendingOutput := out, appended := appended c @ d,
           storage := (if moves then storage c + 1 else storage c),
           capacity := (if moves then max nNewCapacity (length out) else capacity c)\<rparr>)"

text \<open>The socket takes \<open>n\<close> bytes of the outstanding write.  If the string has moved since, they
  are whatever is there now.\<close>

definition socket_takes :: "nat \<Rightarrow> bytes \<Rightarrow> 'a out_stream_scheme \<Rightarrow> 'a out_stream_scheme" where
  "socket_takes n junk c =
     (case wr c of
        WritePending s len \<Rightarrow>
          c\<lparr>wr := WriteDone n, wire := wire c @ (if s = storage c then take n (m_strPendingOutput c) else junk),
            stale := stale c \<or> s \<noteq> storage c\<rparr>
      | _ \<Rightarrow> c)"

subsection \<open>Nothing is lost on the way to the socket\<close>

text \<open>The bytes at the front of the output string that are on the wire but not yet removed.\<close>

definition done_bytes :: "'a out_stream_scheme \<Rightarrow> nat" where
  "done_bytes c = (case wr c of WriteDone n \<Rightarrow> n | _ \<Rightarrow> 0)"

definition output_ok :: "'a out_stream_scheme \<Rightarrow> bool" where
  "output_ok c \<longleftrightarrow> (\<not> stale c \<longrightarrow> wire c @ drop (done_bytes c) (m_strPendingOutput c) = appended c
       \<and> done_bytes c \<le> length (m_strPendingOutput c))
     \<and> (\<forall>s n. wr c = WritePending s n \<longrightarrow> s \<le> storage c \<and> (s = storage c \<longrightarrow> n \<le> length (m_strPendingOutput c)))"

lemmas output_defs = output_ok_def done_bytes_def

lemma output_ok_close [intro]: "output_ok c \<Longrightarrow> output_ok (close_socket c)"
  by (auto simp: output_defs close_socket_def split: write_state.splits)

lemma output_ok_rd [simp]: "output_ok (c\<lparr>rd := r\<rparr>) = output_ok c"
  by (simp add: output_defs)

lemma output_ok_start_read [simp]: "output_ok (start_read c) = output_ok c"
  by (simp add: start_read_def)

lemma output_ok_start_write [intro]: "output_ok c \<Longrightarrow> done_bytes c = 0 \<Longrightarrow> output_ok (start_write c)"
  by (auto simp: output_defs start_write_def split: write_state.splits)

lemma output_ok_append [intro]: "output_ok c \<Longrightarrow> output_ok (append_output d cap c)"
  by (auto simp: output_defs append_output_def Let_def split: write_state.splits)

lemma output_ok_takes [intro]: "output_ok c \<Longrightarrow> wr c = WritePending s len \<Longrightarrow> n \<le> len \<Longrightarrow> output_ok (socket_takes n junk c)"
  by (auto simp: output_defs socket_takes_def)

lemma output_ok_error [intro]: "output_ok c \<Longrightarrow> wr c = WritePending s len \<Longrightarrow> output_ok (c\<lparr>wr := WriteError\<rparr>)"
  by (auto simp: output_defs)

text \<open>A finished write is removed from the front; a failed one is forgotten.\<close>

lemma output_ok_erase: "output_ok c \<Longrightarrow> wr c = WriteDone n \<Longrightarrow>
    output_ok (c\<lparr>wr := NoWrite, m_strPendingOutput := drop n (m_strPendingOutput c)\<rparr>)"
  by (auto simp: output_defs)

lemma output_ok_drop_error: "output_ok c \<Longrightarrow> wr c = WriteError \<Longrightarrow> output_ok (c\<lparr>wr := NoWrite\<rparr>)"
  by (auto simp: output_defs)

end
