(* ===== verification/TcpConnection.thy ===== *)
theory TcpConnection
  imports OutputStream
begin

text \<open>
  \<open>CTcpConnection\<close> (\<open>src/Common/Network/TcpConnection.cpp\<close>): one accepted socket, whose handlers
  all run on the io thread of its server.  The callbacks an operation makes are its result;
  closures posted to the io thread are the server's business.
\<close>

record conn = out_stream +
  m_id :: u64
  m_strPeerAddress :: string
  m_inputBuffer :: cbuffer
  m_bWriting :: bool
  m_bClosed :: bool
  m_lastActive :: nat
  m_nIdleSeconds :: u32

datatype conn_call = CallData bytes | CallClose

definition CTcpConnection :: "u64 \<Rightarrow> string \<Rightarrow> nat \<Rightarrow> nat \<Rightarrow> conn" where
  "CTcpConnection nId strPeer nCapacity nNow =
     \<lparr>sock_open = True, rd = NoRead, wr = NoWrite, m_strPendingOutput = [], storage = 0, capacity = nCapacity,
      wire = [], appended = [], stale = False, m_id = nId, m_strPeerAddress = strPeer, m_inputBuffer = CBuffer 1024,
      m_bWriting = False, m_bClosed = False, m_lastActive = nNow, m_nIdleSeconds = 0\<rparr>"

definition SetIdleTimeout :: "u32 \<Rightarrow> conn \<Rightarrow> conn" where
  "SetIdleTimeout nSeconds c = c\<lparr>m_nIdleSeconds := nSeconds\<rparr>"

definition IdleSeconds :: "nat \<Rightarrow> conn \<Rightarrow> nat" where
  "IdleSeconds nNow c = nNow - m_lastActive c"

definition DoRead :: "conn \<Rightarrow> conn" where
  "DoRead c = (if m_bClosed c then c else start_read c)"

definition StartRead :: "conn \<Rightarrow> conn" where
  "StartRead c = DoRead c"

definition HandleError :: "conn \<Rightarrow> conn_call list \<times> conn" where
  "HandleError c = (if m_bClosed c then ([], c) else ([CallClose], close_socket (c\<lparr>m_bClosed := True\<rparr>)))"

text \<open>\<open>HandleRead\<close>, given the result of the read; \<open>None\<close> for an append to the input buffer that
  does not return.\<close>

definition HandleRead :: "nat \<Rightarrow> conn \<Rightarrow> (conn_call list \<times> conn) option" where
  "HandleRead nNow c =
     (case rd c of
        ReadData d \<Rightarrow>
          if d = [] then Some (HandleError (c\<lparr>rd := NoRead\<rparr>))
          else (case Buffer.Append (m_inputBuffer c) d of
                  None \<Rightarrow> None
                | Some b \<Rightarrow> Some ([CallData (ToString b)],
                    DoRead (c\<lparr>rd := NoRead, m_lastActive := nNow, m_inputBuffer := RetrieveAll b\<rparr>)))
      | _ \<Rightarrow> Some (HandleError (c\<lparr>rd := NoRead\<rparr>)))"

definition DoWrite :: "conn \<Rightarrow> conn" where
  "DoWrite c = start_write (c\<lparr>m_bWriting := True\<rparr>)"

definition AppendWrite :: "bytes \<Rightarrow> nat \<Rightarrow> conn \<Rightarrow> conn" where
  "AppendWrite strData nNewCapacity c =
     (if m_bClosed c then c
      else let c = append_output strData nNewCapacity c
           in if \<not> m_bWriting c then DoWrite c else c)"

definition HandleWrite :: "conn \<Rightarrow> conn_call list \<times> conn" where
  "HandleWrite c =
     (case wr c of
        WriteDone n \<Rightarrow>
          let c = c\<lparr>wr := NoWrite, m_strPendingOutput := drop n (m_strPendingOutput c)\<rparr>
          in ([], if m_strPendingOutput c \<noteq> [] then DoWrite c else c\<lparr>m_bWriting := False\<rparr>)
      | _ \<Rightarrow> HandleError (c\<lparr>wr := NoWrite\<rparr>))"

definition CloseOnIoThread :: "conn \<Rightarrow> conn" where
  "CloseOnIoThread c = (if m_bClosed c then c else close_socket (c\<lparr>m_bClosed := True\<rparr>))"

text \<open>\<open>Send\<close> and \<open>Close\<close> look at the flag when they are called and post the rest.\<close>

definition posts :: "conn \<Rightarrow> bool" where
  "posts c \<longleftrightarrow> \<not> m_bClosed c"

inductive conn_step :: "conn \<Rightarrow> conn_call list \<Rightarrow> conn \<Rightarrow> bool" where
  start_read: "rd c = NoRead \<Longrightarrow> conn_step c [] (StartRead c)"
| data: "rd c = ReadPending \<Longrightarrow> conn_step c [] (c\<lparr>rd := ReadData d\<rparr>)"
| read_error: "rd c = ReadPending \<Longrightarrow> conn_step c [] (c\<lparr>rd := ReadError\<rparr>)"
| read: "rd c = ReadData d \<or> rd c = ReadError \<Longrightarrow> HandleRead nNow c = Some (calls, c') \<Longrightarrow> conn_step c calls c'"
| append: "conn_step c [] (AppendWrite d nNewCapacity c)"
| takes: "wr c = WritePending s len \<Longrightarrow> n \<le> len \<Longrightarrow> length junk = n \<Longrightarrow> conn_step c [] (socket_takes n junk c)"
| write_error: "wr c = WritePending s len \<Longrightarrow> conn_step c [] (c\<lparr>wr := WriteError\<rparr>)"
| written: "wr c = WriteDone n \<or> wr c = WriteError \<Longrightarrow> HandleWrite c = (calls, c') \<Longrightarrow> conn_step c calls c'"
| close: "conn_step c [] (CloseOnIoThread c)"

text \<open>A run from the accepted socket, with the calls made.\<close>

inductive conn_run :: "u64 \<Rightarrow> string \<Rightarrow> nat \<Rightarrow> nat \<Rightarrow> conn_call list \<Rightarrow> conn \<Rightarrow> bool" for nId strPeer cap nNow where
  accepted: "conn_run nId strPeer cap nNow [] (CTcpConnection nId strPeer cap nNow)"
| step: "conn_run nId strPeer cap nNow calls c \<Longrightarrow> conn_step c extra c' \<Longrightarrow>
    conn_run nId strPeer cap nNow (calls @ extra) c'"

subsection \<open>The invariant\<close>

definition writing_ok :: "conn \<Rightarrow> bool" where
  "writing_ok c \<longleftrightarrow> \<not> m_bClosed c \<longrightarrow>
     sock_open c \<and> m_bWriting c = (wr c \<noteq> NoWrite) \<and> (wr c = NoWrite \<longrightarrow> m_strPendingOutput c = [])"

definition input_ok :: "conn \<Rightarrow> bool" where
  "input_ok c \<longleftrightarrow> buf_inv (m_inputBuffer c) \<and> ToString (m_inputBuffer c) = []"

definition conn_inv :: "conn \<Rightarrow> bool" where
  "conn_inv c \<longleftrightarrow> output_ok c \<and> writing_ok c \<and> input_ok c"

lemmas conn_inv_defs = conn_inv_def output_defs writing_ok_def input_ok_def

lemma conn_inv_init: "conn_inv (CTcpConnection nId strPeer cap nNow)"
  by (simp add: conn_inv_defs CTcpConnection_def buf_inv_CBuffer ToString_CBuffer)

lemma conn_inv_close_socket: "conn_inv c \<Longrightarrow> conn_inv (close_socket (c\<lparr>m_bClosed := True\<rparr>))"
  by (auto simp: conn_inv_defs close_socket_def split: write_state.splits)

lemma conn_inv_rd: "conn_inv (c\<lparr>rd := r\<rparr>) = conn_inv c"
  by (simp add: conn_inv_defs)

lemma conn_inv_DoRead: "conn_inv c \<Longrightarrow> conn_inv (DoRead c)"
  by (auto simp: DoRead_def start_read_def conn_inv_rd)

lemma conn_inv_HandleError: "conn_inv c \<Longrightarrow> conn_inv (snd (HandleError c))"
  by (simp add: HandleError_def conn_inv_close_socket)

text \<open>The data callback gets exactly what the socket read.\<close>

lemma HandleRead_data:
  assumes "conn_inv c" and "rd c = ReadData d" and "d \<noteq> []"
  shows "\<exists>c'. HandleRead nNow c = Some ([CallData d], c') \<and> conn_inv c' \<and> m_bClosed c' = m_bClosed c"
proof -
  have b: "buf_inv (m_inputBuffer c)" "ToString (m_inputBuffer c) = []" using assms(1) by (simp_all add: conn_inv_defs)
  from Append_content[OF b(1), of d] b(2) obtain b' where
    b': "Buffer.Append (m_inputBuffer c) d = Some b'" "buf_inv b'" "ToString b' = d" by auto
  have "conn_inv (c\<lparr>rd := NoRead, m_lastActive := nNow, m_inputBuffer := RetrieveAll b'\<rparr>)"
    using assms(1) RetrieveAll_content[OF b'(2)] by (simp add: conn_inv_defs)
  from conn_inv_DoRead[OF this] show ?thesis
    using assms(2,3) b'(1,3) by (simp add: HandleRead_def DoRead_def start_read_def)
qed

lemma HandleRead_other:
  assumes "rd c = ReadError \<or> rd c = ReadData []"
  shows "HandleRead nNow c = Some (HandleError (c\<lparr>rd := NoRead\<rparr>))"
  using assms by (auto simp: HandleRead_def)

lemma conn_inv_AppendWrite: "conn_inv c \<Longrightarrow> conn_inv (AppendWrite d cap c)"
  by (auto simp: conn_inv_defs AppendWrite_def append_output_def DoWrite_def start_write_def Let_def split: write_state.splits)

lemma conn_inv_HandleWrite:
  assumes "conn_inv c" and "wr c = WriteDone n \<or> wr c = WriteError"
  shows "conn_inv (snd (HandleWrite c))"
proof (cases "wr c")
  case (WriteDone k)
  with assms(1) show ?thesis
    by (auto simp: conn_inv_defs HandleWrite_def DoWrite_def start_write_def Let_def)
next
  case WriteError
  show ?thesis
  proof (cases "m_bClosed c")
    case True
    with assms(1) WriteError show ?thesis by (auto simp: conn_inv_defs HandleWrite_def HandleError_def)
  next
    case False
    with assms(1) WriteError show ?thesis
      by (auto simp: conn_inv_defs HandleWrite_def HandleError_def close_socket_def)
  qed
qed (use assms(2) in auto)

lemma conn_inv_takes:
  "conn_inv c \<Longrightarrow> wr c = WritePending s len \<Longrightarrow> n \<le> len \<Longrightarrow> conn_inv (socket_takes n junk c)"
  by (auto simp: conn_inv_defs socket_takes_def)

lemma conn_inv_step:
  assumes "conn_step c calls c'" and "conn_inv c"
  shows "conn_inv c'"
  using assms
proof (induction rule: conn_step.induct)
  case (read c d nNow calls c')
  show ?case
  proof (cases "rd c = ReadError \<or> rd c = ReadData []")
    case True
    with read show ?thesis
      using HandleRead_other[OF True] conn_inv_HandleError[of "c\<lparr>rd := NoRead\<rparr>"] by (simp add: conn_inv_rd)
  next
    case False
    with read(1) have "rd c = ReadData d" "d \<noteq> []" by auto
    from HandleRead_data[OF read(3) this] read(2) show ?thesis by (metis option.inject snd_conv)
  qed
next
  case (written c n calls c')
  then show ?case using conn_inv_HandleWrite[of c n] by simp
next
  case (write_error c s len)
  then show ?case by (auto simp: conn_inv_defs)
qed (simp_all add: StartRead_def conn_inv_DoRead conn_inv_rd conn_inv_AppendWrite conn_inv_takes
    CloseOnIoThread_def conn_inv_close_socket)

lemma conn_run_inv: "conn_run nId strPeer cap nNow calls c \<Longrightarrow> conn_inv c"
proof (induction rule: conn_run.induct)
  case (step calls c extra c')
  from conn_inv_step[OF step(2,3)] show ?case .
qed (rule conn_inv_init)

subsection \<open>The calls\<close>

definition closes :: "conn_call list \<Rightarrow> nat" where
  "closes calls = count_list calls CallClose"

lemma closes_simps [simp]: "closes [] = 0" "closes (xs @ ys) = closes xs + closes ys"
  "closes [CallData d] = 0" "closes [CallClose] = 1"
  by (simp_all add: closes_def)

lemma HandleError_close: "HandleError c = (calls, c') \<Longrightarrow> m_bClosed c' \<and> closes calls = (if m_bClosed c then 0 else 1)"
  by (auto simp: HandleError_def close_socket_def split: if_splits)

lemma conn_step_closes:
  assumes "conn_step c calls c'" and "conn_inv c"
  shows "closes calls + (if m_bClosed c then 1 else 0) \<le> (if m_bClosed c' then 1 else 0)"
  using assms
proof (induction rule: conn_step.induct)
  case (read c d nNow calls c')
  show ?case
  proof (cases "rd c = ReadError \<or> rd c = ReadData []")
    case True
    with read(2) have "HandleError (c\<lparr>rd := NoRead\<rparr>) = (calls, c')" using HandleRead_other[OF True, of nNow] by simp
    from HandleError_close[OF this] show ?thesis by simp
  next
    case False
    with read(1) have "rd c = ReadData d" "d \<noteq> []" by auto
    from HandleRead_data[OF read(3) this, of nNow] read(2) show ?thesis by auto
  qed
next
  case (written c n calls c')
  then show ?case
    using HandleError_close[of "c\<lparr>wr := NoWrite\<rparr>" calls c']
    by (auto simp: HandleWrite_def DoWrite_def start_write_def Let_def split: if_splits)
qed (auto simp: StartRead_def DoRead_def start_read_def AppendWrite_def append_output_def DoWrite_def start_write_def Let_def socket_takes_def
    CloseOnIoThread_def close_socket_def split: write_state.split)

lemma conn_run_closes: "conn_run nId strPeer cap nNow calls c \<Longrightarrow> closes calls \<le> (if m_bClosed c then 1 else 0)"
proof (induction rule: conn_run.induct)
  case (step calls c extra c')
  from conn_step_closes[OF step(2) conn_run_inv[OF step(1)]] step(3) show ?case
    unfolding closes_simps by (cases "m_bClosed c"; cases "m_bClosed c'"; simp)
qed simp

subsection \<open>Properties\<close>

text \<open>C15. Output is not lost, repeated or reordered: as long as no write was caught by a move of the
  output string, the bytes given to the socket are the front of what was appended, in order, and
  the rest is still to be written; while the connection is open one write is outstanding exactly
  when there is output, so it is never stuck.\<close>

theorem tcp_output_stream:
  assumes "conn_run nId strPeer cap nNow calls c"
  shows "(\<not> stale c \<longrightarrow> wire c @ drop (done_bytes c) (m_strPendingOutput c) = appended c)
    \<and> (\<not> m_bClosed c \<longrightarrow> m_bWriting c = (wr c \<noteq> NoWrite) \<and> (wr c = NoWrite \<longrightarrow> m_strPendingOutput c = []))"
  using conn_run_inv[OF assms] by (simp add: conn_inv_def output_ok_def writing_ok_def)

text \<open>Input: whatever a read delivers is handed up at once and unchanged, the input buffer is empty
  again afterwards, and while the connection is open the next read is started; the close callback
  is made at most once, and only for a connection that was not closed by its owner.\<close>

theorem tcp_input_and_close:
  assumes "conn_run nId strPeer cap nNow calls c"
  shows "(rd c = ReadData d \<and> d \<noteq> [] \<longrightarrow> (\<exists>c'. HandleRead t c = Some ([CallData d], c')
            \<and> ToString (m_inputBuffer c') = [] \<and> (\<not> m_bClosed c \<longrightarrow> rd c' = ReadPending)))
    \<and> closes calls \<le> (if m_bClosed c then 1 else 0)"
proof (intro conjI impI)
  note inv = conn_run_inv[OF assms]
  assume d: "rd c = ReadData d \<and> d \<noteq> []"
  from HandleRead_data[OF inv] d obtain c' where
    c': "HandleRead t c = Some ([CallData d], c')" "conn_inv c'" "m_bClosed c' = m_bClosed c" by blast
  moreover have "\<not> m_bClosed c \<longrightarrow> rd c' = ReadPending"
    using c'(1) d inv by (auto simp: HandleRead_def DoRead_def start_read_def conn_inv_defs split: option.splits)
  ultimately show "\<exists>c'. HandleRead t c = Some ([CallData d], c')
      \<and> ToString (m_inputBuffer c') = [] \<and> (\<not> m_bClosed c \<longrightarrow> rd c' = ReadPending)"
    by (auto simp: conn_inv_defs)
qed (rule conn_run_closes[OF assms])

subsection \<open>Concrete runs\<close>

text \<open>A connection reads three bytes, and sends five and then two bytes; the output string has room
  for six.\<close>

definition demo_conn :: conn where
  "demo_conn = AppendWrite [6, 7] 10 (AppendWrite [1, 2, 3, 4, 5] 0 ((StartRead (CTcpConnection 1 ''peer'' 6 0))\<lparr>rd := ReadData [9, 8, 7]\<rparr>))"

lemma demo_conn_run: "conn_run 1 ''peer'' 6 0 [] demo_conn"
proof -
  let ?a = "CTcpConnection 1 ''peer'' 6 0"
  let ?c = "(StartRead ?a)\<lparr>rd := ReadData [9, 8, 7]\<rparr>"
  have 1: "conn_step ?a [] (StartRead ?a)" by (rule conn_step.start_read) code_simp
  have 2: "conn_step (StartRead ?a) [] ?c" by (rule conn_step.data) code_simp
  note 3 = conn_step.append[of ?c "[1, 2, 3, 4, 5]" 0]
  note 4 = conn_step.append[of "AppendWrite [1, 2, 3, 4, 5] 0 ?c" "[6, 7]" 10]
  from conn_run.step[OF conn_run.step[OF conn_run.step[OF conn_run.step[OF conn_run.accepted 1] 2] 3] 4]
  show ?thesis unfolding demo_conn_def by simp
qed

theorem tcp_output_stream_witness:
  "m_strPendingOutput demo_conn = [1, 2, 3, 4, 5, 6, 7] \<and> wr demo_conn = WritePending 0 5
   \<and> wire demo_conn @ drop (done_bytes demo_conn) (m_strPendingOutput demo_conn) = appended demo_conn"
proof -
  have "m_strPendingOutput demo_conn = [1, 2, 3, 4, 5, 6, 7]" "wr demo_conn = WritePending 0 5" "\<not> stale demo_conn"
    by code_simp+
  then show ?thesis using tcp_output_stream[OF demo_conn_run] by simp
qed

theorem tcp_input_and_close_witness:
  "\<exists>c'. HandleRead 5 demo_conn = Some ([CallData [9, 8, 7]], c') \<and> rd c' = ReadPending"
proof -
  have "rd demo_conn = ReadData [9, 8, 7]" "\<not> m_bClosed demo_conn" by code_simp+
  then show ?thesis using tcp_input_and_close[OF demo_conn_run, of "[9, 8, 7]" 5] by auto
qed

text \<open>The second append moved the string: the write that is outstanding refers to storage that was
  given up, and what the socket takes from there is not what was to be sent.\<close>

theorem write_from_freed_storage:
  "conn_run 1 ''peer'' 6 0 [] (socket_takes 5 [0, 0, 0, 0, 0] demo_conn) \<and> storage demo_conn = 1
   \<and> wire (socket_takes 5 [0, 0, 0, 0, 0] demo_conn) = [0, 0, 0, 0, 0]
   \<and> appended demo_conn = [1, 2, 3, 4, 5, 6, 7]"
proof -
  have w: "wr demo_conn = WritePending 0 5" "storage demo_conn = 1" "appended demo_conn = [1, 2, 3, 4, 5, 6, 7]"
    "wire (socket_takes 5 [0, 0, 0, 0, 0] demo_conn) = [0, 0, 0, 0, 0]"
    by code_simp+
  have "conn_step demo_conn [] (socket_takes 5 [0, 0, 0, 0, 0] demo_conn)" by (rule conn_step.takes[OF w(1)]) simp_all
  from conn_run.step[OF demo_conn_run this] w show ?thesis by simp
qed

text \<open>The owner has closed the connection while a read was already complete: its data is handed up
  after the close.\<close>

theorem data_after_close:
  "\<exists>c c'. conn_run 1 ''peer'' 6 0 [] c \<and> m_bClosed c \<and> conn_step c [CallData [9, 8, 7]] c'"
proof -
  let ?c = "CloseOnIoThread demo_conn"
  have run: "conn_run 1 ''peer'' 6 0 ([] @ []) ?c" by (rule conn_run.step[OF demo_conn_run conn_step.close])
  have "rd ?c = ReadData [9, 8, 7]" "m_bClosed ?c" by code_simp+
  moreover from this HandleRead_data[OF conn_run_inv[OF run], of "[9, 8, 7]" 0] obtain c' where
    "HandleRead 0 ?c = Some ([CallData [9, 8, 7]], c')" by auto
  ultimately show ?thesis using run conn_step.read by (metis append_Nil)
qed

end
