(* ===== verification/TcpServer.thy ===== *)
theory TcpServer
  imports TcpConnection StdMap
begin

text \<open>
  \<open>CTcpServer\<close> (\<open>src/Common/Network/TcpServer.cpp\<close>): the table of connections, whose handlers run
  on the io thread, the closures other threads post to it, the connection limit, the idle timer
  and the shutdown.  A connection object is its index in \<open>heap\<close>: closures and handlers keep
  objects alive after the table has forgotten them.  A step is one handler of the io thread, one
  call of a client, or one event of a socket.  Time is the clock reading a step is given, in
  seconds.
\<close>

datatype srv_task =
    TaskSend u64 bytes        \<comment> \<open>from \<open>Send\<close>\<close>
  | TaskAppend nat bytes      \<comment> \<open>from \<open>CTcpConnection::Send\<close>\<close>
  | TaskClose u64             \<comment> \<open>from \<open>Close\<close>\<close>
  | TaskConnClose nat         \<comment> \<open>from \<open>CTcpConnection::Close\<close>\<close>
  | TaskStartIdle
  | TaskShutdown

datatype srv_call = OnAccept u64 string | OnData u64 bytes | OnClose u64

text \<open>The idle timer: no object, a wait that is running, an object whose wait has ended.\<close>

datatype idle_timer = NoTimer | TimerArmed | TimerIdle

record server =
  m_mapConnections :: "(u64, nat) smap"
  m_mapPeerAddresses :: "(u64, string) smap"
  m_nNextId :: u64
  m_nPort :: "16 word"
  m_bRunning :: bool
  m_nConnectionCount :: nat
  m_nTotalAccepted :: u64
  m_nTotalClosed :: u64
  m_nIdleSeconds :: u32
  m_nMaxConnections :: nat
  m_pIdleTimer :: idle_timer
  acceptor_open :: bool
  accept_ready :: bool      \<comment> \<open>the handler of an accepted socket is queued\<close>
  io_started :: bool        \<comment> \<open>an io thread has been started, and has left \<open>run\<close>\<close>
  io_ended :: bool
  heap :: "conn list"
  posted :: "srv_task list"
  calls :: "srv_call list"
  stray :: nat              \<comment> \<open>closes of connections the table had already forgotten\<close>

definition CTcpServer :: server where
  "CTcpServer = \<lparr>m_mapConnections = [], m_mapPeerAddresses = [], m_nNextId = 1, m_nPort = 0, m_bRunning = False,
     m_nConnectionCount = 0, m_nTotalAccepted = 0, m_nTotalClosed = 0, m_nIdleSeconds = 0,
     m_nMaxConnections = 0, m_pIdleTimer = NoTimer, acceptor_open = False, accept_ready = False, io_started = False, io_ended = False, heap = [],
     posted = [], calls = [], stray = 0\<rparr>"

definition post :: "srv_task \<Rightarrow> server \<Rightarrow> server" where
  "post t s = s\<lparr>posted := posted s @ [t]\<rparr>"

definition call :: "srv_call \<Rightarrow> server \<Rightarrow> server" where
  "call c s = s\<lparr>calls := calls s @ [c]\<rparr>"

definition set_conn :: "nat \<Rightarrow> conn \<Rightarrow> server \<Rightarrow> server" where
  "set_conn r c s = s\<lparr>heap := (heap s)[r := c]\<rparr>"

text \<open>\<open>listens\<close> says whether the acceptor could be opened, bound and put to listening.\<close>

definition Start :: "bool \<Rightarrow> 16 word \<Rightarrow> server \<Rightarrow> bool \<times> server" where
  "Start listens nPort s =
     (if m_bRunning s then (False, s)
      else if \<not> listens then (False, s)
      else (True, post TaskStartIdle (s\<lparr>m_nPort := nPort, m_bRunning := True, acceptor_open := True, io_started := True\<rparr>)))"

definition Stop :: "server \<Rightarrow> server" where
  "Stop s = (if \<not> m_bRunning s then s else post TaskShutdown (s\<lparr>m_bRunning := False\<rparr>))"

text \<open>The handler of \<open>async_accept\<close> for a new socket; \<open>nCapacity\<close> is the capacity of an empty
  string.\<close>

definition HandleAccept :: "string \<Rightarrow> nat \<Rightarrow> nat \<Rightarrow> server \<Rightarrow> server" where
  "HandleAccept strPeer nCapacity nNow s =
     (if m_nMaxConnections s > 0 \<and> m_nConnectionCount s \<ge> m_nMaxConnections s then s
      else let nId = m_nNextId s;
               r = length (heap s);
               pConn = StartRead (CTcpConnection nId strPeer nCapacity nNow)
           in call (OnAccept nId strPeer)
                (s\<lparr>m_nNextId := nId + 1, heap := heap s @ [pConn],
                   m_mapConnections := sm_put nId r (m_mapConnections s),
                   m_mapPeerAddresses := sm_put nId strPeer (m_mapPeerAddresses s),
                   m_nConnectionCount := m_nConnectionCount s + 1,
                   m_nTotalAccepted := m_nTotalAccepted s + 1\<rparr>))"

definition HandleData :: "nat \<Rightarrow> bytes \<Rightarrow> server \<Rightarrow> server" where
  "HandleData r d s = call (OnData (m_id (heap s ! r)) d) s"

text \<open>The bookkeeping \<open>HandleClose\<close> and \<open>Close\<close> share.\<close>

definition forget :: "u64 \<Rightarrow> server \<Rightarrow> server" where
  "forget nId s = s\<lparr>m_mapConnections := sm_erase nId (m_mapConnections s),
     m_mapPeerAddresses := sm_erase nId (m_mapPeerAddresses s),
     m_nConnectionCount := (if m_nConnectionCount s > 0 then m_nConnectionCount s - 1 else m_nConnectionCount s),
     m_nTotalClosed := m_nTotalClosed s + 1\<rparr>"

definition HandleClose :: "nat \<Rightarrow> server \<Rightarrow> server" where
  "HandleClose r s =
     (let nId = m_id (heap s ! r);
          s' = (if sm_find (m_mapConnections s) nId = None then s\<lparr>stray := stray s + 1\<rparr> else s)
      in call (OnClose nId) (forget nId s'))"

fun run_calls :: "nat \<Rightarrow> conn_call list \<Rightarrow> server \<Rightarrow> server" where
  "run_calls r [] s = s"
| "run_calls r (CallData d # cs) s = run_calls r cs (HandleData r d s)"
| "run_calls r (CallClose # cs) s = run_calls r cs (HandleClose r s)"

definition Send :: "u64 \<Rightarrow> bytes \<Rightarrow> server \<Rightarrow> bool \<times> server" where
  "Send nId strPayload s = (if \<not> m_bRunning s then (False, s) else (True, post (TaskSend nId strPayload) s))"

definition Close :: "u64 \<Rightarrow> server \<Rightarrow> server" where
  "Close nId s = post (TaskClose nId) s"

definition conn_close :: "nat \<Rightarrow> server \<Rightarrow> server" where
  "conn_close r s = (if posts (heap s ! r) then post (TaskConnClose r) s else s)"

definition conn_send :: "nat \<Rightarrow> bytes \<Rightarrow> server \<Rightarrow> server" where
  "conn_send r d s = (if posts (heap s ! r) then post (TaskAppend r d) s else s)"

definition SetMaxConnections :: "nat \<Rightarrow> server \<Rightarrow> server" where
  "SetMaxConnections nMax s = s\<lparr>m_nMaxConnections := nMax\<rparr>"

definition SetIdleTimeout :: "u32 \<Rightarrow> server \<Rightarrow> server" where
  "SetIdleTimeout nSeconds s =
     (let s = s\<lparr>m_nIdleSeconds := nSeconds\<rparr> in if nSeconds \<noteq> 0 then post TaskStartIdle s else s)"

definition StartIdleTimer :: "server \<Rightarrow> server" where
  "StartIdleTimer s = (if m_nIdleSeconds s = 0 then s else s\<lparr>m_pIdleTimer := TimerArmed\<rparr>)"

definition CheckIdleConnections :: "nat \<Rightarrow> server \<Rightarrow> server" where
  "CheckIdleConnections nNow s =
     (if m_nIdleSeconds s = 0 then s
      else fold Close (map fst (filter (\<lambda>e. IdleSeconds nNow (heap s ! snd e) \<ge> unat (m_nIdleSeconds s)) (m_mapConnections s))) s)"

text \<open>The idle timer's wait ends without an error.\<close>

definition idle_tick :: "nat \<Rightarrow> server \<Rightarrow> server" where
  "idle_tick nNow s =
     (let s = CheckIdleConnections nNow (s\<lparr>m_pIdleTimer := TimerIdle\<rparr>)
      in if m_bRunning s then StartIdleTimer s else s)"

text \<open>\<open>ShutdownOnIoThread\<close>: everything is forgotten, then the connections are closed one by
  one.\<close>

definition shutdown_conn :: "u64 \<times> nat \<Rightarrow> server \<Rightarrow> server" where
  "shutdown_conn e s = call (OnClose (m_id (heap s ! snd e)))
     ((conn_close (snd e) s)\<lparr>m_nTotalClosed := m_nTotalClosed s + 1\<rparr>)"

definition ShutdownOnIoThread :: "server \<Rightarrow> server" where
  "ShutdownOnIoThread s =
     fold shutdown_conn (m_mapConnections s)
       (s\<lparr>m_pIdleTimer := NoTimer, acceptor_open := False, m_mapConnections := [], m_mapPeerAddresses := [],
          m_nConnectionCount := 0\<rparr>)"

text \<open>What a posted closure does.\<close>

fun run_task :: "srv_task \<Rightarrow> nat \<Rightarrow> server \<Rightarrow> server" where
  "run_task (TaskSend nId d) cap s =
     (case sm_find (m_mapConnections s) nId of
        None \<Rightarrow> s
      | Some r \<Rightarrow> conn_send r d s)"
| "run_task (TaskAppend r d) cap s = set_conn r (AppendWrite d cap (heap s ! r)) s"
| "run_task (TaskClose nId) cap s =
     (case sm_find (m_mapConnections s) nId of
        None \<Rightarrow> s
      | Some r \<Rightarrow> call (OnClose nId) (conn_close r (forget nId s)))"
| "run_task (TaskConnClose r) cap s = set_conn r (CloseOnIoThread (heap s ! r)) s"
| "run_task TaskStartIdle cap s =
     (if m_nIdleSeconds s \<noteq> 0 \<and> m_pIdleTimer s = NoTimer then StartIdleTimer s else s)"
| "run_task TaskShutdown cap s = ShutdownOnIoThread s"

text \<open>The handlers of a connection's read and write.\<close>

definition conn_read :: "nat \<Rightarrow> nat \<Rightarrow> server \<Rightarrow> server option" where
  "conn_read r nNow s =
     (case HandleRead nNow (heap s ! r) of
        None \<Rightarrow> None
      | Some (cs, c) \<Rightarrow> Some (run_calls r cs (set_conn r c s)))"

definition conn_written :: "nat \<Rightarrow> server \<Rightarrow> server" where
  "conn_written r s = (let (cs, c) = HandleWrite (heap s ! r) in run_calls r cs (set_conn r c s))"

definition ListeningPort :: "server \<Rightarrow> 16 word" where "ListeningPort s = m_nPort s"
definition IsRunning :: "server \<Rightarrow> bool" where "IsRunning s \<longleftrightarrow> m_bRunning s"
definition ConnectionCount :: "server \<Rightarrow> nat" where "ConnectionCount s = m_nConnectionCount s"
definition TotalAccepted :: "server \<Rightarrow> u64" where "TotalAccepted s = m_nTotalAccepted s"
definition TotalClosed :: "server \<Rightarrow> u64" where "TotalClosed s = m_nTotalClosed s"

definition HasConnection :: "u64 \<Rightarrow> server \<Rightarrow> bool" where
  "HasConnection nId s \<longleftrightarrow> sm_find (m_mapPeerAddresses s) nId \<noteq> None"

definition PeerAddress :: "u64 \<Rightarrow> server \<Rightarrow> string" where
  "PeerAddress nId s = (case sm_find (m_mapPeerAddresses s) nId of None \<Rightarrow> '''' | Some a \<Rightarrow> a)"

text \<open>The socket of the connection \<open>r\<close> does something: bytes arrive, an operation fails, output is
  taken.\<close>

inductive socket_event :: "conn \<Rightarrow> conn \<Rightarrow> bool" where
  "rd c = ReadPending \<Longrightarrow> socket_event c (c\<lparr>rd := ReadData d\<rparr>)"
| "rd c = ReadPending \<Longrightarrow> socket_event c (c\<lparr>rd := ReadError\<rparr>)"
| "wr c = WritePending st len \<Longrightarrow> n \<le> len \<Longrightarrow> length junk = n \<Longrightarrow> socket_event c (socket_takes n junk c)"
| "wr c = WritePending st len \<Longrightarrow> socket_event c (c\<lparr>wr := WriteError\<rparr>)"

definition io_runs :: "server \<Rightarrow> bool" where
  "io_runs s \<longleftrightarrow> io_started s \<and> \<not> io_ended s"

text \<open>The io thread ends when the io context has nothing left to do, and shuts down once more.  A
  context that has run out of work stays stopped, because \<open>Start\<close> does not restart it: the io
  thread of a later \<open>Start\<close> runs no handler and shuts down at once (\<open>again\<close>).\<close>

inductive srv_step :: "server \<Rightarrow> server \<Rightarrow> bool" where
  start: "m_bRunning s \<or> io_started s = io_ended s \<Longrightarrow> srv_step s (snd (Start listens nPort s))"
| stop: "srv_step s (Stop s)"
| arrives: "acceptor_open s \<Longrightarrow> io_runs s \<Longrightarrow> srv_step s (s\<lparr>accept_ready := True\<rparr>)"
| accept: "accept_ready s \<Longrightarrow> io_runs s \<Longrightarrow>
    srv_step s (HandleAccept strPeer nCapacity nNow (s\<lparr>accept_ready := False\<rparr>))"
| send: "srv_step s (snd (Send nId d s))"
| close: "srv_step s (Close nId s)"
| max: "srv_step s (SetMaxConnections nMax s)"
| idle: "srv_step s (SetIdleTimeout nSeconds s)"
| tick: "m_pIdleTimer s = TimerArmed \<Longrightarrow> io_runs s \<Longrightarrow> srv_step s (idle_tick nNow s)"
| task: "posted s = t # rest \<Longrightarrow> io_runs s \<Longrightarrow> srv_step s (run_task t cap (s\<lparr>posted := rest\<rparr>))"
| event: "r < length (heap s) \<Longrightarrow> socket_event (heap s ! r) c \<Longrightarrow> srv_step s (set_conn r c s)"
| read: "r < length (heap s) \<Longrightarrow> rd (heap s ! r) = ReadData d \<or> rd (heap s ! r) = ReadError \<Longrightarrow> io_runs s \<Longrightarrow>
    conn_read r nNow s = Some s' \<Longrightarrow> srv_step s s'"
| written: "r < length (heap s) \<Longrightarrow> wr (heap s ! r) = WriteDone n \<or> wr (heap s ! r) = WriteError \<Longrightarrow> io_runs s \<Longrightarrow>
    srv_step s (conn_written r s)"
| ended: "\<not> acceptor_open s \<Longrightarrow> \<not> accept_ready s \<Longrightarrow> posted s = [] \<Longrightarrow> m_pIdleTimer s \<noteq> TimerArmed \<Longrightarrow>
    \<forall>c \<in> set (heap s). rd c = NoRead \<and> wr c = NoWrite \<Longrightarrow> io_runs s \<Longrightarrow>
    srv_step s ((ShutdownOnIoThread s)\<lparr>io_ended := True\<rparr>)"
| again: "io_ended s \<Longrightarrow> acceptor_open s \<Longrightarrow> srv_step s (ShutdownOnIoThread s)"

inductive srv_reach :: "server \<Rightarrow> bool" where
  srv_start: "srv_reach CTcpServer"
| srv_next: "srv_reach s \<Longrightarrow> srv_step s s' \<Longrightarrow> srv_reach s'"

subsection \<open>The tables\<close>

text \<open>The connection \<open>r\<close> of the heap was given the identifier \<open>r + 1\<close>.\<close>

definition heap_ok :: "server \<Rightarrow> bool" where
  "heap_ok s \<longleftrightarrow> m_nNextId s = of_nat (Suc (length (heap s)))
     \<and> (\<forall>r < length (heap s). m_id (heap s ! r) = of_nat (Suc r) \<and> conn_inv (heap s ! r))"

definition tables_ok :: "server \<Rightarrow> bool" where
  "tables_ok s \<longleftrightarrow> sm_ok (m_mapConnections s) \<and> map fst (m_mapPeerAddresses s) = map fst (m_mapConnections s)
     \<and> (\<forall>i r. sm_find (m_mapConnections s) i = Some r \<longrightarrow> r < length (heap s) \<and> i = of_nat (Suc r))"

definition counts_ok :: "server \<Rightarrow> bool" where
  "counts_ok s \<longleftrightarrow> m_nTotalAccepted s + of_nat (stray s) = m_nTotalClosed s + of_nat (length (m_mapConnections s))
     \<and> m_nConnectionCount s \<le> length (m_mapConnections s)
     \<and> (stray s = 0 \<longrightarrow> m_nConnectionCount s = length (m_mapConnections s))"

definition accepted_ids :: "server \<Rightarrow> u64 set" where
  "accepted_ids s = {i. \<exists>a. OnAccept i a \<in> set (calls s)}"

definition closed_ids :: "server \<Rightarrow> u64 set" where
  "closed_ids s = {i. OnClose i \<in> set (calls s)}"

definition calls_ok :: "server \<Rightarrow> bool" where
  "calls_ok s \<longleftrightarrow> accepted_ids s = (\<lambda>r. of_nat (Suc r)) ` {..<length (heap s)}
     \<and> accepted_ids s \<subseteq> closed_ids s \<union> fst ` set (m_mapConnections s)
     \<and> closed_ids s \<subseteq> accepted_ids s \<and> (\<forall>i d. OnData i d \<in> set (calls s) \<longrightarrow> i \<in> accepted_ids s)"

definition srv_inv :: "server \<Rightarrow> bool" where
  "srv_inv s \<longleftrightarrow> heap_ok s \<and> tables_ok s \<and> counts_ok s \<and> calls_ok s"

lemmas srv_inv_defs = srv_inv_def heap_ok_def tables_ok_def counts_ok_def calls_ok_def accepted_ids_def closed_ids_def

text \<open>Operations that touch neither tables nor connections.\<close>

definition same_tables :: "server \<Rightarrow> server \<Rightarrow> bool" where
  "same_tables s s' \<longleftrightarrow> length (heap s') = length (heap s) \<and> m_mapConnections s' = m_mapConnections s
     \<and> m_mapPeerAddresses s' = m_mapPeerAddresses s \<and> m_nConnectionCount s' = m_nConnectionCount s
     \<and> m_nTotalAccepted s' = m_nTotalAccepted s \<and> m_nTotalClosed s' = m_nTotalClosed s \<and> stray s' = stray s
     \<and> calls s' = calls s"

definition same_core :: "server \<Rightarrow> server \<Rightarrow> bool" where
  "same_core s s' \<longleftrightarrow> same_tables s s' \<and> heap s' = heap s \<and> m_nNextId s' = m_nNextId s"

lemma srv_inv_tables:
  assumes same: "same_tables s s'" and inv: "srv_inv s" and heap: "heap_ok s'"
  shows "srv_inv s'"
proof -
  have eqs: "length (heap s') = length (heap s)" "m_mapConnections s' = m_mapConnections s"
    "m_mapPeerAddresses s' = m_mapPeerAddresses s" "m_nConnectionCount s' = m_nConnectionCount s"
    "m_nTotalAccepted s' = m_nTotalAccepted s" "m_nTotalClosed s' = m_nTotalClosed s" "stray s' = stray s" "calls s' = calls s"
    using same by (simp_all add: same_tables_def)
  have "tables_ok s' = tables_ok s" "counts_ok s' = counts_ok s" "calls_ok s' = calls_ok s"
    by (simp_all only: tables_ok_def counts_ok_def calls_ok_def accepted_ids_def closed_ids_def eqs)
  with inv heap show ?thesis by (simp add: srv_inv_def)
qed

lemma srv_inv_same:
  assumes "same_core s s'" and "srv_inv s"
  shows "srv_inv s'"
proof (rule srv_inv_tables[OF _ assms(2)])
  show "same_tables s s'" using assms(1) by (simp add: same_core_def)
  have "heap s' = heap s" "m_nNextId s' = m_nNextId s" using assms(1) by (simp_all add: same_core_def)
  then show "heap_ok s'" using assms(2) by (simp add: srv_inv_def heap_ok_def)
qed

lemmas same_defs = same_core_def same_tables_def

lemma fold_Close_same: "same_core s (fold Close ids s)"
proof (induction ids arbitrary: s)
  case (Cons i ids)
  have "same_core s (Close i s)" by (simp add: same_defs Close_def post_def)
  with Cons[of "Close i s"] show ?case by (simp add: same_defs)
qed (simp add: same_defs)

lemma fold_Close_fields: "m_nIdleSeconds (fold Close ids s) = m_nIdleSeconds s" "m_bRunning (fold Close ids s) = m_bRunning s"
  by (induction ids arbitrary: s) (simp_all add: Close_def post_def)

text \<open>A step of one connection object.\<close>

lemma conn_step_id: "conn_step c cs c' \<Longrightarrow> m_id c' = m_id c"
  by (induction rule: conn_step.induct)
    (auto simp: StartRead_def DoRead_def start_read_def HandleRead_def HandleError_def close_socket_def AppendWrite_def append_output_def
      DoWrite_def start_write_def socket_takes_def HandleWrite_def CloseOnIoThread_def Let_def
      split: if_splits read_state.splits write_state.splits option.splits)

lemma srv_inv_set_conn:
  assumes inv: "srv_inv s" and r: "r < length (heap s)" and st: "conn_step (heap s ! r) cs c"
  shows "srv_inv (set_conn r c s)"
proof (rule srv_inv_tables[OF _ inv])
  show "same_tables s (set_conn r c s)" by (simp add: same_tables_def set_conn_def)
  have heap: "heap_ok s" using inv by (simp add: srv_inv_def)
  then have "conn_inv c" "m_id c = m_id (heap s ! r)"
    using conn_inv_step[OF st] conn_step_id[OF st] r by (simp_all add: heap_ok_def)
  with heap r show "heap_ok (set_conn r c s)" by (simp add: heap_ok_def set_conn_def nth_list_update)
qed

lemma socket_event_step: "socket_event c c' \<Longrightarrow> conn_step c [] c'"
  by (induction rule: socket_event.induct) (auto intro: conn_step.intros)

lemma sm_erase_keys: "map fst (sm_erase k m) = filter (\<lambda>i. i \<noteq> k) (map fst m)"
  by (induction m) (auto simp: sm_erase_def)

lemma length_sm_erase:
  "sm_ok m \<Longrightarrow> length (sm_erase k m) + (if sm_find m k = None then 0 else 1) = length m"
proof (induction m)
  case (Cons p m)
  have ok: "sm_ok m" "\<forall>q \<in> set m. fst p < fst q" using Cons(2) by (auto simp: sm_ok_def)
  show ?case
  proof (cases "fst p = k")
    case True
    then have "sm_erase k m = m" using ok(2) by (force simp: sm_erase_def filter_id_conv)
    with True show ?thesis by (cases p) (simp add: sm_erase_def sm_find_def)
  next
    case False
    with Cons(1)[OF ok(1)] show ?thesis by (cases p) (auto simp: sm_erase_def sm_find_def)
  qed
qed (simp add: sm_erase_def)

lemma sm_put_keys:
  "map fst m = map fst m' \<Longrightarrow> map fst (sm_put k v m) = map fst (sm_put k v' m')"
proof (induction k v m arbitrary: m' rule: sm_put.induct)
  case (2 k v k1 v1 m)
  then obtain v2 m2 where m': "m' = (k1, v2) # m2" "map fst m = map fst m2" by (cases m') auto
  show ?case using 2(1)[OF _ _ m'(2)] m' by simp
qed simp

lemma length_sm_put: "sm_find m k = None \<Longrightarrow> length (sm_put k v m) = Suc (length m)"
  by (induction k v m rule: sm_put.induct) (auto simp: sm_find_def split: if_splits)

subsection \<open>Every step keeps them\<close>

lemma heap_ok_cong: "heap s' = heap s \<Longrightarrow> m_nNextId s' = m_nNextId s \<Longrightarrow> heap_ok s' = heap_ok s"
  by (simp only: heap_ok_def)

lemma unat_id: "r < 2 ^ 64 - 1 \<Longrightarrow> unat (of_nat (Suc r) :: u64) = Suc r"
  by (intro of_nat_inverse[OF refl]) simp

text \<open>Accepting a connection.\<close>

lemma accepted_ids_call: "accepted_ids (call (OnAccept i a) s) = insert i (accepted_ids s)"
  "closed_ids (call (OnAccept i a) s) = closed_ids s" "accepted_ids (call (OnClose i) s) = accepted_ids s"
  "closed_ids (call (OnClose i) s) = insert i (closed_ids s)" "accepted_ids (call (OnData i d) s) = accepted_ids s"
  "closed_ids (call (OnData i d) s) = closed_ids s"
  by (auto simp: accepted_ids_def closed_ids_def call_def)

lemma calls_ok_accept:
  assumes ok: "calls_ok s"
    and eqs: "length (heap s') = Suc (length (heap s))" "calls s' = calls s @ [OnAccept (of_nat (Suc (length (heap s)))) a]"
    and tab: "fst ` set (m_mapConnections s') = insert (of_nat (Suc (length (heap s)))) (fst ` set (m_mapConnections s))"
  shows "calls_ok s'"
proof -
  have ids: "accepted_ids s' = insert (of_nat (Suc (length (heap s)))) (accepted_ids s)" "closed_ids s' = closed_ids s"
    "OnData k d \<in> set (calls s') \<longleftrightarrow> OnData k d \<in> set (calls s)" for k d
    unfolding accepted_ids_def closed_ids_def eqs by auto
  show ?thesis using ok unfolding calls_ok_def ids eqs(1) tab lessThan_Suc image_insert by blast
qed

lemma srv_inv_accept:
  assumes inv: "srv_inv s" and n: "length (heap s) < 2 ^ 64 - 1"
  shows "srv_inv (HandleAccept strPeer cap nNow s)"
proof (cases "m_nMaxConnections s > 0 \<and> m_nConnectionCount s \<ge> m_nMaxConnections s")
  case False
  let ?i = "of_nat (Suc (length (heap s))) :: u64" and ?r = "length (heap s)"
  define c where "c = StartRead (CTcpConnection ?i strPeer cap nNow)"
  define s1 where "s1 = s\<lparr>m_nNextId := ?i + 1, heap := heap s @ [c], m_mapConnections := sm_put ?i ?r (m_mapConnections s),
      m_mapPeerAddresses := sm_put ?i strPeer (m_mapPeerAddresses s), m_nConnectionCount := m_nConnectionCount s + 1,
      m_nTotalAccepted := m_nTotalAccepted s + 1\<rparr>"
  have parts: "heap_ok s" "tables_ok s" "counts_ok s" "calls_ok s" using inv by (simp_all add: srv_inv_def)
  have s': "HandleAccept strPeer cap nNow s = call (OnAccept ?i strPeer) s1"
  proof -
    have nid: "m_nNextId s = ?i" using parts(1) by (simp only: heap_ok_def)
    show ?thesis by (simp only: HandleAccept_def Let_def nid s1_def c_def if_not_P[OF False])
  qed
  have fresh: "sm_find (m_mapConnections s) ?i = None"
  proof (rule ccontr)
    assume "sm_find (m_mapConnections s) ?i \<noteq> None"
    then obtain r where "sm_find (m_mapConnections s) ?i = Some r" by blast
    with parts(2) have "r < ?r" "?i = of_nat (Suc r)" unfolding tables_ok_def by blast+
    then show False using unat_id[of r] unat_id[of ?r] n by (metis Suc_inject less_irrefl less_trans)
  qed
  have c: "m_id c = ?i" "conn_inv c"
    using conn_inv_DoRead[OF conn_inv_init] by (simp_all add: c_def StartRead_def DoRead_def start_read_def CTcpConnection_def)
  have "heap_ok s1"
    using parts(1) c by (auto simp: heap_ok_def s1_def nth_append less_Suc_eq)
  moreover have "tables_ok s1"
    using parts(2) sm_put_keys[of "m_mapPeerAddresses s" "m_mapConnections s" ?i strPeer ?r]
    unfolding tables_ok_def s1_def by (auto simp: less_Suc_eq split: if_splits)
  moreover have "counts_ok s1"
    using parts(3) length_sm_put[OF fresh, of ?r] by (auto simp: counts_ok_def s1_def algebra_simps)
  moreover have "calls_ok (call (OnAccept ?i strPeer) s1)"
    by (rule calls_ok_accept[OF parts(4)]) (simp_all add: call_def s1_def fst_set_sm_put)
  ultimately show ?thesis
    unfolding s' srv_inv_def
    by (simp add: heap_ok_def tables_ok_def counts_ok_def call_def)
qed (simp add: HandleAccept_def inv)

lemma calls_ok_close:
  assumes ok: "calls_ok s" and i: "i \<in> accepted_ids s"
    and eqs: "length (heap s') = length (heap s)" "calls s' = calls s @ [OnClose i]"
    and tab: "fst ` set (m_mapConnections s) \<subseteq> insert i (fst ` set (m_mapConnections s'))"
  shows "calls_ok s'"
proof -
  have ids: "accepted_ids s' = accepted_ids s" "closed_ids s' = insert i (closed_ids s)"
    "OnData k d \<in> set (calls s') \<longleftrightarrow> OnData k d \<in> set (calls s)" for k d
    by (auto simp: accepted_ids_def closed_ids_def eqs)
  show ?thesis using ok i tab unfolding calls_ok_def ids eqs(1) by blast
qed

text \<open>Forgetting a connection that is in the table, and reporting it closed.\<close>

lemma srv_inv_close_known:
  assumes inv: "srv_inv s" and known: "sm_find (m_mapConnections s) i = Some r"
  shows "srv_inv (call (OnClose i) (forget i s))"
proof -
  have parts: "heap_ok s" "tables_ok s" "counts_ok s" "calls_ok s" using inv by (simp_all add: srv_inv_def)
  define s1 where "s1 = forget i s"
  have len: "length (m_mapConnections s1) + 1 = length (m_mapConnections s)"
    using length_sm_erase[of "m_mapConnections s" i] parts(2) known by (simp add: s1_def forget_def tables_ok_def)
  have "heap_ok s1" using parts(1) by (simp add: s1_def forget_def heap_ok_def)
  moreover have "tables_ok s1"
    using parts(2) by (auto simp: tables_ok_def s1_def forget_def sm_erase_keys split: if_splits)
  moreover have "counts_ok s1"
  proof -
    have "(of_nat (length (m_mapConnections s)) :: u64) = of_nat (length (m_mapConnections s1)) + 1"
      unfolding len[symmetric] by simp
    moreover have "m_nConnectionCount s1 = m_nConnectionCount s - 1" "stray s1 = stray s"
      "m_nTotalAccepted s1 = m_nTotalAccepted s" "m_nTotalClosed s1 = m_nTotalClosed s + 1"
      by (simp_all add: s1_def forget_def)
    ultimately show ?thesis using parts(3) len by (auto simp: counts_ok_def algebra_simps)
  qed
  moreover have "calls_ok (call (OnClose i) s1)"
  proof -
    have "r < length (heap s)" "i = of_nat (Suc r)" using parts(2) known unfolding tables_ok_def by blast+
    then have mem: "i \<in> accepted_ids s" using parts(4) unfolding calls_ok_def by blast
    show ?thesis
      by (rule calls_ok_close[OF parts(4) mem]) (auto simp: s1_def forget_def call_def sm_erase_def)
  qed
  ultimately show ?thesis
    unfolding s1_def[symmetric] srv_inv_def
    by (simp add: heap_ok_def tables_ok_def counts_ok_def call_def)
qed

text \<open>A second close of a connection the table no longer has: the tables stay, the counters
  drift.\<close>

lemma srv_inv_close_stray:
  assumes inv: "srv_inv s" and known: "sm_find (m_mapConnections s) i = None" and acc: "i \<in> accepted_ids s"
  shows "srv_inv (call (OnClose i) (forget i (s\<lparr>stray := stray s + 1\<rparr>)))"
proof -
  have parts: "heap_ok s" "tables_ok s" "counts_ok s" "calls_ok s" using inv by (simp_all add: srv_inv_def)
  have same: "sm_erase i (m_mapConnections s) = m_mapConnections s" by (rule sm_erase_absent[OF known])
  define s1 where "s1 = forget i (s\<lparr>stray := stray s + 1\<rparr>)"
  have f: "heap s1 = heap s" "m_nNextId s1 = m_nNextId s" "m_mapConnections s1 = m_mapConnections s"
    "m_mapPeerAddresses s1 = sm_erase i (m_mapPeerAddresses s)" "calls s1 = calls s"
    by (simp_all add: s1_def forget_def same)
  have "heap_ok s1" using parts(1) heap_ok_cong[OF f(1,2)] by simp
  moreover have "tables_ok s1"
  proof -
    have "map fst (m_mapPeerAddresses s1) = map fst (m_mapConnections s)"
      using parts(2) sm_erase_keys[of i "m_mapConnections s"] by (simp add: f tables_ok_def sm_erase_keys same)
    then show ?thesis using parts(2) by (simp add: tables_ok_def f)
  qed
  moreover have "counts_ok s1"
    using parts(3) by (auto simp: counts_ok_def f) (auto simp: s1_def forget_def algebra_simps)
  moreover have "calls_ok (call (OnClose i) s1)"
  proof -
    show ?thesis by (rule calls_ok_close[OF parts(4) acc]) (auto simp: call_def f)
  qed
  ultimately show ?thesis
    unfolding s1_def[symmetric] srv_inv_def
    by (simp add: heap_ok_def tables_ok_def counts_ok_def call_def)
qed

lemma heap_id_accepted: "srv_inv s \<Longrightarrow> r < length (heap s) \<Longrightarrow> m_id (heap s ! r) \<in> accepted_ids s"
  by (auto simp: srv_inv_def heap_ok_def calls_ok_def)

lemma srv_inv_HandleClose: "srv_inv s \<Longrightarrow> r < length (heap s) \<Longrightarrow> srv_inv (HandleClose r s)"
  using srv_inv_close_known[of s "m_id (heap s ! r)"] srv_inv_close_stray[of s "m_id (heap s ! r)"]
    heap_id_accepted[of s r]
  by (cases "sm_find (m_mapConnections s) (m_id (heap s ! r))") (simp_all add: HandleClose_def Let_def)

lemma srv_inv_HandleData: "srv_inv s \<Longrightarrow> r < length (heap s) \<Longrightarrow> srv_inv (HandleData r d s)"
proof -
  assume inv: "srv_inv s" and r: "r < length (heap s)"
  note acc = heap_id_accepted[OF inv r]
  have "calls_ok (call (OnData (m_id (heap s ! r)) d) s)"
    using inv acc unfolding srv_inv_def calls_ok_def accepted_ids_call
    by (auto simp: call_def)
  with inv show ?thesis
    unfolding HandleData_def srv_inv_def by (simp add: heap_ok_def tables_ok_def counts_ok_def call_def)
qed

lemma run_calls_heap: "heap (run_calls r cs s) = heap s"
  by (induction r cs s rule: run_calls.induct) (simp_all add: HandleData_def HandleClose_def call_def forget_def Let_def)

lemma HandleX_heap [simp]: "heap (HandleData r d s) = heap s" "heap (HandleClose r s) = heap s"
  by (simp_all add: HandleData_def HandleClose_def call_def forget_def Let_def)

lemma srv_inv_run_calls: "srv_inv s \<Longrightarrow> r < length (heap s) \<Longrightarrow> srv_inv (run_calls r cs s)"
  by (induction r cs s rule: run_calls.induct) (simp_all add: srv_inv_HandleClose srv_inv_HandleData)

text \<open>The shutdown.\<close>

lemma fold_shutdown_conn:
  "heap (fold shutdown_conn es s) = heap s \<and> m_nNextId (fold shutdown_conn es s) = m_nNextId s
   \<and> m_mapConnections (fold shutdown_conn es s) = m_mapConnections s
   \<and> m_mapPeerAddresses (fold shutdown_conn es s) = m_mapPeerAddresses s
   \<and> m_nConnectionCount (fold shutdown_conn es s) = m_nConnectionCount s
   \<and> m_nTotalAccepted (fold shutdown_conn es s) = m_nTotalAccepted s \<and> stray (fold shutdown_conn es s) = stray s
   \<and> m_nTotalClosed (fold shutdown_conn es s) = m_nTotalClosed s + of_nat (length es)
   \<and> acceptor_open (fold shutdown_conn es s) = acceptor_open s
   \<and> io_ended (fold shutdown_conn es s) = io_ended s \<and> io_started (fold shutdown_conn es s) = io_started s
   \<and> m_bRunning (fold shutdown_conn es s) = m_bRunning s
   \<and> calls (fold shutdown_conn es s) = calls s @ map (\<lambda>e. OnClose (m_id (heap s ! snd e))) es"
proof (induction es arbitrary: s)
  case (Cons e es)
  have "heap (shutdown_conn e s) = heap s" by (simp add: shutdown_conn_def conn_close_def conn_send_def call_def post_def)
  with Cons[of "shutdown_conn e s"] show ?case
    by (simp add: shutdown_conn_def conn_close_def conn_send_def call_def post_def)
qed simp

lemma srv_inv_shutdown:
  assumes inv: "srv_inv s"
  shows "srv_inv (ShutdownOnIoThread s)" and "m_mapConnections (ShutdownOnIoThread s) = []"
    and "m_nConnectionCount (ShutdownOnIoThread s) = 0" and "accepted_ids (ShutdownOnIoThread s) = closed_ids (ShutdownOnIoThread s)"
    and "acceptor_open (ShutdownOnIoThread s) = False"
proof -
  define s0 where "s0 = s\<lparr>m_pIdleTimer := NoTimer, acceptor_open := False, m_mapConnections := [], m_mapPeerAddresses := [],
      m_nConnectionCount := 0\<rparr>"
  define s' where "s' = ShutdownOnIoThread s"
  have parts: "heap_ok s" "tables_ok s" "counts_ok s" "calls_ok s" using inv by (simp_all add: srv_inv_def)
  have s'_def': "s' = fold shutdown_conn (m_mapConnections s) s0" by (simp add: s'_def ShutdownOnIoThread_def s0_def)
  note f = fold_shutdown_conn[of "m_mapConnections s" s0, folded s'_def', unfolded s0_def, simplified]
  have key: "m_id (heap s ! r) = i" if "(i, r) \<in> set (m_mapConnections s)" for i r
  proof -
    have "sm_find (m_mapConnections s) i = Some r" using parts(2) that by (simp add: tables_ok_def sm_find_Some_iff)
    then have "r < length (heap s)" "i = of_nat (Suc r)" using parts(2) unfolding tables_ok_def by blast+
    then show ?thesis using parts(1) unfolding heap_ok_def by simp
  qed
  then have calls: "set (calls s') = set (calls s) \<union> OnClose ` fst ` set (m_mapConnections s)"
    using f by (force simp: image_iff)
  have closed: "closed_ids s' = closed_ids s \<union> fst ` set (m_mapConnections s)" and acc: "accepted_ids s' = accepted_ids s"
    by (auto simp: closed_ids_def accepted_ids_def calls)
  have tab: "fst ` set (m_mapConnections s) \<subseteq> accepted_ids s"
  proof
    fix i
    assume "i \<in> fst ` set (m_mapConnections s)"
    then obtain r where "(i, r) \<in> set (m_mapConnections s)" by auto
    then have "sm_find (m_mapConnections s) i = Some r" using parts(2) by (simp add: tables_ok_def sm_find_Some_iff)
    then have "r < length (heap s)" "i = of_nat (Suc r)" using parts(2) unfolding tables_ok_def by blast+
    then show "i \<in> accepted_ids s" using parts(4) unfolding calls_ok_def by blast
  qed
  have eq: "accepted_ids s' = closed_ids s'" using parts(4) tab unfolding closed acc calls_ok_def by blast
  show "m_mapConnections (ShutdownOnIoThread s) = []" "m_nConnectionCount (ShutdownOnIoThread s) = 0"
    "acceptor_open (ShutdownOnIoThread s) = False"
    using f by (simp_all add: s'_def)
  show "accepted_ids (ShutdownOnIoThread s) = closed_ids (ShutdownOnIoThread s)" using eq by (simp add: s'_def)
  have "heap_ok s'" using parts(1) f heap_ok_cong[of s' s] by blast
  moreover have "tables_ok s'" using f by (simp add: tables_ok_def)
  moreover have "counts_ok s'" using parts(3) f by (simp add: counts_ok_def algebra_simps)
  moreover have "calls_ok s'"
  proof -
    have len: "length (heap s') = length (heap s)" using f by simp
    have dat: "OnData i d \<in> set (calls s') \<longleftrightarrow> OnData i d \<in> set (calls s)" for i d by (auto simp: calls)
    show ?thesis using parts(4) eq unfolding calls_ok_def acc len dat by blast
  qed
  ultimately show "srv_inv (ShutdownOnIoThread s)" by (simp add: srv_inv_def s'_def)
qed

lemma srv_inv_conn_close: "srv_inv (conn_close r s) = srv_inv s"
proof -
  have "same_core s (conn_close r s)" "same_core (conn_close r s) s" by (simp_all add: same_defs conn_close_def conn_send_def post_def)
  then show ?thesis using srv_inv_same by blast
qed

lemma call_conn_close: "call c (conn_close r s) = conn_close r (call c s)"
  by (simp add: call_def conn_close_def conn_send_def post_def)

lemma tables_heap: "srv_inv s \<Longrightarrow> sm_find (m_mapConnections s) i = Some r \<Longrightarrow> r < length (heap s)"
  by (simp add: srv_inv_def tables_ok_def)

definition task_ok :: "nat \<Rightarrow> srv_task \<Rightarrow> bool" where
  "task_ok n t = (case t of TaskAppend r d \<Rightarrow> r < n | TaskConnClose r \<Rightarrow> r < n | _ \<Rightarrow> True)"

lemma srv_inv_task:
  assumes inv: "srv_inv s" and t: "task_ok (length (heap s)) t"
  shows "srv_inv (run_task t cap s)"
proof (cases t)
  case (TaskSend i d)
  have "same_core s (run_task t cap s)" by (simp add: TaskSend same_defs post_def conn_send_def split: option.split)
  then show ?thesis using inv by (rule srv_inv_same)
next
  case (TaskAppend r d)
  then show ?thesis using srv_inv_set_conn[OF inv _ conn_step.append] t by (simp add: task_ok_def)
next
  case (TaskClose i)
  show ?thesis
  proof (cases "sm_find (m_mapConnections s) i")
    case (Some r)
    show ?thesis
      using srv_inv_close_known[OF inv Some] by (simp add: TaskClose Some call_conn_close srv_inv_conn_close)
  qed (simp add: TaskClose inv)
next
  case (TaskConnClose r)
  then show ?thesis using srv_inv_set_conn[OF inv _ conn_step.close] t by (simp add: task_ok_def)
next
  case TaskStartIdle
  have "same_core s (run_task t cap s)" by (simp add: TaskStartIdle same_defs StartIdleTimer_def)
  then show ?thesis using inv by (rule srv_inv_same)
next
  case TaskShutdown
  then show ?thesis using srv_inv_shutdown(1)[OF inv] by simp
qed

subsection \<open>Reachable states\<close>

definition posted_ok :: "server \<Rightarrow> bool" where
  "posted_ok s \<longleftrightarrow> (\<forall>t \<in> set (posted s). task_ok (length (heap s)) t)"

definition ended_ok :: "server \<Rightarrow> bool" where
  "ended_ok s \<longleftrightarrow> io_ended s \<longrightarrow> m_mapConnections s = [] \<and> m_nConnectionCount s = 0 \<and> accepted_ids s = closed_ids s"

definition full_inv :: "server \<Rightarrow> bool" where
  "full_inv s \<longleftrightarrow> srv_inv s \<and> posted_ok s \<and> ended_ok s"

lemma task_ok_mono: "task_ok n t \<Longrightarrow> n \<le> m \<Longrightarrow> task_ok m t"
  by (cases t) (auto simp: task_ok_def)

lemma task_ok_simps [simp]: "task_ok n (TaskSend i d)" "task_ok n (TaskClose i)" "task_ok n TaskStartIdle" "task_ok n TaskShutdown"
  "task_ok n (TaskAppend r d) = (r < n)" "task_ok n (TaskConnClose r) = (r < n)"
  by (simp_all add: task_ok_def)

lemma fold_shutdown_posted:
  "t \<in> set (posted (fold shutdown_conn es s)) \<Longrightarrow> t \<in> set (posted s) \<or> (\<exists>e \<in> set es. t = TaskConnClose (snd e))"
proof (induction es arbitrary: s)
  case (Cons e es)
  from Cons(2) Cons(1)[of "shutdown_conn e s"] show ?case
    by (auto simp: shutdown_conn_def conn_close_def conn_send_def call_def post_def split: if_splits)
qed simp

lemma run_calls_posted: "posted (run_calls r cs s) = posted s"
  by (induction r cs s rule: run_calls.induct) (simp_all add: HandleData_def HandleClose_def call_def forget_def Let_def)

lemma posted_shutdown: "srv_inv s \<Longrightarrow> posted_ok s \<Longrightarrow> posted_ok (ShutdownOnIoThread s)"
proof -
  assume inv: "srv_inv s" and ok: "posted_ok s"
  let ?s0 = "s\<lparr>m_pIdleTimer := NoTimer, acceptor_open := False, m_mapConnections := [], m_mapPeerAddresses := [],
      m_nConnectionCount := 0\<rparr>"
  have refs: "r < length (heap s)" if "(i, r) \<in> set (m_mapConnections s)" for i r
    using that inv by (intro tables_heap[OF inv, of i]) (simp add: srv_inv_def tables_ok_def sm_find_Some_iff)
  have heap: "heap (ShutdownOnIoThread s) = heap s" using fold_shutdown_conn[of "m_mapConnections s" ?s0] by (simp add: ShutdownOnIoThread_def)
  show ?thesis
    unfolding posted_ok_def heap
  proof
    fix t
    assume "t \<in> set (posted (ShutdownOnIoThread s))"
    then have "t \<in> set (posted s) \<or> (\<exists>e \<in> set (m_mapConnections s). t = TaskConnClose (snd e))"
      using fold_shutdown_posted[of t "m_mapConnections s" ?s0] by (simp add: ShutdownOnIoThread_def)
    then show "task_ok (length (heap s)) t" using ok refs by (auto simp: posted_ok_def)
  qed
qed

lemma posted_task:
  assumes inv: "srv_inv s" and ok: "posted_ok s" and t: "task_ok (length (heap s)) t"
  shows "posted_ok (run_task t cap s)"
proof (cases t)
  case (TaskSend i d)
  with ok tables_heap[OF inv, of i] show ?thesis by (auto simp: posted_ok_def post_def conn_send_def split: option.split)
next
  case (TaskClose i)
  with ok tables_heap[OF inv, of i] show ?thesis
    by (auto simp: posted_ok_def post_def call_def conn_close_def conn_send_def forget_def split: option.split)
next
  case TaskShutdown
  then show ?thesis using posted_shutdown[OF inv ok] by simp
qed (use ok in \<open>simp_all add: posted_ok_def set_conn_def StartIdleTimer_def\<close>)

lemma full_inv_same: "same_core s s' \<Longrightarrow> io_ended s' = io_ended s \<Longrightarrow> posted_ok s' \<Longrightarrow> full_inv s \<Longrightarrow> full_inv s'"
  using srv_inv_same[of s s'] by (auto simp: full_inv_def ended_ok_def same_defs accepted_ids_def closed_ids_def)

text \<open>What happens while the io thread runs only has to keep the tables and the posted closures.\<close>

lemma full_inv_running: "srv_inv s' \<Longrightarrow> posted_ok s' \<Longrightarrow> \<not> io_ended s' \<Longrightarrow> full_inv s'"
  by (simp add: full_inv_def ended_ok_def)

lemma run_calls_ended: "io_ended (run_calls r cs s) = io_ended s"
  by (induction r cs s rule: run_calls.induct) (simp_all add: HandleData_def HandleClose_def call_def forget_def Let_def)

lemma run_task_ended: "io_ended (run_task t cap s) = io_ended s"
  using fold_shutdown_conn
  by (cases t) (simp_all add: post_def call_def conn_close_def conn_send_def forget_def set_conn_def StartIdleTimer_def
      ShutdownOnIoThread_def split: option.split)

lemma full_inv_conn:
  assumes inv: "full_inv s" and r: "r < length (heap s)" and st: "conn_step (heap s ! r) cs c"
  shows "full_inv (set_conn r c s)"
proof -
  have "srv_inv (set_conn r c s)" using srv_inv_set_conn[OF _ r st] inv by (simp add: full_inv_def)
  with inv show ?thesis
    by (simp add: full_inv_def posted_ok_def ended_ok_def set_conn_def accepted_ids_def closed_ids_def)
qed

lemma full_inv_calls:
  assumes inv: "full_inv s" and r: "r < length (heap s)" and st: "conn_step (heap s ! r) cs c" and runs: "io_runs s"
  shows "full_inv (run_calls r cs (set_conn r c s))"
proof -
  have "full_inv (set_conn r c s)" by (rule full_inv_conn[OF inv r st])
  moreover have "r < length (heap (set_conn r c s))" "\<not> io_ended (set_conn r c s)"
    using r runs by (simp_all add: set_conn_def io_runs_def)
  ultimately show ?thesis
    by (intro full_inv_running) (simp_all add: srv_inv_run_calls full_inv_def posted_ok_def run_calls_posted run_calls_heap run_calls_ended)
qed

lemma full_inv_step:
  assumes "srv_step s s'" and inv: "full_inv s" and n: "length (heap s') < 2 ^ 64"
  shows "full_inv s'"
  using assms(1)
proof (cases rule: srv_step.cases)
  case (accept strPeer cap nNow)
  let ?s = "s\<lparr>accept_ready := False\<rparr>"
  have same: "full_inv ?s" by (rule full_inv_same[OF _ _ _ inv]) (use inv in \<open>simp_all add: same_defs full_inv_def posted_ok_def\<close>)
  show ?thesis
  proof (cases "HandleAccept strPeer cap nNow ?s = ?s")
    case False
    then have "length (heap s') = Suc (length (heap s))"
      using accept(1) by (auto simp: HandleAccept_def call_def Let_def split: if_splits)
    with n have "length (heap ?s) < 2 ^ 64 - 1" by simp
    then have "srv_inv s'" using srv_inv_accept same accept(1) by (simp add: full_inv_def)
    moreover have "posted_ok s'"
      using same accept(1) by (auto simp: full_inv_def posted_ok_def HandleAccept_def call_def Let_def intro: task_ok_mono)
    moreover have "\<not> io_ended s'" using accept by (simp add: HandleAccept_def call_def Let_def io_runs_def)
    ultimately show ?thesis by (rule full_inv_running)
  qed (use accept same in simp)
next
  case (task t rest cap)
  let ?s = "s\<lparr>posted := rest\<rparr>"
  have s: "srv_inv ?s" "posted_ok ?s" "task_ok (length (heap ?s)) t"
    using inv task(2) srv_inv_same[of s ?s] by (auto simp: full_inv_def posted_ok_def same_defs)
  have "\<not> io_ended s'" using task by (simp add: run_task_ended io_runs_def)
  with srv_inv_task[OF s(1,3)] posted_task[OF s] task(1) show ?thesis by (simp add: full_inv_running)
next
  case (event r c)
  show ?thesis unfolding event(1) by (rule full_inv_conn[OF inv event(2) socket_event_step[OF event(3)]])
next
  case (read r d nNow)
  then obtain cs c where c: "HandleRead nNow (heap s ! r) = Some (cs, c)" "s' = run_calls r cs (set_conn r c s)"
    by (auto simp: conn_read_def split: option.splits)
  show ?thesis unfolding c(2) by (rule full_inv_calls[OF inv read(1) conn_step.read[OF read(2) c(1)] read(3)])
next
  case (written r k)
  obtain cs c where c: "HandleWrite (heap s ! r) = (cs, c)" by force
  then have "s' = run_calls r cs (set_conn r c s)" using written(1) by (simp add: conn_written_def)
  then show ?thesis using full_inv_calls[OF inv written(2) conn_step.written[OF written(3) c] written(4)] by simp
next
  case ended
  have s: "srv_inv s" "posted_ok s" using inv by (simp_all add: full_inv_def)
  note sh = srv_inv_shutdown[OF s(1)]
  have "same_core (ShutdownOnIoThread s) s'" by (simp add: ended(1) same_defs)
  then have "srv_inv s'" using sh(1) by (rule srv_inv_same)
  moreover have "posted_ok s'" using posted_shutdown[OF s] by (simp add: posted_ok_def ended(1))
  moreover have "ended_ok s'" using sh(2-4) by (simp add: ended_ok_def ended(1) accepted_ids_def closed_ids_def)
  ultimately show ?thesis by (simp add: full_inv_def)
next
  case again
  have s: "srv_inv s" "posted_ok s" using inv by (simp_all add: full_inv_def)
  show ?thesis
    using srv_inv_shutdown[OF s(1)] posted_shutdown[OF s] by (simp add: full_inv_def ended_ok_def again(1))
next
  case (tick nNow)
  let ?s = "s\<lparr>m_pIdleTimer := TimerIdle\<rparr>"
  define ids where "ids = (if m_nIdleSeconds s = 0 then []
      else map fst (filter (\<lambda>e. IdleSeconds nNow (heap s ! snd e) \<ge> unat (m_nIdleSeconds s)) (m_mapConnections s)))"
  have "CheckIdleConnections nNow ?s = fold Close ids ?s" by (simp add: CheckIdleConnections_def ids_def)
  then have f: "s' = (let s1 = fold Close ids ?s in if m_bRunning s1 then StartIdleTimer s1 else s1)"
    using tick(1) by (simp add: idle_tick_def)
  have p: "posted (fold Close xs t) = posted t @ map TaskClose xs" "io_ended (fold Close xs t) = io_ended t" for xs t
    by (induction xs arbitrary: t) (simp_all add: Close_def post_def)
  have "same_core s s'" using fold_Close_same[of ?s ids] by (simp add: f same_defs StartIdleTimer_def Let_def)
  then show ?thesis
  proof (rule full_inv_same[OF _ _ _ inv])
    have h: "heap (fold Close ids ?s) = heap s" using fold_Close_same[of ?s ids] by (simp add: same_defs)
    show "io_ended s' = io_ended s" by (simp add: f Let_def StartIdleTimer_def p)
    show "posted_ok s'" using inv by (auto simp: f Let_def StartIdleTimer_def posted_ok_def full_inv_def p h)
  qed
qed (rule full_inv_same[OF _ _ _ inv];
     use inv in \<open>auto simp: same_defs full_inv_def posted_ok_def Start_def Stop_def Send_def Close_def post_def
       SetMaxConnections_def SetIdleTimeout_def Let_def\<close>)+

lemma srv_step_heap: "srv_step s s' \<Longrightarrow> length (heap s) \<le> length (heap s')"
proof (induction rule: srv_step.induct)
  case (task s t rest cap)
  then show ?case using fold_shutdown_conn
    by (cases t) (simp_all add: post_def call_def conn_close_def conn_send_def forget_def set_conn_def StartIdleTimer_def
      ShutdownOnIoThread_def split: option.split)
next
  case (tick s nNow)
  have "heap (CheckIdleConnections nNow t) = heap t" for t
    using fold_Close_same by (simp add: CheckIdleConnections_def same_defs)
  then show ?case by (simp add: idle_tick_def Let_def StartIdleTimer_def)
qed (auto simp: Start_def Stop_def Send_def Close_def post_def SetMaxConnections_def SetIdleTimeout_def HandleAccept_def call_def
    set_conn_def conn_read_def conn_written_def run_calls_heap ShutdownOnIoThread_def fold_shutdown_conn Let_def split_beta
    split: option.splits)

lemma srv_reach_inv: "srv_reach s \<Longrightarrow> length (heap s) < 2 ^ 64 \<Longrightarrow> full_inv s"
proof (induction rule: srv_reach.induct)
  case srv_start
  show ?case
    by (simp add: full_inv_def posted_ok_def ended_ok_def srv_inv_defs CTcpServer_def sm_ok_Nil)
next
  case (srv_next s s')
  have "length (heap s) < 2 ^ 64" by (rule le_less_trans[OF srv_step_heap[OF srv_next(2)] srv_next(4)])
  from full_inv_step[OF srv_next(2) srv_next(3)[OF this] srv_next(4)] show ?case .
qed

subsection \<open>What the server promises\<close>

lemma length_sm_put_le: "length (sm_put k v m) \<le> Suc (length m)"
  by (induction k v m rule: sm_put.induct) auto

lemma length_sm_erase_le: "length (sm_erase k m) \<le> length m"
  by (simp add: sm_erase_def)

lemma run_calls_table_le: "length (m_mapConnections (run_calls r cs s)) \<le> length (m_mapConnections s)"
proof (induction r cs s rule: run_calls.induct)
  case (3 r cs s)
  have "length (m_mapConnections (HandleClose r s)) \<le> length (m_mapConnections s)"
    by (simp add: HandleClose_def call_def forget_def Let_def length_sm_erase_le)
  with 3 show ?case by simp
qed (simp_all add: HandleData_def call_def)

lemma length_heap_bound: "srv_reach s \<Longrightarrow> length (heap s) < 2 ^ 64 \<Longrightarrow> srv_inv s"
  using srv_reach_inv by (simp add: full_inv_def)

lemma run_calls_set_conn_le: "length (m_mapConnections (run_calls r cs (set_conn r' c s))) \<le> length (m_mapConnections s)"
  using run_calls_table_le[of r cs "set_conn r' c s"] by (simp add: set_conn_def)

text \<open>C16. The tables of the server.  In every reachable state the table of connections and the table
  of peer addresses have the same identifiers, an identifier belongs to the connection object that
  was created with it, every connection that was announced and not reported closed is in the
  table, accepted = closed + open up to the closes that came for a connection the table had
  already forgotten, and the connection count is never above the number of open connections, with
  equality as long as no such close happened.\<close>

theorem server_tables:
  assumes "srv_reach s" and "length (heap s) < 2 ^ 64"
  shows "map fst (m_mapPeerAddresses s) = map fst (m_mapConnections s)
    \<and> (HasConnection i s \<longleftrightarrow> (\<exists>r < length (heap s). sm_find (m_mapConnections s) i = Some r \<and> m_id (heap s ! r) = i))
    \<and> accepted_ids s - closed_ids s \<subseteq> fst ` set (m_mapConnections s) \<and> closed_ids s \<subseteq> accepted_ids s
    \<and> TotalAccepted s + of_nat (stray s) = TotalClosed s + of_nat (length (m_mapConnections s))
    \<and> ConnectionCount s \<le> length (m_mapConnections s)
    \<and> (stray s = 0 \<longrightarrow> ConnectionCount s = length (m_mapConnections s))"
proof -
  have inv: "heap_ok s" "tables_ok s" "counts_ok s" "calls_ok s"
    using length_heap_bound[OF assms] by (simp_all add: srv_inv_def)
  have keys: "map fst (m_mapPeerAddresses s) = map fst (m_mapConnections s)" using inv(2) by (simp add: tables_ok_def)
  have ids: "accepted_ids s - closed_ids s \<subseteq> fst ` set (m_mapConnections s)" "closed_ids s \<subseteq> accepted_ids s"
    using inv(4) unfolding calls_ok_def by blast+
  have "HasConnection i s \<longleftrightarrow> i \<in> set (map fst (m_mapPeerAddresses s))"
    by (simp add: HasConnection_def sm_find_None_iff)
  also have "\<dots> \<longleftrightarrow> (\<exists>r. sm_find (m_mapConnections s) i = Some r)"
    unfolding keys using sm_find_None_iff[of "m_mapConnections s" i] by auto
  also have "\<dots> \<longleftrightarrow> (\<exists>r < length (heap s). sm_find (m_mapConnections s) i = Some r \<and> m_id (heap s ! r) = i)"
    using inv(1,2) unfolding heap_ok_def tables_ok_def by metis
  finally show ?thesis
    using keys ids inv(3) by (simp add: counts_ok_def TotalAccepted_def TotalClosed_def ConnectionCount_def)
qed

text \<open>C17. The connection limit.  While no connection has been closed twice, a step never takes the
  number of open connections above the configured limit: it stays what it was, or below it.\<close>

theorem connection_limit:
  assumes reach: "srv_reach s" and step: "srv_step s s'" and n: "length (heap s') < 2 ^ 64" and once: "stray s = 0"
    and limit: "m_nMaxConnections s > 0"
  shows "length (m_mapConnections s') \<le> max (length (m_mapConnections s)) (m_nMaxConnections s)"
proof -
  have inv: "srv_inv s"
    by (rule length_heap_bound[OF reach le_less_trans[OF srv_step_heap[OF step] n]])
  show ?thesis
    using step
  proof (cases rule: srv_step.cases)
    case (accept strPeer cap nNow)
    have count: "m_nConnectionCount s = length (m_mapConnections s)"
      using inv once by (simp add: srv_inv_def counts_ok_def)
    show ?thesis
    proof (cases "m_nConnectionCount s \<ge> m_nMaxConnections s")
      case False
      have "length (m_mapConnections s') \<le> Suc (length (m_mapConnections s))"
        by (simp add: accept(1) HandleAccept_def call_def Let_def length_sm_put_le)
      with False count show ?thesis by simp
    qed (use accept(1) limit in \<open>simp add: HandleAccept_def\<close>)
  next
    case (task t rest cap)
    then show ?thesis
      by (cases t) (auto simp: post_def call_def conn_close_def conn_send_def forget_def set_conn_def StartIdleTimer_def
          ShutdownOnIoThread_def fold_shutdown_conn length_sm_erase_le le_max_iff_disj split: option.split)
  next
    case (tick nNow)
    then show ?thesis
      using fold_Close_same by (simp add: idle_tick_def CheckIdleConnections_def Let_def StartIdleTimer_def same_defs)
  next
    case (read r d nNow)
    then show ?thesis
      by (auto simp: conn_read_def le_max_iff_disj split: option.splits intro: run_calls_set_conn_le)
  next
    case (written r k)
    then show ?thesis
      by (auto simp: conn_written_def le_max_iff_disj split: prod.splits intro: run_calls_set_conn_le)
  qed (auto simp: Start_def Stop_def Send_def Close_def post_def SetMaxConnections_def SetIdleTimeout_def set_conn_def
      ShutdownOnIoThread_def fold_shutdown_conn Let_def)
qed

text \<open>C18. The end of the io thread.  Once the io thread has left its loop every connection ever
  announced has been reported closed, the tables are empty and the connection count is zero; the
  callbacks only ever name connections that were announced.\<close>

theorem shutdown_reports_all:
  assumes "srv_reach s" and "length (heap s) < 2 ^ 64" and "io_ended s"
  shows "accepted_ids s = closed_ids s \<and> m_mapConnections s = [] \<and> \<not> HasConnection i s \<and> ConnectionCount s = 0"
proof -
  have "full_inv s" using srv_reach_inv assms(1,2) by blast
  then have "accepted_ids s = closed_ids s" "m_mapConnections s = []" "m_nConnectionCount s = 0"
    "map fst (m_mapPeerAddresses s) = map fst (m_mapConnections s)"
    using assms(3) by (simp_all add: full_inv_def ended_ok_def srv_inv_def tables_ok_def)
  then show ?thesis by (simp add: HasConnection_def ConnectionCount_def)
qed

subsection \<open>Scenarios\<close>

text \<open>A server that listens, and one with a first connection.\<close>

definition demo_listening :: server where
  "demo_listening = run_task TaskStartIdle 0 ((snd (Start True 80 CTcpServer))\<lparr>posted := []\<rparr>)"

lemma demo_listening_eq: "demo_listening = CTcpServer\<lparr>m_nPort := 80, m_bRunning := True, acceptor_open := True, io_started := True\<rparr>"
  by (simp add: demo_listening_def Start_def post_def CTcpServer_def)

lemma demo_listening_reach: "srv_reach demo_listening"
proof -
  have "srv_reach (snd (Start True 80 CTcpServer))" by (rule srv_next[OF srv_start srv_step.start]) (simp add: CTcpServer_def)
  from srv_next[OF this srv_step.task[of _ TaskStartIdle "[]" 0]] show ?thesis
    by (simp add: demo_listening_def Start_def post_def CTcpServer_def io_runs_def)
qed

text \<open>Two steps in one: a socket arrives and its handler runs.\<close>

lemma reach_accept:
  assumes "srv_reach s" and "acceptor_open s" and "io_runs s"
  shows "srv_reach (HandleAccept strPeer cap nNow (s\<lparr>accept_ready := False\<rparr>))"
proof -
  have "srv_reach (s\<lparr>accept_ready := True\<rparr>)" by (rule srv_next[OF assms(1) srv_step.arrives[OF assms(2,3)]])
  from srv_next[OF this srv_step.accept[of _ strPeer cap nNow]] assms(3) show ?thesis by (simp add: io_runs_def)
qed

lemma reach_task: "srv_reach s \<Longrightarrow> posted s = t # rest \<Longrightarrow> io_runs s \<Longrightarrow> srv_reach (run_task t cap (s\<lparr>posted := rest\<rparr>))"
  by (rule srv_next[OF _ srv_step.task])

definition demo_socket :: "nat \<Rightarrow> conn" where
  "demo_socket k = StartRead (CTcpConnection (of_nat (Suc k)) ''peer'' 15 0)"

lemma demo_socket_simps [simp]: "m_id (demo_socket k) = of_nat (Suc k)" "m_bClosed (demo_socket k) = False" "rd (demo_socket k) = ReadPending"
  "wr (demo_socket k) = NoWrite" "sock_open (demo_socket k) = True"
  by (simp_all add: demo_socket_def StartRead_def DoRead_def start_read_def CTcpConnection_def)

definition demo_one :: server where
  "demo_one = HandleAccept ''peer'' 15 0 (demo_listening\<lparr>m_nMaxConnections := 1, accept_ready := False\<rparr>)"

lemma demo_one_eq: "demo_one = CTcpServer\<lparr>m_nPort := 80, m_bRunning := True, acceptor_open := True, io_started := True,
    m_nMaxConnections := 1, m_nNextId := 2, heap := [demo_socket 0], m_mapConnections := [(1, 0)],
    m_mapPeerAddresses := [(1, ''peer'')], m_nConnectionCount := 1, m_nTotalAccepted := 1, calls := [OnAccept 1 ''peer'']\<rparr>"
  by (simp add: demo_one_def demo_listening_eq HandleAccept_def call_def CTcpServer_def demo_socket_def)

lemma demo_one_reach: "srv_reach demo_one"
proof -
  have "srv_reach (demo_listening\<lparr>m_nMaxConnections := 1\<rparr>)"
    using srv_next[OF demo_listening_reach srv_step.max[of _ 1]] by (simp add: SetMaxConnections_def)
  from reach_accept[OF this, of "''peer''" 15 0] show ?thesis
    by (simp add: demo_one_def) (simp add: demo_listening_eq io_runs_def CTcpServer_def)
qed

theorem server_tables_witness:
  "HasConnection 1 demo_one \<and> PeerAddress 1 demo_one = ''peer'' \<and> ConnectionCount demo_one = length (m_mapConnections demo_one)"
  using server_tables[OF demo_one_reach, of 1]
  by (simp add: demo_one_eq CTcpServer_def HasConnection_def PeerAddress_def ConnectionCount_def sm_find_def)

theorem connection_limit_witness:
  "length (m_mapConnections (HandleAccept ''late'' 15 0 demo_one)) \<le> 1"
proof -
  have ready: "srv_reach (demo_one\<lparr>accept_ready := True\<rparr>)"
    by (rule srv_next[OF demo_one_reach srv_step.arrives]) (simp_all add: demo_one_eq io_runs_def CTcpServer_def)
  have eq: "(demo_one\<lparr>accept_ready := True\<rparr>)\<lparr>accept_ready := False\<rparr> = demo_one" by (simp add: demo_one_eq CTcpServer_def)
  have step: "srv_step (demo_one\<lparr>accept_ready := True\<rparr>) (HandleAccept ''late'' 15 0 demo_one)"
    using srv_step.accept[of "demo_one\<lparr>accept_ready := True\<rparr>" "''late''" 15 0] unfolding eq
    by (simp add: demo_one_eq io_runs_def CTcpServer_def)
  have len: "length (heap (HandleAccept ''late'' 15 0 demo_one)) < 2 ^ 64"
    by (simp add: HandleAccept_def demo_one_eq CTcpServer_def)
  show ?thesis
    using connection_limit[OF ready step len] by (simp add: demo_one_eq CTcpServer_def)
qed

lemma reach_event: "srv_reach s \<Longrightarrow> r < length (heap s) \<Longrightarrow> socket_event (heap s ! r) c \<Longrightarrow> srv_reach (set_conn r c s)"
  by (rule srv_next[OF _ srv_step.event])

text \<open>A read or write that has ended with an error, on a connection that is closed or not.\<close>

lemma conn_read_error:
  "rd (heap s ! r) = ReadError \<Longrightarrow> conn_read r nNow s =
     (let (cs, c) = HandleError ((heap s ! r)\<lparr>rd := NoRead\<rparr>) in Some (run_calls r cs (set_conn r c s)))"
  by (simp add: conn_read_def HandleRead_def split: prod.split)

lemma reach_read_error:
  assumes "srv_reach s" and "r < length (heap s)" and "rd (heap s ! r) = ReadError" and "io_runs s"
    and "HandleError ((heap s ! r)\<lparr>rd := NoRead\<rparr>) = (cs, c)"
  shows "srv_reach (run_calls r cs (set_conn r c s))"
proof (rule srv_next[OF assms(1) srv_step.read[OF assms(2)]])
  show "rd (heap s ! r) = ReadData [] \<or> rd (heap s ! r) = ReadError" using assms(3) by simp
  show "conn_read r 0 s = Some (run_calls r cs (set_conn r c s))" using conn_read_error[OF assms(3)] assms(5) by simp
qed (rule assms(4))

text \<open>Stopping the server of one connection: the shutdown, the posted close, the aborted read, the
  end of the io thread.\<close>

definition demo_gone :: conn where
  "demo_gone = (demo_socket 0)\<lparr>m_bClosed := True, sock_open := False, rd := NoRead\<rparr>"

lemma demo_close: "CloseOnIoThread (demo_socket 0) = demo_gone\<lparr>rd := ReadError\<rparr>"
  "HandleError ((demo_socket 0)\<lparr>rd := NoRead\<rparr>) = ([CallClose], demo_gone)"
  by (simp_all add: CloseOnIoThread_def HandleError_def close_socket_def demo_gone_def demo_socket_def StartRead_def DoRead_def start_read_def
      CTcpConnection_def)

definition demo_ended :: server where
  "demo_ended = CTcpServer\<lparr>m_nPort := 80, io_started := True, io_ended := True, m_nMaxConnections := 1, m_nNextId := 2,
     heap := [demo_gone], m_nTotalAccepted := 1, m_nTotalClosed := 1, calls := [OnAccept 1 ''peer'', OnClose 1]\<rparr>"

lemma demo_ended_reach: "srv_reach demo_ended"
proof -
  have "srv_reach (Stop demo_one)" by (rule srv_next[OF demo_one_reach srv_step.stop])
  then have "srv_reach (run_task TaskShutdown 0 ((Stop demo_one)\<lparr>posted := []\<rparr>))"
    by (rule reach_task) (simp_all add: Stop_def post_def demo_one_eq CTcpServer_def io_runs_def)
  then have s3: "srv_reach (demo_ended\<lparr>io_ended := False, heap := [demo_socket 0], posted := [TaskConnClose 0]\<rparr>)"
    by (simp add: Stop_def post_def demo_one_eq CTcpServer_def ShutdownOnIoThread_def shutdown_conn_def conn_close_def conn_send_def
        posts_def call_def demo_ended_def)
  have "srv_reach (run_task (TaskConnClose 0) 0 ((demo_ended\<lparr>io_ended := False, heap := [demo_socket 0], posted := [TaskConnClose 0]\<rparr>)\<lparr>posted := []\<rparr>))"
    by (rule reach_task[OF s3]) (simp_all add: demo_ended_def CTcpServer_def io_runs_def)
  then have s4: "srv_reach (demo_ended\<lparr>io_ended := False, heap := [demo_gone\<lparr>rd := ReadError\<rparr>], posted := []\<rparr>)"
    by (simp add: set_conn_def demo_close demo_ended_def CTcpServer_def)
  have "HandleError (demo_gone\<lparr>rd := NoRead\<rparr>) = ([], demo_gone)" by (simp add: HandleError_def demo_gone_def)
  with reach_read_error[OF s4, of 0 "[]" demo_gone] have s5: "srv_reach (demo_ended\<lparr>io_ended := False\<rparr>)"
    by (simp add: set_conn_def demo_ended_def CTcpServer_def io_runs_def)
  have "srv_step (demo_ended\<lparr>io_ended := False\<rparr>) ((ShutdownOnIoThread (demo_ended\<lparr>io_ended := False\<rparr>))\<lparr>io_ended := True\<rparr>)"
    by (rule srv_step.ended) (simp_all add: demo_ended_def CTcpServer_def io_runs_def demo_gone_def)
  from srv_next[OF s5 this] show ?thesis by (simp add: ShutdownOnIoThread_def demo_ended_def CTcpServer_def)
qed

theorem shutdown_reports_all_witness:
  "accepted_ids demo_ended = closed_ids demo_ended \<and> TotalClosed demo_ended = 1 \<and> ConnectionCount demo_ended = 0"
  using shutdown_reports_all[OF demo_ended_reach] by (simp add: demo_ended_def CTcpServer_def TotalClosed_def)

text \<open>A connection can be reported closed twice, and then the limit does not hold any more.  The
  client of the server closes connection 1: the closure takes it out of the table, reports it and
  posts the close of the socket.  A read error that is already queued runs first, finds the
  connection open, and \<open>HandleClose\<close> reports it again and lowers the connection count, which no
  longer counts connection 2: with a limit of 2, three connections are open.\<close>

theorem closed_twice_breaks_limit:
  "\<exists>s. srv_reach s \<and> stray s = 1 \<and> TotalClosed s = 2 \<and> calls s ! 2 = OnClose 1 \<and> calls s ! 3 = OnClose 1
     \<and> m_nMaxConnections s = 2 \<and> ConnectionCount s = 2 \<and> length (m_mapConnections s) = 3"
proof -
  define b where "b = CTcpServer\<lparr>m_nPort := 80, m_bRunning := True, acceptor_open := True, io_started := True, m_nMaxConnections := 2\<rparr>"
  have "srv_reach b"
    using srv_next[OF demo_listening_reach srv_step.max[of _ 2]] by (simp add: SetMaxConnections_def demo_listening_eq b_def)
  then have "srv_reach (HandleAccept ''peer'' 15 0 (b\<lparr>accept_ready := False\<rparr>))"
    by (rule reach_accept) (simp_all add: b_def io_runs_def CTcpServer_def)
  then have "srv_reach (HandleAccept ''peer'' 15 0 ((HandleAccept ''peer'' 15 0 (b\<lparr>accept_ready := False\<rparr>))\<lparr>accept_ready := False\<rparr>))"
    by (rule reach_accept) (simp_all add: b_def io_runs_def CTcpServer_def HandleAccept_def call_def)
  then have s2: "srv_reach (b\<lparr>m_nNextId := 3, heap := [demo_socket 0, demo_socket 1], m_mapConnections := [(1, 0), (2, 1)],
      m_mapPeerAddresses := [(1, ''peer''), (2, ''peer'')], m_nConnectionCount := 2, m_nTotalAccepted := 2,
      calls := [OnAccept 1 ''peer'', OnAccept 2 ''peer'']\<rparr>)" (is "srv_reach ?s2")
    by (simp add: HandleAccept_def call_def b_def CTcpServer_def demo_socket_def numeral_2_eq_2)
  have "srv_reach (set_conn 0 ((demo_socket 0)\<lparr>rd := ReadError\<rparr>) ?s2)"
    using s2 by (rule reach_event) (simp_all, rule socket_event.intros(2), simp)
  from srv_next[OF this srv_step.close[of _ 1]]
  have s4: "srv_reach (Close 1 (set_conn 0 ((demo_socket 0)\<lparr>rd := ReadError\<rparr>) ?s2))" .
  have "srv_reach (run_task (TaskClose 1) 0 ((Close 1 (set_conn 0 ((demo_socket 0)\<lparr>rd := ReadError\<rparr>) ?s2))\<lparr>posted := []\<rparr>))"
    by (rule reach_task[OF s4]) (simp_all add: Close_def post_def set_conn_def b_def CTcpServer_def io_runs_def)
  then have s5: "srv_reach (b\<lparr>m_nNextId := 3, heap := [(demo_socket 0)\<lparr>rd := ReadError\<rparr>, demo_socket 1], m_mapConnections := [(2, 1)],
      m_mapPeerAddresses := [(2, ''peer'')], m_nConnectionCount := 1, m_nTotalAccepted := 2, m_nTotalClosed := 1,
      posted := [TaskConnClose 0], calls := [OnAccept 1 ''peer'', OnAccept 2 ''peer'', OnClose 1]\<rparr>)" (is "srv_reach ?s5")
    by (simp add: Close_def post_def set_conn_def b_def CTcpServer_def sm_find_def sm_erase_def conn_close_def conn_send_def posts_def
        call_def forget_def)
  with demo_close(2) reach_read_error[OF s5, of 0 "[CallClose]" demo_gone]
  have "srv_reach (run_calls 0 [CallClose] (set_conn 0 demo_gone ?s5))"
    by (simp add: b_def CTcpServer_def io_runs_def)
  then have s6: "srv_reach (?s5\<lparr>heap := [demo_gone, demo_socket 1], m_nConnectionCount := 0, m_nTotalClosed := 2, stray := 1,
      calls := [OnAccept 1 ''peer'', OnAccept 2 ''peer'', OnClose 1, OnClose 1]\<rparr>)" (is "srv_reach ?s6")
    by (simp add: set_conn_def HandleClose_def call_def forget_def sm_find_def sm_erase_def b_def CTcpServer_def demo_gone_def)
  then have "srv_reach (HandleAccept ''peer'' 15 0 (?s6\<lparr>accept_ready := False\<rparr>))"
    by (rule reach_accept) (simp_all add: b_def io_runs_def CTcpServer_def)
  then have "srv_reach (HandleAccept ''peer'' 15 0 ((HandleAccept ''peer'' 15 0 (?s6\<lparr>accept_ready := False\<rparr>))\<lparr>accept_ready := False\<rparr>))"
    by (rule reach_accept) (simp_all add: b_def io_runs_def CTcpServer_def HandleAccept_def call_def)
  then show ?thesis
    by (intro exI[where x = "HandleAccept ''peer'' 15 0 ((HandleAccept ''peer'' 15 0 (?s6\<lparr>accept_ready := False\<rparr>))\<lparr>accept_ready := False\<rparr>)"] conjI)
      (simp_all add: HandleAccept_def call_def b_def CTcpServer_def TotalClosed_def ConnectionCount_def)
qed

text \<open>Idle detection that was switched off stays off.  A tick that finds the timeout at 0 leaves
  the timer object without a wait; \<open>SetIdleTimeout\<close> starts the timer only if there is no object.\<close>

theorem idle_timeout_not_resumed:
  "\<exists>s. srv_reach s \<and> IsRunning s \<and> m_nIdleSeconds s = 30 \<and> posted s = [] \<and> m_pIdleTimer s = TimerIdle"
proof -
  define b where "b = CTcpServer\<lparr>m_nPort := 80, m_bRunning := True, acceptor_open := True, io_started := True\<rparr>"
  have on: "srv_reach s \<Longrightarrow> posted s = [] \<Longrightarrow> io_runs s \<Longrightarrow>
      srv_reach (run_task TaskStartIdle 0 (s\<lparr>m_nIdleSeconds := 30\<rparr>))" for s
  proof -
    assume s: "srv_reach s" "posted s = []" "io_runs s"
    have "srv_reach (SetIdleTimeout 30 s)" by (rule srv_next[OF s(1) srv_step.idle])
    then have "srv_reach (run_task TaskStartIdle 0 ((SetIdleTimeout 30 s)\<lparr>posted := []\<rparr>))"
      by (rule reach_task) (use s in \<open>simp_all add: SetIdleTimeout_def post_def io_runs_def\<close>)
    moreover have "(SetIdleTimeout 30 s)\<lparr>posted := []\<rparr> = s\<lparr>m_nIdleSeconds := 30\<rparr>"
      using s(2) by (cases s) (simp add: SetIdleTimeout_def post_def)
    ultimately show "srv_reach (run_task TaskStartIdle 0 (s\<lparr>m_nIdleSeconds := 30\<rparr>))" by (simp del: run_task.simps)
  qed
  have "srv_reach b" using demo_listening_reach by (simp add: demo_listening_eq b_def)
  from on[OF this] have "srv_reach (b\<lparr>m_nIdleSeconds := 30, m_pIdleTimer := TimerArmed\<rparr>)"
    by (simp add: b_def CTcpServer_def io_runs_def StartIdleTimer_def)
  from srv_next[OF this srv_step.idle[of _ 0]]
  have off: "srv_reach (b\<lparr>m_nIdleSeconds := 0, m_pIdleTimer := TimerArmed\<rparr>)"
    by (simp add: SetIdleTimeout_def b_def CTcpServer_def)
  have "srv_step (b\<lparr>m_nIdleSeconds := 0, m_pIdleTimer := TimerArmed\<rparr>) (idle_tick 1 (b\<lparr>m_nIdleSeconds := 0, m_pIdleTimer := TimerArmed\<rparr>))"
    by (rule srv_step.tick) (simp_all add: b_def CTcpServer_def io_runs_def)
  from srv_next[OF off this] have "srv_reach (b\<lparr>m_nIdleSeconds := 0, m_pIdleTimer := TimerIdle\<rparr>)"
    by (simp add: idle_tick_def CheckIdleConnections_def StartIdleTimer_def b_def CTcpServer_def)
  from on[OF this] have "srv_reach (b\<lparr>m_nIdleSeconds := 30, m_pIdleTimer := TimerIdle\<rparr>)"
    by (simp add: b_def CTcpServer_def io_runs_def)
  then show ?thesis
    by (intro exI[of _ "b\<lparr>m_nIdleSeconds := 30, m_pIdleTimer := TimerIdle\<rparr>"] conjI) (simp_all add: b_def CTcpServer_def IsRunning_def)
qed

text \<open>A server that is started again serves nobody: \<open>Start\<close> succeeds and the server reports that
  it is running, but the io context is not restarted, so no handler runs any more.\<close>

theorem restarted_server_serves_nobody:
  "\<exists>s. srv_reach s \<and> \<not> IsRunning s \<and> fst (Start True 80 s) \<and> IsRunning (snd (Start True 80 s))
     \<and> srv_reach (snd (Start True 80 s)) \<and> \<not> io_runs (snd (Start True 80 s))"
proof -
  have "srv_reach (snd (Start True 80 demo_ended))"
    by (rule srv_next[OF demo_ended_reach srv_step.start]) (simp add: demo_ended_def CTcpServer_def)
  then show ?thesis
    using demo_ended_reach
    by (intro exI[of _ demo_ended]) (simp add: demo_ended_def CTcpServer_def IsRunning_def Start_def post_def io_runs_def)
qed

text \<open>A connection whose accept handler was queued before the shutdown ran is served all the same:
  the shutdown is over, and the io thread, which \<open>Stop\<close> waits for, lives until the peer closes.\<close>

theorem late_accept_outlives_shutdown:
  "\<exists>s. srv_reach s \<and> \<not> IsRunning s \<and> \<not> acceptor_open s \<and> posted s = [] \<and> io_runs s \<and> HasConnection 1 s
     \<and> rd (heap s ! 0) = ReadPending"
proof -
  define b where "b = CTcpServer\<lparr>m_nPort := 80, m_bRunning := True, acceptor_open := True, io_started := True\<rparr>"
  have "srv_reach b" using demo_listening_reach by (simp add: demo_listening_eq b_def)
  then have "srv_reach (b\<lparr>accept_ready := True\<rparr>)"
    by (rule srv_next[OF _ srv_step.arrives]) (simp_all add: b_def CTcpServer_def io_runs_def)
  from srv_next[OF this srv_step.stop] have "srv_reach (Stop (b\<lparr>accept_ready := True\<rparr>))" .
  then have "srv_reach (run_task TaskShutdown 0 ((Stop (b\<lparr>accept_ready := True\<rparr>))\<lparr>posted := []\<rparr>))"
    by (rule reach_task) (simp_all add: b_def CTcpServer_def Stop_def post_def io_runs_def)
  then have s: "srv_reach (CTcpServer\<lparr>m_nPort := 80, accept_ready := True, io_started := True\<rparr>)" (is "srv_reach ?s")
    by (simp add: b_def CTcpServer_def Stop_def post_def ShutdownOnIoThread_def)
  have "srv_step ?s (HandleAccept ''peer'' 15 0 (?s\<lparr>accept_ready := False\<rparr>))"
    by (rule srv_step.accept) (simp_all add: CTcpServer_def io_runs_def)
  from srv_next[OF s this] show ?thesis
    by (intro exI[of _ "HandleAccept ''peer'' 15 0 (?s\<lparr>accept_ready := False\<rparr>)"] conjI)
      (simp_all add: HandleAccept_def call_def CTcpServer_def IsRunning_def io_runs_def HasConnection_def sm_find_def StartRead_def
        DoRead_def start_read_def CTcpConnection_def)
qed

end
