(* ===== verification/Metrics.thy ===== *)
theory Metrics
  imports StdMap Text
begin

text \<open>
  \<open>CMetricsModule\<close> (\<open>src/ServerCore/Observability/MetricsModule.cpp\<close>): the table of named metrics.
  Every operation is one critical section.  The values are doubles in the code; the model leaves
  the arithmetic open (any type with zero, addition and subtraction) and takes \<open>"%.0f"\<close> as an
  argument.
\<close>

datatype MetricKind = kCounter | kGauge

record 'v metric_entry =
  m_kind :: MetricKind
  m_value :: 'v

type_synonym 'v metrics = "(string, 'v metric_entry) smap"

definition CMetricsModule :: "'v metrics" where
  "CMetricsModule = []"

text \<open>The entry, existing or fresh, and the table that holds it.\<close>

definition EnsureEntry :: "string \<Rightarrow> MetricKind \<Rightarrow> 'v::zero metrics \<Rightarrow> 'v metric_entry \<times> 'v metrics" where
  "EnsureEntry strName k m =
     (case sm_find m strName of
        Some entry \<Rightarrow> (entry, m)
      | None \<Rightarrow> let entry = \<lparr>m_kind = k, m_value = 0\<rparr> in (entry, sm_insert strName entry m))"

definition Inc :: "string \<Rightarrow> 'v::{zero, plus} \<Rightarrow> 'v metrics \<Rightarrow> 'v metrics" where
  "Inc strName nDelta m =
     (let (entry, m) = EnsureEntry strName kCounter m
      in sm_put strName (entry\<lparr>m_value := m_value entry + nDelta\<rparr>) m)"

definition Dec :: "string \<Rightarrow> 'v::{zero, minus} \<Rightarrow> 'v metrics \<Rightarrow> 'v metrics" where
  "Dec strName nDelta m =
     (let (entry, m) = EnsureEntry strName kCounter m
      in sm_put strName (entry\<lparr>m_value := m_value entry - nDelta\<rparr>) m)"

definition SetGauge :: "string \<Rightarrow> 'v::zero \<Rightarrow> 'v metrics \<Rightarrow> 'v metrics" where
  "SetGauge strName nValue m =
     (let (entry, m) = EnsureEntry strName kGauge m
      in sm_put strName (entry\<lparr>m_value := nValue\<rparr>) m)"

definition Get :: "string \<Rightarrow> 'v::zero metrics \<Rightarrow> 'v" where
  "Get strName m = (case sm_find m strName of Some entry \<Rightarrow> m_value entry | None \<Rightarrow> 0)"

definition Snapshot :: "'v metrics \<Rightarrow> (string \<times> MetricKind \<times> 'v) list" where
  "Snapshot m = map (\<lambda>(strName, entry). (strName, m_kind entry, m_value entry)) m"

definition Count :: "'v metrics \<Rightarrow> nat" where
  "Count m = length m"

fun status_items :: "('v \<Rightarrow> string) \<Rightarrow> (string \<times> MetricKind \<times> 'v) list \<Rightarrow> nat \<Rightarrow> string" where
  "status_items fmt [] i = []"
| "status_items fmt ((strName, k, v) # snap) i =
     (if i > 0 then '' '' else []) @ strName @ ''='' @ c_str (snprintf 32 (fmt v)) @ status_items fmt snap (Suc i)"

definition GetStatus :: "('v \<Rightarrow> string) \<Rightarrow> 'v metrics \<Rightarrow> string" where
  "GetStatus fmt m = ''metrics:'' @ status_items fmt (Snapshot m) 0"

subsection \<open>What the table says\<close>

datatype 'v metric_op = OpInc string 'v | OpDec string 'v | OpSet string 'v

fun metric_apply :: "'v::{zero, plus, minus} metric_op \<Rightarrow> 'v metrics \<Rightarrow> 'v metrics" where
  "metric_apply (OpInc n v) = Inc n v"
| "metric_apply (OpDec n v) = Dec n v"
| "metric_apply (OpSet n v) = SetGauge n v"

fun op_name :: "'v metric_op \<Rightarrow> string" where
  "op_name (OpInc n v) = n"
| "op_name (OpDec n v) = n"
| "op_name (OpSet n v) = n"

fun op_kind :: "'v metric_op \<Rightarrow> MetricKind" where
  "op_kind (OpSet n v) = kGauge"
| "op_kind _ = kCounter"

fun op_value :: "'v::{plus, minus} metric_op \<Rightarrow> 'v \<Rightarrow> 'v" where
  "op_value (OpInc n v) x = x + v"
| "op_value (OpDec n v) x = x - v"
| "op_value (OpSet n v) x = v"

text \<open>The reference: the operations on one name alone, in their order.\<close>

definition metric_of :: "string \<Rightarrow> 'v::{zero, plus, minus} metric_op list \<Rightarrow> 'v metric_entry option" where
  "metric_of n ops =
     (case filter (\<lambda>op. op_name op = n) ops of
        [] \<Rightarrow> None
      | op # rest \<Rightarrow> Some \<lparr>m_kind = op_kind op, m_value = fold op_value (op # rest) 0\<rparr>)"

lemma EnsureEntry_cases:
  "EnsureEntry n k m = (case sm_find m n of Some e \<Rightarrow> (e, m)
     | None \<Rightarrow> (\<lparr>m_kind = k, m_value = 0\<rparr>, sm_put n \<lparr>m_kind = k, m_value = 0\<rparr> m))"
  by (simp add: EnsureEntry_def sm_insert_def Let_def split: option.split)

lemma metric_apply_find:
  "sm_find (metric_apply op m) n =
     (if n = op_name op
      then Some (case sm_find m n of
                   None \<Rightarrow> \<lparr>m_kind = op_kind op, m_value = op_value op 0\<rparr>
                 | Some e \<Rightarrow> e\<lparr>m_value := op_value op (m_value e)\<rparr>)
      else sm_find m n)"
  by (cases op) (simp_all add: Inc_def Dec_def SetGauge_def EnsureEntry_cases split: option.split)

lemma metric_apply_ok: "sm_ok m \<Longrightarrow> sm_ok (metric_apply op m)"
  by (cases op) (simp_all add: Inc_def Dec_def SetGauge_def EnsureEntry_cases split: option.split)

lemma metric_ops_ok: "sm_ok (fold metric_apply ops CMetricsModule)"
proof -
  have "sm_ok (fold metric_apply ops m)" if "sm_ok m" for m
    using that by (induction ops arbitrary: m) (simp_all add: metric_apply_ok)
  then show ?thesis by (simp add: CMetricsModule_def)
qed

lemma metric_of_snoc:
  "metric_of n (ops @ [op]) =
     (if op_name op = n
      then Some (case metric_of n ops of
                   None \<Rightarrow> \<lparr>m_kind = op_kind op, m_value = op_value op 0\<rparr>
                 | Some e \<Rightarrow> e\<lparr>m_value := op_value op (m_value e)\<rparr>)
      else metric_of n ops)"
  by (simp add: metric_of_def split: list.split)

lemma metric_ops_find: "sm_find (fold metric_apply ops CMetricsModule) n = metric_of n ops"
proof (induction ops rule: rev_induct)
  case Nil
  show ?case by (simp add: CMetricsModule_def metric_of_def)
next
  case (snoc op ops)
  then show ?case by (simp add: metric_apply_find metric_of_snoc)
qed

text \<open>C40. The metrics of a run.  However the calls of the modules interleave, the value of a metric is
  the result of the calls on its own name, in their order, its kind is that of the first of them, and
  the snapshot lists each name that was ever written once, in the order of the names.\<close>

theorem metrics_reference:
  "Get n (fold metric_apply ops CMetricsModule) = (case metric_of n ops of None \<Rightarrow> 0 | Some e \<Rightarrow> m_value e)
   \<and> ((n, k, v) \<in> set (Snapshot (fold metric_apply ops CMetricsModule)) \<longleftrightarrow> metric_of n ops = Some \<lparr>m_kind = k, m_value = v\<rparr>)
   \<and> sorted_wrt (<) (map fst (Snapshot (fold metric_apply ops CMetricsModule)))
   \<and> Count (fold metric_apply ops CMetricsModule) = card (op_name ` set ops)"
proof -
  let ?m = "fold metric_apply ops CMetricsModule"
  note ok = metric_ops_ok[of ops] and find = metric_ops_find[of ops]
  have "(n, k, v) \<in> set (Snapshot ?m) \<longleftrightarrow> (\<exists>e. (n, e) \<in> set ?m \<and> m_kind e = k \<and> m_value e = v)"
    by (force simp: Snapshot_def)
  also have "\<dots> \<longleftrightarrow> (\<exists>e. metric_of n ops = Some e \<and> m_kind e = k \<and> m_value e = v)"
    unfolding sm_find_Some_iff[OF ok, symmetric] find ..
  also have "\<dots> \<longleftrightarrow> metric_of n ops = Some \<lparr>m_kind = k, m_value = v\<rparr>" by (auto intro: metric_entry.equality)
  finally have snap: "(n, k, v) \<in> set (Snapshot ?m) \<longleftrightarrow> metric_of n ops = Some \<lparr>m_kind = k, m_value = v\<rparr>" .
  have keys: "map fst (Snapshot ?m) = map fst ?m" by (simp add: Snapshot_def comp_def case_prod_beta)
  have "metric_of n ops \<noteq> None \<longleftrightarrow> filter (\<lambda>op. op_name op = n) ops \<noteq> []" for n
    by (simp add: metric_of_def split: list.split)
  then have "metric_of n ops \<noteq> None \<longleftrightarrow> n \<in> op_name ` set ops" for n
    by (auto simp: filter_empty_conv)
  then have "{n. sm_find ?m n \<noteq> None} = op_name ` set ops" by (auto simp: find)
  then have "Count ?m = card (op_name ` set ops)" by (simp add: Count_def length_smap[OF ok])
  moreover have "sorted_wrt (<) (map fst (Snapshot ?m))" using ok by (simp add: keys sm_ok_def)
  moreover have "Get n ?m = (case metric_of n ops of None \<Rightarrow> 0 | Some e \<Rightarrow> m_value e)" by (simp add: Get_def find)
  ultimately show ?thesis using snap by blast
qed

end
