(* ===== verification/NetworkModule.thy ===== *)
theory NetworkModule
  imports TcpServer Metrics
begin

text \<open>
  \<open>CNetworkModule\<close> and \<open>CTcpServerModule\<close> (\<open>src/ServerCore/Network\<close>): the module that owns a TCP
  server and hands its callbacks to a handler and to the metrics, and the module that starts it when
  the application starts.  The server is the machine of theory TcpServer; its io thread runs beside
  the thread that starts and stops the module, so a start and a stop are several steps: the server
  exists before \<open>m_pServer\<close> names it, and after \<open>m_pServer\<close> has forgotten it.  A context of a
  connection is a pointer, \<open>None\<close> the null pointer.  Metrics are numbers of any kind.
\<close>

subsection \<open>State\<close>

text \<open>Where the thread that starts and stops the module stands: between calls, waiting for the io
  thread of the server it stops (and what it does next), or behind the start of a new server.\<close>

datatype net_next = ThenIdle | ThenStart bool u16     \<comment> \<open>whether the port can be listened on\<close>

datatype net_owner = OwnerIdle | OwnerJoins net_next | OwnerSwaps u16

record 'v net_module =
  m_pServer :: "server option"
  m_pHandler :: bool
  m_pMetrics :: bool
  m_mapConnCtx :: "(u64, nat option) smap"
  m_nPort :: u16
  net_owner :: net_owner
  net_new :: "server option"              \<comment> \<open>\<open>pNewServer\<close>, started but not yet swapped in\<close>
  net_old :: "(bool \<times> server) option"     \<comment> \<open>the server \<open>Stop\<close> has released, and whether it ran\<close>
  net_metrics :: "'v metrics"
  net_calls :: "srv_call list"            \<comment> \<open>what the handler was called with\<close>

definition CNetworkModule :: "'v net_module" where
  "CNetworkModule = \<lparr>m_pServer = None, m_pHandler = False, m_pMetrics = False, m_mapConnCtx = [], m_nPort = 0,
     net_owner = OwnerIdle, net_new = None, net_old = None, net_metrics = CMetricsModule, net_calls = []\<rparr>"

definition Initialize :: "bool \<Rightarrow> 'v net_module \<Rightarrow> 'v net_module" where
  "Initialize pMetrics s = s\<lparr>m_pMetrics := pMetrics\<rparr>"

subsection \<open>The callbacks of the server\<close>

definition conns :: "'v net_module \<Rightarrow> nat" where
  "conns s = (case m_pServer s of None \<Rightarrow> 0 | Some srv \<Rightarrow> TcpServer.ConnectionCount srv)"

definition measure :: "('v metrics \<Rightarrow> 'v metrics) \<Rightarrow> 'v net_module \<Rightarrow> 'v net_module" where
  "measure f s = (if m_pMetrics s then s\<lparr>net_metrics := f (net_metrics s)\<rparr> else s)"

definition hand_on :: "srv_call \<Rightarrow> 'v net_module \<Rightarrow> 'v net_module" where
  "hand_on c s = (if m_pHandler s then s\<lparr>net_calls := net_calls s @ [c]\<rparr> else s)"

text \<open>\<open>fnAccept\<close>, \<open>fnData\<close> and \<open>fnClose\<close> of \<open>StartTcpServer\<close>.\<close>

fun on_call :: "srv_call \<Rightarrow> 'v::semiring_1 net_module \<Rightarrow> 'v net_module" where
  "on_call (OnAccept nId strPeer) s = hand_on (OnAccept nId strPeer)
     (measure (\<lambda>m. SetGauge ''network.conns'' (of_nat (conns s)) (Inc ''network.accepted'' 1 m)) s)"
| "on_call (OnData nId d) s = hand_on (OnData nId d) (measure (Inc ''network.msgs'' 1) s)"
| "on_call (OnClose nId) s = hand_on (OnClose nId)
     (measure (\<lambda>m. SetGauge ''network.conns'' (of_nat (conns s)) (Inc ''network.closed'' 1 m)) s)"

text \<open>The calls a step of a server has made.\<close>

definition relay :: "server \<Rightarrow> server \<Rightarrow> 'v::semiring_1 net_module \<Rightarrow> 'v net_module" where
  "relay srv srv' s = fold on_call (drop (length (calls srv)) (calls srv')) s"

subsection \<open>Starting and stopping\<close>

text \<open>\<open>Stop\<close> up to the join of the server's thread, with what follows it; \<open>StartTcpServer\<close> begins
  with it.\<close>

definition Stop_release :: "net_next \<Rightarrow> 'v net_module \<Rightarrow> 'v net_module" where
  "Stop_release todo s =
     s\<lparr>m_pServer := None, m_nPort := 0, net_owner := OwnerJoins todo,
       net_old := map_option (\<lambda>srv. (m_bRunning srv, TcpServer.Stop srv)) (m_pServer s)\<rparr>"

text \<open>The rest of \<open>Stop\<close>, and of \<open>StartTcpServer\<close> up to the critical section.\<close>

definition Stop_joined :: "'v net_module \<Rightarrow> 'v net_module" where
  "Stop_joined s = s\<lparr>net_old := None, m_pHandler := False\<rparr>"

definition StartTcpServer_start :: "bool \<Rightarrow> u16 \<Rightarrow> 'v net_module \<Rightarrow> 'v net_module" where
  "StartTcpServer_start listens nPort s =
     (let s = s\<lparr>m_pHandler := True\<rparr>;
          (ok, pNewServer) = TcpServer.Start listens nPort CTcpServer
      in if \<not> ok then s\<lparr>m_pHandler := False, net_owner := OwnerIdle\<rparr>
         else s\<lparr>net_new := Some pNewServer, net_owner := OwnerSwaps nPort\<rparr>)"

definition StartTcpServer_swap :: "u16 \<Rightarrow> 'v net_module \<Rightarrow> 'v net_module" where
  "StartTcpServer_swap nPort s = s\<lparr>m_pServer := net_new s, net_new := None, m_nPort := nPort, net_owner := OwnerIdle\<rparr>"

text \<open>\<open>StartTcpServer\<close> up to its first wait; the result when it returns there.\<close>

definition StartTcpServer :: "bool \<Rightarrow> bool \<Rightarrow> u16 \<Rightarrow> 'v net_module \<Rightarrow> bool option \<times> 'v net_module" where
  "StartTcpServer pHandler listens nPort s =
     (if \<not> pHandler then (Some False, s) else (None, Stop_release (ThenStart listens nPort) s))"

subsection \<open>The other operations\<close>

definition Send :: "u64 \<Rightarrow> bytes \<Rightarrow> 'v net_module \<Rightarrow> bool \<times> 'v net_module" where
  "Send nId d s =
     (case m_pServer s of
        None \<Rightarrow> (False, s)
      | Some srv \<Rightarrow> let (ok, srv) = TcpServer.Send nId d srv in (ok, s\<lparr>m_pServer := Some srv\<rparr>))"

definition Close :: "u64 \<Rightarrow> 'v net_module \<Rightarrow> 'v net_module" where
  "Close nId s = s\<lparr>m_pServer := map_option (TcpServer.Close nId) (m_pServer s)\<rparr>"

definition Attach :: "u64 \<Rightarrow> nat option \<Rightarrow> 'v net_module \<Rightarrow> nat option \<times> 'v net_module" where
  "Attach nId pCtx s =
     ((case sm_find (m_mapConnCtx s) nId of None \<Rightarrow> None | Some p \<Rightarrow> p), s\<lparr>m_mapConnCtx := sm_put nId pCtx (m_mapConnCtx s)\<rparr>)"

definition GetAttached :: "u64 \<Rightarrow> 'v net_module \<Rightarrow> nat option" where
  "GetAttached nId s = (case sm_find (m_mapConnCtx s) nId of None \<Rightarrow> None | Some p \<Rightarrow> p)"

definition Detach :: "u64 \<Rightarrow> 'v net_module \<Rightarrow> nat option \<times> 'v net_module" where
  "Detach nId s =
     (case sm_find (m_mapConnCtx s) nId of
        None \<Rightarrow> (None, s)
      | Some p \<Rightarrow> (p, s\<lparr>m_mapConnCtx := sm_erase nId (m_mapConnCtx s)\<rparr>))"

definition ListeningPort :: "'v net_module \<Rightarrow> u16" where "ListeningPort s = m_nPort s"
definition ConnectionCount :: "'v net_module \<Rightarrow> nat" where "ConnectionCount s = conns s"

definition TotalAccepted :: "'v net_module \<Rightarrow> u64" where
  "TotalAccepted s = (case m_pServer s of None \<Rightarrow> 0 | Some srv \<Rightarrow> TcpServer.TotalAccepted srv)"

definition TotalClosed :: "'v net_module \<Rightarrow> u64" where
  "TotalClosed s = (case m_pServer s of None \<Rightarrow> 0 | Some srv \<Rightarrow> TcpServer.TotalClosed srv)"

definition HasConnection :: "u64 \<Rightarrow> 'v net_module \<Rightarrow> bool" where
  "HasConnection nId s \<longleftrightarrow> (case m_pServer s of None \<Rightarrow> False | Some srv \<Rightarrow> TcpServer.HasConnection nId srv)"

definition PeerAddress :: "u64 \<Rightarrow> 'v net_module \<Rightarrow> string" where
  "PeerAddress nId s = (case m_pServer s of None \<Rightarrow> [] | Some srv \<Rightarrow> TcpServer.PeerAddress nId srv)"

definition SetIdleTimeout :: "u32 \<Rightarrow> 'v net_module \<Rightarrow> 'v net_module" where
  "SetIdleTimeout nSeconds s = s\<lparr>m_pServer := map_option (TcpServer.SetIdleTimeout nSeconds) (m_pServer s)\<rparr>"

definition SetMaxConnections :: "nat \<Rightarrow> 'v net_module \<Rightarrow> 'v net_module" where
  "SetMaxConnections nMax s = s\<lparr>m_pServer := map_option (TcpServer.SetMaxConnections nMax) (m_pServer s)\<rparr>"

definition GetStatus :: "'v net_module \<Rightarrow> string" where
  "GetStatus s = snprintf 128
     (''network:port='' @ decimal (unat (ListeningPort s)) @ '' conns='' @ decimal (ConnectionCount s)
      @ '' accepted='' @ decimal (unat (TotalAccepted s)) @ '' closed='' @ decimal (unat (TotalClosed s)))"

subsection \<open>Runs\<close>

text \<open>What the io thread of a server and its sockets do.\<close>

inductive io_step :: "server \<Rightarrow> server \<Rightarrow> bool" where
  arrives: "acceptor_open s \<Longrightarrow> io_runs s \<Longrightarrow> io_step s (s\<lparr>accept_ready := True\<rparr>)"
| accept: "accept_ready s \<Longrightarrow> io_runs s \<Longrightarrow>
    io_step s (HandleAccept strPeer nCapacity nNow (s\<lparr>accept_ready := False\<rparr>))"
| tick: "m_pIdleTimer s = TimerArmed \<Longrightarrow> io_runs s \<Longrightarrow> io_step s (idle_tick nNow s)"
| task: "posted s = t # rest \<Longrightarrow> io_runs s \<Longrightarrow> io_step s (run_task t cap (s\<lparr>posted := rest\<rparr>))"
| event: "r < length (heap s) \<Longrightarrow> socket_event (heap s ! r) c \<Longrightarrow> io_step s (set_conn r c s)"
| read: "r < length (heap s) \<Longrightarrow> rd (heap s ! r) = ReadData d \<or> rd (heap s ! r) = ReadError \<Longrightarrow> io_runs s \<Longrightarrow>
    conn_read r nNow s = Some s' \<Longrightarrow> io_step s s'"
| written: "r < length (heap s) \<Longrightarrow> wr (heap s ! r) = WriteDone n \<or> wr (heap s ! r) = WriteError \<Longrightarrow> io_runs s \<Longrightarrow>
    io_step s (conn_written r s)"
| ended: "\<not> acceptor_open s \<Longrightarrow> \<not> accept_ready s \<Longrightarrow> posted s = [] \<Longrightarrow> m_pIdleTimer s \<noteq> TimerArmed \<Longrightarrow>
    \<forall>c \<in> set (heap s). rd c = NoRead \<and> wr c = NoWrite \<Longrightarrow> io_runs s \<Longrightarrow>
    io_step s ((ShutdownOnIoThread s)\<lparr>io_ended := True\<rparr>)"

inductive net_step :: "'v::semiring_1 net_module \<Rightarrow> 'v net_module \<Rightarrow> bool" where
  start: "net_owner s = OwnerIdle \<Longrightarrow> net_step s (snd (StartTcpServer pHandler listens nPort s))"
| stop: "net_owner s = OwnerIdle \<Longrightarrow> net_step s (Stop_release ThenIdle s)"
| joined: "net_owner s = OwnerJoins todo \<Longrightarrow> (\<forall>was srv. net_old s = Some (was, srv) \<longrightarrow> was \<longrightarrow> io_ended srv) \<Longrightarrow>
    net_step s (case todo of
      ThenIdle \<Rightarrow> (Stop_joined s)\<lparr>net_owner := OwnerIdle\<rparr>
    | ThenStart listens nPort \<Rightarrow> StartTcpServer_start listens nPort (Stop_joined s))"
| swapped: "net_owner s = OwnerSwaps nPort \<Longrightarrow> net_step s (StartTcpServer_swap nPort s)"
| io_new: "net_new s = Some srv \<Longrightarrow> io_step srv srv' \<Longrightarrow> net_step s (relay srv srv' (s\<lparr>net_new := Some srv'\<rparr>))"
| io_server: "m_pServer s = Some srv \<Longrightarrow> io_step srv srv' \<Longrightarrow> net_step s (relay srv srv' (s\<lparr>m_pServer := Some srv'\<rparr>))"
| io_old: "net_old s = Some (was, srv) \<Longrightarrow> io_step srv srv' \<Longrightarrow> net_step s (relay srv srv' (s\<lparr>net_old := Some (was, srv')\<rparr>))"
| send: "net_step s (snd (Send nId d s))"
| close: "net_step s (Close nId s)"
| attach: "net_step s (snd (Attach nId pCtx s))"
| detach: "net_step s (snd (Detach nId s))"
| idle: "net_step s (SetIdleTimeout nSeconds s)"
| max: "net_step s (SetMaxConnections nMax s)"

inductive net_reach :: "'v::semiring_1 net_module \<Rightarrow> bool" where
  net_start: "net_reach (Initialize pMetrics CNetworkModule)"
| net_next: "net_reach s \<Longrightarrow> net_step s s' \<Longrightarrow> net_reach s'"

subsection \<open>Steps of the io thread\<close>

lemma io_step_srv: "io_step s s' \<Longrightarrow> srv_step s s'"
  by (induction rule: io_step.induct) (auto intro: srv_step.intros)

lemma fold_shutdown_running: "m_bRunning (fold shutdown_conn es s) = m_bRunning s"
  by (induction es arbitrary: s) (simp_all add: shutdown_conn_def call_def conn_close_def post_def)

lemma run_calls_running: "m_bRunning (run_calls r cs s) = m_bRunning s"
  by (induction r cs s rule: run_calls.induct)
    (auto simp: HandleData_def HandleClose_def call_def forget_def Let_def)

lemma run_task_running: "m_bRunning (run_task t cap s) = m_bRunning s"
  by (cases t) (auto simp: conn_send_def conn_close_def set_conn_def StartIdleTimer_def ShutdownOnIoThread_def
      fold_shutdown_running call_def post_def forget_def split: option.split)

lemma io_step_running: "io_step s s' \<Longrightarrow> m_bRunning s' = m_bRunning s"
proof (induction rule: io_step.induct)
  case (tick s nNow)
  then show ?case by (simp add: idle_tick_def CheckIdleConnections_def StartIdleTimer_def fold_Close_fields Let_def)
next
  case (read r s d nNow s')
  then show ?case by (auto simp: conn_read_def run_calls_running set_conn_def split: option.splits prod.splits)
qed (simp_all add: HandleAccept_def call_def run_task_running set_conn_def conn_written_def run_calls_running
    ShutdownOnIoThread_def fold_shutdown_running Let_def split: prod.split)

lemma run_calls_calls: "\<exists>cs'. calls (run_calls r cs s) = calls s @ cs'"
proof (induction r cs s rule: run_calls.induct)
  case (2 r d cs s)
  then show ?case by (auto simp: HandleData_def call_def)
next
  case (3 r cs s)
  then show ?case by (auto simp: HandleClose_def call_def forget_def Let_def)
qed simp

lemma fold_shutdown_calls: "\<exists>cs. calls (fold shutdown_conn es s) = calls s @ cs"
proof (induction es arbitrary: s)
  case (Cons e es)
  from Cons[of "shutdown_conn e s"] show ?case
    by (auto simp: shutdown_conn_def call_def conn_close_def post_def)
qed simp

lemma shutdown_calls: "\<exists>cs. calls (ShutdownOnIoThread s) = calls s @ cs"
proof -
  let ?s = "s\<lparr>m_pIdleTimer := NoTimer, acceptor_open := False, m_mapConnections := [], m_mapPeerAddresses := [],
     m_nConnectionCount := 0\<rparr>"
  obtain cs where "calls (fold shutdown_conn (m_mapConnections s) ?s) = calls ?s @ cs" using fold_shutdown_calls by blast
  then show ?thesis by (simp add: ShutdownOnIoThread_def)
qed

lemma run_task_calls: "\<exists>cs. calls (run_task t cap s) = calls s @ cs"
  by (cases t) (auto simp: shutdown_calls conn_send_def conn_close_def set_conn_def StartIdleTimer_def call_def post_def
      forget_def split: option.split)

lemma fold_Close_calls: "calls (fold TcpServer.Close ids s) = calls s"
  by (induction ids arbitrary: s) (simp_all add: TcpServer.Close_def post_def)

lemma io_step_calls: "io_step s s' \<Longrightarrow> \<exists>cs. calls s' = calls s @ cs"
proof (induction rule: io_step.induct)
  case (tick s nNow)
  then show ?case by (simp add: idle_tick_def CheckIdleConnections_def StartIdleTimer_def fold_Close_calls Let_def)
next
  case (task s t rest cap)
  show ?case using run_task_calls[of t cap "s\<lparr>posted := rest\<rparr>"] by simp
next
  case (read r s d nNow s')
  then obtain cs c where "s' = run_calls r cs (set_conn r c s)" by (auto simp: conn_read_def split: option.splits)
  then show ?case using run_calls_calls[of r cs "set_conn r c s"] by (simp add: set_conn_def)
next
  case (written r s n)
  obtain cs c where "HandleWrite (heap s ! r) = (cs, c)" by fastforce
  then show ?case using run_calls_calls[of r cs "set_conn r c s"] by (simp add: conn_written_def set_conn_def)
next
  case (ended s)
  show ?case using shutdown_calls[of s] by simp
qed (simp_all add: HandleAccept_def call_def set_conn_def Let_def)

subsection \<open>What the module hands on\<close>

definition kind_count :: "(srv_call \<Rightarrow> bool) \<Rightarrow> srv_call list \<Rightarrow> nat" where
  "kind_count P cs = length (filter P cs)"

fun is_accept :: "srv_call \<Rightarrow> bool" where
  "is_accept (OnAccept i a) = True" | "is_accept _ = False"

fun is_data :: "srv_call \<Rightarrow> bool" where
  "is_data (OnData i d) = True" | "is_data _ = False"

fun is_close :: "srv_call \<Rightarrow> bool" where
  "is_close (OnClose i) = True" | "is_close _ = False"

definition counters_ok :: "'v::semiring_1 net_module \<Rightarrow> bool" where
  "counters_ok s \<longleftrightarrow> (m_pMetrics s \<longrightarrow>
     Get ''network.accepted'' (net_metrics s) = of_nat (kind_count is_accept (net_calls s))
     \<and> Get ''network.msgs'' (net_metrics s) = of_nat (kind_count is_data (net_calls s))
     \<and> Get ''network.closed'' (net_metrics s) = of_nat (kind_count is_close (net_calls s)))"

definition live :: "'v net_module \<Rightarrow> server option" where
  "live s = (case net_new s of Some srv \<Rightarrow> Some srv | None \<Rightarrow>
     (case m_pServer s of Some srv \<Rightarrow> Some srv | None \<Rightarrow> map_option snd (net_old s)))"

text \<open>At most one server is alive, and its owner knows which.\<close>

definition owner_ok :: "'v net_module \<Rightarrow> bool" where
  "owner_ok s \<longleftrightarrow> (case net_owner s of
       OwnerIdle \<Rightarrow> net_new s = None \<and> net_old s = None
     | OwnerJoins todo \<Rightarrow> net_new s = None \<and> m_pServer s = None
     | OwnerSwaps p \<Rightarrow> net_new s \<noteq> None \<and> m_pServer s = None \<and> net_old s = None)
     \<and> (\<forall>was srv. net_old s = Some (was, srv) \<longrightarrow> was)
     \<and> (\<forall>srv. net_new s = Some srv \<or> m_pServer s = Some srv \<longrightarrow> m_bRunning srv)
     \<and> (\<forall>srv. live s = Some srv \<longrightarrow> m_pHandler s \<and> srv_reach srv)"

definition calls_of :: "server option \<Rightarrow> srv_call list" where
  "calls_of srv = (case srv of None \<Rightarrow> [] | Some srv \<Rightarrow> calls srv)"

text \<open>The servers of the past, each of which ended.\<close>

definition history_ok :: "server list \<Rightarrow> 'v net_module \<Rightarrow> bool" where
  "history_ok past s \<longleftrightarrow> net_calls s = concat (map calls past) @ calls_of (live s)
     \<and> (\<forall>srv \<in> set past. srv_reach srv \<and> io_ended srv)"

definition net_inv :: "'v::semiring_1 net_module \<Rightarrow> bool" where
  "net_inv s \<longleftrightarrow> owner_ok s \<and> counters_ok s \<and> (\<exists>past. history_ok past s)"

lemma metrics_get [simp]:
  "Get n (Inc n' v m) = (if n = n' then Get n m + v else Get n m)"
  "Get n (SetGauge n' v m) = (if n = n' then v else Get n m)"
  by (auto simp: Get_def Inc_def SetGauge_def EnsureEntry_cases split: option.splits)

lemma kind_count_simps [simp]:
  "kind_count P [] = 0" "kind_count P (xs @ ys) = kind_count P xs + kind_count P ys"
  "kind_count P (c # cs) = (if P c then 1 else 0) + kind_count P cs"
  by (simp_all add: kind_count_def)

lemma on_call_frame:
  "m_pServer (on_call c s) = m_pServer s \<and> m_pHandler (on_call c s) = m_pHandler s \<and> m_pMetrics (on_call c s) = m_pMetrics s
   \<and> net_owner (on_call c s) = net_owner s \<and> net_new (on_call c s) = net_new s \<and> net_old (on_call c s) = net_old s"
  by (cases c) (simp_all add: hand_on_def measure_def)

lemma on_call_handled: "m_pHandler s \<Longrightarrow> net_calls (on_call c s) = net_calls s @ [c] \<and> (counters_ok s \<longrightarrow> counters_ok (on_call c s))"
  by (cases c) (simp_all add: hand_on_def measure_def counters_ok_def ac_simps)

lemma fold_on_call:
  "m_pHandler s \<Longrightarrow> net_calls (fold on_call cs s) = net_calls s @ cs \<and> (counters_ok s \<longrightarrow> counters_ok (fold on_call cs s))
     \<and> m_pServer (fold on_call cs s) = m_pServer s \<and> m_pHandler (fold on_call cs s)
     \<and> net_owner (fold on_call cs s) = net_owner s \<and> net_new (fold on_call cs s) = net_new s
     \<and> net_old (fold on_call cs s) = net_old s"
proof (induction cs arbitrary: s)
  case (Cons c cs)
  have "m_pHandler (on_call c s)" using Cons.prems on_call_frame[of c s] by simp
  from Cons.IH[OF this] Cons.prems on_call_frame[of c s] on_call_handled[of s c] show ?case by auto
qed simp

text \<open>A step of the server that is alive.\<close>

lemma relay_inv:
  assumes inv: "net_inv s" and alive: "live s = Some srv" and st: "io_step srv srv'"
    and s1: "live s1 = Some srv'" "net_calls s1 = net_calls s" "m_pHandler s1 = m_pHandler s" "net_owner s1 = net_owner s"
      "counters_ok s1 = counters_ok s"
    and owner: "owner_ok s1"
  shows "net_inv (relay srv srv' s1)"
proof -
  obtain past where past: "history_ok past s" using inv by (auto simp: net_inv_def)
  obtain cs where cs: "calls srv' = calls srv @ cs" using io_step_calls[OF st] by blast
  have h: "m_pHandler s1" using inv alive s1(3) by (simp add: net_inv_def owner_ok_def)
  have r: "relay srv srv' s1 = fold on_call cs s1" by (simp add: relay_def cs)
  note f = fold_on_call[OF h, of cs]
  have same: "m_pServer (relay srv srv' s1) = m_pServer s1" "m_pHandler (relay srv srv' s1) = m_pHandler s1"
    "net_owner (relay srv srv' s1) = net_owner s1" "net_new (relay srv srv' s1) = net_new s1"
    "net_old (relay srv srv' s1) = net_old s1" using f h by (simp_all add: r)
  have "live (relay srv srv' s1) = Some srv'" using s1(1) unfolding live_def same .
  moreover have "owner_ok (relay srv srv' s1)" using owner unfolding owner_ok_def live_def same .
  moreover have "net_calls (relay srv srv' s1) = net_calls s @ cs" "counters_ok (relay srv srv' s1)"
    using f s1 inv by (simp_all add: r net_inv_def)
  ultimately show ?thesis using past alive cs unfolding net_inv_def history_ok_def by (auto simp: calls_of_def)
qed

lemma client_op_inv:
  assumes inv: "net_inv s" and srv: "m_pServer s = Some srv"
    and st: "srv_step srv srv'" "calls srv' = calls srv" "m_bRunning srv' = m_bRunning srv"
  shows "net_inv (s\<lparr>m_pServer := Some srv'\<rparr>)"
proof -
  have o: "owner_ok s" using inv by (simp add: net_inv_def)
  then have idle: "net_owner s = OwnerIdle" "net_new s = None" "net_old s = None"
    using srv by (auto simp: owner_ok_def split: net_owner.splits)
  then have "live s = Some srv" "live (s\<lparr>m_pServer := Some srv'\<rparr>) = Some srv'" using srv by (simp_all add: live_def)
  then show ?thesis
    using inv o idle srv st unfolding net_inv_def owner_ok_def history_ok_def counters_ok_def
    by (auto simp: calls_of_def intro: srv_next)
qed

lemma release_inv:
  assumes inv: "net_inv s" and idle: "net_owner s = OwnerIdle"
  shows "net_inv (Stop_release todo s)"
proof -
  have o: "owner_ok s" using inv by (simp add: net_inv_def)
  then have n: "net_new s = None" "net_old s = None" using idle by (simp_all add: owner_ok_def)
  show ?thesis
  proof (cases "m_pServer s")
    case None
    then have "live s = None" "live (Stop_release todo s) = None" using n by (simp_all add: live_def Stop_release_def)
    then show ?thesis
      using inv n None unfolding net_inv_def owner_ok_def history_ok_def counters_ok_def
      by (auto simp: Stop_release_def)
  next
    case (Some srv)
    have l: "live s = Some srv" using n Some by (simp add: live_def)
    then have srv: "srv_reach srv" "m_bRunning srv" "m_pHandler s" using o Some by (auto simp: owner_ok_def)
    have "srv_reach (TcpServer.Stop srv)" using srv(1) srv_step.stop by (rule srv_next)
    moreover have "calls (TcpServer.Stop srv) = calls srv" by (simp add: TcpServer.Stop_def post_def)
    moreover have "live (Stop_release todo s) = Some (TcpServer.Stop srv)"
      using n Some by (simp add: live_def Stop_release_def)
    ultimately show ?thesis
      using inv l n Some srv unfolding net_inv_def owner_ok_def history_ok_def counters_ok_def
      by (auto simp: Stop_release_def calls_of_def)
  qed
qed

lemma joined_history:
  assumes inv: "net_inv s" and owner: "net_owner s = OwnerJoins todo"
    and ended: "\<forall>was srv. net_old s = Some (was, srv) \<longrightarrow> was \<longrightarrow> io_ended srv"
  shows "\<exists>past. net_calls s = concat (map calls past) \<and> (\<forall>srv \<in> set past. srv_reach srv \<and> io_ended srv)"
proof -
  obtain past where past: "history_ok past s" using inv by (auto simp: net_inv_def)
  have o: "owner_ok s" using inv by (simp add: net_inv_def)
  then have n: "net_new s = None" "m_pServer s = None" using owner by (simp_all add: owner_ok_def)
  show ?thesis
  proof (cases "net_old s")
    case None
    then have "live s = None" using n by (simp add: live_def)
    then show ?thesis using past by (auto simp: history_ok_def calls_of_def)
  next
    case (Some w)
    obtain was srv where w: "w = (was, srv)" by fastforce
    have l: "live s = Some srv" using n Some w by (simp add: live_def)
    have "was" using o Some w by (simp add: owner_ok_def)
    then have "io_ended srv" using ended Some w by blast
    moreover have "srv_reach srv" using o l by (simp add: owner_ok_def)
    ultimately show ?thesis
      using past l by (intro exI[of _ "past @ [srv]"]) (auto simp: history_ok_def calls_of_def)
  qed
qed

lemma started_server:
  "fst (TcpServer.Start listens p CTcpServer) = listens"
  "srv_reach (snd (TcpServer.Start listens p CTcpServer))"
  "listens \<Longrightarrow> m_bRunning (snd (TcpServer.Start listens p CTcpServer))"
  "calls (snd (TcpServer.Start listens p CTcpServer)) = []"
proof -
  show "srv_reach (snd (TcpServer.Start listens p CTcpServer))"
    by (rule srv_next[OF srv_start srv_step.start]) (simp add: CTcpServer_def)
qed (simp_all add: TcpServer.Start_def CTcpServer_def post_def)

lemma net_inv_ctx [simp]: "net_inv (s\<lparr>m_mapConnCtx := m\<rparr>) = net_inv s"
proof -
  have l: "live (s\<lparr>m_mapConnCtx := m\<rparr>) = live s" by (simp add: live_def cong: option.case_cong)
  show ?thesis
    unfolding net_inv_def owner_ok_def counters_ok_def history_ok_def l by (simp cong: net_owner.case_cong)
qed

lemma net_inv_step: "net_step s s' \<Longrightarrow> net_inv s \<Longrightarrow> net_inv s'"
proof (induction rule: net_step.induct)
  case (start s pHandler listens nPort)
  then show ?case by (simp add: StartTcpServer_def release_inv)
next
  case (stop s)
  then show ?case by (simp add: release_inv)
next
  case (joined s todo)
  obtain past where past: "net_calls s = concat (map calls past)" "\<forall>srv \<in> set past. srv_reach srv \<and> io_ended srv"
    using joined_history[OF joined(3,1,2)] by blast
  have o: "owner_ok s" "counters_ok s" using joined(3) by (simp_all add: net_inv_def)
  then have n: "net_new s = None" "m_pServer s = None" using joined(1) by (simp_all add: owner_ok_def)
  show ?case
  proof (cases todo)
    case ThenIdle
    let ?s = "(Stop_joined s)\<lparr>net_owner := OwnerIdle\<rparr>"
    have l: "live ?s = None" using n by (simp add: live_def Stop_joined_def)
    have "owner_ok ?s" using n l by (simp add: owner_ok_def Stop_joined_def)
    moreover have "counters_ok ?s" using o by (simp add: counters_ok_def Stop_joined_def)
    moreover have "history_ok past ?s" using past l by (simp add: history_ok_def Stop_joined_def calls_of_def)
    ultimately show ?thesis using ThenIdle unfolding net_inv_def by auto
  next
    case (ThenStart listens nPort)
    define srv where "srv = snd (TcpServer.Start listens nPort CTcpServer)"
    note st = started_server[of listens nPort, folded srv_def]
    let ?s = "StartTcpServer_start listens nPort (Stop_joined s)"
    have eq: "?s = (if listens then (Stop_joined s)\<lparr>m_pHandler := True, net_new := Some srv, net_owner := OwnerSwaps nPort\<rparr>
        else (Stop_joined s)\<lparr>m_pHandler := False, net_owner := OwnerIdle\<rparr>)"
      using st(1) by (simp add: StartTcpServer_start_def srv_def split_beta)
    have l: "live ?s = (if listens then Some srv else None)" unfolding eq live_def using n by (simp add: Stop_joined_def)
    have "owner_ok ?s" unfolding owner_ok_def l unfolding eq using n st by (simp add: Stop_joined_def)
    moreover have "counters_ok ?s" unfolding eq using o by (simp add: counters_ok_def Stop_joined_def)
    moreover have "history_ok past ?s"
      unfolding history_ok_def l unfolding eq using past st(4) by (simp add: Stop_joined_def calls_of_def)
    ultimately show ?thesis using ThenStart unfolding net_inv_def by auto
  qed
next
  case (swapped s nPort)
  let ?s = "StartTcpServer_swap nPort s"
  obtain past where past: "history_ok past s" using swapped(2) by (auto simp: net_inv_def)
  have o: "owner_ok s" "counters_ok s" using swapped(2) by (simp_all add: net_inv_def)
  then have n: "net_new s \<noteq> None" "m_pServer s = None" "net_old s = None" using swapped(1) by (simp_all add: owner_ok_def)
  then obtain srv where srv: "net_new s = Some srv" by blast
  then have l: "live s = Some srv" "live ?s = Some srv" using n by (simp_all add: live_def StartTcpServer_swap_def)
  have "owner_ok ?s" using o(1) n srv l by (simp add: owner_ok_def StartTcpServer_swap_def)
  moreover have "counters_ok ?s" using o by (simp add: counters_ok_def StartTcpServer_swap_def)
  moreover have "history_ok past ?s" using past l by (simp add: history_ok_def StartTcpServer_swap_def)
  ultimately show ?case unfolding net_inv_def by auto
next
  case (io_new s srv srv')
  have o: "owner_ok s" using io_new(3) by (simp add: net_inv_def)
  then have n: "m_pServer s = None" "net_old s = None" using io_new(1) by (auto simp: owner_ok_def split: net_owner.splits)
  have l: "live s = Some srv" "live (s\<lparr>net_new := Some srv'\<rparr>) = Some srv'" using io_new(1) by (simp_all add: live_def)
  have reach: "srv_reach srv'" "m_bRunning srv'"
    using o l io_new io_step_srv io_step_running[OF io_new(2)] srv_next by (auto simp: owner_ok_def)
  show ?case
  proof (rule relay_inv[OF io_new(3) l(1) io_new(2) l(2)])
    show "owner_ok (s\<lparr>net_new := Some srv'\<rparr>)"
      using o n l reach io_new(1) unfolding owner_ok_def by (auto split: net_owner.splits)
  qed (simp_all add: counters_ok_def)
next
  case (io_server s srv srv')
  have o: "owner_ok s" using io_server(3) by (simp add: net_inv_def)
  then have n: "net_new s = None" "net_old s = None" "net_owner s = OwnerIdle"
    using io_server(1) by (auto simp: owner_ok_def split: net_owner.splits)
  have l: "live s = Some srv" "live (s\<lparr>m_pServer := Some srv'\<rparr>) = Some srv'" using io_server(1) n by (simp_all add: live_def)
  have reach: "srv_reach srv'" "m_bRunning srv'"
    using o l io_server io_step_srv io_step_running[OF io_server(2)] srv_next by (auto simp: owner_ok_def)
  show ?case
  proof (rule relay_inv[OF io_server(3) l(1) io_server(2) l(2)])
    show "owner_ok (s\<lparr>m_pServer := Some srv'\<rparr>)"
      using o n l reach unfolding owner_ok_def by auto
  qed (simp_all add: counters_ok_def)
next
  case (io_old s was srv srv')
  have o: "owner_ok s" using io_old(3) by (simp add: net_inv_def)
  then have n: "net_new s = None" "m_pServer s = None"
    using io_old(1) by (auto simp: owner_ok_def split: net_owner.splits)
  have l: "live s = Some srv" "live (s\<lparr>net_old := Some (was, srv')\<rparr>) = Some srv'" using io_old(1) n by (simp_all add: live_def)
  have reach: "srv_reach srv'" using o l io_old io_step_srv srv_next by (auto simp: owner_ok_def)
  show ?case
  proof (rule relay_inv[OF io_old(3) l(1) io_old(2) l(2)])
    show "owner_ok (s\<lparr>net_old := Some (was, srv')\<rparr>)"
      using o n l reach io_old(1) unfolding owner_ok_def by (auto split: net_owner.splits)
  qed (simp_all add: counters_ok_def)
next
  case (send s nId d)
  show ?case
  proof (cases "m_pServer s")
    case (Some srv)
    have "net_inv (s\<lparr>m_pServer := Some (snd (TcpServer.Send nId d srv))\<rparr>)"
      by (rule client_op_inv[OF send Some srv_step.send]) (simp_all add: TcpServer.Send_def post_def)
    then show ?thesis using Some by (simp add: Send_def split_beta)
  qed (use send in \<open>simp add: Send_def\<close>)
next
  case (close s nId)
  show ?case
  proof (cases "m_pServer s")
    case (Some srv)
    have "net_inv (s\<lparr>m_pServer := Some (TcpServer.Close nId srv)\<rparr>)"
      by (rule client_op_inv[OF close Some srv_step.close]) (simp_all add: TcpServer.Close_def post_def)
    then show ?thesis using Some by (simp add: Close_def)
  next
    case None
    then have "Close nId s = s" by (simp add: Close_def)
    then show ?thesis using close by simp
  qed
next
  case (idle s nSeconds)
  show ?case
  proof (cases "m_pServer s")
    case (Some srv)
    have "net_inv (s\<lparr>m_pServer := Some (TcpServer.SetIdleTimeout nSeconds srv)\<rparr>)"
      by (rule client_op_inv[OF idle Some srv_step.idle]) (simp_all add: TcpServer.SetIdleTimeout_def post_def Let_def)
    then show ?thesis using Some by (simp add: SetIdleTimeout_def)
  next
    case None
    then have "SetIdleTimeout nSeconds s = s" by (simp add: SetIdleTimeout_def)
    then show ?thesis using idle by simp
  qed
next
  case (max s nMax)
  show ?case
  proof (cases "m_pServer s")
    case (Some srv)
    have "net_inv (s\<lparr>m_pServer := Some (TcpServer.SetMaxConnections nMax srv)\<rparr>)"
      by (rule client_op_inv[OF max Some srv_step.max]) (simp_all add: TcpServer.SetMaxConnections_def)
    then show ?thesis using Some by (simp add: SetMaxConnections_def)
  next
    case None
    then have "SetMaxConnections nMax s = s" by (simp add: SetMaxConnections_def)
    then show ?thesis using max by simp
  qed
next
  case (attach s nId pCtx)
  then show ?case by (simp add: Attach_def net_inv_ctx)
next
  case (detach s nId)
  then show ?case by (simp add: Detach_def net_inv_ctx split: option.split)
qed

lemma net_reach_inv: "net_reach s \<Longrightarrow> net_inv s"
proof (induction rule: net_reach.induct)
  case (net_start pMetrics)
  have "history_ok [] (Initialize pMetrics CNetworkModule)"
    by (simp add: history_ok_def Initialize_def CNetworkModule_def live_def calls_of_def)
  then show ?case
    by (auto simp: net_inv_def owner_ok_def counters_ok_def Initialize_def CNetworkModule_def live_def Get_def CMetricsModule_def)
qed (rule net_inv_step)

text \<open>C35. What the handler and the metrics of the module see.  Through any number of starts and stops,
  with io threads running beside them, the handler is called with exactly the callbacks of the
  servers, those of one server before those of the next; a server that is replaced has reported the
  close of every connection it announced before the next one announces any (as long as it accepted
  fewer than \<open>2 ^ 64\<close>); and the counters of the metrics are the numbers of these calls.\<close>

theorem network_module_relays:
  assumes "net_reach s"
  shows "\<exists>past. net_calls s = concat (map calls past) @ calls_of (live s)
     \<and> (\<forall>srv \<in> set past. length (heap srv) < 2 ^ 64 \<longrightarrow> accepted_ids srv = closed_ids srv)
     \<and> counters_ok s"
proof -
  obtain past where past: "history_ok past s" "counters_ok s" using net_reach_inv[OF assms] by (auto simp: net_inv_def)
  have "accepted_ids srv = closed_ids srv" if "srv \<in> set past" "length (heap srv) < 2 ^ 64" for srv
    using past that srv_reach_inv[of srv] by (auto simp: history_ok_def full_inv_def ended_ok_def)
  then show ?thesis using past by (auto simp: history_ok_def)
qed

subsection \<open>The module that starts the server\<close>

record tcp_module =
  tm_nPort :: u16
  m_pNetwork :: bool
  m_pNetHandler :: bool
  m_pEventDispatcher :: bool

datatype tm_call = CallStart u16 | CallStop | PublishStarted u16 | PublishStopped

definition CTcpServerModule :: "u16 \<Rightarrow> tcp_module" where
  "CTcpServerModule nPort = \<lparr>tm_nPort = nPort, m_pNetwork = False, m_pNetHandler = False, m_pEventDispatcher = False\<rparr>"

text \<open>The arguments say which interfaces are registered.\<close>

definition TM_Initialize :: "bool \<Rightarrow> bool \<Rightarrow> bool \<Rightarrow> tcp_module \<Rightarrow> bool \<times> tcp_module" where
  "TM_Initialize pNetwork pHandler pEvents m =
     (if \<not> pNetwork then (False, m)
      else if \<not> pHandler then (False, m\<lparr>m_pNetwork := True\<rparr>)
      else (True, m\<lparr>m_pNetwork := True, m_pNetHandler := True, m_pEventDispatcher := pEvents\<rparr>))"

text \<open>\<open>ok\<close> is what \<open>StartTcpServer\<close> returns.\<close>

definition TM_Start :: "bool \<Rightarrow> tcp_module \<Rightarrow> bool \<times> tm_call list" where
  "TM_Start ok m =
     (if \<not> m_pNetwork m \<or> \<not> m_pNetHandler m then (False, [])
      else if \<not> ok then (False, [CallStart (tm_nPort m)])
      else (True, [CallStart (tm_nPort m)] @ (if m_pEventDispatcher m then [PublishStarted (tm_nPort m)] else [])))"

definition TM_Stop :: "tcp_module \<Rightarrow> tm_call list" where
  "TM_Stop m = (if m_pEventDispatcher m then [PublishStopped] else []) @ (if m_pNetwork m then [CallStop] else [])"

definition TM_Shutdown :: "tcp_module \<Rightarrow> tm_call list \<times> tcp_module" where
  "TM_Shutdown m = (TM_Stop m, m\<lparr>m_pNetwork := False, m_pNetHandler := False, m_pEventDispatcher := False\<rparr>)"

definition TM_GetStatus :: "'v net_module \<Rightarrow> tcp_module \<Rightarrow> string" where
  "TM_GetStatus net m =
     ''tcp-server:port='' @
     (if m_pNetwork m
      then decimal (unat (ListeningPort net)) @ '' conns='' @ decimal (ConnectionCount net) @ '' accepted=''
           @ decimal (unat (TotalAccepted net)) @ '' closed='' @ decimal (unat (TotalClosed net))
      else decimal (unat (tm_nPort m)))"

text \<open>A stop and the shutdown behind it, which every module goes through, announce the stop of the
  network twice; a module whose server could not be started announces it as well.\<close>

theorem stopped_published_twice:
  "let m = snd (TM_Initialize True True True m) in
    TM_Stop m @ fst (TM_Shutdown m) = [PublishStopped, CallStop, PublishStopped, CallStop]
    \<and> TM_Start False m = (False, [CallStart (tm_nPort m)])"
  by (simp add: TM_Initialize_def TM_Stop_def TM_Shutdown_def TM_Start_def Let_def)

subsection \<open>Scenarios\<close>

text \<open>A connection that arrives between the start of the server and the moment \<open>m_pServer\<close> names
  it: the callback reads the old pointer, and the gauge says that nobody is connected.\<close>

definition demo_new :: server where
  "demo_new = snd (TcpServer.Start True 80 CTcpServer)"

definition demo_first :: server where
  "demo_first = HandleAccept ''peer'' 15 0 (demo_new\<lparr>accept_ready := False\<rparr>)"

definition demo_net :: "int net_module" where
  "demo_net = (Initialize True CNetworkModule)\<lparr>net_owner := OwnerSwaps 80, m_pHandler := True, net_new := Some demo_new\<rparr>"

definition demo_early :: "int net_module" where
  "demo_early = (Initialize True CNetworkModule)\<lparr>m_pServer := Some demo_first, m_pHandler := True, m_nPort := 80,
     net_metrics := [(''network.accepted'', \<lparr>m_kind = kCounter, m_value = 1\<rparr>),
       (''network.conns'', \<lparr>m_kind = kGauge, m_value = 0\<rparr>)], net_calls := [OnAccept 1 ''peer'']\<rparr>"

lemma demo_net_reach: "net_reach demo_net"
proof -
  let ?s = "Initialize True CNetworkModule :: int net_module"
  have "net_step ?s (snd (StartTcpServer True True 80 ?s))"
    by (rule net_step.start) (simp add: Initialize_def CNetworkModule_def)
  from net_next[OF net_start this] have "net_reach (Stop_release (ThenStart True 80) ?s)"
    by (simp add: StartTcpServer_def)
  from net_next[OF this net_step.joined[of _ "ThenStart True 80"]] show ?thesis
    by (simp add: Stop_release_def Stop_joined_def StartTcpServer_start_def Initialize_def CNetworkModule_def demo_net_def
        demo_new_def TcpServer.Start_def CTcpServer_def split_beta)
qed

lemma demo_early_reach: "net_reach demo_early"
proof -
  define s where "s = demo_net\<lparr>net_new := Some (demo_new\<lparr>accept_ready := True\<rparr>)\<rparr>"
  have runs: "acceptor_open demo_new" "io_runs demo_new"
    by (simp_all add: demo_new_def TcpServer.Start_def CTcpServer_def post_def io_runs_def)
  have "net_step demo_net (relay demo_new (demo_new\<lparr>accept_ready := True\<rparr>) s)"
    unfolding s_def by (rule net_step.io_new[OF _ io_step.arrives[OF runs]]) (simp add: demo_net_def)
  then have s: "net_reach s" using net_next[OF demo_net_reach] by (simp add: relay_def)
  have "io_step (demo_new\<lparr>accept_ready := True\<rparr>)
      (HandleAccept ''peer'' 15 0 ((demo_new\<lparr>accept_ready := True\<rparr>)\<lparr>accept_ready := False\<rparr>))"
    by (rule io_step.accept) (use runs in \<open>simp_all add: io_runs_def\<close>)
  then have io: "io_step (demo_new\<lparr>accept_ready := True\<rparr>) demo_first" by (simp add: demo_first_def)
  have calls: "calls demo_new = []" "calls demo_first = [OnAccept 1 ''peer'']"
    by (simp_all add: demo_first_def demo_new_def HandleAccept_def call_def TcpServer.Start_def CTcpServer_def post_def)
  have "net_step s (relay (demo_new\<lparr>accept_ready := True\<rparr>) demo_first (s\<lparr>net_new := Some demo_first\<rparr>))"
    by (rule net_step.io_new[OF _ io]) (simp add: s_def)
  from net_next[OF s this] have "net_reach (on_call (OnAccept 1 ''peer'') (s\<lparr>net_new := Some demo_first\<rparr>))"
    by (simp add: relay_def calls)
  moreover have "StartTcpServer_swap 80 (on_call (OnAccept 1 ''peer'') (s\<lparr>net_new := Some demo_first\<rparr>)) = demo_early"
    by (simp add: s_def demo_net_def demo_early_def Initialize_def CNetworkModule_def hand_on_def measure_def conns_def
        StartTcpServer_swap_def Inc_def SetGauge_def EnsureEntry_cases CMetricsModule_def sm_find_def)
  moreover have "net_owner (on_call (OnAccept 1 ''peer'') (s\<lparr>net_new := Some demo_first\<rparr>)) = OwnerSwaps 80"
    by (simp add: s_def demo_net_def hand_on_def measure_def)
  ultimately show ?thesis using net_next[OF _ net_step.swapped] by metis
qed

theorem network_module_relays_witness:
  "net_calls demo_early = [OnAccept 1 ''peer''] \<and> counters_ok demo_early"
  using network_module_relays[OF demo_early_reach] by (auto simp: demo_early_def)

theorem gauge_misses_early_connection:
  "\<exists>s :: int net_module. net_reach s \<and> net_owner s = OwnerIdle \<and> ConnectionCount s = 1 \<and> Get ''network.conns'' (net_metrics s) = 0"
  by (intro exI[of _ demo_early])
    (simp add: demo_early_reach, simp add: demo_early_def Initialize_def CNetworkModule_def ConnectionCount_def conns_def
      demo_first_def demo_new_def HandleAccept_def call_def TcpServer.Start_def CTcpServer_def post_def
      TcpServer.ConnectionCount_def Get_def sm_find_def)

end
