(* ===== verification/ExampleService.thy ===== *)
theory ExampleService
  imports ReadWriteGate ExampleProtocol NetworkModule
begin

text \<open>
  The example server's protocol service (\<open>src/ServerExample/Service/ExampleService.cpp\<close>) on top of
  the message router and the network module, and the echo service of the template
  (\<open>src/ServerTemplate/Service/EchoService.cpp\<close>).  The service is the handler the network module
  calls: it feeds the router, whose handlers answer at once or post the answer to the executor, whose
  gate decides which of the posted closures may run (a closure is known to the gate by its number,
  the position in \<open>svc_bodies\<close>), and keeps a context object per connection, attached to the network module as a pointer (an index of
  \<open>ctx_heap\<close>, empty after \<open>delete\<close>).  The metrics are those of the network
  module.  Log lines are left out.
\<close>

record ConnContext =
  strPeer :: string
  nBytesReceived :: u64

datatype svc_handler = PingHandler | EchoHandler        \<comment> \<open>the closures given to the router\<close>

datatype svc_task = PongTask u64 | EchoTask u64 bytes   \<comment> \<open>the closures given to the executor\<close>

record 'v svc_env =
  svc_net :: "'v net_module"
  svc_pNetwork :: bool
  svc_pRouter :: bool
  svc_pExecutor :: bool
  svc_pMetrics :: bool
  svc_accepts :: bool                       \<comment> \<open>whether the executor accepts tasks\<close>
  svc_gate :: gate_sys                      \<comment> \<open>the executor's gate with the tasks it has admitted\<close>
  svc_bodies :: "svc_task list"             \<comment> \<open>the closures posted so far\<close>
  ctx_heap :: "ConnContext option list"

type_synonym 'v service = "svc_handler router \<times> 'v svc_env"

definition CExampleService :: "'v net_module \<Rightarrow> 'v svc_env" where
  "CExampleService net = \<lparr>svc_net = net, svc_pNetwork = False, svc_pRouter = False, svc_pExecutor = False,
     svc_pMetrics = False, svc_accepts = True, svc_gate = gate_init 0, svc_bodies = [], ctx_heap = []\<rparr>"

text \<open>The arguments say which interfaces are registered.\<close>

definition svc_Initialize :: "bool \<Rightarrow> bool \<Rightarrow> bool \<Rightarrow> bool \<Rightarrow> 'v service \<Rightarrow> bool \<times> 'v service" where
  "svc_Initialize pNetwork pRouter pExecutor pMetrics s =
     (let (r, e) = s
      in if \<not> pNetwork then (False, s)
         else if \<not> pRouter then (False, r, e\<lparr>svc_pNetwork := True\<rparr>)
         else
           let r = SetExtractor (Some MessageExtractor) r;
               r = snd (RegisterHandler (uint kCmdPing) (Some PingHandler) r);
               r = snd (RegisterHandler (uint kCmdEcho) (Some EchoHandler) r)
           in (True, r, e\<lparr>svc_pNetwork := True, svc_pRouter := True, svc_pExecutor := pExecutor, svc_pMetrics := pMetrics\<rparr>))"

subsection \<open>Commands\<close>

definition svc_send :: "u64 \<Rightarrow> bytes \<Rightarrow> 'v svc_env \<Rightarrow> 'v svc_env" where
  "svc_send nId d e = (if svc_pNetwork e then e\<lparr>svc_net := snd (NetworkModule.Send nId d (svc_net e))\<rparr> else e)"

definition svc_measure :: "('v metrics \<Rightarrow> 'v metrics) \<Rightarrow> 'v svc_env \<Rightarrow> 'v svc_env" where
  "svc_measure f e = (if svc_pMetrics e then e\<lparr>svc_net := (svc_net e)\<lparr>net_metrics := f (net_metrics (svc_net e))\<rparr>\<rparr> else e)"

definition svc_post :: "task_kind \<Rightarrow> svc_task \<Rightarrow> 'v svc_env \<Rightarrow> 'v svc_env" where
  "svc_post eKind t e =
     (if svc_accepts e
      then e\<lparr>svc_gate := do_submit (length (svc_bodies e), eKind) (svc_gate e), svc_bodies := svc_bodies e @ [t]\<rparr>
      else e)"

definition HandlePing :: "u64 \<Rightarrow> 'v svc_env \<Rightarrow> 'v svc_env" where
  "HandlePing nId e = (if svc_pExecutor e then svc_post kWrite (PongTask nId) e else svc_send nId BuildPong e)"

definition HandleEcho :: "u64 \<Rightarrow> bytes \<Rightarrow> 'v svc_env \<Rightarrow> 'v svc_env" where
  "HandleEcho nId pl e =
     (if svc_pExecutor e then svc_post kWrite (EchoTask nId pl) e else svc_send nId (BuildPacket kCmdEcho pl) e)"

text \<open>The two closures of \<open>Initialize\<close>, and those that are posted.\<close>

fun svc_handle :: "svc_handler \<Rightarrow> nat \<Rightarrow> int \<Rightarrow> bytes \<Rightarrow> 'v svc_env \<Rightarrow> 'v svc_env" where
  "svc_handle PingHandler n t pl e = HandlePing (of_nat n) e"
| "svc_handle EchoHandler n t pl e = HandleEcho (of_nat n) pl e"

fun svc_run_task :: "svc_task \<Rightarrow> 'v::semiring_1 svc_env \<Rightarrow> 'v svc_env" where
  "svc_run_task (PongTask nId) e = svc_send nId BuildPong e"
| "svc_run_task (EchoTask nId pl) e = svc_measure (Inc ''example.echo'' 1) (svc_send nId (BuildPacket kCmdEcho pl) e)"

subsection \<open>The callbacks\<close>

definition svc_OnAccept :: "u64 \<Rightarrow> string \<Rightarrow> 'v service \<Rightarrow> 'v service" where
  "svc_OnAccept nId peer s =
     (let (r, e) = s
      in if svc_pNetwork e
         then (r, e\<lparr>ctx_heap := ctx_heap e @ [Some \<lparr>strPeer = peer, nBytesReceived = 0\<rparr>],
                    svc_net := snd (Attach nId (Some (length (ctx_heap e))) (svc_net e))\<rparr>)
         else s)"

definition count_bytes :: "u64 \<Rightarrow> bytes \<Rightarrow> 'v svc_env \<Rightarrow> 'v svc_env" where
  "count_bytes nId d e =
     (case GetAttached nId (svc_net e) of
        None \<Rightarrow> e
      | Some p \<Rightarrow> e\<lparr>ctx_heap := (ctx_heap e)[p := map_option (\<lambda>c. c\<lparr>nBytesReceived := nBytesReceived c + of_nat (length d)\<rparr>)
                                               (ctx_heap e ! p)]\<rparr>)"

definition svc_OnData :: "u64 \<Rightarrow> bytes \<Rightarrow> 'v::semiring_1 service \<Rightarrow> router_error option \<times> 'v service" where
  "svc_OnData nId d s =
     (case (if svc_pRouter (snd s) then MessageRouter.OnData (outer_run svc_handle) (unat nId) (Some d) s else (None, s)) of
        (Some err, s) \<Rightarrow> (Some err, s)
      | (None, r, e) \<Rightarrow>
          let e = (if svc_pNetwork e then count_bytes nId d e else e)
          in (None, r, svc_measure (Inc ''example.msgs'' 1) e))"

definition svc_OnClose :: "u64 \<Rightarrow> 'v service \<Rightarrow> 'v service" where
  "svc_OnClose nId s =
     (let (r, e) = s;
          r = (if svc_pRouter e then MessageRouter.OnClose (unat nId) r else r)
      in if svc_pNetwork e
         then (let (p, net) = Detach nId (svc_net e);
                   e = e\<lparr>svc_net := net\<rparr>
               in case p of
                    None \<Rightarrow> (r, e)
                  | Some p \<Rightarrow> (r, e\<lparr>ctx_heap := (ctx_heap e)[p := None]\<rparr>))
         else (r, e))"

fun svc_call :: "srv_call \<Rightarrow> 'v::semiring_1 service \<Rightarrow> 'v service" where
  "svc_call (srv_call.OnAccept nId a) s = svc_OnAccept nId a s"
| "svc_call (srv_call.OnData nId d) s = snd (svc_OnData nId d s)"
| "svc_call (srv_call.OnClose nId) s = svc_OnClose nId s"

definition svc_GetStatus :: string where
  "svc_GetStatus = ''service''"

text \<open>The template's echo service.\<close>

definition echo_OnData :: "bool \<Rightarrow> u64 \<Rightarrow> bytes \<Rightarrow> 'v net_module \<Rightarrow> 'v net_module" where
  "echo_OnData pNetwork nId d net = (if pNetwork \<and> length d > 0 then snd (NetworkModule.Send nId d net) else net)"

subsection \<open>Replies\<close>

text \<open>What has been handed to the running server, in order.\<close>

definition sent :: "'v svc_env \<Rightarrow> srv_task list" where
  "sent e = (case m_pServer (svc_net e) of None \<Rightarrow> [] | Some srv \<Rightarrow> posted srv)"

definition service_up :: "'v svc_env \<Rightarrow> bool" where
  "service_up e \<longleftrightarrow> svc_pNetwork e \<and> svc_pRouter e \<and> svc_accepts e
     \<and> (\<exists>srv. m_pServer (svc_net e) = Some srv \<and> m_bRunning srv)"

text \<open>The executor at work: a thread takes a task that has a slot, and runs it and returns the slot.\<close>

definition svc_hand :: "gtask \<Rightarrow> 'v svc_env \<Rightarrow> 'v svc_env" where
  "svc_hand t e = e\<lparr>svc_gate := do_hand_over t (svc_gate e)\<rparr>"

definition svc_finish :: "gtask \<Rightarrow> 'v::semiring_1 svc_env \<Rightarrow> 'v svc_env" where
  "svc_finish t e =
     (let e = svc_run_task (svc_bodies e ! fst t) e in e\<lparr>svc_gate := do_exit t (svc_gate e)\<rparr>)"

text \<open>The bytes of a connection arrive while the executor works.\<close>

inductive serve :: "u64 \<Rightarrow> bytes list \<times> 'v::semiring_1 service \<Rightarrow> bytes list \<times> 'v service \<Rightarrow> bool" for nId where
  arrive: "serve nId (d # ds, s) (ds, svc_call (srv_call.OnData nId d) s)"
| hand: "t \<in> set (granted (svc_gate e)) \<Longrightarrow> serve nId (ds, r, e) (ds, r, svc_hand t e)"
| run: "t \<in> set (in_pool (svc_gate e)) \<Longrightarrow> serve nId (ds, r, e) (ds, r, svc_finish t e)"

definition reply :: "u64 \<Rightarrow> packet \<Rightarrow> srv_task list" where
  "reply nId p = (if command p = kCmdPing then [TaskSend nId BuildPong]
     else if command p = kCmdEcho then [TaskSend nId (packet_bytes p)] else [])"

definition service_router :: "svc_handler router" where
  "service_router = fst (snd (svc_Initialize True True True True (CMessageRouter, CExampleService (CNetworkModule :: int net_module))))"

subsection \<open>The order of the posted tasks\<close>

text \<open>All tasks of the service are writers, so the gate lets one in at a time, in the order of the
  posts; \<open>svc_done\<close> is the number of those that have returned their slot.\<close>

definition exec_ok :: "'v svc_env \<Rightarrow> bool" where
  "exec_ok e \<longleftrightarrow> gate_inv (svc_gate e) \<and> front_blocked (gt (svc_gate e))
     \<and> submitted (svc_gate e) = map (\<lambda>i. (i, kWrite)) [0..<length (svc_bodies e)]
     \<and> (\<exists>fin. admitted (svc_gate e) = fin @ holders (svc_gate e))"

definition svc_done :: "'v svc_env \<Rightarrow> nat" where
  "svc_done e = length (admitted (svc_gate e)) - length (holders (svc_gate e))"

lemma exec_ok_cong:
  "svc_gate e' = svc_gate e \<Longrightarrow> svc_bodies e' = svc_bodies e \<Longrightarrow> exec_ok e' = exec_ok e \<and> svc_done e' = svc_done e"
  by (simp add: exec_ok_def svc_done_def)

lemma exec_ok_fresh: "svc_gate e = gate_init 0 \<Longrightarrow> svc_bodies e = [] \<Longrightarrow> exec_ok e \<and> svc_done e = 0"
  using gate_inv_init[of 0]
  by (simp add: exec_ok_def svc_done_def) (simp add: gate_init_def CReadWriteGate_def front_blocked_def holders_def)

text \<open>At most one of the writers holds a slot.\<close>

lemma one_writer:
  assumes "gate_inv g" and "\<forall>t \<in> set (holders g). snd t = kWrite"
  shows "length (holders g) \<le> 1"
proof -
  have "writes (holders g) = length (holders g)" using assms(2) by (simp add: writes_def)
  then show ?thesis using assms(1) by (simp add: gate_inv_def split: if_splits)
qed

lemma exec_ok_writers:
  assumes "exec_ok e"
  shows "\<forall>t \<in> set (admitted (svc_gate e)). snd t = kWrite" "length (holders (svc_gate e)) \<le> 1"
    "svc_done e \<le> length (svc_bodies e)"
proof -
  have inv: "gate_inv (svc_gate e)" using assms by (simp add: exec_ok_def)
  have sub: "submitted (svc_gate e) = admitted (svc_gate e) @ m_dequeTasks (gt (svc_gate e))"
    "submitted (svc_gate e) = map (\<lambda>i. (i, kWrite)) [0..<length (svc_bodies e)]"
    using inv by (simp add: gate_inv_def) (use assms in \<open>simp add: exec_ok_def\<close>)
  have "set (admitted (svc_gate e)) \<subseteq> set (submitted (svc_gate e))" by (simp add: sub(1))
  then show w: "\<forall>t \<in> set (admitted (svc_gate e)). snd t = kWrite" unfolding sub(2) by auto
  have "set (holders (svc_gate e)) \<subseteq> set (admitted (svc_gate e))" using assms by (auto simp: exec_ok_def)
  with w show "length (holders (svc_gate e)) \<le> 1" by (intro one_writer[OF inv]) blast
  have "length (admitted (svc_gate e)) \<le> length (svc_bodies e)"
    using arg_cong[OF sub(1), of length] sub(2) by simp
  then show "svc_done e \<le> length (svc_bodies e)" by (simp add: svc_done_def)
qed

lemma pump_writers:
  assumes "length (granted g @ vec @ in_pool g) \<le> 1"
  shows "granted g @ vec @ in_pool g = holders g @ vec"
  using assms by (cases vec) (auto simp: holders_def)

lemma exec_ok_post:
  assumes ok: "exec_ok e" and acc: "svc_accepts e"
  shows "exec_ok (svc_post kWrite t e) \<and> svc_done (svc_post kWrite t e) = svc_done e"
proof -
  let ?g = "svc_gate e" and ?t = "(length (svc_bodies e), kWrite)"
  let ?g' = "do_submit ?t ?g" and ?e' = "svc_post kWrite t e"
  have inv: "gate_inv ?g" and sub: "submitted ?g = map (\<lambda>i. (i, kWrite)) [0..<length (svc_bodies e)]"
    using ok by (simp_all add: exec_ok_def)
  obtain fin where fin: "admitted ?g = fin @ holders ?g" using ok by (auto simp: exec_ok_def)
  obtain vec g1 where p: "Submit_locked ?t (gt ?g) = (vec, g1)" by force
  have g': "?g' = ?g\<lparr>gt := g1, granted := granted ?g @ vec, submitted := submitted ?g @ [?t], admitted := admitted ?g @ vec\<rparr>"
    by (simp add: do_submit_def p)
  have inv': "gate_inv ?g'" by (rule gate_inv_submit[OF inv])
  have "slots_ok (gt ?g)" using inv by (simp add: gate_inv_def)
  then have "slots_ok (gt ?g\<lparr>m_dequeTasks := q\<rparr>)" for q by (simp add: slots_ok_def)
  then have "front_blocked (gt ?g')"
    using PumpLocked_spec[OF p[unfolded Submit_locked_def]] by (simp add: g')
  moreover have sub': "submitted ?g' = map (\<lambda>i. (i, kWrite)) [0..<length (svc_bodies ?e')]"
    using sub acc by (simp add: g' svc_post_def)
  moreover have adm: "admitted ?g' = fin @ holders ?g @ vec" by (simp add: g' fin)
  have "set (holders ?g') \<subseteq> set (submitted ?g')"
    using inv' fin by (auto simp: gate_inv_def g' holders_def)
  then have "length (holders ?g') \<le> 1" unfolding sub' by (intro one_writer[OF inv']) auto
  then have h: "holders ?g' = holders ?g @ vec"
    using pump_writers[of ?g vec] by (simp add: g' holders_def)
  ultimately have "exec_ok ?e'" using inv' acc adm by (simp add: exec_ok_def svc_post_def)
  moreover have "svc_done ?e' = svc_done e" using acc h adm fin by (simp add: svc_done_def svc_post_def)
  ultimately show ?thesis by blast
qed

lemma exec_ok_hand:
  assumes ok: "exec_ok e" and t: "t \<in> set (granted (svc_gate e))"
  shows "exec_ok (svc_hand t e) \<and> svc_done (svc_hand t e) = svc_done e"
proof -
  have "length (holders (svc_gate e)) \<le> 1" by (rule exec_ok_writers(2)[OF ok])
  then have "granted (svc_gate e) = [t]" "in_pool (svc_gate e) = []"
    using t by (cases "granted (svc_gate e)"; auto simp: holders_def)+
  then have "holders (do_hand_over t (svc_gate e)) = holders (svc_gate e)" by (simp add: do_hand_over_def holders_def)
  moreover have "gate_inv (do_hand_over t (svc_gate e))" using ok t by (simp add: exec_ok_def gate_inv_hand)
  ultimately show ?thesis
    using ok by (simp add: exec_ok_def svc_done_def svc_hand_def) (simp add: do_hand_over_def)
qed

text \<open>The task that runs is the oldest one that has not run.\<close>

lemma exec_ok_exit:
  assumes ok: "exec_ok e" and t: "t \<in> set (in_pool (svc_gate e))"
    and e': "svc_gate e' = do_exit t (svc_gate e)" "svc_bodies e' = svc_bodies e"
  shows "exec_ok e' \<and> svc_done e' = Suc (svc_done e) \<and> fst t = svc_done e \<and> svc_done e < length (svc_bodies e)"
proof -
  let ?g = "svc_gate e" and ?g' = "do_exit t (svc_gate e)"
  have inv: "gate_inv ?g" and sub: "submitted ?g = map (\<lambda>i. (i, kWrite)) [0..<length (svc_bodies e)]"
    using ok by (simp_all add: exec_ok_def)
  obtain fin where fin: "admitted ?g = fin @ holders ?g" using ok by (auto simp: exec_ok_def)
  have "length (holders ?g) \<le> 1" by (rule exec_ok_writers(2)[OF ok])
  then have only: "granted ?g = []" "in_pool ?g = [t]"
    using t by (cases "in_pool ?g"; auto simp: holders_def)+
  then have adm: "admitted ?g = fin @ [t]" using fin by (simp add: holders_def)
  have fin_len: "svc_done e = length fin" using adm only by (simp add: svc_done_def holders_def)
  have "submitted ?g = (fin @ [t]) @ m_dequeTasks (gt ?g)" using inv adm by (simp add: gate_inv_def)
  then have "submitted ?g ! length fin = t" "length fin < length (submitted ?g)" by simp_all
  then have number: "fst t = svc_done e" "svc_done e < length (svc_bodies e)" by (auto simp: fin_len sub)
  obtain vec g1 where p: "OnTaskExit_locked (snd t) (gt ?g) = (vec, g1)" by force
  have g': "?g' = ?g\<lparr>gt := g1, granted := vec, in_pool := [], admitted := fin @ [t] @ vec\<rparr>"
    by (simp add: do_exit_def p only adm)
  have inv': "gate_inv ?g'" by (rule gate_inv_exit[OF inv t])
  have "front_blocked (gt ?g')"
    using PumpLocked_spec[OF p[unfolded OnTaskExit_locked_def] slots_ok_return] inv by (simp add: g' gate_inv_def)
  moreover have h: "holders ?g' = vec" by (simp add: g' holders_def)
  moreover have "submitted ?g' = submitted ?g" "admitted ?g' = (fin @ [t]) @ vec" by (simp_all add: g')
  ultimately have "exec_ok e'" using inv' sub by (simp add: exec_ok_def e')
  moreover have "svc_done e' = Suc (svc_done e)" using h by (simp add: svc_done_def[of e'] e' fin_len) (simp add: g')
  ultimately show ?thesis using number by blast
qed

text \<open>When no task has a slot, all have run.\<close>

lemma exec_ok_rest:
  assumes ok: "exec_ok e" and none: "granted (svc_gate e) = []" "in_pool (svc_gate e) = []"
  shows "svc_done e = length (svc_bodies e)"
proof -
  have g: "gate_inv (svc_gate e)" "front_blocked (gt (svc_gate e))" "holders (svc_gate e) = []"
    using ok none by (simp_all add: exec_ok_def holders_def)
  then have "m_dequeTasks (gt (svc_gate e)) = []" using front_blocked_holder[OF g(1,2)] by blast
  then have "admitted (svc_gate e) = submitted (svc_gate e)" using g(1) by (simp add: gate_inv_def)
  then show ?thesis using ok none by (simp add: svc_done_def holders_def exec_ok_def)
qed

subsection \<open>What the commands send\<close>

fun task_sends :: "svc_task \<Rightarrow> srv_task" where
  "task_sends (PongTask nId) = TaskSend nId BuildPong"
| "task_sends (EchoTask nId pl) = TaskSend nId (BuildPacket kCmdEcho pl)"

text \<open>The replies that are certain: those sent and those of the tasks still to run; without an executor
  there are no tasks.\<close>

definition replies_due :: "'v svc_env \<Rightarrow> srv_task list" where
  "replies_due e = sent e @ map task_sends (drop (svc_done e) (svc_bodies e))"

definition service_ok :: "'v svc_env \<Rightarrow> bool" where
  "service_ok e \<longleftrightarrow> service_up e \<and> exec_ok e \<and> (\<not> svc_pExecutor e \<longrightarrow> svc_bodies e = [])"

lemma service_ok_cong:
  assumes "svc_gate e' = svc_gate e" "svc_bodies e' = svc_bodies e" "svc_pExecutor e' = svc_pExecutor e"
    "service_up e' = service_up e"
  shows "service_ok e' = service_ok e" "sent e' = sent e @ xs \<Longrightarrow> svc_bodies e = [] \<Longrightarrow> replies_due e' = replies_due e @ xs"
    "sent e' = sent e \<Longrightarrow> replies_due e' = replies_due e"
  using exec_ok_cong[OF assms(1,2)] assms by (simp_all add: service_ok_def replies_due_def)

lemma send_up:
  assumes "service_up e"
  shows "service_up (svc_send nId d e) \<and> sent (svc_send nId d e) = sent e @ [TaskSend nId d]"
  using assms by (auto simp: service_up_def svc_send_def NetworkModule.Send_def TcpServer.Send_def post_def sent_def split_beta)

lemma send_fields [simp]:
  "svc_gate (svc_send nId d e) = svc_gate e" "svc_bodies (svc_send nId d e) = svc_bodies e"
  "svc_pExecutor (svc_send nId d e) = svc_pExecutor e"
  by (simp_all add: svc_send_def)

lemma measure_up [simp]:
  "service_up (svc_measure f e) = service_up e" "sent (svc_measure f e) = sent e"
  "svc_gate (svc_measure f e) = svc_gate e" "svc_bodies (svc_measure f e) = svc_bodies e"
  "svc_pExecutor (svc_measure f e) = svc_pExecutor e"
  by (simp_all add: svc_measure_def service_up_def sent_def)

lemma count_bytes_up [simp]:
  "service_up (count_bytes nId d e) = service_up e" "sent (count_bytes nId d e) = sent e"
  "svc_gate (count_bytes nId d e) = svc_gate e" "svc_bodies (count_bytes nId d e) = svc_bodies e"
  "svc_pExecutor (count_bytes nId d e) = svc_pExecutor e"
  by (simp_all add: count_bytes_def service_up_def sent_def split: option.split)

lemma run_task_up:
  assumes "service_up e"
  shows "service_up (svc_run_task t e) \<and> sent (svc_run_task t e) = sent e @ [task_sends t]
    \<and> svc_gate (svc_run_task t e) = svc_gate e \<and> svc_bodies (svc_run_task t e) = svc_bodies e
    \<and> svc_pExecutor (svc_run_task t e) = svc_pExecutor e"
  using send_up[OF assms] by (cases t) simp_all

lemma post_up:
  assumes "service_ok e" and "svc_pExecutor e"
  shows "service_ok (svc_post kWrite t e) \<and> replies_due (svc_post kWrite t e) = replies_due e @ [task_sends t]"
proof -
  have ok: "service_up e" "exec_ok e" "svc_accepts e" using assms(1) by (simp_all add: service_ok_def service_up_def)
  have "service_up (svc_post kWrite t e)" "sent (svc_post kWrite t e) = sent e" "svc_bodies (svc_post kWrite t e) = svc_bodies e @ [t]"
    "svc_pExecutor (svc_post kWrite t e)"
    using ok assms(2) by (simp_all add: svc_post_def service_up_def sent_def)
  then show ?thesis
    using exec_ok_post[OF ok(2,3), of t] exec_ok_writers(3)[OF ok(2)] by (simp add: service_ok_def replies_due_def)
qed

lemma send_due:
  assumes "service_ok e" and "\<not> svc_pExecutor e"
  shows "service_ok (svc_send nId d e) \<and> replies_due (svc_send nId d e) = replies_due e @ [TaskSend nId d]"
  using assms send_up[of e nId d] service_ok_cong[of "svc_send nId d e" e] by (simp add: service_ok_def)

lemma handle_up:
  assumes "service_ok e"
  shows "service_ok (HandlePing nId e) \<and> replies_due (HandlePing nId e) = replies_due e @ [TaskSend nId BuildPong]"
    and "service_ok (HandleEcho nId pl e)
      \<and> replies_due (HandleEcho nId pl e) = replies_due e @ [TaskSend nId (BuildPacket kCmdEcho pl)]"
  using assms send_due[OF assms] post_up[OF assms] by (simp_all add: HandlePing_def HandleEcho_def)

lemma finish_up:
  assumes "service_ok e" and "t \<in> set (in_pool (svc_gate e))"
  shows "service_ok (svc_finish t e) \<and> replies_due (svc_finish t e) = replies_due e"
proof -
  let ?b = "svc_bodies e ! fst t"
  have ok: "service_up e" "exec_ok e" using assms(1) by (simp_all add: service_ok_def)
  note r = run_task_up[OF ok(1), of ?b]
  have f: "svc_gate (svc_finish t e) = do_exit t (svc_gate e)" "svc_bodies (svc_finish t e) = svc_bodies e"
    "service_up (svc_finish t e)" "sent (svc_finish t e) = sent e @ [task_sends ?b]" "svc_pExecutor (svc_finish t e) = svc_pExecutor e"
    using r by (simp_all add: svc_finish_def service_up_def sent_def)
  note x = exec_ok_exit[OF ok(2) assms(2) f(1,2)]
  then have "drop (svc_done e) (svc_bodies e) = ?b # drop (svc_done (svc_finish t e)) (svc_bodies e)"
    by (simp add: Cons_nth_drop_Suc)
  then show ?thesis using x f assms(1) by (simp add: service_ok_def replies_due_def)
qed

lemma hand_up:
  assumes "service_ok e" and "t \<in> set (granted (svc_gate e))"
  shows "service_ok (svc_hand t e) \<and> replies_due (svc_hand t e) = replies_due e"
  using assms exec_ok_hand[of e t]
  by (simp add: service_ok_def replies_due_def) (simp add: svc_hand_def service_up_def sent_def)

text \<open>The router of the service delivers a packet to the handler of its command.\<close>

lemma service_router_eq:
  "service_router = \<lparr>m_mapEntries = [(1, 1, PingHandler), (2, 2, EchoHandler)], m_mapByType = [(1, [1]), (2, [2])],
     m_nNextId = 3, m_fnExtractor = Some MessageExtractor, m_mapBuffers = []\<rparr>"
  by (simp add: service_router_def svc_Initialize_def SetExtractor_def RegisterHandler_def CMessageRouter_def reg_add_def
      kCmdPing_def kCmdEcho_def ids_of_def sm_find_def Let_def)

lemma service_handlers:
  "reg.handlers t service_router = (if t = 1 then [PingHandler] else if t = 2 then [EchoHandler] else [])"
  by (auto simp: reg.handlers_def reg_targets_def service_router_eq sm_find_def List.map_filter_simps)

lemma deliver_up:
  assumes "service_ok e"
  shows "service_ok (deliver svc_handle (service_router\<lparr>m_mapBuffers := b\<rparr>) (unat nId) (packet_msg p) e)
     \<and> replies_due (deliver svc_handle (service_router\<lparr>m_mapBuffers := b\<rparr>) (unat nId) (packet_msg p) e)
         = replies_due e @ reply nId p"
proof -
  have c: "uint (command p) = 1 \<longleftrightarrow> command p = kCmdPing" "uint (command p) = 2 \<longleftrightarrow> command p = kCmdEcho"
    by (simp_all add: kCmdPing_def kCmdEcho_def word_uint_eq_iff)
  then show ?thesis
    using handle_up[OF assms] by (auto simp: deliver_def service_handlers packet_msg_def reply_def packet_bytes_def assms
        kCmdPing_def kCmdEcho_def)
qed

lemma deliver_all_up:
  "service_ok e \<Longrightarrow> service_ok (fold (deliver svc_handle (service_router\<lparr>m_mapBuffers := b\<rparr>) (unat nId)) (map packet_msg ps) e)
     \<and> replies_due (fold (deliver svc_handle (service_router\<lparr>m_mapBuffers := b\<rparr>) (unat nId)) (map packet_msg ps) e)
         = replies_due e @ concat (map (reply nId) ps)"
proof (induction ps arbitrary: e)
  case (Cons p ps)
  from deliver_up[OF Cons.prems, of b nId p] Cons.IH[of "deliver svc_handle (service_router\<lparr>m_mapBuffers := b\<rparr>) (unat nId) (packet_msg p) e"]
  show ?case by simp
qed simp

text \<open>One arrival.\<close>

lemma OnData_up:
  assumes up: "service_ok e" and valid: "\<forall>p \<in> set ps. packet_fits p" and d: "d \<noteq> []"
    and pre: "prefix (w @ d) (concat (map packet_bytes ps))" and buf: "sm_find b (unat nId) = (if w = [] then None else Some w)"
  shows "\<exists>ps1 ps2 q b' e'. ps = ps1 @ ps2 \<and> w @ d = concat (map packet_bytes ps1) @ q \<and> example.pending q ps2
     \<and> svc_OnData nId d (service_router\<lparr>m_mapBuffers := b\<rparr>, e) = (None, service_router\<lparr>m_mapBuffers := b'\<rparr>, e')
     \<and> sm_find b' (unat nId) = (if q = [] then None else Some q)
     \<and> service_ok e' \<and> replies_due e' = replies_due e @ concat (map (reply nId) ps1)"
proof -
  let ?r = "service_router\<lparr>m_mapBuffers := b\<rparr>"
  have ext: "m_fnExtractor ?r = Some MessageExtractor" by (simp add: service_router_eq)
  have buf': "sm_find (m_mapBuffers ?r) (unat nId) = (if w = [] then None else Some w)" using buf by simp
  from example.OnData_step[OF ext valid d pre buf', of svc_handle e] obtain ps1 ps2 q r' b' where
    s: "ps = ps1 @ ps2" "w @ d = concat (map packet_bytes ps1) @ q" "example.pending q ps2"
      "MessageRouter.OnData (outer_run svc_handle) (unat nId) (Some d) (?r, e)
         = (None, r', fold (deliver svc_handle ?r (unat nId)) (map packet_msg ps1) e)"
      "sm_find (m_mapBuffers r') (unat nId) = (if q = [] then None else Some q)" "r' = ?r\<lparr>m_mapBuffers := b'\<rparr>"
    by blast
  define e1 where "e1 = fold (deliver svc_handle ?r (unat nId)) (map packet_msg ps1) e"
  have up1: "service_ok e1" "replies_due e1 = replies_due e @ concat (map (reply nId) ps1)"
    using deliver_all_up[OF up, of b nId ps1] by (simp_all only: e1_def)
  let ?e = "svc_measure (Inc ''example.msgs'' 1) (count_bytes nId d e1)"
  have "svc_OnData nId d (?r, e) = (None, service_router\<lparr>m_mapBuffers := b'\<rparr>, ?e)"
    using s(4,6) up up1(1) unfolding e1_def[symmetric] by (simp add: svc_OnData_def service_ok_def service_up_def)
  moreover have "service_ok ?e" "replies_due ?e = replies_due e1"
    using up1 service_ok_cong(1,3)[of ?e e1] by simp_all
  ultimately show ?thesis using s up1(2) by (intro exI conjI) (assumption | simp)+
qed

lemma OnData_empty:
  assumes "service_ok e"
  shows "\<exists>e'. svc_OnData nId [] (r, e) = (None, r, e') \<and> service_ok e' \<and> replies_due e' = replies_due e"
proof -
  let ?e = "svc_measure (Inc ''example.msgs'' 1) (count_bytes nId [] e)"
  have "svc_OnData nId [] (r, e) = (None, r, ?e)"
    using assms by (simp add: svc_OnData_def MessageRouter.OnData_def service_ok_def service_up_def)
  moreover have "service_ok ?e" "replies_due ?e = replies_due e" using assms service_ok_cong(1,3)[of ?e e] by simp_all
  ultimately show ?thesis by blast
qed

text \<open>The state of a run: \<open>all\<close> are the replies to the whole stream.\<close>

definition serving :: "u64 \<Rightarrow> srv_task list \<Rightarrow> bytes list \<times> 'v service \<Rightarrow> bool" where
  "serving nId all z \<longleftrightarrow> (\<exists>ds b e w ps. z = (ds, service_router\<lparr>m_mapBuffers := b\<rparr>, e) \<and> service_ok e
     \<and> (\<forall>p \<in> set ps. packet_fits p) \<and> concat (map packet_bytes ps) = w @ concat ds
     \<and> sm_find b (unat nId) = (if w = [] then None else Some w) \<and> example.pending w ps
     \<and> replies_due e @ concat (map (reply nId) ps) = all)"

lemma serving_arrive:
  assumes "serving nId all (d # ds, s)"
  shows "serving nId all (ds, svc_call (srv_call.OnData nId d) s)"
proof -
  obtain b e w ps where s: "s = (service_router\<lparr>m_mapBuffers := b\<rparr>, e)" and ok: "service_ok e"
    and fits: "\<forall>p \<in> set ps. packet_fits p" and bytes: "concat (map packet_bytes ps) = w @ concat (d # ds)"
    and buf: "sm_find b (unat nId) = (if w = [] then None else Some w)" "example.pending w ps"
    and due: "replies_due e @ concat (map (reply nId) ps) = all"
    using assms by (auto simp: serving_def)
  show ?thesis
  proof (cases "d = []")
    case True
    obtain e1 where "svc_OnData nId [] (service_router\<lparr>m_mapBuffers := b\<rparr>, e) = (None, service_router\<lparr>m_mapBuffers := b\<rparr>, e1)"
      "service_ok e1" "replies_due e1 = replies_due e" using OnData_empty[OF ok] by blast
    moreover have "concat (map packet_bytes ps) = w @ concat ds" using bytes True by simp
    ultimately show ?thesis unfolding serving_def s
      by (intro exI[of _ ds] exI[of _ b] exI[of _ e1] exI[of _ w] exI[of _ ps]) (use True fits buf due in simp)
  next
    case False
    have "prefix (w @ d) (concat (map packet_bytes ps))" using bytes by simp
    from OnData_up[OF ok fits False this buf(1)] obtain ps1 ps2 q b1 e1 where
      t: "ps = ps1 @ ps2" "w @ d = concat (map packet_bytes ps1) @ q" "example.pending q ps2"
        "svc_OnData nId d (service_router\<lparr>m_mapBuffers := b\<rparr>, e) = (None, service_router\<lparr>m_mapBuffers := b1\<rparr>, e1)"
        "sm_find b1 (unat nId) = (if q = [] then None else Some q)"
        "service_ok e1" "replies_due e1 = replies_due e @ concat (map (reply nId) ps1)" by blast
    have "concat (map packet_bytes ps1) @ concat (map packet_bytes ps2) = (w @ d) @ concat ds"
      using bytes t(1) by simp
    then have "concat (map packet_bytes ps2) = q @ concat ds" by (simp add: t(2))
    then show ?thesis unfolding serving_def s
      by (intro exI[of _ ds] exI[of _ b1] exI[of _ e1] exI[of _ q] exI[of _ ps2]) (use t fits due in auto)
  qed
qed

lemma serving_env:
  assumes "serving nId all (ds, r, e)" and "service_ok e \<Longrightarrow> service_ok e' \<and> replies_due e' = replies_due e"
  shows "serving nId all (ds, r, e')"
  using assms unfolding serving_def by fastforce

lemma serving_step: "serve nId z z' \<Longrightarrow> serving nId all z \<Longrightarrow> serving nId all z'"
proof (induction rule: serve.induct)
  case (arrive d ds s)
  then show ?case by (rule serving_arrive)
next
  case (hand t e ds r)
  then show ?case using serving_env hand_up by metis
next
  case (run t e ds r)
  then show ?case using serving_env finish_up by metis
qed

lemma serving_run: "(serve nId)\<^sup>*\<^sup>* z z' \<Longrightarrow> serving nId all z \<Longrightarrow> serving nId all z'"
  by (induction rule: rtranclp_induct) (auto intro: serving_step)

lemma serving_start:
  assumes "service_up e" and "svc_gate e = gate_init 0" and "svc_bodies e = []" and "\<forall>p \<in> set ps. packet_fits p"
    and "concat ds = concat (map packet_bytes ps)" and "sm_find b (unat nId) = None"
  shows "serving nId (sent e @ concat (map (reply nId) ps)) (ds, service_router\<lparr>m_mapBuffers := b\<rparr>, e)"
  unfolding serving_def
  by (intro exI[of _ ds] exI[of _ b] exI[of _ e] exI[of _ "[]"] exI[of _ ps])
    (use assms exec_ok_fresh[OF assms(2,3)] in \<open>simp add: service_ok_def replies_due_def example.pending_def\<close>)

text \<open>What has been sent is the beginning of the replies; it is all of them when nothing can happen any
  more.\<close>

lemma serving_sent:
  assumes "serving nId all (ds, r, e)"
  shows "prefix (sent e) all"
  using assms by (auto simp: serving_def replies_due_def)

lemma serving_rest:
  assumes "serving nId all (ds, r, e)" and "\<nexists>z. serve nId (ds, r, e) z"
  shows "ds = [] \<and> sent e = all \<and> sm_find (m_mapBuffers r) (unat nId) = None"
proof -
  have ds: "ds = []" using assms(2) serve.arrive by (cases ds) blast+
  obtain b w ps where s: "r = service_router\<lparr>m_mapBuffers := b\<rparr>" and ok: "service_ok e"
    and bytes: "concat (map packet_bytes ps) = w" and fits: "\<forall>p \<in> set ps. packet_fits p"
    and buf: "sm_find b (unat nId) = (if w = [] then None else Some w)" "example.pending w ps"
    and due: "replies_due e @ concat (map (reply nId) ps) = all"
    using assms(1) by (auto simp: serving_def ds)
  have "ps = [] \<and> w = []"
    using bytes buf(2) example.enc_nonempty fits by (cases ps) (auto simp: example.pending_def strict_prefix_def prefix_def)
  moreover have "t \<notin> set (granted (svc_gate e))" "t \<notin> set (in_pool (svc_gate e))" for t
    using assms(2) serve.hand[of t e] serve.run[of t e] by blast+
  then have "granted (svc_gate e) = []" "in_pool (svc_gate e) = []" by (metis equals0I set_empty)+
  then have "svc_done e = length (svc_bodies e)" using ok exec_ok_rest unfolding service_ok_def by blast
  ultimately show ?thesis using ds s buf due by (simp add: replies_due_def)
qed

text \<open>Every run can be completed.\<close>

lemma tasks_complete:
  "service_ok e \<Longrightarrow> \<exists>e'. (serve nId)\<^sup>*\<^sup>* ([], r, e) ([], r, e') \<and> (\<nexists>z. serve nId ([], r, e') z)"
proof (induction "2 * (length (svc_bodies e) - svc_done e) + length (granted (svc_gate e))" arbitrary: e rule: less_induct)
  case less
  have ok: "exec_ok e" using less(2) by (simp add: service_ok_def)
  consider t where "t \<in> set (granted (svc_gate e))" | t where "t \<in> set (in_pool (svc_gate e))"
    | "granted (svc_gate e) = []" "in_pool (svc_gate e) = []"
    by (metis equals0I set_empty)
  then show ?case
  proof cases
    case (1 t)
    have "svc_done (svc_hand t e) = svc_done e" using exec_ok_hand[OF ok 1] by simp
    moreover have "svc_bodies (svc_hand t e) = svc_bodies e" "0 < length (granted (svc_gate e))"
      using length_pos_if_in_set[OF 1] by (simp_all add: svc_hand_def)
    moreover from this(2) have "length (granted (svc_gate (svc_hand t e))) < length (granted (svc_gate e))"
      using 1 by (simp add: svc_hand_def do_hand_over_def length_remove1)
    ultimately have "2 * (length (svc_bodies (svc_hand t e)) - svc_done (svc_hand t e)) + length (granted (svc_gate (svc_hand t e)))
        < 2 * (length (svc_bodies e) - svc_done e) + length (granted (svc_gate e))" by simp
    from less(1)[OF this conjunct1[OF hand_up[OF less(2) 1]]] obtain e' where
      "(serve nId)\<^sup>*\<^sup>* ([], r, svc_hand t e) ([], r, e')" "\<nexists>z. serve nId ([], r, e') z" by blast
    with serve.hand[OF 1, of nId "[]" r] show ?thesis by (meson converse_rtranclp_into_rtranclp)
  next
    case (2 t)
    let ?e = "svc_finish t e"
    have b: "svc_gate ?e = do_exit t (svc_gate e)" "svc_bodies ?e = svc_bodies e"
      using run_task_up[of e] less(2) by (simp_all add: svc_finish_def service_ok_def)
    have ok': "service_ok ?e" using finish_up[OF less(2) 2] by simp
    then have "length (granted (svc_gate ?e)) \<le> 1"
      using exec_ok_writers(2)[of ?e] by (simp add: service_ok_def holders_def)
    then have "2 * (length (svc_bodies ?e) - svc_done ?e) + length (granted (svc_gate ?e))
        < 2 * (length (svc_bodies e) - svc_done e) + length (granted (svc_gate e))"
      using exec_ok_exit[OF ok 2 b] b(2) by (elim conjE) (simp del: One_nat_def)
    from less(1)[OF this ok'] obtain e' where
      "(serve nId)\<^sup>*\<^sup>* ([], r, ?e) ([], r, e')" "\<nexists>z. serve nId ([], r, e') z" by blast
    with serve.run[OF 2, of nId "[]" r] show ?thesis by (meson converse_rtranclp_into_rtranclp)
  next
    case 3
    have "\<nexists>z. serve nId ([], r, e) z" using 3 by (auto elim: serve.cases)
    then show ?thesis by blast
  qed
qed

lemma serving_completes:
  "serving nId all (ds, r, e) \<Longrightarrow> \<exists>r' e'. (serve nId)\<^sup>*\<^sup>* (ds, r, e) ([], r', e') \<and> (\<nexists>z. serve nId ([], r', e') z)"
proof (induction ds arbitrary: r e)
  case Nil
  then have "service_ok e" by (auto simp: serving_def)
  with tasks_complete show ?case by blast
next
  case (Cons d ds)
  obtain r1 e1 where s: "svc_call (srv_call.OnData nId d) (r, e) = (r1, e1)" by (cases "svc_call (srv_call.OnData nId d) (r, e)")
  have "serve nId (d # ds, r, e) (ds, r1, e1)" using serve.arrive[of nId d ds "(r, e)"] by (simp only: s)
  moreover have "serving nId all (ds, r1, e1)" using serving_arrive[OF Cons.prems] by (simp only: s)
  ultimately show ?case using Cons.IH[of r1 e1] by (meson converse_rtranclp_into_rtranclp)
qed

text \<open>C36. The example server, from the wire to the wire.  The service has its network and its router, the
  server runs, the executor accepts and is idle, and no bytes of the connection are kept.  However
  the bytes of the connection are cut into arrivals, whether the service answers at once or through
  the executor, and however the work of the executor's threads interleaves with the arrivals: what
  has been given to the server is at every moment the beginning of the replies due, one for each
  \<open>PING\<close> and \<open>ECHO\<close> packet in the order of the packets, the echo being the packet itself; when nothing
  can happen any more all of them have been given and no bytes are kept; and every run can be
  brought to that point.\<close>

theorem example_server_replies:
  assumes "service_up e" and "svc_gate e = gate_init 0" and "svc_bodies e = []"
    and "\<forall>p \<in> set ps. packet_fits p" and "concat ds = concat (map packet_bytes ps)"
    and "sm_find b (unat nId) = None"
    and "(serve nId)\<^sup>*\<^sup>* (ds, service_router\<lparr>m_mapBuffers := b\<rparr>, e) (ds', r', e')"
  shows "prefix (sent e') (sent e @ concat (map (reply nId) ps))
    \<and> ((\<nexists>z. serve nId (ds', r', e') z) \<longrightarrow> ds' = [] \<and> sent e' = sent e @ concat (map (reply nId) ps)
          \<and> sm_find (m_mapBuffers r') (unat nId) = None)
    \<and> (\<exists>r'' e''. (serve nId)\<^sup>*\<^sup>* (ds', r', e') ([], r'', e'') \<and> (\<nexists>z. serve nId ([], r'', e'') z))"
proof -
  have "serving nId (sent e @ concat (map (reply nId) ps)) (ds', r', e')"
    by (rule serving_run[OF assms(7) serving_start[OF assms(1-6)]])
  then show ?thesis using serving_sent serving_rest serving_completes by blast
qed

definition demo_service :: "int svc_env" where
  "demo_service = snd (snd (svc_Initialize True True True True (CMessageRouter, CExampleService demo_early)))"

text \<open>A ping and an echo in three arrivals, and a run of the executor to its end.\<close>

theorem example_server_replies_witness:
  "\<exists>r' e'. (serve 1)\<^sup>*\<^sup>* ([[0, 0], [0, 5, 1, 112, 105, 110, 103, 0, 0, 0], [2, 2, 65]],
       service_router\<lparr>m_mapBuffers := []\<rparr>, demo_service) ([], r', e')
     \<and> sent e' = sent demo_service @ [TaskSend 1 BuildPong, TaskSend 1 [0, 0, 0, 2, 2, 65]]"
proof -
  let ?ds = "[[0, 0], [0, 5, 1, 112, 105, 110, 103, 0, 0, 0], [2, 2, 65]]"
  let ?ps = "[\<lparr>command = 1, payload = [112, 105, 110, 103]\<rparr>, \<lparr>command = 2, payload = [65]\<rparr>]"
  have up: "service_up demo_service" "svc_gate demo_service = gate_init 0" "svc_bodies demo_service = []"
    by (simp_all add: service_up_def demo_service_def svc_Initialize_def CExampleService_def demo_early_def demo_first_def demo_new_def
        HandleAccept_def call_def TcpServer.Start_def CTcpServer_def post_def Let_def)
  have bytes: "concat ?ds = concat (map packet_bytes ?ps)"
    by (simp add: packet_bytes_def BuildPacket_def net32_def le_split_def upt_rec)
  have fits: "\<forall>p \<in> set ?ps. packet_fits p" by (simp add: packet_fits_def kMaxPacketSize_def)
  have buf: "sm_find [] (unat (1 :: u64)) = None" by simp
  have all: "concat (map (reply 1) ?ps) = [TaskSend 1 BuildPong, TaskSend 1 [0, 0, 0, 2, 2, 65]]"
    by (simp add: reply_def kCmdPing_def kCmdEcho_def packet_bytes_def BuildPacket_def net32_def le_split_def upt_rec)
  note run = example_server_replies[OF up fits bytes buf]
  obtain r' e' where fin: "(serve 1)\<^sup>*\<^sup>* (?ds, service_router\<lparr>m_mapBuffers := []\<rparr>, demo_service) ([], r', e')"
    "\<nexists>z. serve 1 ([], r', e') z" using run[OF rtranclp.rtrancl_refl] by blast
  then have "sent e' = sent demo_service @ concat (map (reply 1) ?ps)" using run[OF fin(1)] by blast
  then show ?thesis using fin(1) unfolding all by blast
qed

subsection \<open>The contexts of the connections\<close>

definition view :: "u64 \<Rightarrow> 'v svc_env \<Rightarrow> ConnContext option" where
  "view nId e = (case GetAttached nId (svc_net e) of None \<Rightarrow> None | Some p \<Rightarrow> ctx_heap e ! p)"

text \<open>The reference: what the calls so far say of one connection.\<close>

fun received1 :: "u64 \<Rightarrow> srv_call \<Rightarrow> ConnContext option \<Rightarrow> ConnContext option" where
  "received1 nId (srv_call.OnAccept i a) c = (if i = nId then Some \<lparr>strPeer = a, nBytesReceived = 0\<rparr> else c)"
| "received1 nId (srv_call.OnData i d) c =
     (if i = nId then map_option (\<lambda>c. c\<lparr>nBytesReceived := nBytesReceived c + of_nat (length d)\<rparr>) c else c)"
| "received1 nId (srv_call.OnClose i) c = (if i = nId then None else c)"

definition received :: "u64 \<Rightarrow> srv_call list \<Rightarrow> ConnContext option" where
  "received nId cs = fold (received1 nId) cs None"

text \<open>No connection is announced twice without a close in between.\<close>

fun accepts_fresh :: "u64 set \<Rightarrow> srv_call list \<Rightarrow> bool" where
  "accepts_fresh I [] = True"
| "accepts_fresh I (srv_call.OnAccept i a # cs) = (i \<notin> I \<and> accepts_fresh (insert i I) cs)"
| "accepts_fresh I (srv_call.OnData i d # cs) = accepts_fresh I cs"
| "accepts_fresh I (srv_call.OnClose i # cs) = accepts_fresh (I - {i}) cs"

definition pointers_ok :: "'v svc_env \<Rightarrow> bool" where
  "pointers_ok e \<longleftrightarrow> (\<forall>i p. GetAttached i (svc_net e) = Some p \<longrightarrow> p < length (ctx_heap e) \<and> ctx_heap e ! p \<noteq> None)
     \<and> (\<forall>i j p. GetAttached i (svc_net e) = Some p \<longrightarrow> GetAttached j (svc_net e) = Some p \<longrightarrow> i = j)"

definition leaked :: "'v svc_env \<Rightarrow> nat set" where
  "leaked e = {p. p < length (ctx_heap e) \<and> ctx_heap e ! p \<noteq> None \<and> (\<forall>i. GetAttached i (svc_net e) \<noteq> Some p)}"

text \<open>Operations that do not touch the contexts.\<close>

definition same_ctx :: "'v svc_env \<Rightarrow> 'v svc_env \<Rightarrow> bool" where
  "same_ctx e e' \<longleftrightarrow> ctx_heap e' = ctx_heap e \<and> m_mapConnCtx (svc_net e') = m_mapConnCtx (svc_net e)
     \<and> svc_pNetwork e' = svc_pNetwork e \<and> svc_pRouter e' = svc_pRouter e"

lemma same_ctx_refl [simp]: "same_ctx e e"
  by (simp add: same_ctx_def)

lemma same_ctx_handle: "same_ctx e (svc_handle h n t pl e)"
  by (cases h) (simp_all add: HandlePing_def HandleEcho_def svc_post_def svc_send_def same_ctx_def NetworkModule.Send_def
      split: option.split prod.split)

lemma same_ctx_measure [simp]: "same_ctx e0 (svc_measure f e) = same_ctx e0 e"
  by (simp add: svc_measure_def same_ctx_def)

lemma same_ctx_Dispatch: "same_ctx e (snd s) \<Longrightarrow> same_ctx e (snd (MessageRouter.Dispatch (outer_run svc_handle) n t pl s))"
proof -
  assume "same_ctx e (snd s)"
  moreover have "same_ctx e (snd (fold (\<lambda>h. outer_run svc_handle h n t pl) hs s))" if "same_ctx e (snd s)" for hs s
    using that
  proof (induction hs arbitrary: s)
    case (Cons h hs)
    have "same_ctx e (svc_handle h n t pl (snd s))"
      using same_ctx_handle[of "snd s" h n t pl] Cons.prems by (simp add: same_ctx_def)
    then show ?case using Cons.IH by (simp add: outer_run_def)
  qed simp
  ultimately show ?thesis by (simp add: MessageRouter.Dispatch_def split: option.split)
qed

lemma same_ctx_loop: "same_ctx e (snd s) \<Longrightarrow> same_ctx e (snd (snd (extract_loop (outer_run svc_handle) n p c s)))"
proof (induction "length p - c" arbitrary: c s rule: less_induct)
  case less
  show ?case
    using less.prems
    by (subst extract_loop.simps)
      (auto simp: Let_def split: option.split intro!: less.hyps same_ctx_Dispatch)
qed

lemma same_ctx_OnData: "same_ctx e (snd (snd (MessageRouter.OnData (outer_run svc_handle) n d (r, e))))"
proof -
  have "same_ctx e (snd (snd (extract_loop (outer_run svc_handle) n p 0 (r', e))))" for p r'
    by (rule same_ctx_loop) simp
  then show ?thesis
    by (auto simp: MessageRouter.OnData_def Let_def split: option.split prod.split) (metis snd_conv)+
qed

lemma loop_router: "fst (snd (extract_loop (outer_run f) n p c s)) = fst s"
proof (induction "length p - c" arbitrary: c s rule: less_induct)
  case less
  have d: "fst (MessageRouter.Dispatch (outer_run f) n t pl s) = fst s" for t pl
    by (cases s) (simp add: Dispatch_outer)
  show ?case by (subst extract_loop.simps) (auto simp: Let_def less.hyps d split: option.split)
qed

lemma OnData_extractor: "m_fnExtractor (fst (snd (MessageRouter.OnData (outer_run f) n d s))) = m_fnExtractor (fst s)"
proof -
  have "m_fnExtractor (fst s2) = m_fnExtractor r" if "extract_loop (outer_run f) n p 0 (r, x) = (k, s2)" for p r x k s2
    using loop_router[of f n p 0 "(r, x)"] that by simp
  then show ?thesis by (auto simp: MessageRouter.OnData_def Let_def split: option.split prod.split)
qed

lemma OnData_ctx:
  assumes "m_fnExtractor r = Some MessageExtractor" and "svc_pNetwork e"
  shows "\<exists>r' e1 f. snd (svc_OnData nId d (r, e)) = (r', svc_measure f (count_bytes nId d e1)) \<and> same_ctx e e1
     \<and> m_fnExtractor r' = Some MessageExtractor"
proof (cases "svc_pRouter e")
  case True
  let ?o = "MessageRouter.OnData (outer_run svc_handle) (unat nId) (Some d) (r, e)"
  obtain err r' e1 where o: "?o = (err, r', e1)" by (cases ?o) auto
  have "fst ?o = None" by (rule router_no_throw) (simp_all add: outer_run_def assms(1))
  then have "err = None" using o by simp
  moreover have same: "same_ctx e e1" using same_ctx_OnData[of e "unat nId" "Some d" r] o by simp
  moreover have "m_fnExtractor r' = Some MessageExtractor"
    using OnData_extractor[of svc_handle "unat nId" "Some d" "(r, e)"] o assms(1) by simp
  moreover have "svc_pNetwork e1" using same assms(2) by (simp add: same_ctx_def)
  ultimately show ?thesis
    using True o by (intro exI[of _ r'] exI[of _ e1] exI[of _ "Inc ''example.msgs'' 1"]) (simp add: svc_OnData_def)
next
  case False
  then show ?thesis
    using assms by (intro exI[of _ r] exI[of _ e] exI[of _ "Inc ''example.msgs'' 1"]) (simp add: svc_OnData_def)
qed

text \<open>The contexts as a map of pointers and a heap.\<close>

definition ptr :: "'v svc_env \<Rightarrow> u64 \<Rightarrow> nat option" where
  "ptr e i = GetAttached i (svc_net e)"

lemma ptr_cong: "m_mapConnCtx (svc_net e') = m_mapConnCtx (svc_net e) \<Longrightarrow> ptr e' = ptr e"
  by (simp add: ptr_def GetAttached_def fun_eq_iff)

lemma ctx_views: "view i e = (case ptr e i of None \<Rightarrow> None | Some p \<Rightarrow> ctx_heap e ! p)"
  "pointers_ok e \<longleftrightarrow> (\<forall>i p. ptr e i = Some p \<longrightarrow> p < length (ctx_heap e) \<and> ctx_heap e ! p \<noteq> None)
     \<and> (\<forall>i j p. ptr e i = Some p \<longrightarrow> ptr e j = Some p \<longrightarrow> i = j)"
  "leaked e = {p. p < length (ctx_heap e) \<and> ctx_heap e ! p \<noteq> None \<and> (\<forall>i. ptr e i \<noteq> Some p)}"
  by (simp_all add: view_def pointers_ok_def leaked_def ptr_def)

lemma ctx_cong:
  assumes "ctx_heap e' = ctx_heap e" "ptr e' = ptr e"
  shows "view i e' = view i e" "pointers_ok e' = pointers_ok e" "leaked e' = leaked e"
  unfolding ctx_views assms by (rule refl)+

lemma accept_ctx:
  assumes "svc_pNetwork e"
  shows "\<exists>e'. svc_OnAccept i a (r, e) = (r, e') \<and> svc_pNetwork e' \<and> svc_pRouter e' = svc_pRouter e
     \<and> ctx_heap e' = ctx_heap e @ [Some \<lparr>strPeer = a, nBytesReceived = 0\<rparr>] \<and> ptr e' = (ptr e)(i := Some (length (ctx_heap e)))"
  using assms by (auto simp: svc_OnAccept_def Attach_def ptr_def GetAttached_def fun_eq_iff split: option.splits)

lemma count_bytes_ctx:
  "ptr (count_bytes i d e) = ptr e \<and> svc_pNetwork (count_bytes i d e) = svc_pNetwork e
   \<and> ctx_heap (count_bytes i d e) = (case ptr e i of None \<Rightarrow> ctx_heap e
       | Some p \<Rightarrow> (ctx_heap e)[p := map_option (\<lambda>c. c\<lparr>nBytesReceived := nBytesReceived c + of_nat (length d)\<rparr>) (ctx_heap e ! p)])"
  by (auto simp: count_bytes_def ptr_def GetAttached_def fun_eq_iff split: option.split)

lemma measure_ctx:
  "ptr (svc_measure f e) = ptr e" "ctx_heap (svc_measure f e) = ctx_heap e" "svc_pNetwork (svc_measure f e) = svc_pNetwork e"
  by (simp_all add: svc_measure_def ptr_def GetAttached_def fun_eq_iff)

lemma close_ctx:
  assumes "svc_pNetwork e" "m_fnExtractor r = Some MessageExtractor"
  shows "\<exists>r' e'. svc_OnClose i (r, e) = (r', e') \<and> m_fnExtractor r' = Some MessageExtractor \<and> svc_pNetwork e'
     \<and> ptr e' = (ptr e)(i := None)
     \<and> ctx_heap e' = (case ptr e i of None \<Rightarrow> ctx_heap e | Some p \<Rightarrow> (ctx_heap e)[p := None])"
  using assms by (auto simp: svc_OnClose_def Detach_def ptr_def GetAttached_def fun_eq_iff MessageRouter.OnClose_def Let_def
      split: option.splits)

text \<open>One call keeps the pointers in order and follows the reference.\<close>

definition ctx_inv :: "svc_handler router \<Rightarrow> 'v svc_env \<Rightarrow> bool" where
  "ctx_inv r e \<longleftrightarrow> m_fnExtractor r = Some MessageExtractor \<and> svc_pNetwork e \<and> pointers_ok e"

lemma call_ctx:
  assumes inv: "ctx_inv r e"
  shows "\<exists>r' e'. svc_call c (r, e) = (r', e') \<and> ctx_inv r' e' \<and> view i e' = received1 i c (view i e)
     \<and> ((\<forall>k a. c = srv_call.OnAccept k a \<longrightarrow> ptr e k = None) \<longrightarrow> leaked e' = leaked e)
     \<and> (ptr e' i = None) = (case c of srv_call.OnAccept k a \<Rightarrow> ptr e i = None \<and> k \<noteq> i
          | srv_call.OnClose k \<Rightarrow> ptr e i = None \<or> k = i | _ \<Rightarrow> ptr e i = None)"
proof -
  have parts: "m_fnExtractor r = Some MessageExtractor" "svc_pNetwork e" and ok: "pointers_ok e"
    using inv by (simp_all add: ctx_inv_def)
  note live = ok[unfolded ctx_views(2)]
  show ?thesis
  proof (cases c)
    case (OnAccept k a)
    obtain e' where e': "svc_OnAccept k a (r, e) = (r, e')" "svc_pNetwork e'"
      "ctx_heap e' = ctx_heap e @ [Some \<lparr>strPeer = a, nBytesReceived = 0\<rparr>]" "ptr e' = (ptr e)(k := Some (length (ctx_heap e)))"
      using accept_ctx[OF parts(2)] by blast
    have "pointers_ok e'" using live unfolding ctx_views(2) e'(3,4) by (auto simp: nth_append intro: less_SucI split: if_splits)
    moreover have "view i e' = received1 i c (view i e)"
      using live unfolding ctx_views(1) e'(3,4) OnAccept by (auto simp: nth_append split: option.split)
    moreover have "leaked e' = leaked e" if "ptr e k = None"
    proof -
      have "(\<forall>i. ptr e' i \<noteq> Some p) \<longleftrightarrow> p \<noteq> length (ctx_heap e) \<and> (\<forall>i. ptr e i \<noteq> Some p)" for p
        using that unfolding e'(4) by (metis fun_upd_apply option.distinct(1) option.inject)
      then show ?thesis using live unfolding ctx_views(3) e'(3) by (auto simp: nth_append)
    qed
    ultimately show ?thesis using OnAccept e' parts by (auto simp: ctx_inv_def)
  next
    case (OnData k d)
    obtain r' e1 f where o: "snd (svc_OnData k d (r, e)) = (r', svc_measure f (count_bytes k d e1))" "same_ctx e e1"
      "m_fnExtractor r' = Some MessageExtractor" using OnData_ctx[OF parts] by blast
    let ?e = "svc_measure f (count_bytes k d e1)"
    have p1: "ptr e1 = ptr e" "ctx_heap e1 = ctx_heap e" "svc_pNetwork e1"
      using o(2) parts(2) by (auto simp: same_ctx_def intro: ptr_cong)
    have h: "ctx_heap ?e = (case ptr e k of None \<Rightarrow> ctx_heap e
       | Some p \<Rightarrow> (ctx_heap e)[p := map_option (\<lambda>c. c\<lparr>nBytesReceived := nBytesReceived c + of_nat (length d)\<rparr>) (ctx_heap e ! p)])"
      and pt: "ptr ?e = ptr e" and nw: "svc_pNetwork ?e"
      using count_bytes_ctx[of k d e1] p1(3) unfolding measure_ctx p1(1,2) by blast+
    have "pointers_ok ?e" "view i ?e = received1 i c (view i e)" "leaked ?e = leaked e"
      using live unfolding ctx_views h pt OnData
      by (auto simp: nth_list_update split: option.split if_splits)
    then show ?thesis using OnData o(1,3) nw pt by (simp add: ctx_inv_def)
  next
    case (OnClose k)
    obtain r' e' where e': "svc_OnClose k (r, e) = (r', e')" "m_fnExtractor r' = Some MessageExtractor" "svc_pNetwork e'"
      "ptr e' = (ptr e)(k := None)" "ctx_heap e' = (case ptr e k of None \<Rightarrow> ctx_heap e | Some p \<Rightarrow> (ctx_heap e)[p := None])"
      using close_ctx[OF parts(2,1)] by blast
    have "pointers_ok e'" "view i e' = received1 i c (view i e)"
      using live unfolding ctx_views e'(4,5) OnClose
      by (auto simp: nth_list_update split: option.split if_splits)
    moreover have "leaked e' = leaked e"
    proof -
      have gone: "(\<forall>i. ptr e' i \<noteq> Some p) \<longleftrightarrow> (\<forall>i. ptr e i \<noteq> Some p) \<or> ptr e k = Some p" for p
        using live unfolding e'(4) by (metis fun_upd_apply option.distinct(1))
      have heap: "p < length (ctx_heap e') \<and> ctx_heap e' ! p \<noteq> None
          \<longleftrightarrow> p < length (ctx_heap e) \<and> ctx_heap e ! p \<noteq> None \<and> ptr e k \<noteq> Some p" for p
        using live unfolding e'(5) by (auto simp: nth_list_update split: option.split if_splits)
      show ?thesis using gone heap unfolding ctx_views(3) by blast
    qed
    ultimately have "pointers_ok e'" "view i e' = received1 i c (view i e)" "leaked e' = leaked e" by blast+
    then show ?thesis using OnClose e' by (auto simp: ctx_inv_def)
  qed
qed

text \<open>A whole run of calls.\<close>

definition open_ids :: "'v svc_env \<Rightarrow> u64 set" where
  "open_ids e = {i. ptr e i \<noteq> None}"

lemma calls_ctx:
  assumes "ctx_inv r e"
  shows "\<exists>r' e'. fold svc_call cs (r, e) = (r', e') \<and> ctx_inv r' e'
     \<and> (\<forall>i. view i e' = fold (received1 i) cs (view i e)) \<and> (accepts_fresh (open_ids e) cs \<longrightarrow> leaked e' = leaked e)"
  using assms
proof (induction cs arbitrary: r e)
  case (Cons c cs)
  obtain r1 e1 where s: "svc_call c (r, e) = (r1, e1)" "ctx_inv r1 e1" using call_ctx[OF Cons.prems, of c] by blast
  have one: "view i e1 = received1 i c (view i e)"
    "(\<forall>k a. c = srv_call.OnAccept k a \<longrightarrow> ptr e k = None) \<Longrightarrow> leaked e1 = leaked e"
    "(ptr e1 i = None) = (case c of srv_call.OnAccept k a \<Rightarrow> ptr e i = None \<and> k \<noteq> i
          | srv_call.OnClose k \<Rightarrow> ptr e i = None \<or> k = i | _ \<Rightarrow> ptr e i = None)" for i
    using call_ctx[OF Cons.prems, of c i] s(1) by auto
  obtain r' e' where t: "fold svc_call cs (r1, e1) = (r', e')" "ctx_inv r' e'"
    "\<forall>i. view i e' = fold (received1 i) cs (view i e1)" "accepts_fresh (open_ids e1) cs \<longrightarrow> leaked e' = leaked e1"
    using Cons.IH[OF s(2)] by blast
  have "leaked e' = leaked e" if "accepts_fresh (open_ids e) (c # cs)"
  proof (cases c)
    case (OnAccept k a)
    then have "open_ids e1 = insert k (open_ids e)" using one(3) by (auto simp: open_ids_def)
    with that OnAccept t(4) one(2) show ?thesis by (simp add: open_ids_def)
  next
    case (OnData k d)
    then have "open_ids e1 = open_ids e" using one(3) by (auto simp: open_ids_def)
    with that OnData t(4) one(2) show ?thesis by simp
  next
    case (OnClose k)
    then have "open_ids e1 = open_ids e - {k}" using one(3) by (auto simp: open_ids_def)
    with that OnClose t(4) one(2) show ?thesis by simp
  qed
  then show ?case using s(1) t(1,2,3) one(1) by (simp del: svc_call.simps received1.simps)
qed simp

text \<open>C39. Whatever the order of the network module's calls, the context kept for a connection is the
  one the calls describe: none before the accept or after the close, the peer of the last accept
  and the bytes since.  No attached pointer dangles or is shared; and as long as no connection is
  announced twice without a close in between, every context that exists is attached, so none leaks.\<close>

theorem service_contexts:
  assumes "m_mapConnCtx net = []"
    and "s = fold svc_call cs (snd (svc_Initialize True True pExecutor pMetrics (CMessageRouter, CExampleService net)))"
  shows "view nId (snd s) = received nId cs \<and> pointers_ok (snd s) \<and> (accepts_fresh {} cs \<longrightarrow> leaked (snd s) = {})"
proof -
  obtain r e where i: "snd (svc_Initialize True True pExecutor pMetrics (CMessageRouter, CExampleService net)) = (r, e)"
    by (cases "snd (svc_Initialize True True pExecutor pMetrics (CMessageRouter, CExampleService net))")
  have p: "ptr e j = None" for j
    using i assms(1) by (auto simp: svc_Initialize_def CExampleService_def ptr_def GetAttached_def sm_find_def Let_def)
  have x: "m_fnExtractor r = Some MessageExtractor" "svc_pNetwork e" "ctx_heap e = []"
    using i by (auto simp: svc_Initialize_def CExampleService_def SetExtractor_def RegisterHandler_def Let_def split_beta split: option.splits)
  have "ctx_inv r e" "open_ids e = {}" "leaked e = {}" "view nId e = None"
    using p x by (simp_all add: ctx_inv_def ctx_views open_ids_def)
  then show ?thesis using calls_ctx[of r e cs] unfolding assms(2) i by (auto simp: received_def ctx_inv_def)
qed

theorem service_contexts_witness:
  "view 1 (snd (fold svc_call [srv_call.OnAccept 1 ''a'', srv_call.OnAccept 2 ''b'', srv_call.OnData 1 [0, 0], srv_call.OnClose 2]
       (snd (svc_Initialize True True False True (CMessageRouter, CExampleService (CNetworkModule :: int net_module))))))
     = Some \<lparr>strPeer = ''a'', nBytesReceived = 2\<rparr>"
  by (subst service_contexts[THEN conjunct1, OF _ refl]) (simp_all add: CNetworkModule_def received_def)

end
