(* ===== verification/EventDispatcher.thy ===== *)
theory EventDispatcher
  imports Registry
begin

text \<open>
  \<open>CEventDispatcher\<close> (\<open>src/ServerCore/Event\<close>): events are named by strings; publishing
  calls the subscribers of the name one after the other, outside the lock and on a copy of
  the handler list taken under it.  Asynchronous publishing copies the payload and posts
  the publication to an executor, modelled by its queue of accepted posts; with no executor
  it publishes at once.  As in the router, handlers are opaque and \<open>run\<close> says what running
  one does, to the dispatcher as well.
\<close>

record event =
  ev_type :: string
  ev_data :: "bytes option"

record post_queue =
  q_accepting :: bool
  q_tasks :: "(string \<times> bytes) list"

record 'h dispatcher = "(string, 'h) registry" +
  m_pExecutor :: "post_queue option"

type_synonym ('h, 'e) event_run = "'h \<Rightarrow> event \<Rightarrow> 'h dispatcher \<times> 'e \<Rightarrow> 'h dispatcher \<times> 'e"

definition CEventDispatcher :: "'h dispatcher" where
  "CEventDispatcher = \<lparr>m_mapEntries = [], m_mapByType = [], m_nNextId = 1, m_pExecutor = None\<rparr>"

text \<open>\<open>Initialize\<close> resolves the optional executor and always succeeds.\<close>

definition Initialize :: "post_queue option \<Rightarrow> 'h dispatcher \<Rightarrow> bool \<times> 'h dispatcher" where
  "Initialize resolved d = (True, d\<lparr>m_pExecutor := resolved\<rparr>)"

definition Subscribe :: "string \<Rightarrow> 'h option \<Rightarrow> 'h dispatcher \<Rightarrow> nat \<times> 'h dispatcher" where
  "Subscribe strType fnHandler d =
     (case fnHandler of None \<Rightarrow> (kInvalidSubscriptionId, d) | Some h \<Rightarrow> reg_add strType h d)"

definition Unsubscribe :: "nat \<Rightarrow> 'h dispatcher \<Rightarrow> bool \<times> 'h dispatcher" where
  "Unsubscribe nId d = reg_remove nId d"

definition Publish ::
  "('h, 'e) event_run \<Rightarrow> string \<Rightarrow> bytes option \<Rightarrow> 'h dispatcher \<times> 'e \<Rightarrow> nat \<times> 'h dispatcher \<times> 'e" where
  "Publish run strType pData s =
     (case reg_targets strType (fst s) of
        None \<Rightarrow> (0, s)
      | Some vecTargets \<Rightarrow>
          (length vecTargets, fold (\<lambda>h. run h \<lparr>ev_type = strType, ev_data = pData\<rparr>) vecTargets s))"

definition SubscriberCount :: "string \<Rightarrow> 'h dispatcher \<Rightarrow> nat" where
  "SubscriberCount strType d =
     (case sm_find (m_mapByType d) strType of None \<Rightarrow> 0 | Some ids \<Rightarrow> length ids)"

definition PublishAsync ::
  "('h, 'e) event_run \<Rightarrow> string \<Rightarrow> bytes option \<Rightarrow> 'h dispatcher \<times> 'e \<Rightarrow> nat \<times> 'h dispatcher \<times> 'e" where
  "PublishAsync run strType pData s =
     (let d = fst s; nCount = SubscriberCount strType d
      in case m_pExecutor d of
           None \<Rightarrow> Publish run strType pData s
         | Some ex \<Rightarrow>
             (let vecPayload = (case pData of None \<Rightarrow> [] | Some p \<Rightarrow> p)
              in if q_accepting ex
                 then (nCount, d\<lparr>m_pExecutor := Some (ex\<lparr>q_tasks := q_tasks ex @ [(strType, vecPayload)]\<rparr>)\<rparr>, snd s)
                 else (0, s)))"

text \<open>The executor runs the oldest accepted post: the lambda of \<open>PublishAsync\<close>.\<close>

definition run_post :: "('h, 'e) event_run \<Rightarrow> 'h dispatcher \<times> 'e \<Rightarrow> 'h dispatcher \<times> 'e" where
  "run_post run s =
     (case m_pExecutor (fst s) of
        None \<Rightarrow> s
      | Some ex \<Rightarrow>
          (case q_tasks ex of
             [] \<Rightarrow> s
           | (strType, vecPayload) # ts \<Rightarrow>
               snd (Publish run strType (if vecPayload = [] then None else Some vecPayload)
                      (fst s\<lparr>m_pExecutor := Some (ex\<lparr>q_tasks := ts\<rparr>)\<rparr>, snd s))))"

subsection \<open>The table inside the dispatcher\<close>

lemma registry_update_executor [simp]:
  "reg_inv (d\<lparr>m_pExecutor := x\<rparr>) \<longleftrightarrow> reg_inv (d :: 'h dispatcher)"
  "reg_targets t (d\<lparr>m_pExecutor := x\<rparr>) = reg_targets t (d :: 'h dispatcher)"
  "m_mapByType (d\<lparr>m_pExecutor := x\<rparr>) = m_mapByType d"
  by (simp_all add: reg_inv_def subs_of_def reg_targets_def split: option.split)

lemma reg_inv_CEventDispatcher: "reg_inv CEventDispatcher"
  by (simp add: reg_inv_def CEventDispatcher_def subs_of_def)

lemma reg_inv_Subscribe: "reg_inv d \<Longrightarrow> reg_inv (snd (Subscribe t h d))"
  by (cases h) (simp_all add: Subscribe_def reg_inv_add)

lemma SubscriberCount_handlers:
  "reg_inv d \<Longrightarrow> SubscriberCount t d = length (reg.handlers t d)"
  by (simp add: SubscriberCount_def reg.handlers_eq) (simp add: reg_inv_def)

definition outer_event_run :: "('h \<Rightarrow> event \<Rightarrow> 'e \<Rightarrow> 'e) \<Rightarrow> ('h, 'e) event_run" where
  "outer_event_run f h ev s = (fst s, f h ev (snd s))"

definition announce :: "('h \<Rightarrow> event \<Rightarrow> 'e \<Rightarrow> 'e) \<Rightarrow> 'h dispatcher \<Rightarrow> event \<Rightarrow> 'e \<Rightarrow> 'e" where
  "announce f d ev = fold (\<lambda>h. f h ev) (reg.handlers (ev_type ev) d)"

lemma fold_outer_event_run: "fold (\<lambda>h. outer_event_run f h ev) hs (d, e) = (d, fold (\<lambda>h. f h ev) hs e)"
  by (induction hs arbitrary: e) (simp_all add: outer_event_run_def)

lemma Publish_outer:
  "Publish (outer_event_run f) t p (d, e)
     = (length (reg.handlers t d), d, announce f d \<lparr>ev_type = t, ev_data = p\<rparr> e)"
  by (simp add: Publish_def announce_def reg.handlers_def fold_outer_event_run split: option.split)

lemma announce_executor [simp]: "announce f (d\<lparr>m_pExecutor := x\<rparr>) = announce f d"
  by (simp add: announce_def fun_eq_iff reg.handlers_def)

lemma handlers_executor [simp]: "reg.handlers t (d\<lparr>m_pExecutor := x\<rparr>) = reg.handlers t (d :: 'h dispatcher)"
  by (simp add: reg.handlers_def)

lemma handlers_new [simp]: "reg.handlers t CEventDispatcher = []"
  by (simp add: reg.handlers_def reg_targets_def CEventDispatcher_def)

subsection \<open>Properties\<close>

fun subscribe_all :: "(string \<times> 'h) list \<Rightarrow> 'h dispatcher \<Rightarrow> 'h dispatcher" where
  "subscribe_all [] d = d"
| "subscribe_all ((t, h) # xs) d = subscribe_all xs (snd (Subscribe t (Some h) d))"

lemma subscribe_all_handlers:
  "reg_inv d \<Longrightarrow> reg_inv (subscribe_all xs d) \<and>
     reg.handlers t (subscribe_all xs d) = reg.handlers t d @ map snd (filter (\<lambda>x. fst x = t) xs)"
proof (induction xs arbitrary: d)
  case (Cons x xs)
  then show ?case
    by (cases x) (auto simp: Subscribe_def reg_inv_add reg.handlers_add)
qed simp

text \<open>Subscriptions are honoured exactly: after any sequence of subscriptions on a new
  dispatcher, a publication runs the handlers subscribed to that event, each once, in the
  order of subscription, and returns their number.\<close>

theorem publish_reaches_subscribers:
  "Publish (outer_event_run f) t p (subscribe_all xs CEventDispatcher, e)
     = (length (filter (\<lambda>x. fst x = t) xs), subscribe_all xs CEventDispatcher,
        fold (\<lambda>h. f h \<lparr>ev_type = t, ev_data = p\<rparr>) (map snd (filter (\<lambda>x. fst x = t) xs)) e)"
  using subscribe_all_handlers[OF reg_inv_CEventDispatcher, of xs t]
  by (simp add: Publish_outer announce_def)

text \<open>Unsubscribing undoes a subscription: a successful \<open>Unsubscribe\<close> of the identifier that
  \<open>Subscribe\<close> returned leaves every event with the handlers it had before, and no later
  publication of any event reaches the removed handler through that identifier.\<close>

theorem unsubscribe_undoes_subscribe:
  assumes "reg_inv d"
  shows "(let (nId, d1) = Subscribe t (Some h) d; (ok, d2) = Unsubscribe nId d1
          in ok \<and> nId \<noteq> kInvalidSubscriptionId \<and> reg_inv d2
             \<and> (\<forall>t'. SubscriberCount t' d2 = SubscriberCount t' d)
             \<and> (\<forall>f t' p e. snd (snd (Publish (outer_event_run f) t' p (d2, e)))
                           = snd (snd (Publish (outer_event_run f) t' p (d, e)))))"
proof -
  let ?a = "reg_add t h d" and ?d2 = "snd (reg_remove (fst (reg_add t h d)) (snd (reg_add t h d)))"
  have "fst (reg_remove (fst ?a) (snd ?a))" "fst ?a \<noteq> kInvalidSubscriptionId"
    using assms by (auto simp: reg_remove_found reg_add_def Let_def reg_inv_def kInvalidSubscriptionId_def)
  moreover have "reg_inv ?d2" using assms by (intro reg.inv_remove reg.inv_add)
  moreover have "reg.handlers t' ?d2 = reg.handlers t' d" for t'
    using assms by (rule reg.add_remove_handlers)
  ultimately show ?thesis
    using assms by (auto simp: Subscribe_def Unsubscribe_def Let_def split_beta Publish_outer
        announce_def SubscriberCount_handlers)
qed

theorem unsubscribe_undoes_subscribe_witness:
  "SubscriberCount ''config.reloaded''
     (snd (Unsubscribe 1 (snd (Subscribe ''config.reloaded'' (Some (7::nat)) CEventDispatcher)))) = 0"
proof -
  have "fst (Subscribe ''config.reloaded'' (Some (7::nat)) CEventDispatcher) = 1"
    by (simp add: Subscribe_def reg_add_def Let_def CEventDispatcher_def)
  moreover have "SubscriberCount t (CEventDispatcher :: nat dispatcher) = 0" for t
    by (simp add: SubscriberCount_def CEventDispatcher_def)
  moreover have "\<forall>t'. SubscriberCount t' (snd (Unsubscribe (fst (Subscribe ''config.reloaded'' (Some (7::nat)) CEventDispatcher))
      (snd (Subscribe ''config.reloaded'' (Some (7::nat)) CEventDispatcher)))) = SubscriberCount t' (CEventDispatcher :: nat dispatcher)"
    using unsubscribe_undoes_subscribe[OF reg_inv_CEventDispatcher, of "''config.reloaded''" "7::nat"]
    unfolding Let_def split_beta by blast
  ultimately show ?thesis by metis
qed

definition publish_all_async ::
  "('h, 'e) event_run \<Rightarrow> (string \<times> bytes option) list \<Rightarrow> 'h dispatcher \<times> 'e \<Rightarrow> 'h dispatcher \<times> 'e" where
  "publish_all_async run ps s = fold (\<lambda>(t, p) s. snd (PublishAsync run t p s)) ps s"

definition copied :: "bytes option \<Rightarrow> bytes option" where
  "copied p = (case p of Some (x # xs) \<Rightarrow> Some (x # xs) | _ \<Rightarrow> None)"

lemma publish_all_async_queue:
  "m_pExecutor d = Some \<lparr>q_accepting = True, q_tasks = ts\<rparr> \<Longrightarrow>
    publish_all_async run ps (d, e) =
      (d\<lparr>m_pExecutor := Some \<lparr>q_accepting = True,
           q_tasks = ts @ map (\<lambda>(t, p). (t, case p of None \<Rightarrow> [] | Some x \<Rightarrow> x)) ps\<rparr>\<rparr>, e)"
proof (induction ps arbitrary: d ts)
  case (Cons p ps)
  then show ?case
    by (cases p) (auto simp: publish_all_async_def PublishAsync_def Let_def)
qed (simp add: publish_all_async_def)

lemma run_posts:
  "m_pExecutor d = Some \<lparr>q_accepting = True, q_tasks = ts\<rparr> \<Longrightarrow>
    (run_post (outer_event_run f) ^^ length ts) (d, e)
      = (d\<lparr>m_pExecutor := Some \<lparr>q_accepting = True, q_tasks = []\<rparr>\<rparr>,
         fold (\<lambda>(t, p). announce f d \<lparr>ev_type = t, ev_data = if p = [] then None else Some p\<rparr>) ts e)"
proof (induction ts arbitrary: d e)
  case (Cons x ts)
  obtain t p where x: "x = (t, p)" by (cases x)
  let ?d = "d\<lparr>m_pExecutor := Some \<lparr>q_accepting = True, q_tasks = ts\<rparr>\<rparr>"
  have "run_post (outer_event_run f) (d, e)
      = (?d, announce f d \<lparr>ev_type = t, ev_data = if p = [] then None else Some p\<rparr> e)"
    using Cons.prems by (simp add: run_post_def x Publish_outer)
  with Cons.IH[of ?d] show ?case
    by (simp add: funpow_Suc_right x del: funpow.simps)
qed simp

text \<open>Asynchronous publication loses and reorders nothing: the publications accepted by an idle
  executor, run to the end, have the effect of publishing them one by one in the order of the
  calls; only an empty payload arrives as a null pointer.\<close>

theorem async_publication_order:
  assumes "m_pExecutor d = Some \<lparr>q_accepting = True, q_tasks = []\<rparr>"
  shows "(run_post (outer_event_run f) ^^ length ps) (publish_all_async (outer_event_run f) ps (d, e))
       = (d, fold (\<lambda>(t, p) e. snd (snd (Publish (outer_event_run f) t (copied p) (d, e)))) ps e)"
proof -
  let ?ts = "map (\<lambda>(t, p). (t, case p of None \<Rightarrow> [] | Some x \<Rightarrow> x)) ps"
  let ?q = "\<lparr>q_accepting = True, q_tasks = ?ts\<rparr>"
  have "publish_all_async (outer_event_run f) ps (d, e) = (d\<lparr>m_pExecutor := Some ?q\<rparr>, e)"
    using publish_all_async_queue[OF assms, of "outer_event_run f" ps e] by simp
  then have "(run_post (outer_event_run f) ^^ length ps) (publish_all_async (outer_event_run f) ps (d, e))
      = (d\<lparr>m_pExecutor := Some \<lparr>q_accepting = True, q_tasks = []\<rparr>\<rparr>,
         fold (\<lambda>(t, p). announce f d \<lparr>ev_type = t, ev_data = if p = [] then None else Some p\<rparr>) ?ts e)"
    using run_posts[of "d\<lparr>m_pExecutor := Some ?q\<rparr>" ?ts f e] by simp
  moreover have "d\<lparr>m_pExecutor := Some \<lparr>q_accepting = True, q_tasks = []\<rparr>\<rparr> = d"
    using assms by (cases d) simp
  moreover have "fold (\<lambda>(t, p). announce f d \<lparr>ev_type = t, ev_data = if p = [] then None else Some p\<rparr>) ?ts e
      = fold (\<lambda>(t, p) e. snd (snd (Publish (outer_event_run f) t (copied p) (d, e)))) ps e"
    by (induction ps arbitrary: e)
      (auto simp: Publish_outer copied_def split: option.split list.split)
  ultimately show ?thesis by simp
qed

theorem async_publication_order_witness:
  "snd ((run_post (outer_event_run (\<lambda>h ev e. e @ [(h, ev_data ev)])) ^^ 2)
     (publish_all_async (outer_event_run (\<lambda>h ev e. e @ [(h, ev_data ev)]))
        [(''a'', Some [1]), (''a'', Some [])]
        (snd (Initialize (Some \<lparr>q_accepting = True, q_tasks = []\<rparr>)
                (subscribe_all [(''a'', 7)] CEventDispatcher)), [])))
   = [(7::nat, Some [1]), (7, None)]"
proof -
  let ?d = "snd (Initialize (Some \<lparr>q_accepting = True, q_tasks = []\<rparr>) (subscribe_all [(''a'', 7::nat)] CEventDispatcher))"
  have h: "reg.handlers ''a'' ?d = [7]"
    using subscribe_all_handlers[OF reg_inv_CEventDispatcher, of "[(''a'', 7::nat)]" "''a''"]
    by (simp add: Initialize_def del: subscribe_all.simps)
  have "m_pExecutor ?d = Some \<lparr>q_accepting = True, q_tasks = []\<rparr>" by (simp add: Initialize_def)
  from async_publication_order[OF this, where f = "\<lambda>h ev e. e @ [(h, ev_data ev)]" and e = "[]"
      and ps = "[(''a'', Some [1]), (''a'', Some [])]"] h
  show ?thesis by (simp add: numeral_2_eq_2 Publish_outer announce_def copied_def)
qed

end
