(* ===== verification/InterfaceId.thy ===== *)
theory InterfaceId
  imports StdMap Serialization
begin

unbundle bit_operations_syntax

text \<open>
  \<open>InterfaceId\<close> (\<open>src/ServerCore/Module/InterfaceId.h\<close>): a 128-bit GUID parsed from its
  text, compared and ordered by its two halves, with a readable name that takes no part in
  the comparison; and the table-driven \<open>QueryInterface\<close> of \<open>InterfaceMap.h\<close>,
  \<open>Module.cpp\<close> and \<open>RefObject.cpp\<close>.
\<close>

record interface_id =
  m_nHigh :: u64
  m_nLow :: u64
  m_strName :: string

definition HexValue :: "char \<Rightarrow> int" where
  "HexValue c =
     (let n = of_char c :: int
      in if 48 \<le> n \<and> n \<le> 57 then n - 48
         else if 97 \<le> n \<and> n \<le> 102 then n - 97 + 10
         else if 65 \<le> n \<and> n \<le> 70 then n - 65 + 10
         else -1)"

text \<open>The scanning loop; \<open>bs\<close> are the bytes found so far.  A digit without a partner meets the
  terminating zero, which is no hexadecimal digit.\<close>

fun guid_scan :: "string \<Rightarrow> bytes \<Rightarrow> bytes option" where
  "guid_scan [] bs = Some bs"
| "guid_scan (c # cs) bs =
     (if length bs \<ge> 16 then Some bs
      else if c = CHR ''-'' then guid_scan cs bs
      else (case cs of
              [] \<Rightarrow> None
            | d # ds \<Rightarrow>
                if HexValue c < 0 \<or> HexValue d < 0 then None
                else guid_scan ds (bs @ [push_bit 4 (word_of_int (HexValue c)) OR word_of_int (HexValue d)])))"

definition shift_in :: "bytes \<Rightarrow> u64" where
  "shift_in bs = fold (\<lambda>b n. push_bit 8 n OR ucast b) bs 0"

definition ParseGuid :: "string option \<Rightarrow> u64 \<times> u64" where
  "ParseGuid strGuid =
     (case strGuid of
        None \<Rightarrow> (0, 0)
      | Some g \<Rightarrow>
          (case guid_scan g [] of
             None \<Rightarrow> (0, 0)
           | Some bs \<Rightarrow> if length bs \<noteq> 16 then (0, 0)
                        else (shift_in (take 8 bs), shift_in (drop 8 bs))))"

definition NoInterfaceId :: interface_id where
  "NoInterfaceId = \<lparr>m_nHigh = 0, m_nLow = 0, m_strName = []\<rparr>"

definition MakeInterfaceId :: "string option \<Rightarrow> string option \<Rightarrow> interface_id" where
  "MakeInterfaceId strName strGuid =
     (let (h, l) = ParseGuid strGuid
      in \<lparr>m_nHigh = h, m_nLow = l, m_strName = (case strName of None \<Rightarrow> [] | Some n \<Rightarrow> n)\<rparr>)"

definition IsValid :: "interface_id \<Rightarrow> bool" where
  "IsValid iid \<longleftrightarrow> m_nHigh iid \<noteq> 0 \<or> m_nLow iid \<noteq> 0"

definition iid_eq :: "interface_id \<Rightarrow> interface_id \<Rightarrow> bool" where
  "iid_eq a b \<longleftrightarrow> m_nHigh a = m_nHigh b \<and> m_nLow a = m_nLow b"

definition iid_less :: "interface_id \<Rightarrow> interface_id \<Rightarrow> bool" where
  "iid_less a b \<longleftrightarrow> (if m_nHigh a \<noteq> m_nHigh b then m_nHigh a < m_nHigh b else m_nLow a < m_nLow b)"

text \<open>The part of an identifier that the comparisons see: the key of the maps it is used in.\<close>

definition iid_key :: "interface_id \<Rightarrow> u64 \<times> u64" where
  "iid_key iid = (m_nHigh iid, m_nLow iid)"

lemma iid_eq_key: "iid_eq a b \<longleftrightarrow> iid_key a = iid_key b"
  by (simp add: iid_eq_def iid_key_def)

lemma iid_less_key: "iid_less a b \<longleftrightarrow> iid_key a < iid_key b"
  by (auto simp: iid_less_def iid_key_def less_prod_def)

definition IID_IUnknown :: interface_id where
  "IID_IUnknown = MakeInterfaceId (Some ''sc::IUnknown'') (Some ''0d966519-d922-4be7-baec-bc3c671aa864'')"

definition IID_IModule :: interface_id where
  "IID_IModule = MakeInterfaceId (Some ''sc::IModule'') (Some ''fe293bce-4c0e-443b-8ce8-953c4806c6fa'')"

subsection \<open>Table-driven queries\<close>

text \<open>\<open>SC_END_INTERFACE_MAP\<close>: the table is searched front to back, then the base class is asked.\<close>

fun QueryTable ::
  "(interface_id \<times> 'p) list \<Rightarrow> (interface_id \<Rightarrow> 'p option) \<Rightarrow> interface_id \<Rightarrow> 'p option" where
  "QueryTable [] base iid = base iid"
| "QueryTable ((piid, p) # entries) base iid =
     (if iid_eq iid piid then Some p else QueryTable entries base iid)"

definition CModule_QueryInterfaceImpl :: "'p \<Rightarrow> interface_id \<Rightarrow> 'p option" where
  "CModule_QueryInterfaceImpl pThis iid = (if iid_eq iid IID_IModule then Some pThis else None)"

definition QueryInterface ::
  "'p \<Rightarrow> (interface_id \<Rightarrow> 'p option) \<Rightarrow> interface_id \<Rightarrow> 'p option" where
  "QueryInterface pUnknown impl iid =
     (if \<not> IsValid iid then None
      else if iid_eq iid IID_IUnknown then Some pUnknown
      else impl iid)"

text \<open>The query of a module that declares a table of interfaces.\<close>

definition ModuleQuery ::
  "'p \<Rightarrow> 'p \<Rightarrow> (interface_id \<times> 'p) list \<Rightarrow> interface_id \<Rightarrow> 'p option" where
  "ModuleQuery pUnknown pModule table =
     QueryInterface pUnknown (QueryTable table (CModule_QueryInterfaceImpl pModule))"

lemma QueryTable_first:
  "QueryTable table base iid =
     (case map_of (map (\<lambda>(i, p). (iid_key i, p)) table) (iid_key iid) of
        Some p \<Rightarrow> Some p | None \<Rightarrow> base iid)"
  by (induction table base iid rule: QueryTable.induct) (auto simp: iid_eq_key)

subsection \<open>The text form of a GUID\<close>

definition hex_digit :: "nat \<Rightarrow> char" where
  "hex_digit n = ''0123456789abcdef'' ! n"

definition hex_pair :: "byte \<Rightarrow> string" where
  "hex_pair b = [hex_digit (unat b div 16), hex_digit (unat b mod 16)]"

text \<open>The standard form 8-4-4-4-12 of sixteen bytes.\<close>

definition guid_text :: "bytes \<Rightarrow> string" where
  "guid_text bs =
     (let h = \<lambda>i n. concat (map hex_pair (take n (drop i bs)))
      in h 0 4 @ ''-'' @ h 4 2 @ ''-'' @ h 6 2 @ ''-'' @ h 8 2 @ ''-'' @ h 10 6)"

definition word_bytes :: "u64 \<Rightarrow> bytes" where
  "word_bytes w = rev (le_split 8 w)"

lemma less_16_cases: "n < 16 \<Longrightarrow> n \<in> {0, 1, 2, 3, 4, 5, 6, 7, 8, 9, 10, 11, 12, 13, 14, 15 :: nat}"
  unfolding insert_iff empty_iff by arith

lemma HexValue_hex_digit: "n < 16 \<Longrightarrow> HexValue (hex_digit n) = int n \<and> hex_digit n \<noteq> CHR ''-''"
  using less_16_cases[of n] by (auto simp: HexValue_def hex_digit_def)

lemma byte_from_nibbles:
  "push_bit 4 (word_of_int (int (unat b div 16))) OR word_of_int (int (unat b mod 16)) = (b :: byte)"
proof -
  have "unat b mod 16 = unat (take_bit 4 b)" "unat b div 16 = unat (drop_bit 4 b)"
    by (simp_all add: take_bit_eq_mod drop_bit_eq_div unat_div_distrib unat_mod_distrib)
  then have "word_of_int (int (unat b mod 16)) = take_bit 4 b" "word_of_int (int (unat b div 16)) = drop_bit 4 b"
    by simp_all
  then show ?thesis
    by (simp add: bit_eq_iff bit_simps) (auto simp: bit_simps not_less)
qed

lemma guid_scan_pair:
  assumes "length bs < 16"
  shows "guid_scan (hex_pair b @ s) bs = guid_scan s (bs @ [b])"
proof -
  have "unat b < 256" using unsigned_less[of b] by simp
  then have "unat b div 16 < 16" "unat b mod 16 < 16" by auto
  note d = HexValue_hex_digit[OF this(1)] HexValue_hex_digit[OF this(2)]
  show ?thesis
    using assms d byte_from_nibbles[of b] by (simp add: hex_pair_def)
qed

lemma guid_scan_pairs:
  "length bs + length xs \<le> 16 \<Longrightarrow> guid_scan (concat (map hex_pair xs) @ s) bs = guid_scan s (bs @ xs)"
  by (induction xs arbitrary: bs) (simp_all add: guid_scan_pair)

lemma guid_scan_dash: "length bs < 16 \<Longrightarrow> guid_scan (CHR ''-'' # s) bs = guid_scan s bs"
  by simp

lemma guid_scan_text:
  assumes "length bs = 16"
  shows "guid_scan (guid_text bs) [] = Some bs"
proof -
  have step: "take n (drop m bs) @ drop (m + n) bs = drop m bs" for m n
    by (metis add.commute append_take_drop_id drop_drop)
  have "guid_scan (guid_text bs) [] =
      Some (take 4 bs @ take 2 (drop 4 bs) @ take 2 (drop 6 bs) @ take 2 (drop 8 bs) @ take 6 (drop 10 bs))"
    using assms guid_scan_pairs[where s = "[]"]
    by (simp add: guid_text_def Let_def guid_scan_pairs guid_scan_dash del: guid_scan.simps(2))
  also have "\<dots> = Some bs"
    using step[of 2 8] step[of 2 6] step[of 2 4] step[of 4 0] assms by simp
  finally show ?thesis .
qed

lemma shift_in_word_bytes: "shift_in (word_bytes w) = w"
proof -
  have "bit (shift_in bs) k \<longleftrightarrow> k < 64 \<and> k < 8 * length bs \<and> bit (rev bs ! (k div 8)) (k mod 8)" for bs k
  proof (induction bs arbitrary: k rule: rev_induct)
    case (snoc b bs)
    have "bit (shift_in (bs @ [b])) k \<longleftrightarrow>
        (8 \<le> k \<and> k < 64 \<and> bit (shift_in bs) (k - 8)) \<or> (k < 64 \<and> bit b k)"
      by (auto simp: shift_in_def bit_simps)
    moreover have "bit b k \<Longrightarrow> k < 8" using bit_imp_le_length[of b k] by simp
    moreover have "(k - 8) div 8 = k div 8 - 1" "(k - 8) mod 8 = k mod 8" if "8 \<le> k"
      using that by (simp_all add: le_div_geq le_mod_geq)
    ultimately show ?case
      using snoc[of "k - 8"]
      by (cases "k < 8") (auto simp: nth_Cons' div_eq_0_iff)
  qed (simp add: shift_in_def)
  then have "bit (shift_in (word_bytes w)) k \<longleftrightarrow> bit w k" if "k < 64" for k
    using that nth_le_split[of "k div 8" 8 w "k mod 8"]
    by (simp add: word_bytes_def less_mult_imp_div_less mult.commute)
  then show ?thesis by (intro bit_word_eqI) simp
qed

subsection \<open>Properties\<close>

lemma ParseGuid_guid_text:
  assumes "length bs = 16"
  shows "ParseGuid (Some (guid_text bs)) = (shift_in (take 8 bs), shift_in (drop 8 bs))"
  using guid_scan_text[OF assms] assms by (simp add: ParseGuid_def)

text \<open>Every 128-bit identifier is recovered from its standard text: parsing the 8-4-4-4-12 form of
  the sixteen bytes of two words gives those two words, so different identifiers have
  different texts.\<close>

theorem guid_roundtrip:
  "ParseGuid (Some (guid_text (word_bytes h @ word_bytes l))) = (h, l)"
  using ParseGuid_guid_text[of "word_bytes h @ word_bytes l"]
  by (simp add: word_bytes_def shift_in_word_bytes[unfolded word_bytes_def])

lemma guid_scan_stops: "length bs \<ge> 16 \<Longrightarrow> guid_scan s bs = Some bs"
  by (cases s) simp_all

text \<open>The header says that text which is no GUID yields the all-zero identifier; the parser stops
  after sixteen bytes and never looks at what follows, and it ignores where the dashes are.
  Any text after a complete GUID is accepted.\<close>

theorem guid_trailing_text_accepted:
  "ParseGuid (Some (concat (map hex_pair (word_bytes h @ word_bytes l)) @ junk)) = (h, l)"
proof -
  have "guid_scan (concat (map hex_pair (word_bytes h @ word_bytes l)) @ junk) [] = Some (word_bytes h @ word_bytes l)"
    by (subst guid_scan_pairs) (simp_all add: guid_scan_stops word_bytes_def)
  then show ?thesis
    by (simp add: ParseGuid_def word_bytes_def shift_in_word_bytes[unfolded word_bytes_def])
qed

text \<open>Interface queries are sound and complete for a module's table: an invalid identifier finds
  nothing, the unknown interface is always the object itself, a declared interface finds its
  first entry, the module interface is found by the base class, and nothing else is found;
  two identifiers that compare equal find the same, whatever their readable names.\<close>

theorem module_query:
  "ModuleQuery u m table iid =
     (if \<not> IsValid iid then None
      else if iid_eq iid IID_IUnknown then Some u
      else case map_of (map (\<lambda>(i, p). (iid_key i, p)) table) (iid_key iid) of
             Some p \<Rightarrow> Some p
           | None \<Rightarrow> if iid_eq iid IID_IModule then Some m else None)
   \<and> (\<forall>iid'. iid_eq iid iid' \<longrightarrow> ModuleQuery u m table iid' = ModuleQuery u m table iid)"
proof -
  have key: "IsValid iid \<longleftrightarrow> iid_key iid \<noteq> (0, 0)" for iid
    by (auto simp: IsValid_def iid_key_def)
  have eq: "ModuleQuery u m table iid =
     (if \<not> IsValid iid then None
      else if iid_eq iid IID_IUnknown then Some u
      else case map_of (map (\<lambda>(i, p). (iid_key i, p)) table) (iid_key iid) of
             Some p \<Rightarrow> Some p
           | None \<Rightarrow> if iid_eq iid IID_IModule then Some m else None)" for iid
    by (simp add: ModuleQuery_def QueryInterface_def QueryTable_first CModule_QueryInterfaceImpl_def
        split: option.split)
  show ?thesis unfolding eq by (auto simp: key iid_eq_key)
qed

theorem module_query_witness:
  "ModuleQuery (0::nat) 1 [(\<lparr>m_nHigh = 5, m_nLow = 6, m_strName = ''x''\<rparr>, 2)]
     \<lparr>m_nHigh = 5, m_nLow = 6, m_strName = ''y''\<rparr>
   = ModuleQuery (0::nat) 1 [(\<lparr>m_nHigh = 5, m_nLow = 6, m_strName = ''x''\<rparr>, 2)]
     \<lparr>m_nHigh = 5, m_nLow = 6, m_strName = ''x''\<rparr>"
  using conjunct2[OF module_query[of 0 1 "[(\<lparr>m_nHigh = 5, m_nLow = 6, m_strName = ''x''\<rparr>, 2::nat)]"
      "\<lparr>m_nHigh = 5, m_nLow = 6, m_strName = ''x''\<rparr>"], rule_format, of "\<lparr>m_nHigh = 5, m_nLow = 6, m_strName = ''y''\<rparr>"]
  by (simp add: iid_eq_def)

end
