(* ===== verification/StartOrder.thy ===== *)
theory StartOrder
  imports InterfaceId
begin

text \<open>
  \<open>CModuleManager::ComputeStartOrder\<close> (\<open>src/ServerCore/Module/ModuleManager.cpp\<close>): Kahn's
  algorithm over the interfaces each module declares to need.  A module is seen here as the
  identifier it was registered under and the list of identifiers it depends on.
\<close>

type_synonym decl = "interface_id \<times> interface_id list"

text \<open>The provider of an interface is the first module registered under it.\<close>

definition build_providers :: "decl list \<Rightarrow> (u64 \<times> u64, nat) smap" where
  "build_providers ds = fold (\<lambda>i m.
     let iid = fst (ds ! i)
     in if IsValid iid \<and> sm_find m (iid_key iid) = None then sm_put (iid_key iid) i m else m)
     [0..<length ds] []"

text \<open>Successor lists and in-degrees.\<close>

type_synonym graph = "nat list list \<times> nat list"

definition add_edge :: "nat \<Rightarrow> nat \<Rightarrow> graph \<Rightarrow> graph" where
  "add_edge p i = (\<lambda>(vecSucc, vecInDegree).
     (vecSucc[p := vecSucc ! p @ [i]], vecInDegree[i := vecInDegree ! i + 1]))"

definition add_dep :: "(u64 \<times> u64, nat) smap \<Rightarrow> nat \<Rightarrow> interface_id \<Rightarrow> graph \<Rightarrow> graph" where
  "add_dep mapProvider i dep g =
     (case sm_find mapProvider (iid_key dep) of
        None \<Rightarrow> g
      | Some p \<Rightarrow> if p = i then g else add_edge p i g)"

definition build_graph :: "decl list \<Rightarrow> graph" where
  "build_graph ds =
     fold (\<lambda>i. fold (add_dep (build_providers ds) i) (snd (ds ! i))) [0..<length ds]
       (replicate (length ds) [], replicate (length ds) 0)"

text \<open>One successor of the module just taken from the queue.  The test of the index stands for
  the bound of the vector; the successors are always below it (\<open>build_graph_ok\<close>).\<close>

definition relax :: "nat \<Rightarrow> nat list \<times> nat list \<Rightarrow> nat list \<times> nat list" where
  "relax nV = (\<lambda>(vecInDegree, queue).
     if nV < length vecInDegree \<and> vecInDegree ! nV > 0
     then (let deg = vecInDegree[nV := vecInDegree ! nV - 1]
           in (deg, if deg ! nV = 0 then queue @ [nV] else queue))
     else (vecInDegree, queue))"

definition positives :: "nat list \<Rightarrow> nat" where
  "positives deg = length (filter (\<lambda>d. d > 0) deg)"

lemma positives_upd:
  "i < length deg \<Longrightarrow>
   positives (deg[i := v]) + (if deg ! i > 0 then 1 else 0) = positives deg + (if v > 0 then 1 else 0)"
proof (induction deg arbitrary: i)
  case (Cons d deg)
  show ?case
  proof (cases i)
    case (Suc j)
    with Cons.IH[of j] Cons.prems show ?thesis by (auto simp: positives_def split: if_splits)
  qed (simp add: positives_def)
qed simp

lemma relax_measure:
  "relax v (deg, q) = (deg', q') \<Longrightarrow> length q' + positives deg' \<le> length q + positives deg"
  using positives_upd[of v deg "deg ! v - 1"]
  by (auto simp: relax_def Let_def split: if_splits)

lemma fold_relax_measure:
  "fold relax vs (deg, q) = (deg', q') \<Longrightarrow> length q' + positives deg' \<le> length q + positives deg"
proof (induction vs arbitrary: deg q)
  case (Cons v vs)
  obtain d1 q1 where r: "relax v (deg, q) = (d1, q1)" by force
  show ?case using Cons.IH[of d1 q1] Cons.prems relax_measure[OF r] r by simp
qed simp

text \<open>The main loop returns the order and the visited flags.\<close>

function kahn ::
  "nat list list \<Rightarrow> nat list \<Rightarrow> nat list \<Rightarrow> nat list \<Rightarrow> bool list \<Rightarrow> nat list \<times> bool list" where
  "kahn vecSucc vecInDegree [] vecOrder vecVisited = (vecOrder, vecVisited)"
| "kahn vecSucc vecInDegree (nCur # queue) vecOrder vecVisited =
     (let (deg, q) = fold relax (vecSucc ! nCur) (vecInDegree, queue)
      in kahn vecSucc deg q (vecOrder @ [nCur]) (vecVisited[nCur := True]))"
  by pat_completeness auto

termination
  by (relation "measure (\<lambda>(_, deg, q, _, _). length q + positives deg)")
    (auto dest!: sym[of "(_, _)"] fold_relax_measure)

definition ComputeStartOrder :: "decl list \<Rightarrow> nat list" where
  "ComputeStartOrder ds =
     (let n = length ds;
          (vecSucc, vecInDegree) = build_graph ds;
          queue = filter (\<lambda>i. vecInDegree ! i = 0) [0..<n];
          (vecOrder, vecVisited) = kahn vecSucc vecInDegree queue [] (replicate n False)
      in vecOrder @ filter (\<lambda>i. \<not> vecVisited ! i) [0..<n])"

subsection \<open>Providers and edges\<close>

definition provider :: "decl list \<Rightarrow> u64 \<times> u64 \<Rightarrow> nat option" where
  "provider ds k = List.find (\<lambda>i. IsValid (fst (ds ! i)) \<and> iid_key (fst (ds ! i)) = k) [0..<length ds]"

lemma build_providers_find: "sm_find (build_providers ds) k = provider ds k"
proof -
  have "sm_find (fold (\<lambda>i m. let iid = fst (ds ! i)
      in if IsValid iid \<and> sm_find m (iid_key iid) = None then sm_put (iid_key iid) i m else m) is m) k =
      (case sm_find m k of Some v \<Rightarrow> Some v
       | None \<Rightarrow> List.find (\<lambda>i. IsValid (fst (ds ! i)) \<and> iid_key (fst (ds ! i)) = k) is)" for "is" m
    by (induction "is" arbitrary: m) (auto simp: Let_def split: option.split)
  from this[of "[0..<length ds]" "[]"] show ?thesis
    by (simp add: build_providers_def provider_def)
qed

lemma provider_less: "provider ds k = Some p \<Longrightarrow> p < length ds"
  by (auto simp: provider_def find_Some_iff)

text \<open>Module \<open>i\<close> needs an interface whose provider is the other module \<open>p\<close>.\<close>

definition depends :: "decl list \<Rightarrow> nat \<Rightarrow> nat \<Rightarrow> bool" where
  "depends ds p i \<longleftrightarrow> i < length ds \<and> p \<noteq> i \<and> (\<exists>d \<in> set (snd (ds ! i)). provider ds (iid_key d) = Some p)"

lemma depends_less: "depends ds p i \<Longrightarrow> p < length ds \<and> i < length ds"
  by (auto simp: depends_def provider_less)

text \<open>A graph is consistent when the in-degrees count the entries of the successor lists.\<close>

definition in_edges :: "nat list list \<Rightarrow> nat set \<Rightarrow> nat \<Rightarrow> nat" where
  "in_edges succs P v = (\<Sum>p\<in>P. count_list (succs ! p) v)"

definition graph_ok :: "nat \<Rightarrow> graph \<Rightarrow> bool" where
  "graph_ok n g \<longleftrightarrow> length (fst g) = n \<and> length (snd g) = n \<and> (\<forall>p<n. set (fst g ! p) \<subseteq> {..<n})
     \<and> (\<forall>v<n. snd g ! v = in_edges (fst g) {..<n} v)"

lemma in_edges_upd:
  assumes "p < n" and "length succs = n"
  shows "in_edges (succs[p := succs ! p @ [i]]) {..<n} v = in_edges succs {..<n} v + (if v = i then 1 else 0)"
proof -
  have "in_edges (succs[p := succs ! p @ [i]]) {..<n} v =
      count_list (succs ! p @ [i]) v + (\<Sum>q\<in>{..<n} - {p}. count_list (succs ! q) v)"
    unfolding in_edges_def using assms by (subst sum.remove[of _ p]) (auto intro!: sum.cong)
  moreover have "in_edges succs {..<n} v =
      count_list (succs ! p) v + (\<Sum>q\<in>{..<n} - {p}. count_list (succs ! q) v)"
    unfolding in_edges_def using assms by (subst sum.remove[of _ p]) auto
  ultimately show ?thesis by simp
qed

lemma graph_ok_add_edge: "graph_ok n g \<Longrightarrow> p < n \<Longrightarrow> i < n \<Longrightarrow> graph_ok n (add_edge p i g)"
  by (cases g) (auto simp: graph_ok_def add_edge_def in_edges_upd nth_list_update)

lemma graph_ok_init: "graph_ok n (replicate n [], replicate n 0)"
  by (simp add: graph_ok_def in_edges_def)

text \<open>The edges the construction adds.\<close>

lemma fold_add_dep:
  assumes "graph_ok n g" and "i < n" and "\<And>k p. sm_find m k = Some p \<Longrightarrow> p < n"
  shows "graph_ok n (fold (add_dep m i) deps g)
    \<and> (\<forall>p<n. \<forall>v. v \<in> set (fst (fold (add_dep m i) deps g) ! p) \<longleftrightarrow>
    v \<in> set (fst g ! p) \<or> v = i \<and> p \<noteq> i \<and> (\<exists>d\<in>set deps. sm_find m (iid_key d) = Some p))"
  using assms(1)
proof (induction deps arbitrary: g)
  case (Cons d deps)
  let ?g = "add_dep m i d g"
  have ok: "graph_ok n ?g"
    using Cons.prems assms(2,3) by (auto simp: add_dep_def graph_ok_add_edge split: option.split)
  have "v \<in> set (fst ?g ! p) \<longleftrightarrow>
      v \<in> set (fst g ! p) \<or> v = i \<and> p \<noteq> i \<and> sm_find m (iid_key d) = Some p" if "p < n" for p v
    using Cons.prems that assms(3)
    by (cases g) (auto simp: add_dep_def add_edge_def graph_ok_def nth_list_update split: option.split if_splits)
  with Cons.IH[OF ok] show ?case by auto
qed auto

lemma build_graph_spec:
  assumes "build_graph ds = (succs, deg)"
  shows "graph_ok (length ds) (succs, deg)"
    and "p < length ds \<Longrightarrow> set (succs ! p) = {i. depends ds p i}"
proof -
  let ?n = "length ds" and ?m = "build_providers ds"
  let ?f = "\<lambda>is. fold (\<lambda>i. fold (add_dep ?m i) (snd (ds ! i))) is (replicate ?n [], replicate ?n 0)"
  have "graph_ok ?n (?f [0..<k]) \<and> (\<forall>p<?n. \<forall>v. v \<in> set (fst (?f [0..<k]) ! p) \<longleftrightarrow> v < k \<and> depends ds p v)"
    if "k \<le> ?n" for k
    using that
  proof (induction k)
    case 0
    show ?case by (simp add: graph_ok_init)
  next
    case (Suc k)
    let ?g = "?f [0..<k]"
    have step: "?f [0..<Suc k] = fold (add_dep ?m k) (snd (ds ! k)) ?g" by simp
    have ok: "graph_ok ?n ?g" and k: "k < ?n" using Suc by simp_all
    have lim: "\<And>key p. sm_find ?m key = Some p \<Longrightarrow> p < ?n"
      by (simp add: build_providers_find provider_less)
    show ?case
      using fold_add_dep[where m = ?m and deps = "snd (ds ! k)", OF ok k lim] Suc k unfolding step
      by (auto simp: build_providers_find depends_def less_Suc_eq simp del: upt_Suc)
  qed
  from this[of ?n] assms show "graph_ok ?n (succs, deg)"
    and "p < ?n \<Longrightarrow> set (succs ! p) = {i. depends ds p i}"
    by (auto simp: build_graph_def depends_less)
qed


subsection \<open>The loop invariant of the sort\<close>

lemma fold_relax:
  assumes "fold relax vs (deg, q) = (deg', q')"
    and "\<forall>v\<in>set vs. v < length deg" and "\<forall>v<length deg. count_list vs v \<le> deg ! v"
  shows "length deg' = length deg \<and> (\<forall>v<length deg. deg' ! v = deg ! v - count_list vs v) \<and>
    (\<exists>new. q' = q @ new \<and> distinct new \<and> set new = {v \<in> set vs. deg ! v = count_list vs v})"
  using assms
proof (induction vs arbitrary: deg q)
  case (Cons v vs)
  let ?deg = "deg[v := deg ! v - 1]" and ?q = "if deg ! v = 1 then q @ [v] else q"
  have v: "v < length deg" and c: "Suc (count_list vs v) \<le> deg ! v"
    using Cons.prems(2,3) by auto
  then have "relax v (deg, q) = (?deg, ?q)" by (simp add: relax_def)
  with Cons.prems(1) have run: "fold relax vs (?deg, ?q) = (deg', q')" by simp
  have "\<forall>u<length ?deg. count_list vs u \<le> ?deg ! u"
  proof (intro allI impI)
    fix u
    assume "u < length ?deg"
    then show "count_list vs u \<le> ?deg ! u"
      using Cons.prems(3)[rule_format, of u] c by (cases "u = v") auto
  qed
  with Cons.IH[OF run] Cons.prems(2) obtain new where
    len: "length deg' = length deg" and deg: "\<forall>u<length deg. deg' ! u = ?deg ! u - count_list vs u"
    and new: "q' = ?q @ new" "distinct new" "set new = {u \<in> set vs. ?deg ! u = count_list vs u}"
    by auto
  have "deg ! v = 1 \<Longrightarrow> v \<notin> set vs" using c by (simp add: count_list_0_iff)
  moreover have "v \<in> set vs \<Longrightarrow> 0 < count_list vs v" by (metis count_list_0_iff gr0I)
  ultimately have "distinct ((if deg ! v = 1 then [v] else []) @ new)"
    and "set ((if deg ! v = 1 then [v] else []) @ new) = {u \<in> set (v # vs). deg ! u = count_list (v # vs) u}"
  proof -
    have at_v: "v \<in> set new \<longleftrightarrow> v \<in> set vs \<and> deg ! v = Suc (count_list vs v)"
      using new(3) v c by auto
    have off_v: "u \<in> set new \<longleftrightarrow> u \<in> set vs \<and> deg ! u = count_list vs u" if "u \<noteq> v" for u
      using new(3) that by simp
    show "distinct ((if deg ! v = 1 then [v] else []) @ new)"
      using new(2) at_v \<open>deg ! v = 1 \<Longrightarrow> v \<notin> set vs\<close> by simp
    show "set ((if deg ! v = 1 then [v] else []) @ new) = {u \<in> set (v # vs). deg ! u = count_list (v # vs) u}"
    proof (rule set_eqI)
      fix u
      show "u \<in> set ((if deg ! v = 1 then [v] else []) @ new) \<longleftrightarrow>
          u \<in> {u \<in> set (v # vs). deg ! u = count_list (v # vs) u}"
      proof (cases "u = v")
        case True
        have "v \<notin> set vs \<Longrightarrow> count_list vs v = 0" by (simp add: count_list_0_iff)
        with True show ?thesis
          using at_v \<open>deg ! v = 1 \<Longrightarrow> v \<notin> set vs\<close> by (cases "v \<in> set vs") auto
      qed (auto simp: off_v)
    qed
  qed
  then have "\<exists>new. q' = q @ new \<and> distinct new \<and> set new = {u \<in> set (v # vs). deg ! u = count_list (v # vs) u}"
    using new(1) by (intro exI[of _ "(if deg ! v = 1 then [v] else []) @ new"]) auto
  moreover have "\<forall>u<length deg. deg' ! u = deg ! u - count_list (v # vs) u"
    using deg v by (auto simp: nth_list_update)
  ultimately show ?case using len by blast
qed simp

definition topo :: "nat \<Rightarrow> nat list list \<Rightarrow> nat list \<Rightarrow> bool" where
  "topo n succs L \<longleftrightarrow> (\<forall>k<length L. \<forall>p<n. L ! k \<in> set (succs ! p) \<longrightarrow> p \<in> set (take k L))"

lemma topo_append:
  assumes "topo n succs L"
    and "\<And>v p. v \<in> set new \<Longrightarrow> p < n \<Longrightarrow> v \<in> set (succs ! p) \<Longrightarrow> p \<in> set L"
  shows "topo n succs (L @ new)"
  unfolding topo_def
proof (intro allI impI)
  fix k p
  assume k: "k < length (L @ new)" and p: "p < n" "(L @ new) ! k \<in> set (succs ! p)"
  show "p \<in> set (take k (L @ new))"
  proof (cases "k < length L")
    case True
    then show ?thesis using assms(1) p by (simp add: topo_def nth_append)
  next
    case False
    then have "new ! (k - length L) \<in> set new" using k by (intro nth_mem) simp
    then show ?thesis using assms(2) p False by (simp add: nth_append)
  qed
qed

definition kahn_inv ::
  "nat \<Rightarrow> nat list list \<Rightarrow> nat list \<Rightarrow> nat list \<Rightarrow> nat list \<Rightarrow> bool list \<Rightarrow> bool" where
  "kahn_inv n succs deg q ord vis \<longleftrightarrow>
     length deg = n \<and> length vis = n \<and> distinct (ord @ q)
     \<and> (\<forall>v. v \<in> set (ord @ q) \<longleftrightarrow> v < n \<and> deg ! v = 0)
     \<and> (\<forall>v<n. deg ! v = in_edges succs ({..<n} - set ord) v)
     \<and> (\<forall>v<n. vis ! v \<longleftrightarrow> v \<in> set ord)
     \<and> topo n succs (ord @ q)"

lemma in_edges_remove:
  "finite P \<Longrightarrow> p \<in> P \<Longrightarrow> in_edges succs P v = count_list (succs ! p) v + in_edges succs (P - {p}) v"
  unfolding in_edges_def by (rule sum.remove)

lemma in_edges_0: "finite P \<Longrightarrow> in_edges succs P v = 0 \<longleftrightarrow> (\<forall>p\<in>P. v \<notin> set (succs ! p))"
  by (auto simp: in_edges_def count_list_0_iff)

lemma kahn_inv_step:
  assumes inv: "kahn_inv n succs deg (cur # q) ord vis" and sub: "\<forall>p<n. set (succs ! p) \<subseteq> {..<n}"
    and run: "fold relax (succs ! cur) (deg, q) = (deg', q')"
  shows "kahn_inv n succs deg' q' (ord @ [cur]) (vis[cur := True])"
proof -
  let ?P = "{..<n} - set ord"
  have cur: "cur < n" "cur \<in> ?P" and len: "length deg = n"
    using inv by (auto simp: kahn_inv_def)
  have split: "{..<n} - set (ord @ [cur]) = ?P - {cur}" by auto
  have deg: "deg ! v = count_list (succs ! cur) v + in_edges succs (?P - {cur}) v" if "v < n" for v
    using inv that cur in_edges_remove[of ?P cur succs v] by (simp add: kahn_inv_def)
  have "\<forall>v\<in>set (succs ! cur). v < length deg" "\<forall>v<length deg. count_list (succs ! cur) v \<le> deg ! v"
    using sub cur len deg by auto
  from fold_relax[OF run this] obtain new where
    len': "length deg' = n" and deg': "\<forall>v<n. deg' ! v = deg ! v - count_list (succs ! cur) v"
    and q': "q' = q @ new" and dis: "distinct new"
    and new: "set new = {v \<in> set (succs ! cur). deg ! v = count_list (succs ! cur) v}"
    using len by auto
  have deg'': "deg' ! v = in_edges succs (?P - {cur}) v" if "v < n" for v
    using deg deg' that by simp
  have new_lt: "v < n" if "v \<in> set new" for v using that new sub cur by auto
  have new_pos: "deg ! v > 0" if "v \<in> set new" for v
    using that new count_list_0_iff[of "succs ! cur" v] by auto
  have dis': "distinct (ord @ cur # q @ new)"
    using inv dis new_pos by (fastforce simp: kahn_inv_def)
  have mem: "v \<in> set (ord @ cur # q @ new) \<longleftrightarrow> v < n \<and> deg' ! v = 0" for v
  proof (cases "v \<in> set new")
    case True
    then show ?thesis using new deg' new_lt by auto
  next
    case False
    have "v \<in> set (ord @ cur # q) \<longleftrightarrow> v < n \<and> deg ! v = 0" using inv by (auto simp: kahn_inv_def)
    moreover have "deg ! v = 0 \<longleftrightarrow> deg' ! v = 0" if "v < n"
    proof
      assume z: "deg' ! v = 0"
      then have eq: "deg ! v = count_list (succs ! cur) v" using deg deg'' that by simp
      then have "v \<notin> set (succs ! cur)" using False new by auto
      then show "deg ! v = 0" using eq by (simp add: count_list_0_iff)
    qed (use deg' that in simp)
    ultimately show ?thesis using False by auto
  qed
  have "topo n succs ((ord @ cur # q) @ new)"
  proof (rule topo_append)
    fix v p
    assume v: "v \<in> set new" and p: "p < n" "v \<in> set (succs ! p)"
    have "in_edges succs (?P - {cur}) v = 0" using mem[of v] v deg''[OF new_lt[OF v]] by simp
    then show "p \<in> set (ord @ cur # q)" using p by (auto simp: in_edges_0)
  qed (use inv in \<open>simp add: kahn_inv_def\<close>)
  then show ?thesis
    using inv cur len' dis' mem deg'' unfolding kahn_inv_def split q'
    by (auto simp: nth_list_update)
qed

lemma kahn_correct:
  "kahn succs deg q ord vis = (ord', vis') \<Longrightarrow> kahn_inv n succs deg q ord vis
   \<Longrightarrow> \<forall>p<n. set (succs ! p) \<subseteq> {..<n} \<Longrightarrow> \<exists>deg'. kahn_inv n succs deg' [] ord' vis'"
proof (induction succs deg q ord vis rule: kahn.induct)
  case (2 succs deg cur q ord vis)
  obtain d q1 where r: "fold relax (succs ! cur) (deg, q) = (d, q1)" by force
  with 2 kahn_inv_step[OF 2(3,4) r] show ?case by auto
qed auto

lemma kahn_inv_start:
  assumes "graph_ok n (succs, deg)"
  shows "kahn_inv n succs deg (filter (\<lambda>i. deg ! i = 0) [0..<n]) [] (replicate n False)"
proof -
  let ?q = "filter (\<lambda>i. deg ! i = 0) [0..<n]"
  have "topo n succs ([] @ ?q)"
    using assms by (intro topo_append) (auto simp: topo_def graph_ok_def in_edges_0)
  then show ?thesis using assms by (auto simp: kahn_inv_def graph_ok_def)
qed

text \<open>What the function returns: first the modules Kahn's loop released, then the others.\<close>

lemma start_order_parts:
  obtains ord deg vis rest where "ComputeStartOrder ds = ord @ rest"
    and "kahn_inv (length ds) (fst (build_graph ds)) deg [] ord vis"
    and "rest = filter (\<lambda>i. i \<notin> set ord) [0..<length ds]"
proof -
  let ?n = "length ds"
  obtain succs deg where g: "build_graph ds = (succs, deg)" by force
  obtain ord vis where k: "kahn succs deg (filter (\<lambda>i. deg ! i = 0) [0..<?n]) [] (replicate ?n False) = (ord, vis)"
    by force
  note ok = build_graph_spec(1)[OF g]
  then obtain deg' where inv: "kahn_inv ?n succs deg' [] ord vis"
    using kahn_correct[OF k kahn_inv_start[OF ok]] by (auto simp: graph_ok_def)
  moreover have "filter (\<lambda>i. \<not> vis ! i) [0..<?n] = filter (\<lambda>i. i \<notin> set ord) [0..<?n]"
    using inv by (auto simp: kahn_inv_def intro: filter_cong)
  ultimately show ?thesis
    using that g k by (simp add: ComputeStartOrder_def)
qed

lemma start_order_perm: "distinct (ComputeStartOrder ds) \<and> set (ComputeStartOrder ds) = {..<length ds}"
  by (rule start_order_parts[of ds]) (auto simp: kahn_inv_def)

lemma start_order_before:
  assumes "acyclic {(p, i). depends ds p i}"
    and "k < length (ComputeStartOrder ds)" and "depends ds p (ComputeStartOrder ds ! k)"
  shows "p \<in> set (take k (ComputeStartOrder ds))"
proof -
  let ?n = "length ds"
  obtain succs deg0 where g: "build_graph ds = (succs, deg0)" by force
  obtain ord deg vis rest where order: "ComputeStartOrder ds = ord @ rest"
    and inv: "kahn_inv ?n succs deg [] ord vis" and rest: "rest = filter (\<lambda>i. i \<notin> set ord) [0..<?n]"
    using start_order_parts[of ds] g by (metis fst_conv)
  have "finite {(p, i). depends ds p i}"
    by (rule finite_subset[of _ "{..<?n} \<times> {..<?n}"]) (auto dest: depends_less)
  then have wf: "wf {(p, i). depends ds p i}" using assms(1) by (rule finite_acyclic_wf)
  have "rest = []"
  proof (rule ccontr)
    assume "rest \<noteq> []"
    then obtain m where m: "m \<in> set rest" "\<And>p. depends ds p m \<Longrightarrow> p \<notin> set rest"
      using wfE_min[OF wf, of _ "set rest"] by (metis (mono_tags, lifting) case_prodI last_in_set mem_Collect_eq)
    then have "deg ! m \<noteq> 0" "m < ?n" using inv rest by (auto simp: kahn_inv_def)
    then obtain p where "p < ?n" "p \<notin> set ord" "m \<in> set (succs ! p)"
      using inv in_edges_0[of "{..<?n} - set ord" succs m] by (auto simp: kahn_inv_def)
    then show False using m(2)[of p] build_graph_spec(2)[OF g, of p] rest by auto
  qed
  then have "topo ?n succs (ComputeStartOrder ds)" using inv order by (simp add: kahn_inv_def)
  then show ?thesis
    using assms(2,3) build_graph_spec(2)[OF g, of p] depends_less[OF assms(3)] by (auto simp: topo_def)
qed

subsection \<open>Properties\<close>

text \<open>The start order names every registered module exactly once, whatever the declared
  dependencies are: with cycles or unknown interfaces no module is lost or repeated.\<close>

theorem start_order_complete:
  "distinct (ComputeStartOrder ds) \<and> set (ComputeStartOrder ds) = {..<length ds}"
  by (rule start_order_perm)

text \<open>When the declared dependencies have no cycle, every module comes after the providers
  of all the interfaces it declares to need.\<close>

theorem start_order_topological:
  assumes "acyclic {(p, i). depends ds p i}"
    and "k < length (ComputeStartOrder ds)" and "depends ds p (ComputeStartOrder ds ! k)"
  shows "p \<in> set (take k (ComputeStartOrder ds))"
  using assms by (rule start_order_before)

definition demo_iid :: "nat \<Rightarrow> interface_id" where
  "demo_iid n = \<lparr>m_nHigh = 0, m_nLow = of_nat n, m_strName = []\<rparr>"

text \<open>Registered first, but needs the service registered second.\<close>

definition demo_decls :: "decl list" where
  "demo_decls = [(demo_iid 1, [demo_iid 2, demo_iid 9]), (demo_iid 2, [])]"

lemma demo_depends: "depends demo_decls p i \<longleftrightarrow> p = 1 \<and> i = 0"
  by (auto simp: depends_def demo_decls_def demo_iid_def provider_def IsValid_def iid_key_def
      upt_rec numeral_2_eq_2 less_Suc_eq)

theorem start_order_topological_witness:
  "1 \<in> set (take 1 (ComputeStartOrder demo_decls))"
proof -
  have "ComputeStartOrder demo_decls = [1, 0]" by code_simp
  moreover have "acyclic {(p, i). depends demo_decls p i}"
    by (simp add: demo_depends acyclic_def) (auto elim: converse_tranclE)
  ultimately show ?thesis
    using start_order_topological[of demo_decls 1 1] by (simp add: demo_depends)
qed

text \<open>Modules that declare no dependencies are started in the order of their
  registration.\<close>

theorem start_order_default:
  assumes "\<forall>d\<in>set ds. snd d = []"
  shows "ComputeStartOrder ds = [0..<length ds]"
proof -
  let ?n = "length ds"
  have id: "fold (\<lambda>i. fold (add_dep m i) (snd (ds ! i))) is g = g" if "set is \<subseteq> {..<?n}" for m g "is"
    using that assms by (induction "is") auto
  have graph: "build_graph ds = (replicate ?n [], replicate ?n 0)"
    unfolding build_graph_def by (rule id) auto
  have run: "kahn (replicate ?n []) deg q ord vis = (ord @ q, fold (\<lambda>i v. v[i := True]) q vis)"
    if "set q \<subseteq> {..<?n}" for deg q ord vis
    using that by (induction q arbitrary: ord vis) auto
  have vis: "fold (\<lambda>i v. v[i := True]) is vis ! i = (vis ! i \<or> i \<in> set is)"
    if "length vis = ?n" "i < ?n" for i vis "is"
    using that
  proof (induction "is" arbitrary: vis)
    case (Cons a "is")
    then show ?case by (cases "a = i") auto
  qed simp
  have q: "filter (\<lambda>i. replicate ?n 0 ! i = (0::nat)) [0..<?n] = [0..<?n]" by (simp add: filter_id_conv)
  show ?thesis
    by (simp add: ComputeStartOrder_def graph q run vis lessThan_atLeast0)
qed

theorem start_order_default_witness:
  "ComputeStartOrder [(demo_iid 1, []), (demo_iid 2, []), (demo_iid 1, [])] = [0, 1, 2]"
  using start_order_default[of "[(demo_iid 1, []), (demo_iid 2, []), (demo_iid 1, [])]"] by simp

end
