(* ===== verification/ModuleManager.thy ===== *)
theory ModuleManager
  imports StartOrder
begin

text \<open>
  \<open>CModuleManager\<close> (\<open>src/ServerCore/Module/ModuleManager.cpp\<close>): the registry of modules
  by name and by interface, and the orchestration of their life cycle.  A module is a pointer;
  what the manager can learn about it through \<open>IModule\<close> is given by a table of objects that
  every operation takes: its name, its dependencies, its status text and the answers of its
  \<open>Initialize\<close> and \<open>Start\<close>, which may depend on everything that was called before.  The
  manager's state carries the calls it has made.
\<close>

datatype module_state = kCreated | kInitialized | kStarted | kStopped | kShutdown

datatype call =
    CallInitialize nat bool
  | CallStart nat bool
  | CallStop nat
  | CallShutdown nat
  | CallRelease nat

record module_obj =
  mod_name :: "string option"                       \<comment> \<open>\<open>GetName\<close>, possibly \<open>nullptr\<close>\<close>
  mod_is_cmodule :: bool                            \<comment> \<open>whether the \<open>dynamic_cast\<close> to \<open>CModule\<close> succeeds\<close>
  mod_own_state :: "call list \<Rightarrow> module_state"       \<comment> \<open>\<open>GetState\<close> of an implementation of its own\<close>
  mod_deps :: "interface_id list"
  mod_status :: "call list \<Rightarrow> string"
  mod_Initialize :: "call list \<Rightarrow> bool"
  mod_Start :: "call list \<Rightarrow> bool"

type_synonym objects = "nat \<Rightarrow> module_obj"

record entry =
  e_module :: nat
  e_iid :: interface_id

record manager =
  m_vecModules :: "entry list"
  m_mapIndexByName :: "(string, nat) smap"
  m_mapIndexByIid :: "((u64 \<times> u64) \<times> nat) list"
  m_states :: "nat \<Rightarrow> module_state"                 \<comment> \<open>\<open>CModule::m_state\<close> of each object\<close>
  m_calls :: "call list"

definition CModuleManager :: manager where
  "CModuleManager = \<lparr>m_vecModules = [], m_mapIndexByName = [], m_mapIndexByIid = [],
     m_states = (\<lambda>_. kCreated), m_calls = []\<rparr>"

definition log_call :: "call \<Rightarrow> manager \<Rightarrow> manager" where
  "log_call c st = st\<lparr>m_calls := m_calls st @ [c]\<rparr>"

definition GetState :: "objects \<Rightarrow> manager \<Rightarrow> nat \<Rightarrow> module_state" where
  "GetState objs st p =
     (if mod_is_cmodule (objs p) then m_states st p else mod_own_state (objs p) (m_calls st))"

definition SetModuleState :: "objects \<Rightarrow> nat \<Rightarrow> module_state \<Rightarrow> manager \<Rightarrow> manager" where
  "SetModuleState objs p s st =
     (if mod_is_cmodule (objs p) then st\<lparr>m_states := (m_states st)(p := s)\<rparr> else st)"

subsection \<open>Registration and lookup\<close>

text \<open>\<open>None\<close> is the null pointer.\<close>

definition RegisterModule :: "objects \<Rightarrow> nat option \<Rightarrow> manager \<Rightarrow> bool \<times> manager" where
  "RegisterModule objs pModule st =
     (case pModule of
        None \<Rightarrow> (False, st)
      | Some p \<Rightarrow>
          (case mod_name (objs p) of
             None \<Rightarrow> (False, log_call (CallRelease p) st)
           | Some strName \<Rightarrow>
               if strName = [] then (False, log_call (CallRelease p) st)
               else if sm_find (m_mapIndexByName st) strName \<noteq> None
               then (False, log_call (CallRelease p) st)
               else (True, st\<lparr>m_mapIndexByName :=
                              sm_put strName (length (m_vecModules st)) (m_mapIndexByName st),
                            m_vecModules := m_vecModules st @ [\<lparr>e_module = p, e_iid = NoInterfaceId\<rparr>]\<rparr>)))"

definition RegisterModuleIid :: "interface_id \<Rightarrow> nat option \<Rightarrow> manager \<Rightarrow> bool \<times> manager" where
  "RegisterModuleIid iid pModule st =
     (case pModule of
        None \<Rightarrow> (False, st)
      | Some p \<Rightarrow>
          if \<not> IsValid iid then (False, st)
          else (True, st\<lparr>m_mapIndexByIid :=
                         mm_insert (iid_key iid) (length (m_vecModules st)) (m_mapIndexByIid st),
                       m_vecModules := m_vecModules st @ [\<lparr>e_module = p, e_iid = iid\<rparr>]\<rparr>))"

definition GetModule :: "string \<Rightarrow> manager \<Rightarrow> nat option" where
  "GetModule strName st =
     (case sm_find (m_mapIndexByName st) strName of
        None \<Rightarrow> None
      | Some i \<Rightarrow> Some (e_module (m_vecModules st ! i)))"

definition GetModuleByIid :: "interface_id \<Rightarrow> manager \<Rightarrow> nat option" where
  "GetModuleByIid iid st =
     (if \<not> IsValid iid then None
      else (case mm_find (m_mapIndexByIid st) (iid_key iid) of
              None \<Rightarrow> None
            | Some i \<Rightarrow> Some (e_module (m_vecModules st ! i))))"

definition GetModulesByIid :: "interface_id \<Rightarrow> manager \<Rightarrow> nat list" where
  "GetModulesByIid iid st =
     (if \<not> IsValid iid then []
      else map (\<lambda>i. e_module (m_vecModules st ! i)) (mm_range (iid_key iid) (m_mapIndexByIid st)))"

definition ModuleCountByIid :: "interface_id \<Rightarrow> manager \<Rightarrow> nat" where
  "ModuleCountByIid iid st = length (GetModulesByIid iid st)"

definition GetModuleState :: "objects \<Rightarrow> string \<Rightarrow> manager \<Rightarrow> module_state" where
  "GetModuleState objs strName st =
     (case sm_find (m_mapIndexByName st) strName of
        None \<Rightarrow> kCreated
      | Some i \<Rightarrow> GetState objs st (e_module (m_vecModules st ! i)))"

definition HasModule :: "string \<Rightarrow> manager \<Rightarrow> bool" where
  "HasModule strName st \<longleftrightarrow> GetModule strName st \<noteq> None"

definition HasModuleByIid :: "interface_id \<Rightarrow> manager \<Rightarrow> bool" where
  "HasModuleByIid iid st \<longleftrightarrow> GetModuleByIid iid st \<noteq> None"

text \<open>After an erase both indices are rebuilt from the vector.\<close>

definition index_entry :: "objects \<Rightarrow> entry list \<Rightarrow> nat \<Rightarrow>
    (string, nat) smap \<times> ((u64 \<times> u64) \<times> nat) list \<Rightarrow> (string, nat) smap \<times> ((u64 \<times> u64) \<times> nat) list" where
  "index_entry objs vec i = (\<lambda>(byName, byIid).
     let e = vec ! i
     in if IsValid (e_iid e) then (byName, mm_insert (iid_key (e_iid e)) i byIid)
        else (case mod_name (objs (e_module e)) of
                None \<Rightarrow> (byName, byIid)
              | Some n \<Rightarrow> if n = [] then (byName, byIid) else (sm_put n i byName, byIid)))"

definition rebuild_index :: "objects \<Rightarrow> manager \<Rightarrow> manager" where
  "rebuild_index objs st =
     (let vec = m_vecModules st;
          (byName, byIid) = fold (index_entry objs vec) [0..<length vec] ([], [])
      in st\<lparr>m_mapIndexByName := byName, m_mapIndexByIid := byIid\<rparr>)"

definition erase_at :: "nat \<Rightarrow> 'a list \<Rightarrow> 'a list" where
  "erase_at i xs = take i xs @ drop (Suc i) xs"

definition erase_module :: "objects \<Rightarrow> nat \<Rightarrow> manager \<Rightarrow> manager" where
  "erase_module objs nIndex st =
     log_call (CallRelease (e_module (m_vecModules st ! nIndex)))
       (rebuild_index objs (st\<lparr>m_vecModules := erase_at nIndex (m_vecModules st)\<rparr>))"

definition UnregisterModule :: "objects \<Rightarrow> string \<Rightarrow> manager \<Rightarrow> bool \<times> manager" where
  "UnregisterModule objs strName st =
     (case sm_find (m_mapIndexByName st) strName of
        None \<Rightarrow> (False, st)
      | Some nIndex \<Rightarrow> (True, erase_module objs nIndex st))"

definition UnregisterModuleByIid :: "objects \<Rightarrow> interface_id \<Rightarrow> manager \<Rightarrow> bool \<times> manager" where
  "UnregisterModuleByIid objs iid st =
     (if \<not> IsValid iid then (False, st)
      else (case mm_find (m_mapIndexByIid st) (iid_key iid) of
              None \<Rightarrow> (False, st)
            | Some nIndex \<Rightarrow> (True, erase_module objs nIndex st)))"

text \<open>\<open>Clear\<close> empties the tables under the lock and releases the modules afterwards.\<close>

definition Clear :: "manager \<Rightarrow> manager" where
  "Clear st = fold (\<lambda>e. log_call (CallRelease (e_module e))) (m_vecModules st)
     (st\<lparr>m_vecModules := [], m_mapIndexByName := [], m_mapIndexByIid := []\<rparr>)"

definition Size :: "manager \<Rightarrow> nat" where
  "Size st = length (m_vecModules st)"

subsection \<open>Life cycle\<close>

definition start_order :: "objects \<Rightarrow> manager \<Rightarrow> nat list" where
  "start_order objs st =
     ComputeStartOrder (map (\<lambda>e. (e_iid e, mod_deps (objs (e_module e)))) (m_vecModules st))"

text \<open>The modules in reverse order of registration.\<close>

definition backwards :: "manager \<Rightarrow> nat list" where
  "backwards st = rev (map e_module (m_vecModules st))"

definition stop_one :: "objects \<Rightarrow> nat \<Rightarrow> manager \<Rightarrow> manager" where
  "stop_one objs p st =
     (if GetState objs st p = kStarted
      then SetModuleState objs p kStopped (log_call (CallStop p) st) else st)"

definition shutdown_one :: "objects \<Rightarrow> module_state set \<Rightarrow> nat \<Rightarrow> manager \<Rightarrow> manager" where
  "shutdown_one objs from p st =
     (if GetState objs st p \<in> from
      then SetModuleState objs p kShutdown (log_call (CallShutdown p) st) else st)"

definition RollbackInitialized :: "objects \<Rightarrow> manager \<Rightarrow> manager" where
  "RollbackInitialized objs st = fold (shutdown_one objs {kInitialized}) (backwards st) st"

definition RollbackStarted :: "objects \<Rightarrow> manager \<Rightarrow> manager" where
  "RollbackStarted objs st =
     fold (shutdown_one objs {kInitialized, kStopped}) (backwards st)
       (fold (stop_one objs) (backwards st) st)"

fun initialize_loop :: "objects \<Rightarrow> nat list \<Rightarrow> manager \<Rightarrow> bool \<times> manager" where
  "initialize_loop objs [] st = (True, st)"
| "initialize_loop objs (i # vecOrder) st =
     (let p = e_module (m_vecModules st ! i)
      in if GetState objs st p \<noteq> kCreated then initialize_loop objs vecOrder st
         else let ok = mod_Initialize (objs p) (m_calls st);
                  st1 = log_call (CallInitialize p ok) st
              in if \<not> ok then (False, RollbackInitialized objs st1)
                 else initialize_loop objs vecOrder (SetModuleState objs p kInitialized st1))"

definition InitializeAll :: "objects \<Rightarrow> manager \<Rightarrow> bool \<times> manager" where
  "InitializeAll objs st = initialize_loop objs (start_order objs st) st"

fun start_loop :: "objects \<Rightarrow> nat list \<Rightarrow> manager \<Rightarrow> bool \<times> manager" where
  "start_loop objs [] st = (True, st)"
| "start_loop objs (i # vecOrder) st =
     (let p = e_module (m_vecModules st ! i)
      in if GetState objs st p \<noteq> kInitialized then start_loop objs vecOrder st
         else let ok = mod_Start (objs p) (m_calls st);
                  st1 = log_call (CallStart p ok) st
              in if \<not> ok then (False, RollbackStarted objs st1)
                 else start_loop objs vecOrder (SetModuleState objs p kStarted st1))"

definition StartAll :: "objects \<Rightarrow> manager \<Rightarrow> bool \<times> manager" where
  "StartAll objs st = start_loop objs (start_order objs st) st"

definition StopAll :: "objects \<Rightarrow> manager \<Rightarrow> manager" where
  "StopAll objs st = fold (stop_one objs) (backwards st) st"

definition ShutdownAll :: "objects \<Rightarrow> manager \<Rightarrow> manager" where
  "ShutdownAll objs st = fold (shutdown_one objs {kInitialized, kStarted, kStopped}) (backwards st) st"

text \<open>The variants with a time limit read the clock before each module: \<open>elapsed k\<close> is the
  number of milliseconds since the start at the \<open>k\<close>-th reading.\<close>

fun timed_loop :: "(nat \<Rightarrow> call) \<Rightarrow> (nat \<Rightarrow> nat) \<Rightarrow> u32 \<Rightarrow> nat \<Rightarrow> nat list \<Rightarrow> manager \<Rightarrow> bool \<times> manager" where
  "timed_loop mk elapsed nTimeoutMs k [] st = (True, st)"
| "timed_loop mk elapsed nTimeoutMs k (p # ps) st =
     (if elapsed k \<ge> unat nTimeoutMs then (False, st)
      else timed_loop mk elapsed nTimeoutMs (Suc k) ps (log_call (mk p) st))"

definition StopAllWithTimeout :: "(nat \<Rightarrow> nat) \<Rightarrow> u32 \<Rightarrow> manager \<Rightarrow> bool \<times> manager" where
  "StopAllWithTimeout elapsed nTimeoutMs st =
     timed_loop CallStop elapsed nTimeoutMs 0 (backwards st) st"

definition ShutdownAllWithTimeout :: "(nat \<Rightarrow> nat) \<Rightarrow> u32 \<Rightarrow> manager \<Rightarrow> bool \<times> manager" where
  "ShutdownAllWithTimeout elapsed nTimeoutMs st =
     timed_loop CallShutdown elapsed nTimeoutMs 0 (backwards st) st"

subsection \<open>Reports\<close>

record module_snapshot =
  strName :: string
  strIid :: string
  snap_state :: module_state
  strStatus :: string

definition Snapshot :: "objects \<Rightarrow> manager \<Rightarrow> module_snapshot list" where
  "Snapshot objs st = map (\<lambda>e.
     \<lparr>strName = (case mod_name (objs (e_module e)) of None \<Rightarrow> [] | Some n \<Rightarrow> n),
      strIid = m_strName (e_iid e),
      snap_state = GetState objs st (e_module e),
      strStatus = mod_status (objs (e_module e)) (m_calls st)\<rparr>) (m_vecModules st)"

definition StatusReport :: "objects \<Rightarrow> manager \<Rightarrow> string" where
  "StatusReport objs st =
     fold (\<lambda>e strReport. (if strReport \<noteq> [] then strReport @ [CHR 0x0A] else strReport)
                        @ mod_status (objs (e_module e)) (m_calls st)) (m_vecModules st) []"


subsection \<open>Runs of the manager\<close>

datatype mgr_op =
    OpRegister "nat option"
  | OpRegisterIid interface_id "nat option"
  | OpUnregister string
  | OpUnregisterIid interface_id
  | OpClear
  | OpInitializeAll
  | OpStartAll
  | OpStopAll
  | OpShutdownAll
  | OpStopAllWithTimeout "nat \<Rightarrow> nat" u32        \<comment> \<open>the clock's readings and the limit\<close>
  | OpShutdownAllWithTimeout "nat \<Rightarrow> nat" u32

fun mgr_step :: "objects \<Rightarrow> mgr_op \<Rightarrow> manager \<Rightarrow> manager" where
  "mgr_step objs (OpRegister p) st = snd (RegisterModule objs p st)"
| "mgr_step objs (OpRegisterIid iid p) st = snd (RegisterModuleIid iid p st)"
| "mgr_step objs (OpUnregister n) st = snd (UnregisterModule objs n st)"
| "mgr_step objs (OpUnregisterIid iid) st = snd (UnregisterModuleByIid objs iid st)"
| "mgr_step objs OpClear st = Clear st"
| "mgr_step objs OpInitializeAll st = snd (InitializeAll objs st)"
| "mgr_step objs OpStartAll st = snd (StartAll objs st)"
| "mgr_step objs OpStopAll st = StopAll objs st"
| "mgr_step objs OpShutdownAll st = ShutdownAll objs st"
| "mgr_step objs (OpStopAllWithTimeout elapsed t) st = snd (StopAllWithTimeout elapsed t st)"
| "mgr_step objs (OpShutdownAllWithTimeout elapsed t) st = snd (ShutdownAllWithTimeout elapsed t st)"

definition mgr_run :: "objects \<Rightarrow> mgr_op list \<Rightarrow> manager" where
  "mgr_run objs ops = fold (mgr_step objs) ops CModuleManager"

text \<open>The life-cycle operations leave the tables alone; what else they do is built from calls
  and state changes of single modules.\<close>

definition same_tables :: "manager \<Rightarrow> manager \<Rightarrow> bool" where
  "same_tables st st' \<longleftrightarrow> m_vecModules st' = m_vecModules st
     \<and> m_mapIndexByName st' = m_mapIndexByName st \<and> m_mapIndexByIid st' = m_mapIndexByIid st"

lemma same_tables_refl [simp]: "same_tables st st"
  by (simp add: same_tables_def)

lemma same_tables_trans [trans]: "same_tables a b \<Longrightarrow> same_tables b c \<Longrightarrow> same_tables a c"
  by (simp add: same_tables_def)

lemma same_tables_fold: "(\<And>x st. same_tables st (f x st)) \<Longrightarrow> same_tables st (fold f xs st)"
  by (induction xs arbitrary: st) (auto intro: same_tables_trans)

lemma same_tables_log [simp]: "same_tables st (log_call c st)"
  by (simp add: same_tables_def log_call_def)

lemma same_tables_set [simp]: "same_tables st (SetModuleState objs p s st)"
  by (simp add: same_tables_def SetModuleState_def)

lemma same_tables_one [simp]:
  "same_tables st (stop_one objs p st)" "same_tables st (shutdown_one objs from p st)"
  by (simp_all add: stop_one_def shutdown_one_def same_tables_def SetModuleState_def log_call_def)

lemma same_tables_loops [simp]:
  "same_tables st (StopAll objs st)" "same_tables st (ShutdownAll objs st)"
  "same_tables st (RollbackInitialized objs st)" "same_tables st (RollbackStarted objs st)"
  unfolding StopAll_def ShutdownAll_def RollbackInitialized_def RollbackStarted_def
  by (intro same_tables_fold same_tables_one same_tables_trans[OF same_tables_fold same_tables_fold])+

lemma same_tables_initialize: "same_tables st (snd (initialize_loop objs is st))"
proof (induction objs "is" st rule: initialize_loop.induct)
  case (2 objs i "is" st)
  let ?p = "e_module (m_vecModules st ! i)" and ?ok = "mod_Initialize (objs (e_module (m_vecModules st ! i))) (m_calls st)"
  let ?st = "log_call (CallInitialize ?p ?ok) st"
  have "same_tables st (RollbackInitialized objs ?st)" "same_tables st (SetModuleState objs ?p kInitialized ?st)"
    by (rule same_tables_trans[OF same_tables_log same_tables_loops(3)],
        rule same_tables_trans[OF same_tables_log same_tables_set])
  with 2 show ?case by (auto simp: Let_def intro: same_tables_trans)
qed simp

lemma same_tables_start: "same_tables st (snd (start_loop objs is st))"
proof (induction objs "is" st rule: start_loop.induct)
  case (2 objs i "is" st)
  let ?p = "e_module (m_vecModules st ! i)" and ?ok = "mod_Start (objs (e_module (m_vecModules st ! i))) (m_calls st)"
  let ?st = "log_call (CallStart ?p ?ok) st"
  have "same_tables st (RollbackStarted objs ?st)" "same_tables st (SetModuleState objs ?p kStarted ?st)"
    by (rule same_tables_trans[OF same_tables_log same_tables_loops(4)],
        rule same_tables_trans[OF same_tables_log same_tables_set])
  with 2 show ?case by (auto simp: Let_def intro: same_tables_trans)
qed simp

lemma same_tables_timed: "same_tables st (snd (timed_loop mk elapsed t k ps st))"
proof (induction mk elapsed t k ps st rule: timed_loop.induct)
  case (2 mk elapsed t k p ps st)
  then show ?case using same_tables_trans[OF same_tables_log] by auto
qed simp

lemma same_tables_timeouts [simp]:
  "same_tables st (snd (StopAllWithTimeout elapsed t st))" "same_tables st (snd (ShutdownAllWithTimeout elapsed t st))"
  by (simp_all add: StopAllWithTimeout_def ShutdownAllWithTimeout_def same_tables_timed)

subsection \<open>Consistency of the indices\<close>

definition nm :: "objects \<Rightarrow> entry \<Rightarrow> string option" where
  "nm objs e = (if IsValid (e_iid e) then None else mod_name (objs (e_module e)))"

definition vec_ok :: "objects \<Rightarrow> entry list \<Rightarrow> bool" where
  "vec_ok objs vec \<longleftrightarrow> distinct (map (nm objs) (filter (\<lambda>e. \<not> IsValid (e_iid e)) vec))
     \<and> (\<forall>e\<in>set vec. \<not> IsValid (e_iid e) \<longrightarrow> (\<exists>n. n \<noteq> [] \<and> nm objs e = Some n))"

definition has_key :: "u64 \<times> u64 \<Rightarrow> entry \<Rightarrow> bool" where
  "has_key k e \<longleftrightarrow> IsValid (e_iid e) \<and> iid_key (e_iid e) = k"

definition indexed :: "objects \<Rightarrow> entry list \<Rightarrow> (string, nat) smap \<times> ((u64 \<times> u64) \<times> nat) list \<Rightarrow> bool" where
  "indexed objs vec ix \<longleftrightarrow> sm_ok (fst ix) \<and> mm_ok (snd ix)
     \<and> (\<forall>n i. sm_find (fst ix) n = Some i \<longleftrightarrow> i < length vec \<and> nm objs (vec ! i) = Some n)
     \<and> (\<forall>k. mm_range k (snd ix) = filter (\<lambda>i. has_key k (vec ! i)) [0..<length vec])"

definition mgr_inv :: "objects \<Rightarrow> manager \<Rightarrow> bool" where
  "mgr_inv objs st \<longleftrightarrow> vec_ok objs (m_vecModules st)
     \<and> indexed objs (m_vecModules st) (m_mapIndexByName st, m_mapIndexByIid st)"

lemma indexed_Nil: "indexed objs [] ([], [])"
  by (simp add: indexed_def mm_ok_def)

lemma filter_index_snoc:
  "filter (\<lambda>i. P ((vec @ [e]) ! i)) [0..<length (vec @ [e])] =
   filter (\<lambda>i. P (vec ! i)) [0..<length vec] @ (if P e then [length vec] else [])"
  by (auto simp: nth_append intro: filter_cong)

lemma indexed_snoc:
  assumes ix: "indexed objs vec (bn, bi)" and ok: "vec_ok objs (vec @ [e])"
  shows "indexed objs (vec @ [e]) (index_entry objs (vec @ [e]) (length vec) (bn, bi))"
proof (cases "IsValid (e_iid e)")
  case True
  then have "nm objs e = None" by (simp add: nm_def)
  with True ix show ?thesis
    unfolding indexed_def filter_index_snoc
    by (auto simp: index_entry_def nth_append mm_ok_insert mm_range_insert has_key_def less_Suc_eq
        simp del: split_paired_All)
next
  case False
  then obtain n where n: "n \<noteq> []" "nm objs e = Some n" using ok by (auto simp: vec_ok_def)
  then have name: "mod_name (objs (e_module e)) = Some n" using False by (simp add: nm_def)
  have fresh: "nm objs (vec ! i) \<noteq> Some n" if "i < length vec" for i
  proof
    assume eq: "nm objs (vec ! i) = Some n"
    then have "\<not> IsValid (e_iid (vec ! i))" by (auto simp: nm_def)
    then have "Some n \<in> set (map (nm objs) (filter (\<lambda>e. \<not> IsValid (e_iid e)) vec))"
      using eq that by force
    then show False using ok False n(2) by (auto simp: vec_ok_def)
  qed
  show ?thesis
    using ix n name False fresh
    unfolding indexed_def filter_index_snoc
    by (auto simp: index_entry_def nth_append has_key_def less_Suc_eq)
qed

lemma vec_ok_append: "vec_ok objs (vec @ vec') \<Longrightarrow> vec_ok objs vec"
  by (auto simp: vec_ok_def)

lemma vec_ok_erase: "vec_ok objs vec \<Longrightarrow> vec_ok objs (erase_at i vec)"
proof -
  assume ok: "vec_ok objs vec"
  let ?f = "filter (\<lambda>e. \<not> IsValid (e_iid e))"
  have "distinct (map (nm objs) (?f (take i vec @ drop i vec)))"
    using ok by (simp add: vec_ok_def)
  moreover have "set (drop (Suc i) vec) \<subseteq> set (drop i vec)"
    by (rule set_drop_subset_set_drop) simp
  moreover have "drop (Suc i) vec = drop 1 (drop i vec)" by simp
  ultimately have "distinct (map (nm objs) (?f (erase_at i vec)))"
    unfolding erase_at_def by (cases "drop i vec") (auto split: if_splits)
  then show ?thesis
    using ok by (auto simp: vec_ok_def erase_at_def dest: in_set_takeD in_set_dropD)
qed

lemma rebuild_indexed:
  "vec_ok objs vec \<Longrightarrow> indexed objs vec (fold (index_entry objs vec) [0..<length vec] ([], []))"
proof (induction vec rule: rev_induct)
  case (snoc e vec)
  let ?ix = "fold (index_entry objs vec) [0..<length vec] ([], [])"
  have "fold (index_entry objs (vec @ [e])) [0..<length vec] ([], []) = ?ix"
    by (rule fold_cong) (auto simp: index_entry_def nth_append)
  moreover have "indexed objs vec (fst ?ix, snd ?ix)"
    using snoc.IH[OF vec_ok_append[OF snoc.prems]] by simp
  ultimately show ?case
    using indexed_snoc[of objs vec "fst ?ix" "snd ?ix" e] snoc.prems by simp
qed (simp add: indexed_Nil)

lemma mgr_inv_tables: "mgr_inv objs st \<Longrightarrow> same_tables st st' \<Longrightarrow> mgr_inv objs st'"
  by (simp add: mgr_inv_def same_tables_def)

lemma mgr_inv_RegisterModule: "mgr_inv objs st \<Longrightarrow> mgr_inv objs (snd (RegisterModule objs p st))"
proof -
  assume inv: "mgr_inv objs st"
  have "mgr_inv objs (snd (RegisterModule objs (Some p) st))" for p
  proof (cases "\<exists>n. mod_name (objs p) = Some n \<and> n \<noteq> [] \<and> sm_find (m_mapIndexByName st) n = None")
    case True
    then obtain n where n: "mod_name (objs p) = Some n" "n \<noteq> []" "sm_find (m_mapIndexByName st) n = None"
      by blast
    let ?e = "\<lparr>e_module = p, e_iid = NoInterfaceId\<rparr>" and ?vec = "m_vecModules st"
    have bad: "\<not> IsValid NoInterfaceId" by (simp add: IsValid_def NoInterfaceId_def)
    have "\<forall>i<length ?vec. nm objs (?vec ! i) \<noteq> Some n"
    proof (intro allI impI notI)
      fix i
      assume "i < length ?vec" "nm objs (?vec ! i) = Some n"
      then have "sm_find (m_mapIndexByName st) n = Some i" using inv by (simp add: mgr_inv_def indexed_def)
      then show False using n(3) by simp
    qed
    then have "Some n \<notin> nm objs ` set ?vec" by (auto simp: in_set_conv_nth)
    then have ok: "vec_ok objs (?vec @ [?e])"
      using inv n bad by (auto simp: mgr_inv_def vec_ok_def nm_def)
    from inv indexed_snoc[OF _ ok] n bad ok show ?thesis
      by (simp add: RegisterModule_def mgr_inv_def index_entry_def)
  qed (use inv in \<open>auto simp: RegisterModule_def log_call_def mgr_inv_def split: option.split\<close>)
  then show ?thesis using inv by (cases p) (simp_all add: RegisterModule_def)
qed

lemma mgr_inv_RegisterModuleIid: "mgr_inv objs st \<Longrightarrow> mgr_inv objs (snd (RegisterModuleIid iid p st))"
proof -
  assume inv: "mgr_inv objs st"
  have ok: "IsValid iid \<Longrightarrow> vec_ok objs (m_vecModules st @ [\<lparr>e_module = q, e_iid = iid\<rparr>])" for q
    using inv by (auto simp: mgr_inv_def vec_ok_def)
  show ?thesis
    using inv ok indexed_snoc[OF _ ok] by (auto simp: RegisterModuleIid_def mgr_inv_def index_entry_def split: option.split)
qed

lemma mgr_inv_erase:
  assumes "mgr_inv objs st"
  shows "mgr_inv objs (erase_module objs i st)"
proof -
  let ?vec = "erase_at i (m_vecModules st)"
  obtain bn bi where ix: "fold (index_entry objs ?vec) [0..<length ?vec] ([], []) = (bn, bi)" by force
  have ok: "vec_ok objs ?vec" using assms vec_ok_erase by (simp add: mgr_inv_def)
  then have "indexed objs ?vec (bn, bi)" using rebuild_indexed[of objs ?vec] ix by simp
  then show ?thesis
    using ok ix by (simp add: mgr_inv_def erase_module_def rebuild_index_def log_call_def Let_def)
qed

lemma fold_log_tables:
  "m_vecModules (fold (\<lambda>e. log_call (f e)) es st) = m_vecModules st"
  "m_mapIndexByName (fold (\<lambda>e. log_call (f e)) es st) = m_mapIndexByName st"
  "m_mapIndexByIid (fold (\<lambda>e. log_call (f e)) es st) = m_mapIndexByIid st"
  "m_states (fold (\<lambda>e. log_call (f e)) es st) = m_states st"
  "m_calls (fold (\<lambda>e. log_call (f e)) es st) = m_calls st @ map f es"
  by (induction es arbitrary: st) (auto simp: log_call_def)

lemma mgr_inv_step: "mgr_inv objs st \<Longrightarrow> mgr_inv objs (mgr_step objs op st)"
proof (cases op)
  case OpClear
  then show ?thesis
    by (simp add: mgr_inv_def Clear_def fold_log_tables indexed_Nil vec_ok_def)
next
  case OpInitializeAll
  assume "mgr_inv objs st"
  then show ?thesis using OpInitializeAll mgr_inv_tables same_tables_initialize by (simp add: InitializeAll_def)
next
  case OpStartAll
  assume "mgr_inv objs st"
  then show ?thesis using OpStartAll mgr_inv_tables same_tables_start by (simp add: StartAll_def)
qed (auto intro: mgr_inv_RegisterModule mgr_inv_RegisterModuleIid mgr_inv_erase mgr_inv_tables
      simp: UnregisterModule_def UnregisterModuleByIid_def split: option.split)

lemma mgr_inv_run: "mgr_inv objs (mgr_run objs ops)"
proof -
  have "mgr_inv objs st \<Longrightarrow> mgr_inv objs (fold (mgr_step objs) ops st)" for st
    by (induction ops arbitrary: st) (auto intro: mgr_inv_step)
  moreover have "mgr_inv objs CModuleManager"
    by (simp add: CModuleManager_def mgr_inv_def indexed_Nil vec_ok_def)
  ultimately show ?thesis by (simp add: mgr_run_def)
qed


text \<open>What the indices answer, in terms of the vector.\<close>

lemma mm_range_modules:
  assumes "indexed objs vec (bn, bi)"
  shows "map (\<lambda>i. e_module (vec ! i)) (mm_range k bi) = map e_module (filter (has_key k) vec)"
proof -
  have "map (\<lambda>i. e_module (vec ! i)) (filter (\<lambda>i. has_key k (vec ! i)) [0..<length vec]) =
      map e_module (filter (has_key k) (map (\<lambda>i. vec ! i) [0..<length vec]))"
    by (simp add: filter_map comp_def)
  then show ?thesis using assms by (simp add: indexed_def map_nth del: split_paired_All)
qed

lemma find_named:
  assumes "indexed objs vec (bn, bi)"
  shows "map_option (\<lambda>i. vec ! i) (sm_find bn n) = List.find (\<lambda>e. nm objs e = Some n) vec"
proof (cases "sm_find bn n")
  case None
  have "nm objs (vec ! i) \<noteq> Some n" if "i < length vec" for i
  proof
    assume "nm objs (vec ! i) = Some n"
    then have "sm_find bn n = Some i" using assms that by (simp add: indexed_def)
    then show False using None by simp
  qed
  then have "\<forall>e\<in>set vec. nm objs e \<noteq> Some n" by (auto simp: in_set_conv_nth)
  then have "List.find (\<lambda>e. nm objs e = Some n) vec = None" by (auto simp: find_None_iff)
  then show ?thesis using None by simp
next
  case (Some i)
  then have i: "i < length vec" "nm objs (vec ! i) = Some n" using assms by (auto simp: indexed_def)
  have "nm objs (vec ! j) \<noteq> Some n" if "j < i" for j
  proof
    assume "nm objs (vec ! j) = Some n"
    then have "sm_find bn n = Some j" using assms that i(1) by (simp add: indexed_def)
    then show False using Some that by simp
  qed
  then have "List.find (\<lambda>e. nm objs e = Some n) vec = Some (vec ! i)"
    unfolding find_Some_iff using i by (intro exI[of _ i]) simp
  then show ?thesis using Some by simp
qed

subsection \<open>Ownership of the modules\<close>

definition releases :: "nat \<Rightarrow> manager \<Rightarrow> nat" where
  "releases p st = count_list (m_calls st) (CallRelease p)"

definition owned :: "nat \<Rightarrow> manager \<Rightarrow> nat" where
  "owned p st = count_list (map e_module (m_vecModules st)) p"

text \<open>How often a module was handed over to the manager.\<close>

fun handed :: "nat \<Rightarrow> mgr_op \<Rightarrow> nat" where
  "handed p (OpRegister q) = (if q = Some p then 1 else 0)"
| "handed p (OpRegisterIid iid q) = (if q = Some p then 1 else 0)"
| "handed p _ = 0"

text \<open>How often an operation loses a module: a registration under an invalid interface identifier
  returns without keeping or releasing it.\<close>

fun lost :: "nat \<Rightarrow> mgr_op \<Rightarrow> nat" where
  "lost p (OpRegisterIid iid q) = (if q = Some p \<and> \<not> IsValid iid then 1 else 0)"
| "lost p _ = 0"

definition owed :: "nat \<Rightarrow> manager \<Rightarrow> nat" where
  "owed p st = releases p st + owned p st"

text \<open>The life-cycle operations release nothing.\<close>

lemma count_map_Release: "count_list (map (\<lambda>e. CallRelease (e_module e)) es) (CallRelease p) = count_list (map e_module es) p"
  by (induction es) auto

lemma owed_log: "owed p (log_call c st) = owed p st + (if c = CallRelease p then 1 else 0)"
  by (simp add: owed_def owned_def releases_def log_call_def)

lemma owed_set [simp]: "owed p (SetModuleState objs q s st) = owed p st"
  by (simp add: owed_def owned_def releases_def SetModuleState_def)

lemma owed_one [simp]:
  "owed p (stop_one objs q st) = owed p st" "owed p (shutdown_one objs from q st) = owed p st"
  by (simp_all add: stop_one_def shutdown_one_def owed_log)

lemma owed_fold: "(\<And>x st. owed p (f x st) = owed p st) \<Longrightarrow> owed p (fold f xs st) = owed p st"
  by (induction xs arbitrary: st) auto

lemma owed_loops [simp]:
  "owed p (StopAll objs st) = owed p st" "owed p (ShutdownAll objs st) = owed p st"
  "owed p (RollbackInitialized objs st) = owed p st" "owed p (RollbackStarted objs st) = owed p st"
  by (simp_all add: StopAll_def ShutdownAll_def RollbackInitialized_def RollbackStarted_def owed_fold)

lemma owed_initialize [simp]: "owed p (snd (initialize_loop objs is st)) = owed p st"
  by (induction objs "is" st rule: initialize_loop.induct) (auto simp: Let_def owed_log)

lemma owed_start [simp]: "owed p (snd (start_loop objs is st)) = owed p st"
  by (induction objs "is" st rule: start_loop.induct) (auto simp: Let_def owed_log)

lemma owed_timed: "(\<And>q. mk q \<noteq> CallRelease p) \<Longrightarrow>
    owed p (snd (timed_loop mk elapsed t k ps st)) = owed p st"
  by (induction mk elapsed t k ps st rule: timed_loop.induct) (simp_all add: owed_log)

lemma owed_timeouts [simp]:
  "owed p (snd (StopAllWithTimeout elapsed t st)) = owed p st"
  "owed p (snd (ShutdownAllWithTimeout elapsed t st)) = owed p st"
  by (simp_all add: StopAllWithTimeout_def ShutdownAllWithTimeout_def owed_timed)

lemma rebuild_index_fields [simp]:
  "m_vecModules (rebuild_index objs st) = m_vecModules st"
  "m_calls (rebuild_index objs st) = m_calls st" "m_states (rebuild_index objs st) = m_states st"
  by (simp_all add: rebuild_index_def Let_def split: prod.split)

lemma owed_erase:
  assumes "i < length (m_vecModules st)"
  shows "owed p (erase_module objs i st) = owed p st"
proof -
  let ?vec = "m_vecModules st"
  have "count_list (map e_module ?vec) p =
      count_list (map e_module (take i ?vec @ ?vec ! i # drop (Suc i) ?vec)) p"
    using id_take_nth_drop[OF assms] by simp
  then show ?thesis
    by (simp add: erase_module_def owed_log) (simp add: owed_def owned_def releases_def erase_at_def)
qed

lemma owed_step:
  assumes "mgr_inv objs st"
  shows "owed p (mgr_step objs op st) + lost p op = owed p st + handed p op"
proof (cases op)
  case (OpRegister q)
  then show ?thesis
    by (cases q) (auto simp: RegisterModule_def owed_log split: option.split,
        auto simp: owed_def owned_def releases_def)
next
  case (OpRegisterIid iid q)
  then show ?thesis
    by (cases q) (auto simp: RegisterModuleIid_def owed_def owned_def releases_def)
next
  case (OpUnregister n)
  have "i < length (m_vecModules st)" if "sm_find (m_mapIndexByName st) n = Some i" for i
    using assms that by (auto simp: mgr_inv_def indexed_def)
  with OpUnregister show ?thesis
    by (auto simp: UnregisterModule_def owed_erase split: option.split)
next
  case (OpUnregisterIid iid)
  have "i < length (m_vecModules st)" if "mm_find (m_mapIndexByIid st) k = Some i" for i k
  proof -
    have "i \<in> set (mm_range k (m_mapIndexByIid st))"
      using that by (auto simp: mm_find_range split: list.splits)
    then show ?thesis using assms by (auto simp: mgr_inv_def indexed_def simp del: split_paired_All)
  qed
  with OpUnregisterIid show ?thesis
    by (auto simp: UnregisterModuleByIid_def owed_erase split: option.split)
next
  case OpClear
  then show ?thesis
    by (simp add: Clear_def owed_def owned_def releases_def fold_log_tables count_map_Release)
qed (simp_all add: InitializeAll_def StartAll_def)

lemma owed_run: "owed p (mgr_run objs ops) + sum_list (map (lost p) ops) = sum_list (map (handed p) ops)"
proof -
  have "mgr_inv objs st \<Longrightarrow> owed p (fold (mgr_step objs) ops st) + sum_list (map (lost p) ops)
      = owed p st + sum_list (map (handed p) ops)" for st
  proof (induction ops arbitrary: st)
    case (Cons op ops)
    from Cons(1)[OF mgr_inv_step[OF Cons(2), of op]] owed_step[OF Cons(2), of p op] show ?case by simp
  qed simp
  moreover have "owed p CModuleManager = 0" by (simp add: owed_def owned_def releases_def CModuleManager_def)
  ultimately show ?thesis using mgr_inv_run[of objs "[]"] by (simp add: mgr_run_def)
qed

subsection \<open>Properties of the registry\<close>

text \<open>C24. After any sequence of registrations, removals and life-cycle operations the indices
  agree with the registered modules: a lookup by interface returns the modules registered under
  it in registration order, the single lookup the first of them, and a lookup by name the module
  registered under that name.\<close>

theorem manager_lookup:
  "GetModulesByIid iid (mgr_run objs ops) =
     (if IsValid iid then map e_module (filter (\<lambda>e. iid_eq (e_iid e) iid) (m_vecModules (mgr_run objs ops))) else [])
   \<and> GetModuleByIid iid (mgr_run objs ops) =
     (case GetModulesByIid iid (mgr_run objs ops) of [] \<Rightarrow> None | p # _ \<Rightarrow> Some p)
   \<and> GetModule n (mgr_run objs ops) =
     map_option e_module (List.find (\<lambda>e. \<not> IsValid (e_iid e) \<and> mod_name (objs (e_module e)) = Some n)
       (m_vecModules (mgr_run objs ops)))"
proof -
  let ?st = "mgr_run objs ops"
  have ix: "indexed objs (m_vecModules ?st) (m_mapIndexByName ?st, m_mapIndexByIid ?st)"
    using mgr_inv_run[of objs ops] by (simp add: mgr_inv_def)
  have "has_key (iid_key iid) = (\<lambda>e. iid_eq (e_iid e) iid)" if "IsValid iid"
    using that by (auto simp: has_key_def iid_eq_key fun_eq_iff iid_key_def IsValid_def)
  moreover have "List.find (\<lambda>e. nm objs e = Some n) es =
      List.find (\<lambda>e. \<not> IsValid (e_iid e) \<and> mod_name (objs (e_module e)) = Some n) es" for es
    by (induction es) (auto simp: nm_def)
  moreover have "GetModule n ?st = map_option e_module (map_option (\<lambda>i. m_vecModules ?st ! i) (sm_find (m_mapIndexByName ?st) n))"
    by (simp add: GetModule_def option.map_comp split: option.split)
  moreover have "GetModuleByIid iid ?st = (case GetModulesByIid iid ?st of [] \<Rightarrow> None | p # _ \<Rightarrow> Some p)"
    by (auto simp: GetModuleByIid_def GetModulesByIid_def mm_find_range split: list.split)
  ultimately show ?thesis
    using mm_range_modules[OF ix, of "iid_key iid"] find_named[OF ix, of n]
    by (simp add: GetModulesByIid_def)
qed

text \<open>C25. The manager takes over exactly one reference per registration.  After any operations
  every reference handed over is held by an entry, has been released once, or was lost by a
  registration under an invalid interface identifier, which is the only way to lose one; after
  \<open>Clear\<close> none is held.\<close>

theorem manager_ownership:
  "releases p (mgr_run objs ops) + owned p (mgr_run objs ops) + sum_list (map (lost p) ops) = sum_list (map (handed p) ops)
   \<and> releases p (mgr_run objs (ops @ [OpClear])) + sum_list (map (lost p) ops) = sum_list (map (handed p) ops)"
proof -
  have "owned p (mgr_run objs (ops @ [OpClear])) = 0"
    by (simp add: mgr_run_def owned_def Clear_def fold_log_tables)
  then show ?thesis
    using owed_run[of p objs ops] owed_run[of p objs "ops @ [OpClear]"] by (simp add: owed_def)
qed

definition demo_obj :: "string \<Rightarrow> interface_id list \<Rightarrow> module_obj" where
  "demo_obj n deps = \<lparr>mod_name = Some n, mod_is_cmodule = True, mod_own_state = (\<lambda>_. kCreated),
     mod_deps = deps, mod_status = (\<lambda>_. n), mod_Initialize = (\<lambda>_. True), mod_Start = (\<lambda>_. True)\<rparr>"

text \<open>Module 1 needs the service that module 2 provides.\<close>

definition demo_objs :: objects where
  "demo_objs p = (if p = 1 then demo_obj ''a'' [demo_iid 2] else demo_obj ''b'' [])"

definition demo_ops :: "mgr_op list" where
  "demo_ops = [OpRegister (Some 1), OpRegisterIid (demo_iid 2) (Some 2), OpRegister (Some 1)]"

theorem manager_ownership_witness:
  "releases 1 (mgr_run demo_objs (demo_ops @ [OpClear])) = 2"
proof -
  have "sum_list (map (lost 1) demo_ops) = 0" "sum_list (map (handed 1) demo_ops) = 2" by code_simp+
  then show ?thesis using manager_ownership[of 1 demo_objs demo_ops] by linarith
qed

text \<open>A registration under an invalid interface identifier fails without releasing the
  module, although a failing registration is documented to release it: the reference is lost.\<close>

theorem invalid_iid_registration_leaks:
  "RegisterModuleIid NoInterfaceId (Some p) st = (False, st)
   \<and> releases p (mgr_run objs [OpRegisterIid NoInterfaceId (Some p), OpClear]) = 0
   \<and> handed p (OpRegisterIid NoInterfaceId (Some p)) = 1"
  by (simp add: RegisterModuleIid_def IsValid_def NoInterfaceId_def mgr_run_def Clear_def
      CModuleManager_def releases_def)

end
