(* ===== verification/ModuleLifecycle.thy ===== *)
theory ModuleLifecycle
  imports ModuleManager
begin

text \<open>
  What the manager's orchestration guarantees to a module: every call it makes is one the
  life-cycle automaton allows, initialisation follows the start order and is rolled back when a
  module fails; and what the variants with a time limit do instead.
\<close>

subsection \<open>The automaton of a module\<close>

fun life :: "module_state \<Rightarrow> call \<Rightarrow> module_state option" where
  "life kCreated (CallInitialize p ok) = Some (if ok then kInitialized else kCreated)"
| "life kInitialized (CallStart p ok) = Some (if ok then kStarted else kInitialized)"
| "life kStarted (CallStop p) = Some kStopped"
| "life kInitialized (CallShutdown p) = Some kShutdown"
| "life kStarted (CallShutdown p) = Some kShutdown"
| "life kStopped (CallShutdown p) = Some kShutdown"
| "life s (CallRelease p) = Some s"
| "life s c = None"

fun target :: "call \<Rightarrow> nat" where
  "target (CallInitialize p ok) = p"
| "target (CallStart p ok) = p"
| "target (CallStop p) = p"
| "target (CallShutdown p) = p"
| "target (CallRelease p) = p"

text \<open>Reading the calls a module has received; \<open>None\<close> when one of them was not allowed.\<close>

definition observe :: "nat \<Rightarrow> call \<Rightarrow> module_state option \<Rightarrow> module_state option" where
  "observe p c s = (if target c = p then (case s of None \<Rightarrow> None | Some s' \<Rightarrow> life s' c) else s)"

definition replay :: "nat \<Rightarrow> call list \<Rightarrow> module_state option" where
  "replay p cs = fold (observe p) cs (Some kCreated)"

lemma replay_snoc: "replay p (cs @ [c]) = observe p c (replay p cs)"
  by (simp add: replay_def)

definition life_inv :: "objects \<Rightarrow> manager \<Rightarrow> bool" where
  "life_inv objs st \<longleftrightarrow> (\<forall>p. mod_is_cmodule (objs p) \<longrightarrow> replay p (m_calls st) = Some (m_states st p))"

lemma life_inv_log:
  assumes "life_inv objs st" and "mod_is_cmodule (objs (target c)) \<Longrightarrow> life (m_states st (target c)) c = Some (m_states st (target c))"
  shows "life_inv objs (log_call c st)"
  using assms by (auto simp: life_inv_def log_call_def replay_snoc observe_def)

lemma life_inv_act:
  assumes "life_inv objs st" and "target c = p"
    and "mod_is_cmodule (objs p) \<Longrightarrow> life (m_states st p) c = Some s"
  shows "life_inv objs (SetModuleState objs p s (log_call c st))"
  using assms by (auto simp: life_inv_def log_call_def SetModuleState_def replay_snoc observe_def)

lemma life_inv_stop: "life_inv objs st \<Longrightarrow> life_inv objs (stop_one objs p st)"
  by (auto simp: stop_one_def GetState_def intro!: life_inv_act)

lemma life_inv_shutdown:
  "life_inv objs st \<Longrightarrow> from \<subseteq> {kInitialized, kStarted, kStopped} \<Longrightarrow> life_inv objs (shutdown_one objs from p st)"
  by (auto simp: shutdown_one_def GetState_def intro!: life_inv_act)

lemma life_inv_fold: "life_inv objs st \<Longrightarrow> (\<And>x st. life_inv objs st \<Longrightarrow> life_inv objs (f x st)) \<Longrightarrow> life_inv objs (fold f xs st)"
  by (induction xs arbitrary: st) auto

lemma life_inv_loops:
  assumes "life_inv objs st"
  shows "life_inv objs (StopAll objs st)" and "life_inv objs (ShutdownAll objs st)"
    and "life_inv objs (RollbackInitialized objs st)" and "life_inv objs (RollbackStarted objs st)"
  unfolding StopAll_def ShutdownAll_def RollbackInitialized_def RollbackStarted_def
  by (intro life_inv_fold life_inv_stop life_inv_shutdown assms; auto)+

lemma life_inv_initialize: "life_inv objs st \<Longrightarrow> life_inv objs (snd (initialize_loop objs is st))"
proof (induction objs "is" st rule: initialize_loop.induct)
  case (2 objs i "is" st)
  let ?p = "e_module (m_vecModules st ! i)"
  show ?case
  proof (cases "GetState objs st ?p = kCreated")
    case True
    have "life_inv objs (log_call (CallInitialize ?p False) st)"
      and "life_inv objs (SetModuleState objs ?p kInitialized (log_call (CallInitialize ?p True) st))"
      using True 2(3) by (auto simp: GetState_def intro!: life_inv_log life_inv_act)
    then show ?thesis using 2 True by (auto simp: Let_def intro: life_inv_loops)
  qed (use 2 in \<open>simp add: Let_def\<close>)
qed simp

lemma life_inv_start: "life_inv objs st \<Longrightarrow> life_inv objs (snd (start_loop objs is st))"
proof (induction objs "is" st rule: start_loop.induct)
  case (2 objs i "is" st)
  let ?p = "e_module (m_vecModules st ! i)"
  show ?case
  proof (cases "GetState objs st ?p = kInitialized")
    case True
    have "life_inv objs (log_call (CallStart ?p False) st)"
      and "life_inv objs (SetModuleState objs ?p kStarted (log_call (CallStart ?p True) st))"
      using True 2(3) by (auto simp: GetState_def intro!: life_inv_log life_inv_act)
    then show ?thesis using 2 True by (auto simp: Let_def intro: life_inv_loops)
  qed (use 2 in \<open>simp add: Let_def\<close>)
qed simp

lemma life_Release: "life s (CallRelease p) = Some s"
  by (cases s) simp_all

lemma life_inv_release: "life_inv objs st \<Longrightarrow> life_inv objs (log_call (CallRelease p) st)"
  by (rule life_inv_log) (simp_all add: life_Release)

lemma life_inv_cong: "life_inv objs st \<Longrightarrow> m_calls st' = m_calls st \<Longrightarrow> m_states st' = m_states st \<Longrightarrow> life_inv objs st'"
  by (simp add: life_inv_def)

lemma life_inv_erase: "life_inv objs st \<Longrightarrow> life_inv objs (erase_module objs i st)"
  unfolding erase_module_def by (intro life_inv_release) (auto elim: life_inv_cong)

text \<open>The variants with a time limit call \<open>Stop\<close> and \<open>Shutdown\<close> whatever the states are; with the
  limit 0 they call nothing.\<close>

fun by_state :: "mgr_op \<Rightarrow> bool" where
  "by_state (OpStopAllWithTimeout elapsed t) = (t = 0)"
| "by_state (OpShutdownAllWithTimeout elapsed t) = (t = 0)"
| "by_state _ = True"

lemma timed_loop_zero: "timed_loop mk elapsed 0 k ps st = (ps = [], st)"
  by (cases ps) simp_all

lemma life_inv_step: "life_inv objs st \<Longrightarrow> by_state op \<Longrightarrow> life_inv objs (mgr_step objs op st)"
proof (cases op)
  case (OpRegister p)
  assume "life_inv objs st"
  with OpRegister show ?thesis
    by (auto simp: RegisterModule_def life_inv_release split: option.split elim: life_inv_cong)
next
  case (OpRegisterIid iid p)
  assume "life_inv objs st"
  with OpRegisterIid show ?thesis
    by (auto simp: RegisterModuleIid_def split: option.split elim: life_inv_cong)
next
  case OpClear
  assume inv: "life_inv objs st"
  then have "life_inv objs (st\<lparr>m_vecModules := [], m_mapIndexByName := [], m_mapIndexByIid := []\<rparr>)"
    by (rule life_inv_cong) simp_all
  then show ?thesis using OpClear by (simp add: Clear_def life_inv_fold life_inv_release)
qed (auto simp: UnregisterModule_def UnregisterModuleByIid_def InitializeAll_def StartAll_def
      StopAllWithTimeout_def ShutdownAllWithTimeout_def timed_loop_zero
      life_inv_erase life_inv_initialize life_inv_start life_inv_loops split: option.split)

lemma life_inv_run: "list_all by_state ops \<Longrightarrow> life_inv objs (mgr_run objs ops)"
proof -
  have "life_inv objs st \<Longrightarrow> list_all by_state ops \<Longrightarrow> life_inv objs (fold (mgr_step objs) ops st)" for st
    by (induction ops arbitrary: st) (simp_all add: life_inv_step)
  moreover have "life_inv objs CModuleManager"
    by (simp add: life_inv_def CModuleManager_def replay_def)
  ultimately show "list_all by_state ops \<Longrightarrow> life_inv objs (mgr_run objs ops)" by (simp add: mgr_run_def)
qed

text \<open>C21. Whatever sequence of registrations, removals, lookups and life-cycle operations is run, as
  long as it contains no time-limited stop or shutdown with a limit other than 0, and
  whichever modules fail, every module derived from \<open>CModule\<close> receives only calls its life cycle
  allows: no \<open>Start\<close> without a successful \<open>Initialize\<close>, no \<open>Stop\<close> without a successful
  \<open>Start\<close>, no call but the release after \<open>Shutdown\<close>; and the recorded state is the one those
  calls lead to.\<close>

theorem lifecycle_protocol:
  assumes "mod_is_cmodule (objs p)" and "list_all by_state ops"
  shows "replay p (m_calls (mgr_run objs ops)) = Some (m_states (mgr_run objs ops) p)"
  using life_inv_run[OF assms(2), of objs] assms(1) by (simp add: life_inv_def)

definition demo_cycle :: "mgr_op list" where
  "demo_cycle = demo_ops @ [OpInitializeAll, OpStartAll, OpStopAll, OpShutdownAll, OpClear]"

theorem lifecycle_protocol_witness:
  "replay 2 (m_calls (mgr_run demo_objs demo_cycle)) = Some kShutdown"
proof -
  have "m_states (mgr_run demo_objs demo_cycle) 2 = kShutdown" by code_simp
  moreover have "mod_is_cmodule (demo_objs 2)" "list_all by_state demo_cycle" by code_simp+
  ultimately show ?thesis using lifecycle_protocol[of demo_objs 2 demo_cycle] by simp
qed

text \<open>The restriction is needed: with a limit, a module that was stopped is stopped again.\<close>

theorem timed_stop_ignores_states:
  "replay 2 (m_calls (mgr_run demo_objs (demo_ops @ [OpInitializeAll, OpStartAll, OpStopAll,
     OpStopAllWithTimeout (\<lambda>_. 0) 5]))) = None"
  by code_simp

subsection \<open>Initialisation and rollback\<close>

lemma fold_shutdown:
  assumes "\<forall>p\<in>set ps. mod_is_cmodule (objs p)" and "distinct ps" and "kShutdown \<notin> src"
  shows "m_calls (fold (shutdown_one objs src) ps st) =
           m_calls st @ map CallShutdown (filter (\<lambda>p. m_states st p \<in> src) ps)
    \<and> m_states (fold (shutdown_one objs src) ps st) =
        (\<lambda>p. if p \<in> set ps \<and> m_states st p \<in> src then kShutdown else m_states st p)"
  using assms
proof (induction ps arbitrary: st)
  case (Cons p ps)
  have "filter (\<lambda>q. ((m_states st)(p := kShutdown)) q \<in> src) ps = filter (\<lambda>q. m_states st q \<in> src) ps"
    using Cons.prems by (intro filter_cong) auto
  with Cons show ?case
    by (auto simp: shutdown_one_def GetState_def SetModuleState_def log_call_def fun_eq_iff)
qed simp

lemma fold_stop:
  assumes "\<forall>p\<in>set ps. mod_is_cmodule (objs p)" and "distinct ps"
  shows "m_calls (fold (stop_one objs) ps st) =
           m_calls st @ map CallStop (filter (\<lambda>p. m_states st p = kStarted) ps)
    \<and> m_states (fold (stop_one objs) ps st) =
        (\<lambda>p. if p \<in> set ps \<and> m_states st p = kStarted then kStopped else m_states st p)"
  using assms
proof (induction ps arbitrary: st)
  case (Cons p ps)
  have "filter (\<lambda>q. ((m_states st)(p := kStopped)) q = kStarted) ps = filter (\<lambda>q. m_states st q = kStarted) ps"
    using Cons.prems by (intro filter_cong) auto
  with Cons show ?case
    by (auto simp: stop_one_def GetState_def SetModuleState_def log_call_def fun_eq_iff)
qed simp

text \<open>The loop up to its end or to the first module that fails.\<close>

lemma initialize_loop_run:
  assumes "distinct (map (\<lambda>i. e_module (m_vecModules st ! i)) is)"
    and "\<forall>i\<in>set is. mod_is_cmodule (objs (e_module (m_vecModules st ! i)))
                      \<and> m_states st (e_module (m_vecModules st ! i)) = kCreated"
  defines "ps \<equiv> map (\<lambda>i. e_module (m_vecModules st ! i)) is"
  shows "(fst (initialize_loop objs is st) \<longrightarrow>
            m_calls (snd (initialize_loop objs is st)) = m_calls st @ map (\<lambda>p. CallInitialize p True) ps
            \<and> m_states (snd (initialize_loop objs is st)) =
                (\<lambda>p. if p \<in> set ps then kInitialized else m_states st p))
    \<and> (\<not> fst (initialize_loop objs is st) \<longrightarrow>
            (\<exists>k st1. k < length ps \<and> snd (initialize_loop objs is st) = RollbackInitialized objs st1
              \<and> same_tables st st1
              \<and> m_calls st1 = m_calls st @ map (\<lambda>p. CallInitialize p True) (take k ps) @ [CallInitialize (ps ! k) False]
              \<and> m_states st1 = (\<lambda>p. if p \<in> set (take k ps) then kInitialized else m_states st p)))"
  using assms(1,2) unfolding ps_def
proof (induction "is" arbitrary: st)
  case (Cons i "is")
  let ?f = "\<lambda>i. e_module (m_vecModules st ! i)"
  let ?p = "?f i" and ?ok = "mod_Initialize (objs (?f i)) (m_calls st)"
  let ?st = "SetModuleState objs ?p kInitialized (log_call (CallInitialize ?p True) st)"
  have cm: "mod_is_cmodule (objs ?p)" and created: "GetState objs st ?p = kCreated"
    using Cons.prems(2) by (auto simp: GetState_def)
  have other: "?f j \<noteq> ?p" if "j \<in> set is" for j
    using Cons.prems(1) that by (auto simp: image_iff)
  show ?case
  proof (cases ?ok)
    case True
    have st: "m_vecModules ?st = m_vecModules st" "m_calls ?st = m_calls st @ [CallInitialize ?p True]"
      "m_states ?st = (m_states st)(?p := kInitialized)" "same_tables st ?st"
      using cm by (simp_all add: SetModuleState_def log_call_def same_tables_def)
    have run: "initialize_loop objs (i # is) st = initialize_loop objs is ?st"
      using created True by (simp add: Let_def)
    have hyps: "distinct (map (\<lambda>i. e_module (m_vecModules ?st ! i)) is)"
      "\<forall>j\<in>set is. mod_is_cmodule (objs (e_module (m_vecModules ?st ! j)))
        \<and> m_states ?st (e_module (m_vecModules ?st ! j)) = kCreated"
      using Cons.prems st other by auto
    note IH = Cons.IH[OF hyps]
    show ?thesis
    proof (cases "fst (initialize_loop objs is ?st)")
      case True
      with IH st show ?thesis unfolding run by (auto simp: fun_eq_iff)
    next
      case False
      with IH obtain k st1 where k: "k < length is"
        "snd (initialize_loop objs is ?st) = RollbackInitialized objs st1" "same_tables ?st st1"
        "m_calls st1 = m_calls ?st @ map (\<lambda>p. CallInitialize p True) (take k (map ?f is)) @ [CallInitialize (map ?f is ! k) False]"
        "m_states st1 = (\<lambda>p. if p \<in> set (take k (map ?f is)) then kInitialized else m_states ?st p)"
        unfolding st(1) by auto
      then show ?thesis
        using False st unfolding run
        by (intro conjI impI exI[of _ "Suc k"] exI[of _ st1]) (auto simp: fun_eq_iff intro: same_tables_trans)
    qed
  next
    case False
    then show ?thesis
      using created by (auto simp: Let_def log_call_def same_tables_def intro!: exI[of _ 0])
  qed
qed simp


text \<open>The modules in the order in which they are started.\<close>

definition started_as :: "objects \<Rightarrow> manager \<Rightarrow> nat list" where
  "started_as objs st = map (\<lambda>i. e_module (m_vecModules st ! i)) (start_order objs st)"

definition all_fresh :: "objects \<Rightarrow> manager \<Rightarrow> bool" where
  "all_fresh objs st \<longleftrightarrow> distinct (map e_module (m_vecModules st))
     \<and> (\<forall>p \<in> set (map e_module (m_vecModules st)). mod_is_cmodule (objs p) \<and> m_states st p = kCreated)"

lemma started_as_perm:
  "set (started_as objs st) = set (map e_module (m_vecModules st))"
  "distinct (map e_module (m_vecModules st)) \<Longrightarrow> distinct (started_as objs st)"
proof -
  let ?n = "length (m_vecModules st)" and ?f = "\<lambda>i. e_module (m_vecModules st ! i)"
  have o: "set (start_order objs st) = {..<?n}" "distinct (start_order objs st)"
    using start_order_perm[of "map (\<lambda>e. (e_iid e, mod_deps (objs (e_module e)))) (m_vecModules st)"]
    by (simp_all add: start_order_def)
  have "set (started_as objs st) = ?f ` {..<?n}" by (simp add: started_as_def o)
  also have "\<dots> = set (map e_module (m_vecModules st))"
    using nth_mem by (auto simp: in_set_conv_nth[of _ "m_vecModules st"] image_iff)
  finally show "set (started_as objs st) = set (map e_module (m_vecModules st))" .
  assume "distinct (map e_module (m_vecModules st))"
  then have "inj_on ?f {..<?n}"
    by (auto simp: inj_on_def distinct_conv_nth)
  then show "distinct (started_as objs st)" using o by (simp add: started_as_def distinct_map)
qed

lemma set_backwards: "set (backwards st) = set (map e_module (m_vecModules st))"
  by (simp add: backwards_def)

lemma initialize_all_run:
  assumes "all_fresh objs st"
  shows "(fst (InitializeAll objs st) \<longrightarrow>
            m_calls (snd (InitializeAll objs st)) = m_calls st @ map (\<lambda>p. CallInitialize p True) (started_as objs st)
            \<and> m_states (snd (InitializeAll objs st)) =
                (\<lambda>p. if p \<in> set (started_as objs st) then kInitialized else m_states st p))
    \<and> (\<not> fst (InitializeAll objs st) \<longrightarrow>
            (\<exists>k st1. k < length (started_as objs st) \<and> snd (InitializeAll objs st) = RollbackInitialized objs st1
              \<and> same_tables st st1
              \<and> m_calls st1 = m_calls st @ map (\<lambda>p. CallInitialize p True) (take k (started_as objs st))
                    @ [CallInitialize (started_as objs st ! k) False]
              \<and> m_states st1 = (\<lambda>p. if p \<in> set (take k (started_as objs st)) then kInitialized else m_states st p)))"
proof -
  have "\<forall>i\<in>set (start_order objs st). mod_is_cmodule (objs (e_module (m_vecModules st ! i)))
      \<and> m_states st (e_module (m_vecModules st ! i)) = kCreated"
  proof
    fix i
    assume "i \<in> set (start_order objs st)"
    then have "e_module (m_vecModules st ! i) \<in> set (map e_module (m_vecModules st))"
      unfolding started_as_perm(1)[where objs = objs and st = st, symmetric] by (simp add: started_as_def)
    then show "mod_is_cmodule (objs (e_module (m_vecModules st ! i)))
        \<and> m_states st (e_module (m_vecModules st ! i)) = kCreated"
      using assms unfolding all_fresh_def by blast
  qed
  moreover have "distinct (started_as objs st)" using assms started_as_perm(2) by (simp add: all_fresh_def)
  ultimately show ?thesis
    using initialize_loop_run[of st "start_order objs st" objs] unfolding started_as_def InitializeAll_def by blast
qed

text \<open>C22. \<open>InitializeAll\<close> on modules that have just been registered.  If it returns true, each
  module was initialised exactly once, in the start order, and all are \<open>kInitialized\<close>.  If it
  returns false, some module failed: exactly the modules before it in the start order were
  initialised, and those are shut down again, in reverse order of registration, while the
  failing module and those after it stay \<open>kCreated\<close>.\<close>

theorem initialize_all_outcome:
  assumes "all_fresh objs st" and "InitializeAll objs st = (ok, st')"
  shows "if ok
    then m_calls st' = m_calls st @ map (\<lambda>p. CallInitialize p True) (started_as objs st)
         \<and> (\<forall>p \<in> set (map e_module (m_vecModules st)). m_states st' p = kInitialized)
    else (\<exists>k < length (started_as objs st).
           m_calls st' = m_calls st
             @ map (\<lambda>p. CallInitialize p True) (take k (started_as objs st))
             @ [CallInitialize (started_as objs st ! k) False]
             @ map CallShutdown (filter (\<lambda>p. p \<in> set (take k (started_as objs st))) (backwards st))
           \<and> (\<forall>p \<in> set (map e_module (m_vecModules st)).
                m_states st' p = (if p \<in> set (take k (started_as objs st)) then kShutdown else kCreated)))"
proof -
  let ?ps = "started_as objs st" and ?all = "set (map e_module (m_vecModules st))"
  have dist: "distinct ?ps" "distinct (backwards st)" and set: "set ?ps = ?all"
    and fresh: "\<And>p. p \<in> ?all \<Longrightarrow> mod_is_cmodule (objs p) \<and> m_states st p = kCreated"
    using assms(1) started_as_perm[where objs = objs and st = st] by (auto simp: all_fresh_def backwards_def)
  note run = initialize_all_run[OF assms(1), unfolded assms(2) fst_conv snd_conv]
  show ?thesis
  proof (cases ok)
    case True
    with run set show ?thesis by auto
  next
    case False
    with run obtain k st1 where k: "k < length ?ps" "st' = RollbackInitialized objs st1" "same_tables st st1"
      "m_calls st1 = m_calls st @ map (\<lambda>p. CallInitialize p True) (take k ?ps) @ [CallInitialize (?ps ! k) False]"
      and m: "m_states st1 = (\<lambda>p. if p \<in> set (take k ?ps) then kInitialized else m_states st p)"
      by auto
    have bk: "backwards st1 = backwards st" using k(3) by (simp add: backwards_def same_tables_def)
    have "\<forall>p\<in>set (backwards st). mod_is_cmodule (objs p)" using fresh set_backwards[of st] by simp
    note roll = fold_shutdown[where src = "{kInitialized}" and st = st1, OF this dist(2),
        folded bk, folded RollbackInitialized_def, folded k(2), unfolded bk]
    have "m_states st1 p = kInitialized \<longleftrightarrow> p \<in> set (take k ?ps)" if "p \<in> ?all" for p
      using fresh[OF that] m by simp
    then have "filter (\<lambda>p. m_states st1 p \<in> {kInitialized}) (backwards st) =
        filter (\<lambda>p. p \<in> set (take k ?ps)) (backwards st)"
      using set_backwards[of st] by (intro filter_cong) auto
    with False k roll m fresh set_backwards[of st] show ?thesis
      by (auto intro!: exI[of _ k])
  qed
qed

definition failing_objs :: objects where
  "failing_objs p = (if p = 1 then (demo_obj ''a'' [demo_iid 2])\<lparr>mod_Initialize := (\<lambda>_. False)\<rparr> else demo_objs p)"

definition demo_fresh :: manager where
  "demo_fresh = mgr_run demo_objs [OpRegister (Some 1), OpRegisterIid (demo_iid 2) (Some 2)]"

theorem initialize_all_outcome_witness:
  "fst (InitializeAll demo_objs demo_fresh) \<and> started_as demo_objs demo_fresh = [2, 1]
   \<and> m_calls (snd (InitializeAll demo_objs demo_fresh)) = [CallInitialize 2 True, CallInitialize 1 True]
   \<and> (\<exists>k<2. m_calls (snd (InitializeAll failing_objs demo_fresh)) =
         map (\<lambda>p. CallInitialize p True) (take k [2, 1]) @ [CallInitialize ([2, 1] ! k) False]
           @ map CallShutdown (filter (\<lambda>p. p \<in> set (take k [2, 1])) [2, 1]))"
proof -
  have f: "all_fresh demo_objs demo_fresh" "all_fresh failing_objs demo_fresh"
    "fst (InitializeAll demo_objs demo_fresh)" "\<not> fst (InitializeAll failing_objs demo_fresh)"
    "started_as demo_objs demo_fresh = [2, 1]" "started_as failing_objs demo_fresh = [2, 1]"
    "m_calls demo_fresh = []" "backwards demo_fresh = [2, 1]"
    by code_simp+
  obtain k where k: "k < length [2, 1 :: nat]"
    and "m_calls (snd (InitializeAll failing_objs demo_fresh)) = []
      @ map (\<lambda>p. CallInitialize p True) (take k [2, 1]) @ [CallInitialize ([2, 1] ! k) False]
        @ map CallShutdown (filter (\<lambda>p. p \<in> set (take k [2, 1])) [2, 1])"
    using initialize_all_outcome[OF f(2) prod.collapse[symmetric]] unfolding f(6-8) if_not_P[OF f(4)] by blast
  then have "\<exists>k<2. m_calls (snd (InitializeAll failing_objs demo_fresh)) =
      map (\<lambda>p. CallInitialize p True) (take k [2, 1]) @ [CallInitialize ([2, 1] ! k) False]
        @ map CallShutdown (filter (\<lambda>p. p \<in> set (take k [2, 1])) [2, 1])"
    by (intro exI[of _ k] conjI) (simp, simp only: append.left_neutral)
  moreover have "m_calls (snd (InitializeAll demo_objs demo_fresh)) = [CallInitialize 2 True, CallInitialize 1 True]"
    using initialize_all_outcome[OF f(1) prod.collapse[symmetric]] f(3) unfolding f(5,7) by simp
  ultimately show ?thesis using f(3,5) by blast
qed

text \<open>The modules as the start order sees them.\<close>

definition decls_of :: "objects \<Rightarrow> manager \<Rightarrow> decl list" where
  "decls_of objs st = map (\<lambda>e. (e_iid e, mod_deps (objs (e_module e)))) (m_vecModules st)"




subsection \<open>Stopping\<close>

text \<open>\<open>StopAll\<close> followed by \<open>ShutdownAll\<close> stops exactly the modules that are started
  and then shuts down exactly those that were initialised and are not yet shut down, each once,
  both in reverse order of registration.\<close>

theorem stop_and_shutdown_all:
  assumes "distinct (map e_module (m_vecModules st))"
    and "\<forall>e \<in> set (m_vecModules st). mod_is_cmodule (objs (e_module e))"
  shows "m_calls (ShutdownAll objs (StopAll objs st)) = m_calls st
      @ map CallStop (filter (\<lambda>p. m_states st p = kStarted) (backwards st))
      @ map CallShutdown (filter (\<lambda>p. m_states st p \<notin> {kCreated, kShutdown}) (backwards st))"
proof -
  let ?bs = "backwards st" and ?st = "StopAll objs st"
  have d: "distinct ?bs" "\<forall>p\<in>set ?bs. mod_is_cmodule (objs p)"
    using assms by (auto simp: backwards_def)
  have bk: "backwards ?st = ?bs"
    using same_tables_loops(1)[of st objs] by (simp add: backwards_def same_tables_def)
  note stop = fold_stop[OF d(2,1), of st, folded StopAll_def]
  note down = fold_shutdown[where src = "{kInitialized, kStarted, kStopped}" and st = ?st, OF d(2,1),
      folded bk, folded ShutdownAll_def, unfolded bk]
  have "filter (\<lambda>p. m_states ?st p \<in> {kInitialized, kStarted, kStopped}) ?bs =
      filter (\<lambda>p. m_states st p \<notin> {kCreated, kShutdown}) ?bs"
  proof (rule filter_cong[OF refl])
    fix p
    show "m_states ?st p \<in> {kInitialized, kStarted, kStopped} \<longleftrightarrow> m_states st p \<notin> {kCreated, kShutdown}"
      if "p \<in> set ?bs"
      using stop that by (cases "m_states st p") auto
  qed
  then show ?thesis using stop down by simp
qed

definition demo_running :: manager where
  "demo_running = snd (StartAll demo_objs (snd (InitializeAll demo_objs demo_fresh)))"

theorem stop_and_shutdown_all_witness:
  "m_calls (ShutdownAll demo_objs (StopAll demo_objs demo_running)) = m_calls demo_running
     @ [CallStop 2, CallStop 1, CallShutdown 2, CallShutdown 1]"
proof -
  have f: "distinct (map e_module (m_vecModules demo_running))"
    "list_all (\<lambda>e. mod_is_cmodule (demo_objs (e_module e))) (m_vecModules demo_running)"
    "filter (\<lambda>p. m_states demo_running p = kStarted) (backwards demo_running) = [2, 1]"
    "filter (\<lambda>p. m_states demo_running p \<notin> {kCreated, kShutdown}) (backwards demo_running) = [2, 1]"
    by code_simp+
  show ?thesis
    using stop_and_shutdown_all[OF f(1), of demo_objs] f(2) unfolding f(3,4) by (simp add: list_all_iff)
qed

text \<open>The reverse order of registration is not the reverse of the start order: when a
  module is registered before the service it depends on, the service is started first and is
  also stopped and shut down first, while the module that uses it is still running.\<close>

theorem provider_stopped_before_dependent:
  "depends (decls_of demo_objs demo_running) 1 0
   \<and> map e_module (m_vecModules demo_running) = [1, 2]
   \<and> m_calls (ShutdownAll demo_objs (StopAll demo_objs demo_running)) =
       [CallInitialize 2 True, CallInitialize 1 True, CallStart 2 True, CallStart 1 True,
        CallStop 2, CallStop 1, CallShutdown 2, CallShutdown 1]"
proof -
  have "decls_of demo_objs demo_running = [(NoInterfaceId, [demo_iid 2]), (demo_iid 2, [])]" by code_simp
  then have "depends (decls_of demo_objs demo_running) 1 0"
    by (auto simp: depends_def demo_iid_def provider_def IsValid_def iid_key_def NoInterfaceId_def
        upt_rec numeral_2_eq_2 less_Suc_eq)
  moreover have "map e_module (m_vecModules demo_running) = [1, 2]" by code_simp
  moreover have "m_calls (ShutdownAll demo_objs (StopAll demo_objs demo_running)) =
       [CallInitialize 2 True, CallInitialize 1 True, CallStart 2 True, CallStart 1 True,
        CallStop 2, CallStop 1, CallShutdown 2, CallShutdown 1]" by code_simp
  ultimately show ?thesis by blast
qed

subsection \<open>The variants with a time limit\<close>

lemma timed_loop_run:
  "\<exists>m \<le> length ps. (\<forall>j<m. elapsed (k + j) < unat t) \<and> (m < length ps \<longrightarrow> unat t \<le> elapsed (k + m))
     \<and> timed_loop mk elapsed t k ps st = (m = length ps, st\<lparr>m_calls := m_calls st @ map mk (take m ps)\<rparr>)"
proof (induction mk elapsed t k ps st rule: timed_loop.induct)
  case (2 mk elapsed t k p ps st)
  show ?case
  proof (cases "unat t \<le> elapsed k")
    case False
    with 2 obtain m where m: "m \<le> length ps" "\<forall>j<m. elapsed (Suc k + j) < unat t"
      "m < length ps \<longrightarrow> unat t \<le> elapsed (Suc k + m)"
      "timed_loop mk elapsed t (Suc k) ps (log_call (mk p) st) =
        (m = length ps, log_call (mk p) st\<lparr>m_calls := m_calls (log_call (mk p) st) @ map mk (take m ps)\<rparr>)"
      by auto
    have "\<forall>j<Suc m. elapsed (k + j) < unat t"
    proof (intro allI impI)
      fix j
      assume "j < Suc m"
      then show "elapsed (k + j) < unat t" using m(2) False by (cases j) auto
    qed
    with m False show ?thesis by (intro exI[of _ "Suc m"]) (simp add: log_call_def)
  qed (auto intro!: exI[of _ 0])
qed simp

text \<open>\<open>StopAllWithTimeout\<close> calls \<open>Stop\<close> on a prefix of the modules in reverse order of
  registration, up to the first reading of the clock that reaches the limit, and returns true
  exactly when no reading did.  It looks at no module's state and records none; with the limit
  zero, documented to mean no limit, it stops no module at all.\<close>

theorem stop_all_with_timeout:
  "\<exists>m \<le> Size st. (\<forall>j<m. elapsed j < unat t) \<and> (m < Size st \<longrightarrow> unat t \<le> elapsed m)
     \<and> (t = 0 \<longrightarrow> m = 0)
     \<and> StopAllWithTimeout elapsed t st =
         (m = Size st, st\<lparr>m_calls := m_calls st @ map CallStop (take m (backwards st))\<rparr>)"
proof -
  have "length (backwards st) = Size st" by (simp add: backwards_def Size_def)
  then obtain m where m: "m \<le> Size st" "\<forall>j<m. elapsed j < unat t" "m < Size st \<longrightarrow> unat t \<le> elapsed m"
    "StopAllWithTimeout elapsed t st =
       (m = Size st, st\<lparr>m_calls := m_calls st @ map CallStop (take m (backwards st))\<rparr>)"
    using timed_loop_run[of "backwards st" elapsed 0 t CallStop st] by (auto simp: StopAllWithTimeout_def)
  moreover have "t = 0 \<longrightarrow> m = 0"
  proof (intro impI, rule ccontr)
    assume "t = 0" and "m \<noteq> 0"
    then have "elapsed 0 < unat (0 :: u32)" using m(2) by simp
    then show False by simp
  qed
  ultimately show ?thesis by (intro exI[of _ m] conjI)
qed

theorem stop_all_with_timeout_witness:
  "StopAllWithTimeout (\<lambda>j. 5 * j) 5 demo_running =
     (False, demo_running\<lparr>m_calls := m_calls demo_running @ [CallStop 2]\<rparr>)"
proof -
  have f: "Size demo_running = 2" "backwards demo_running = [2, 1]" by code_simp+
  obtain m where m: "m \<le> 2" "\<forall>j<m. 5 * j < unat (5 :: u32)" "m < 2 \<longrightarrow> unat (5 :: u32) \<le> 5 * m"
    "StopAllWithTimeout (\<lambda>j. 5 * j) 5 demo_running =
       (m = 2, demo_running\<lparr>m_calls := m_calls demo_running @ map CallStop (take m [2, 1])\<rparr>)"
    using stop_all_with_timeout[of demo_running "\<lambda>j. 5 * j" 5] unfolding f
    by (elim exE conjE) (erule that; assumption)
  have "m \<noteq> 2" using m(2) by (auto dest: spec[of _ 1])
  moreover have "m \<noteq> 0" using m(3) by auto
  ultimately have "m = 1" using m(1) by simp
  then show ?thesis using m(4) by simp
qed

end
