(* ===== verification/Application.thy ===== *)
theory Application
  imports ModuleLifecycle
begin

text \<open>
  \<open>CMyApplication\<close> (\<open>src/ServerCore/Application/MyApplication.cpp\<close>): the skeleton of a
  server over the module manager.  The hooks of the derived class are arguments; the modules
  \<open>RegisterModules\<close> creates are the pointers a fourth argument gives it.
\<close>

record application =
  m_moduleManager :: manager
  m_bRunning :: bool
  m_nShutdownTimeoutMs :: u32
  m_strConfigPath :: string

definition CMyApplication :: application where
  "CMyApplication = \<lparr>m_moduleManager = CModuleManager, m_bRunning = False,
     m_nShutdownTimeoutMs = 0, m_strConfigPath = []\<rparr>"

definition SetShutdownTimeout :: "u32 \<Rightarrow> application \<Rightarrow> application" where
  "SetShutdownTimeout nTimeoutMs app = app\<lparr>m_nShutdownTimeoutMs := nTimeoutMs\<rparr>"

definition SetConfigPath :: "string \<Rightarrow> application \<Rightarrow> application" where
  "SetConfigPath strPath app = app\<lparr>m_strConfigPath := strPath\<rparr>"

definition IID_IConfig :: interface_id where
  "IID_IConfig = MakeInterfaceId (Some ''sc::IConfig'') (Some ''cfaa634b-1064-40d3-94eb-b8518776bd7e'')"

definition IID_ILogger :: interface_id where
  "IID_ILogger = MakeInterfaceId (Some ''sc::ILogger'') (Some ''7f70d36c-e774-49c0-9f0e-0d59b5c0adf8'')"

definition IID_IMetrics :: interface_id where
  "IID_IMetrics = MakeInterfaceId (Some ''sc::IMetrics'') (Some ''9c1b3d42-7a51-4f6e-9a2b-cd8e55f0a3f1'')"

text \<open>One step of the default assembly: an interface that already has a module is skipped.\<close>

definition register_default :: "interface_id \<Rightarrow> nat \<Rightarrow> manager \<Rightarrow> bool \<times> manager" where
  "register_default iid p mgr =
     (if GetModuleByIid iid mgr = None then RegisterModuleIid iid (Some p) mgr else (True, mgr))"

definition RegisterModules :: "nat \<Rightarrow> nat \<Rightarrow> nat \<Rightarrow> application \<Rightarrow> bool \<times> application" where
  "RegisterModules pConfig pLogger pMetrics app =
     (let (ok1, m1) = register_default IID_IConfig pConfig (m_moduleManager app)
      in if \<not> ok1 then (False, app\<lparr>m_moduleManager := m1\<rparr>)
         else let (ok2, m2) = register_default IID_ILogger pLogger m1
         in if \<not> ok2 then (False, app\<lparr>m_moduleManager := m2\<rparr>)
            else let (ok3, m3) = register_default IID_IMetrics pMetrics m2
            in (ok3, app\<lparr>m_moduleManager := m3\<rparr>))"

text \<open>\<open>Initialize\<close> and \<open>Start\<close>; \<open>registerModules\<close>, \<open>onInitialize\<close> and \<open>onStart\<close> are the
  virtual functions.\<close>

definition Initialize ::
  "objects \<Rightarrow> (application \<Rightarrow> bool \<times> application) \<Rightarrow> (application \<Rightarrow> bool \<times> application) \<Rightarrow>
   application \<Rightarrow> bool \<times> application" where
  "Initialize objs registerModules onInitialize app =
     (let (ok, app1) = registerModules app
      in if \<not> ok then (False, app1)
         else let (ok2, mgr) = InitializeAll objs (m_moduleManager app1);
                  app2 = app1\<lparr>m_moduleManager := mgr\<rparr>
              in if \<not> ok2 then (False, app2\<lparr>m_moduleManager := Clear mgr\<rparr>)
                 else onInitialize app2)"

definition Start ::
  "objects \<Rightarrow> (application \<Rightarrow> bool \<times> application) \<Rightarrow> application \<Rightarrow> bool \<times> application" where
  "Start objs onStart app =
     (let (ok, mgr) = StartAll objs (m_moduleManager app);
          app1 = app\<lparr>m_moduleManager := mgr\<rparr>
      in if \<not> ok then (False, app1) else onStart app1)"

definition Stop :: "application \<Rightarrow> application" where
  "Stop app = app\<lparr>m_bRunning := False\<rparr>"

text \<open>\<open>Shutdown\<close>; \<open>e1\<close> and \<open>e2\<close> are the clock readings of the two loops with a limit.\<close>

definition Shutdown ::
  "objects \<Rightarrow> (application \<Rightarrow> application) \<Rightarrow> (nat \<Rightarrow> nat) \<Rightarrow> (nat \<Rightarrow> nat) \<Rightarrow> application \<Rightarrow> application" where
  "Shutdown objs onShutdown e1 e2 app =
     (let app0 = onShutdown app;
          t = m_nShutdownTimeoutMs app0;
          m1 = StopAll objs (m_moduleManager app0);
          m2 = ShutdownAll objs m1;
          m3 = snd (StopAllWithTimeout e1 t m2);
          m4 = snd (ShutdownAllWithTimeout e2 t m3)
      in app0\<lparr>m_moduleManager := Clear m4\<rparr>)"

text \<open>The metrics report; \<open>fmt\<close> is \<open>snprintf(\"%.0f\")\<close>.\<close>

definition MetricsReport :: "('v \<Rightarrow> string) \<Rightarrow> (string \<times> 'v) list option \<Rightarrow> string" where
  "MetricsReport fmt snapshot =
     (case snapshot of
        None \<Rightarrow> []
      | Some vec \<Rightarrow>
          concat (map (\<lambda>i. fst (vec ! i) @ ''='' @ fmt (snd (vec ! i))
                           @ (if i + 1 < length vec then [CHR 0x0A] else [])) [0..<length vec]))"

subsection \<open>Properties\<close>

definition life_ok :: "objects \<Rightarrow> application \<Rightarrow> bool" where
  "life_ok objs app \<longleftrightarrow> life_inv objs (m_moduleManager app)"

text \<open>With the default limit zero the loops with a time limit do nothing, and shutting down
  an application whose modules have so far only seen calls their life cycle allows keeps it so:
  every module derived from \<open>CModule\<close> has received an allowed sequence of calls in the end, and
  no module is registered any more.\<close>

theorem application_shutdown_default:
  assumes "life_inv objs (m_moduleManager (onShutdown app))"
    and "m_nShutdownTimeoutMs (onShutdown app) = 0" and "mod_is_cmodule (objs p)"
  shows "replay p (m_calls (m_moduleManager (Shutdown objs onShutdown e1 e2 app))) \<noteq> None
    \<and> Size (m_moduleManager (Shutdown objs onShutdown e1 e2 app)) = 0"
proof -
  let ?m = "ShutdownAll objs (StopAll objs (m_moduleManager (onShutdown app)))"
  have "m_moduleManager (Shutdown objs onShutdown e1 e2 app) = mgr_step objs OpClear ?m"
    by (simp add: Shutdown_def Let_def assms(2) StopAllWithTimeout_def ShutdownAllWithTimeout_def timed_loop_zero)
  moreover have "life_inv objs (mgr_step objs OpClear ?m)"
    using assms(1) by (intro life_inv_step life_inv_loops) simp_all
  ultimately show ?thesis
    using assms(3) by (auto simp: life_inv_def Size_def Clear_def fold_log_tables)
qed

definition demo_app :: application where
  "demo_app = CMyApplication\<lparr>m_moduleManager := mgr_run demo_objs (demo_ops @ [OpInitializeAll, OpStartAll])\<rparr>"

theorem application_shutdown_default_witness:
  "replay 2 (m_calls (m_moduleManager (Shutdown demo_objs id (\<lambda>_. 0) (\<lambda>_. 0) demo_app))) \<noteq> None"
proof -
  have "life_inv demo_objs (mgr_run demo_objs (demo_ops @ [OpInitializeAll, OpStartAll]))"
    by (rule life_inv_run) code_simp
  then have "life_inv demo_objs (m_moduleManager (id demo_app))" by (simp add: demo_app_def)
  moreover have "m_nShutdownTimeoutMs (id demo_app) = 0" and "mod_is_cmodule (demo_objs 2)"
    by (simp add: demo_app_def CMyApplication_def, code_simp)
  ultimately show ?thesis using application_shutdown_default[of demo_objs id demo_app 2] by blast
qed

text \<open>With a limit set, \<open>Shutdown\<close> stops and shuts down every module a second time: both
  modules of this running application receive \<open>Stop\<close> and \<open>Shutdown\<close> again after they were shut
  down, which their life cycle does not allow.\<close>

theorem application_shutdown_calls_twice:
  "replay 2 (m_calls (m_moduleManager demo_app)) = Some kStarted
   \<and> drop 4 (m_calls (m_moduleManager (Shutdown demo_objs id (\<lambda>_. 0) (\<lambda>_. 0) (SetShutdownTimeout 1000
       (demo_app\<lparr>m_moduleManager := demo_running\<rparr>))))) =
     [CallStop 2, CallStop 1, CallShutdown 2, CallShutdown 1,
      CallStop 2, CallStop 1, CallShutdown 2, CallShutdown 1, CallRelease 1, CallRelease 2]
   \<and> replay 2 (m_calls (m_moduleManager (Shutdown demo_objs id (\<lambda>_. 0) (\<lambda>_. 0)
       (SetShutdownTimeout 1000 demo_app)))) = None"
  by (intro conjI; code_simp)

end
