(* ===== verification/FileStore.thy ===== *)
theory FileStore
  imports StdMap "HOL-Library.Multiset"
begin

text \<open>
  \<open>CFileStore\<close> (\<open>src/Common/Storage/CFileStore.cpp\<close>): one table of texts and files shared
  by all tenants, with per-tenant quotas and a global sequence number.  Sizes and counters are
  natural numbers: all contents are in memory at once, so their total is below \<open>2^64\<close>.  The
  clock reading is an argument; the random source is the sequence of its draws, and the state
  keeps how many have been used.
\<close>

datatype store_item_kind = kText | kFile

record store_limits =
  nMaxItems :: nat
  nMaxTotalBytes :: nat
  nMaxItemBytes :: nat

record item =
  kind :: store_item_kind
  strTenant :: string
  strName :: string
  strFrom :: string
  strText :: string
  vecData :: string
  nCreateMs :: int
  nSeq :: nat

record store_item_info =
  info_strId :: string
  info_kind :: store_item_kind
  info_strTenant :: string
  info_strName :: string
  info_strFrom :: string
  info_nSize :: nat
  info_nCreateMs :: int
  info_nSeq :: nat

record tenant_stat =
  nItems :: nat
  nBytes :: nat

record file_store =
  m_nIdLen :: nat
  m_mapItems :: "(string, item) smap"
  m_mapStats :: "(string, tenant_stat) smap"
  m_nNextSeq :: nat
  m_nDraws :: nat

definition kIdChars :: string where
  "kIdChars = ''23456789ABCDEFGHJKLMNPQRSTUVWXYZabcdefghijkmnpqrstuvwxyz''"

definition CFileStore :: "nat \<Rightarrow> file_store" where
  "CFileStore nIdLen = \<lparr>m_nIdLen = (if nIdLen > 0 then nIdLen else 6), m_mapItems = [],
     m_mapStats = [], m_nNextSeq = 0, m_nDraws = 0\<rparr>"

subsection \<open>Short codes\<close>

text \<open>\<open>rng k\<close> is the \<open>k\<close>-th draw of the uniform distribution over the indices of the
  alphabet.\<close>

definition RandomChar :: "(nat \<Rightarrow> nat) \<Rightarrow> nat \<Rightarrow> char" where
  "RandomChar rng k = kIdChars ! (rng k mod length kIdChars)"

definition draw_id :: "(nat \<Rightarrow> nat) \<Rightarrow> nat \<Rightarrow> nat \<Rightarrow> string" where
  "draw_id rng k n = map (\<lambda>i. RandomChar rng (k + i)) [0..<n]"

text \<open>The loop draws codes until one is not in the table; \<open>None\<close> is a loop that never ends.\<close>

partial_function (option) GenerateId ::
  "(nat \<Rightarrow> nat) \<Rightarrow> nat \<Rightarrow> (string, item) smap \<Rightarrow> nat \<Rightarrow> (string \<times> nat) option" where
  "GenerateId rng n items k =
     (let strId = draw_id rng k n
      in if sm_find items strId = None then Some (strId, k + n)
         else GenerateId rng n items (k + n))"

declare GenerateId.simps [code]

subsection \<open>Operations\<close>

definition payload :: "item \<Rightarrow> nat" where
  "payload it = (case kind it of kText \<Rightarrow> length (strText it) | kFile \<Rightarrow> length (vecData it))"

definition tenant_stats :: "string \<Rightarrow> file_store \<Rightarrow> tenant_stat" where
  "tenant_stats t st =
     (case sm_find (m_mapStats st) t of None \<Rightarrow> \<lparr>nItems = 0, nBytes = 0\<rparr> | Some s \<Rightarrow> s)"

definition over_quota :: "store_limits \<Rightarrow> tenant_stat \<Rightarrow> nat \<Rightarrow> bool" where
  "over_quota limits stat nPayload \<longleftrightarrow>
     nMaxItems limits > 0 \<and> nItems stat \<ge> nMaxItems limits
     \<or> nMaxItemBytes limits > 0 \<and> nPayload > nMaxItemBytes limits
     \<or> nMaxTotalBytes limits > 0 \<and> nBytes stat + nPayload > nMaxTotalBytes limits"

text \<open>The common tail of the two save operations: number the item, find a code, enter it and
  update the tenant's statistics.\<close>

definition store_item :: "(nat \<Rightarrow> nat) \<Rightarrow> item \<Rightarrow> nat \<Rightarrow> file_store \<Rightarrow> (string \<times> file_store) option" where
  "store_item rng it nPayload st =
     (let stat = tenant_stats (strTenant it) st;
          seq = m_nNextSeq st + 1
      in (case GenerateId rng (m_nIdLen st) (m_mapItems st) (m_nDraws st) of
            None \<Rightarrow> None
          | Some (strId, k) \<Rightarrow>
              Some (strId, st\<lparr>m_nNextSeq := seq, m_nDraws := k,
                m_mapItems := sm_put strId (it\<lparr>nSeq := seq\<rparr>) (m_mapItems st),
                m_mapStats := sm_put (strTenant it)
                  \<lparr>nItems = nItems stat + 1, nBytes = nBytes stat + nPayload\<rparr> (m_mapStats st)\<rparr>)))"

definition SaveText :: "(nat \<Rightarrow> nat) \<Rightarrow> int \<Rightarrow> string \<Rightarrow> string \<Rightarrow> string \<Rightarrow> store_limits \<Rightarrow> file_store \<Rightarrow>
    (string \<times> file_store) option" where
  "SaveText rng now tenant content from limits st =
     (if tenant = [] \<or> content = [] then Some ([], st)
      else if over_quota limits (tenant_stats tenant st) (length content) then Some ([], st)
      else store_item rng \<lparr>kind = kText, strTenant = tenant, strName = [], strFrom = from,
             strText = content, vecData = [], nCreateMs = now, nSeq = 0\<rparr> (length content) st)"

text \<open>The data of a file is \<open>None\<close> for a null pointer.\<close>

definition SaveFile :: "(nat \<Rightarrow> nat) \<Rightarrow> int \<Rightarrow> string \<Rightarrow> string \<Rightarrow> string option \<Rightarrow> string \<Rightarrow> store_limits \<Rightarrow>
    file_store \<Rightarrow> (string \<times> file_store) option" where
  "SaveFile rng now tenant name pData from limits st =
     (case pData of
        None \<Rightarrow> Some ([], st)
      | Some data \<Rightarrow>
          if tenant = [] \<or> data = [] then Some ([], st)
          else if over_quota limits (tenant_stats tenant st) (length data) then Some ([], st)
          else store_item rng \<lparr>kind = kFile, strTenant = tenant,
                 strName = (if name = [] then ''file.bin'' else name), strFrom = from,
                 strText = [], vecData = data, nCreateMs = now, nSeq = 0\<rparr> (length data) st)"

definition info_of :: "string \<Rightarrow> item \<Rightarrow> store_item_info" where
  "info_of strId it = \<lparr>info_strId = strId, info_kind = kind it, info_strTenant = strTenant it,
     info_strName = strName it, info_strFrom = strFrom it, info_nSize = payload it,
     info_nCreateMs = nCreateMs it, info_nSeq = nSeq it\<rparr>"

definition GetInfo :: "string \<Rightarrow> string \<Rightarrow> file_store \<Rightarrow> store_item_info option" where
  "GetInfo tenant strId st =
     (case sm_find (m_mapItems st) strId of
        None \<Rightarrow> None
      | Some it \<Rightarrow> if strTenant it \<noteq> tenant then None else Some (info_of strId it))"

definition GetText :: "string \<Rightarrow> string \<Rightarrow> file_store \<Rightarrow> string option" where
  "GetText tenant strId st =
     (case sm_find (m_mapItems st) strId of
        None \<Rightarrow> None
      | Some it \<Rightarrow> if strTenant it \<noteq> tenant \<or> kind it \<noteq> kText then None else Some (strText it))"

definition GetFile :: "string \<Rightarrow> string \<Rightarrow> file_store \<Rightarrow> (string \<times> string) option" where
  "GetFile tenant strId st =
     (case sm_find (m_mapItems st) strId of
        None \<Rightarrow> None
      | Some it \<Rightarrow> if strTenant it \<noteq> tenant \<or> kind it \<noteq> kFile then None
                   else Some (strName it, vecData it))"

definition tenant_infos :: "(item \<Rightarrow> bool) \<Rightarrow> string \<Rightarrow> file_store \<Rightarrow> store_item_info list" where
  "tenant_infos P tenant st =
     map (\<lambda>(strId, it). info_of strId it)
       (filter (\<lambda>(strId, it). strTenant it = tenant \<and> P it) (m_mapItems st))"

text \<open>\<open>std::sort\<close> is not stable, so the order of items created in the same millisecond is open:
  \<open>sorter\<close> is any sort by descending creation time.\<close>

definition ListItems :: "(store_item_info list \<Rightarrow> store_item_info list) \<Rightarrow> string \<Rightarrow> file_store \<Rightarrow> store_item_info list" where
  "ListItems sorter tenant st = sorter (tenant_infos (\<lambda>_. True) tenant st)"

text \<open>The sequence numbers are unique, so here every sort gives the same list.\<close>

definition ListSince :: "string \<Rightarrow> nat \<Rightarrow> file_store \<Rightarrow> store_item_info list" where
  "ListSince tenant nSince st =
     sort_key info_nSeq (tenant_infos (\<lambda>it. nSeq it > nSince) tenant st)"

definition Remove :: "string \<Rightarrow> string \<Rightarrow> file_store \<Rightarrow> bool \<times> file_store" where
  "Remove tenant strId st =
     (case sm_find (m_mapItems st) strId of
        None \<Rightarrow> (False, st)
      | Some it \<Rightarrow>
          if strTenant it \<noteq> tenant then (False, st)
          else
            let st1 = st\<lparr>m_mapItems := sm_erase strId (m_mapItems st)\<rparr>
            in (True,
                case sm_find (m_mapStats st) tenant of
                  None \<Rightarrow> st1
                | Some s \<Rightarrow>
                    let n = (if nItems s > 0 then nItems s - 1 else 0);
                        b = (if nBytes s \<ge> payload it then nBytes s - payload it else 0)
                    in if n = 0 \<and> b = 0
                       then st1\<lparr>m_mapStats := sm_erase tenant (m_mapStats st)\<rparr>
                       else st1\<lparr>m_mapStats := sm_put tenant \<lparr>nItems = n, nBytes = b\<rparr> (m_mapStats st)\<rparr>))"

definition Count :: "string \<Rightarrow> file_store \<Rightarrow> nat" where
  "Count tenant st = (case sm_find (m_mapStats st) tenant of None \<Rightarrow> 0 | Some s \<Rightarrow> nItems s)"

definition TotalBytes :: "string \<Rightarrow> file_store \<Rightarrow> nat" where
  "TotalBytes tenant st = (case sm_find (m_mapStats st) tenant of None \<Rightarrow> 0 | Some s \<Rightarrow> nBytes s)"

definition Clear :: "file_store \<Rightarrow> file_store" where
  "Clear st = st\<lparr>m_mapItems := [], m_mapStats := []\<rparr>"

subsection \<open>Runs\<close>

datatype fs_op =
    FsSaveText int string string string store_limits
  | FsSaveFile int string string "string option" string store_limits
  | FsRemove string string
  | FsClear

text \<open>\<open>None\<close> when an operation does not return.\<close>

fun fs_step :: "(nat \<Rightarrow> nat) \<Rightarrow> fs_op \<Rightarrow> file_store \<Rightarrow> file_store option" where
  "fs_step rng (FsSaveText now t c from l) st = map_option snd (SaveText rng now t c from l st)"
| "fs_step rng (FsSaveFile now t n d from l) st = map_option snd (SaveFile rng now t n d from l st)"
| "fs_step rng (FsRemove t i) st = Some (snd (Remove t i st))"
| "fs_step rng FsClear st = Some (Clear st)"

fun fs_run :: "(nat \<Rightarrow> nat) \<Rightarrow> fs_op list \<Rightarrow> file_store \<Rightarrow> file_store option" where
  "fs_run rng [] st = Some st"
| "fs_run rng (op # ops) st = (case fs_step rng op st of None \<Rightarrow> None | Some st' \<Rightarrow> fs_run rng ops st')"

subsection \<open>The invariant\<close>

definition t_count :: "string \<Rightarrow> (string, item) smap \<Rightarrow> nat" where
  "t_count t = sm_sum (\<lambda>it. if strTenant it = t then 1 else 0)"

definition t_bytes :: "string \<Rightarrow> (string, item) smap \<Rightarrow> nat" where
  "t_bytes t = sm_sum (\<lambda>it. if strTenant it = t then payload it else 0)"

definition fs_inv :: "file_store \<Rightarrow> bool" where
  "fs_inv st \<longleftrightarrow> m_nIdLen st > 0 \<and> sm_ok (m_mapItems st) \<and> sm_ok (m_mapStats st)
     \<and> (\<forall>t. Count t st = t_count t (m_mapItems st) \<and> TotalBytes t st = t_bytes t (m_mapItems st))
     \<and> (\<forall>(i, it) \<in> set (m_mapItems st). i \<noteq> [] \<and> strTenant it \<noteq> [] \<and> 0 < nSeq it \<and> nSeq it \<le> m_nNextSeq st)
     \<and> distinct (map (nSeq \<circ> snd) (m_mapItems st))"

lemma fs_inv_init: "fs_inv (CFileStore n)"
  by (simp add: fs_inv_def CFileStore_def Count_def TotalBytes_def t_count_def t_bytes_def)

lemma RandomChar_in: "RandomChar rng k \<in> set kIdChars"
proof -
  have "0 < length kIdChars" by (simp add: kIdChars_def)
  then show ?thesis unfolding RandomChar_def by (intro nth_mem) simp
qed

lemma GenerateId_result:
  assumes "GenerateId rng n items k = Some r"
  shows "sm_find items (fst r) = None \<and> length (fst r) = n \<and> set (fst r) \<subseteq> set kIdChars"
proof (rule GenerateId.raw_induct[OF _ assms, where P = "\<lambda>rng n items k r. sm_find items (fst r) = None \<and> length (fst r) = n \<and> set (fst r) \<subseteq> set kIdChars"])
  fix f rng n items k r
  assume "\<And>rng n items k r. f rng n items k = Some r \<Longrightarrow> sm_find items (fst r) = None \<and> length (fst r) = n \<and> set (fst r) \<subseteq> set kIdChars"
    and "(let strId = draw_id rng k n
          in if sm_find items strId = None then Some (strId, k + n) else f rng n items (k + n)) = Some r"
  then show "sm_find items (fst r) = None \<and> length (fst r) = n \<and> set (fst r) \<subseteq> set kIdChars"
    using RandomChar_in by (auto simp: Let_def draw_id_def split: if_splits)
qed

lemma GenerateId_fresh:
  "GenerateId rng n items k = Some (i, k') \<Longrightarrow> sm_find items i = None \<and> length i = n"
  using GenerateId_result by fastforce

lemma distinct_map_put:
  "sm_find m k = None \<Longrightarrow> distinct (map (f \<circ> snd) (sm_put k v m)) \<longleftrightarrow>
     f v \<notin> (f \<circ> snd) ` set m \<and> distinct (map (f \<circ> snd) m)"
proof (induction k v m rule: sm_put.induct)
  case (2 k v k' v' m)
  have "set (sm_put k v m) = insert (k, v) (set m)" if "sm_find m k = None"
    using that by (induction k v m rule: sm_put.induct) (auto simp: sm_find_def split: if_splits)
  with 2 show ?case by (auto simp: sm_find_def split: if_splits)
qed simp

lemma set_put_new: "sm_find m k = None \<Longrightarrow> set (sm_put k v m) = insert (k, v) (set m)"
  by (induction k v m rule: sm_put.induct) (auto simp: sm_find_def split: if_splits)

lemma store_item_inv:
  assumes "fs_inv st" and "store_item rng it (payload it) st = Some (i, st')" and "strTenant it \<noteq> []"
  shows "fs_inv st'"
proof -
  from assms(2) obtain k where g: "GenerateId rng (m_nIdLen st) (m_mapItems st) (m_nDraws st) = Some (i, k)"
    and st': "st' = st\<lparr>m_nNextSeq := m_nNextSeq st + 1, m_nDraws := k,
                m_mapItems := sm_put i (it\<lparr>nSeq := m_nNextSeq st + 1\<rparr>) (m_mapItems st),
                m_mapStats := sm_put (strTenant it)
                  \<lparr>nItems = nItems (tenant_stats (strTenant it) st) + 1,
                   nBytes = nBytes (tenant_stats (strTenant it) st) + payload it\<rparr> (m_mapStats st)\<rparr>"
    by (auto simp: store_item_def Let_def split: option.splits)
  note fresh = GenerateId_fresh[OF g]
  have pl: "payload (it\<lparr>nSeq := n\<rparr>) = payload it" for n
    by (cases "kind it") (simp_all add: payload_def)
  have "nItems (tenant_stats t st) = Count t st \<and> nBytes (tenant_stats t st) = TotalBytes t st" for t
    by (simp add: tenant_stats_def Count_def TotalBytes_def split: option.split)
  then have "Count t st' = t_count t (m_mapItems st') \<and> TotalBytes t st' = t_bytes t (m_mapItems st')" for t
    using assms(1) fresh
    by (auto simp: fs_inv_def st' Count_def TotalBytes_def t_count_def t_bytes_def sm_sum_put_new pl
        simp del: Suc_eq_plus1)
  moreover have "m_nNextSeq st + 1 \<notin> (nSeq \<circ> snd) ` set (m_mapItems st)"
    using assms(1) by (fastforce simp: fs_inv_def)
  ultimately show ?thesis
    using assms(1,3) fresh unfolding fs_inv_def
    by (auto simp: st' set_put_new distinct_map_put)
qed


lemma t_sums_erase:
  assumes "sm_ok m" and "sm_find m i = Some it"
  shows "t_count t m = (if strTenant it = t then 1 else 0) + t_count t (sm_erase i m)"
    and "t_bytes t m = (if strTenant it = t then payload it else 0) + t_bytes t (sm_erase i m)"
  using sm_sum_erase[OF assms] by (simp_all add: t_count_def t_bytes_def)

lemma Remove_inv:
  assumes "fs_inv st"
  shows "fs_inv (snd (Remove tenant i st))"
proof (cases "\<exists>it. sm_find (m_mapItems st) i = Some it \<and> strTenant it = tenant")
  case False
  then show ?thesis using assms by (auto simp: Remove_def split: option.split)
next
  case True
  then obtain it where it: "sm_find (m_mapItems st) i = Some it" "strTenant it = tenant" by blast
  let ?m = "m_mapItems st"
  have ok: "sm_ok ?m" and cnt: "\<And>t. Count t st = t_count t ?m" and byt: "\<And>t. TotalBytes t st = t_bytes t ?m"
    using assms by (auto simp: fs_inv_def)
  have "t_count tenant ?m > 0" using t_sums_erase(1)[OF ok it(1), of tenant] it(2) by simp
  then obtain s where s: "sm_find (m_mapStats st) tenant = Some s" "nItems s = t_count tenant ?m" "nBytes s = t_bytes tenant ?m"
    using cnt[of tenant] byt[of tenant] by (auto simp: Count_def TotalBytes_def split: option.splits)
  let ?st = "snd (Remove tenant i st)"
  have items: "m_mapItems ?st = sm_erase i ?m" "m_nNextSeq ?st = m_nNextSeq st" "m_nIdLen ?st = m_nIdLen st"
    using it s by (auto simp: Remove_def Let_def)
  have "Count t ?st = t_count t (sm_erase i ?m) \<and> TotalBytes t ?st = t_bytes t (sm_erase i ?m)" for t
    using it s t_sums_erase[OF ok it(1), of t] cnt[of t] byt[of t]
    by (auto simp: Remove_def Let_def Count_def TotalBytes_def split: if_splits)
  moreover have "sm_ok (m_mapStats ?st)"
    using assms it s by (auto simp: fs_inv_def Remove_def Let_def)
  moreover have "set (sm_erase i ?m) \<subseteq> set ?m" by (auto simp: sm_erase_def)
  ultimately show ?thesis
    using assms unfolding fs_inv_def items
    by (auto simp: sm_erase_def distinct_map_filter)
qed

lemma SaveText_inv: "fs_inv st \<Longrightarrow> SaveText rng now t c from l st = Some (i, st') \<Longrightarrow> fs_inv st'"
  using store_item_inv[of st rng "\<lparr>kind = kText, strTenant = t, strName = [], strFrom = from,
             strText = c, vecData = [], nCreateMs = now, nSeq = 0\<rparr>" i st']
  by (auto simp: SaveText_def payload_def split: if_splits)

lemma SaveFile_inv: "fs_inv st \<Longrightarrow> SaveFile rng now t n d from l st = Some (i, st') \<Longrightarrow> fs_inv st'"
  using store_item_inv[of st rng "\<lparr>kind = kFile, strTenant = t, strName = (if n = [] then ''file.bin'' else n),
             strFrom = from, strText = [], vecData = the d, nCreateMs = now, nSeq = 0\<rparr>" i st']
  by (auto simp: SaveFile_def payload_def split: if_splits option.splits)

lemma Clear_inv: "fs_inv st \<Longrightarrow> fs_inv (Clear st)"
  by (simp add: Clear_def fs_inv_def Count_def TotalBytes_def t_count_def t_bytes_def)

lemma fs_step_inv: "fs_inv st \<Longrightarrow> fs_step rng op st = Some st' \<Longrightarrow> fs_inv st'"
  by (cases op) (auto intro: SaveText_inv SaveFile_inv Remove_inv Clear_inv)

lemma fs_run_inv: "fs_run rng ops st = Some st' \<Longrightarrow> fs_inv st \<Longrightarrow> fs_inv st'"
  by (induction ops arbitrary: st) (auto intro: fs_step_inv split: option.splits)

definition reached :: "(nat \<Rightarrow> nat) \<Rightarrow> fs_op list \<Rightarrow> nat \<Rightarrow> file_store \<Rightarrow> bool" where
  "reached rng ops n st \<longleftrightarrow> fs_run rng ops (CFileStore n) = Some st"

lemma reached_inv: "reached rng ops n st \<Longrightarrow> fs_inv st"
  using fs_run_inv fs_inv_init by (auto simp: reached_def)

subsection \<open>Effect of a save\<close>

lemma store_item_effect:
  assumes "fs_inv st" and "store_item rng it n st = Some (i, st')"
  shows "i \<noteq> [] \<and> sm_find (m_mapItems st) i = None \<and> m_nNextSeq st' = m_nNextSeq st + 1
    \<and> m_mapItems st' = sm_put i (it\<lparr>nSeq := m_nNextSeq st + 1\<rparr>) (m_mapItems st)
    \<and> (\<forall>t. t \<noteq> strTenant it \<longrightarrow> Count t st' = Count t st \<and> TotalBytes t st' = TotalBytes t st)
    \<and> Count (strTenant it) st' = Count (strTenant it) st + 1
    \<and> TotalBytes (strTenant it) st' = TotalBytes (strTenant it) st + n"
proof -
  from assms(2) obtain k where g: "GenerateId rng (m_nIdLen st) (m_mapItems st) (m_nDraws st) = Some (i, k)"
    and st': "st' = st\<lparr>m_nNextSeq := m_nNextSeq st + 1, m_nDraws := k,
                m_mapItems := sm_put i (it\<lparr>nSeq := m_nNextSeq st + 1\<rparr>) (m_mapItems st),
                m_mapStats := sm_put (strTenant it)
                  \<lparr>nItems = nItems (tenant_stats (strTenant it) st) + 1,
                   nBytes = nBytes (tenant_stats (strTenant it) st) + n\<rparr> (m_mapStats st)\<rparr>"
    by (auto simp: store_item_def Let_def split: option.splits)
  have "nItems (tenant_stats t st) = Count t st \<and> nBytes (tenant_stats t st) = TotalBytes t st" for t
    by (simp add: tenant_stats_def Count_def TotalBytes_def split: option.split)
  with GenerateId_fresh[OF g] assms(1) show ?thesis
    by (auto simp: fs_inv_def st' Count_def TotalBytes_def)
qed

subsection \<open>Properties\<close>

text \<open>In every state the store can reach, the quota counters of each tenant are exact:
  \<open>Count\<close> is the number of the tenant's items and \<open>TotalBytes\<close> the sum of their sizes, as
  \<open>List\<close> shows them.\<close>

theorem store_counters_exact:
  assumes "reached rng ops n st"
  shows "Count t st = length (tenant_infos (\<lambda>_. True) t st)
    \<and> TotalBytes t st = sum_list (map info_nSize (tenant_infos (\<lambda>_. True) t st))"
proof -
  have "t_count t m = length (filter (\<lambda>(i, it). strTenant it = t) m)" for m
    by (induction m) (auto simp: t_count_def sm_sum_def)
  moreover have "t_bytes t m = sum_list (map info_nSize (map (\<lambda>(i, it). info_of i it)
      (filter (\<lambda>(i, it). strTenant it = t) m)))" for m
    by (induction m) (auto simp: t_bytes_def sm_sum_def info_of_def)
  ultimately show ?thesis using reached_inv[OF assms] by (simp add: fs_inv_def tenant_infos_def)
qed

text \<open>Draws 0, 1, 2, \<dots>: the codes of length one are the letters of the alphabet in order.\<close>

definition no_limits :: store_limits where
  "no_limits = \<lparr>nMaxItems = 0, nMaxTotalBytes = 0, nMaxItemBytes = 0\<rparr>"

definition demo_fs_ops :: "fs_op list" where
  "demo_fs_ops = [FsSaveText 10 ''t1'' ''hello'' [] no_limits, FsSaveFile 11 ''t2'' [] (Some ''abc'') [] no_limits,
     FsSaveText 12 ''t1'' ''you'' [] no_limits, FsRemove ''t1'' ''2'']"

definition demo_fs :: file_store where
  "demo_fs = \<lparr>m_nIdLen = 1,
     m_mapItems = [(''3'', \<lparr>kind = kFile, strTenant = ''t2'', strName = ''file.bin'', strFrom = [],
                            strText = [], vecData = ''abc'', nCreateMs = 11, nSeq = 2\<rparr>),
                   (''4'', \<lparr>kind = kText, strTenant = ''t1'', strName = [], strFrom = [],
                            strText = ''you'', vecData = [], nCreateMs = 12, nSeq = 3\<rparr>)],
     m_mapStats = [(''t1'', \<lparr>nItems = 1, nBytes = 3\<rparr>), (''t2'', \<lparr>nItems = 1, nBytes = 3\<rparr>)],
     m_nNextSeq = 3, m_nDraws = 3\<rparr>"

lemma demo_fs_reached: "reached (\<lambda>k. k) demo_fs_ops 1 demo_fs"
  by code_simp

theorem store_counters_exact_witness:
  "Count ''t1'' demo_fs = length (tenant_infos (\<lambda>_. True) ''t1'' demo_fs) \<and> Count ''t1'' demo_fs = 1"
  using store_counters_exact[OF demo_fs_reached, of "''t1''"] by code_simp

text \<open>Entries that another tenant owns do not show in a tenant's view.\<close>

lemma filter_put_new: "sm_find m k = None \<Longrightarrow> \<not> P (k, v) \<Longrightarrow> filter P (sm_put k v m) = filter P m"
  by (induction k v m rule: sm_put.induct) (auto simp: sm_find_def split: if_splits)

lemma filter_put_only:
  "sm_find m k = None \<Longrightarrow> P (k, v) \<Longrightarrow> filter P m = [] \<Longrightarrow> filter P (sm_put k v m) = [(k, v)]"
  by (induction k v m rule: sm_put.induct) (auto simp: sm_find_def split: if_splits)

lemma filter_erase:
  "sm_ok m \<Longrightarrow> sm_find m k = Some v \<Longrightarrow> \<not> P (k, v) \<Longrightarrow> filter P (sm_erase k m) = filter P m"
  unfolding sm_erase_def filter_filter
  by (rule filter_cong) (auto simp: sm_find_Some_iff[symmetric])

text \<open>Every query of the interface takes the tenant; this is all one can ask about it.  The listing by
  time is taken for every way the sort may order the items.\<close>

definition tenant_view :: "string \<Rightarrow> file_store \<Rightarrow> _" where
  "tenant_view u st = (\<lambda>i. (GetInfo u i st, GetText u i st, GetFile u i st), \<lambda>sorter. ListItems sorter u st,
     \<lambda>k. ListSince u k st, Count u st, TotalBytes u st)"

lemma tenant_view_store:
  assumes "fs_inv st" and "store_item rng it n st = Some (i, st')" and "strTenant it \<noteq> u"
  shows "tenant_view u st' = tenant_view u st"
  using store_item_effect[OF assms(1,2)] assms(3)
  by (auto simp: tenant_view_def GetInfo_def GetText_def GetFile_def ListItems_def ListSince_def tenant_infos_def
      filter_put_new fun_eq_iff)

lemma tenant_view_remove:
  assumes "fs_inv st" and "t \<noteq> u"
  shows "tenant_view u (snd (Remove t i st)) = tenant_view u st"
proof (cases "\<exists>it. sm_find (m_mapItems st) i = Some it \<and> strTenant it = t")
  case True
  then obtain it where it: "sm_find (m_mapItems st) i = Some it" "strTenant it = t" by blast
  have "sm_ok (m_mapItems st)" using assms(1) by (simp add: fs_inv_def)
  note filter = filter_erase[OF this it(1)]
  have "m_mapItems (snd (Remove t i st)) = sm_erase i (m_mapItems st)"
    and "Count u (snd (Remove t i st)) = Count u st" "TotalBytes u (snd (Remove t i st)) = TotalBytes u st"
    using it assms(2) by (auto simp: Remove_def Let_def Count_def TotalBytes_def split: option.split)
  then show ?thesis
    using it assms(2)
    by (auto simp: tenant_view_def GetInfo_def GetText_def GetFile_def ListItems_def ListSince_def tenant_infos_def
        filter fun_eq_iff)
qed (auto simp: Remove_def split: option.split)

fun op_tenant :: "fs_op \<Rightarrow> string option" where
  "op_tenant (FsSaveText now t c from l) = Some t"
| "op_tenant (FsSaveFile now t n d from l) = Some t"
| "op_tenant (FsRemove t i) = Some t"
| "op_tenant FsClear = None"

text \<open>C26. Tenants do not see each other: an operation that one tenant makes and that returns, an
  attempt to remove another tenant's item included, changes nothing another tenant can observe:
  neither what its lookups return, nor its listings, full or incremental, nor its counters.
  (A save that finds every code in use does not return and keeps the store locked; it is the
  one operation without a following state.)\<close>

theorem store_tenant_isolation:
  assumes "reached rng ops n st" and "fs_step rng op st = Some st'"
    and "op_tenant op = Some t" and "t \<noteq> u"
  shows "tenant_view u st' = tenant_view u st"
  using assms(2-4) reached_inv[OF assms(1)]
  by (cases op) (auto simp: SaveText_def SaveFile_def tenant_view_store tenant_view_remove
      split: if_splits option.splits)

theorem store_tenant_isolation_witness:
  "tenant_view ''t2'' (snd (Remove ''t1'' ''3'' demo_fs)) = tenant_view ''t2'' demo_fs"
  using store_tenant_isolation[OF demo_fs_reached, of "FsRemove ''t1'' ''3''" _ "''t1''" "''t2''"] by simp

text \<open>C27. A text that was accepted is returned under its code to its tenant and to no other; the
  code was not in use, so no other item is replaced; and the new item is exactly what an
  incremental listing from the previous sequence number shows.\<close>

theorem save_text_lookup:
  assumes "reached rng ops n st" and "SaveText rng now t c from l st = Some (i, st')" and "i \<noteq> []"
  shows "GetText t i st' = Some c \<and> (\<forall>u. u \<noteq> t \<longrightarrow> GetText u i st' = None)
    \<and> (\<forall>u. GetInfo u i st = None) \<and> (\<forall>u j. j \<noteq> i \<longrightarrow> GetText u j st' = GetText u j st)
    \<and> map info_strId (ListSince t (m_nNextSeq st) st') = [i]"
proof -
  let ?it = "\<lparr>kind = kText, strTenant = t, strName = [], strFrom = from,
             strText = c, vecData = [], nCreateMs = now, nSeq = 0\<rparr>"
  note inv = reached_inv[OF assms(1)]
  have "store_item rng ?it (length c) st = Some (i, st')"
    using assms(2,3) by (auto simp: SaveText_def split: if_splits)
  note eff = store_item_effect[OF inv this]
  let ?P = "\<lambda>(j, it). strTenant it = t \<and> nSeq it > m_nNextSeq st"
  have "filter ?P (m_mapItems st) = []" using inv by (fastforce simp: fs_inv_def filter_empty_conv)
  then have "filter ?P (m_mapItems st') = [(i, ?it\<lparr>nSeq := m_nNextSeq st + 1\<rparr>)]"
    using eff filter_put_only[of "m_mapItems st" i ?P "?it\<lparr>nSeq := m_nNextSeq st + 1\<rparr>"] by auto
  with eff show ?thesis
    by (auto simp: GetText_def GetInfo_def ListSince_def tenant_infos_def info_of_def)
qed

theorem save_text_lookup_witness:
  "GetText ''t1'' ''5'' (snd (the (SaveText (\<lambda>k. k) 20 ''t1'' ''x'' [] no_limits demo_fs))) = Some ''x''"
proof -
  have "SaveText (\<lambda>k. k) 20 ''t1'' ''x'' [] no_limits demo_fs \<noteq> None"
    and "fst (the (SaveText (\<lambda>k. k) 20 ''t1'' ''x'' [] no_limits demo_fs)) = ''5''" by code_simp+
  then obtain st' where "SaveText (\<lambda>k. k) 20 ''t1'' ''x'' [] no_limits demo_fs = Some (''5'', st')"
    by auto
  then show ?thesis using save_text_lookup[OF demo_fs_reached, of 20 "''t1''" "''x''" "[]" no_limits "''5''"] by simp
qed

text \<open>The incremental listing never misses or repeats an item: it is strictly ascending in
  the sequence number, and the full listing is the part up to any cursor followed by the listing
  since that cursor.\<close>

theorem list_since_incremental:
  assumes "reached rng ops n st"
  shows "sorted_wrt (<) (map info_nSeq (ListSince t k st))
    \<and> ListSince t 0 st = filter (\<lambda>x. info_nSeq x \<le> k) (ListSince t 0 st) @ ListSince t k st
    \<and> mset (ListSince t 0 st) = mset (tenant_infos (\<lambda>_. True) t st)"
proof -
  note inv = reached_inv[OF assms]
  have "info_nSeq \<circ> (\<lambda>(i, it). info_of i it) = nSeq \<circ> snd" by (auto simp: info_of_def)
  then have dist: "distinct (map info_nSeq (tenant_infos P t st))" for P
    using inv by (simp add: tenant_infos_def fs_inv_def distinct_map_filter)
  have "sorted (map info_nSeq (ListSince t k st))" for k by (simp add: ListSince_def)
  moreover have dk: "distinct (map info_nSeq (ListSince t k st))" for k
    using dist by (simp add: ListSince_def distinct_map)
  ultimately have strict: "sorted_wrt (<) (map info_nSeq (ListSince t k st))" for k
    by (simp add: strict_sorted_iff)
  have all: "ListSince t 0 st = sort_key info_nSeq (tenant_infos (\<lambda>_. True) t st)"
    using inv by (auto simp: ListSince_def tenant_infos_def fs_inv_def intro!: arg_cong[of _ _ "sort_key info_nSeq"]
        arg_cong[of _ _ "map _"] filter_cong)
  have since: "ListSince t k st = filter (\<lambda>x. \<not> info_nSeq x \<le> k) (ListSince t 0 st)"
    unfolding all ListSince_def tenant_infos_def filter_sort filter_map
    by (auto simp: comp_def info_of_def conj_commute intro!: arg_cong[of _ _ "sort_key info_nSeq"]
        arg_cong[of _ _ "map _"] filter_cong)
  have split: "xs = filter (\<lambda>x. info_nSeq x \<le> k) xs @ filter (\<lambda>x. \<not> info_nSeq x \<le> k) xs"
    if "sorted (map info_nSeq xs)" for xs
    using that
  proof (induction xs)
    case (Cons x xs)
    have "filter (\<lambda>x. info_nSeq x \<le> k) xs = []" if "\<not> info_nSeq x \<le> k"
      using Cons.prems that by (auto simp: filter_empty_conv)
    with Cons show ?case by auto
  qed simp
  show ?thesis
    unfolding since
    by (intro conjI split) (use strict[of k] since in simp, simp add: ListSince_def, simp add: all)
qed

theorem list_since_incremental_witness:
  "sorted_wrt (<) (map info_nSeq (ListSince ''t2'' 0 demo_fs)) \<and> length (ListSince ''t2'' 0 demo_fs) = 1"
  using list_since_incremental[OF demo_fs_reached, of "''t2''" 0] by code_simp

subsection \<open>Quotas and the search for a code\<close>

fun op_limits :: "string \<Rightarrow> fs_op \<Rightarrow> store_limits option" where
  "op_limits u (FsSaveText now t c from l) = (if t = u then Some l else None)"
| "op_limits u (FsSaveFile now t n d from l) = (if t = u then Some l else None)"
| "op_limits u _ = None"

definition within :: "store_limits \<Rightarrow> string \<Rightarrow> file_store \<Rightarrow> bool" where
  "within l t st \<longleftrightarrow> (nMaxItems l > 0 \<longrightarrow> Count t st \<le> nMaxItems l)
     \<and> (nMaxTotalBytes l > 0 \<longrightarrow> TotalBytes t st \<le> nMaxTotalBytes l)"

lemma stats_view: "nItems (tenant_stats t st) = Count t st" "nBytes (tenant_stats t st) = TotalBytes t st"
  by (simp_all add: tenant_stats_def Count_def TotalBytes_def split: option.split)

lemma within_store:
  assumes "fs_inv st" and "within l t st" and "store_item rng it n st = Some (i, st')"
    and "strTenant it = t \<Longrightarrow> \<not> over_quota l (tenant_stats t st) n"
  shows "within l t st'"
  using store_item_effect[OF assms(1,3)] assms(2,4)
  by (cases "strTenant it = t") (auto simp: within_def over_quota_def stats_view)

lemma counters_Remove:
  assumes "fs_inv st"
  shows "Count u (snd (Remove t i st)) \<le> Count u st \<and> TotalBytes u (snd (Remove t i st)) \<le> TotalBytes u st"
  by (auto simp: Remove_def Let_def Count_def TotalBytes_def split: option.split)

lemma within_step:
  assumes "fs_inv st" and "within l u st" and "fs_step rng op st = Some st'"
    and "op_limits u op \<in> {None, Some l}"
  shows "within l u st'"
proof (cases op)
  case (FsRemove t i)
  then show ?thesis
    using assms counters_Remove[OF assms(1), of u t i] by (auto simp: within_def)
next
  case FsClear
  then show ?thesis using assms(3) by (auto simp: within_def Clear_def Count_def TotalBytes_def)
next
  case (FsSaveText now t c src l')
  then show ?thesis
    using assms by (auto simp: SaveText_def split: if_splits intro!: within_store[OF assms(1,2)])
next
  case (FsSaveFile now t nm d src l')
  then show ?thesis
    using assms by (auto simp: SaveFile_def split: if_splits option.splits intro!: within_store[OF assms(1,2)])
qed

text \<open>When all saves of a tenant are made with the same limits, the tenant never has more
  items, and never occupies more bytes, than those limits say, whatever other tenants do.\<close>

theorem store_quota_respected:
  assumes "reached rng ops n st" and "\<forall>op \<in> set ops. op_limits t op \<in> {None, Some l}"
  shows "within l t st"
proof -
  have "within l t st'" if "fs_run rng ops st0 = Some st'" "fs_inv st0" "within l t st0"
    "\<forall>op \<in> set ops. op_limits t op \<in> {None, Some l}" for ops st0 st'
    using that
  proof (induction ops arbitrary: st0)
    case (Cons op ops)
    then obtain st1 where s: "fs_step rng op st0 = Some st1" "fs_run rng ops st1 = Some st'"
      by (auto split: option.splits)
    then show ?case
      using Cons.IH[OF s(2)] Cons.prems fs_step_inv[OF _ s(1)] within_step[OF _ _ s(1), of l t] by auto
  qed simp
  from this[of ops "CFileStore n"] show ?thesis
    using assms fs_inv_init by (simp add: reached_def within_def CFileStore_def Count_def TotalBytes_def)
qed

definition one_item :: store_limits where
  "one_item = \<lparr>nMaxItems = 1, nMaxTotalBytes = 0, nMaxItemBytes = 0\<rparr>"

definition greedy_ops :: "fs_op list" where
  "greedy_ops = [FsSaveText 10 ''t1'' ''hello'' [] one_item, FsSaveText 12 ''t1'' ''you'' [] one_item]"

theorem store_quota_respected_witness:
  "Count ''t1'' (the (fs_run (\<lambda>k. k) greedy_ops (CFileStore 1))) \<le> 1"
proof -
  have "fs_run (\<lambda>k. k) greedy_ops (CFileStore 1) \<noteq> None" by code_simp
  then have "reached (\<lambda>k. k) greedy_ops 1 (the (fs_run (\<lambda>k. k) greedy_ops (CFileStore 1)))"
    by (simp add: reached_def)
  moreover have "\<forall>op \<in> set greedy_ops. op_limits ''t1'' op \<in> {None, Some one_item}"
    by (simp add: greedy_ops_def)
  ultimately show ?thesis
    using store_quota_respected[of "\<lambda>k. k" greedy_ops 1 _ "''t1''" one_item] by (simp add: within_def one_item_def)
qed

lemma GenerateId_returns:
  "sm_find items (draw_id rng (k + j * n) n) = None \<Longrightarrow> GenerateId rng n items k \<noteq> None"
proof (induction j arbitrary: k)
  case (Suc j)
  then show ?case
    using Suc.IH[of "k + n"] by (subst GenerateId.simps) (auto simp: Let_def algebra_simps)
qed (simp add: GenerateId.simps Let_def)

text \<open>The search for a code ends as soon as some block of draws is a code not in use; but
  when every code of the configured length is in use, it never ends: a save that passes its
  checks then does not return (and the store's mutex stays locked).\<close>

theorem generate_id_termination:
  "((\<exists>j. sm_find (m_mapItems st) (draw_id rng (m_nDraws st + j * m_nIdLen st) (m_nIdLen st)) = None) \<longrightarrow>
      GenerateId rng (m_nIdLen st) (m_mapItems st) (m_nDraws st) \<noteq> None)
   \<and> ((\<forall>i. length i = m_nIdLen st \<and> set i \<subseteq> set kIdChars \<longrightarrow> sm_find (m_mapItems st) i \<noteq> None) \<longrightarrow>
      t \<noteq> [] \<longrightarrow> c \<noteq> [] \<longrightarrow> \<not> over_quota l (tenant_stats t st) (length c) \<longrightarrow>
      SaveText rng now t c from l st = None)"
proof (intro conjI impI)
  assume "\<exists>j. sm_find (m_mapItems st) (draw_id rng (m_nDraws st + j * m_nIdLen st) (m_nIdLen st)) = None"
  then show "GenerateId rng (m_nIdLen st) (m_mapItems st) (m_nDraws st) \<noteq> None"
    using GenerateId_returns by blast
next
  assume full: "\<forall>i. length i = m_nIdLen st \<and> set i \<subseteq> set kIdChars \<longrightarrow> sm_find (m_mapItems st) i \<noteq> None"
    and pass: "t \<noteq> []" "c \<noteq> []" "\<not> over_quota l (tenant_stats t st) (length c)"
  have "GenerateId rng (m_nIdLen st) (m_mapItems st) (m_nDraws st) = None"
  proof (rule ccontr)
    assume "GenerateId rng (m_nIdLen st) (m_mapItems st) (m_nDraws st) \<noteq> None"
    then obtain r where r: "GenerateId rng (m_nIdLen st) (m_mapItems st) (m_nDraws st) = Some r" by blast
    show False using GenerateId_result[OF r] full by blast
  qed
  then show "SaveText rng now t c from l st = None"
    using pass by (simp add: SaveText_def store_item_def Let_def)
qed

text \<open>A store whose one-letter codes are all in use.\<close>

definition full_fs :: file_store where
  "full_fs = \<lparr>m_nIdLen = 1, m_mapItems = map (\<lambda>c. ([c], snd (hd (m_mapItems demo_fs)))) kIdChars,
     m_mapStats = [], m_nNextSeq = 99, m_nDraws = 0\<rparr>"

theorem generate_id_termination_witness:
  "SaveText (\<lambda>k. k) 5 ''t'' ''x'' [] no_limits full_fs = None
   \<and> GenerateId (\<lambda>k. k) (m_nIdLen demo_fs) (m_mapItems demo_fs) (m_nDraws demo_fs) \<noteq> None"
proof -
  have "sm_find (m_mapItems full_fs) i \<noteq> None" if "length i = m_nIdLen full_fs" "set i \<subseteq> set kIdChars" for i
  proof -
    note sub = that(2)
    have "length i = Suc 0" using that(1) by (simp add: full_fs_def)
    then obtain c where "i = [c]" "c \<in> set kIdChars" using sub by (auto simp: length_Suc_conv)
    then show ?thesis by (auto simp: full_fs_def sm_find_None_iff image_image simp del: not_None_eq)
  qed
  moreover have "\<not> over_quota no_limits (tenant_stats ''t'' full_fs) (length ''x'')" by code_simp
  moreover have "sm_find (m_mapItems demo_fs) (draw_id (\<lambda>k. k) (m_nDraws demo_fs + 0 * m_nIdLen demo_fs) (m_nIdLen demo_fs)) = None"
    by code_simp
  ultimately show ?thesis
    using generate_id_termination[of full_fs "\<lambda>k. k" "''t''" "''x''" no_limits 5 "[]"]
      generate_id_termination[of demo_fs "\<lambda>k. k" "''t''" "''x''" no_limits 5 "[]"] by blast
qed

end
