(* ===== verification/Config.thy ===== *)
theory Config
  imports StdMap Text
begin

text \<open>
  \<open>CConfig\<close> (\<open>src/Common/Config/Config.cpp\<close>): a flat table of configuration values.  The INI
  parser \<open>inih\<close> and the file system are outside the repository: the environment gives for each
  text and each path the return code of the parser with the handler calls it made (section,
  name, value), and for each path the modification time.
\<close>

type_synonym ini_call = "string option \<times> string \<times> string option"

record ini_env =
  ini_parse :: "string \<Rightarrow> int \<times> ini_call list"
  ini_parse_string :: "string \<Rightarrow> int \<times> ini_call list"
  stat_mtime :: "string \<Rightarrow> int option"

record config =
  m_mapValues :: "(string, string) smap"
  m_strFilePath :: string
  m_nFileMtime :: int

text \<open>The constructor leaves the time unset; it is read only once a path is set.\<close>

definition CConfig :: config where
  "CConfig = \<lparr>m_mapValues = [], m_strFilePath = [], m_nFileMtime = 0\<rparr>"

definition ini_key :: "ini_call \<Rightarrow> string" where
  "ini_key c = (case c of (sec, name, v) \<Rightarrow>
     (case sec of None \<Rightarrow> name | Some s \<Rightarrow> if s = [] then name else s @ ''.'' @ name))"

definition IniHandler :: "ini_call \<Rightarrow> (string, string) smap \<Rightarrow> (string, string) smap" where
  "IniHandler c m = sm_put (ini_key c) (case snd (snd c) of None \<Rightarrow> [] | Some v \<Rightarrow> v) m"

definition loaded :: "ini_call list \<Rightarrow> (string, string) smap" where
  "loaded calls = fold IniHandler calls []"

definition FileMtime :: "ini_env \<Rightarrow> string \<Rightarrow> int" where
  "FileMtime env path = (case stat_mtime env path of None \<Rightarrow> 0 | Some t \<Rightarrow> t)"

definition LoadFile :: "ini_env \<Rightarrow> string \<Rightarrow> config \<Rightarrow> bool \<times> config" where
  "LoadFile env path c =
     (let (nResult, calls) = ini_parse env path
      in if nResult \<noteq> 0 then (False, c)
         else (True, c\<lparr>m_mapValues := sm_insert_range (m_mapValues c) (loaded calls),
                       m_strFilePath := path, m_nFileMtime := FileMtime env path\<rparr>))"

definition ReloadIfChanged :: "ini_env \<Rightarrow> config \<Rightarrow> bool \<times> config" where
  "ReloadIfChanged env c =
     (if m_strFilePath c = [] then (False, c)
      else if FileMtime env (m_strFilePath c) \<noteq> m_nFileMtime c
      then LoadFile env (m_strFilePath c) (c\<lparr>m_mapValues := []\<rparr>)
      else (False, c))"

definition Parse :: "ini_env \<Rightarrow> string \<Rightarrow> config \<Rightarrow> bool \<times> config" where
  "Parse env content c =
     (let (nResult, calls) = ini_parse_string env content
      in if nResult \<noteq> 0 then (False, c)
         else (True, c\<lparr>m_mapValues := sm_insert_range (m_mapValues c) (loaded calls)\<rparr>))"

definition GetString :: "string \<Rightarrow> string \<Rightarrow> config \<Rightarrow> string" where
  "GetString key def c = (case sm_find (m_mapValues c) key of None \<Rightarrow> def | Some v \<Rightarrow> v)"

text \<open>\<open>std::atoi\<close>: leading white space, an optional sign, the digits up to the first other
  character.  A value outside \<open>int\<close> is undefined in C and not considered.\<close>

definition is_space :: "char \<Rightarrow> bool" where
  "is_space c \<longleftrightarrow> c = CHR 0x20 \<or> (9 \<le> (of_char c :: nat) \<and> (of_char c :: nat) \<le> 13)"

definition is_digit :: "char \<Rightarrow> bool" where
  "is_digit c \<longleftrightarrow> 48 \<le> (of_char c :: nat) \<and> (of_char c :: nat) \<le> 57"

definition digits_value :: "string \<Rightarrow> int" where
  "digits_value s = foldl (\<lambda>n c. 10 * n + (of_char c - 48)) 0 (takeWhile is_digit s)"

definition atoi :: "string \<Rightarrow> int" where
  "atoi s =
     (case dropWhile is_space s of
        [] \<Rightarrow> 0
      | c # cs \<Rightarrow> if c = CHR ''-'' then - digits_value cs
                  else if c = CHR ''+'' then digits_value cs else digits_value (c # cs))"

definition GetInt :: "string \<Rightarrow> int \<Rightarrow> config \<Rightarrow> int" where
  "GetInt key def c = (case sm_find (m_mapValues c) key of None \<Rightarrow> def | Some v \<Rightarrow> atoi v)"

definition GetBool :: "string \<Rightarrow> bool \<Rightarrow> config \<Rightarrow> bool" where
  "GetBool key def c =
     (case sm_find (m_mapValues c) key of
        None \<Rightarrow> def
      | Some v \<Rightarrow> v = ''true'' \<or> v = ''1'' \<or> v = ''yes'' \<or> v = ''on'')"

definition Has :: "string \<Rightarrow> config \<Rightarrow> bool" where
  "Has key c \<longleftrightarrow> sm_find (m_mapValues c) key \<noteq> None"

definition Clear :: "config \<Rightarrow> config" where
  "Clear c = c\<lparr>m_mapValues := [], m_strFilePath := [], m_nFileMtime := 0\<rparr>"

subsection \<open>Lookup\<close>

text \<open>The value one text gives a key: the last one it sets.\<close>

definition ini_value :: "ini_call list \<Rightarrow> string \<Rightarrow> string option" where
  "ini_value calls key =
     map_option (\<lambda>c. case snd (snd c) of None \<Rightarrow> [] | Some v \<Rightarrow> v)
       (List.find (\<lambda>c. ini_key c = key) (rev calls))"

lemma loaded_value: "sm_find (loaded calls) key = ini_value calls key"
proof -
  have "sm_find (fold IniHandler calls m) key = (case ini_value calls key of None \<Rightarrow> sm_find m key | Some v \<Rightarrow> Some v)" for m
    by (induction calls arbitrary: m)
      (auto simp: ini_value_def IniHandler_def find_append split: option.split)
  then show ?thesis by (simp add: loaded_def split: option.split)
qed

text \<open>After a text was parsed successfully, a key that was set before keeps its value; a
  new key has the last value the text gives it; and a text the parser rejects changes nothing.\<close>

theorem config_parse_lookup:
  "fst (Parse env content c) = (fst (ini_parse_string env content) = 0)
   \<and> GetString key d (snd (Parse env content c)) =
      (case sm_find (m_mapValues c) key of
         Some v \<Rightarrow> v
       | None \<Rightarrow> if fst (ini_parse_string env content) = 0
                 then (case ini_value (snd (ini_parse_string env content)) key of None \<Rightarrow> d | Some v \<Rightarrow> v)
                 else d)"
  by (auto simp: Parse_def GetString_def Let_def sm_find_insert_range loaded_value split: prod.split option.split)

text \<open>Two files that set the same key.\<close>

definition two_files :: ini_env where
  "two_files = \<lparr>ini_parse = (\<lambda>p. if p = ''a.ini'' then (0, [(Some ''net'', ''port'', Some ''9000'')])
                                 else if p = ''b.ini'' then (0, [(Some ''net'', ''port'', Some ''8000'')])
                                 else (-1, [])),
     ini_parse_string = (\<lambda>_. (0, [])), stat_mtime = (\<lambda>_. Some 1)\<rparr>"

text \<open>Loading a second file does not override the first one, as the interface documents:
  the value loaded first stays.\<close>

theorem config_first_load_wins:
  "GetInt ''net.port'' 0 (snd (LoadFile two_files ''b.ini'' (snd (LoadFile two_files ''a.ini'' CConfig)))) = 9000
   \<and> GetInt ''net.port'' 0 (snd (LoadFile two_files ''b.ini'' CConfig)) = 8000"
  by code_simp

text \<open>\<open>ReloadIfChanged\<close> does nothing as long as the file's time is the recorded one.  When it
  has changed and the file parses, the table is replaced by what the file now says.  When it has
  changed and does not parse, for instance because it is just being written, the call reports
  no reload, but every value is gone and all lookups return their defaults.\<close>

theorem config_reload:
  assumes "m_strFilePath c \<noteq> []"
  shows "(FileMtime env (m_strFilePath c) = m_nFileMtime c \<longrightarrow> ReloadIfChanged env c = (False, c))
    \<and> (FileMtime env (m_strFilePath c) \<noteq> m_nFileMtime c \<longrightarrow> fst (ini_parse env (m_strFilePath c)) = 0 \<longrightarrow>
         fst (ReloadIfChanged env c)
         \<and> (\<forall>key d. GetString key d (snd (ReloadIfChanged env c)) =
              (case ini_value (snd (ini_parse env (m_strFilePath c))) key of None \<Rightarrow> d | Some v \<Rightarrow> v))
         \<and> m_nFileMtime (snd (ReloadIfChanged env c)) = FileMtime env (m_strFilePath c))
    \<and> (FileMtime env (m_strFilePath c) \<noteq> m_nFileMtime c \<longrightarrow> fst (ini_parse env (m_strFilePath c)) \<noteq> 0 \<longrightarrow>
         \<not> fst (ReloadIfChanged env c)
         \<and> (\<forall>key d. GetString key d (snd (ReloadIfChanged env c)) = d))"
  using assms
  by (auto simp: ReloadIfChanged_def LoadFile_def GetString_def Let_def sm_find_insert_range loaded_value
      split: prod.split option.split)

theorem config_reload_witness:
  "\<not> fst (ReloadIfChanged (two_files\<lparr>ini_parse := \<lambda>_. (3, []), stat_mtime := \<lambda>_. Some 2\<rparr>) (snd (LoadFile two_files ''a.ini'' CConfig)))
   \<and> GetString ''net.port'' ''none''
       (snd (ReloadIfChanged (two_files\<lparr>ini_parse := \<lambda>_. (3, []), stat_mtime := \<lambda>_. Some 2\<rparr>) (snd (LoadFile two_files ''a.ini'' CConfig)))) = ''none''"
proof -
  let ?c = "snd (LoadFile two_files ''a.ini'' CConfig)"
    and ?env = "two_files\<lparr>ini_parse := \<lambda>_. (3, []), stat_mtime := \<lambda>_. Some 2\<rparr>"
  have "m_strFilePath ?c \<noteq> []" "FileMtime ?env (m_strFilePath ?c) \<noteq> m_nFileMtime ?c"
    "fst (ini_parse ?env (m_strFilePath ?c)) \<noteq> 0"
    by code_simp+
  then show ?thesis using config_reload[of ?c ?env] by blast
qed

subsection \<open>Numbers\<close>

lemma digit_char: "d < 10 \<Longrightarrow> is_digit (char_of (48 + d)) \<and> (of_char (char_of (48 + d)) :: int) = 48 + int d"
  unfolding of_nat_of_char[symmetric, where 'a = int] by (simp add: is_digit_def of_char_of)

lemma decimal_value:
  "list_all is_digit (decimal n) \<and> foldl (\<lambda>n c. 10 * n + (of_char c - 48)) 0 (decimal n) = int n \<and> decimal n \<noteq> []"
proof (induction n rule: decimal.induct)
  case (1 n)
  show ?case
  proof (cases "n < 10")
    case True
    then show ?thesis using digit_char[of n] by (subst (1 2 3) decimal.simps) simp
  next
    case False
    have "10 * int (n div 10) + int (n mod 10) = int (10 * (n div 10) + n mod 10)"
      by (simp only: of_nat_add of_nat_mult of_nat_numeral)
    also have "\<dots> = int n" by (simp only: mult_div_mod_eq)
    finally have "10 * int (n div 10) + int (n mod 10) = int n" .
    with False 1 digit_char[of "n mod 10"] show ?thesis
      by (subst (1 2 3) decimal.simps) simp
  qed
qed

text \<open>An integer written to the configuration in decimal is read back by \<open>GetInt\<close>, also
  with white space before it and other text after it.\<close>

theorem config_int_roundtrip:
  assumes "sm_find (m_mapValues c) key = Some (ws @ decimal_int i @ rest)"
    and "list_all is_space ws" and "rest = [] \<or> \<not> is_digit (hd rest)"
  shows "GetInt key d c = i"
proof -
  have tw: "takeWhile is_digit (decimal n @ rest) = decimal n" for n
    using decimal_value[of n] assms(3) by (cases rest) (auto simp: list_all_iff takeWhile_append)
  have val: "digits_value (decimal n @ rest) = int n" for n
    using decimal_value[of n] by (simp add: digits_value_def tw)
  have hd: "\<exists>x xs. decimal n = x # xs \<and> is_digit x" for n
    using decimal_value[of n] by (cases "decimal n") auto
  have ndig: "\<not> is_space x \<and> x \<noteq> CHR ''-'' \<and> x \<noteq> CHR ''+''" if "is_digit x" for x
    using that by (auto simp: is_digit_def is_space_def)
  have "dropWhile is_space (ws @ s) = dropWhile is_space s" for s
    using assms(2) by (induction ws) auto
  then have "atoi (ws @ decimal_int i @ rest) = i"
  proof (cases "i < 0")
    case True
    have "\<not> is_space (CHR ''-'')" by (simp add: is_space_def)
    then show ?thesis
      using True val[of "nat (- i)"] \<open>\<And>s. dropWhile is_space (ws @ s) = dropWhile is_space s\<close>
      by (simp add: atoi_def decimal_int_def)
  next
    case False
    obtain x xs where x: "decimal (nat i) = x # xs" "is_digit x" using hd by blast
    then show ?thesis
      using False val[of "nat i"] ndig[OF x(2)] \<open>\<And>s. dropWhile is_space (ws @ s) = dropWhile is_space s\<close>
      by (simp add: atoi_def decimal_int_def)
  qed
  then show ?thesis using assms(1) by (simp add: GetInt_def)
qed

theorem config_int_roundtrip_witness:
  "GetInt ''k'' 0 (CConfig\<lparr>m_mapValues := [(''k'', ''  -42 ms'')]\<rparr>) = -42"
proof -
  have "''-42'' = decimal_int (-42)" by code_simp
  then show ?thesis
    using config_int_roundtrip[of "CConfig\<lparr>m_mapValues := [(''k'', ''  -42 ms'')]\<rparr>" "''k''" "''  ''" "-42" "'' ms''" 0]
    by (simp add: sm_find_def is_space_def is_digit_def)
qed

end
