(* ===== verification/PromiseOwnership.thy ===== *)
theory PromiseOwnership
  imports Promise
begin

text \<open>
  Who is responsible for a layer.  Every pending layer that is not left to a starter has exactly
  one closure that will run or settle it: a handler on another pending layer, a task that is posted,
  an action on a thread's stack, or a task that was accepted and then dropped by a stopped
  executor; a settled layer has none.  Counting these
  closures gives that a layer is settled, and its user code run, once, that no layer is
  forgotten, and, with a weight for each closure, that the system comes to rest.
\<close>

subsection \<open>Counting\<close>

fun owner :: "'c handler \<Rightarrow> nat option" where
  "owner (AfterThen core L fn) = Some L"
| "owner (AfterResult core L fn eMode) = Some L"
| "owner (AfterPromise core L given) = Some L"
| "owner (Notice n) = None"
| "owner (NoticeOn e n) = None"
| "owner (AdoptChild L) = Some L"
| "owner (Bridge x L) = Some L"

fun target :: "'c action \<Rightarrow> nat option" where
  "target (Call h r) = owner h"
| "target (RunLayer core L body bRetried) = Some L"
| "target (DoAdopt core L given) = Some L"
| "target (BindChild x L child u) = Some L"
| "target (RunStarter L) = Some L"
| "target (RunNotice n r) = None"
| "target (Settle L r) = Some L"
| "target EndInline = None"
| "target EndTask = None"

text \<open>A weight on handlers and actions; the two uses are the number of closures responsible for
  one layer, and the amount of work left.\<close>

definition layer_sum :: "('c handler \<Rightarrow> nat) \<Rightarrow> 'c handler pstate list \<Rightarrow> nat" where
  "layer_sum f ls = sum_list (map (\<lambda>st. sum_list (map f (pending_handlers st))) ls)"

definition thread_sum :: "('c action \<Rightarrow> nat) \<Rightarrow> 'c thread list \<Rightarrow> nat" where
  "thread_sum f ths = sum_list (map (\<lambda>th. sum_list (map f (t_stack th))) ths)"

definition posted_sum :: "('c action \<Rightarrow> nat) \<Rightarrow> (nat \<times> TaskKind \<times> 'c action) list \<Rightarrow> nat" where
  "posted_sum f ps = sum_list (map (\<lambda>(e, k, a). f a) ps)"

lemma sum_list_update_add:
  "i < length xs \<Longrightarrow> sum_list (map f (xs[i := y])) + f (xs ! i) = sum_list (map f xs) + (f y :: nat)"
proof (induction xs arbitrary: i)
  case (Cons x xs)
  then show ?case by (cases i) (simp_all add: add_ac)
qed simp

lemma layer_sum_update:
  "U < length ls \<Longrightarrow> layer_sum f (ls[U := st]) + sum_list (map f (pending_handlers (ls ! U)))
     = layer_sum f ls + sum_list (map f (pending_handlers st))"
  unfolding layer_sum_def by (rule sum_list_update_add)

lemma thread_sum_update:
  "i < length ths \<Longrightarrow> thread_sum f (ths[i := th]) + sum_list (map f (t_stack (ths ! i)))
     = thread_sum f ths + sum_list (map f (t_stack th))"
  unfolding thread_sum_def by (rule sum_list_update_add)

lemma sum_simps [simp]:
  "layer_sum f [] = 0" "layer_sum f (ls @ [st]) = layer_sum f ls + sum_list (map f (pending_handlers st))"
  "posted_sum fa [] = 0" "posted_sum fa (ps @ [(e, k, a)]) = posted_sum fa ps + fa a"
  by (simp_all add: layer_sum_def posted_sum_def)

lemma posted_sum_remove:
  "j < length ps \<Longrightarrow> posted_sum f ps = posted_sum f (take j ps @ drop (Suc j) ps) + f (snd (snd (ps ! j)))"
proof -
  assume "j < length ps"
  then have "ps = take j ps @ ps ! j # drop (Suc j) ps" by (rule id_take_nth_drop)
  then have "posted_sum f ps = posted_sum f (take j ps @ ps ! j # drop (Suc j) ps)" by simp
  then show ?thesis by (simp add: posted_sum_def split_beta)
qed

lemma Register_sum:
  "\<not> m_bSettled st \<Longrightarrow> sum_list (map f (pending_handlers (snd (Register_locked (Some h) st))))
     = sum_list (map f (pending_handlers st)) + (f h :: nat)"
  by (cases "m_handlerInline st") (simp_all add: Register_locked_def pending_handlers_def)

text \<open>The total over a configuration: \<open>fh\<close> weighs handlers, \<open>fa\<close> actions, \<open>fp\<close> posted tasks.\<close>

definition conf_sum :: "('c handler \<Rightarrow> nat) \<Rightarrow> ('c action \<Rightarrow> nat) \<Rightarrow> ('c action \<Rightarrow> nat) \<Rightarrow> 'c conf \<Rightarrow> nat" where
  "conf_sum fh fa fp c = layer_sum fh (s_layers (fst c)) + posted_sum fp (s_posted (fst c))
     + sum_list (map fa (t_stack (snd c)))"

lemma conf_sum_push [simp]: "conf_sum fh fa fp (push as c) = conf_sum fh fa fp c + sum_list (map fa as)"
  by (simp add: conf_sum_def push_def)

lemma conf_sum_log [simp]: "conf_sum fh fa fp (log_event ev c) = conf_sum fh fa fp c"
  by (simp add: conf_sum_def log_event_def)

lemma conf_sum_inline: "conf_sum fh fa fp (inline_call a c) = conf_sum fh fa fp c + fa a + fa EndInline"
  by (simp add: inline_call_def) (simp add: conf_sum_def)

lemma conf_sum_post_or:
  "conf_sum fh fa fp (post_or e k a refused c) =
     conf_sum fh fa fp c + (if s_accepts (fst c) e k then fp a else sum_list (map fa refused))"
  by (simp add: post_or_def) (simp add: conf_sum_def)

lemma conf_sum_ctx [simp]: "conf_sum fh fa fp (s\<lparr>s_ctx := x\<rparr>, th) = conf_sum fh fa fp (s, th)"
  by (simp add: conf_sum_def)

lemma conf_sum_frame [simp]: "conf_sum fh fa fp (s, th\<lparr>t_frame := x\<rparr>) = conf_sum fh fa fp (s, th)"
  "conf_sum fh fa fp (s, th\<lparr>t_depth := d\<rparr>) = conf_sum fh fa fp (s, th)"
  by (simp_all add: conf_sum_def)

lemma conf_sum_posted [simp]:
  "conf_sum fh fa fp (s\<lparr>s_posted := s_posted s @ [(e, k, a)]\<rparr>, th) = conf_sum fh fa fp (s, th) + fp a"
  by (simp add: conf_sum_def)

lemma conf_sum_Dispatch:
  "conf_sum fh fa fp (Dispatch core L a env c) =
     conf_sum fh fa fp c
     + (if inlines (fst core) (kind_of L (fst c)) env (snd c) then fa a + fa EndInline
        else if s_accepts (fst c) (fst core) (kind_of L (fst c)) then fp a else fa (Settle L kStopped))"
  by (simp add: Dispatch_def Let_def conf_sum_inline conf_sum_post_or)

lemma conf_sum_register:
  assumes "U < length (s_layers s)" and "\<not> m_bSettled (s_layers s ! U)"
  shows "conf_sum fh fa fp (s\<lparr>s_layers := (s_layers s)[U := snd (Register_locked (Some h) (s_layers s ! U))]\<rparr>, th)
     = conf_sum fh fa fp (s, th) + fh h"
  using layer_sum_update[OF assms(1), of fh "snd (Register_locked (Some h) (s_layers s ! U))"]
  by (simp add: conf_sum_def Register_sum[OF assms(2)])

lemma conf_sum_add_notice:
  assumes "U < length (s_layers (fst c))"
  shows "conf_sum fh fa fp (add_notice e U h c) = conf_sum fh fa fp c
     + (if \<not> m_bSettled (s_layers (fst c) ! U) then fh h
        else let a = Call h (m_result (s_layers (fst c) ! U))
             in if s_accepts (fst c) e kDirect then fp a else fa a + fa EndInline)"
proof (cases "m_bSettled (s_layers (fst c) ! U)")
  case True
  then show ?thesis
    by (simp add: add_notice_def Register_settled conf_sum_inline)
next
  case False
  then have "fst (Register_locked (Some h) (s_layers (fst c) ! U)) = None" by (simp add: Register_locked_def)
  then show ?thesis
    using conf_sum_register[OF assms False, of fh fa fp h "snd c"] False
    by (simp add: add_notice_def split_beta)
qed

lemma conf_sum_add_handler:
  assumes "U < length (s_layers (fst c))"
  shows "conf_sum fh fa fp (add_handler e U L h c) = conf_sum fh fa fp c
     + (if \<not> m_bSettled (s_layers (fst c) ! U) then fh h
        else if s_accepts (fst c) e (kind_of L (fst c)) then fp (Call h (m_result (s_layers (fst c) ! U)))
        else fa (Settle L kStopped))"
proof (cases "m_bSettled (s_layers (fst c) ! U)")
  case True
  then show ?thesis by (simp add: add_handler_def Register_settled conf_sum_post_or)
next
  case False
  then have "fst (Register_locked (Some h) (s_layers (fst c) ! U)) = None" by (simp add: Register_locked_def)
  then show ?thesis
    using conf_sum_register[OF assms False, of fh fa fp h "snd c"] False
    by (simp add: add_handler_def split_beta)
qed

lemma conf_sum_settle:
  assumes "L < length (s_layers (fst c))"
    and "m_bSettled (s_layers (fst c) ! L) \<Longrightarrow> pending_handlers (s_layers (fst c) ! L) = []"
  shows "conf_sum fh fa fp (settle L r c) + sum_list (map fh (pending_handlers (s_layers (fst c) ! L)))
     = conf_sum fh fa fp c + sum_list (map (\<lambda>h. fa (Call h r)) (pending_handlers (s_layers (fst c) ! L)))"
proof (cases "m_bSettled (s_layers (fst c) ! L)")
  case True
  then show ?thesis
    using assms by (simp add: settle_def Settle_settled conf_sum_def push_def)
next
  case False
  then show ?thesis
    using Settle_pending[OF False, of r] layer_sum_update[OF assms(1), of fh "snd (Settle_locked r (s_layers (fst c) ! L))"]
    by (simp add: settle_def split_beta comp_def) (simp add: conf_sum_def)
qed

subsection \<open>One closure per pending layer\<close>

definition own :: "nat \<Rightarrow> 'c handler \<Rightarrow> nat" where
  "own L h = (if owner h = Some L then 1 else 0)"

definition tgt :: "nat \<Rightarrow> 'c action \<Rightarrow> nat" where
  "tgt L a = (if target a = Some L then 1 else 0)"

text \<open>Sums over the whole system; a thread's part is exchanged when it moves.\<close>

definition sys_sum :: "('c handler \<Rightarrow> nat) \<Rightarrow> ('c action \<Rightarrow> nat) \<Rightarrow> ('c action \<Rightarrow> nat) \<Rightarrow> 'c sys \<Rightarrow> nat" where
  "sys_sum fh fa fp s = layer_sum fh (s_layers s) + posted_sum fp (s_posted s) + thread_sum fa (s_threads s)"

lemma sys_sum_put:
  "i < length (s_threads (fst c)) \<Longrightarrow>
     sys_sum fh fa fp (put i c) + sum_list (map fa (t_stack (s_threads (fst c) ! i)))
       = conf_sum fh fa fp c + thread_sum fa (s_threads (fst c))"
  using thread_sum_update[of i "s_threads (fst c)" fa "snd c"] by (simp add: put_def sys_sum_def conf_sum_def)

lemma sys_sum_on_thread:
  assumes "i < length (s_threads s)" and "s_threads (fst (f (s, s_threads s ! i))) = s_threads s"
    and "conf_sum fh fa fp (f (s, s_threads s ! i)) = conf_sum fh fa fp (s, s_threads s ! i) + d"
  shows "sys_sum fh fa fp (on_thread i f s) = sys_sum fh fa fp s + d"
  using sys_sum_put[of i "f (s, s_threads s ! i)" fh fa fp] assms
  by (simp add: on_thread_def sys_sum_def conf_sum_def)

lemma sys_sum_take:
  assumes "worker_idle i j s"
  shows "sys_sum fh fa fp (take_task i j s) + fp (snd (snd (s_posted s ! j)))
    = sys_sum fh fa fp s + fa (snd (snd (s_posted s ! j))) + fa EndTask"
proof -
  obtain e k a where p: "s_posted s ! j = (e, k, a)" by (cases "s_posted s ! j") auto
  have j: "j < length (s_posted s)" and i: "i < length (s_threads s)" and "t_stack (s_threads s ! i) = []"
    using assms by (auto simp: worker_idle_def)
  with posted_sum_remove[OF j, of fp] p
  show ?thesis
    using sys_sum_put[of i "(s\<lparr>s_posted := take j (s_posted s) @ drop (Suc j) (s_posted s)\<rparr>,
      (s_threads s ! i)\<lparr>t_frame := frame_of e k, t_stack := [a, EndTask]\<rparr>)" fh fa fp]
    by (simp add: take_task_def sys_sum_def conf_sum_def)
qed

definition claims :: "nat \<Rightarrow> 'c sys \<Rightarrow> nat" where
  "claims L = sys_sum (own L) (tgt L) (tgt L)"

text \<open>Moving a posted task to the dropped ones.\<close>

definition lost :: "nat \<Rightarrow> 'c sys \<Rightarrow> nat" where
  "lost L s = posted_sum (tgt L) (s_dropped s)"

lemma drop_task_simps [simp]:
  "s_layers (drop_task j s) = s_layers s" "s_origin (drop_task j s) = s_origin s"
  "s_events (drop_task j s) = s_events s" "s_threads (drop_task j s) = s_threads s"
  "s_accepts (drop_task j s) = s_accepts s"
  "s_posted (drop_task j s) = take j (s_posted s) @ drop (Suc j) (s_posted s)"
  by (simp_all add: drop_task_def)

lemma sys_sum_drop:
  "j < length (s_posted s) \<Longrightarrow> sys_sum fh fa fp (drop_task j s) + fp (snd (snd (s_posted s ! j))) = sys_sum fh fa fp s"
  using posted_sum_remove[of j "s_posted s" fp] by (simp add: sys_sum_def)

lemma lost_drop: "lost L (drop_task j s) = lost L s + tgt L (snd (snd (s_posted s ! j)))"
  by (cases "s_posted s ! j") (simp add: lost_def drop_task_def)

lemma droppable_length: "droppable j s \<Longrightarrow> j < length (s_posted s)"
  by (simp add: droppable_def)

definition conf_claims :: "nat \<Rightarrow> 'c conf \<Rightarrow> nat" where
  "conf_claims L = conf_sum (own L) (tgt L) (tgt L)"

lemma tgt_simps [simp]:
  "tgt L (Call h r) = own L h" "tgt L EndInline = 0" "tgt L EndTask = 0" "tgt L (RunNotice n r) = 0"
  "tgt L (Settle L' r) = (if L' = L then 1 else 0)" "tgt L (RunLayer core L' body b) = (if L' = L then 1 else 0)"
  "tgt L (DoAdopt core L' g) = (if L' = L then 1 else 0)" "tgt L (BindChild x L' child u) = (if L' = L then 1 else 0)"
  "tgt L (RunStarter L') = (if L' = L then 1 else 0)"
  by (simp_all add: tgt_def own_def)

lemma own_simps [simp]:
  "own L (AfterThen core L' fn) = (if L' = L then 1 else 0)" "own L (AfterResult core L' rfn m) = (if L' = L then 1 else 0)"
  "own L (AfterPromise core L' g) = (if L' = L then 1 else 0)" "own L (Notice n) = 0" "own L (NoticeOn e n) = 0"
  "own L (AdoptChild L') = (if L' = L then 1 else 0)" "own L (Bridge x L') = (if L' = L then 1 else 0)"
  by (simp_all add: own_def)

lemma claims_Dispatch:
  "tgt L a = (if L' = L then 1 else 0) \<Longrightarrow>
     conf_claims L (Dispatch core L' a env c) = conf_claims L c + (if L' = L then 1 else 0)"
  by (simp add: conf_claims_def conf_sum_Dispatch)

lemma claims_add_notice:
  "U < length (s_layers (fst c)) \<Longrightarrow> conf_claims L (add_notice e U h c) = conf_claims L c + own L h"
  by (simp add: conf_claims_def conf_sum_add_notice Let_def)

lemma claims_add_handler:
  "U < length (s_layers (fst c)) \<Longrightarrow> own L h = (if L' = L then 1 else 0) \<Longrightarrow>
     conf_claims L (add_handler e U L' h c) = conf_claims L c + own L h"
  by (simp add: conf_claims_def conf_sum_add_handler)

lemma claims_simps [simp]:
  "conf_claims L (push as c) = conf_claims L c + sum_list (map (tgt L) as)"
  "conf_claims L (log_event ev c) = conf_claims L c"
  "conf_claims L (s\<lparr>s_ctx := x\<rparr>, th) = conf_claims L (s, th)"
  "conf_claims L (s, th\<lparr>t_frame := y\<rparr>) = conf_claims L (s, th)"
  "conf_claims L (s, th\<lparr>t_depth := d\<rparr>) = conf_claims L (s, th)"
  by (simp_all add: conf_claims_def)

lemma claims_post_or:
  "conf_claims L (post_or e k a refused c) =
     conf_claims L c + (if s_accepts (fst c) e k then tgt L a else sum_list (map (tgt L) refused))"
  by (simp add: conf_claims_def conf_sum_post_or)

text \<open>Layers an action refers to exist, and settled layers hold no handlers.\<close>

definition swept :: "'c handler pstate list \<Rightarrow> bool" where
  "swept ls \<longleftrightarrow> (\<forall>st \<in> set ls. m_bSettled st \<longrightarrow> pending_handlers st = [])"

definition refers_ok :: "nat \<Rightarrow> 'c action \<Rightarrow> bool" where
  "refers_ok n a \<longleftrightarrow> (\<forall>L. target a = Some L \<longrightarrow> L < n)
     \<and> (\<forall>x L child u. a = BindChild x L child u \<longrightarrow> u < n)"

lemma claims_settle:
  assumes "L' < length (s_layers (fst c))" and "swept (s_layers (fst c))"
  shows "conf_claims L (settle L' r c) = conf_claims L c"
proof -
  have "m_bSettled (s_layers (fst c) ! L') \<Longrightarrow> pending_handlers (s_layers (fst c) ! L') = []"
    using assms by (simp add: swept_def)
  from conf_sum_settle[OF assms(1) this, of "own L" "tgt L" "tgt L" r]
  show ?thesis by (simp add: conf_claims_def)
qed

lemma call_handler_claims: "conf_claims L (call_handler h r env c) = conf_claims L c + own L h"
  by (cases "(h, r, env, c)" rule: call_handler.cases) (auto simp: claims_Dispatch claims_post_or)

lemma perform_claims:
  assumes "swept (s_layers (fst c))" and "refers_ok (length (s_layers (fst c))) a" and "env_ok (fst c) env"
    and "a \<noteq> RunStarter L"
  shows "conf_claims L (perform a env c) + (if \<exists>r. a = Settle L r then 1 else 0) = conf_claims L c + tgt L a"
proof (cases "(a, env, c)" rule: perform.cases)
  case (2 core L' body b)
  then show ?thesis by (auto simp: run_layer_def claims_post_or split_beta split: option.split)
next
  case (3 core L' given)
  with assms(3) show ?thesis
    by (auto simp: adopt_def Let_def env_ok_def claims_add_notice split: child_outcome.split)
next
  case (4 x L' child u)
  with assms(2) show ?thesis by (simp add: claims_add_notice refers_ok_def)
next
  case (5 L')
  with assms(4) show ?thesis by (simp split: starter_outcome.split)
next
  case (7 L' r)
  with assms(1,2) show ?thesis by (auto simp: claims_settle refers_ok_def)
qed (simp_all add: call_handler_claims)

subsection \<open>What a step leaves alone\<close>

lemma frame_simps [simp]:
  "s_layers (fst (push as c)) = s_layers (fst c)" "s_origin (fst (push as c)) = s_origin (fst c)"
  "s_threads (fst (push as c)) = s_threads (fst c)" "s_events (fst (push as c)) = s_events (fst c)"
  "s_layers (fst (log_event ev c)) = s_layers (fst c)" "s_origin (fst (log_event ev c)) = s_origin (fst c)"
  "s_threads (fst (log_event ev c)) = s_threads (fst c)"
  "s_layers (fst (inline_call a c)) = s_layers (fst c)" "s_origin (fst (inline_call a c)) = s_origin (fst c)"
  "s_threads (fst (inline_call a c)) = s_threads (fst c)" "s_events (fst (inline_call a c)) = s_events (fst c)"
  "s_layers (fst (post_or e k a as c)) = s_layers (fst c)" "s_origin (fst (post_or e k a as c)) = s_origin (fst c)"
  "s_threads (fst (post_or e k a as c)) = s_threads (fst c)" "s_events (fst (post_or e k a as c)) = s_events (fst c)"
  "s_layers (fst (Dispatch core L a env c)) = s_layers (fst c)" "s_origin (fst (Dispatch core L a env c)) = s_origin (fst c)"
  "s_threads (fst (Dispatch core L a env c)) = s_threads (fst c)" "s_events (fst (Dispatch core L a env c)) = s_events (fst c)"
  "s_dropped (fst (push as c)) = s_dropped (fst c)" "s_dropped (fst (log_event ev c)) = s_dropped (fst c)"
  "s_dropped (fst (inline_call a c)) = s_dropped (fst c)" "s_dropped (fst (post_or e k a as c)) = s_dropped (fst c)"
  "s_dropped (fst (Dispatch core L a env c)) = s_dropped (fst c)"
  by (simp_all add: push_def log_event_def inline_call_def post_or_def Dispatch_def Let_def)

lemma call_handler_frame [simp]:
  "s_layers (fst (call_handler h r env c)) = s_layers (fst c)"
  "s_origin (fst (call_handler h r env c)) = s_origin (fst c)"
  "s_threads (fst (call_handler h r env c)) = s_threads (fst c)"
  "s_events (fst (call_handler h r env c)) = s_events (fst c)"
  "s_dropped (fst (call_handler h r env c)) = s_dropped (fst c)"
  by (cases "(h, r, env, c)" rule: call_handler.cases; simp)+

lemma add_notice_layers:
  "s_layers (fst (add_notice e U h c)) =
     (s_layers (fst c))[U := snd (Register_locked (Some h) (s_layers (fst c) ! U))]"
  by (cases "m_bSettled (s_layers (fst c) ! U)") (simp_all add: add_notice_def Register_locked_def)

lemma add_handler_layers:
  "s_layers (fst (add_handler e U L h c)) =
     (s_layers (fst c))[U := snd (Register_locked (Some h) (s_layers (fst c) ! U))]"
  by (cases "m_bSettled (s_layers (fst c) ! U)") (simp_all add: add_handler_def Register_locked_def)

lemma add_frame [simp]:
  "s_origin (fst (add_notice e U h c)) = s_origin (fst c)" "s_threads (fst (add_notice e U h c)) = s_threads (fst c)"
  "s_events (fst (add_notice e U h c)) = s_events (fst c)"
  "s_origin (fst (add_handler e U L h c)) = s_origin (fst c)" "s_threads (fst (add_handler e U L h c)) = s_threads (fst c)"
  "s_events (fst (add_handler e U L h c)) = s_events (fst c)"
  "s_dropped (fst (add_notice e U h c)) = s_dropped (fst c)" "s_dropped (fst (add_handler e U L h c)) = s_dropped (fst c)"
  by (simp_all add: add_notice_def add_handler_def split: prod.split option.split)

lemma settle_frame [simp]:
  "s_layers (fst (settle L r c)) = (s_layers (fst c))[L := snd (Settle_locked r (s_layers (fst c) ! L))]"
  "s_origin (fst (settle L r c)) = s_origin (fst c)" "s_threads (fst (settle L r c)) = s_threads (fst c)"
  "s_dropped (fst (settle L r c)) = s_dropped (fst c)"
  by (simp_all add: settle_def split_beta)

lemma perform_frame [simp]:
  "s_origin (fst (perform a env c)) = s_origin (fst c)" "s_threads (fst (perform a env c)) = s_threads (fst c)"
  "s_dropped (fst (perform a env c)) = s_dropped (fst c)"
  by (cases "(a, env, c)" rule: perform.cases;
      simp add: run_layer_def adopt_def Let_def split_beta split: option.split child_outcome.split starter_outcome.split)+

lemma perform_layers:
  "(\<exists>L r. a = Settle L r \<and> s_layers (fst (perform a env c)) =
      (s_layers (fst c))[L := snd (Settle_locked r (s_layers (fst c) ! L))])
   \<or> (\<forall>L r. a \<noteq> Settle L r) \<and> (s_layers (fst (perform a env c)) = s_layers (fst c)
      \<or> (\<exists>U h. s_layers (fst (perform a env c)) =
           (s_layers (fst c))[U := snd (Register_locked (Some h) (s_layers (fst c) ! U))]))"
  by (cases "(a, env, c)" rule: perform.cases)
    (auto simp: run_layer_def adopt_def Let_def split_beta add_notice_layers
      split: option.split child_outcome.split starter_outcome.split)

lemma Register_simps [simp]:
  "m_bSettled (snd (Register_locked fn st)) = m_bSettled st" "m_result (snd (Register_locked fn st)) = m_result st"
  "m_bSettled st \<Longrightarrow> pending_handlers (snd (Register_locked fn st)) = pending_handlers st"
  by (simp_all add: Register_locked_def)

lemma Settle_simps [simp]:
  "m_bSettled (snd (Settle_locked r st))"
  "m_result (snd (Settle_locked r st)) = (if m_bSettled st then m_result st else r)"
  "\<not> m_bSettled st \<Longrightarrow> pending_handlers (snd (Settle_locked r st)) = []"
  "fst (Settle_locked r st) = (if m_bSettled st then [] else pending_handlers st)"
  by (simp_all add: Settle_locked_def pending_handlers_def)

lemma update_nth: "U < length ls \<Longrightarrow> ls[V := x] ! U = (if V = U then x else ls ! U)"
  by (cases "V = U") simp_all

lemma perform_settled:
  assumes U: "U < length (s_layers (fst c))"
  shows "m_bSettled (s_layers (fst (perform a env c)) ! U)
      = (m_bSettled (s_layers (fst c) ! U) \<or> (\<exists>r. a = Settle U r))"
    and "m_bSettled (s_layers (fst c) ! U) \<Longrightarrow>
      m_result (s_layers (fst (perform a env c)) ! U) = m_result (s_layers (fst c) ! U)"
  using perform_layers[of a env c] by (elim disjE exE conjE; simp add: update_nth[OF U])+

lemma perform_length [simp]: "length (s_layers (fst (perform a env c))) = length (s_layers (fst c))"
  using perform_layers[of a env c] by (elim disjE exE conjE) simp_all

lemma swept_update:
  assumes "swept ls" and "U < length ls \<Longrightarrow> m_bSettled x \<Longrightarrow> pending_handlers x = []"
  shows "swept (ls[U := x])"
proof (cases "U < length ls")
  case True
  have "m_bSettled st \<longrightarrow> pending_handlers st = []" if "st \<in> set (ls[U := x])" for st
    using that set_update_subset_insert[of ls U x] assms True by (auto simp: swept_def)
  then show ?thesis by (simp add: swept_def)
qed (use assms(1) in \<open>simp add: list_update_beyond\<close>)

lemma swept_at: "swept ls \<Longrightarrow> U < length ls \<Longrightarrow> m_bSettled (ls ! U) \<Longrightarrow> pending_handlers (ls ! U) = []"
  by (simp add: swept_def)

lemma perform_swept:
  assumes "swept (s_layers (fst c))"
  shows "swept (s_layers (fst (perform a env c)))"
proof -
  have "swept ((s_layers (fst c))[U := snd (Register_locked (Some h) (s_layers (fst c) ! U))])" for U h
    using assms by (rule swept_update) (simp add: swept_at[OF assms])
  moreover have "swept ((s_layers (fst c))[L := snd (Settle_locked r (s_layers (fst c) ! L))])" for L r
    using assms by (rule swept_update) (cases "m_bSettled (s_layers (fst c) ! L)"; simp add: swept_at[OF assms] Settle_settled)
  ultimately show ?thesis using perform_layers[of a env c] assms by (elim disjE exE conjE) simp_all
qed

lemma sys_sum_act:
  assumes i: "i < length (s_threads s)" and st: "t_stack (s_threads s ! i) = a # rest"
    and d: "conf_sum fh fa fp (perform a env (s, (s_threads s ! i)\<lparr>t_stack := rest\<rparr>)) + d
      = conf_sum fh fa fp (s, (s_threads s ! i)\<lparr>t_stack := rest\<rparr>) + d'"
  shows "sys_sum fh fa fp (act i env s) + d + fa a = sys_sum fh fa fp s + d'"
  using sys_sum_put[of i "perform a env (s, (s_threads s ! i)\<lparr>t_stack := rest\<rparr>)" fh fa fp] assms
  by (simp add: act_def sys_sum_def) (simp add: conf_sum_def)

subsection \<open>The ownership invariant\<close>

text \<open>Actions that only a client creates refer to what that client had: a child that exists, a
  layer that is left to a starter.\<close>

definition stray :: "'c origin list \<Rightarrow> 'c action \<Rightarrow> nat" where
  "stray ogs a = (case a of
       BindChild x L child u \<Rightarrow> if u < length ogs then 0 else 1
     | RunStarter L \<Rightarrow> if L < length ogs \<and> is_external (ogs ! L) then 0 else 1
     | _ \<Rightarrow> 0)"

definition strays :: "'c sys \<Rightarrow> nat" where
  "strays s = sys_sum (\<lambda>_. 0) (stray (s_origin s)) (stray (s_origin s)) s"

definition own_inv :: "'c sys \<Rightarrow> bool" where
  "own_inv s \<longleftrightarrow> swept (s_layers s) \<and> length (s_origin s) = length (s_layers s) \<and> strays s = 0
     \<and> (\<forall>L \<ge> length (s_layers s). claims L s + lost L s = 0)
     \<and> (\<forall>L < length (s_layers s). \<not> is_external (s_origin s ! L) \<longrightarrow>
          claims L s + lost L s = (if m_bSettled (s_layers s ! L) then 0 else 1))"

lemma stray_simps [simp]:
  "stray ogs (Call h r) = 0" "stray ogs (RunLayer core L body b) = 0" "stray ogs (DoAdopt core L g) = 0"
  "stray ogs (RunNotice m r) = 0" "stray ogs (Settle L r) = 0" "stray ogs EndInline = 0" "stray ogs EndTask = 0"
  by (simp_all add: stray_def)

lemma member_le_sum: "x \<in> set xs \<Longrightarrow> f x \<le> (sum_list (map f xs) :: nat)"
  by (induction xs) auto

lemma stack_le_sys_sum:
  assumes "i < length (s_threads s)" and "a \<in> set (t_stack (s_threads s ! i))"
  shows "fa a \<le> sys_sum fh fa fp s"
proof -
  have "sum_list (map fa (t_stack (s_threads s ! i))) \<le> thread_sum fa (s_threads s)"
    unfolding thread_sum_def using assms(1) by (intro member_le_sum) simp
  with member_le_sum[OF assms(2), of fa] show ?thesis by (simp add: sys_sum_def)
qed

lemma own_inv_action:
  assumes inv: "own_inv s" and i: "i < length (s_threads s)" and a: "a \<in> set (t_stack (s_threads s ! i))"
  shows "refers_ok (length (s_layers s)) a \<and> (\<forall>L. a = RunStarter L \<longrightarrow> is_external (s_origin s ! L))"
proof -
  have "L < length (s_layers s)" if "target a = Some L" for L
  proof (rule ccontr)
    assume "\<not> L < length (s_layers s)"
    then have "claims L s = 0" using inv by (simp add: own_inv_def)
    then show False using stack_le_sys_sum[OF i a, of "tgt L" "own L" "tgt L"] that by (simp add: claims_def tgt_def)
  qed
  moreover have "stray (s_origin s) a = 0"
    using inv stack_le_sys_sum[OF i a, of "stray (s_origin s)" "\<lambda>_. 0"
        "stray (s_origin s)"] by (simp add: own_inv_def strays_def)
  moreover have "length (s_origin s) = length (s_layers s)" using inv by (simp add: own_inv_def)
  ultimately show ?thesis by (auto simp: refers_ok_def stray_def split: if_splits)
qed

lemma call_handler_strays:
  "conf_sum (\<lambda>_. 0) (stray ogs) (stray ogs) (call_handler h r env c)
     = conf_sum (\<lambda>_. 0) (stray ogs) (stray ogs) c"
  by (cases "(h, r, env, c)" rule: call_handler.cases) (simp_all add: conf_sum_Dispatch conf_sum_post_or)

lemma perform_strays:
  assumes "swept (s_layers (fst c))" and "refers_ok (length (s_layers (fst c))) a" and "env_ok (fst c) env"
  shows "conf_sum (\<lambda>_. 0) (stray ogs) (stray ogs) (perform a env c)
     = conf_sum (\<lambda>_. 0) (stray ogs) (stray ogs) c"
proof (cases "(a, env, c)" rule: perform.cases)
  case (2 core L body b)
  then show ?thesis by (simp add: run_layer_def conf_sum_post_or split_beta split: option.split)
next
  case (3 core L given)
  with assms(3) show ?thesis
    by (simp add: adopt_def Let_def conf_sum_add_notice env_ok_def split: child_outcome.split)
next
  case (4 x L child u)
  with assms(2) show ?thesis by (simp add: conf_sum_add_notice refers_ok_def Let_def)
next
  case (5 L)
  then show ?thesis by (simp split: starter_outcome.split)
next
  case (7 L r)
  with assms(1,2) show ?thesis
    using conf_sum_settle[of L c "\<lambda>_. 0" "stray ogs" "stray ogs" r]
    by (simp add: refers_ok_def swept_at)
qed (simp_all add: call_handler_strays)

lemma put_frame [simp]:
  "s_layers (put i c) = s_layers (fst c)" "s_origin (put i c) = s_origin (fst c)" "s_events (put i c) = s_events (fst c)"
  "s_accepts (put i c) = s_accepts (fst c)" "s_posted (put i c) = s_posted (fst c)"
  "s_dropped (put i c) = s_dropped (fst c)"
  by (simp_all add: put_def)

lemma act_frame:
  assumes "t_stack (s_threads s ! i) = a # rest"
  shows "s_layers (act i env s) = s_layers (fst (perform a env (s, (s_threads s ! i)\<lparr>t_stack := rest\<rparr>)))"
    and "s_origin (act i env s) = s_origin s"
    and "s_events (act i env s) = s_events (fst (perform a env (s, (s_threads s ! i)\<lparr>t_stack := rest\<rparr>)))"
  using assms by (simp_all add: act_def)

lemma lost_same [simp]:
  "lost L (act i env s) = lost L s" "lost L (take_task i j s) = lost L s"
  by (auto simp: lost_def act_def take_task_def split_beta split: list.split)

lemma own_inv_act:
  assumes inv: "own_inv s" and i: "i < length (s_threads s)" and st: "t_stack (s_threads s ! i) = a # rest"
    and env: "env_ok s env"
  shows "own_inv (act i env s)"
proof -
  let ?c = "(s, (s_threads s ! i)\<lparr>t_stack := rest\<rparr>)" and ?n = "length (s_layers s)"
  have ok: "refers_ok ?n a" "\<forall>L. a = RunStarter L \<longrightarrow> is_external (s_origin s ! L)"
    using own_inv_action[OF inv i, of a] st by auto
  have sw: "swept (s_layers s)" using inv by (simp add: own_inv_def)
  note p = perform_claims[of ?c a env] perform_strays[of ?c a env] perform_swept[of ?c a env]
  have "strays (act i env s) = 0"
    using sys_sum_act[OF i st, of "\<lambda>_. 0" "stray (s_origin s)" "stray (s_origin s)" env 0 0]
      p(2) sw ok(1) env inv by (simp add: strays_def act_frame[OF st] own_inv_def)
  moreover have cl: "claims L (act i env s) + (if \<exists>r. a = Settle L r then 1 else 0) = claims L s"
    if "a \<noteq> RunStarter L" for L
    using sys_sum_act[OF i st, of "own L" "tgt L" "tgt L" env "if \<exists>r. a = Settle L r then 1 else 0" "tgt L a"]
      p(1)[of L] sw ok(1) env that by (simp add: claims_def conf_claims_def)
  moreover have "claims L (act i env s) + lost L s = 0" if "L \<ge> ?n" for L
  proof -
    have "a \<noteq> RunStarter L" using ok(1) that by (auto simp: refers_ok_def)
    with cl[of L] inv that show ?thesis by (simp add: own_inv_def)
  qed
  moreover have "claims L (act i env s) + lost L s = (if m_bSettled (s_layers (act i env s) ! L) then 0 else 1)"
    if L: "L < ?n" "\<not> is_external (s_origin s ! L)" for L
  proof -
    have "claims L s + lost L s = (if m_bSettled (s_layers s ! L) then 0 else 1)" using inv L by (simp add: own_inv_def)
    moreover have "a \<noteq> RunStarter L" using ok(2) L by auto
    ultimately show ?thesis
      using cl[of L] perform_settled(1)[of L ?c a env] L(1) by (auto simp: act_frame[OF st] split: if_splits)
  qed
  ultimately show ?thesis
    using p(3) sw inv by (simp add: own_inv_def act_frame[OF st])
qed

lemma own_inv_take: "own_inv s \<Longrightarrow> worker_idle i j s \<Longrightarrow> own_inv (take_task i j s)"
proof -
  assume inv: "own_inv s" and w: "worker_idle i j s"
  have f: "s_layers (take_task i j s) = s_layers s" "s_origin (take_task i j s) = s_origin s"
    by (simp_all add: take_task_def split_beta)
  have "claims L (take_task i j s) = claims L s" for L
    using sys_sum_take[OF w, of "own L" "tgt L" "tgt L"] by (simp add: claims_def)
  moreover have "strays (take_task i j s) = strays s"
    using sys_sum_take[OF w, of "\<lambda>_. 0" "stray (s_origin s)" "stray (s_origin s)"]
    by (simp add: strays_def f)
  ultimately show ?thesis using inv by (simp add: own_inv_def f)
qed

lemma own_inv_drop:
  assumes inv: "own_inv s" and d: "droppable j s"
  shows "own_inv (drop_task j s)"
proof -
  note j = droppable_length[OF d]
  have "claims L (drop_task j s) + lost L (drop_task j s) = claims L s + lost L s" for L
    using sys_sum_drop[OF j, of "own L" "tgt L" "tgt L"] by (simp add: claims_def lost_drop)
  moreover have "strays (drop_task j s) \<le> strays s"
    using sys_sum_drop[OF j, of "\<lambda>_. 0" "stray (s_origin s)" "stray (s_origin s)"] by (simp add: strays_def)
  ultimately show ?thesis using inv by (simp add: own_inv_def)
qed

lemma own_inv_run: "run_step s s' \<Longrightarrow> own_inv s \<Longrightarrow> own_inv s'"
proof (induction rule: run_step.induct)
  case (act i s env)
  then show ?case by (cases "t_stack (s_threads s ! i)") (auto intro: own_inv_act)
qed (rule own_inv_take)

subsection \<open>Clients keep it\<close>

text \<open>An operation that creates no layer, and one that creates the last one.\<close>

lemma own_inv_client:
  assumes inv: "own_inv s" and i: "i < length (s_threads s)"
    and fr: "s_threads (fst (f (s, s_threads s ! i))) = s_threads s"
      "s_origin (fst (f (s, s_threads s ! i))) = s_origin s"
      "swept (s_layers (fst (f (s, s_threads s ! i))))"
      "length (s_layers (fst (f (s, s_threads s ! i)))) = length (s_layers s)"
      "\<And>L. L < length (s_layers s) \<Longrightarrow>
         m_bSettled (s_layers (fst (f (s, s_threads s ! i))) ! L) = m_bSettled (s_layers s ! L)"
      "s_dropped (fst (f (s, s_threads s ! i))) = s_dropped s"
    and cl: "\<And>L. \<not> (L < length (s_layers s) \<and> is_external (s_origin s ! L)) \<Longrightarrow>
      conf_claims L (f (s, s_threads s ! i)) = conf_claims L (s, s_threads s ! i)"
    and sy: "\<And>ogs. conf_sum (\<lambda>_. 0) (stray ogs) (stray ogs) (f (s, s_threads s ! i))
      = conf_sum (\<lambda>_. 0) (stray ogs) (stray ogs) (s, s_threads s ! i)"
  shows "own_inv (on_thread i f s)"
proof -
  have l: "s_layers (on_thread i f s) = s_layers (fst (f (s, s_threads s ! i)))" "s_origin (on_thread i f s) = s_origin s"
    by (simp_all add: on_thread_def fr)
  have "claims L (on_thread i f s) = claims L s" if "\<not> (L < length (s_layers s) \<and> is_external (s_origin s ! L))" for L
    using sys_sum_on_thread[OF i, of f "own L" "tgt L" "tgt L" 0] fr(1) cl[OF that]
    by (simp add: claims_def conf_claims_def)
  moreover have "strays (on_thread i f s) = strays s"
    using sys_sum_on_thread[OF i, of f "\<lambda>_. 0" "stray (s_origin s)"
        "stray (s_origin s)" 0] fr(1,4) sy by (simp add: strays_def l)
  moreover have "lost L (on_thread i f s) = lost L s" for L by (simp add: lost_def on_thread_def fr)
  ultimately show ?thesis using inv fr(3-5) by (simp add: own_inv_def l)
qed

lemma stray_append: "stray (ogs @ [og]) a \<le> stray ogs a"
  by (auto simp: stray_def nth_append split: action.split)

lemma sys_sum_mono: "(\<And>a. fa a \<le> fa' a) \<Longrightarrow> sys_sum (\<lambda>_. 0) fa fa s \<le> sys_sum (\<lambda>_. 0) fa' fa' s"
  unfolding sys_sum_def posted_sum_def thread_sum_def layer_sum_def
  by (intro add_mono sum_list_mono) (auto simp: split_beta)

lemma new_layer_simps [simp]:
  "s_threads (fst (new_layer k og c)) = s_threads (fst c)"
  "s_origin (fst (new_layer k og c)) = s_origin (fst c) @ [og]"
  "s_layers (fst (new_layer k og c)) = s_layers (fst c) @ [SetKind k CPromiseState]"
  "s_accepts (fst (new_layer k og c)) = s_accepts (fst c)" "s_events (fst (new_layer k og c)) = s_events (fst c)"
  "snd (new_layer k og c) = snd c" "s_dropped (fst (new_layer k og c)) = s_dropped (fst c)"
  "conf_sum fh fa fp (new_layer k og c) = conf_sum fh fa fp c"
  by (simp_all add: new_layer_def conf_sum_def)

text \<open>An operation that creates the last layer gives it one closure; what it does besides only
  registers a handler.\<close>

lemma own_inv_create:
  assumes inv: "own_inv s" and i: "i < length (s_threads s)"
    and fr: "s_threads (fst (f (s, s_threads s ! i))) = s_threads s"
      "s_origin (fst (f (s, s_threads s ! i))) = s_origin s @ [og]"
      "s_layers (fst (f (s, s_threads s ! i))) = ls @ [SetKind k CPromiseState]"
      "ls = s_layers s \<or> (\<exists>U h. ls = (s_layers s)[U := snd (Register_locked (Some h) (s_layers s ! U))])"
      "s_dropped (fst (f (s, s_threads s ! i))) = s_dropped s"
    and cl: "\<And>L. \<not> (L = length (s_layers s) \<and> is_external og) \<Longrightarrow> conf_claims L (f (s, s_threads s ! i))
      = conf_claims L (s, s_threads s ! i) + (if L = length (s_layers s) then 1 else 0)"
    and sy: "conf_sum (\<lambda>_. 0) (stray (s_origin s @ [og])) (stray (s_origin s @ [og])) (f (s, s_threads s ! i))
      = conf_sum (\<lambda>_. 0) (stray (s_origin s @ [og])) (stray (s_origin s @ [og])) (s, s_threads s ! i)"
  shows "own_inv (on_thread i f s)"
proof -
  let ?s = "on_thread i f s" and ?n = "length (s_layers s)"
  have l: "s_layers ?s = ls @ [SetKind k CPromiseState]" "s_origin ?s = s_origin s @ [og]"
    by (simp_all add: on_thread_def fr)
  have sw: "swept (s_layers s)" and ogs: "length (s_origin s) = ?n" using inv by (simp_all add: own_inv_def)
  have n: "length ls = ?n" using fr(4) by auto
  have swl: "swept ls"
  proof -
    have "swept ((s_layers s)[U := snd (Register_locked (Some h) (s_layers s ! U))])" for U h
      using sw by (rule swept_update) (simp add: swept_at[OF sw])
    then show ?thesis using fr(4) sw by auto
  qed
  have set: "m_bSettled (ls ! L) = m_bSettled (s_layers s ! L)" if "L < ?n" for L
    using fr(4) that by (elim disjE exE) (simp_all add: update_nth)
  have "claims L ?s = claims L s + (if L = ?n then 1 else 0)" if "\<not> (L = ?n \<and> is_external og)" for L
    using sys_sum_on_thread[OF i, of f "own L" "tgt L" "tgt L"] fr(1) cl[OF that]
    by (simp add: claims_def conf_claims_def)
  moreover have "strays ?s \<le> strays s"
  proof -
    let ?f = "stray (s_origin s @ [og]) :: 'a action \<Rightarrow> nat"
    have "strays ?s = sys_sum (\<lambda>_. 0) ?f ?f s"
      using sys_sum_on_thread[OF i, of f "\<lambda>_. 0" ?f ?f 0] fr(1) sy by (simp add: strays_def l)
    then show ?thesis using sys_sum_mono[of ?f "stray (s_origin s)" s, OF stray_append] by (simp add: strays_def)
  qed
  moreover have "lost L ?s = lost L s" for L by (simp add: lost_def on_thread_def fr)
  ultimately show ?thesis
    using inv swl n ogs set by (auto simp: own_inv_def l swept_def nth_append less_Suc_eq)
qed

lemma conf_claims_new [simp]: "conf_claims L (new_layer k og c) = conf_claims L c"
  by (simp add: conf_claims_def)

lemmas client_defs = StartChain_def NewFromHandle_def NewBridge_def AppendThenLayer_def AppendResultLayer_def
  ThenPromise_def Let_def next_id_def

lemma own_inv_append:
  assumes inv: "own_inv s" and i: "i < length (s_threads s)" and U: "U < length (s_layers s)"
    and f: "\<And>c. f c = add_handler e U (next_id c) (h (next_id c)) (new_layer k og c)"
    and h: "owner (h (length (s_layers s))) = Some (length (s_layers s))" and og: "\<not> is_external og"
  shows "own_inv (on_thread i f s)"
proof (rule own_inv_create[where og = og and k = k])
  let ?n = "length (s_layers s)"
  let ?ls = "(s_layers s)[U := snd (Register_locked (Some (h ?n)) (s_layers s ! U))]"
  show "s_layers (fst (f (s, s_threads s ! i))) = ?ls @ [SetKind k CPromiseState]"
    using U by (simp add: f next_id_def add_handler_layers nth_append list_update_append)
  show "conf_claims L (f (s, s_threads s ! i)) = conf_claims L (s, s_threads s ! i) + (if L = ?n then 1 else 0)" for L
    using U h by (simp add: f next_id_def claims_add_handler[where L' = ?n] own_def)
  show "conf_sum (\<lambda>_. 0) (stray (s_origin s @ [og])) (stray (s_origin s @ [og])) (f (s, s_threads s ! i))
      = conf_sum (\<lambda>_. 0) (stray (s_origin s @ [og])) (stray (s_origin s @ [og])) (s, s_threads s ! i)"
    using U by (simp add: f next_id_def conf_sum_add_handler)
qed (use inv i f in \<open>auto simp: next_id_def\<close>)

text \<open>Recording a registration and registering commute.\<close>

lemma add_notice_log: "add_notice e U h (log_event ev c) = log_event ev (add_notice e U h c)"
  by (simp add: add_notice_def log_event_def inline_call_def push_def split: prod.split option.split)

lemma own_inv_notice:
  assumes inv: "own_inv s" and i: "i < length (s_threads s)" and U: "U < length (s_layers s)"
    and f: "\<And>c. f c = log_event ev (add_notice e U h c)" and h: "owner h = None"
  shows "own_inv (on_thread i f s)"
proof (rule own_inv_client)
  have sw: "swept (s_layers s)" using inv by (simp add: own_inv_def)
  show "swept (s_layers (fst (f (s, s_threads s ! i))))"
    unfolding f frame_simps add_notice_layers fst_conv using sw by (rule swept_update) (simp add: swept_at[OF sw])
  show "conf_claims L (f (s, s_threads s ! i)) = conf_claims L (s, s_threads s ! i)" for L
    using U h by (simp add: f claims_add_notice own_def)
  show "conf_sum (\<lambda>_. 0) (stray ogs) (stray ogs) (f (s, s_threads s ! i))
      = conf_sum (\<lambda>_. 0) (stray ogs) (stray ogs) (s, s_threads s ! i)" for ogs
    using U by (simp add: f conf_sum_add_notice Let_def)
  show "m_bSettled (s_layers (fst (f (s, s_threads s ! i))) ! L) = m_bSettled (s_layers s ! L)"
    if "L < length (s_layers s)" for L
    using that by (simp add: f add_notice_layers update_nth)
qed (use inv i f in \<open>simp_all add: add_notice_layers\<close>)

lemma own_inv_client_step: "client_step s s' \<Longrightarrow> own_inv s \<Longrightarrow> own_inv s'"
proof (induction rule: client_step.induct)
  case (start i s core k fn)
  then show ?case
    by (intro own_inv_create[where og = "OFirst core fn" and ls = "s_layers s" and k = k])
      (simp_all add: client_defs claims_post_or conf_sum_post_or is_external_def)
next
  case (starter i s core k env)
  then have "length (s_origin s) = length (s_layers s)" by (simp add: own_inv_def)
  with starter show ?case
    by (intro own_inv_create[where og = "OExternal core" and ls = "s_layers s" and k = k])
      (simp_all add: client_defs is_external_def claims_Dispatch conf_sum_Dispatch stray_def nth_append)
next
  case (bridge i s u core child env)
  then have "length (s_origin s) = length (s_layers s)" by (simp add: own_inv_def)
  with bridge show ?case
    by (intro own_inv_create[where og = "OBridge core u" and ls = "s_layers s" and k = kKindBookkeeping])
      (simp_all add: client_defs is_external_def claims_Dispatch conf_sum_Dispatch stray_def)
next
  case (append_then i s U core fn k)
  then show ?case
    by (rule_tac own_inv_append[where og = "OThen core U fn" and h = "\<lambda>L. AfterThen core L fn"])
      (simp_all add: AppendThenLayer_def Let_def is_external_def)
next
  case (append_result i s U eMode core rfn k)
  then show ?case
    by (rule_tac own_inv_append[where og = "OResult core U rfn eMode" and h = "\<lambda>L. AfterResult core L rfn eMode"])
      (simp_all add: AppendResultLayer_def Let_def is_external_def)
next
  case (append_promise i s U core given k)
  then show ?case
    by (rule_tac own_inv_append[where og = "OPromise core U" and h = "\<lambda>L. AfterPromise core L given"])
      (simp_all add: ThenPromise_def Let_def is_external_def)
next
  case (on_settled i s U core n)
  have "OnSettled core U n c = log_event (Registered n U) (add_notice (fst core) U (Notice n) c)" for c :: "'a conf"
    by (simp add: OnSettled_def add_notice_log)
  with on_settled show ?case by (rule_tac own_inv_notice[where e = "fst core" and h = "Notice n" and ev = "Registered n U"]) simp_all
next
  case (on_settled_on i s U target n)
  have "OnSettledOn target U n c = log_event (Registered n U) (add_notice target U (NoticeOn target n) c)" for c :: "'a conf"
    by (simp add: OnSettledOn_def add_notice_log)
  with on_settled_on show ?case by (rule_tac own_inv_notice[where e = target and h = "NoticeOn target n" and ev = "Registered n U"]) simp_all
next
  case (resolve i s L r)
  then show ?case by (intro own_inv_client) (auto simp: own_inv_def)
qed (simp_all add: own_inv_def claims_def strays_def sys_sum_def lost_def)

lemma own_inv_init: "own_inv (sys_init ctx execs)"
proof -
  have "thread_sum fa (map (\<lambda>e. \<lparr>t_exec = e, t_frame = None, t_depth = 0, t_stack = []\<rparr>) execs) = 0"
    for fa :: "'a action \<Rightarrow> nat"
    by (simp add: thread_sum_def comp_def)
  then show ?thesis by (simp add: own_inv_def sys_init_def swept_def strays_def claims_def sys_sum_def lost_def)
qed

lemma reach_own_inv: "sys_reach ctx execs s \<Longrightarrow> own_inv s"
  by (induction rule: sys_reach.induct) (auto intro: own_inv_init own_inv_run own_inv_client_step own_inv_drop elim!: drop_step.cases)

end
