(* ===== verification/PromiseProgress.thy ===== *)
theory PromiseProgress
  imports PromiseOwnership
begin

text \<open>
  What the ownership of layers gives: user code of a layer runs at most once, a layer is settled
  at most once, the system comes to rest, and at rest a layer is pending only because it waits
  for another pending layer or because its task was dropped.
\<close>

subsection \<open>User code runs once\<close>

text \<open>The closures that may still run the user code of a layer: all but its settlement.\<close>

definition unrun :: "nat \<Rightarrow> 'c action \<Rightarrow> nat" where
  "unrun L a = (case a of Settle L' r \<Rightarrow> 0 | _ \<Rightarrow> tgt L a)"

definition is_run :: "nat \<Rightarrow> event \<Rightarrow> bool" where
  "is_run L ev = (case ev of Ran L' f r \<Rightarrow> L' = L | _ \<Rightarrow> False)"

definition runs :: "nat \<Rightarrow> event list \<Rightarrow> nat" where
  "runs L evs = length (filter (is_run L) evs)"

lemma unrun_simps [simp]:
  "unrun L (Call h r) = own L h" "unrun L EndInline = 0" "unrun L EndTask = 0" "unrun L (RunNotice n r) = 0"
  "unrun L (Settle L' r) = 0" "unrun L (RunLayer core L' body b) = (if L' = L then 1 else 0)"
  "unrun L (DoAdopt core L' g) = (if L' = L then 1 else 0)" "unrun L (BindChild x L' child u) = (if L' = L then 1 else 0)"
  "unrun L (RunStarter L') = (if L' = L then 1 else 0)"
  by (simp_all add: unrun_def)

lemma runs_simps [simp]:
  "runs L [] = 0" "runs L (evs @ evs') = runs L evs + runs L evs'"
  "runs L [Ran L' f r] = (if L' = L then 1 else 0)" "runs L [Noticed n r] = 0" "runs L [SettledBy L' r] = 0"
  "runs L [Registered n U] = 0"
  by (simp_all add: runs_def is_run_def)

definition fresh_sum :: "nat \<Rightarrow> 'c conf \<Rightarrow> nat" where
  "fresh_sum L = conf_sum (own L) (unrun L) (unrun L)"

lemma call_handler_fresh: "fresh_sum L (call_handler h r env c) \<le> fresh_sum L c + own L h"
  by (cases "(h, r, env, c)" rule: call_handler.cases)
    (simp_all add: fresh_sum_def conf_sum_Dispatch conf_sum_post_or)

lemma settle_events: "runs L (s_events (fst (settle L' r c))) = runs L (s_events (fst c))"
  by (simp add: settle_def split_beta)

lemma log_frame [simp]: "s_events (fst (log_event ev c)) = s_events (fst c) @ [ev]"
  by (simp add: log_event_def)

lemma perform_fresh:
  assumes "swept (s_layers (fst c))" and "refers_ok (length (s_layers (fst c))) a" and "env_ok (fst c) env"
  shows "fresh_sum L (perform a env c) + runs L (s_events (fst (perform a env c)))
    \<le> fresh_sum L c + unrun L a + runs L (s_events (fst c))"
proof (cases "(a, env, c)" rule: perform.cases)
  case (1 h r)
  then show ?thesis using call_handler_fresh[of L h r env c] by simp
next
  case (2 core L' body b)
  then show ?thesis
    by (auto simp: run_layer_def fresh_sum_def conf_sum_post_or split_beta split: option.split)
next
  case (3 core L' given)
  with assms(3) show ?thesis
    by (auto simp: adopt_def Let_def env_ok_def fresh_sum_def conf_sum_add_notice split: child_outcome.split)
next
  case (4 x L' child u)
  with assms(2) show ?thesis by (simp add: fresh_sum_def conf_sum_add_notice refers_ok_def Let_def)
next
  case (5 L')
  then show ?thesis by (simp add: fresh_sum_def split: starter_outcome.split)
next
  case (7 L' r)
  with assms(1,2) show ?thesis
    using conf_sum_settle[of L' c "own L" "unrun L" "unrun L" r]
    by (simp add: fresh_sum_def refers_ok_def swept_at settle_events)
qed (simp_all add: fresh_sum_def)

definition once_inv :: "'c sys \<Rightarrow> bool" where
  "once_inv s \<longleftrightarrow> (\<forall>L. runs L (s_events s) + sys_sum (own L) (unrun L) (unrun L) s
     \<le> (if L < length (s_layers s) then 1 else 0))"

lemma once_inv_act:
  assumes inv: "own_inv s" and one: "once_inv s" and i: "i < length (s_threads s)"
    and st: "t_stack (s_threads s ! i) = a # rest" and env: "env_ok s env"
  shows "once_inv (act i env s)"
proof -
  let ?c = "(s, (s_threads s ! i)\<lparr>t_stack := rest\<rparr>)"
  have ok: "refers_ok (length (s_layers s)) a" using own_inv_action[OF inv i, of a] st by auto
  have sw: "swept (s_layers s)" using inv by (simp add: own_inv_def)
  have le: "runs L (s_events (act i env s)) + sys_sum (own L) (unrun L) (unrun L) (act i env s)
      \<le> runs L (s_events s) + sys_sum (own L) (unrun L) (unrun L) s" for L
  proof -
    have p: "fresh_sum L (perform a env ?c) + runs L (s_events (act i env s))
        \<le> fresh_sum L ?c + unrun L a + runs L (s_events s)"
      using perform_fresh[of ?c a env L] sw ok env by (simp add: act_frame[OF st])
    let ?d' = "fresh_sum L (perform a env ?c)"
    have "sys_sum (own L) (unrun L) (unrun L) (act i env s) + fresh_sum L ?c + unrun L a
        = sys_sum (own L) (unrun L) (unrun L) s + ?d'"
      using sys_sum_act[OF i st, of "own L" "unrun L" "unrun L" env "fresh_sum L ?c" ?d']
      by (simp add: fresh_sum_def)
    with p show ?thesis by linarith
  qed
  have len: "length (s_layers (act i env s)) = length (s_layers s)" by (simp add: act_frame[OF st])
  show ?thesis
    unfolding once_inv_def len by (intro allI order_trans[OF le] one[unfolded once_inv_def, rule_format])
qed

lemma once_inv_on_thread:
  assumes one: "once_inv s" and i: "i < length (s_threads s)"
    and th: "s_threads (fst (f (s, s_threads s ! i))) = s_threads s"
    and ev: "\<And>L. runs L (s_events (fst (f (s, s_threads s ! i)))) = runs L (s_events s)"
    and len: "length (s_layers (fst (f (s, s_threads s ! i)))) = length (s_layers s) + d" "d \<le> 1"
    and sum: "\<And>L. fresh_sum L (f (s, s_threads s ! i))
      \<le> fresh_sum L (s, s_threads s ! i) + (if L = length (s_layers s) then d else 0)"
  shows "once_inv (on_thread i f s)"
proof -
  have "sys_sum (own L) (unrun L) (unrun L) (on_thread i f s)
      \<le> sys_sum (own L) (unrun L) (unrun L) s + (if L = length (s_layers s) then d else 0)" for L
  proof -
    have "sys_sum (own L) (unrun L) (unrun L) (on_thread i f s)
        + sum_list (map (unrun L) (t_stack (s_threads s ! i)))
      = fresh_sum L (f (s, s_threads s ! i)) + thread_sum (unrun L) (s_threads s)"
      using sys_sum_put[of i "f (s, s_threads s ! i)" "own L" "unrun L" "unrun L"] i th
      by (simp add: on_thread_def fresh_sum_def)
    with sum[of L] show ?thesis by (simp add: fresh_sum_def conf_sum_def sys_sum_def split: if_splits)
  qed
  note le = this
  have "runs L (s_events (on_thread i f s)) = runs L (s_events s)"
    "length (s_layers (on_thread i f s)) = length (s_layers s) + d" for L
    using ev len(1) by (simp_all add: on_thread_def)
  moreover have "runs L (s_events s) + sys_sum (own L) (unrun L) (unrun L) (on_thread i f s)
      \<le> (if L < length (s_layers s) + d then 1 else 0)" for L
    using le[of L] one[unfolded once_inv_def, rule_format, of L] len(2) by (auto split: if_splits)
  ultimately show ?thesis by (simp add: once_inv_def)
qed

lemma once_inv_client: "client_step s s' \<Longrightarrow> own_inv s \<Longrightarrow> once_inv s \<Longrightarrow> once_inv s'"
proof (induction rule: client_step.induct)
  case (accepts s f)
  then show ?case by (simp add: once_inv_def sys_sum_def)
next
  case (user_code s x)
  then show ?case by (simp add: once_inv_def sys_sum_def)
next
  case (on_settled i s U core n)
  then show ?case
    by (intro once_inv_on_thread[where d = 0])
      (simp_all add: OnSettled_def fresh_sum_def conf_sum_add_notice add_notice_layers Let_def)
next
  case (on_settled_on i s U target n)
  then show ?case
    by (intro once_inv_on_thread[where d = 0])
      (simp_all add: OnSettledOn_def fresh_sum_def conf_sum_add_notice add_notice_layers Let_def)
next
  case (resolve i s L r)
  then show ?case by (intro once_inv_on_thread[where d = 0]) (simp_all add: fresh_sum_def)
qed (rule once_inv_on_thread[where d = 1];
     simp add: client_defs fresh_sum_def conf_sum_Dispatch conf_sum_post_or conf_sum_add_handler add_handler_layers)+

lemma reach_once_inv: "sys_reach ctx execs s \<Longrightarrow> once_inv s"
proof (induction rule: sys_reach.induct)
  case sys_start
  have "claims L (sys_init ctx execs) = 0" for L using own_inv_init[of ctx execs] by (simp add: own_inv_def sys_init_def)
  then show ?case by (simp add: once_inv_def sys_init_def claims_def sys_sum_def thread_sum_def comp_def)
next
  case (sys_run s s')
  note inv = reach_own_inv[OF sys_run(1)]
  from sys_run(2) show ?case
  proof (cases rule: run_step.cases)
    case (act i env)
    then show ?thesis
      using inv sys_run(3) by (cases "t_stack (s_threads s ! i)") (auto intro: once_inv_act)
  next
    case (take i j)
    have "sys_sum (own L) (unrun L) (unrun L) (take_task i j s) = sys_sum (own L) (unrun L) (unrun L) s" for L
      using sys_sum_take[OF take(2), of "own L" "unrun L" "unrun L"] by simp
    then show ?thesis using sys_run(3) by (simp add: take(1) once_inv_def take_task_def split_beta)
  qed
next
  case (sys_drop s s')
  from sys_drop(2) obtain j where j: "droppable j s" "s' = drop_task j s" by (auto elim: drop_step.cases)
  have "sys_sum (own L) (unrun L) (unrun L) (drop_task j s) \<le> sys_sum (own L) (unrun L) (unrun L) s" for L
    using sys_sum_drop[OF droppable_length[OF j(1)], of "own L" "unrun L" "unrun L"] by simp
  then have "runs L (s_events s) + sys_sum (own L) (unrun L) (unrun L) (drop_task j s)
      \<le> (if L < length (s_layers s) then 1 else 0)" for L
    using sys_drop(3)[unfolded once_inv_def, rule_format, of L] by (meson add_left_mono order_trans)
  then show ?case by (simp add: j(2) once_inv_def)
next
  case (sys_client s s')
  then show ?case using once_inv_client reach_own_inv by blast
qed

subsection \<open>The work that is left\<close>

fun handler_work :: "'c handler \<Rightarrow> nat" where
  "handler_work (AfterThen core L fn) = 9"
| "handler_work (AfterResult core L fn eMode) = 9"
| "handler_work (AfterPromise core L given) = 9"
| "handler_work (Notice n) = 3"
| "handler_work (NoticeOn e n) = 5"
| "handler_work (AdoptChild L) = 3"
| "handler_work (Bridge x L) = 3"

fun action_work :: "'c action \<Rightarrow> nat" where
  "action_work (Call h r) = handler_work h - 1"
| "action_work (RunLayer core L body bRetried) = (if bRetried then 2 else 5)"
| "action_work (DoAdopt core L given) = 5"
| "action_work (BindChild x L child u) = 5"
| "action_work (RunStarter L) = 2"
| "action_work (RunNotice n r) = 1"
| "action_work (Settle L r) = 1"
| "action_work EndInline = 1"
| "action_work EndTask = 1"

definition posted_work :: "'c action \<Rightarrow> nat" where
  "posted_work a = action_work a + 2"

definition work :: "'c sys \<Rightarrow> nat" where
  "work = sys_sum handler_work action_work posted_work"

lemma handler_work_pos: "3 \<le> handler_work h"
  by (cases h) simp_all

lemma call_handler_work:
  "conf_sum handler_work action_work posted_work (call_handler h r env c)
     < conf_sum handler_work action_work posted_work c + action_work (Call h r)"
  by (cases "(h, r, env, c)" rule: call_handler.cases)
    (simp_all add: conf_sum_Dispatch conf_sum_post_or posted_work_def)

lemma calls_work: "sum_list (map (\<lambda>h. handler_work h - Suc 0) hs) \<le> sum_list (map handler_work hs)"
  by (intro sum_list_mono) simp

lemma perform_work:
  assumes "swept (s_layers (fst c))" and "refers_ok (length (s_layers (fst c))) a" and "env_ok (fst c) env"
  shows "conf_sum handler_work action_work posted_work (perform a env c)
    < conf_sum handler_work action_work posted_work c + action_work a"
proof (cases "(a, env, c)" rule: perform.cases)
  case (1 h r)
  then show ?thesis using call_handler_work[of h r env c] by simp
next
  case (2 core L body b)
  then show ?thesis
    by (auto simp: run_layer_def conf_sum_post_or posted_work_def split_beta split: option.split)
next
  case (3 core L given)
  with assms(3) show ?thesis
    by (auto simp: adopt_def Let_def env_ok_def conf_sum_add_notice posted_work_def split: child_outcome.split)
next
  case (4 x L child u)
  with assms(2) show ?thesis by (simp add: conf_sum_add_notice refers_ok_def Let_def posted_work_def)
next
  case (5 L)
  then show ?thesis by (simp split: starter_outcome.split)
next
  case (7 L r)
  with assms(1,2) show ?thesis
    using conf_sum_settle[of L c handler_work action_work posted_work r]
      calls_work[of "pending_handlers (s_layers (fst c) ! L)"]
    by (simp add: refers_ok_def swept_at)
qed simp_all

lemma run_step_work: "run_step s s' \<Longrightarrow> own_inv s \<Longrightarrow> work s' < work s"
proof (induction rule: run_step.induct)
  case (act i s env)
  then obtain a rest where st: "t_stack (s_threads s ! i) = a # rest" by (cases "t_stack (s_threads s ! i)") auto
  let ?c = "(s, (s_threads s ! i)\<lparr>t_stack := rest\<rparr>)"
  have "refers_ok (length (s_layers s)) a" using own_inv_action[OF act(4,1), of a] st by auto
  moreover have "swept (s_layers s)" using act(4) by (simp add: own_inv_def)
  ultimately have "conf_sum handler_work action_work posted_work (perform a env ?c)
      < conf_sum handler_work action_work posted_work ?c + action_work a"
    using perform_work[of ?c a env] act(3) by simp
  moreover have "work (act i env s) + conf_sum handler_work action_work posted_work ?c + action_work a
      = work s + conf_sum handler_work action_work posted_work (perform a env ?c)"
    using sys_sum_act[OF act(1) st, of handler_work action_work posted_work env
        "conf_sum handler_work action_work posted_work ?c"
        "conf_sum handler_work action_work posted_work (perform a env ?c)"] by (simp add: work_def)
  ultimately show ?case by linarith
next
  case (take i j s)
  then show ?case
    using sys_sum_take[OF take(1), of handler_work action_work posted_work] by (simp add: work_def posted_work_def)
qed

lemma drop_step_work: "drop_step s s' \<Longrightarrow> work s' < work s"
proof (induction rule: drop_step.induct)
  case (dropped j s)
  then show ?case
    using sys_sum_drop[OF droppable_length, of j s handler_work action_work posted_work]
    by (simp add: work_def posted_work_def)
qed

subsection \<open>The gates\<close>

text \<open>A thread that is in a gate's slot has the end of that task on its stack, so a thread with
  nothing to do is in none; and the tasks in the slots of a gate do not exclude each other.\<close>

definition framed :: "'c thread \<Rightarrow> bool" where
  "framed th \<longleftrightarrow> (t_frame th \<noteq> None \<longrightarrow> t_stack th \<noteq> [] \<and> last (t_stack th) = EndTask)"

definition compatible :: "'c thread \<Rightarrow> 'c thread \<Rightarrow> bool" where
  "compatible th th' \<longleftrightarrow> (\<forall>e g g'. t_frame th = Some (e, g) \<and> t_frame th' = Some (e, g') \<longrightarrow> \<not> excludes g g')"

definition frames_ok :: "'c thread list \<Rightarrow> bool" where
  "frames_ok ths \<longleftrightarrow> (\<forall>th \<in> set ths. framed th)
     \<and> (\<forall>i < length ths. \<forall>i' < length ths. i \<noteq> i' \<longrightarrow> compatible (ths ! i) (ths ! i'))"

definition stacks_up :: "'c thread \<Rightarrow> 'c thread \<Rightarrow> bool" where
  "stacks_up th th' \<longleftrightarrow> t_frame th' = t_frame th \<and> (\<exists>as. t_stack th' = as @ t_stack th)"

lemma stacks_up_ops:
  "stacks_up th th" "snd c = th \<Longrightarrow> stacks_up th (snd (push as c))"
  "snd c = th \<Longrightarrow> stacks_up th (snd (log_event ev c))" "snd c = th \<Longrightarrow> stacks_up th (snd (inline_call a c))"
  "snd c = th \<Longrightarrow> stacks_up th (snd (post_or e k a as c))"
  "snd c = th \<Longrightarrow> stacks_up th (snd (Dispatch core L a env c))"
  "snd c = th \<Longrightarrow> stacks_up th (snd (add_notice e U h c))"
  "snd c = th \<Longrightarrow> stacks_up th (snd (add_handler e U L h c))" "snd c = th \<Longrightarrow> stacks_up th (snd (settle L r c))"
  by (auto simp: stacks_up_def push_def log_event_def inline_call_def post_or_def Dispatch_def Let_def
      add_notice_def add_handler_def settle_def split: prod.split option.split)

lemma log_snd [simp]: "snd (log_event ev c) = snd c"
  by (simp add: log_event_def)

lemma call_handler_stacks: "stacks_up (snd c) (snd (call_handler h r env c))"
  by (cases "(h, r, env, c)" rule: call_handler.cases; simp add: stacks_up_ops)

lemma perform_stacks:
  assumes "a \<noteq> EndTask"
  shows "stacks_up (snd c) (snd (perform a env c))"
proof (cases "(a, env, c)" rule: perform.cases)
  case (1 h r)
  then show ?thesis by (simp add: call_handler_stacks)
next
  case (2 core L body b)
  then show ?thesis by (simp add: run_layer_def split_beta stacks_up_ops split: option.split)
next
  case (3 core L given)
  then show ?thesis by (simp add: adopt_def Let_def stacks_up_ops split: child_outcome.split)
next
  case (5 L)
  then show ?thesis by (simp add: stacks_up_ops split: starter_outcome.split)
next
  case 8
  then show ?thesis by (simp add: stacks_up_def)
qed (use assms in \<open>simp_all add: stacks_up_ops\<close>)

lemma framed_up: "framed th \<Longrightarrow> stacks_up th th' \<Longrightarrow> framed th'"
  by (auto simp: framed_def stacks_up_def)

lemma frames_ok_update:
  assumes ok: "frames_ok ths" and th: "framed th"
    and same: "t_frame th = None \<or> t_frame th = t_frame (ths ! i)"
  shows "frames_ok (ths[i := th])"
proof (cases "i < length ths")
  case True
  have "compatible th (ths ! i') \<and> compatible (ths ! i') th" if "i' < length ths" "i' \<noteq> i" for i'
    using ok that same True unfolding frames_ok_def compatible_def by (metis option.distinct(1))
  with assms True show ?thesis
    using set_update_subset_insert[of ths i th] by (auto simp: frames_ok_def nth_list_update)
qed (use ok in \<open>simp add: list_update_beyond\<close>)

lemma frames_ok_act:
  assumes ok: "frames_ok (s_threads s)" and i: "i < length (s_threads s)" and st: "t_stack (s_threads s ! i) = a # rest"
  shows "frames_ok (s_threads (act i env s))"
proof -
  let ?th = "s_threads s ! i"
  let ?c = "(s, ?th\<lparr>t_stack := rest\<rparr>)"
  have fr: "framed ?th" using ok i by (simp add: frames_ok_def)
  have "framed (snd (perform a env ?c)) \<and> (t_frame (snd (perform a env ?c)) = None
      \<or> t_frame (snd (perform a env ?c)) = t_frame ?th)"
  proof (cases "a = EndTask")
    case False
    then have up: "stacks_up (?th\<lparr>t_stack := rest\<rparr>) (snd (perform a env ?c))" using perform_stacks[of a ?c env] by simp
    moreover have "framed (?th\<lparr>t_stack := rest\<rparr>)" using fr False st by (cases rest) (auto simp: framed_def)
    ultimately show ?thesis using framed_up[OF _ up] up by (simp add: stacks_up_def)
  qed (simp add: framed_def)
  then have "frames_ok ((s_threads s)[i := snd (perform a env ?c)])" using frames_ok_update[OF ok] by blast
  then show ?thesis by (simp add: act_def st put_def)
qed

lemma frames_ok_take:
  assumes ok: "frames_ok (s_threads s)" and w: "worker_idle i j s"
  shows "frames_ok (s_threads (take_task i j s))"
proof -
  obtain e k a where p: "s_posted s ! j = (e, k, a)" by (cases "s_posted s ! j") auto
  let ?th = "(s_threads s ! i)\<lparr>t_frame := frame_of e k, t_stack := [a, EndTask]\<rparr>"
  have i: "i < length (s_threads s)" and g: "gate_admits j s" using w by (simp_all add: worker_idle_def)
  have "compatible ?th th \<and> compatible th ?th" if "th \<in> set (s_threads s)" for th
    using g p that by (cases k)
      (auto simp: gate_admits_def compatible_def frame_of_def excludes_def list_all_iff split: option.splits)
  then have "frames_ok ((s_threads s)[i := ?th])"
    using ok i set_update_subset_insert[of "s_threads s" i ?th]
    by (auto simp: frames_ok_def framed_def nth_list_update)
  then show ?thesis by (simp add: take_task_def p put_def)
qed

lemma frames_ok_on_thread:
  assumes ok: "frames_ok (s_threads s)" and i: "i < length (s_threads s)"
    and th: "s_threads (fst (f (s, s_threads s ! i))) = s_threads s"
    and up: "stacks_up (s_threads s ! i) (snd (f (s, s_threads s ! i)))"
  shows "frames_ok (s_threads (on_thread i f s))"
proof -
  have "framed (s_threads s ! i)" using ok i by (simp add: frames_ok_def)
  then have "frames_ok ((s_threads s)[i := snd (f (s, s_threads s ! i))])"
    using frames_ok_update[OF ok framed_up[OF _ up]] up by (simp add: stacks_up_def)
  then show ?thesis by (simp add: on_thread_def put_def th)
qed

lemma frames_ok_client: "client_step s s' \<Longrightarrow> frames_ok (s_threads s) \<Longrightarrow> frames_ok (s_threads s')"
  by (induction rule: client_step.induct)
    (simp_all add: client_defs OnSettled_def OnSettledOn_def frames_ok_on_thread stacks_up_ops)

lemma reach_frames_ok: "sys_reach ctx execs s \<Longrightarrow> frames_ok (s_threads s)"
proof (induction rule: sys_reach.induct)
  case sys_start
  show ?case by (auto simp: sys_init_def frames_ok_def framed_def compatible_def)
next
  case (sys_run s s')
  from sys_run(2) show ?case
  proof (cases rule: run_step.cases)
    case (act i env)
    then show ?thesis using sys_run(3) by (cases "t_stack (s_threads s ! i)") (auto intro: frames_ok_act)
  next
    case (take i j)
    then show ?thesis using sys_run(3) by (simp add: frames_ok_take)
  qed
next
  case (sys_drop s s')
  then show ?case by (auto elim!: drop_step.cases)
next
  case (sys_client s s')
  then show ?case by (simp add: frames_ok_client)
qed

subsection \<open>Rest\<close>

definition at_rest :: "'c sys \<Rightarrow> bool" where
  "at_rest s \<longleftrightarrow> s_posted s = [] \<and> (\<forall>th \<in> set (s_threads s). t_stack th = [])"

text \<open>Every executor that has accepted a task, or would, has a worker.\<close>

definition staffed :: "'c sys \<Rightarrow> bool" where
  "staffed s \<longleftrightarrow> (\<forall>e. (\<exists>k. s_accepts s e k) \<or> e \<in> fst ` set (s_posted s) \<longrightarrow> Some e \<in> t_exec ` set (s_threads s))"

lemma staffed_progress:
  assumes "staffed s" and "\<not> at_rest s" and frames: "frames_ok (s_threads s)"
  shows "\<exists>s'. run_step s s'"
proof (cases "\<exists>th \<in> set (s_threads s). t_stack th \<noteq> []")
  case True
  then obtain i where "i < length (s_threads s)" "t_stack (s_threads s ! i) \<noteq> []" by (auto simp: in_set_conv_nth)
  moreover have "env_ok s \<lparr>gate_free = True, child_is = ChildThrowsOther, starter_is = StarterOk,
      apply_is = ThrowsOther, ctx_is = s_ctx s 0\<rparr>" by (simp add: env_ok_def)
  ultimately show ?thesis by (blast intro: run_step.act)
next
  case False
  then have p: "s_posted s \<noteq> []" using assms(2) by (auto simp: at_rest_def)
  then have "fst (s_posted s ! 0) \<in> fst ` set (s_posted s)" by (cases "s_posted s") auto
  then have "Some (fst (s_posted s ! 0)) \<in> t_exec ` set (s_threads s)" using assms(1) by (simp add: staffed_def)
  then obtain i where "i < length (s_threads s)" "t_exec (s_threads s ! i) = Some (fst (s_posted s ! 0))"
    by (auto simp: in_set_conv_nth)
  moreover have "gate_admits 0 s"
  proof -
    have "t_frame th = None" if "th \<in> set (s_threads s)" for th
      using frames False that unfolding frames_ok_def framed_def by blast
    then show ?thesis by (auto simp: gate_admits_def list_all_iff split: prod.split TaskKind.split)
  qed
  ultimately have "worker_idle i 0 s" using False p by (auto simp: worker_idle_def)
  then show ?thesis by (blast intro: run_step.take)
qed

text \<open>A step keeps the workers, and posts only where tasks are accepted.\<close>

definition posts_ok :: "'c conf \<Rightarrow> 'c conf \<Rightarrow> bool" where
  "posts_ok c c' \<longleftrightarrow> s_accepts (fst c') = s_accepts (fst c) \<and> t_exec (snd c') = t_exec (snd c)
     \<and> (\<forall>e \<in> fst ` set (s_posted (fst c')). e \<in> fst ` set (s_posted (fst c)) \<or> (\<exists>k. s_accepts (fst c) e k))"

lemma posts_ok_prims [simp]:
  "posts_ok c c" "posts_ok c (push as c)" "posts_ok c (log_event ev c)" "posts_ok c (inline_call a c)"
  "posts_ok c (post_or e k a as c)" "posts_ok c (Dispatch core L a env c)" "posts_ok c (add_notice e U h c)"
  "posts_ok c (settle L r c)" "posts_ok c (fst c, (snd c)\<lparr>t_depth := d\<rparr>)" "posts_ok c (fst c, (snd c)\<lparr>t_frame := y\<rparr>)"
  by (auto simp: posts_ok_def push_def log_event_def inline_call_def post_or_def Dispatch_def Let_def
      add_notice_def settle_def split: prod.split option.split)

lemma posts_ok_ctx [simp]:
  "posts_ok (s, th) (post_or e k a as (s\<lparr>s_ctx := x\<rparr>, th))" "posts_ok (s, th) (push as (s\<lparr>s_ctx := x\<rparr>, th))"
  "posts_ok (s, th) (push as (log_event ev (s\<lparr>s_ctx := x\<rparr>, th)))"
  "posts_ok (s, th) (add_notice e U h (s\<lparr>s_ctx := x\<rparr>, th))"
  by (auto simp: posts_ok_def push_def log_event_def inline_call_def post_or_def add_notice_def
      split: prod.split option.split)

lemma perform_posts: "posts_ok c (perform a env c)"
proof (cases "(a, env, c)" rule: perform.cases)
  case (1 h r)
  then show ?thesis by (cases "(h, r, env, c)" rule: call_handler.cases; cases c) auto
next
  case (2 core L body b)
  then show ?thesis by (cases c) (auto simp: run_layer_def split_beta split: option.split)
next
  case (3 core L given)
  then show ?thesis by (cases c) (auto simp: adopt_def Let_def split: child_outcome.split)
next
  case (5 L)
  then show ?thesis by (simp split: starter_outcome.split)
qed simp_all

lemma set_remove_nth: "set (take j xs @ drop (Suc j) xs) \<subseteq> set xs"
  by (auto dest: in_set_takeD in_set_dropD)

lemma staffed_step: "run_step s s' \<Longrightarrow> staffed s \<Longrightarrow> staffed s'"
proof (induction rule: run_step.induct)
  case (act i s env)
  then obtain a rest where st: "t_stack (s_threads s ! i) = a # rest" by (cases "t_stack (s_threads s ! i)") auto
  let ?c = "(s, (s_threads s ! i)\<lparr>t_stack := rest\<rparr>)"
  have p: "posts_ok ?c (perform a env ?c)" by (rule perform_posts)
  have "map t_exec (s_threads (act i env s)) = map t_exec (s_threads s)"
    using p act(1) by (simp add: act_def st put_def posts_ok_def map_update)
      (metis list_update_id nth_map)
  then have "t_exec ` set (s_threads (act i env s)) = t_exec ` set (s_threads s)" by (metis set_map)
  moreover have "s_posted (act i env s) = s_posted (fst (perform a env ?c))"
    "s_accepts (act i env s) = s_accepts (fst (perform a env ?c))" by (simp_all add: act_def st)
  ultimately show ?case using p act(4) unfolding staffed_def posts_ok_def by (metis fst_conv)
next
  case (take i j s)
  have "map t_exec (s_threads (take_task i j s)) = map t_exec (s_threads s)"
    using take(1) by (simp add: take_task_def put_def split_beta worker_idle_def map_update)
      (metis list_update_id nth_map)
  then have "t_exec ` set (s_threads (take_task i j s)) = t_exec ` set (s_threads s)" by (metis set_map)
  moreover have "set (s_posted (take_task i j s)) \<subseteq> set (s_posted s)"
    using set_remove_nth by (simp add: take_task_def split_beta)
  moreover have "s_accepts (take_task i j s) = s_accepts s" by (simp add: take_task_def split_beta)
  ultimately show ?case using take(2) unfolding staffed_def by (metis image_mono subsetD)
qed

lemma reach_rest:
  assumes "sys_reach ctx execs s" and "staffed s"
  shows "\<exists>s'. run_step\<^sup>*\<^sup>* s s' \<and> at_rest s'"
  using assms
proof (induction "work s" arbitrary: s rule: less_induct)
  case less
  show ?case
  proof (cases "at_rest s")
    case False
    then obtain s1 where s1: "run_step s s1"
      using staffed_progress less.prems(2) reach_frames_ok[OF less.prems(1)] by blast
    then have "work s1 < work s" using reach_own_inv[OF less.prems(1)] by (rule run_step_work)
    moreover have "sys_reach ctx execs s1" "staffed s1"
      using s1 less.prems staffed_step by (auto intro: sys_run)
    ultimately obtain s' where "run_step\<^sup>*\<^sup>* s1 s'" "at_rest s'" using less.hyps by blast
    then show ?thesis using s1 by (meson converse_rtranclp_into_rtranclp)
  qed blast
qed

subsection \<open>Who waits for whom\<close>

definition pending :: "nat \<Rightarrow> 'c sys \<Rightarrow> bool" where
  "pending L s \<longleftrightarrow> L < length (s_layers s) \<and> \<not> m_bSettled (s_layers s ! L)"

definition waits :: "'c sys \<Rightarrow> (nat \<times> nat) set" where
  "waits s = {(L, U). pending U s \<and> (\<exists>h \<in> set (pending_handlers (s_layers s ! U)). owner h = Some L)}"

lemma sum_pos: "0 < sum_list (map f xs) \<Longrightarrow> \<exists>x \<in> set xs. 0 < (f x :: nat)"
  by (induction xs) auto

lemma rest_waits:
  assumes "own_inv s" and "at_rest s" and "pending L s" and "\<not> is_external (s_origin s ! L)" and "lost L s = 0"
  shows "\<exists>U. (L, U) \<in> waits s"
proof -
  have "thread_sum (tgt L) (s_threads s) = 0" "posted_sum (tgt L) (s_posted s) = 0"
    using assms(2) by (simp_all add: at_rest_def thread_sum_def)
  then have "0 < layer_sum (own L) (s_layers s)"
    using assms(1,3,4,5) by (auto simp: own_inv_def pending_def claims_def sys_sum_def)
  then obtain st where st: "st \<in> set (s_layers s)" "0 < sum_list (map (own L) (pending_handlers st))"
    unfolding layer_sum_def by (auto dest: sum_pos)
  then obtain h where h: "h \<in> set (pending_handlers st)" "owner h = Some L"
    by (auto dest!: sum_pos simp: own_def split: if_splits)
  obtain U where U: "U < length (s_layers s)" "s_layers s ! U = st" using st(1) by (auto simp: in_set_conv_nth)
  have "\<not> m_bSettled st" using assms(1) st(1) h(1) by (auto simp: own_inv_def swept_def)
  with U h show ?thesis by (auto simp: waits_def pending_def)
qed

text \<open>Following the waits from a pending layer one comes to one that waits for none, when they have
  no cycle.\<close>

lemma end_of_waits:
  assumes acyc: "acyclic (waits s)" and pend: "pending L s"
  shows "\<exists>K. (L, K) \<in> (waits s)\<^sup>* \<and> pending K s \<and> (\<nexists>U. (K, U) \<in> waits s)"
proof -
  let ?P = "{L. pending L s}"
  have fin: "finite ?P" by (rule finite_subset[of _ "{..<length (s_layers s)}"]) (auto simp: pending_def)
  let ?W = "waits s \<inter> ?P \<times> ?P"
  have "finite ?W" using fin by (auto intro: finite_subset[of ?W "?P \<times> ?P"])
  moreover have "acyclic ?W" using acyc by (rule acyclic_subset) blast
  ultimately have "wf (?W\<inverse>)" by (rule finite_acyclic_wf_converse)
  then show ?thesis using pend
  proof (induction L rule: wf_induct_rule)
    case (less L)
    show ?case
    proof (cases "\<exists>U. (L, U) \<in> waits s")
      case True
      then obtain U where U: "(L, U) \<in> waits s" by blast
      then have "pending U s" by (simp add: waits_def)
      then have "(U, L) \<in> ?W\<inverse>" using U less.prems by simp
      from less.IH[OF this \<open>pending U s\<close>] U show ?thesis by (meson converse_rtrancl_into_rtrancl)
    qed (use less.prems in blast)
  qed
qed

end
