(* ===== verification/PromiseSemantics.thy ===== *)
theory PromiseSemantics
  imports PromiseProgress
begin

text \<open>
  The three-state semantics of \<open>Then\<close>, \<open>Catch\<close> and \<open>Finally\<close>, of waiting for a child and of the
  gates a body asks for, as an invariant of every run: what every closure in the system refers
  to, what the result of a settled layer comes from, and in which circumstances the user code of
  a layer ran.
\<close>

definition settled_with :: "'c sys \<Rightarrow> nat \<Rightarrow> promise_result \<Rightarrow> bool" where
  "settled_with s U r \<longleftrightarrow> U < length (s_layers s) \<and> m_bSettled (s_layers s ! U) \<and> m_result (s_layers s ! U) = r"

definition ran :: "'c sys \<Rightarrow> nat \<Rightarrow> promise_result \<Rightarrow> bool" where
  "ran s L r \<longleftrightarrow> (\<exists>f. Ran L f r \<in> set (s_events s))"

definition failed_code :: "promise_result \<Rightarrow> bool" where
  "failed_code r \<longleftrightarrow> (\<exists>e. r = capture (Throws e)) \<or> r = capture ThrowsOther"

text \<open>What the result of a layer may come from, by the way the layer came to be.\<close>

definition justified :: "'c sys \<Rightarrow> nat \<Rightarrow> promise_result \<Rightarrow> bool" where
  "justified s L r \<longleftrightarrow> L < length (s_origin s) \<and> (is_external (s_origin s ! L) \<or> r = kStopped \<or>
     (case s_origin s ! L of
        OFirst core fn \<Rightarrow> r = kGateTwice \<or> ran s L r
      | OThen core U fn \<Rightarrow> (\<exists>u. settled_with s U u
           \<and> (if IsRejected u then r = u else r = kGateTwice \<or> ran s L r))
      | OResult core U fn eMode \<Rightarrow> (\<exists>u. settled_with s U u
           \<and> (if eMode = kModeCatch \<and> IsFulfilled u then r = u else r = kGateTwice \<or> ran s L r))
      | OPromise core U \<Rightarrow> (\<exists>u. settled_with s U u
           \<and> (if IsRejected u then r = u else failed_code r \<or> (\<exists>child. settled_with s child r)))
      | OBridge core u \<Rightarrow> (\<exists>v. settled_with s u v
           \<and> (if IsRejected v then r = v else r = Resolve \<or> failed_code r))
      | OExternal core \<Rightarrow> True))"

fun handler_ok :: "'c sys \<Rightarrow> nat \<Rightarrow> 'c handler \<Rightarrow> bool" where
  "handler_ok s U (AfterThen core L fn) \<longleftrightarrow> L < length (s_origin s) \<and> s_origin s ! L = OThen core U fn"
| "handler_ok s U (AfterResult core L fn eMode) \<longleftrightarrow>
     L < length (s_origin s) \<and> s_origin s ! L = OResult core U fn eMode"
| "handler_ok s U (AfterPromise core L given) \<longleftrightarrow> L < length (s_origin s) \<and> s_origin s ! L = OPromise core U"
| "handler_ok s U (Notice n) \<longleftrightarrow> Registered n U \<in> set (s_events s)"
| "handler_ok s U (NoticeOn e n) \<longleftrightarrow> Registered n U \<in> set (s_events s)"
| "handler_ok s U (AdoptChild L) \<longleftrightarrow> L < length (s_origin s) \<and>
     (\<exists>core V u. s_origin s ! L = OPromise core V \<and> settled_with s V u \<and> \<not> IsRejected u)"
| "handler_ok s U (Bridge x L) \<longleftrightarrow> L < length (s_origin s) \<and> (\<exists>core. s_origin s ! L = OBridge core U)"

text \<open>In which circumstances a body is run: the mode's condition holds of the upstream layer.\<close>

fun body_ok :: "'c sys \<Rightarrow> core \<Rightarrow> nat \<Rightarrow> 'c body \<Rightarrow> bool" where
  "body_ok s core L (ThenBody fn) \<longleftrightarrow> L < length (s_origin s) \<and>
     (s_origin s ! L = OFirst core fn
      \<or> (\<exists>U u. s_origin s ! L = OThen core U fn \<and> settled_with s U u \<and> \<not> IsRejected u))"
| "body_ok s core L (ResultBody fn u eMode) \<longleftrightarrow> L < length (s_origin s) \<and>
     (\<exists>U. s_origin s ! L = OResult core U fn eMode \<and> settled_with s U u \<and> \<not> (eMode = kModeCatch \<and> IsFulfilled u))"

fun act_ok :: "'c sys \<Rightarrow> 'c action \<Rightarrow> bool" where
  "act_ok s (Call h r) \<longleftrightarrow> (\<exists>U. settled_with s U r \<and> handler_ok s U h)"
| "act_ok s (RunLayer core L body b) \<longleftrightarrow> body_ok s core L body"
| "act_ok s (DoAdopt core L given) \<longleftrightarrow> L < length (s_origin s) \<and>
     (\<exists>U u. s_origin s ! L = OPromise core U \<and> settled_with s U u \<and> \<not> IsRejected u)"
| "act_ok s (BindChild x L child u) \<longleftrightarrow> L < length (s_origin s) \<and> (\<exists>core. s_origin s ! L = OBridge core u)"
| "act_ok s (RunStarter L) \<longleftrightarrow> L < length (s_origin s) \<and> is_external (s_origin s ! L)"
| "act_ok s (RunNotice n r) \<longleftrightarrow> (\<exists>U. Registered n U \<in> set (s_events s) \<and> settled_with s U r)"
| "act_ok s (Settle L r) \<longleftrightarrow> justified s L r"
| "act_ok s EndInline \<longleftrightarrow> True"
| "act_ok s EndTask \<longleftrightarrow> True"

text \<open>User code ran as a body whose circumstances were right, in a frame that has all the slots
  it asked for; a notice is delivered with the result of a layer it was registered on.\<close>

definition event_ok :: "'c sys \<Rightarrow> event \<Rightarrow> bool" where
  "event_ok s ev \<longleftrightarrow> (case ev of
      Ran L f r \<Rightarrow> (\<exists>core body x. body_ok s core L body \<and> r = fst (run_body body x)
         \<and> (\<forall>g. Gated g \<in> set (body_gates body) \<longrightarrow> f = Some (fst core, g)))
    | Noticed n r \<Rightarrow> (\<exists>U. Registered n U \<in> set (s_events s) \<and> settled_with s U r)
    | _ \<Rightarrow> True)"

subsection \<open>Later states\<close>

definition later :: "'c sys \<Rightarrow> 'c sys \<Rightarrow> bool" where
  "later s s' \<longleftrightarrow> (\<exists>ogs. s_origin s' = s_origin s @ ogs) \<and> set (s_events s) \<subseteq> set (s_events s')
     \<and> (\<forall>U r. settled_with s U r \<longrightarrow> settled_with s' U r)"

lemma later_refl [simp]: "later s s"
  by (simp add: later_def)

lemma later_origin:
  "later s s' \<Longrightarrow> L < length (s_origin s) \<Longrightarrow> L < length (s_origin s') \<and> s_origin s' ! L = s_origin s ! L"
  by (auto simp: later_def nth_append)

lemma later_settled: "later s s' \<Longrightarrow> settled_with s U r \<Longrightarrow> settled_with s' U r"
  by (simp add: later_def)

lemma later_ran: "later s s' \<Longrightarrow> ran s L r \<Longrightarrow> ran s' L r"
  by (auto simp: later_def ran_def)

lemma later_events: "later s s' \<Longrightarrow> ev \<in> set (s_events s) \<Longrightarrow> ev \<in> set (s_events s')"
  by (auto simp: later_def)

lemma later_handler: "later s s' \<Longrightarrow> handler_ok s U h \<Longrightarrow> handler_ok s' U h"
  by (cases h) (auto simp: later_origin later_events, blast dest: later_settled)

lemma later_body: "later s s' \<Longrightarrow> body_ok s core L body \<Longrightarrow> body_ok s' core L body"
  by (cases body) (auto simp: later_origin dest: later_settled)

lemma later_justified:
  assumes l: "later s s'" and j: "justified s L r"
  shows "justified s' L r"
proof -
  have "L < length (s_origin s)" using j by (simp add: justified_def)
  note og = later_origin[OF l this]
  show ?thesis
    using j og later_settled[OF l] later_ran[OF l]
    by (cases "s_origin s ! L") (simp_all add: justified_def is_external_def, (metis (full_types))+)
qed

lemma later_act: "later s s' \<Longrightarrow> act_ok s a \<Longrightarrow> act_ok s' a"
  by (cases a) (auto simp: later_origin later_justified later_body intro: later_settled later_handler;
      blast dest: later_settled later_handler later_events)+

lemma later_event: "later s s' \<Longrightarrow> event_ok s ev \<Longrightarrow> event_ok s' ev"
proof (cases ev)
  case (Noticed n r)
  then show "later s s' \<Longrightarrow> event_ok s ev \<Longrightarrow> event_ok s' ev"
    by (auto simp: event_ok_def intro: later_events later_settled)
qed (auto simp: event_ok_def dest!: later_body)

subsection \<open>Everything in a configuration is as it should be\<close>

text \<open>The closures of a configuration, judged in the state \<open>s\<close>.\<close>

definition conf_ok :: "'c sys \<Rightarrow> 'c conf \<Rightarrow> bool" where
  "conf_ok s c \<longleftrightarrow> (\<forall>U < length (s_layers (fst c)). \<forall>h \<in> set (pending_handlers (s_layers (fst c) ! U)). handler_ok s U h)
     \<and> (\<forall>(e, k, a) \<in> set (s_posted (fst c)). act_ok s a) \<and> (\<forall>a \<in> set (t_stack (snd c)). act_ok s a)"

lemma conf_ok_push: "conf_ok s c \<Longrightarrow> \<forall>a \<in> set as. act_ok s a \<Longrightarrow> conf_ok s (push as c)"
  by (auto simp: conf_ok_def push_def)

lemma conf_ok_log: "conf_ok s (log_event ev c) = conf_ok s c"
  by (simp add: conf_ok_def log_event_def)

lemma conf_ok_ctx: "conf_ok s (s'\<lparr>s_ctx := x\<rparr>, th) = conf_ok s (s', th)"
  by (simp add: conf_ok_def)

lemma conf_ok_posted:
  "conf_ok s c \<Longrightarrow> act_ok s a \<Longrightarrow> conf_ok s ((fst c)\<lparr>s_posted := s_posted (fst c) @ [(e, k, a)]\<rparr>, snd c)"
  by (auto simp: conf_ok_def)

lemma conf_ok_post_or:
  "conf_ok s c \<Longrightarrow> act_ok s a \<Longrightarrow> \<forall>b \<in> set as. act_ok s b \<Longrightarrow> conf_ok s (post_or e k a as c)"
  by (auto simp: post_or_def conf_ok_posted intro: conf_ok_push)

lemma conf_ok_inline: "conf_ok s c \<Longrightarrow> act_ok s a \<Longrightarrow> conf_ok s (inline_call a c)"
  unfolding inline_call_def by (rule conf_ok_push) (simp_all add: conf_ok_def)

lemma conf_ok_Dispatch:
  "conf_ok s c \<Longrightarrow> act_ok s a \<Longrightarrow> justified s L kStopped \<Longrightarrow> conf_ok s (Dispatch core L a env c)"
  by (auto simp: Dispatch_def Let_def intro: conf_ok_inline conf_ok_post_or)

lemma conf_ok_register:
  assumes ok: "conf_ok s c" and U: "U < length (s_layers (fst c))" and h: "handler_ok s U h"
  shows "conf_ok s ((fst c)\<lparr>s_layers := (s_layers (fst c))[U := snd (Register_locked (Some h) (s_layers (fst c) ! U))]\<rparr>, snd c)"
proof -
  have "set (pending_handlers (snd (Register_locked (Some h) st))) \<subseteq> insert h (set (pending_handlers st))" for st
    by (cases "m_handlerInline st") (auto simp: Register_locked_def pending_handlers_def)
  with ok h show ?thesis by (auto simp: conf_ok_def update_nth split: if_splits)
qed

lemma conf_ok_add_notice:
  assumes ok: "conf_ok s c" and U: "U < length (s_layers (fst c))" and h: "handler_ok s U h"
    and call: "m_bSettled (s_layers (fst c) ! U) \<Longrightarrow> settled_with s U (m_result (s_layers (fst c) ! U))"
  shows "conf_ok s (add_notice e U h c)"
proof (cases "m_bSettled (s_layers (fst c) ! U)")
  case True
  then have "act_ok s (Call h (m_result (s_layers (fst c) ! U)))" using call h by auto
  note a = conf_ok_posted[OF ok this] conf_ok_inline[OF ok this]
  show ?thesis using True by (simp add: add_notice_def Register_settled a)
next
  case False
  then show ?thesis using conf_ok_register[OF ok U h] by (simp add: add_notice_def Register_locked_def)
qed

lemma conf_ok_add_handler:
  assumes ok: "conf_ok s c" and U: "U < length (s_layers (fst c))" and h: "handler_ok s U h"
    and call: "m_bSettled (s_layers (fst c) ! U) \<Longrightarrow> settled_with s U (m_result (s_layers (fst c) ! U))"
    and stop: "justified s L kStopped"
  shows "conf_ok s (add_handler e U L h c)"
proof (cases "m_bSettled (s_layers (fst c) ! U)")
  case True
  then have "act_ok s (Call h (m_result (s_layers (fst c) ! U)))" using call h by auto
  note a = conf_ok_post_or[OF ok this, of "[Settle L kStopped]"]
  show ?thesis using True stop by (simp add: add_handler_def Register_settled a)
next
  case False
  then show ?thesis using conf_ok_register[OF ok U h] by (simp add: add_handler_def Register_locked_def)
qed

lemma justified_stopped: "L < length (s_origin s) \<Longrightarrow> justified s L kStopped"
  by (simp add: justified_def)

lemma call_handler_ok:
  assumes ok: "conf_ok s c" and call: "act_ok s (Call h r)"
  shows "conf_ok s (call_handler h r env c)"
proof -
  obtain U where U: "settled_with s U r" "handler_ok s U h" using call by auto
  show ?thesis
  proof (cases "(h, r, env, c)" rule: call_handler.cases)
    case (1 core L fn)
    with U ok show ?thesis
      by (auto intro!: conf_ok_push conf_ok_Dispatch justified_stopped simp: justified_def)
  next
    case (2 core L fn eMode)
    with U ok show ?thesis
      by (auto intro!: conf_ok_push conf_ok_Dispatch justified_stopped simp: justified_def)
  next
    case (3 core L given)
    with U ok show ?thesis
      by (auto intro!: conf_ok_push conf_ok_Dispatch justified_stopped simp: justified_def)
  next
    case (6 L)
    with U obtain core V u where "L < length (s_origin s)" "s_origin s ! L = OPromise core V"
      "settled_with s V u" "\<not> IsRejected u" by auto
    then have "justified s L r" using U(1) by (auto simp: justified_def intro!: exI[of _ u])
    with 6 ok show ?thesis by (auto intro!: conf_ok_push)
  next
    case (7 x L)
    then obtain core where og: "L < length (s_origin s)" "s_origin s ! L = OBridge core U" using U by auto
    have "capture o' = Resolve \<or> failed_code (capture o')" if "\<forall>q. o' \<noteq> Returns q" for o'
      using that by (cases o') (auto simp: failed_code_def)
    then have "justified s L (case apply_is env of Returns _ \<Rightarrow> Resolve | o' \<Rightarrow> capture o')" if "\<not> IsRejected r"
      using og U(1) that by (cases "apply_is env") (auto simp: justified_def failed_code_def)
    moreover have "justified s L r" if "IsRejected r" using og U(1) that by (auto simp: justified_def)
    ultimately show ?thesis
      using 7 ok by (cases c) (auto intro!: conf_ok_push simp: conf_ok_ctx)
  qed (use U ok in \<open>auto intro!: conf_ok_push conf_ok_post_or\<close>)
qed

subsection \<open>The invariant\<close>

definition sem_inv :: "'c sys \<Rightarrow> bool" where
  "sem_inv s \<longleftrightarrow> (\<forall>th \<in> set (s_threads s). conf_ok s (s, th))
     \<and> (\<forall>L r. settled_with s L r \<longrightarrow> justified s L r) \<and> (\<forall>ev \<in> set (s_events s). event_ok s ev)"

lemma later_conf: "later s s' \<Longrightarrow> conf_ok s c \<Longrightarrow> conf_ok s' c"
  unfolding conf_ok_def using later_handler later_act by blast

lemma perform_events: "set (s_events (fst c)) \<subseteq> set (s_events (fst (perform a env c)))"
proof (cases "(a, env, c)" rule: perform.cases)
  case (2 core L body b)
  then show ?thesis by (auto simp: run_layer_def split_beta split: option.split)
next
  case (3 core L given)
  then show ?thesis by (auto simp: adopt_def Let_def split: child_outcome.split)
next
  case (5 L)
  then show ?thesis by (simp split: starter_outcome.split)
next
  case (7 L r)
  then show ?thesis by (auto simp: settle_def split_beta)
qed auto

lemma perform_later: "later (fst c) (fst (perform a env c))"
  using perform_events[of c a env] perform_settled[of _ c a env]
  by (auto simp: later_def settled_with_def)

lemma EnterGates_None: "EnterGates e ks th = None \<Longrightarrow> Gated g \<in> set ks \<Longrightarrow> t_frame th = Some (e, g)"
  by (induction e ks th rule: EnterGates.induct) (auto simp: InGateSlot_def split: if_splits)

lemma body_justifies:
  assumes "body_ok s core L body" and "r = kGateTwice \<or> ran s L r"
  shows "justified s L r"
  using assms by (cases body) (auto simp: justified_def)

lemma body_target: "body_ok s core L body \<Longrightarrow> L < length (s_origin s)"
  by (cases body) auto

lemma run_layer_ok:
  assumes ok: "conf_ok (fst c) c" and body: "body_ok (fst c) core L body"
  shows "conf_ok (fst (run_layer core L body b c)) (run_layer core L body b c)"
proof -
  have l: "later (fst c) (fst (run_layer core L body b c))"
    using perform_later[of c "RunLayer core L body b"] by simp
  note ok' = later_conf[OF l ok] and body' = later_body[OF l body]
  show ?thesis
  proof (cases "EnterGates (fst core) (body_gates body) (snd c)")
    case (Some g)
    have "justified (fst (run_layer core L body b c)) L r" if "r = kGateTwice \<or> r = kStopped" for r
      using that body_justifies[OF body', of r] justified_stopped[OF body_target[OF body']] by auto
    with Some ok' body' show ?thesis
      by (auto simp: run_layer_def intro!: conf_ok_push conf_ok_post_or)
  next
    case None
    let ?r = "fst (run_body body (s_ctx (fst c) (snd core)))"
    have "ran (fst (run_layer core L body b c)) L ?r"
      using None by (auto simp: run_layer_def split_beta ran_def)
    then have "justified (fst (run_layer core L body b c)) L ?r" using body_justifies[OF body'] by blast
    with None ok' show ?thesis
      by (cases c) (auto simp: run_layer_def split_beta conf_ok_log conf_ok_ctx intro!: conf_ok_push)
  qed
qed

lemma settle_ok:
  assumes ok: "conf_ok (fst c) c" and L: "L < length (s_layers (fst c))"
  shows "conf_ok (fst (settle L r c)) (settle L r c)"
proof (cases "m_bSettled (s_layers (fst c) ! L)")
  case True
  then have "settle L r c = c" by (simp add: settle_def Settle_settled push_def)
  with ok show ?thesis by simp
next
  case False
  have l: "later (fst c) (fst (settle L r c))" using perform_later[of c "Settle L r"] by simp
  note ok' = later_conf[OF l ok]
  have "settled_with (fst (settle L r c)) L r" using L False by (simp add: settled_with_def)
  then have calls: "\<forall>a \<in> set (map (\<lambda>h. Call h r) (pending_handlers (s_layers (fst c) ! L))). act_ok (fst (settle L r c)) a"
    using ok' L by (auto simp: conf_ok_def)
  have "settle L r c = push (map (\<lambda>h. Call h r) (pending_handlers (s_layers (fst c) ! L)))
     ((fst c)\<lparr>s_layers := (s_layers (fst c))[L := snd (Settle_locked r (s_layers (fst c) ! L))],
       s_events := s_events (fst c) @ [SettledBy L r]\<rparr>, snd c)" (is "_ = push ?as ?c")
    using False by (simp add: settle_def split_beta)
  moreover have "conf_ok (fst (settle L r c)) ?c"
    using ok' False by (auto simp: conf_ok_def update_nth split: if_splits)
  ultimately show ?thesis using conf_ok_push[OF _ calls] by simp
qed

lemma adopt_ok:
  assumes ok: "conf_ok s c" and act: "act_ok s (DoAdopt core L given)" and env: "env_ok (fst c) env"
    and set: "\<And>U. U < length (s_layers (fst c)) \<Longrightarrow> m_bSettled (s_layers (fst c) ! U) \<Longrightarrow>
      settled_with s U (m_result (s_layers (fst c) ! U))"
  shows "conf_ok s (adopt core L given env c)"
proof -
  let ?x = "((fst c)\<lparr>s_ctx := (s_ctx (fst c))(snd core := ctx_is env)\<rparr>, snd c)"
  have x: "conf_ok s ?x" using ok by (cases c) (simp add: conf_ok_ctx)
  have fail: "conf_ok s (push [Settle L r] y)" if "r = kStopped \<or> failed_code r" "conf_ok s y" for r y
    using that act by (auto simp: justified_def intro!: conf_ok_push)
  show ?thesis
  proof (cases "child_is env")
    case (Child child u)
    then have "conf_ok s (add_notice (fst child) u (AdoptChild L) ?x)"
      using x env act set by (intro conf_ok_add_notice) (auto simp: env_ok_def)
    with Child fail[of kStopped c] ok show ?thesis by (simp add: adopt_def Let_def)
  next
    case (ChildThrows e)
    have "failed_code (capture (Throws e))" unfolding failed_code_def by blast
    with ChildThrows fail[OF _ x, of "capture (Throws e)"] fail[of kStopped c] ok show ?thesis
      by (simp add: adopt_def Let_def)
  next
    case ChildThrowsOther
    have "failed_code (capture ThrowsOther)" unfolding failed_code_def by blast
    with ChildThrowsOther fail[OF _ x, of "capture ThrowsOther"] fail[of kStopped c] ok show ?thesis
      by (simp add: adopt_def Let_def)
  qed
qed

lemma perform_ok:
  assumes ok: "conf_ok (fst c) c" and act: "act_ok (fst c) a" and refs: "refers_ok (length (s_layers (fst c))) a"
    and env: "env_ok (fst c) env"
  shows "conf_ok (fst (perform a env c)) (perform a env c)"
proof -
  let ?s = "fst (perform a env c)"
  have l: "later (fst c) ?s" by (rule perform_later)
  note ok' = later_conf[OF l ok] and act' = later_act[OF l act]
  have set: "settled_with ?s U (m_result (s_layers (fst c) ! U))"
    if "U < length (s_layers (fst c))" "m_bSettled (s_layers (fst c) ! U)" for U
    using later_settled[OF l] that by (simp add: settled_with_def)
  show ?thesis
  proof (cases "(a, env, c)" rule: perform.cases)
    case (1 h r)
    then show ?thesis using call_handler_ok[OF ok', of h r env] act' by simp
  next
    case (2 core L body b)
    then show ?thesis using run_layer_ok[OF ok, of core L body b] act by simp
  next
    case (3 core L given)
    have "conf_ok ?s (adopt core L given env c)"
      using adopt_ok[OF ok' _ env, of core L given] act' set 3(1) by blast
    with 3 show ?thesis by simp
  next
    case (4 x L child u)
    with ok' act' refs set[of u] show ?thesis
      by (auto simp: refers_ok_def intro!: conf_ok_add_notice)
  next
    case (5 L)
    with ok' act' show ?thesis
      by (auto simp: justified_def intro!: conf_ok_push split: starter_outcome.split)
  next
    case (7 L r)
    then show ?thesis using settle_ok[OF ok, of L r] refs by (simp add: refers_ok_def)
  qed (use ok' in \<open>auto simp: conf_ok_log, auto simp: conf_ok_def\<close>)
qed

lemma conf_ok_stack:
  "conf_ok s (x, th) \<Longrightarrow> conf_ok s y \<Longrightarrow> fst y = x' \<Longrightarrow> s_layers x' = s_layers x'' \<Longrightarrow> s_posted x' = s_posted x'' \<Longrightarrow>
     conf_ok s (x'', th)"
  by (auto simp: conf_ok_def)

lemma sem_inv_put:
  assumes inv: "sem_inv s" and l: "later s (fst c)" and ok: "conf_ok (fst c) c"
    and th: "s_threads (fst c) = s_threads s"
    and j: "\<And>L r. settled_with (fst c) L r \<Longrightarrow> justified (fst c) L r"
    and ev: "\<And>ev. ev \<in> set (s_events (fst c)) \<Longrightarrow> event_ok (fst c) ev"
  shows "sem_inv (put i c)"
proof -
  have l': "later (fst c) (put i c)" by (simp add: later_def settled_with_def)
  have "conf_ok (put i c) (put i c, t)" if "t \<in> set (s_threads (put i c))" for t
  proof (cases "t \<in> set (s_threads s)")
    case True
    then have "conf_ok s (s, t)" using inv by (simp add: sem_inv_def)
    from later_conf[OF l' later_conf[OF l this]] have t: "conf_ok (put i c) (s, t)" .
    from conf_ok_stack[OF t later_conf[OF l' ok] refl] show ?thesis by simp
  next
    case False
    then have "t = snd c" using that set_update_subset_insert[of "s_threads s" i "snd c"] th by (auto simp: put_def)
    then show ?thesis using later_conf[OF l' ok] by (simp add: conf_ok_def)
  qed
  moreover have "justified (put i c) L r" if "settled_with (put i c) L r" for L r
  proof -
    have "settled_with (fst c) L r" using that by (simp add: settled_with_def)
    then show ?thesis by (rule later_justified[OF l' j])
  qed
  moreover have "event_ok (put i c) e" if "e \<in> set (s_events (put i c))" for e
    using that later_event[OF l' ev] by simp
  ultimately show ?thesis by (simp add: sem_inv_def)
qed

lemma perform_justified:
  assumes j: "\<And>L r. settled_with (fst c) L r \<Longrightarrow> justified (fst c) L r" and act: "act_ok (fst c) a"
    and st: "settled_with (fst (perform a env c)) L r"
  shows "justified (fst (perform a env c)) L r"
proof (cases "settled_with (fst c) L r")
  case True
  then show ?thesis using j later_justified[OF perform_later] by blast
next
  case False
  have L: "L < length (s_layers (fst c))" using st by (simp add: settled_with_def)
  have new: "\<not> m_bSettled (s_layers (fst c) ! L)"
    using st False perform_settled(2)[OF L, of a env] L by (auto simp: settled_with_def)
  then obtain r' where a: "a = Settle L r'"
    using st perform_settled(1)[OF L, of a env] by (auto simp: settled_with_def)
  moreover have "r' = r" using a st new L by (simp add: settled_with_def)
  ultimately have "justified (fst c) L r" using act by simp
  then show ?thesis by (rule later_justified[OF perform_later])
qed

lemma perform_event_ok:
  assumes ev: "\<And>ev. ev \<in> set (s_events (fst c)) \<Longrightarrow> event_ok (fst c) ev" and act: "act_ok (fst c) a"
    and e: "e \<in> set (s_events (fst (perform a env c)))"
  shows "event_ok (fst (perform a env c)) e"
proof (cases "e \<in> set (s_events (fst c))")
  case True
  then show ?thesis using ev later_event[OF perform_later] by blast
next
  case False
  have "event_ok (fst c) e"
  proof (cases "(a, env, c)" rule: perform.cases)
    case (2 core L body b)
    with False e obtain x where
      e': "e = Ran L (t_frame (snd c)) (fst (run_body body x))" "EnterGates (fst core) (body_gates body) (snd c) = None"
      by (auto simp: run_layer_def split_beta split: option.splits if_splits)
    with EnterGates_None[OF e'(2)] act 2 show ?thesis
      unfolding event_ok_def e'(1) event.case by (intro exI[of _ core] exI[of _ body] exI[of _ x]) auto
  next
    case (3 core L given)
    with False e show ?thesis by (auto simp: adopt_def Let_def split: child_outcome.splits if_splits)
  next
    case (5 L)
    with False e show ?thesis by (auto split: starter_outcome.splits)
  next
    case (7 L r)
    with False e show ?thesis by (auto simp: settle_def split_beta event_ok_def split: if_splits)
  qed (use False e act in \<open>auto simp: event_ok_def\<close>)
  then show ?thesis by (rule later_event[OF perform_later])
qed

lemma sem_inv_run:
  assumes step: "run_step s s'" and own: "own_inv s" and inv: "sem_inv s"
  shows "sem_inv s'"
  using step
proof (cases rule: run_step.cases)
  case (act i env)
  then obtain a rest where st: "t_stack (s_threads s ! i) = a # rest" by (cases "t_stack (s_threads s ! i)") auto
  let ?c = "(s, (s_threads s ! i)\<lparr>t_stack := rest\<rparr>)"
  have th: "conf_ok s (s, s_threads s ! i)" using inv act(2) by (simp add: sem_inv_def)
  then have ok: "conf_ok s ?c" and a: "act_ok s a" using st by (auto simp: conf_ok_def)
  have refs: "refers_ok (length (s_layers s)) a" using own_inv_action[OF own act(2), of a] st by auto
  have "sem_inv (put i (perform a env ?c))"
  proof (rule sem_inv_put[OF inv])
    show "later s (fst (perform a env ?c))" using perform_later[of ?c a env] by simp
    show "conf_ok (fst (perform a env ?c)) (perform a env ?c)" using perform_ok[of ?c a env] ok a refs act(4) by simp
    show "justified (fst (perform a env ?c)) L r" if "settled_with (fst (perform a env ?c)) L r" for L r
      using perform_justified[of ?c a env L r] that inv a by (simp add: sem_inv_def)
    show "event_ok (fst (perform a env ?c)) ev" if "ev \<in> set (s_events (fst (perform a env ?c)))" for ev
      using perform_event_ok[of ?c a ev env] that inv a by (simp add: sem_inv_def)
  qed simp
  then show ?thesis by (simp add: act(1) act_def st)
next
  case (take i j)
  obtain e k a where p: "s_posted s ! j = (e, k, a)" by (cases "s_posted s ! j") auto
  let ?c = "(s\<lparr>s_posted := take j (s_posted s) @ drop (Suc j) (s_posted s)\<rparr>,
    (s_threads s ! i)\<lparr>t_frame := frame_of e k, t_stack := [a, EndTask]\<rparr>)"
  have l: "later s (fst ?c)" by (simp add: later_def settled_with_def)
  have th: "conf_ok s (s, s_threads s ! i)" and j: "j < length (s_posted s)"
    using inv take(2) by (simp_all add: sem_inv_def worker_idle_def)
  have "(e, k, a) \<in> set (s_posted s)" using p j by (metis nth_mem)
  with th have "act_ok s a" by (auto simp: conf_ok_def)
  with th have "conf_ok s ?c" using set_remove_nth[of j "s_posted s"] by (auto simp: conf_ok_def)
  then have "sem_inv (put i ?c)"
    using inv later_justified[OF l] later_event[OF l]
    by (intro sem_inv_put[OF inv l] later_conf[OF l]) (simp_all add: sem_inv_def settled_with_def)
  then show ?thesis by (simp add: take(1) take_task_def p)
qed

subsection \<open>Clients keep it\<close>

lemma later_trans: "later s s' \<Longrightarrow> later s' s'' \<Longrightarrow> later s s''"
  by (force simp: later_def)

lemma later_ops [simp]:
  "later (fst c) (fst (new_layer k og c))" "later (fst c) (fst (push as c))" "later (fst c) (fst (post_or e k a as c))"
  "later (fst c) (fst (Dispatch core L a env c))"
  by (auto simp: later_def settled_with_def nth_append)

lemma later_adds [simp]:
  "later (fst c) (fst (add_notice e U h c))" "later (fst c) (fst (add_handler e U L h c))"
  by (auto simp: later_def settled_with_def add_notice_layers add_handler_layers update_nth)

text \<open>An operation that only calls the primitives keeps the invariant when what it creates is in
  order.\<close>

lemma sem_inv_op:
  assumes inv: "sem_inv s" and i: "i < length (s_threads s)"
    and l: "later s (fst (f (s, s_threads s ! i)))"
    and th: "s_threads (fst (f (s, s_threads s ! i))) = s_threads s"
    and ev: "s_events (fst (f (s, s_threads s ! i))) = s_events s
      \<or> (\<exists>n U. s_events (fst (f (s, s_threads s ! i))) = s_events s @ [Registered n U])"
    and old: "\<And>L r. settled_with (fst (f (s, s_threads s ! i))) L r \<Longrightarrow> settled_with s L r"
    and ok: "conf_ok (fst (f (s, s_threads s ! i))) (s, s_threads s ! i) \<Longrightarrow>
      conf_ok (fst (f (s, s_threads s ! i))) (f (s, s_threads s ! i))"
  shows "sem_inv (on_thread i f s)"
  unfolding on_thread_def
proof (rule sem_inv_put[OF inv l])
  have "conf_ok s (s, s_threads s ! i)" using inv i by (simp add: sem_inv_def)
  then show "conf_ok (fst (f (s, s_threads s ! i))) (f (s, s_threads s ! i))" by (intro ok later_conf[OF l])
  show "justified (fst (f (s, s_threads s ! i))) L r" if "settled_with (fst (f (s, s_threads s ! i))) L r" for L r
  proof -
    have "justified s L r" using inv old[OF that] by (simp add: sem_inv_def)
    then show ?thesis by (rule later_justified[OF l])
  qed
  show "event_ok (fst (f (s, s_threads s ! i))) e" if "e \<in> set (s_events (fst (f (s, s_threads s ! i))))" for e
  proof -
    have "event_ok s e" using inv that ev by (auto simp: sem_inv_def event_ok_def)
    then show ?thesis by (rule later_event[OF l])
  qed
qed (rule th)

lemma conf_ok_new: "conf_ok s c \<Longrightarrow> conf_ok s (new_layer k og c)"
  by (auto simp: conf_ok_def new_layer_def nth_append less_Suc_eq)

lemma settled_new: "settled_with (fst (new_layer k og c)) L r \<Longrightarrow> settled_with (fst c) L r"
  by (auto simp: settled_with_def nth_append split: if_splits)

lemma settled_add:
  "settled_with (fst (add_notice e U h c)) L r = settled_with (fst c) L r"
  "settled_with (fst (add_handler e U L' h c)) L r = settled_with (fst c) L r"
  by (auto simp: settled_with_def add_notice_layers add_handler_layers update_nth split: if_splits)

lemma settled_same:
  "settled_with (fst (post_or e k a as c)) L r = settled_with (fst c) L r"
  "settled_with (fst (Dispatch core L' a env c)) L r = settled_with (fst c) L r"
  "settled_with (fst (push as c)) L r = settled_with (fst c) L r"
  by (simp_all add: settled_with_def)

lemma settled_log: "settled_with (fst (log_event ev c)) L r = settled_with (fst c) L r"
  by (simp add: settled_with_def)

lemma later_log: "later (fst c) (fst (log_event ev c))"
  by (auto simp: later_def settled_log)

text \<open>Appending a layer.\<close>

lemma sem_inv_append:
  assumes inv: "sem_inv s" and own: "own_inv s" and i: "i < length (s_threads s)" and U: "U < length (s_layers s)"
    and f: "\<And>c. f c = add_handler e U (next_id c) (h (next_id c)) (new_layer k og c)"
    and h: "\<And>s' L. L < length (s_origin s') \<Longrightarrow> s_origin s' ! L = og \<Longrightarrow> handler_ok s' U (h L)"
  shows "sem_inv (on_thread i f s)"
proof (rule sem_inv_op[OF inv i])
  let ?c = "(s, s_threads s ! i)"
  let ?n = "length (s_layers s)"
  have n: "length (s_origin s) = ?n" using own by (simp add: own_inv_def)
  have fc: "f ?c = add_handler e U ?n (h ?n) (new_layer k og ?c)" by (simp add: f next_id_def)
  show "later s (fst (f ?c))"
    unfolding fc using later_trans[OF later_ops(1)[of ?c k og] later_adds(2)] by simp
  show "settled_with s L r" if "settled_with (fst (f ?c)) L r" for L r
    using that settled_new[of k og ?c L r] by (simp add: fc settled_add)
  show "conf_ok (fst (f ?c)) (f ?c)" if "conf_ok (fst (f ?c)) ?c"
  proof -
    have og: "s_origin (fst (f ?c)) = s_origin s @ [og]" by (simp add: fc)
    have "settled_with (fst (f ?c)) U (m_result (s_layers s ! U))" if "m_bSettled (s_layers s ! U)"
      using U that by (simp add: settled_with_def fc add_handler_layers nth_append update_nth)
    moreover have "handler_ok (fst (f ?c)) U (h ?n)" using h[of ?n "fst (f ?c)"] og n by (simp add: nth_append)
    ultimately show ?thesis
      using that U og n unfolding fc[symmetric]
      by (subst fc, intro conf_ok_add_handler conf_ok_new justified_stopped) (simp_all add: nth_append)
  qed
qed (simp_all add: f)

lemma sem_inv_notice:
  assumes inv: "sem_inv s" and i: "i < length (s_threads s)" and U: "U < length (s_layers s)"
    and f: "\<And>c. f c = log_event (Registered n U) (add_notice e U h c)" and h: "\<And>s'. Registered n U \<in> set (s_events s') \<Longrightarrow> handler_ok s' U h"
  shows "sem_inv (on_thread i f s)"
proof (rule sem_inv_op[OF inv i])
  let ?c = "(s, s_threads s ! i)"
  have fc: "f ?c = log_event (Registered n U) (add_notice e U h ?c)" by (simp add: f)
  show "later s (fst (f ?c))"
    unfolding fc by (rule later_trans[OF _ later_log]) (use later_adds(1)[of ?c] in simp)
  show "settled_with s L r" if "settled_with (fst (f ?c)) L r" for L r
    using that by (simp add: fc settled_add settled_log)
  show "conf_ok (fst (f ?c)) (f ?c)" if "conf_ok (fst (f ?c)) ?c"
  proof -
    have "settled_with (fst (f ?c)) U (m_result (s_layers s ! U))" if "m_bSettled (s_layers s ! U)"
    proof -
      have "settled_with s U (m_result (s_layers s ! U))" using U that by (simp add: settled_with_def)
      then show ?thesis by (simp add: fc settled_add settled_log)
    qed
    moreover have "handler_ok (fst (f ?c)) U h" by (rule h) (simp add: fc)
    ultimately show ?thesis
      using that U
      unfolding fc[symmetric] by (subst fc, simp only: conf_ok_log, intro conf_ok_add_notice) simp_all
  qed
qed (simp_all add: f)

text \<open>Starting a chain.\<close>

lemma sem_inv_start:
  assumes inv: "sem_inv s" and own: "own_inv s" and i: "i < length (s_threads s)"
    and f: "\<And>c. f c = g (next_id c) (new_layer k og c)"
    and g: "\<And>L c. later (fst c) (fst (g L c)) \<and> s_threads (fst (g L c)) = s_threads (fst c)
      \<and> s_events (fst (g L c)) = s_events (fst c) \<and> s_origin (fst (g L c)) = s_origin (fst c)
      \<and> (\<forall>K r. settled_with (fst (g L c)) K r \<longrightarrow> settled_with (fst c) K r)"
    and ok: "\<And>s' L c. conf_ok s' c \<Longrightarrow> L < length (s_origin s') \<Longrightarrow> s_origin s' ! L = og \<Longrightarrow> conf_ok s' (g L c)"
  shows "sem_inv (on_thread i f s)"
proof (rule sem_inv_op[OF inv i])
  let ?c = "(s, s_threads s ! i)"
  let ?n = "length (s_layers s)"
  have n: "length (s_origin s) = ?n" using own by (simp add: own_inv_def)
  have fc: "f ?c = g ?n (new_layer k og ?c)" by (simp add: f next_id_def)
  show "later s (fst (f ?c))"
    unfolding fc using later_trans[OF later_ops(1)[of ?c k og]] g by fastforce
  show "settled_with s L r" if "settled_with (fst (f ?c)) L r" for L r
    using that settled_new[of k og ?c L r] g by (simp add: fc)
  show "conf_ok (fst (f ?c)) (f ?c)" if "conf_ok (fst (f ?c)) ?c"
    using that n g unfolding fc[symmetric]
    by (subst fc, intro ok conf_ok_new) (simp_all add: fc nth_append)
  show "s_threads (fst (f ?c)) = s_threads s" using g by (simp add: fc)
  show "s_events (fst (f ?c)) = s_events s \<or> (\<exists>n U. s_events (fst (f ?c)) = s_events s @ [Registered n U])"
    using g by (simp add: fc)
qed

lemma sem_inv_same:
  assumes inv: "sem_inv s" and eq: "s_layers s' = s_layers s" "s_origin s' = s_origin s" "set (s_posted s') \<subseteq> set (s_posted s)"
    "s_threads s' = s_threads s" "s_events s' = s_events s"
  shows "sem_inv s'"
proof -
  have l: "later s s'" by (simp add: later_def settled_with_def eq)
  have "conf_ok s' (s', th)" if "th \<in> set (s_threads s)" for th
  proof -
    have "conf_ok s (s, th)" using inv that by (simp add: sem_inv_def)
    from later_conf[OF l this] show ?thesis using eq(3) by (auto simp: conf_ok_def eq(1))
  qed
  moreover have "settled_with s' L r \<longleftrightarrow> settled_with s L r" for L r by (simp add: settled_with_def eq)
  ultimately show ?thesis
    using inv later_justified[OF l] later_event[OF l] by (simp add: sem_inv_def eq)
qed

lemma sem_inv_client: "client_step s s' \<Longrightarrow> own_inv s \<Longrightarrow> sem_inv s \<Longrightarrow> sem_inv s'"
proof (induction rule: client_step.induct)
  case (start i s core k fn)
  then show ?case
    by (intro sem_inv_start[where og = "OFirst core fn" and k = k and
          g = "\<lambda>L c. post_or (fst core) k (RunLayer core L (ThenBody fn) False) [Settle L kStopped] c"])
      (auto simp: StartChain_def Let_def settled_same justified_stopped intro!: conf_ok_post_or)
next
  case (starter i s core k env)
  then show ?case
    by (intro sem_inv_start[where og = "OExternal core" and k = k and
          g = "\<lambda>L c. Dispatch core L (RunStarter L) env c"])
      (auto simp: NewFromHandle_def Let_def settled_same justified_stopped is_external_def intro!: conf_ok_Dispatch)
next
  case (bridge i s u core child env)
  then show ?case
    by (intro sem_inv_start[where og = "OBridge core u" and k = kKindBookkeeping and
          g = "\<lambda>L c. Dispatch core L (BindChild (snd core) L child u) env c"])
      (auto simp: NewBridge_def Let_def settled_same justified_stopped intro!: conf_ok_Dispatch)
next
  case (append_then i s U core fn k)
  then show ?case
    by (rule_tac sem_inv_append[where og = "OThen core U fn" and h = "\<lambda>L. AfterThen core L fn"])
      (simp_all add: AppendThenLayer_def Let_def)
next
  case (append_result i s U eMode core rfn k)
  then show ?case
    by (rule_tac sem_inv_append[where og = "OResult core U rfn eMode" and h = "\<lambda>L. AfterResult core L rfn eMode"])
      (simp_all add: AppendResultLayer_def Let_def)
next
  case (append_promise i s U core given k)
  then show ?case
    by (rule_tac sem_inv_append[where og = "OPromise core U" and h = "\<lambda>L. AfterPromise core L given"])
      (simp_all add: ThenPromise_def Let_def)
next
  case (on_settled i s U core n)
  then show ?case
    by (rule_tac sem_inv_notice[where e = "fst core" and h = "Notice n" and n = n]) (simp_all add: OnSettled_def add_notice_log)
next
  case (on_settled_on i s U target n)
  then show ?case
    by (rule_tac sem_inv_notice[where e = target and h = "NoticeOn target n" and n = n]) (simp_all add: OnSettledOn_def add_notice_log)
next
  case (resolve i s L r)
  then have "L < length (s_origin s)" by (simp add: own_inv_def)
  have l: "later s (fst (push [Settle L r] (s, s_threads s ! i)))" using later_ops(2)[of "(s, s_threads s ! i)"] by simp
  have og: "s_origin (fst (push [Settle L r] (s, s_threads s ! i))) = s_origin s" by simp
  from resolve \<open>L < length (s_origin s)\<close> show ?case
    by (intro sem_inv_op l) (auto simp: settled_same justified_def og intro!: conf_ok_push)
next
  case (accepts s f)
  then show ?case by (rule_tac sem_inv_same) simp_all
next
  case (user_code s x)
  then show ?case by (rule_tac sem_inv_same) simp_all
qed

lemma sem_inv_init: "sem_inv (sys_init ctx execs)"
  by (auto simp: sem_inv_def sys_init_def conf_ok_def settled_with_def)

lemma reach_sem_inv: "sys_reach ctx execs s \<Longrightarrow> sem_inv s"
proof (induction rule: sys_reach.induct)
  case sys_start
  show ?case by (rule sem_inv_init)
next
  case (sys_run s s')
  then show ?case using sem_inv_run reach_own_inv by blast
next
  case (sys_drop s s')
  then obtain j where "s' = drop_task j s" by (auto elim: drop_step.cases)
  with sys_drop(3) set_remove_nth[of j "s_posted s"] show ?case by (auto intro!: sem_inv_same[OF sys_drop(3)])
next
  case (sys_client s s')
  then show ?case using sem_inv_client reach_own_inv by blast
qed

end
