(* ===== verification/PromiseLaws.thy ===== *)
theory PromiseLaws
  imports PromiseSemantics
begin

text \<open>
  The laws of promise chains that hold in every run, with concrete runs that show that their
  hypotheses can hold, and two runs that show where the code differs from its documentation.
\<close>

subsection \<open>Scripts\<close>

text \<open>A run given as a list of commands, so that it can be evaluated.\<close>

datatype 'c cmd =
    DoAct nat "'c env"
  | DoTake nat nat
  | DoStart nat core TaskKind "'c then_fn"
  | DoStarter nat core TaskKind "'c env"
  | DoThen nat core nat "'c then_fn" TaskKind
  | DoResult nat core nat "'c result_fn" HandlerMode TaskKind
  | DoPromise nat core nat TaskKind
  | DoNotice nat core nat nat
  | DoResolve nat nat promise_result
  | DoAccept "nat \<Rightarrow> TaskKind \<Rightarrow> bool"
  | DoDrop nat

fun cmd_ok :: "'c cmd \<Rightarrow> 'c sys \<Rightarrow> bool" where
  "cmd_ok (DoAct i env) s \<longleftrightarrow> i < length (s_threads s) \<and> \<not> List.null (t_stack (s_threads s ! i))
     \<and> (case child_is env of Child child u \<Rightarrow> u < length (s_layers s) | _ \<Rightarrow> True)"
| "cmd_ok (DoTake i j) s \<longleftrightarrow> i < length (s_threads s) \<and> List.null (t_stack (s_threads s ! i))
     \<and> j < length (s_posted s) \<and> t_exec (s_threads s ! i) = Some (fst (s_posted s ! j)) \<and> gate_admits j s"
| "cmd_ok (DoStart i core k fn) s \<longleftrightarrow> i < length (s_threads s)"
| "cmd_ok (DoStarter i core k env) s \<longleftrightarrow> i < length (s_threads s)"
| "cmd_ok (DoThen i core U fn k) s \<longleftrightarrow> i < length (s_threads s) \<and> U < length (s_layers s)"
| "cmd_ok (DoResult i core U fn m k) s \<longleftrightarrow>
     i < length (s_threads s) \<and> U < length (s_layers s) \<and> (case m of kModeThen \<Rightarrow> False | _ \<Rightarrow> True)"
| "cmd_ok (DoPromise i core U k) s \<longleftrightarrow> i < length (s_threads s) \<and> U < length (s_layers s)"
| "cmd_ok (DoNotice i core U n) s \<longleftrightarrow> i < length (s_threads s) \<and> U < length (s_layers s)"
| "cmd_ok (DoResolve i L r) s \<longleftrightarrow>
     i < length (s_threads s) \<and> L < length (s_layers s) \<and> is_external (s_origin s ! L)"
| "cmd_ok (DoAccept f) s \<longleftrightarrow> True"
| "cmd_ok (DoDrop j) s \<longleftrightarrow> droppable j s"

fun run_cmd :: "'c cmd \<Rightarrow> 'c sys \<Rightarrow> 'c sys" where
  "run_cmd (DoAct i env) s = act i env s"
| "run_cmd (DoTake i j) s = take_task i j s"
| "run_cmd (DoStart i core k fn) s = on_thread i (StartChain core k fn) s"
| "run_cmd (DoStarter i core k env) s = on_thread i (NewFromHandle core k env) s"
| "run_cmd (DoThen i core U fn k) s = on_thread i (AppendThenLayer core U fn k) s"
| "run_cmd (DoResult i core U fn m k) s = on_thread i (AppendResultLayer core U fn m k) s"
| "run_cmd (DoPromise i core U k) s = on_thread i (ThenPromise core U True k) s"
| "run_cmd (DoNotice i core U n) s = on_thread i (OnSettled core U n) s"
| "run_cmd (DoResolve i L r) s = on_thread i (push [Settle L r]) s"
| "run_cmd (DoAccept f) s = s\<lparr>s_accepts := f\<rparr>"
| "run_cmd (DoDrop j) s = drop_task j s"

fun script_ok :: "'c cmd list \<Rightarrow> 'c sys \<Rightarrow> bool" where
  "script_ok [] s \<longleftrightarrow> True"
| "script_ok (c # cs) s \<longleftrightarrow> cmd_ok c s \<and> script_ok cs (run_cmd c s)"

definition run_script :: "'c cmd list \<Rightarrow> 'c sys \<Rightarrow> 'c sys" where
  "run_script cs s = fold run_cmd cs s"

lemma run_cmd_reach:
  assumes "sys_reach ctx execs s" and "cmd_ok c s"
  shows "sys_reach ctx execs (run_cmd c s)"
proof (cases c)
  case (DoAct i env)
  then have "run_step s (act i env s)"
    using assms(2) by (intro run_step.act) (auto simp: env_ok_def List.null_iff split: child_outcome.splits)
  with DoAct assms(1) show ?thesis by (simp add: sys_run)
next
  case (DoTake i j)
  then have "run_step s (take_task i j s)"
    using assms(2) by (intro run_step.take) (simp add: worker_idle_def List.null_iff)
  with DoTake assms(1) show ?thesis by (simp add: sys_run)
next
  case (DoResult i core U fn m k)
  then have "m \<noteq> kModeThen" using assms(2) by auto
  with DoResult assms show ?thesis by (auto intro: sys_client append_result)
qed (use assms in \<open>auto intro: sys_client start starter append_then append_promise on_settled resolve accepts
  sys_drop dropped\<close>)

lemma run_script_reach:
  "sys_reach ctx execs s \<Longrightarrow> script_ok cs s \<Longrightarrow> sys_reach ctx execs (run_script cs s)"
proof (induction cs arbitrary: s)
  case (Cons c cs)
  then show ?case using run_cmd_reach[of ctx execs s c] by (simp add: run_script_def)
qed (simp add: run_script_def)

text \<open>The layers a script creates, in order.\<close>

fun new_origins :: "'c cmd \<Rightarrow> 'c origin list" where
  "new_origins (DoStart i core k fn) = [OFirst core fn]"
| "new_origins (DoStarter i core k env) = [OExternal core]"
| "new_origins (DoThen i core U fn k) = [OThen core U fn]"
| "new_origins (DoResult i core U fn m k) = [OResult core U fn m]"
| "new_origins (DoPromise i core U k) = [OPromise core U]"
| "new_origins _ = []"

lemma act_origin [simp]: "s_origin (act i env s) = s_origin s"
  by (simp add: act_def split: list.split)

lemma run_cmd_origin: "s_origin (run_cmd c s) = s_origin s @ new_origins c"
  by (cases c) (simp_all add: take_task_def split_beta on_thread_def client_defs OnSettled_def)

lemma run_script_origin: "s_origin (run_script cs s) = s_origin s @ concat (map new_origins cs)"
  by (induction cs arbitrary: s) (simp_all add: run_script_def run_cmd_origin)

text \<open>An environment in which nothing special happens.\<close>

definition quiet :: "nat \<Rightarrow> nat env" where
  "quiet x = \<lparr>gate_free = True, child_is = ChildThrowsOther, starter_is = StarterOk,
     apply_is = Returns Resolve, ctx_is = x\<rparr>"

text \<open>Contexts are numbers.  Executor 0 has one worker, thread 0; thread 1 is a client.\<close>

definition demo_start :: "nat sys" where
  "demo_start = sys_init (\<lambda>_. 0) [Some 0, None]"

definition demo_error :: promise_result where
  "demo_error = Reject (Exn ''DbError'' ''no row'')"

text \<open>A first layer that fails in the write slot it asks for, a \<open>Then\<close> that is skipped, a
  \<open>Catch\<close> that recovers and a \<open>Finally\<close> whose result does not count; a notice on the last.\<close>

definition demo_chain :: "nat cmd list" where
  "demo_chain =
     [DoStart 1 (0, 0) kDirect (ThenFn [Gated kWrite] (\<lambda>x. (Returns demo_error, x + 1))),
      DoThen 1 (0, 0) 0 (ThenFn [] (\<lambda>x. (Returns Resolve, x + 10))) kDirect,
      DoResult 1 (0, 0) 1 (ResultFn [] (\<lambda>r x. (Returns Resolve, x + 100))) kModeCatch (Gated kRead),
      DoResult 1 (0, 0) 2 (ResultFn [] (\<lambda>r x. (Returns demo_error, x + 1000))) kModeFinally kDirect,
      DoNotice 1 (0, 0) 3 7]
     @ [DoTake 0 0] @ replicate 2 (DoAct 0 (quiet 0))
     @ [DoTake 0 0] @ replicate 5 (DoAct 0 (quiet 0))"

definition demo_mid :: "nat sys" where
  "demo_mid = run_script demo_chain demo_start"

text \<open>A \<open>Then\<close> behind a layer whose task executor 0 accepts and then, stopping, drops.\<close>

definition demo_lost :: "nat sys" where
  "demo_lost = run_script
     [DoStart 1 (0, 0) (Gated kWrite) (ThenFn [] (\<lambda>x. (Returns Resolve, x))),
      DoThen 1 (0, 0) 0 (ThenFn [] (\<lambda>x. (Returns Resolve, x))) kDirect,
      DoAccept (\<lambda>_ _. False), DoDrop 0] demo_start"

definition demo_done :: "nat sys" where
  "demo_done = run_script (demo_chain @ [DoAct 0 (quiet 0), DoTake 0 0] @ replicate 9 (DoAct 0 (quiet 0))) demo_start"

lemma demo_mid_reach: "sys_reach (\<lambda>_. 0) [Some 0, None] demo_mid"
proof -
  have "script_ok demo_chain demo_start" by code_simp
  then show ?thesis unfolding demo_mid_def demo_start_def by (intro run_script_reach sys_start) simp_all
qed

lemma demo_done_reach: "sys_reach (\<lambda>_. 0) [Some 0, None] demo_done"
proof -
  have "script_ok (demo_chain @ [DoAct 0 (quiet 0), DoTake 0 0] @ replicate 9 (DoAct 0 (quiet 0))) demo_start" by code_simp
  then show ?thesis unfolding demo_done_def demo_start_def by (intro run_script_reach sys_start) simp_all
qed

lemma demo_lost_reach: "sys_reach (\<lambda>_. 0) [Some 0, None] demo_lost"
proof -
  have "script_ok [DoStart 1 (0, 0) (Gated kWrite) (ThenFn [] (\<lambda>x. (Returns Resolve, x))),
      DoThen 1 (0, 0) 0 (ThenFn [] (\<lambda>x. (Returns Resolve, x))) kDirect,
      DoAccept (\<lambda>_ _. False), DoDrop 0] demo_start" by code_simp
  then show ?thesis unfolding demo_lost_def demo_start_def by (intro run_script_reach sys_start) simp_all
qed

subsection \<open>Once\<close>

lemma run_step_later: "run_step s s' \<Longrightarrow> later s s'"
proof (induction rule: run_step.induct)
  case (act i s env)
  then obtain a rest where st: "t_stack (s_threads s ! i) = a # rest" by (cases "t_stack (s_threads s ! i)") auto
  let ?c = "(s, (s_threads s ! i)\<lparr>t_stack := rest\<rparr>)"
  have "later s (fst (perform a env ?c))" using perform_later[of ?c a env] by simp
  then show ?case by (simp add: act_def st later_def settled_with_def)
qed (simp add: take_task_def split_beta later_def settled_with_def)

lemma drop_step_later: "drop_step s s' \<Longrightarrow> later s s'"
  by (auto simp: later_def settled_with_def elim!: drop_step.cases)

lemma client_step_later: "client_step s s' \<Longrightarrow> later s s'"
proof (induction rule: client_step.induct)
  case (on_settled i s U core n)
  have "later s (fst (log_event (Registered n U) (add_notice (fst core) U (Notice n) (s, s_threads s ! i))))"
    by (rule later_trans[OF _ later_log]) (use later_adds(1)[of "(s, s_threads s ! i)"] in simp)
  then show ?case by (simp add: on_thread_def OnSettled_def add_notice_log later_def settled_with_def)
next
  case (on_settled_on i s U target n)
  have "later s (fst (log_event (Registered n U) (add_notice target U (NoticeOn target n) (s, s_threads s ! i))))"
    by (rule later_trans[OF _ later_log]) (use later_adds(1)[of "(s, s_threads s ! i)"] in simp)
  then show ?case by (simp add: on_thread_def OnSettledOn_def add_notice_log later_def settled_with_def)
qed (auto simp: on_thread_def client_defs later_def settled_with_def nth_append add_handler_layers update_nth)

text \<open>C6. A layer that is not left to a starter runs its user code at most once in any run.  While it
  is pending exactly one closure is responsible for it: one that sits in the system, or, when an
  executor that stopped dropped a task it had accepted, the dropped one.  Once the layer is
  settled none is left that could run or settle it; its result never changes afterwards.\<close>

theorem layer_once:
  assumes "sys_reach ctx execs s" and "L < length (s_layers s)" and "\<not> is_external (s_origin s ! L)"
  shows "runs L (s_events s) \<le> 1
    \<and> claims L s + lost L s = (if m_bSettled (s_layers s ! L) then 0 else 1)
    \<and> (\<forall>s' r. (run_step s s' \<or> drop_step s s' \<or> client_step s s') \<and> settled_with s L r \<longrightarrow> settled_with s' L r)"
proof (intro conjI allI impI)
  show "runs L (s_events s) \<le> 1"
    using reach_once_inv[OF assms(1), unfolded once_inv_def, rule_format, of L] by (simp split: if_splits)
  show "claims L s + lost L s = (if m_bSettled (s_layers s ! L) then 0 else 1)"
    using reach_own_inv[OF assms(1)] assms(2,3) by (simp add: own_inv_def)
  show "settled_with s' L r" if "(run_step s s' \<or> drop_step s s' \<or> client_step s s') \<and> settled_with s L r" for s' r
    using that later_settled[OF run_step_later] later_settled[OF drop_step_later]
      later_settled[OF client_step_later] by blast
qed

theorem layer_once_witness:
  "runs 0 (s_events demo_mid) = 1 \<and> runs 0 (s_events demo_mid) \<le> 1 \<and> claims 0 demo_mid = 0
   \<and> claims 2 demo_mid + lost 2 demo_mid = 1 \<and> lost 0 demo_lost = 1 \<and> claims 0 demo_lost = 0"
proof -
  have "0 < length (s_layers demo_mid)" "\<not> is_external (s_origin demo_mid ! 0)" "m_bSettled (s_layers demo_mid ! 0)"
    "2 < length (s_layers demo_mid)" "\<not> is_external (s_origin demo_mid ! 2)" "\<not> m_bSettled (s_layers demo_mid ! 2)"
    "runs 0 (s_events demo_mid) = 1"
    "0 < length (s_layers demo_lost)" "\<not> is_external (s_origin demo_lost ! 0)" "\<not> m_bSettled (s_layers demo_lost ! 0)"
    "list_all (\<lambda>(e, k, a). target a = Some 0) (s_dropped demo_lost)" "length (s_dropped demo_lost) = 1"
    by code_simp+
  note f = this
  obtain e k a where "s_dropped demo_lost = [(e, k, a)]" "target a = Some 0"
    using f(11,12) by (cases "s_dropped demo_lost") auto
  then have "lost 0 demo_lost = 1" by (simp add: lost_def posted_sum_def tgt_def)
  moreover have "claims 0 demo_lost + lost 0 demo_lost = 1"
    using layer_once[OF demo_lost_reach f(8,9)] f(10) by presburger
  moreover have "claims 0 demo_mid + lost 0 demo_mid = 0" "runs 0 (s_events demo_mid) \<le> 1"
    using layer_once[OF demo_mid_reach f(1,2)] f(3) by presburger+
  moreover have "claims 2 demo_mid + lost 2 demo_mid = 1"
    using layer_once[OF demo_mid_reach f(4,5)] f(6) by presburger
  ultimately show ?thesis using f(7) by simp
qed

subsection \<open>Three states\<close>

lemma settled_with_unique: "settled_with s U r \<Longrightarrow> settled_with s U r' \<Longrightarrow> r = r'"
  by (simp add: settled_with_def)

lemma ran_body:
  assumes "sem_inv s" and "ran s L r"
  obtains core body x where "body_ok s core L body" "r = fst (run_body body x)"
  using assms by (force simp: sem_inv_def ran_def event_ok_def)

lemma run_event:
  assumes "sem_inv s" and "0 < runs L (s_events s)"
  obtains core body where "body_ok s core L body"
proof -
  have "filter (is_run L) (s_events s) \<noteq> []" using assms(2) by (simp add: runs_def)
  then obtain ev where ev: "ev \<in> set (s_events s)" "is_run L ev"
    by (auto simp: filter_empty_conv)
  then have "event_ok s ev" using assms(1) by (simp add: sem_inv_def)
  with ev(2) that show ?thesis by (cases ev) (auto simp: is_run_def event_ok_def)
qed

lemma body_of_then:
  assumes "body_ok s core' L body" and "s_origin s ! L = OThen core U fn" and "settled_with s U u"
  shows "body = ThenBody fn \<and> IsFulfilled u"
  using assms by (cases body) (auto simp: settled_with_def fulfilled_iff)

lemma body_of_result:
  assumes "body_ok s core' L body" and "s_origin s ! L = OResult core U rfn eMode" and "settled_with s U u"
  shows "body = ResultBody rfn u eMode \<and> \<not> (eMode = kModeCatch \<and> IsFulfilled u)"
  using assms by (cases body) (auto simp: settled_with_def)

lemma finally_result:
  "fst (run_body (ResultBody fn u kModeFinally) x)
     = (case fst (result_code fn u x) of Returns ownResult \<Rightarrow> u | thrown \<Rightarrow> capture thrown)"
  by (simp add: split_beta split: outcome.split)

text \<open>C5. The three-state semantics.  When a layer that the framework did not reject because its
  executor had stopped (or its code asked twice for a gate) is settled, its upstream layer is.
  A \<open>Then\<close> behind a rejection hands it on and its code has not run, otherwise its result is what
  its code gave on some context; a \<open>Catch\<close> is the mirror image; the code of a \<open>Finally\<close> ran on
  some context, and it has the upstream result when that code returned, whatever it returned,
  and otherwise the rejection with what the code threw.  (The two results that are excluded are
  those by which the framework rejects a layer: \<open>stopped_executor_overrides_skip\<close> below shows
  that a stopped executor replaces even the result a layer only hands on.)\<close>

theorem three_state:
  assumes "sys_reach ctx execs s" and "settled_with s L r" and "r \<noteq> kStopped" and "r \<noteq> kGateTwice"
  shows "(s_origin s ! L = OThen core U fn \<longrightarrow> (\<exists>u. settled_with s U u
            \<and> (IsRejected u \<longrightarrow> r = u \<and> runs L (s_events s) = 0)
            \<and> (IsFulfilled u \<longrightarrow> (\<exists>x. r = capture (fst (then_code fn x))))))
    \<and> (s_origin s ! L = OResult core U rfn kModeCatch \<longrightarrow> (\<exists>u. settled_with s U u
            \<and> (IsFulfilled u \<longrightarrow> r = u \<and> runs L (s_events s) = 0)
            \<and> (IsRejected u \<longrightarrow> (\<exists>x. r = capture (fst (result_code rfn u x))))))
    \<and> (s_origin s ! L = OResult core U rfn kModeFinally \<longrightarrow> (\<exists>u. settled_with s U u
            \<and> (\<exists>x. r = (case fst (result_code rfn u x) of Returns ownResult \<Rightarrow> u | thrown \<Rightarrow> capture thrown))))"
proof -
  note inv = reach_sem_inv[OF assms(1)]
  have j: "justified s L r" using inv assms(2) by (simp add: sem_inv_def)
  have run: "\<exists>core body x. body_ok s core L body \<and> r = fst (run_body body x)" if "ran s L r"
    using ran_body[OF inv that] by metis
  have none: "runs L (s_events s) = 0" if "\<And>core body. \<not> body_ok s core L body"
  proof (rule ccontr)
    assume "runs L (s_events s) \<noteq> 0"
    then have "0 < runs L (s_events s)" by simp
    then show False by (rule run_event[OF inv]) (rule notE[OF that])
  qed
  show ?thesis
  proof (intro conjI impI)
    assume og: "s_origin s ! L = OThen core U fn"
    then obtain u where u: "settled_with s U u" "if IsRejected u then r = u else ran s L r"
      using j assms(3,4) by (auto simp: justified_def is_external_def split: if_splits)
    note b = body_of_then[OF _ og u(1)]
    have "runs L (s_events s) = 0" if "IsRejected u" using that b by (intro none) (auto simp: fulfilled_iff)
    moreover have "\<exists>x. r = capture (fst (then_code fn x))" if "\<not> IsRejected u"
    proof -
      have "ran s L r" using u(2) that by simp
      then obtain core' body x where x: "body_ok s core' L body" "r = fst (run_body body x)" using run by blast
      with b[OF x(1)] show ?thesis by (auto simp: split_beta)
    qed
    ultimately show "\<exists>u. settled_with s U u \<and> (IsRejected u \<longrightarrow> r = u \<and> runs L (s_events s) = 0)
        \<and> (IsFulfilled u \<longrightarrow> (\<exists>x. r = capture (fst (then_code fn x))))"
      using u by (intro exI[of _ u]) (auto simp: fulfilled_iff)
  next
    assume og: "s_origin s ! L = OResult core U rfn kModeCatch"
    then obtain u where u: "settled_with s U u" "if IsFulfilled u then r = u else ran s L r"
      using j assms(3,4) by (auto simp: justified_def is_external_def split: if_splits)
    note b = body_of_result[OF _ og u(1)]
    have "runs L (s_events s) = 0" if "IsFulfilled u" using that b by (intro none) auto
    moreover have "\<exists>x. r = capture (fst (result_code rfn u x))" if "\<not> IsFulfilled u"
    proof -
      have "ran s L r" using u(2) that by simp
      then obtain core' body x where x: "body_ok s core' L body" "r = fst (run_body body x)" using run by blast
      have "r = capture (fst (result_code rfn u x))"
        using b[OF x(1)] x(2) by (auto simp: split_beta split: outcome.splits)
      then show ?thesis by blast
    qed
    ultimately show "\<exists>u. settled_with s U u \<and> (IsFulfilled u \<longrightarrow> r = u \<and> runs L (s_events s) = 0)
        \<and> (IsRejected u \<longrightarrow> (\<exists>x. r = capture (fst (result_code rfn u x))))"
      using u by (intro exI[of _ u]) (auto simp: fulfilled_iff)
  next
    assume og: "s_origin s ! L = OResult core U rfn kModeFinally"
    then obtain u where u: "settled_with s U u" "ran s L r"
      using j assms(3,4) by (auto simp: justified_def is_external_def)
    then obtain core' body x where x: "body_ok s core' L body" "r = fst (run_body body x)" using run by blast
    have "r = fst (run_body (ResultBody rfn u kModeFinally) x)" using body_of_result[OF x(1) og u(1)] x(2) by simp
    with u(1) show "\<exists>u. settled_with s U u
        \<and> (\<exists>x. r = (case fst (result_code rfn u x) of Returns ownResult \<Rightarrow> u | thrown \<Rightarrow> capture thrown))"
      unfolding finally_result by blast
  qed
qed

theorem three_state_witness:
  "settled_with demo_done 1 demo_error \<and> runs 1 (s_events demo_done) = 0
   \<and> settled_with demo_done 2 Resolve \<and> settled_with demo_done 3 Resolve"
proof -
  let ?fn = "ThenFn [] (\<lambda>x. (Returns Resolve, x + 10))"
  have s: "settled_with demo_done 0 demo_error" "settled_with demo_done 1 demo_error"
    "settled_with demo_done 2 Resolve" "settled_with demo_done 3 Resolve"
    unfolding settled_with_def by code_simp+
  have og: "s_origin demo_done ! 1 = OThen (0, 0) 0 ?fn"
    by (simp add: demo_done_def demo_start_def demo_chain_def run_script_origin sys_init_def)
  have ne: "demo_error \<noteq> kStopped" "demo_error \<noteq> kGateTwice" by code_simp+
  obtain u where u: "settled_with demo_done 0 u" "IsRejected u \<longrightarrow> demo_error = u \<and> runs 1 (s_events demo_done) = 0"
    using three_state[OF demo_done_reach s(2) ne, THEN conjunct1, THEN mp, OF og] by (elim exE conjE) (rule that)
  have "u = demo_error" using settled_with_unique[OF u(1) s(1)] .
  then have "runs 1 (s_events demo_done) = 0" using u(2) by (simp add: demo_error_def)
  with s show ?thesis by simp
qed

subsection \<open>Slots\<close>

text \<open>C9. Wherever a layer's user code ran, the thread held every slot the code asks for: the slot of
  its own executor's gate, of the kind it asks for.\<close>

theorem gated_code_in_slot:
  assumes "sys_reach ctx execs s" and "Ran L f r \<in> set (s_events s)"
  shows "(s_origin s ! L = OFirst core fn \<or> s_origin s ! L = OThen core U fn \<longrightarrow>
            (\<forall>g. Gated g \<in> set (then_gates fn) \<longrightarrow> f = Some (fst core, g)))
    \<and> (s_origin s ! L = OResult core U rfn eMode \<longrightarrow>
            (\<forall>g. Gated g \<in> set (result_gates rfn) \<longrightarrow> f = Some (fst core, g)))"
proof -
  have "event_ok s (Ran L f r)" using reach_sem_inv[OF assms(1)] assms(2) by (simp add: sem_inv_def)
  then obtain core' body where "body_ok s core' L body"
    "\<forall>g. Gated g \<in> set (body_gates body) \<longrightarrow> f = Some (fst core', g)"
    by (auto simp: event_ok_def)
  then show ?thesis by (cases body) auto
qed

theorem gated_code_in_slot_witness:
  "Ran 0 (Some (0, kWrite)) demo_error \<in> set (s_events demo_mid) \<and> Some (0, kWrite) = Some (fst (0, 0 :: nat), kWrite)"
proof -
  let ?fn = "ThenFn [Gated kWrite] (\<lambda>x. (Returns demo_error, x + 1))"
  have r: "Ran 0 (Some (0, kWrite)) demo_error \<in> set (s_events demo_mid)" by code_simp
  have og: "s_origin demo_mid ! 0 = OFirst (0, 0) ?fn"
    by (simp add: demo_mid_def demo_start_def demo_chain_def run_script_origin sys_init_def)
  show ?thesis
    using gated_code_in_slot[OF demo_mid_reach r, THEN conjunct1, THEN mp, OF disjI1, OF og, THEN spec[of _ kWrite]] r
    by simp
qed

text \<open>A layer that was suspended comes back in the slot it asked for.\<close>

fun retry_ok :: "(nat \<times> task_kind) option \<Rightarrow> 'c action \<Rightarrow> bool" where
  "retry_ok f (RunLayer core L body True) \<longleftrightarrow> (\<exists>g. Gated g \<in> set (body_gates body) \<and> f = Some (fst core, g))"
| "retry_ok f a \<longleftrightarrow> True"

fun plain :: "'c action \<Rightarrow> bool" where
  "plain (RunLayer core L body b) \<longleftrightarrow> \<not> b"
| "plain EndTask \<longleftrightarrow> False"
| "plain a \<longleftrightarrow> True"

lemma plain_retry: "plain a \<Longrightarrow> retry_ok f a"
  by (cases "(f, a)" rule: retry_ok.cases) simp_all

text \<open>The closures that will deliver the notice \<open>n\<close>.\<close>

definition notice_of :: "nat \<Rightarrow> 'c handler \<Rightarrow> nat" where
  "notice_of n h = (case h of Notice m \<Rightarrow> if m = n then 1 else 0 | NoticeOn e m \<Rightarrow> if m = n then 1 else 0 | _ \<Rightarrow> 0)"

definition delivers :: "nat \<Rightarrow> 'c action \<Rightarrow> nat" where
  "delivers n a = (case a of Call h r \<Rightarrow> notice_of n h | RunNotice m r \<Rightarrow> if m = n then 1 else 0 | _ \<Rightarrow> 0)"

lemma notice_simps [simp]:
  "notice_of n (AfterThen core L fn) = 0" "notice_of n (AfterResult core L rfn eMode) = 0" "notice_of n (AfterPromise core L g) = 0"
  "notice_of n (Notice m) = (if m = n then 1 else 0)" "notice_of n (NoticeOn e m) = (if m = n then 1 else 0)"
  "notice_of n (AdoptChild L) = 0" "notice_of n (Bridge x L) = 0"
  "delivers n (Call h r) = notice_of n h" "delivers n (RunLayer core L body b) = 0" "delivers n (DoAdopt core L g) = 0"
  "delivers n (BindChild x L child u) = 0" "delivers n (RunStarter L) = 0"
  "delivers n (RunNotice m r) = (if m = n then 1 else 0)" "delivers n (Settle L r) = 0"
  "delivers n EndInline = 0" "delivers n EndTask = 0"
  by (simp_all add: notice_of_def delivers_def)

text \<open>A task that delivers a notice bypasses the gate.\<close>

definition announces :: "'c action \<Rightarrow> bool" where
  "announces a \<longleftrightarrow> (\<exists>n. delivers n a \<noteq> 0)"

lemma announces_simps [simp]:
  "\<not> announces (RunLayer core L body b)" "\<not> announces (DoAdopt core L g)" "\<not> announces (BindChild x L child u)"
  "\<not> announces (RunStarter L)" "\<not> announces (Settle L r)" "\<not> announces (Call (AfterThen core L fn) r)"
  "\<not> announces (Call (AfterResult core L rfn m) r)" "\<not> announces (Call (AfterPromise core L g) r)"
  by (simp_all add: announces_def)

definition tasks_ok :: "'c sys \<Rightarrow> bool" where
  "tasks_ok s \<longleftrightarrow> (\<forall>(e, k, a) \<in> set (s_posted s). retry_ok (frame_of e k) a \<and> a \<noteq> EndTask
     \<and> (k = kDirect \<or> \<not> announces a))"

definition stack_ok :: "'c thread \<Rightarrow> bool" where
  "stack_ok th \<longleftrightarrow> (\<forall>a \<in> set (t_stack th). retry_ok (t_frame th) a) \<and> EndTask \<notin> set (butlast (t_stack th))"

definition slot_ok :: "'c conf \<Rightarrow> bool" where
  "slot_ok c \<longleftrightarrow> tasks_ok (fst c) \<and> stack_ok (snd c)"

lemma plain_not_EndTask: "plain a \<Longrightarrow> a \<noteq> EndTask"
  by auto

lemma slot_ok_push: "slot_ok c \<Longrightarrow> list_all plain as \<Longrightarrow> slot_ok (push as c)"
  by (auto simp: slot_ok_def push_def stack_ok_def list_all_iff plain_retry butlast_append
      dest: plain_not_EndTask in_set_butlastD)

lemma slot_ok_frame [simp]:
  "slot_ok (s\<lparr>s_ctx := x\<rparr>, th) = slot_ok (s, th)" "slot_ok (log_event ev c) = slot_ok c"
  "slot_ok (s\<lparr>s_layers := ls\<rparr>, th) = slot_ok (s, th)" "slot_ok (s\<lparr>s_layers := ls, s_origin := og\<rparr>, th) = slot_ok (s, th)"
  "slot_ok (s\<lparr>s_layers := ls, s_events := evs\<rparr>, th) = slot_ok (s, th)"
  "slot_ok (s, th\<lparr>t_depth := d\<rparr>) = slot_ok (s, th)"
  by (simp_all add: slot_ok_def tasks_ok_def stack_ok_def log_event_def)

lemma slot_ok_post_or:
  "slot_ok c \<Longrightarrow> retry_ok (frame_of e k) a \<Longrightarrow> a \<noteq> EndTask \<Longrightarrow> k = kDirect \<or> \<not> announces a \<Longrightarrow>
     list_all plain as \<Longrightarrow> slot_ok (post_or e k a as c)"
  by (auto simp: post_or_def intro: slot_ok_push) (auto simp: slot_ok_def tasks_ok_def)

lemma slot_ok_inline: "slot_ok c \<Longrightarrow> plain a \<Longrightarrow> slot_ok (inline_call a c)"
  unfolding inline_call_def by (rule slot_ok_push) simp_all

lemma slot_ok_Dispatch: "slot_ok c \<Longrightarrow> plain a \<Longrightarrow> \<not> announces a \<Longrightarrow> slot_ok (Dispatch core L a env c)"
  by (auto simp: Dispatch_def Let_def plain_retry intro!: slot_ok_inline slot_ok_post_or)

lemma slot_ok_add_notice: "slot_ok c \<Longrightarrow> slot_ok (add_notice e U h c)"
proof (cases "m_bSettled (s_layers (fst c) ! U)")
  case True
  assume "slot_ok c"
  then have "slot_ok ((fst c)\<lparr>s_posted := s_posted (fst c) @ [(e, kDirect, Call h r)]\<rparr>, snd c)" for r
    by (auto simp: slot_ok_def tasks_ok_def)
  with \<open>slot_ok c\<close> True show ?thesis by (simp add: add_notice_def Register_settled slot_ok_inline)
qed (simp add: add_notice_def Register_locked_def)

lemma slot_ok_add_handler: "slot_ok c \<Longrightarrow> (\<And>r. \<not> announces (Call h r)) \<Longrightarrow> slot_ok (add_handler e U L h c)"
  by (cases "m_bSettled (s_layers (fst c) ! U)")
    (simp_all add: add_handler_def Register_locked_def slot_ok_post_or)

lemma EnterGates_Some: "EnterGates e ks th = Some g \<Longrightarrow> Gated g \<in> set ks"
  by (induction e ks th rule: EnterGates.induct) (auto split: if_splits)

lemma call_handler_slot: "slot_ok c \<Longrightarrow> slot_ok (call_handler h r env c)"
  by (cases "(h, r, env, c)" rule: call_handler.cases; cases c)
    (auto intro!: slot_ok_push slot_ok_Dispatch slot_ok_post_or)

lemma perform_slot:
  assumes ok: "slot_ok c" and last: "a = EndTask \<Longrightarrow> t_stack (snd c) = []"
  shows "slot_ok (perform a env c)"
proof (cases "(a, env, c)" rule: perform.cases)
  case (1 h r)
  with ok show ?thesis by (simp add: call_handler_slot)
next
  case (2 core L body b)
  with ok show ?thesis
    by (cases c) (auto simp: run_layer_def split_beta frame_of_def dest: EnterGates_Some
        intro!: slot_ok_push slot_ok_post_or split: option.split)
next
  case (3 core L given)
  with ok show ?thesis
    by (cases c) (auto simp: adopt_def Let_def intro!: slot_ok_push slot_ok_add_notice split: child_outcome.split)
next
  case (4 x L child u)
  with ok show ?thesis by (simp add: slot_ok_add_notice)
next
  case (5 L)
  with ok show ?thesis by (auto intro!: slot_ok_push split: starter_outcome.split)
next
  case (7 L r)
  with ok show ?thesis
    by (cases c) (auto simp: settle_def split_beta list_all_iff intro!: slot_ok_push)
next
  case 9
  with ok last show ?thesis by (simp add: slot_ok_def stack_ok_def)
qed (use ok in \<open>cases c; simp\<close>)+

definition slot_inv :: "'c sys \<Rightarrow> bool" where
  "slot_inv s \<longleftrightarrow> tasks_ok s \<and> (\<forall>th \<in> set (s_threads s). stack_ok th)"

lemma slot_inv_put:
  assumes "slot_inv s" and "slot_ok c" and "s_threads (fst c) = s_threads s"
  shows "slot_inv (put i c)"
proof -
  have "stack_ok t" if "t \<in> set ((s_threads s)[i := snd c])" for t
    using that set_update_subset_insert[of "s_threads s" i "snd c"] assms(1,2) by (auto simp: slot_inv_def slot_ok_def)
  then show ?thesis using assms(2,3) by (simp add: slot_inv_def slot_ok_def put_def tasks_ok_def)
qed

lemma slot_inv_thread: "slot_inv s \<Longrightarrow> i < length (s_threads s) \<Longrightarrow> slot_ok (s, s_threads s ! i)"
  by (simp add: slot_inv_def slot_ok_def)

lemma slot_inv_run: "run_step s s' \<Longrightarrow> slot_inv s \<Longrightarrow> slot_inv s'"
proof (induction rule: run_step.induct)
  case (act i s env)
  then obtain a rest where st: "t_stack (s_threads s ! i) = a # rest" by (cases "t_stack (s_threads s ! i)") auto
  let ?c = "(s, (s_threads s ! i)\<lparr>t_stack := rest\<rparr>)"
  have th: "slot_ok (s, s_threads s ! i)" using act by (intro slot_inv_thread)
  then have "slot_ok ?c" using st by (cases rest) (auto simp: slot_ok_def stack_ok_def)
  moreover have "rest = []" if "a = EndTask" using th st that by (cases rest) (auto simp: slot_ok_def stack_ok_def)
  ultimately have "slot_ok (perform a env ?c)" by (intro perform_slot) simp_all
  then show ?case using slot_inv_put[OF act(4), of "perform a env ?c" i] by (simp add: act_def st)
next
  case (take i j s)
  obtain e k a where p: "s_posted s ! j = (e, k, a)" by (cases "s_posted s ! j") auto
  then have "(e, k, a) \<in> set (s_posted s)" using take(1) by (metis nth_mem worker_idle_def)
  then have "retry_ok (frame_of e k) a" "a \<noteq> EndTask" using take(2) by (auto simp: slot_inv_def tasks_ok_def)
  moreover have "tasks_ok (s\<lparr>s_posted := take j (s_posted s) @ drop (Suc j) (s_posted s)\<rparr>)"
    using take(2) set_remove_nth[of j "s_posted s"] by (auto simp: slot_inv_def tasks_ok_def)
  ultimately have "slot_ok (s\<lparr>s_posted := take j (s_posted s) @ drop (Suc j) (s_posted s)\<rparr>,
      (s_threads s ! i)\<lparr>t_frame := frame_of e k, t_stack := [a, EndTask]\<rparr>)"
    by (simp add: slot_ok_def stack_ok_def)
  from slot_inv_put[OF take(2) this] show ?case by (simp add: take_task_def p)
qed

lemma slot_inv_on_thread:
  assumes "slot_inv s" and "i < length (s_threads s)" and "s_threads (fst (f (s, s_threads s ! i))) = s_threads s"
    and "slot_ok (s, s_threads s ! i) \<Longrightarrow> slot_ok (f (s, s_threads s ! i))"
  shows "slot_inv (on_thread i f s)"
  unfolding on_thread_def by (rule slot_inv_put[OF assms(1) assms(4)[OF slot_inv_thread[OF assms(1,2)]] assms(3)])

lemma slot_ok_new [simp]: "slot_ok (new_layer k og c) = slot_ok c"
  by (simp add: new_layer_def slot_ok_def tasks_ok_def)

lemma slot_inv_client: "client_step s s' \<Longrightarrow> slot_inv s \<Longrightarrow> slot_inv s'"
proof (induction rule: client_step.induct)
  case (accepts s f)
  then show ?case by (simp add: slot_inv_def tasks_ok_def)
next
  case (user_code s x)
  then show ?case by (simp add: slot_inv_def tasks_ok_def)
qed (rule slot_inv_on_thread; simp add: client_defs OnSettled_def OnSettledOn_def slot_ok_post_or
    slot_ok_Dispatch slot_ok_add_handler slot_ok_add_notice slot_ok_push)+

lemma slot_inv_init: "slot_inv (sys_init ctx execs)"
  by (auto simp: sys_init_def slot_inv_def tasks_ok_def stack_ok_def)

lemma reach_slot_inv: "sys_reach ctx execs s \<Longrightarrow> slot_inv s"
proof (induction rule: sys_reach.induct)
  case (sys_drop s s')
  then obtain j where "s' = drop_task j s" by (auto elim: drop_step.cases)
  with sys_drop(3) set_remove_nth[of j "s_posted s"] show ?case by (auto simp: slot_inv_def tasks_ok_def)
qed (simp_all add: slot_inv_init slot_inv_run slot_inv_client)

lemma EnterGates_held: "t_frame th = Some (e, g) \<Longrightarrow> set ks \<subseteq> {Gated g, kDirect} \<Longrightarrow> EnterGates e ks th = None"
  by (induction e ks th rule: EnterGates.induct) (auto simp: InGateSlot_def)

text \<open>Code that asks for one gate is suspended at most once: when the layer comes back it holds the
  slot, so it runs, and is not rejected as suspended twice.\<close>

theorem one_gate_suspends_once:
  assumes "sys_reach ctx execs s" and "i < length (s_threads s)"
    and "t_stack (s_threads s ! i) = RunLayer core L body True # rest"
    and "set (body_gates body) \<subseteq> {Gated g, kDirect}"
  shows "EnterGates (fst core) (body_gates body) (s_threads s ! i) = None"
proof -
  have "stack_ok (s_threads s ! i)" using reach_slot_inv[OF assms(1)] assms(2) by (simp add: slot_inv_def)
  then obtain g' where "Gated g' \<in> set (body_gates body)" "t_frame (s_threads s ! i) = Some (fst core, g')"
    using assms(3) by (auto simp: stack_ok_def)
  moreover from this assms(4) have "g' = g" by auto
  ultimately show ?thesis using assms(4) by (intro EnterGates_held[of _ _ g]) simp_all
qed

definition demo_retry :: "nat sys" where
  "demo_retry = run_script (take 5 demo_chain @ [DoTake 0 0, DoAct 0 (quiet 0), DoAct 0 (quiet 0), DoTake 0 0]) demo_start"

theorem one_gate_suspends_once_witness:
  "EnterGates 0 [Gated kWrite] (s_threads demo_retry ! 0) = None \<and> t_frame (s_threads demo_retry ! 0) = Some (0, kWrite)"
proof -
  let ?cs = "take 5 demo_chain @ [DoTake 0 0, DoAct 0 (quiet 0), DoAct 0 (quiet 0), DoTake 0 0]"
  have "script_ok ?cs demo_start" by code_simp
  then have r: "sys_reach (\<lambda>_. 0) [Some 0, None] demo_retry"
    unfolding demo_retry_def demo_start_def by (intro run_script_reach sys_start) simp_all
  have l: "0 < length (s_threads demo_retry)" by code_simp
  have "case t_stack (s_threads demo_retry ! 0) of
      RunLayer core L body True # rest \<Rightarrow> core = (0, 0) \<and> body_gates body = [Gated kWrite] | _ \<Rightarrow> False" by code_simp
  then obtain L body rest where b: "t_stack (s_threads demo_retry ! 0) = RunLayer (0, 0) L body True # rest"
    "body_gates body = [Gated kWrite]" by (auto split: list.splits action.splits bool.splits)
  have "t_frame (s_threads demo_retry ! 0) = Some (0, kWrite)" by code_simp
  with one_gate_suspends_once[OF r l b(1), of kWrite] b(2) show ?thesis by simp
qed

subsection \<open>Coming to rest\<close>

text \<open>C8. Left to itself a system in which every executor that accepts, or has accepted, tasks has a
  worker comes to rest: every internal step, and every drop of a task, reduces the work that is
  left, so there are no more of them than that number; and, the gates letting tasks pass only in
  their order, a step that drops nothing is possible until all stacks and queues are empty.\<close>

theorem chains_terminate:
  assumes "sys_reach ctx execs s" and "staffed s"
  shows "(\<forall>s'. run_step s s' \<or> drop_step s s' \<longrightarrow> work s' < work s) \<and> (at_rest s \<or> (\<exists>s'. run_step s s'))
    \<and> (\<exists>s'. run_step\<^sup>*\<^sup>* s s' \<and> at_rest s')"
  using run_step_work drop_step_work reach_own_inv[OF assms(1)] reach_rest[OF assms]
    staffed_progress[OF assms(2) _ reach_frames_ok[OF assms(1)]] by blast

text \<open>Executor 0 is the only one that accepts tasks.\<close>

definition demo_only0 :: "nat sys" where
  "demo_only0 = run_script (DoAccept (\<lambda>e k. e = 0) # demo_chain) demo_start"

lemma demo_only0_reach: "sys_reach (\<lambda>_. 0) [Some 0, None] demo_only0"
proof -
  have "script_ok (DoAccept (\<lambda>e k. e = 0) # demo_chain) demo_start" by code_simp
  then show ?thesis unfolding demo_only0_def demo_start_def by (intro run_script_reach sys_start) simp_all
qed

lemma demo_only0_staffed: "staffed demo_only0"
proof -
  have "map t_exec (s_threads demo_only0) = [Some 0, None]" "map fst (s_posted demo_only0) = [0]" by code_simp+
  then have "t_exec ` set (s_threads demo_only0) = {Some 0, None}" "fst ` set (s_posted demo_only0) = {0}"
    by (metis list.set(1,2) set_map)+
  moreover have "s_accepts demo_only0 e k = (e = 0)" for e k by code_simp
  ultimately show ?thesis by (simp add: staffed_def)
qed

theorem chains_terminate_witness:
  "\<not> at_rest demo_only0 \<and> (\<exists>s'. run_step demo_only0 s') \<and> (\<exists>s'. run_step\<^sup>*\<^sup>* demo_only0 s' \<and> at_rest s')"
proof -
  have "\<not> List.null (s_posted demo_only0)" by code_simp
  then have "\<not> at_rest demo_only0" by (simp add: at_rest_def List.null_iff)
  with chains_terminate[OF demo_only0_reach demo_only0_staffed] show ?thesis by blast
qed

text \<open>C7. No layer is forgotten.  At rest, when every starter has called its resolve or reject
  function and the promises do not wait for each other in a cycle, every layer of every chain is
  settled, or it is, or waits directly or through others for, a layer that is pending because an
  executor that stopped dropped its task; when no task was dropped all are settled, whichever
  executors refused tasks on the way.\<close>

theorem no_layer_forgotten:
  assumes "sys_reach ctx execs s" and "at_rest s" and "acyclic (waits s)"
    and "\<And>L. L < length (s_layers s) \<Longrightarrow> is_external (s_origin s ! L) \<Longrightarrow> m_bSettled (s_layers s ! L)"
    and "L < length (s_layers s)"
  shows "(m_bSettled (s_layers s ! L)
      \<or> (\<exists>K. (L, K) \<in> (waits s)\<^sup>* \<and> \<not> m_bSettled (s_layers s ! K) \<and> lost K s = 1))
    \<and> (s_dropped s = [] \<longrightarrow> m_bSettled (s_layers s ! L))"
proof -
  note inv = reach_own_inv[OF assms(1)]
  have dropped: "\<exists>K. (L, K) \<in> (waits s)\<^sup>* \<and> \<not> m_bSettled (s_layers s ! K) \<and> lost K s = 1"
    if "\<not> m_bSettled (s_layers s ! L)"
  proof -
    have "pending L s" using assms(5) that by (simp add: pending_def)
    then obtain K where K: "(L, K) \<in> (waits s)\<^sup>*" "pending K s" "\<nexists>U. (K, U) \<in> waits s"
      using end_of_waits[OF assms(3)] by blast
    then have ext: "\<not> is_external (s_origin s ! K)" using assms(4)[of K] by (auto simp: pending_def)
    then have "lost K s \<noteq> 0" using rest_waits[OF inv assms(2) K(2)] K(3) by blast
    moreover have "claims K s + lost K s = 1" using inv ext K(2) by (auto simp: own_inv_def pending_def)
    ultimately have "lost K s = 1" by linarith
    with K show ?thesis by (auto simp: pending_def)
  qed
  moreover have "lost K s = 0" if "s_dropped s = []" for K using that by (simp add: lost_def)
  ultimately show ?thesis by fastforce
qed

theorem no_layer_forgotten_witness:
  "m_bSettled (s_layers demo_done ! 2)
   \<and> (\<exists>K. (1, K) \<in> (waits demo_lost)\<^sup>* \<and> \<not> m_bSettled (s_layers demo_lost ! K) \<and> lost K demo_lost = 1)"
proof
  have all: "list_all (\<lambda>st. m_bSettled st) (s_layers demo_done)" "length (s_layers demo_done) = 4"
    "List.null (s_posted demo_done)" "list_all (\<lambda>th. List.null (t_stack th)) (s_threads demo_done)"
    "List.null (s_dropped demo_done)"
    by code_simp+
  have "at_rest demo_done" using all by (simp add: at_rest_def List.null_iff list_all_iff)
  moreover have "acyclic (waits demo_done)"
  proof -
    have "waits demo_done = {}" using all(1) by (auto simp: waits_def pending_def list_all_length)
    then show ?thesis by (simp add: acyclic_def)
  qed
  ultimately show "m_bSettled (s_layers demo_done ! 2)"
    using no_layer_forgotten[OF demo_done_reach, of 2] all by (simp add: list_all_length List.null_iff)
next
  have f: "length (s_layers demo_lost) = 2" "List.null (s_posted demo_lost)"
    "list_all (\<lambda>th. List.null (t_stack th)) (s_threads demo_lost)" "\<not> m_bSettled (s_layers demo_lost ! 1)"
    "list_all (\<lambda>og. \<not> is_external og) (s_origin demo_lost)" "length (s_origin demo_lost) = 2"
    "map owner (pending_handlers (s_layers demo_lost ! 0)) = [Some 1]"
    "pending_handlers (s_layers demo_lost ! 1) = []"
    by code_simp+
  have "owner h = Some 1" if "h \<in> set (pending_handlers (s_layers demo_lost ! 0))" for h
    using that f(7) by (metis empty_iff empty_set image_eqI list.set_map set_ConsD)
  then have "waits demo_lost \<subseteq> {(1, 0)}"
    using f(1,8) by (auto simp: waits_def pending_def less_Suc_eq numeral_2_eq_2)
  then have "acyclic (waits demo_lost)"
    by (rule acyclic_subset[rotated]) (auto simp: acyclic_def elim: tranclE)
  moreover have "at_rest demo_lost" using f by (simp add: at_rest_def List.null_iff list_all_iff)
  ultimately show "\<exists>K. (1, K) \<in> (waits demo_lost)\<^sup>* \<and> \<not> m_bSettled (s_layers demo_lost ! K) \<and> lost K demo_lost = 1"
    using no_layer_forgotten[OF demo_lost_reach, of 1] f by (simp add: list_all_length)
qed

subsection \<open>Notices\<close>

definition is_delivery :: "nat \<Rightarrow> event \<Rightarrow> bool" where
  "is_delivery n ev = (case ev of Noticed m r \<Rightarrow> m = n | _ \<Rightarrow> False)"

definition due :: "nat \<Rightarrow> 'c sys \<Rightarrow> nat" where
  "due n = sys_sum (notice_of n) (delivers n) (delivers n)"

definition deliveries :: "nat \<Rightarrow> event list \<Rightarrow> nat" where
  "deliveries n evs = length (filter (is_delivery n) evs)"

lemma deliveries_simps [simp]:
  "deliveries n [] = 0" "deliveries n (evs @ evs') = deliveries n evs + deliveries n evs'"
  "deliveries n [Ran L f r] = 0" "deliveries n [Noticed m r] = (if m = n then 1 else 0)" "deliveries n [SettledBy L r] = 0"
  "deliveries n [Registered m U] = 0"
  by (simp_all add: deliveries_def is_delivery_def)

text \<open>The registrations, and the notices that are stored on pending layers.\<close>

definition is_registration :: "nat \<Rightarrow> event \<Rightarrow> bool" where
  "is_registration n ev = (case ev of Registered m U \<Rightarrow> m = n | _ \<Rightarrow> False)"

definition registrations :: "nat \<Rightarrow> event list \<Rightarrow> nat" where
  "registrations n evs = length (filter (is_registration n) evs)"

lemma registrations_simps [simp]:
  "registrations n [] = 0" "registrations n (evs @ evs') = registrations n evs + registrations n evs'"
  "registrations n [Ran L f r] = 0" "registrations n [Noticed m r] = 0" "registrations n [SettledBy L r] = 0"
  "registrations n [Registered m U] = (if m = n then 1 else 0)"
  by (simp_all add: registrations_def is_registration_def)

definition held :: "nat \<Rightarrow> 'c sys \<Rightarrow> nat" where
  "held n s = layer_sum (notice_of n) (filter (\<lambda>st. \<not> m_bSettled st) (s_layers s))"

definition notice_sum :: "nat \<Rightarrow> 'c conf \<Rightarrow> nat" where
  "notice_sum n c = conf_sum (notice_of n) (delivers n) (delivers n) c + deliveries n (s_events (fst c))"

lemma call_handler_notices: "notice_sum n (call_handler h r env c) = notice_sum n c + notice_of n h"
  by (cases "(h, r, env, c)" rule: call_handler.cases)
    (simp_all add: notice_sum_def conf_sum_Dispatch conf_sum_post_or)

lemma perform_notices:
  assumes "swept (s_layers (fst c))" and "refers_ok (length (s_layers (fst c))) a" and "env_ok (fst c) env"
  shows "notice_sum n (perform a env c) = notice_sum n c + delivers n a"
proof (cases "(a, env, c)" rule: perform.cases)
  case (1 h r)
  then show ?thesis by (simp add: call_handler_notices)
next
  case (2 core L body b)
  then show ?thesis
    by (auto simp: run_layer_def notice_sum_def conf_sum_post_or split_beta split: option.split)
next
  case (3 core L given)
  with assms(3) show ?thesis
    by (auto simp: adopt_def Let_def env_ok_def notice_sum_def conf_sum_add_notice split: child_outcome.split)
next
  case (4 x L child u)
  with assms(2) show ?thesis by (simp add: notice_sum_def conf_sum_add_notice refers_ok_def Let_def)
next
  case (5 L)
  then show ?thesis by (simp add: notice_sum_def split: starter_outcome.split)
next
  case (7 L r)
  have "deliveries n (s_events (fst (settle L r c))) = deliveries n (s_events (fst c))"
    by (simp add: settle_def split_beta)
  with 7 assms(1,2) show ?thesis
    using conf_sum_settle[of L c "notice_of n" "delivers n" "delivers n" r]
    by (simp add: notice_sum_def refers_ok_def swept_at)
qed (simp_all add: notice_sum_def)

lemma due_run:
  assumes "run_step s s'" and "own_inv s"
  shows "due n s' + deliveries n (s_events s') = due n s + deliveries n (s_events s)"
  using assms
proof (induction rule: run_step.induct)
  case (act i s env)
  then obtain a rest where st: "t_stack (s_threads s ! i) = a # rest" by (cases "t_stack (s_threads s ! i)") auto
  let ?c = "(s, (s_threads s ! i)\<lparr>t_stack := rest\<rparr>)"
  have "refers_ok (length (s_layers s)) a" using own_inv_action[OF act(4,1), of a] st by auto
  moreover have "swept (s_layers s)" using act(4) by (simp add: own_inv_def)
  ultimately have p: "notice_sum n (perform a env ?c) = notice_sum n ?c + delivers n a"
    using perform_notices[of ?c a env n] act(3) by simp
  let ?w = "conf_sum (notice_of n) (delivers n) (delivers n)"
  have "due n (act i env s) + ?w ?c + delivers n a = due n s + ?w (perform a env ?c)"
    using sys_sum_act[OF act(1) st, of "notice_of n" "delivers n" "delivers n" env "?w ?c" "?w (perform a env ?c)"]
    by (simp add: due_def)
  with p show ?case by (simp add: notice_sum_def act_frame[OF st])
next
  case (take i j s)
  then show ?case
    using sys_sum_take[OF take(1), of "notice_of n" "delivers n" "delivers n"]
    by (simp add: due_def take_task_def split_beta)
qed

lemma perform_registrations: "registrations n (s_events (fst (perform a env c))) = registrations n (s_events (fst c))"
proof (cases "(a, env, c)" rule: perform.cases)
  case (2 core L body b)
  then show ?thesis by (simp add: run_layer_def split_beta split: option.split)
next
  case (3 core L given)
  then show ?thesis by (simp add: adopt_def Let_def split: child_outcome.split)
next
  case (5 L)
  then show ?thesis by (simp split: starter_outcome.split)
next
  case (7 L r)
  then show ?thesis by (simp add: settle_def split_beta)
qed simp_all

text \<open>Every registration is delivered or due.\<close>

definition notice_inv :: "nat \<Rightarrow> 'c sys \<Rightarrow> bool" where
  "notice_inv n s \<longleftrightarrow> deliveries n (s_events s) + due n s = registrations n (s_events s)"

lemma notice_inv_run:
  assumes "run_step s s'" and "own_inv s" and "notice_inv n s"
  shows "notice_inv n s'"
proof -
  have "registrations n (s_events s') = registrations n (s_events s)"
    using assms(1)
  proof (cases rule: run_step.cases)
    case (act i env)
    then obtain a rest where st: "t_stack (s_threads s ! i) = a # rest" by (cases "t_stack (s_threads s ! i)") auto
    then show ?thesis by (simp add: act(1) act_frame[OF st] perform_registrations)
  qed (simp add: take_task_def split_beta)
  then show ?thesis using due_run[OF assms(1,2), of n] assms(3) by (simp add: notice_inv_def)
qed

lemma notice_inv_on_thread:
  assumes inv: "notice_inv n s" and i: "i < length (s_threads s)"
    and th: "s_threads (fst (f (s, s_threads s ! i))) = s_threads s"
    and d: "deliveries n (s_events (fst (f (s, s_threads s ! i)))) = deliveries n (s_events s)"
      "registrations n (s_events (fst (f (s, s_threads s ! i)))) = registrations n (s_events s) + d"
    and sum: "conf_sum (notice_of n) (delivers n) (delivers n) (f (s, s_threads s ! i))
      = conf_sum (notice_of n) (delivers n) (delivers n) (s, s_threads s ! i) + d"
  shows "notice_inv n (on_thread i f s)"
proof -
  have "due n (on_thread i f s) = due n s + d"
    unfolding due_def by (rule sys_sum_on_thread[where f = f, OF i th sum])
  then show ?thesis using inv d by (simp add: notice_inv_def on_thread_def)
qed

lemma notice_inv_client: "client_step s s' \<Longrightarrow> notice_inv n s \<Longrightarrow> notice_inv n s'"
proof (induction rule: client_step.induct)
  case (accepts s f)
  then show ?case by (simp add: notice_inv_def due_def sys_sum_def)
next
  case (user_code s x)
  then show ?case by (simp add: notice_inv_def due_def sys_sum_def)
next
  case (on_settled i s U core m)
  then show ?case
    by (intro notice_inv_on_thread[where d = "if m = n then 1 else 0"])
      (simp_all add: OnSettled_def conf_sum_add_notice Let_def)
next
  case (on_settled_on i s U target m)
  then show ?case
    by (intro notice_inv_on_thread[where d = "if m = n then 1 else 0"])
      (simp_all add: OnSettledOn_def conf_sum_add_notice Let_def)
qed (rule notice_inv_on_thread[where d = 0];
     simp add: client_defs conf_sum_Dispatch conf_sum_post_or conf_sum_add_handler)+

lemma reach_notice_inv: "sys_reach ctx execs s \<Longrightarrow> notice_inv n s"
proof (induction rule: sys_reach.induct)
  case sys_start
  show ?case by (simp add: notice_inv_def due_def sys_init_def sys_sum_def thread_sum_def comp_def)
next
  case (sys_run s s')
  then show ?case using notice_inv_run reach_own_inv by blast
next
  case (sys_drop s s')
  then obtain j where j: "droppable j s" "s' = drop_task j s" by (auto elim: drop_step.cases)
  obtain e k a where p: "s_posted s ! j = (e, k, a)" by (cases "s_posted s ! j") auto
  then have "(e, k, a) \<in> set (s_posted s)" "k \<noteq> kDirect"
    using j(1) by (auto simp: droppable_def) (metis nth_mem)
  then have "delivers n a = 0"
    using reach_slot_inv[OF sys_drop(1)] by (auto simp: slot_inv_def tasks_ok_def announces_def)
  then have "due n (drop_task j s) = due n s"
    using sys_sum_drop[OF droppable_length[OF j(1)], of "notice_of n" "delivers n" "delivers n"] p by (simp add: due_def)
  then show ?case using sys_drop(3) by (simp add: j(2) notice_inv_def)
next
  case (sys_client s s')
  then show ?case by (simp add: notice_inv_client)
qed

lemma settled_layers_hold_none: "swept ls \<Longrightarrow> layer_sum f (filter (\<lambda>st. \<not> m_bSettled st) ls) = layer_sum f ls"
  by (induction ls) (auto simp: layer_sum_def swept_def)

text \<open>C10. A notice is delivered once, and not lost.  In every reachable state each notice was
  delivered at most as often as it was registered, each time with the result of a layer it was
  registered on; and when the system is at rest every registration has been delivered, except
  those whose layer is still pending, which its handlers hold.  This is so whatever clients do in
  between, and whichever executors stop and drop tasks.\<close>

theorem notice_delivered_once:
  assumes "sys_reach ctx execs s"
  shows "deliveries n (s_events s) \<le> registrations n (s_events s)
    \<and> (\<forall>r. Noticed n r \<in> set (s_events s) \<longrightarrow> (\<exists>U. Registered n U \<in> set (s_events s) \<and> settled_with s U r))
    \<and> (at_rest s \<longrightarrow> deliveries n (s_events s) + held n s = registrations n (s_events s))"
proof (intro conjI allI impI)
  have n: "deliveries n (s_events s) + due n s = registrations n (s_events s)"
    using reach_notice_inv[OF assms] by (simp add: notice_inv_def)
  then show "deliveries n (s_events s) \<le> registrations n (s_events s)" by linarith
  show "\<exists>U. Registered n U \<in> set (s_events s) \<and> settled_with s U r" if "Noticed n r \<in> set (s_events s)" for r
  proof -
    have "event_ok s (Noticed n r)" using reach_sem_inv[OF assms] that by (simp add: sem_inv_def)
    then show ?thesis by (simp add: event_ok_def)
  qed
  assume "at_rest s"
  then have "due n s = layer_sum (notice_of n) (s_layers s)"
    by (simp add: due_def sys_sum_def at_rest_def thread_sum_def)
  also have "\<dots> = held n s"
    using reach_own_inv[OF assms] by (simp add: held_def own_inv_def settled_layers_hold_none)
  finally show "deliveries n (s_events s) + held n s = registrations n (s_events s)" using n by simp
qed

text \<open>The executor of a settled chain has stopped; the notice runs in place.\<close>

definition demo_stopped :: "nat sys" where
  "demo_stopped = demo_done\<lparr>s_accepts := (\<lambda>_ _. False)\<rparr>"

definition demo_notified :: "nat sys" where
  "demo_notified = run_script (replicate 3 (DoAct 1 (quiet 0))) (on_thread 1 (OnSettled (0, 0) 0 8) demo_stopped)"

lemma demo_stopped_reach: "sys_reach (\<lambda>_. 0) [Some 0, None] demo_stopped"
  unfolding demo_stopped_def by (rule sys_client[OF demo_done_reach accepts])

theorem notice_delivered_once_witness:
  "deliveries 8 (s_events demo_notified) = 1 \<and> registrations 8 (s_events demo_notified) = 1
   \<and> deliveries 8 (s_events demo_notified) + held 8 demo_notified = registrations 8 (s_events demo_notified)"
proof -
  have "script_ok (replicate 3 (DoAct 1 (quiet 0))) (on_thread 1 (OnSettled (0, 0) 0 8) demo_stopped)"
    "1 < length (s_threads demo_stopped)" "0 < length (s_layers demo_stopped)" by code_simp+
  then have r: "sys_reach (\<lambda>_. 0) [Some 0, None] demo_notified"
    unfolding demo_notified_def by (intro run_script_reach sys_client[OF demo_stopped_reach] on_settled)
  have "List.null (s_posted demo_notified)" "list_all (\<lambda>th. List.null (t_stack th)) (s_threads demo_notified)"
    "registrations 8 (s_events demo_notified) = 1" "held 8 demo_notified = 0" by code_simp+
  then show ?thesis
    using notice_delivered_once[OF r, of 8] by (simp add: at_rest_def List.null_iff list_all_iff)
qed

subsection \<open>Where the code differs from its documentation\<close>

text \<open>A \<open>Finally\<close>, a \<open>Catch\<close> and a \<open>Then\<close> appended to layers that settled before their executor
  stopped: the first two are documented to hand a fulfilled result on, the third to hand the
  rejection on; all three end as rejected because the executor has stopped.\<close>

definition demo_late :: "nat sys" where
  "demo_late = run_script
     [DoResult 1 (0, 0) 2 (ResultFn [] (\<lambda>r x. (Returns Resolve, x))) kModeFinally kDirect, DoAct 1 (quiet 0),
      DoResult 1 (0, 0) 2 (ResultFn [] (\<lambda>r x. (Returns Resolve, x))) kModeCatch kDirect, DoAct 1 (quiet 0),
      DoThen 1 (0, 0) 1 (ThenFn [] (\<lambda>x. (Returns Resolve, x))) kDirect, DoAct 1 (quiet 0)] demo_stopped"

theorem stopped_executor_overrides_skip:
  "sys_reach (\<lambda>_. 0) [Some 0, None] demo_late
   \<and> settled_with demo_late 2 Resolve \<and> settled_with demo_late 4 kStopped \<and> settled_with demo_late 5 kStopped
   \<and> settled_with demo_late 1 demo_error \<and> settled_with demo_late 6 kStopped"
proof -
  have "script_ok [DoResult 1 (0, 0) 2 (ResultFn [] (\<lambda>r x. (Returns Resolve, x))) kModeFinally kDirect, DoAct 1 (quiet 0),
      DoResult 1 (0, 0) 2 (ResultFn [] (\<lambda>r x. (Returns Resolve, x))) kModeCatch kDirect, DoAct 1 (quiet 0),
      DoThen 1 (0, 0) 1 (ThenFn [] (\<lambda>x. (Returns Resolve, x))) kDirect, DoAct 1 (quiet 0)] demo_stopped" by code_simp
  then have "sys_reach (\<lambda>_. 0) [Some 0, None] demo_late"
    unfolding demo_late_def by (rule run_script_reach[OF demo_stopped_reach])
  moreover have "settled_with demo_late 2 Resolve" "settled_with demo_late 4 kStopped" "settled_with demo_late 5 kStopped"
    "settled_with demo_late 1 demo_error" "settled_with demo_late 6 kStopped"
    unfolding settled_with_def by code_simp+
  ultimately show ?thesis by blast
qed

text \<open>A factory that returns a promise of its own chain: the layer waits for itself, and the
  system rests with it pending for ever.  JavaScript rejects such a promise.\<close>

definition demo_self :: "nat sys" where
  "demo_self = run_script
     [DoStart 1 (0, 0) kDirect (ThenFn [] (\<lambda>x. (Returns Resolve, x))), DoPromise 1 (0, 0) 0 kDirect,
      DoTake 0 0, DoAct 0 (quiet 0), DoAct 0 (quiet 0), DoAct 0 (quiet 0),
      DoAct 0 ((quiet 0)\<lparr>child_is := Child (0, 0) 1\<rparr>), DoAct 0 (quiet 0), DoAct 0 (quiet 0)] demo_start"

theorem self_adoption_hangs:
  "sys_reach (\<lambda>_. 0) [Some 0, None] demo_self \<and> at_rest demo_self \<and> pending 1 demo_self
   \<and> (1, 1) \<in> waits demo_self"
proof -
  have "script_ok [DoStart 1 (0, 0) kDirect (ThenFn [] (\<lambda>x. (Returns Resolve, x))), DoPromise 1 (0, 0) 0 kDirect,
      DoTake 0 0, DoAct 0 (quiet 0), DoAct 0 (quiet 0), DoAct 0 (quiet 0),
      DoAct 0 ((quiet 0)\<lparr>child_is := Child (0, 0) 1\<rparr>), DoAct 0 (quiet 0), DoAct 0 (quiet 0)] demo_start" by code_simp
  then have "sys_reach (\<lambda>_. 0) [Some 0, None] demo_self"
    unfolding demo_self_def demo_start_def by (intro run_script_reach sys_start) simp_all
  moreover have "List.null (s_posted demo_self)" "list_all (\<lambda>th. List.null (t_stack th)) (s_threads demo_self)"
    "1 < length (s_layers demo_self)" "\<not> m_bSettled (s_layers demo_self ! 1)"
    "map owner (pending_handlers (s_layers demo_self ! 1)) = [Some 1]" by code_simp+
  moreover from this(5) have "\<exists>h \<in> set (pending_handlers (s_layers demo_self ! 1)). owner h = Some 1"
    by (metis list.set_intros(1) list.set_map imageE)
  ultimately show ?thesis by (auto simp: at_rest_def List.null_iff list_all_iff pending_def waits_def)
qed

end
