(* ===== verification/Combine.thy ===== *)
theory Combine
  imports PromiseResult
begin

text \<open>
  The combinators \<open>WhenAll\<close>, \<open>WhenAllSettled\<close>, \<open>WhenRace\<close> and \<open>WhenAny\<close>
  (\<open>src/Common/Async/Combine.h\<close>).  \<open>OnChildSettled\<close> is the critical section of
  \<open>CGatherState::OnChildSettled\<close> with the call it makes afterwards, outside the lock; since the
  sections of different threads exclude each other, what a gathering does is determined by the
  list of results in the order of these sections.  \<open>verdict\<close> says what the four policies promise
  for such a list, and \<open>gather_meets_verdict\<close> that the state implements it: the gathered layer is
  settled at most once, at the first moment the promise of its policy is decided, and at the
  latest when the last child has settled.
\<close>

datatype GatherPolicy = kGatherAll | kGatherAllSettled | kGatherRace | kGatherAny

definition ResolveEmptyGather :: "GatherPolicy \<Rightarrow> promise_result" where
  "ResolveEmptyGather ePolicy =
     (if ePolicy = kGatherAll \<or> ePolicy = kGatherAllSettled then Resolve else kNoReason)"

record gather =
  m_ePolicy :: GatherPolicy
  m_nPending :: int       \<comment> \<open>a \<open>size_t\<close>; the children are objects in memory, so it cannot wrap on the way up\<close>
  m_bRejectSeen :: bool
  m_bDone :: bool
  m_firstReject :: promise_result

definition CGatherState :: "GatherPolicy \<Rightarrow> nat \<Rightarrow> gather" where
  "CGatherState ePolicy nTotal = \<lparr>m_ePolicy = ePolicy, m_nPending = int nTotal, m_bRejectSeen = False,
     m_bDone = False, m_firstReject = kNoReason\<rparr>"

text \<open>The call that settles the gathered layer, if this child decides it.\<close>

datatype gather_call = CallResolve | CallReject promise_result

definition note_child :: "promise_result \<Rightarrow> gather \<Rightarrow> gather" where
  "note_child result g =
     (let g = g\<lparr>m_nPending := m_nPending g - 1\<rparr>
      in if \<not> IsFulfilled result \<and> \<not> m_bRejectSeen g
         then g\<lparr>m_bRejectSeen := True, m_firstReject := result\<rparr> else g)"

definition OnChildSettled :: "promise_result \<Rightarrow> gather \<Rightarrow> gather_call option \<times> gather" where
  "OnChildSettled result g =
     (if m_bDone g then (None, g)
      else
        let g = note_child result g;
            bLast = (m_nPending g = 0)
        in case m_ePolicy g of
             kGatherAll \<Rightarrow>
               if IsFulfilled result then (if bLast then Some CallResolve else None, g\<lparr>m_bDone := bLast\<rparr>)
               else (Some (CallReject result), g\<lparr>m_bDone := True\<rparr>)
           | kGatherAllSettled \<Rightarrow> (if bLast then Some CallResolve else None, g\<lparr>m_bDone := bLast\<rparr>)
           | kGatherRace \<Rightarrow>
               (Some (if IsFulfilled result then CallResolve else CallReject result), g\<lparr>m_bDone := True\<rparr>)
           | kGatherAny \<Rightarrow>
               if IsFulfilled result then (Some CallResolve, g\<lparr>m_bDone := True\<rparr>)
               else if bLast then (Some (CallReject (m_firstReject g)), g\<lparr>m_bDone := True\<rparr>)
               else (None, g))"

text \<open>The children of a combinator call: each argument is a promise or a list of promises.\<close>

datatype 'p gather_arg = OneChild 'p | ChildList "'p list"

fun AppendGatherBindings :: "'p list \<Rightarrow> 'p gather_arg \<Rightarrow> 'p list" where
  "AppendGatherBindings vecOut (OneChild promiseChild) = vecOut @ [promiseChild]"
| "AppendGatherBindings vecOut (ChildList vecChild) = fold (\<lambda>p out. out @ [p]) vecChild vecOut"

text \<open>\<open>Gather\<close> starts a chain: with a handler that returns its result at once when there are no
  children, otherwise with a starter that registers a notice on each child, in order.\<close>

datatype 'p gather_chain = SettlesWith promise_result | Gathers gather "'p list"

definition Gather :: "GatherPolicy \<Rightarrow> 'p gather_arg list \<Rightarrow> 'p gather_chain" where
  "Gather ePolicy args =
     (let vecBindings = fold (\<lambda>a out. AppendGatherBindings out a) args []
      in if vecBindings = [] then SettlesWith (ResolveEmptyGather ePolicy)
         else Gathers (CGatherState ePolicy (length vecBindings)) vecBindings)"

definition WhenAll :: "'p gather_arg list \<Rightarrow> 'p gather_chain" where
  "WhenAll child = Gather kGatherAll child"

definition WhenAllSettled :: "'p gather_arg list \<Rightarrow> 'p gather_chain" where
  "WhenAllSettled child = Gather kGatherAllSettled child"

definition WhenRace :: "'p gather_arg list \<Rightarrow> 'p gather_chain" where
  "WhenRace child = Gather kGatherRace child"

definition WhenAny :: "'p gather_arg list \<Rightarrow> 'p gather_chain" where
  "WhenAny child = Gather kGatherAny child"

text \<open>A gathering run on the results of its children in the order of their arrival: the calls it
  makes, and its state.\<close>

definition arrival :: "promise_result \<Rightarrow> gather_call list \<times> gather \<Rightarrow> gather_call list \<times> gather" where
  "arrival result s =
     (let (call, g) = OnChildSettled result (snd s)
      in (fst s @ (case call of None \<Rightarrow> [] | Some c \<Rightarrow> [c]), g))"

definition arrivals :: "promise_result list \<Rightarrow> gather \<Rightarrow> gather_call list \<times> gather" where
  "arrivals rs g = fold arrival rs ([], g)"

subsection \<open>What the policies promise\<close>

definition verdict :: "GatherPolicy \<Rightarrow> nat \<Rightarrow> promise_result list \<Rightarrow> gather_call option" where
  "verdict ePolicy nTotal rs =
     (case ePolicy of
        kGatherAll \<Rightarrow>
          (case List.find IsRejected rs of
             Some r \<Rightarrow> Some (CallReject r)
           | None \<Rightarrow> if length rs = nTotal then Some CallResolve else None)
      | kGatherAllSettled \<Rightarrow> if length rs = nTotal then Some CallResolve else None
      | kGatherRace \<Rightarrow>
          (case rs of
             [] \<Rightarrow> None
           | r # _ \<Rightarrow> Some (if IsFulfilled r then CallResolve else CallReject r))
      | kGatherAny \<Rightarrow>
          (case List.find IsFulfilled rs of
             Some r \<Rightarrow> Some CallResolve
           | None \<Rightarrow> if length rs = nTotal then Some (CallReject (hd rs)) else None))"

subsection \<open>The implementation keeps the promise\<close>

lemma find_None: "List.find P xs = None \<longleftrightarrow> (\<forall>x\<in>set xs. \<not> P x)"
  by (induction xs) auto

lemma arrivals_append: "arrivals (rs @ [r]) g = arrival r (arrivals rs g)"
  by (simp add: arrivals_def)

text \<open>What the state knows of the results that have arrived.\<close>

definition gather_inv :: "GatherPolicy \<Rightarrow> nat \<Rightarrow> promise_result list \<Rightarrow> gather_call list \<times> gather \<Rightarrow> bool" where
  "gather_inv ePolicy nTotal rs s \<longleftrightarrow>
     fst s = (case verdict ePolicy nTotal rs of None \<Rightarrow> [] | Some c \<Rightarrow> [c])
     \<and> m_ePolicy (snd s) = ePolicy
     \<and> m_bDone (snd s) = (verdict ePolicy nTotal rs \<noteq> None)
     \<and> (m_bDone (snd s) \<or>
          m_nPending (snd s) = int nTotal - int (length rs)
          \<and> m_bRejectSeen (snd s) = (List.find IsRejected rs \<noteq> None)
          \<and> (case List.find IsRejected rs of None \<Rightarrow> True | Some r \<Rightarrow> m_firstReject (snd s) = r))"

text \<open>Once decided, a promise stays decided.\<close>

lemma verdict_final: "length rs < nTotal \<Longrightarrow> verdict p nTotal rs = Some c \<Longrightarrow> verdict p nTotal (rs @ [r]) = Some c"
  by (cases p) (auto simp: verdict_def find_append split: option.splits list.splits if_splits)

text \<open>While \<open>any\<close> is undecided every result so far is a rejection, the first of them the first.\<close>

lemma find_rejected_hd: "List.find IsFulfilled rs = None \<Longrightarrow> rs \<noteq> [] \<Longrightarrow> List.find IsRejected rs = Some (hd rs)"
  by (cases rs) (auto simp: fulfilled_iff split: if_splits)

lemma arrival_inv:
  assumes inv: "gather_inv p n rs s" and len: "length rs < n"
  shows "gather_inv p n (rs @ [r]) (arrival r s)"
proof (cases "m_bDone (snd s)")
  case True
  then obtain c where c: "verdict p n rs = Some c" using inv by (auto simp: gather_inv_def)
  have "arrival r s = s" using True by (cases s) (simp add: arrival_def OnChildSettled_def)
  with inv True c verdict_final[OF len c] show ?thesis by (simp add: gather_inv_def)
next
  case False
  obtain calls g where s: "s = (calls, g)" by (cases s)
  have v: "verdict p n rs = None" and calls: "calls = []" and pol: "m_ePolicy g = p"
    and cnt: "m_nPending g = int n - int (length rs)" and seen: "m_bRejectSeen g = (List.find IsRejected rs \<noteq> None)"
    and first: "case List.find IsRejected rs of None \<Rightarrow> True | Some r \<Rightarrow> m_firstReject g = r"
    using inv False by (auto simp: gather_inv_def s)
  have last: "int n - int (length rs) - 1 = 0 \<longleftrightarrow> Suc (length rs) = n" using len by auto
  have hd: "hd (rs @ [r]) = (if rs = [] then r else hd rs)" by (cases rs) simp_all
  note defs = gather_inv_def s calls arrival_def OnChildSettled_def note_child_def Let_def verdict_def find_append
  show ?thesis
  proof (cases p)
    case kGatherAll
    with v have "List.find IsRejected rs = None" by (simp add: verdict_def split: option.splits)
    with kGatherAll False pol cnt seen last show ?thesis
      by (simp add: defs fulfilled_iff)
  next
    case kGatherAllSettled
    with False pol cnt seen first last show ?thesis
      by (auto simp add: defs fulfilled_iff split: option.splits)
  next
    case kGatherRace
    with v have "rs = []" by (cases rs) (simp_all add: verdict_def)
    with kGatherRace False pol show ?thesis by (simp add: defs fulfilled_iff)
  next
    case kGatherAny
    with v have none: "List.find IsFulfilled rs = None" by (simp add: verdict_def split: option.splits)
    show ?thesis
    proof (cases rs)
      case Nil
      with kGatherAny False pol cnt seen first last none show ?thesis by (auto simp add: defs fulfilled_iff)
    next
      case (Cons r0 rest)
      with none have "List.find IsRejected rs = Some r0" "IsRejected r0"
        using find_rejected_hd[of rs] by (simp_all add: fulfilled_iff split: if_splits)
      with Cons kGatherAny False pol cnt seen first last none show ?thesis by (auto simp add: defs fulfilled_iff)
    qed
  qed
qed

lemma arrivals_inv: "length rs \<le> n \<Longrightarrow> 0 < n \<Longrightarrow> gather_inv p n rs (arrivals rs (CGatherState p n))"
proof (induction rs rule: rev_induct)
  case Nil
  then show ?case by (cases p) (simp_all add: arrivals_def gather_inv_def verdict_def CGatherState_def)
next
  case (snoc r rs)
  then show ?case by (simp add: arrivals_append arrival_inv)
qed

lemma verdict_complete: "length rs = n \<Longrightarrow> 0 < n \<Longrightarrow> verdict p n rs \<noteq> None"
  by (cases p; cases rs) (auto simp: verdict_def split: option.splits)

lemma AppendGatherBindings_app: "AppendGatherBindings out a = out @ (case a of OneChild p \<Rightarrow> [p] | ChildList ps \<Rightarrow> ps)"
proof (cases a)
  case (ChildList ps)
  have "fold (\<lambda>p out. out @ [p]) ps out = out @ ps" by (induction ps arbitrary: out) simp_all
  with ChildList show ?thesis by simp
qed simp

text \<open>C11. The gathered layer is settled by one call at most, at the moment the policy's promise is
  decided, and with all children settled it is.  For a call of a combinator with children:
  whatever the order in which their results arrive, the calls made so far are the verdict on the
  results so far; a verdict is final, and there is one when all results have arrived.\<close>

theorem gather_meets_verdict:
  assumes "Gather p args = Gathers g children" and "length rs \<le> length children"
  shows "fst (arrivals rs g) = (case verdict p (length children) rs of None \<Rightarrow> [] | Some c \<Rightarrow> [c])
    \<and> (length rs = length children \<longrightarrow> verdict p (length children) rs \<noteq> None)
    \<and> (\<forall>c r. length rs < length children \<longrightarrow> verdict p (length children) rs = Some c
         \<longrightarrow> verdict p (length children) (rs @ [r]) = Some c)"
proof -
  have g: "g = CGatherState p (length children)" "0 < length children"
    using assms(1) by (auto simp: Gather_def Let_def split: if_splits)
  show ?thesis
    using arrivals_inv[OF assms(2) g(2), of p] verdict_complete[OF _ g(2)] verdict_final g(1)
    by (simp add: gather_inv_def)
qed

text \<open>Three children, the second one fails first, then the first succeeds.\<close>

theorem gather_meets_verdict_witness:
  "fst (arrivals [kTimeout, Resolve] (CGatherState kGatherAny 3)) = [CallResolve]
   \<and> fst (arrivals [kTimeout, Resolve] (CGatherState kGatherAll 3)) = [CallReject kTimeout]"
proof -
  have g: "Gather p [OneChild (0::nat), ChildList [1, 2]] = Gathers (CGatherState p 3) [0, 1, 2]" for p
    by (simp add: Gather_def CGatherState_def)
  show ?thesis
    using gather_meets_verdict[OF g[of kGatherAny], of "[kTimeout, Resolve]"]
      gather_meets_verdict[OF g[of kGatherAll], of "[kTimeout, Resolve]"]
    by (simp add: verdict_def fulfilled_iff)
qed

text \<open>Whether the gathered layer is fulfilled does not depend on the order of arrival, except for a
  race: all needs every child fulfilled, any needs one, allSettled needs none.\<close>

lemma find_not_None: "List.find P xs \<noteq> None \<longleftrightarrow> (\<exists>x\<in>set xs. P x)"
  by (simp add: find_None)

lemma verdict_fulfilled:
  assumes "length rs = n"
  shows "verdict kGatherAll n rs = Some CallResolve \<longleftrightarrow> (\<forall>r\<in>set rs. IsFulfilled r)"
    and "verdict kGatherAllSettled n rs = Some CallResolve"
    and "verdict kGatherAny n rs = Some CallResolve \<longleftrightarrow> (\<exists>r\<in>set rs. IsFulfilled r)"
proof -
  show "verdict kGatherAll n rs = Some CallResolve \<longleftrightarrow> (\<forall>r\<in>set rs. IsFulfilled r)"
    using find_not_None[of IsRejected rs] assms
    by (cases "List.find IsRejected rs") (auto simp: verdict_def fulfilled_iff)
  show "verdict kGatherAllSettled n rs = Some CallResolve"
    using assms by (simp add: verdict_def)
  show "verdict kGatherAny n rs = Some CallResolve \<longleftrightarrow> (\<exists>r\<in>set rs. IsFulfilled r)"
    using find_not_None[of IsFulfilled rs] assms
    by (cases "List.find IsFulfilled rs") (auto simp: verdict_def)
qed

end
