(* ===== verification/ExecutorStop.thy ===== *)
theory ExecutorStop
  imports AsyncExecutor
begin

text \<open>
  \<open>CAsyncExecutor::Stop\<close> (\<open>src/Common/Async/AsyncExecutor.cpp\<close>) while other threads post: the
  gate and the pool of one executor run together.  A submission is the early check of
  \<open>CReadWriteGate::Submit\<close>, its critical section and the hand-over of the tasks that got a slot,
  each a step of its own; a worker runs a task, returns its slot in \<open>OnTaskExit\<close> and goes back to
  its loop.  \<open>Stop\<close> closes the gate, marks the handle, waits in \<open>Drain\<close> until the gate is idle and
  stops the pool.  The wait is the condition variable's: the stopping thread registers, sleeps
  (\<open>DrainWaits\<close>) when it finds the gate busy, is notified (\<open>DrainWoken\<close>) by a thread that returns a
  slot, and looks again.  A task is identified by its number, which is used once.
\<close>

datatype stop_phase =
  Serving | GateClosed | Marked | DrainWaits | DrainWoken | Drained | PoolStopping | Stopped

record exec_sys =
  es_gate :: gate_sys
  es_pool :: pool
  es_phase :: stop_phase
  es_early :: "gtask list"      \<comment> \<open>past the early check of \<open>Submit\<close>, not yet enqueued\<close>
  es_used :: "nat list"         \<comment> \<open>the numbers of all tasks so far\<close>
  es_handed :: "gtask list"     \<comment> \<open>gated tasks the pool has taken\<close>
  es_dropped :: "gtask list"    \<comment> \<open>gated tasks the pool has refused\<close>
  es_drained :: "gtask list"    \<comment> \<open>what had been enqueued when \<open>Drain\<close> returned\<close>

definition exec_init :: "nat \<Rightarrow> exec_sys" where
  "exec_init n = \<lparr>es_gate = gate_init 0, es_pool = snd (ThreadPool.Start (CThreadPool n)), es_phase = Serving,
     es_early = [], es_used = [], es_handed = [], es_dropped = [], es_drained = []\<rparr>"

definition m_bStopped_in :: "exec_sys \<Rightarrow> bool" where
  "m_bStopped_in s \<longleftrightarrow> es_phase s \<notin> {Serving, GateClosed}"

text \<open>\<open>PostToHandle\<close> with a gated kind up to and including the check of \<open>Submit\<close>.\<close>

definition submit_check :: "gtask \<Rightarrow> exec_sys \<Rightarrow> exec_sys" where
  "submit_check t s =
     (if m_bStopped_in s \<or> m_bClosed (gt (es_gate s)) \<or> \<not> m_bRunning (es_pool s) then s
      else s\<lparr>es_early := es_early s @ [t], es_used := fst t # es_used s\<rparr>)"

definition submit_enqueue :: "gtask \<Rightarrow> exec_sys \<Rightarrow> exec_sys" where
  "submit_enqueue t s = s\<lparr>es_gate := do_submit t (es_gate s), es_early := remove1 t (es_early s)\<rparr>"

text \<open>\<open>NotifyDrainWaitersLocked\<close> in the critical section that returns a slot.\<close>

definition notify_drain :: "exec_sys \<Rightarrow> exec_sys" where
  "notify_drain s =
     (if NotifyDrainWaitersLocked (gt (es_gate s)) \<and> es_phase s = DrainWaits then s\<lparr>es_phase := DrainWoken\<rparr> else s)"

definition hand_over :: "gtask \<Rightarrow> exec_sys \<Rightarrow> exec_sys" where
  "hand_over t s =
     (let (ok, p) = pool_submit (es_pool s) t
      in if ok then s\<lparr>es_gate := do_hand_over t (es_gate s), es_pool := p, es_handed := es_handed s @ [t]\<rparr>
         else notify_drain (s\<lparr>es_gate := do_drop t (es_gate s), es_pool := p, es_dropped := es_dropped s @ [t]\<rparr>))"

definition post_direct :: "nat \<Rightarrow> exec_sys \<Rightarrow> exec_sys" where
  "post_direct t s =
     (if m_bStopped_in s then s
      else s\<lparr>es_pool := snd (ThreadPool.Submit t (es_pool s)), es_used := t # es_used s\<rparr>)"

text \<open>The end of a gated task's body, in the worker; and the worker's return to its loop.\<close>

definition task_exit :: "gtask \<Rightarrow> exec_sys \<Rightarrow> exec_sys" where
  "task_exit t s = notify_drain (s\<lparr>es_gate := do_exit t (es_gate s)\<rparr>)"

definition task_return :: "nat \<Rightarrow> exec_sys \<Rightarrow> exec_sys" where
  "task_return w s = s\<lparr>es_pool := set_pc w WkTop (es_pool s)\<rparr>"

text \<open>The steps of \<open>Stop\<close>.  \<open>drain_check\<close> is the test of the wait's condition under the lock of the
  gate: \<open>Drain\<close> leaves when the gate is idle and sleeps otherwise; \<open>stop_drain\<close> is its first
  critical section, which registers the waiter before it tests.\<close>

definition stop_close :: "exec_sys \<Rightarrow> exec_sys" where
  "stop_close s = s\<lparr>es_gate := (es_gate s)\<lparr>gt := Close (gt (es_gate s))\<rparr>, es_phase := GateClosed\<rparr>"

definition stop_mark :: "exec_sys \<Rightarrow> exec_sys" where
  "stop_mark s = s\<lparr>es_phase := Marked\<rparr>"

definition drain_check :: "exec_sys \<Rightarrow> exec_sys" where
  "drain_check s =
     (if IsIdleLocked (gt (es_gate s))
      then s\<lparr>es_gate := (es_gate s)\<lparr>gt := Drain_leave (gt (es_gate s))\<rparr>, es_phase := Drained,
             es_drained := submitted (es_gate s)\<rparr>
      else s\<lparr>es_phase := DrainWaits\<rparr>)"

definition stop_drain :: "exec_sys \<Rightarrow> exec_sys" where
  "stop_drain s = drain_check (s\<lparr>es_gate := (es_gate s)\<lparr>gt := Drain_register (gt (es_gate s))\<rparr>\<rparr>)"

definition stop_pool :: "exec_sys \<Rightarrow> exec_sys" where
  "stop_pool s =
     (if \<not> m_bRunning (es_pool s) then s\<lparr>es_phase := Stopped\<rparr>
      else s\<lparr>es_pool := Stop_begin (es_pool s), es_phase := PoolStopping\<rparr>)"

definition stop_joined :: "exec_sys \<Rightarrow> exec_sys" where
  "stop_joined s = s\<lparr>es_pool := Stop_joined (es_pool s), es_phase := Stopped\<rparr>"

text \<open>What the workers do on their own.\<close>

inductive worker_step :: "pool \<Rightarrow> pool \<Rightarrow> bool" where
  notify: "0 < notifies p \<Longrightarrow> w < pool.m_nThreadCount p \<Longrightarrow> wpc p w = WkWait \<Longrightarrow> worker_step p (notify_worker w p)"
| lost: "0 < notifies p \<Longrightarrow> \<forall>w < pool.m_nThreadCount p. wpc p w \<noteq> WkWait \<Longrightarrow> worker_step p (notify_nobody p)"
| top: "w < pool.m_nThreadCount p \<Longrightarrow> wpc p w = WkTop \<Longrightarrow> worker_step p (worker_top w p)"
| relock: "w < pool.m_nThreadCount p \<Longrightarrow> wpc p w \<in> {WkSpin, WkWoken} \<Longrightarrow> worker_step p (worker_relock w p)"

definition running :: "nat \<Rightarrow> pool \<Rightarrow> bool" where
  "running t p \<longleftrightarrow> (\<exists>w < pool.m_nThreadCount p. wpc p w = WkRun t)"

text \<open>The steps that need no client, those of the thread in \<open>Drain\<close> until it returns, the clients'
  and the rest of \<open>Stop\<close>.\<close>

inductive exec_internal :: "exec_sys \<Rightarrow> exec_sys \<Rightarrow> bool" where
  hand: "t \<in> set (granted (es_gate s)) \<Longrightarrow> exec_internal s (hand_over t s)"
| worker: "worker_step (es_pool s) p \<Longrightarrow> exec_internal s (s\<lparr>es_pool := p\<rparr>)"
| exit: "t \<in> set (in_pool (es_gate s)) \<Longrightarrow> running (fst t) (es_pool s) \<Longrightarrow> exec_internal s (task_exit t s)"
| return: "w < pool.m_nThreadCount (es_pool s) \<Longrightarrow> wpc (es_pool s) w = WkRun i \<Longrightarrow>
    i \<notin> fst ` set (in_pool (es_gate s)) \<Longrightarrow> exec_internal s (task_return w s)"

inductive drain_step :: "exec_sys \<Rightarrow> exec_sys \<Rightarrow> bool" where
  inside: "exec_internal s s' \<Longrightarrow> drain_step s s'"
| enter: "es_phase s = Marked \<Longrightarrow> drain_step s (stop_drain s)"
| again: "es_phase s = DrainWoken \<Longrightarrow> drain_step s (drain_check s)"

inductive exec_step :: "exec_sys \<Rightarrow> exec_sys \<Rightarrow> bool" where
  internal: "exec_internal s s' \<Longrightarrow> exec_step s s'"
| check: "fst t \<notin> set (es_used s) \<Longrightarrow> exec_step s (submit_check t s)"
| enqueue: "t \<in> set (es_early s) \<Longrightarrow> exec_step s (submit_enqueue t s)"
| spurious: "w < pool.m_nThreadCount (es_pool s) \<Longrightarrow> wpc (es_pool s) w = WkWait \<Longrightarrow>
    exec_step s (s\<lparr>es_pool := set_pc w WkWoken (es_pool s)\<rparr>)"
| direct: "i \<notin> set (es_used s) \<Longrightarrow> exec_step s (post_direct i s)"
| close: "es_phase s = Serving \<Longrightarrow> exec_step s (stop_close s)"
| mark: "es_phase s = GateClosed \<Longrightarrow> exec_step s (stop_mark s)"
| drain: "es_phase s = Marked \<Longrightarrow> exec_step s (stop_drain s)"
| drain2: "es_phase s = DrainWoken \<Longrightarrow> exec_step s (drain_check s)"
| drain_spurious: "es_phase s = DrainWaits \<Longrightarrow> exec_step s (s\<lparr>es_phase := DrainWoken\<rparr>)"
| pool1: "es_phase s = Drained \<Longrightarrow> exec_step s (stop_pool s)"
| pool2: "es_phase s = PoolStopping \<Longrightarrow> stopping_pc (es_pool s) = StopNotify \<Longrightarrow>
    exec_step s (s\<lparr>es_pool := Stop_notify_all (es_pool s)\<rparr>)"
| pool3: "es_phase s = PoolStopping \<Longrightarrow> stopping_pc (es_pool s) = StopJoin \<Longrightarrow>
    \<forall>w < pool.m_nThreadCount (es_pool s). wpc (es_pool s) w = WkExit \<Longrightarrow> exec_step s (stop_joined s)"

inductive exec_reach :: "nat \<Rightarrow> exec_sys \<Rightarrow> bool" for n where
  exec_start: "exec_reach n (exec_init n)"
| exec_next: "exec_reach n s \<Longrightarrow> exec_step s s' \<Longrightarrow> exec_reach n s'"

subsection \<open>The invariant\<close>

definition serving_phase :: "stop_phase \<Rightarrow> bool" where
  "serving_phase ph \<longleftrightarrow> ph \<notin> {PoolStopping, Stopped}"

definition drained_phase :: "stop_phase \<Rightarrow> bool" where
  "drained_phase ph \<longleftrightarrow> ph \<in> {Drained, PoolStopping, Stopped}"

lemma phase_simps [simp]:
  "serving_phase Serving" "serving_phase GateClosed" "serving_phase Marked" "serving_phase Drained"
  "serving_phase DrainWaits" "serving_phase DrainWoken" "\<not> drained_phase DrainWaits" "\<not> drained_phase DrainWoken"
  "\<not> serving_phase PoolStopping" "\<not> serving_phase Stopped"
  "\<not> drained_phase Serving" "\<not> drained_phase GateClosed" "\<not> drained_phase Marked"
  "drained_phase Drained" "drained_phase PoolStopping" "drained_phase Stopped"
  by (simp_all add: serving_phase_def drained_phase_def)

text \<open>The submissions enqueued after \<open>Drain\<close> had returned.\<close>

definition late :: "exec_sys \<Rightarrow> gtask list" where
  "late s = drop (length (es_drained s)) (submitted (es_gate s))"

definition gate_part_ok :: "exec_sys \<Rightarrow> bool" where
  "gate_part_ok s \<longleftrightarrow> gate_inv (es_gate s)
     \<and> set (admitted (es_gate s)) \<subseteq> set (granted (es_gate s)) \<union> set (es_handed s) \<union> set (es_dropped s)
     \<and> (serving_phase (es_phase s) \<longrightarrow> es_dropped s = [] \<and> front_blocked (gt (es_gate s)))
     \<and> (drained_phase (es_phase s) \<longrightarrow>
          (\<exists>xs. submitted (es_gate s) = es_drained s @ xs) \<and> length (es_drained s) \<le> length (admitted (es_gate s))
          \<and> set (es_drained s) \<subseteq> set (es_handed s)
          \<and> set (granted (es_gate s)) \<union> set (es_dropped s) \<subseteq> set (late s))"

definition pool_part_ok :: "exec_sys \<Rightarrow> bool" where
  "pool_part_ok s \<longleftrightarrow> pool_inv (es_pool s)
     \<and> (serving_phase (es_phase s) \<longrightarrow> pool_open (es_pool s))
     \<and> (es_phase s = Stopped \<longrightarrow> \<not> m_bRunning (es_pool s))
     \<and> fst ` set (es_handed s) \<subseteq> set (accepted (es_pool s))
     \<and> (\<forall>t \<in> set (in_pool (es_gate s)). fst t \<in> set (pool.m_dequeTasks (es_pool s)) \<or> running (fst t) (es_pool s))"

definition exec_inv :: "exec_sys \<Rightarrow> bool" where
  "exec_inv s \<longleftrightarrow> gate_part_ok s \<and> pool_part_ok s"

text \<open>The thread in \<open>Drain\<close> is registered, and it sleeps only while the gate is busy.\<close>

definition drain_part_ok :: "exec_sys \<Rightarrow> bool" where
  "drain_part_ok s \<longleftrightarrow>
     gate.m_nDrainWaiters (gt (es_gate s)) = (if es_phase s \<in> {DrainWaits, DrainWoken} then 1 else 0)
     \<and> (es_phase s = DrainWaits \<longrightarrow> \<not> IsIdleLocked (gt (es_gate s)))"

lemma exec_inv_init: "0 < n \<Longrightarrow> exec_inv (exec_init n)"
proof -
  assume "0 < n"
  moreover have "pool_inv (snd (ThreadPool.Start (CThreadPool n)))" by (intro pool_inv_start pool_inv_init)
  moreover have "gate_inv (gate_init 0)" by (rule gate_inv_init)
  ultimately show ?thesis
    by (simp add: exec_inv_def gate_part_ok_def pool_part_ok_def exec_init_def pool_open_def
        ThreadPool.Start_def CThreadPool_def)
      (simp add: gate_init_def CReadWriteGate_def front_blocked_def)
qed

text \<open>A step of the gate alone.  What it takes from the queue it adds to the granted and admitted
  tasks.\<close>

lemma do_submit_flow:
  assumes "gate_inv g"
  shows "\<exists>vec. granted (do_submit t g) = granted g @ vec \<and> admitted (do_submit t g) = admitted g @ vec
    \<and> submitted (do_submit t g) = submitted g @ [t] \<and> in_pool (do_submit t g) = in_pool g
    \<and> front_blocked (gt (do_submit t g)) \<and> gate.m_nDrainWaiters (gt (do_submit t g)) = gate.m_nDrainWaiters (gt g)
    \<and> \<not> IsIdleLocked (gt (do_submit t g))"
proof -
  let ?q = "gt g\<lparr>gate.m_dequeTasks := gate.m_dequeTasks (gt g) @ [t]\<rparr>"
  have "slots_ok (gt g)" using assms by (simp add: gate_inv_def)
  then have "slots_ok ?q" by (simp add: slots_ok_def)
  note spec = PumpLocked_spec[OF prod.collapse[symmetric] this]
  have "\<not> IsIdleLocked (snd (PumpLocked ?q))"
  proof
    assume idle: "IsIdleLocked (snd (PumpLocked ?q))"
    then have "reads (fst (PumpLocked ?q)) = 0" "writes (fst (PumpLocked ?q)) = 0" "fst (PumpLocked ?q) \<noteq> []"
      using spec by (auto simp: IsIdleLocked_def)
    then show False by (cases "fst (PumpLocked ?q)") (auto split: if_splits)
  qed
  with spec show ?thesis by (simp add: do_submit_def Submit_locked_def split_beta)
qed

lemma do_exit_flow:
  assumes "gate_inv g"
  shows "\<exists>vec. granted (do_exit t g) = granted g @ vec \<and> admitted (do_exit t g) = admitted g @ vec
    \<and> submitted (do_exit t g) = submitted g \<and> in_pool (do_exit t g) = remove1 t (in_pool g)
    \<and> front_blocked (gt (do_exit t g)) \<and> gate.m_nDrainWaiters (gt (do_exit t g)) = gate.m_nDrainWaiters (gt g)"
proof -
  have "slots_ok (ReturnSlot (snd t) (gt g))" using assms by (simp add: gate_inv_def slots_ok_return)
  from PumpLocked_spec[OF prod.collapse[symmetric] this] show ?thesis
    by (simp add: do_exit_def OnTaskExit_locked_def split_beta) (simp add: ReturnSlot_def)
qed

text \<open>What was admitted beyond the drained submissions is late.\<close>

lemma admitted_late:
  assumes "gate_inv g" and "admitted g = adm @ vec" and "length d \<le> length adm"
  shows "set vec \<subseteq> set (drop (length d) (submitted g))"
  using assms by (auto simp: gate_inv_def)

lemma gate_part_grow:
  assumes ok: "gate_part_ok s" and inv: "gate_inv g"
    and flow: "granted g = granted (es_gate s) @ vec" "admitted g = admitted (es_gate s) @ vec"
      "submitted g = submitted (es_gate s) @ extra" "front_blocked (gt g)"
  shows "gate_part_ok (s\<lparr>es_gate := g\<rparr>)"
proof -
  have "set vec \<subseteq> set (drop (length (es_drained s)) (submitted g))" if "drained_phase (es_phase s)"
  proof -
    have "length (es_drained s) \<le> length (admitted (es_gate s))" using ok that by (simp add: gate_part_ok_def)
    then show ?thesis by (rule admitted_late[OF inv flow(2)])
  qed
  moreover have "set (late s) \<subseteq> set (drop (length (es_drained s)) (submitted g))"
    by (simp add: late_def flow(3))
  ultimately show ?thesis
    using ok inv flow by (auto simp: gate_part_ok_def late_def)
qed

lemma late_cong: "late (s\<lparr>es_early := x, es_used := y, es_pool := p\<rparr>) = late s" "late (s\<lparr>es_pool := p, es_used := y\<rparr>) = late s"
  "late (s\<lparr>es_pool := p\<rparr>) = late s" "late (s\<lparr>es_early := x, es_used := y\<rparr>) = late s" "late (s\<lparr>es_phase := ph\<rparr>) = late s"
  "late (s\<lparr>es_pool := p, es_phase := ph\<rparr>) = late s" "late (s\<lparr>es_gate := g, es_early := x\<rparr>) = late (s\<lparr>es_gate := g\<rparr>)"
  by (simp_all add: late_def)

subsection \<open>Every step keeps it\<close>

lemma worker_pool_step: "worker_step p p' \<Longrightarrow> pool_step p p'"
  by (cases rule: worker_step.cases, assumption) (auto intro: pool_step.intros)

text \<open>A worker's own steps keep the accepted tasks, the phase of the pool and the tasks that are
  queued or running.\<close>

definition queued_or_running :: "nat \<Rightarrow> pool \<Rightarrow> bool" where
  "queued_or_running i p \<longleftrightarrow> i \<in> set (pool.m_dequeTasks p) \<or> running i p"

lemma running_set_pc:
  "running i (set_pc w q p) \<longleftrightarrow>
     (w < pool.m_nThreadCount p \<and> q = WkRun i) \<or> (\<exists>v < pool.m_nThreadCount p. v \<noteq> w \<and> wpc p v = WkRun i)"
  by (auto simp: running_def set_pc_def)

lemma queue_set_pc: "pool.m_dequeTasks (set_pc w q p) = pool.m_dequeTasks p"
  by (simp add: set_pc_def)

lemma queued_set_pc:
  "wpc p w \<noteq> WkRun i \<Longrightarrow> queued_or_running i p \<Longrightarrow> queued_or_running i (set_pc w q p)"
  by (auto simp: queued_or_running_def running_set_pc) (auto simp: running_def set_pc_def)

lemma queued_take:
  assumes w: "w < pool.m_nThreadCount p" and q: "queued_or_running i p" and pc: "wpc p w \<noteq> WkRun i"
  shows "queued_or_running i (exit_or_take w b p)"
proof (cases "pool.m_dequeTasks p")
  case Nil
  with q obtain v where "v < pool.m_nThreadCount p" "wpc p v = WkRun i" "v \<noteq> w"
    using pc by (auto simp: queued_or_running_def running_def)
  with Nil show ?thesis by (auto simp: exit_or_take_def queued_or_running_def running_set_pc)
next
  case (Cons t rest)
  show ?thesis
  proof (cases "i = t")
    case True
    with Cons w show ?thesis by (auto simp: exit_or_take_def queued_or_running_def running_set_pc)
  next
    case False
    with q Cons pc consider "i \<in> set rest" | v where "v < pool.m_nThreadCount p" "v \<noteq> w" "wpc p v = WkRun i"
      by (auto simp: queued_or_running_def running_def)
    then show ?thesis
      by cases (use Cons in \<open>auto simp: exit_or_take_def queued_or_running_def running_set_pc queue_set_pc\<close>)
  qed
qed

lemma take_fields [simp]:
  "accepted (exit_or_take w b p) = accepted p" "m_bRunning (exit_or_take w b p) = m_bRunning p"
  "m_bStopping (exit_or_take w b p) = m_bStopping p"
  "accepted (set_pc w q p) = accepted p" "m_bRunning (set_pc w q p) = m_bRunning p"
  "m_bStopping (set_pc w q p) = m_bStopping p"
  by (simp_all add: exit_or_take_def set_pc_def split: list.split)

lemma worker_step_keeps:
  assumes "worker_step p p'"
  shows "accepted p' = accepted p" and "m_bRunning p' = m_bRunning p" and "m_bStopping p' = m_bStopping p"
    and "queued_or_running i p \<Longrightarrow> queued_or_running i p'"
proof -
  have idle: "queued_or_running i (p\<lparr>m_nIdleWorkers := x\<rparr>) = queued_or_running i p"
    "queued_or_running i (p\<lparr>notifies := x\<rparr>) = queued_or_running i p" for x
    by (simp_all add: queued_or_running_def running_def)
  show "accepted p' = accepted p" "m_bRunning p' = m_bRunning p" "m_bStopping p' = m_bStopping p"
    using assms
    by (cases rule: worker_step.cases,
        simp_all add: notify_worker_def notify_nobody_def worker_top_def worker_relock_def)+
  show "queued_or_running i p \<Longrightarrow> queued_or_running i p'"
    using assms
    by (cases rule: worker_step.cases)
      (auto simp: notify_worker_def notify_nobody_def worker_top_def worker_relock_def idle
        intro!: queued_set_pc queued_take)
qed

lemma pool_part_keeps:
  assumes ok: "pool_part_ok s" and inv: "pool_inv p" and acc: "set (accepted (es_pool s)) \<subseteq> set (accepted p)"
    and phase: "m_bRunning p = m_bRunning (es_pool s)" "m_bStopping p = m_bStopping (es_pool s)"
    and queue: "\<And>i. i \<in> fst ` set (in_pool (es_gate s)) \<Longrightarrow> queued_or_running i (es_pool s) \<Longrightarrow> queued_or_running i p"
  shows "pool_part_ok (s\<lparr>es_pool := p\<rparr>)"
  using ok inv acc phase queue by (auto simp: pool_part_ok_def pool_open_def queued_or_running_def)

lemma exec_inv_cong:
  "exec_inv (s\<lparr>es_early := x\<rparr>) = exec_inv s" "exec_inv (s\<lparr>es_used := y\<rparr>) = exec_inv s"
  by (simp_all add: exec_inv_def gate_part_ok_def pool_part_ok_def late_def)

lemma exec_inv_notify: "exec_inv (notify_drain s) = exec_inv s"
proof (cases "es_phase s = DrainWaits \<and> NotifyDrainWaitersLocked (gt (es_gate s))")
  case True
  then show ?thesis
    by (simp add: notify_drain_def exec_inv_def gate_part_ok_def pool_part_ok_def late_def)
next
  case False
  then show ?thesis by (auto simp: notify_drain_def)
qed

lemma gate_part_pool: "gate_part_ok (s\<lparr>es_pool := p\<rparr>) = gate_part_ok s"
  by (simp add: gate_part_ok_def late_def)

lemma pool_part_gate: "in_pool g = in_pool (es_gate s) \<Longrightarrow> pool_part_ok (s\<lparr>es_gate := g\<rparr>) = pool_part_ok s"
  by (simp add: pool_part_ok_def)

lemma exec_inv_worker:
  assumes "exec_inv s" and w: "worker_step (es_pool s) p"
  shows "exec_inv (s\<lparr>es_pool := p\<rparr>)"
proof -
  have ok: "gate_part_ok s" "pool_part_ok s" using assms(1) by (simp_all add: exec_inv_def)
  have "pool_inv p" using pool_inv_step[OF worker_pool_step[OF w]] ok(2) by (simp add: pool_part_ok_def)
  then have "pool_part_ok (s\<lparr>es_pool := p\<rparr>)"
    using worker_step_keeps[OF w] by (intro pool_part_keeps[OF ok(2)]) simp_all
  with ok(1) show ?thesis by (simp add: exec_inv_def gate_part_pool)
qed

lemma exec_inv_spurious:
  assumes "exec_inv s" and "w < pool.m_nThreadCount (es_pool s)" and "wpc (es_pool s) w = WkWait"
  shows "exec_inv (s\<lparr>es_pool := set_pc w WkWoken (es_pool s)\<rparr>)"
proof -
  have ok: "gate_part_ok s" "pool_part_ok s" "pool_inv (es_pool s)"
    using assms(1) by (simp_all add: exec_inv_def pool_part_ok_def)
  have "pool_inv (set_pc w WkWoken (es_pool s))" by (rule pool_inv_step[OF pool_step.spurious[OF assms(2,3)] ok(3)])
  then have "pool_part_ok (s\<lparr>es_pool := set_pc w WkWoken (es_pool s)\<rparr>)"
    by (intro pool_part_keeps[OF ok(2)] queued_set_pc) (simp_all add: assms(3))
  with ok(1) show ?thesis by (simp add: exec_inv_def gate_part_pool)
qed

lemma exec_inv_check: "exec_inv s \<Longrightarrow> exec_inv (submit_check t s)"
  by (auto simp add: submit_check_def m_bStopped_in_def exec_inv_def gate_part_ok_def pool_part_ok_def late_def)

lemma exec_inv_enqueue:
  assumes "exec_inv s"
  shows "exec_inv (submit_enqueue t s)"
proof -
  have ok: "gate_part_ok s" "pool_part_ok s" "gate_inv (es_gate s)"
    using assms by (simp_all add: exec_inv_def gate_part_ok_def)
  from do_submit_flow[OF ok(3), of t] obtain vec where
    f: "granted (do_submit t (es_gate s)) = granted (es_gate s) @ vec" "admitted (do_submit t (es_gate s)) = admitted (es_gate s) @ vec"
      "submitted (do_submit t (es_gate s)) = submitted (es_gate s) @ [t]"
      "in_pool (do_submit t (es_gate s)) = in_pool (es_gate s)" "front_blocked (gt (do_submit t (es_gate s)))" by blast
  have "exec_inv (s\<lparr>es_gate := do_submit t (es_gate s)\<rparr>)"
    using gate_part_grow[OF ok(1) gate_inv_submit[OF ok(3)] f(1,2,3,5)] pool_part_gate[OF f(4)] ok(2)
    by (simp add: exec_inv_def)
  then show ?thesis using exec_inv_cong(1)[of _ "s\<lparr>es_gate := do_submit t (es_gate s)\<rparr>"] by (simp add: submit_enqueue_def)
qed

lemma exec_inv_exit:
  assumes "exec_inv s" and t: "t \<in> set (in_pool (es_gate s))"
  shows "exec_inv (task_exit t s)"
proof -
  have ok: "gate_part_ok s" "pool_part_ok s" "gate_inv (es_gate s)"
    using assms by (simp_all add: exec_inv_def gate_part_ok_def)
  from do_exit_flow[OF ok(3), of t] obtain vec where
    f: "granted (do_exit t (es_gate s)) = granted (es_gate s) @ vec" "admitted (do_exit t (es_gate s)) = admitted (es_gate s) @ vec"
      "submitted (do_exit t (es_gate s)) = submitted (es_gate s) @ []"
      "in_pool (do_exit t (es_gate s)) = remove1 t (in_pool (es_gate s))" "front_blocked (gt (do_exit t (es_gate s)))" by auto
  have "set (in_pool (do_exit t (es_gate s))) \<subseteq> set (in_pool (es_gate s))" by (simp add: f(4) set_remove1_subset)
  then have "pool_part_ok (s\<lparr>es_gate := do_exit t (es_gate s)\<rparr>)" using ok(2) by (auto simp: pool_part_ok_def)
  with gate_part_grow[OF ok(1) gate_inv_exit[OF ok(3) t] f(1,2,3,5)] show ?thesis
    by (simp add: task_exit_def exec_inv_notify) (simp add: exec_inv_def)
qed

lemma submit_queue: "fst (ThreadPool.Submit i p) \<Longrightarrow>
    accepted (snd (ThreadPool.Submit i p)) = accepted p @ [i]
    \<and> m_bRunning (snd (ThreadPool.Submit i p)) = m_bRunning p \<and> m_bStopping (snd (ThreadPool.Submit i p)) = m_bStopping p
    \<and> queued_or_running i (snd (ThreadPool.Submit i p))"
  by (auto simp: ThreadPool.Submit_def queued_or_running_def split: if_splits)

lemma submit_queued: "queued_or_running j p \<Longrightarrow> queued_or_running j (snd (ThreadPool.Submit i p))"
  by (auto simp: ThreadPool.Submit_def queued_or_running_def running_def)

lemma submit_fields: "m_bRunning (snd (ThreadPool.Submit i p)) = m_bRunning p"
  "m_bStopping (snd (ThreadPool.Submit i p)) = m_bStopping p" "set (accepted p) \<subseteq> set (accepted (snd (ThreadPool.Submit i p)))"
  by (auto simp: ThreadPool.Submit_def)

lemma exec_inv_direct: "exec_inv s \<Longrightarrow> exec_inv (post_direct i s)"
proof -
  assume "exec_inv s"
  then have ok: "gate_part_ok s" "pool_part_ok s" "pool_inv (es_pool s)"
    by (simp_all add: exec_inv_def pool_part_ok_def)
  have "pool_part_ok (s\<lparr>es_pool := snd (ThreadPool.Submit i (es_pool s))\<rparr>)"
    by (intro pool_part_keeps[OF ok(2)] pool_inv_submit ok(3) submit_fields submit_queued)
  with ok(1) have "exec_inv (s\<lparr>es_pool := snd (ThreadPool.Submit i (es_pool s))\<rparr>)"
    by (simp add: exec_inv_def gate_part_pool)
  with \<open>exec_inv s\<close> show ?thesis
    using exec_inv_cong(2)[of _ "s\<lparr>es_pool := snd (ThreadPool.Submit i (es_pool s))\<rparr>"] by (simp add: post_direct_def)
qed

lemma in_set_remove1_or: "x \<in> set xs \<Longrightarrow> x = t \<or> x \<in> set (remove1 t xs)"
  by (induction xs) auto

lemma hand_over_flow:
  "t \<in> set (granted g) \<Longrightarrow> set (granted (do_hand_over t g)) \<subseteq> set (granted g)"
  "t \<in> set (granted g) \<Longrightarrow> set (granted g) \<subseteq> insert t (set (granted (do_hand_over t g)))"
  "admitted (do_hand_over t g) = admitted g" "submitted (do_hand_over t g) = submitted g"
  "gt (do_hand_over t g) = gt g" "in_pool (do_hand_over t g) = in_pool g @ [t]"
  by (auto simp: do_hand_over_def dest: in_set_remove1_or set_remove1_subset[THEN subsetD])

lemma drop_flow:
  "t \<in> set (granted g) \<Longrightarrow> set (granted (do_drop t g)) \<subseteq> set (granted g)"
  "t \<in> set (granted g) \<Longrightarrow> set (granted g) \<subseteq> insert t (set (granted (do_drop t g)))"
  "admitted (do_drop t g) = admitted g" "submitted (do_drop t g) = submitted g" "in_pool (do_drop t g) = in_pool g"
  by (auto simp: do_drop_def dest: in_set_remove1_or set_remove1_subset[THEN subsetD])

lemma exec_inv_hand:
  assumes "exec_inv s" and t: "t \<in> set (granted (es_gate s))"
  shows "exec_inv (hand_over t s)"
proof -
  have ok: "gate_part_ok s" "pool_part_ok s" "gate_inv (es_gate s)" "pool_inv (es_pool s)"
    using assms(1) by (simp_all add: exec_inv_def pool_part_ok_def gate_part_ok_def)
  let ?p = "snd (ThreadPool.Submit (fst t) (es_pool s))"
  have pool: "pool_inv ?p" by (rule pool_inv_submit[OF ok(4)])
  show ?thesis
  proof (cases "fst (ThreadPool.Submit (fst t) (es_pool s))")
    case True
    let ?s = "s\<lparr>es_gate := do_hand_over t (es_gate s), es_pool := ?p, es_handed := es_handed s @ [t]\<rparr>"
    note f = hand_over_flow[of t "es_gate s"]
    have "gate_part_ok ?s"
      using ok(1) gate_inv_hand[OF ok(3) t] f(1,2)[OF t] t
      by (simp add: gate_part_ok_def late_def f(3-6)) blast
    moreover have "pool_part_ok ?s"
      using ok(2) submit_queue[OF True] pool submit_queued[of _ "es_pool s" "fst t"]
      by (auto simp: pool_part_ok_def f(6) pool_open_def queued_or_running_def)
    ultimately have "exec_inv ?s" by (simp add: exec_inv_def)
    with True show ?thesis by (simp add: hand_over_def pool_submit_def split_beta)
  next
    case False
    then have same: "?p = es_pool s" and closed: "\<not> pool_open (es_pool s)"
      by (auto simp: ThreadPool.Submit_def pool_open_def split: if_splits)
    let ?s = "s\<lparr>es_gate := do_drop t (es_gate s), es_dropped := es_dropped s @ [t]\<rparr>"
    note f = drop_flow[of t "es_gate s"]
    have stopping: "\<not> serving_phase (es_phase s)" using ok(2) closed by (auto simp: pool_part_ok_def)
    then have drained: "drained_phase (es_phase s)" by (cases "es_phase s") simp_all
    have "gate_part_ok ?s"
      using ok(1) gate_inv_drop[OF ok(3) t] f(1,2)[OF t] t stopping drained
      by (simp add: gate_part_ok_def late_def f(3-5)) blast
    moreover have "pool_part_ok ?s" using ok(2) by (simp add: pool_part_ok_def f(5))
    ultimately have "exec_inv ?s" by (simp add: exec_inv_def)
    with False same show ?thesis by (simp add: hand_over_def pool_submit_def split_beta exec_inv_notify)
  qed
qed

lemma exec_inv_return:
  assumes "exec_inv s" and "w < pool.m_nThreadCount (es_pool s)" and "wpc (es_pool s) w = WkRun i"
    and "i \<notin> fst ` set (in_pool (es_gate s))"
  shows "exec_inv (task_return w s)"
proof -
  have ok: "gate_part_ok s" "pool_part_ok s" "pool_inv (es_pool s)"
    using assms(1) by (simp_all add: exec_inv_def pool_part_ok_def)
  have "pool_inv (set_pc w WkTop (es_pool s))"
    using pool_inv_step[OF pool_step.finished[OF assms(2,3)] ok(3)] .
  then have "pool_part_ok (task_return w s)"
    unfolding task_return_def
    by (intro pool_part_keeps[OF ok(2)] queued_set_pc) (use assms(3,4) in auto)
  with ok(1) show ?thesis by (simp add: exec_inv_def task_return_def gate_part_pool)
qed

text \<open>The steps of \<open>Stop\<close>.\<close>

lemma idle_gate:
  assumes "gate_inv g" and "IsIdleLocked (gt g)"
  shows "granted g = [] \<and> in_pool g = [] \<and> admitted g = submitted g"
proof -
  have "reads (holders g) = 0" "writes (holders g) = 0" "submitted g = admitted g"
    using assms by (auto simp: gate_inv_def IsIdleLocked_def split: if_splits)
  moreover from this have "holders g = []" by (cases "holders g") (auto split: if_splits)
  ultimately show ?thesis by (simp add: holders_def)
qed

lemma waiters_only [simp]:
  "gate_inv (g\<lparr>gt := Drain_leave (gt g)\<rparr>) = gate_inv g" "gate_inv (g\<lparr>gt := Drain_register (gt g)\<rparr>) = gate_inv g"
  "front_blocked (Drain_leave h) = front_blocked h" "front_blocked (Drain_register h) = front_blocked h"
  "IsIdleLocked (Drain_leave h) = IsIdleLocked h" "IsIdleLocked (Drain_register h) = IsIdleLocked h"
  "holders (g\<lparr>gt := h\<rparr>) = holders g" "gate.m_dequeTasks (Drain_leave h) = gate.m_dequeTasks h"
  "gate.m_dequeTasks (Drain_register h) = gate.m_dequeTasks h"
  by (simp_all add: gate_inv_def Drain_leave_def Drain_register_def holders_def slots_ok_def front_blocked_def
      IsIdleLocked_def split: list.split)

lemma exec_inv_waiters: "exec_inv (s\<lparr>es_gate := (es_gate s)\<lparr>gt := Drain_register (gt (es_gate s))\<rparr>\<rparr>) = exec_inv s"
  by (simp add: exec_inv_def gate_part_ok_def pool_part_ok_def late_def)

lemma exec_inv_stop:
  assumes inv: "exec_inv s"
  shows "es_phase s = Serving \<Longrightarrow> exec_inv (stop_close s)"
    and "es_phase s = GateClosed \<Longrightarrow> exec_inv (stop_mark s)"
    and "es_phase s \<in> {Marked, DrainWoken} \<Longrightarrow> exec_inv (drain_check s)"
    and "es_phase s = Drained \<Longrightarrow> exec_inv (stop_pool s)"
    and "es_phase s = PoolStopping \<Longrightarrow> stopping_pc (es_pool s) = StopNotify \<Longrightarrow>
      exec_inv (s\<lparr>es_pool := Stop_notify_all (es_pool s)\<rparr>)"
    and "es_phase s = PoolStopping \<Longrightarrow> stopping_pc (es_pool s) = StopJoin \<Longrightarrow>
      \<forall>w < pool.m_nThreadCount (es_pool s). wpc (es_pool s) w = WkExit \<Longrightarrow> exec_inv (stop_joined s)"
proof -
  have ok: "gate_part_ok s" "pool_part_ok s" "gate_inv (es_gate s)" "pool_inv (es_pool s)"
    using inv by (simp_all add: exec_inv_def pool_part_ok_def gate_part_ok_def)
  show "exec_inv (stop_close s)" if "es_phase s = Serving"
    using ok that gate_inv_close[OF ok(3)] by (auto simp add: exec_inv_def gate_part_ok_def pool_part_ok_def stop_close_def)
  show "exec_inv (stop_mark s)" if "es_phase s = GateClosed"
    using ok that by (auto simp add: exec_inv_def gate_part_ok_def pool_part_ok_def stop_mark_def)
  show "exec_inv (drain_check s)" if "es_phase s \<in> {Marked, DrainWoken}"
  proof (cases "IsIdleLocked (gt (es_gate s))")
    case True
    let ?g = "(es_gate s)\<lparr>gt := Drain_leave (gt (es_gate s))\<rparr>"
    have flow: "granted ?g = []" "in_pool ?g = []" "admitted ?g = submitted (es_gate s)" "submitted ?g = submitted (es_gate s)"
      "gate_inv ?g" "front_blocked (gt ?g)"
      using idle_gate[OF ok(3) True] ok(1,3) that
      by (auto simp: waiters_only gate_part_ok_def)
    have "set (es_dropped s) = {}" "set (submitted (es_gate s)) \<subseteq> set (es_handed s)"
      using ok(1) that idle_gate[OF ok(3) True] by (auto simp: gate_part_ok_def)
    with True ok(2) flow that show ?thesis
      by (auto simp add: exec_inv_def gate_part_ok_def pool_part_ok_def drain_check_def late_def)
  next
    case False
    with ok that show ?thesis
      by (auto simp add: exec_inv_def gate_part_ok_def pool_part_ok_def drain_check_def late_def)
  qed
  show "exec_inv (stop_pool s)" if "es_phase s = Drained"
  proof -
    have op: "m_bRunning (es_pool s)" "stopping_pc (es_pool s) = StopNone"
      using ok(2,4) that by (auto simp: pool_part_ok_def pool_open_def pool_inv_defs)
    show ?thesis
      using ok that op pool_inv_stop(1)[OF ok(4) op]
      by (auto simp add: exec_inv_def gate_part_ok_def pool_part_ok_def stop_pool_def late_def Stop_begin_def running_def)
  qed
  show "exec_inv (s\<lparr>es_pool := Stop_notify_all (es_pool s)\<rparr>)"
    if "es_phase s = PoolStopping" "stopping_pc (es_pool s) = StopNotify"
  proof -
    have "(if q = WkWait then WkWoken else q) = WkRun i \<longleftrightarrow> q = WkRun i" for q i by auto
    then have "running i (Stop_notify_all p) = running i p" for i p
      by (simp add: running_def Stop_notify_all_def)
    then show ?thesis
      using ok that pool_inv_stop(2)[OF ok(4) that(2)]
      by (simp add: exec_inv_def gate_part_pool pool_part_ok_def) (simp add: Stop_notify_all_def)
  qed
  show "exec_inv (stop_joined s)" if "es_phase s = PoolStopping" "stopping_pc (es_pool s) = StopJoin"
    "\<forall>w < pool.m_nThreadCount (es_pool s). wpc (es_pool s) w = WkExit"
  proof -
    have "m_bRunning (es_pool s)" using ok(4) that(2) by (auto simp: pool_inv_defs)
    then have "0 < pool.m_nThreadCount (es_pool s)" using ok(4) by (simp add: pool_inv_defs)
    with that(3) have "pool.m_dequeTasks (es_pool s) = []" using ok(4) by (auto simp: pool_inv_defs)
    moreover have "\<not> running i (es_pool s)" for i using that(3) by (auto simp: running_def)
    ultimately have none: "t \<notin> set (in_pool (es_gate s))" for t using ok(2) by (cases t) (auto simp: pool_part_ok_def)
    have "in_pool (es_gate s) = []" using none[of "hd (in_pool (es_gate s))"] by (cases "in_pool (es_gate s)") simp_all
    with ok that pool_inv_stop(3)[OF ok(4) that(2,3)] show ?thesis
      by (simp add: exec_inv_def gate_part_ok_def pool_part_ok_def stop_joined_def late_def)
        (simp add: Stop_joined_def)
  qed
qed

lemma exec_inv_step: "exec_step s s' \<Longrightarrow> exec_inv s \<Longrightarrow> exec_inv s'"
proof (induction rule: exec_step.induct)
  case (internal s s')
  then show ?case
    by (cases rule: exec_internal.cases) (auto intro: exec_inv_hand exec_inv_worker exec_inv_exit exec_inv_return)
next
  case (drain s)
  have "exec_inv (s\<lparr>es_gate := (es_gate s)\<lparr>gt := Drain_register (gt (es_gate s))\<rparr>\<rparr>)"
    using drain(2) by (simp add: exec_inv_waiters)
  then show ?case using exec_inv_stop(3) drain(1) by (simp add: stop_drain_def)
next
  case (drain_spurious s)
  then show ?case by (auto simp add: exec_inv_def gate_part_ok_def pool_part_ok_def late_def)
qed (simp_all add: exec_inv_check exec_inv_enqueue exec_inv_direct exec_inv_stop exec_inv_spurious)

text \<open>No wakeup of \<open>Drain\<close> is lost: what can make the gate idle returns a slot, and then notifies.\<close>

lemma drain_part_notify:
  "gate.m_nDrainWaiters (gt (es_gate s')) = gate.m_nDrainWaiters (gt (es_gate s)) \<Longrightarrow> es_phase s' = es_phase s \<Longrightarrow>
     drain_part_ok s \<Longrightarrow> drain_part_ok (notify_drain s')"
  by (auto simp: drain_part_ok_def notify_drain_def NotifyDrainWaitersLocked_def split: if_splits)

lemma drop_waiters: "gate.m_nDrainWaiters (gt (do_drop t g)) = gate.m_nDrainWaiters (gt g)"
  by (simp add: do_drop_def ReturnSlot_def)

lemma drain_part_gate: "es_gate s' = es_gate s \<Longrightarrow> es_phase s' = es_phase s \<Longrightarrow> drain_part_ok s' = drain_part_ok s"
  by (simp add: drain_part_ok_def)

lemma drain_part_internal:
  assumes "exec_internal s s'" and "exec_inv s" and "drain_part_ok s"
  shows "drain_part_ok s'"
  using assms
proof (induction rule: exec_internal.induct)
  case (hand t s)
  then show ?case
    using drain_part_notify[of "s\<lparr>es_gate := do_drop t (es_gate s), es_pool := snd (pool_submit (es_pool s) t),
        es_dropped := es_dropped s @ [t]\<rparr>" s] drop_waiters[of t "es_gate s"]
    by (auto simp: hand_over_def split_beta) (simp_all add: drain_part_ok_def do_hand_over_def)
next
  case (exit t s)
  have "gate_inv (es_gate s)" using exit(3) by (simp add: exec_inv_def gate_part_ok_def)
  from do_exit_flow[OF this, of t] have "gate.m_nDrainWaiters (gt (do_exit t (es_gate s))) = gate.m_nDrainWaiters (gt (es_gate s))"
    by blast
  then show ?case using drain_part_notify[of "s\<lparr>es_gate := do_exit t (es_gate s)\<rparr>" s] exit(4) by (simp add: task_exit_def)
qed (simp_all add: drain_part_ok_def task_return_def)

lemma drain_part_init: "drain_part_ok (exec_init n)"
  by (simp add: drain_part_ok_def exec_init_def gate_init_def CReadWriteGate_def)

lemma drain_part_check:
  "gate.m_nDrainWaiters (gt (es_gate s)) = 1 \<Longrightarrow> drain_part_ok (drain_check s)"
  by (simp add: drain_part_ok_def drain_check_def Drain_leave_def)

lemma drain_part_step: "exec_step s s' \<Longrightarrow> exec_inv s \<Longrightarrow> drain_part_ok s \<Longrightarrow> drain_part_ok s'"
proof (induction rule: exec_step.induct)
  case (internal s s')
  then show ?case by (rule drain_part_internal)
next
  case (enqueue t s)
  have "gate_inv (es_gate s)" using enqueue(2) by (simp add: exec_inv_def gate_part_ok_def)
  from do_submit_flow[OF this, of t] enqueue(3) show ?case
    by (auto simp: drain_part_ok_def submit_enqueue_def)
next
  case (drain s)
  have "gate.m_nDrainWaiters (gt (es_gate s)) = 0" using drain(1,3) by (simp add: drain_part_ok_def)
  then show ?case unfolding stop_drain_def by (intro drain_part_check) (simp add: Drain_register_def)
next
  case (drain2 s)
  then show ?case by (intro drain_part_check) (simp add: drain_part_ok_def)
qed (auto simp: drain_part_ok_def submit_check_def post_direct_def stop_close_def stop_mark_def stop_pool_def
    stop_joined_def Close_def)

lemma exec_reach_invs: "exec_reach n s \<Longrightarrow> 0 < n \<Longrightarrow> exec_inv s \<and> drain_part_ok s"
  by (induction rule: exec_reach.induct)
    (auto intro: exec_inv_init exec_inv_step drain_part_init drain_part_step)

lemma exec_reach_inv: "exec_reach n s \<Longrightarrow> 0 < n \<Longrightarrow> exec_inv s"
  using exec_reach_invs by blast

subsection \<open>A graceful stop\<close>

text \<open>C12. When \<open>Stop\<close> has returned, every task the pool had accepted, direct or gated, has been taken
  and has run to its end, and every gated task that was enqueued before \<open>Drain\<close> returned is one
  of them.  What is dropped, or left in the gate, was enqueued after that by a submission that had
  passed the early check in time.  The executor refuses from then on.\<close>

theorem executor_stop_graceful:
  assumes "exec_reach n s" and "0 < n" and "es_phase s = Stopped"
  shows "taken (es_pool s) = accepted (es_pool s) \<and> (\<forall>w. wpc (es_pool s) w = WkNone)
    \<and> fst ` set (es_drained s) \<subseteq> set (taken (es_pool s))
    \<and> in_pool (es_gate s) = []
    \<and> set (granted (es_gate s)) \<union> set (gate.m_dequeTasks (gt (es_gate s))) \<union> set (es_dropped s) \<subseteq> set (late s)
    \<and> submit_check t s = s \<and> post_direct i s = s"
proof -
  have inv: "exec_inv s" by (rule exec_reach_inv[OF assms(1,2)])
  then have p: "pool_inv (es_pool s)" "\<not> m_bRunning (es_pool s)" "fst ` set (es_handed s) \<subseteq> set (accepted (es_pool s))"
    and g: "set (es_drained s) \<subseteq> set (es_handed s)" "set (granted (es_gate s)) \<union> set (es_dropped s) \<subseteq> set (late s)"
      "submitted (es_gate s) = admitted (es_gate s) @ gate.m_dequeTasks (gt (es_gate s))"
      "length (es_drained s) \<le> length (admitted (es_gate s))"
    and q: "\<forall>t \<in> set (in_pool (es_gate s)). fst t \<in> set (pool.m_dequeTasks (es_pool s)) \<or> running (fst t) (es_pool s)"
    using assms(3) by (simp_all add: exec_inv_def gate_part_ok_def pool_part_ok_def gate_inv_def)
  have t: "taken (es_pool s) = accepted (es_pool s)" "\<forall>w. wpc (es_pool s) w = WkNone"
    "pool.m_dequeTasks (es_pool s) = []"
    using p(1,2) by (simp_all add: pool_inv_defs)
  then have "in_pool (es_gate s) = []" using q by (cases "in_pool (es_gate s)") (auto simp: running_def)
  moreover have "set (gate.m_dequeTasks (gt (es_gate s))) \<subseteq> set (late s)" using g(3,4) by (simp add: late_def)
  ultimately show ?thesis using p(3) g(1,2) t assms(3) by (auto simp: submit_check_def post_direct_def m_bStopped_in_def)
qed

subsection \<open>Drain returns\<close>

text \<open>The work that is left, for \<open>N\<close> workers: a hand-over may send a notification to each of
  them.\<close>

definition pc_rank :: "worker_pc \<Rightarrow> nat" where
  "pc_rank q = (case q of WkTop \<Rightarrow> 2 | WkSpin \<Rightarrow> 1 | WkWoken \<Rightarrow> 1 | WkRun t \<Rightarrow> 3 | _ \<Rightarrow> 0)"

definition pool_work :: "pool \<Rightarrow> nat" where
  "pool_work p = 4 * length (pool.m_dequeTasks p) + 2 * notifies p + total (pool.m_nThreadCount p) (\<lambda>w. pc_rank (wpc p w))"

definition exec_work :: "exec_sys \<Rightarrow> nat" where
  "exec_work s = (let N = pool.m_nThreadCount (es_pool s); g = es_gate s
     in (2 * N + 9) * length (gate.m_dequeTasks (gt g)) + (2 * N + 8) * length (granted g)
        + length (in_pool g) + pool_work (es_pool s))"

lemma pc_rank_simps [simp]:
  "pc_rank WkNone = 0" "pc_rank WkTop = 2" "pc_rank WkSpin = 1" "pc_rank WkWait = 0" "pc_rank WkWoken = 1"
  "pc_rank (WkRun t) = 3" "pc_rank WkExit = 0"
  by (simp_all add: pc_rank_def)

lemma pool_work_set_pc:
  "w < pool.m_nThreadCount p \<Longrightarrow> pool_work (set_pc w q p) + pc_rank (wpc p w) = pool_work p + pc_rank q"
proof -
  assume w: "w < pool.m_nThreadCount p"
  have "(\<lambda>v. pc_rank (if v = w then q else wpc p v)) = (\<lambda>v. pc_rank (wpc p v))(w := pc_rank q)" by auto
  then show ?thesis
    using total_upd[OF w, of "\<lambda>v. pc_rank (wpc p v)" "pc_rank q"]
    by (simp add: pool_work_def set_pc_def fun_upd_def)
qed

lemma pool_work_fields [simp]:
  "pool_work (p\<lparr>m_nIdleWorkers := x\<rparr>) = pool_work p"
  by (simp add: pool_work_def)

lemma pool_work_take:
  assumes w: "w < pool.m_nThreadCount p" and pc: "0 < pc_rank (wpc p w)"
  shows "pool_work (exit_or_take w b p) < pool_work p"
proof (cases "pool.m_dequeTasks p")
  case Nil
  let ?p = "if b then p\<lparr>m_nIdleWorkers := m_nIdleWorkers p - 1\<rparr> else p"
  have "pool_work (set_pc w WkExit ?p) + pc_rank (wpc p w) = pool_work p"
    using pool_work_set_pc[of w ?p WkExit] w by (cases b) simp_all
  with Nil pc show ?thesis by (simp add: exit_or_take_def)
next
  case (Cons t rest)
  let ?p = "(if b then p\<lparr>m_nIdleWorkers := m_nIdleWorkers p - 1\<rparr> else p)
      \<lparr>pool.m_dequeTasks := rest, m_nPending := m_nPending p - 1, taken := taken p @ [t]\<rparr>"
  have "pool_work ?p + 4 = pool_work p" using Cons by (simp add: pool_work_def)
  moreover have "pool_work (set_pc w (WkRun t) ?p) + pc_rank (wpc p w) = pool_work ?p + 3"
    using pool_work_set_pc[of w ?p "WkRun t"] w by (cases b) simp_all
  ultimately show ?thesis using Cons pc by (simp add: exit_or_take_def)
qed

lemma worker_step_work:
  assumes "worker_step p p'"
  shows "pool_work p' < pool_work p \<and> pool.m_nThreadCount p' = pool.m_nThreadCount p"
proof
  show "pool.m_nThreadCount p' = pool.m_nThreadCount p"
    using assms by (cases rule: worker_step.cases)
      (simp_all add: notify_worker_def notify_nobody_def worker_top_def worker_relock_def exit_or_take_def
        set_pc_def Let_def split: list.split)
  from assms show "pool_work p' < pool_work p"
  proof (cases rule: worker_step.cases)
    case (notify w)
    have "pool_work (p\<lparr>notifies := notifies p - 1\<rparr>) + 2 = pool_work p" using notify(2) by (simp add: pool_work_def)
    with notify pool_work_set_pc[of w "p\<lparr>notifies := notifies p - 1\<rparr>" WkWoken]
    show ?thesis by (simp add: notify_worker_def)
  next
    case lost
    then show ?thesis by (simp add: notify_nobody_def pool_work_def)
  next
    case (top w)
    have "pool_work (set_pc w WkSpin (p\<lparr>m_nIdleWorkers := m_nIdleWorkers p + 1\<rparr>)) < pool_work p"
      using pool_work_set_pc[of w "p\<lparr>m_nIdleWorkers := m_nIdleWorkers p + 1\<rparr>" WkSpin] top by (simp)
    with top pool_work_take[of w p False] show ?thesis by (simp add: worker_top_def)
  next
    case (relock w)
    have rank: "pc_rank (wpc p w) = 1" using relock(3) by (auto simp:)
    have "pool_work (set_pc w WkWait p) < pool_work p"
      using pool_work_set_pc[of w p WkWait] relock(2) rank by (simp)
    with relock rank pool_work_take[of w p True] show ?thesis by (simp add: worker_relock_def)
  qed
qed

lemma submit_work:
  assumes "pool_inv p"
  shows "pool_work (snd (ThreadPool.Submit t p)) \<le> pool_work p + 2 * pool.m_nThreadCount p + 6
    \<and> pool.m_nThreadCount (snd (ThreadPool.Submit t p)) = pool.m_nThreadCount p"
proof -
  have "m_nIdleWorkers p \<le> pool.m_nThreadCount p"
  proof -
    have "n_idle N f \<le> N" for N f
    proof -
      have "(\<Sum>i<N. idle_pc (f i)) \<le> (\<Sum>i<N. 1)" by (intro sum_mono) (simp add: idle_pc_def)
      then show ?thesis by (simp add: n_idle_def total_def)
    qed
    then show ?thesis using assms by (simp add: pool_inv_defs)
  qed
  then have "wakeups p \<le> 1 + pool.m_nThreadCount p" by (auto simp: wakeups_def Let_def)
  then show ?thesis by (simp add: ThreadPool.Submit_def pool_work_def)
qed

lemma notify_drain_fields [simp]:
  "exec_work (notify_drain s) = exec_work s" "es_gate (notify_drain s) = es_gate s" "es_pool (notify_drain s) = es_pool s"
  by (simp_all add: notify_drain_def exec_work_def Let_def)

lemma notify_drain_phase:
  "es_phase (notify_drain s) = es_phase s \<or> es_phase s = DrainWaits \<and> es_phase (notify_drain s) = DrainWoken"
  by (simp add: notify_drain_def)

lemma exec_internal_work:
  assumes "exec_internal s s'" and "exec_inv s"
  shows "exec_work s' < exec_work s"
  using assms
proof (induction rule: exec_internal.induct)
  case (hand t s)
  let ?N = "pool.m_nThreadCount (es_pool s)"
  have "pool_inv (es_pool s)" using hand(2) by (simp add: exec_inv_def pool_part_ok_def)
  note w = submit_work[OF this, of "fst t"]
  have len: "0 < length (granted (es_gate s))" using hand(1) by (cases "granted (es_gate s)") auto
  then obtain k where "length (granted (es_gate s)) = Suc k" by (metis gr0_implies_Suc)
  with hand(1) have "length (remove1 t (granted (es_gate s))) = k" "length (granted (es_gate s)) = Suc k"
    by (simp_all add: length_remove1)
  then show ?case
    using w by (auto simp: hand_over_def pool_submit_def split_beta exec_work_def Let_def do_hand_over_def
        do_drop_def ReturnSlot_def ThreadPool.Submit_def)
next
  case (worker s p)
  from worker_step_work[OF worker(1)] show ?case by (simp add: exec_work_def Let_def)
next
  case (exit t s)
  have inv: "gate_inv (es_gate s)" using exit(3) by (simp add: exec_inv_def gate_part_ok_def)
  from do_exit_flow[OF inv, of t] obtain vec where
    f: "granted (do_exit t (es_gate s)) = granted (es_gate s) @ vec" "admitted (do_exit t (es_gate s)) = admitted (es_gate s) @ vec"
      "submitted (do_exit t (es_gate s)) = submitted (es_gate s)" "in_pool (do_exit t (es_gate s)) = remove1 t (in_pool (es_gate s))" by blast
  have "gate.m_dequeTasks (gt (es_gate s)) = vec @ gate.m_dequeTasks (gt (do_exit t (es_gate s)))"
    using inv gate_inv_exit[OF inv exit(1)] f(2,3) by (auto simp: gate_inv_def)
  moreover have "Suc (length (remove1 t (in_pool (es_gate s)))) = length (in_pool (es_gate s))"
    using exit(1) by (simp add: length_remove1) (metis Suc_pred length_pos_if_in_set)
  ultimately show ?case by (simp add: exec_work_def Let_def task_exit_def f algebra_simps)
next
  case (return w s i)
  have "pool_work (set_pc w WkTop (es_pool s)) < pool_work (es_pool s)"
    using pool_work_set_pc[OF return(1), of WkTop] return(2) by simp
  then show ?case by (simp add: exec_work_def Let_def task_return_def) (simp add: set_pc_def)
qed

text \<open>With tasks in its queue the pool has a step to make, or a task is running.\<close>

lemma queue_progress:
  assumes p: "pool_inv p" and q: "pool.m_dequeTasks p \<noteq> []"
  shows "(\<exists>p'. worker_step p p') \<or> (\<exists>w i. w < pool.m_nThreadCount p \<and> wpc p w = WkRun i)"
proof -
  consider "0 < notifies p" "\<exists>w < pool.m_nThreadCount p. wpc p w = WkWait"
    | "0 < notifies p" "\<forall>w < pool.m_nThreadCount p. wpc p w \<noteq> WkWait"
    | w where "w < pool.m_nThreadCount p" "awake (wpc p w)"
    using p q by (auto simp: pool_inv_defs)
  then show ?thesis
  proof cases
    case 1
    then show ?thesis by (blast intro: worker_step.notify)
  next
    case 2
    then show ?thesis by (blast intro: worker_step.lost)
  next
    case (3 w)
    then consider "wpc p w = WkTop" | "wpc p w \<in> {WkSpin, WkWoken}" | i where "wpc p w = WkRun i"
      by (auto simp: awake_def)
    then show ?thesis by cases (use 3(1) in \<open>blast intro: worker_step.top worker_step.relock\<close>)+
  qed
qed

text \<open>A worker that runs a task can end it or return from it.\<close>

lemma run_progress:
  assumes "w < pool.m_nThreadCount (es_pool s)" and "wpc (es_pool s) w = WkRun i"
  shows "\<exists>s'. exec_internal s s'"
proof (cases "i \<in> fst ` set (in_pool (es_gate s))")
  case True
  then obtain u where u: "u \<in> set (in_pool (es_gate s))" "fst u = i" by auto
  have "running (fst u) (es_pool s)" using assms u(2) by (auto simp: running_def)
  with u(1) show ?thesis by (blast intro: exec_internal.exit)
next
  case False
  with assms show ?thesis by (blast intro: exec_internal.return)
qed

text \<open>As long as the gate is not idle there is work to do.\<close>

lemma busy_progress:
  assumes inv: "exec_inv s" and serving: "serving_phase (es_phase s)" and busy: "\<not> IsIdleLocked (gt (es_gate s))"
  shows "\<exists>s'. exec_internal s s'"
proof -
  have g: "gate_inv (es_gate s)" "front_blocked (gt (es_gate s))" and p: "pool_inv (es_pool s)"
    and q: "\<forall>t \<in> set (in_pool (es_gate s)). fst t \<in> set (pool.m_dequeTasks (es_pool s)) \<or> running (fst t) (es_pool s)"
    using inv serving by (simp_all add: exec_inv_def gate_part_ok_def pool_part_ok_def)
  have "holders (es_gate s) \<noteq> []"
  proof
    assume none: "holders (es_gate s) = []"
    then have "gate.m_dequeTasks (gt (es_gate s)) = []" using front_blocked_holder[OF g] by blast
    with none busy g(1) show False by (auto simp: IsIdleLocked_def gate_inv_def split: if_splits)
  qed
  then consider t where "t \<in> set (granted (es_gate s))" | t where "t \<in> set (in_pool (es_gate s))"
    by (cases "granted (es_gate s)"; cases "in_pool (es_gate s)") (auto simp: holders_def)
  then show ?thesis
  proof cases
    case 1
    then show ?thesis by (blast intro: exec_internal.hand)
  next
    case (2 t)
    with q consider "pool.m_dequeTasks (es_pool s) \<noteq> []" | "running (fst t) (es_pool s)" by fastforce
    then show ?thesis
    proof cases
      case 1
      from queue_progress[OF p 1] show ?thesis using run_progress exec_internal.worker by blast
    next
      case 2
      then show ?thesis using run_progress by (auto simp: running_def)
    qed
  qed
qed

text \<open>Along a run without clients the phase only moves from asleep to woken, and nothing is
  submitted.\<close>

lemma internal_phase:
  "exec_internal s s' \<Longrightarrow> es_phase s' = es_phase s \<or> es_phase s = DrainWaits \<and> es_phase s' = DrainWoken"
proof (induction rule: exec_internal.induct)
  case (hand t s)
  show ?case
    using notify_drain_phase[of "s\<lparr>es_gate := do_drop t (es_gate s), es_pool := snd (pool_submit (es_pool s) t),
      es_dropped := es_dropped s @ [t]\<rparr>"] by (auto simp: hand_over_def split_beta)
next
  case (exit t s)
  show ?case using notify_drain_phase[of "s\<lparr>es_gate := do_exit t (es_gate s)\<rparr>"] by (simp add: task_exit_def)
qed (simp_all add: task_return_def)

lemma internal_submitted: "exec_internal s s' \<Longrightarrow> exec_inv s \<Longrightarrow> submitted (es_gate s') = submitted (es_gate s)"
proof (induction rule: exec_internal.induct)
  case (exit t s)
  then have "gate_inv (es_gate s)" by (simp add: exec_inv_def gate_part_ok_def)
  from do_exit_flow[OF this, of t] show ?case by (auto simp: task_exit_def)
qed (auto simp: hand_over_def split_beta do_hand_over_def do_drop_def task_return_def)

definition draining :: "exec_sys \<Rightarrow> bool" where
  "draining s \<longleftrightarrow> es_phase s \<in> {Marked, DrainWaits, DrainWoken}"

definition phase_rank :: "stop_phase \<Rightarrow> nat" where
  "phase_rank ph = (if ph = Marked then 3 else if ph = DrainWoken then 2 else if ph = DrainWaits then 1 else 0)"

definition drain_work :: "exec_sys \<Rightarrow> nat" where
  "drain_work s = 4 * exec_work s + phase_rank (es_phase s)"

lemma drain_check_work:
  "exec_work (drain_check s) = exec_work s" "es_phase (drain_check s) \<in> {DrainWaits, Drained}"
  "exec_work (stop_drain s) = exec_work s" "es_phase (stop_drain s) \<in> {DrainWaits, Drained}"
  "submitted (es_gate (drain_check s)) = submitted (es_gate s)" "submitted (es_gate (stop_drain s)) = submitted (es_gate s)"
  by (auto simp: drain_check_def stop_drain_def exec_work_def Let_def Drain_leave_def Drain_register_def)

lemma drain_step_work: "drain_step s s' \<Longrightarrow> exec_inv s \<Longrightarrow> drain_work s' < drain_work s"
proof (induction rule: drain_step.induct)
  case (inside s s')
  have "exec_work s' < exec_work s" by (rule exec_internal_work[OF inside])
  moreover have "phase_rank (es_phase s') \<le> phase_rank (es_phase s) + 1"
    using internal_phase[OF inside(1)] by (auto simp: phase_rank_def)
  ultimately show ?case by (simp add: drain_work_def)
next
  case (enter s)
  then show ?case using drain_check_work(3,4)[of s] by (auto simp: drain_work_def phase_rank_def)
next
  case (again s)
  then show ?case using drain_check_work(1,2)[of s] by (auto simp: drain_work_def phase_rank_def)
qed

lemma drain_step_exec: "drain_step s s' \<Longrightarrow> exec_step s s'"
  by (induction rule: drain_step.induct) (auto intro: exec_step.internal exec_step.drain exec_step.drain2)

text \<open>The thread asleep in \<open>Drain\<close> sleeps on a busy gate, so that somebody else has a step.\<close>

lemma drain_progress:
  assumes "exec_inv s" and "drain_part_ok s" and "draining s"
  shows "\<exists>s'. drain_step s s'"
proof (cases "es_phase s = DrainWaits")
  case True
  with assms(1,2) busy_progress[of s] show ?thesis by (auto simp: drain_part_ok_def intro: drain_step.inside)
next
  case False
  with assms(3) show ?thesis by (auto simp: draining_def intro: drain_step.enter drain_step.again)
qed

lemma drain_step_phase:
  "drain_step s s' \<Longrightarrow> draining s \<Longrightarrow> draining s' \<or> es_phase s' = Drained \<and> es_drained s' = submitted (es_gate s)
     \<and> IsIdleLocked (gt (es_gate s'))"
proof (induction rule: drain_step.induct)
  case (inside s s')
  then show ?case using internal_phase[OF inside(1)] by (auto simp: draining_def)
next
  case (enter s)
  show ?case by (simp add: draining_def stop_drain_def drain_check_def)
next
  case (again s)
  show ?case by (simp add: draining_def drain_check_def)
qed

lemma drain_step_submitted: "drain_step s s' \<Longrightarrow> exec_inv s \<Longrightarrow> submitted (es_gate s') = submitted (es_gate s)"
  by (induction rule: drain_step.induct) (simp_all add: internal_submitted drain_check_work(5,6))

lemma reach_drained:
  "exec_inv s \<Longrightarrow> drain_part_ok s \<Longrightarrow> draining s \<Longrightarrow>
     \<exists>s'. drain_step\<^sup>*\<^sup>* s s' \<and> es_phase s' = Drained \<and> es_drained s' = submitted (es_gate s)
       \<and> IsIdleLocked (gt (es_gate s'))"
proof (induction "drain_work s" arbitrary: s rule: less_induct)
  case less
  from drain_progress[OF less(2-4)] obtain s1 where st: "drain_step s s1" by blast
  note inv = exec_inv_step[OF drain_step_exec[OF st] less(2)] drain_part_step[OF drain_step_exec[OF st] less(2,3)]
  show ?case
  proof (cases "draining s1")
    case True
    from less(1)[OF drain_step_work[OF st less(2)] inv True] obtain s' where
      "drain_step\<^sup>*\<^sup>* s1 s'" "es_phase s' = Drained" "es_drained s' = submitted (es_gate s1)" "IsIdleLocked (gt (es_gate s'))"
      by blast
    with st drain_step_submitted[OF st less(2)] show ?thesis by (metis converse_rtranclp_into_rtranclp)
  next
    case False
    with drain_step_phase[OF st less(4)] st show ?thesis by blast
  qed
qed

lemma drain_run_invs:
  "drain_step\<^sup>*\<^sup>* s s' \<Longrightarrow> exec_inv s \<Longrightarrow> drain_part_ok s \<Longrightarrow> exec_inv s' \<and> drain_part_ok s'"
  by (induction rule: rtranclp_induct) (blast dest: drain_step_exec intro: exec_inv_step drain_part_step)+

text \<open>C13. \<open>Drain\<close> returns and no wakeup is lost: when no client interferes and the tasks end, then in
  every state of every run, as long as \<open>Drain\<close> has not returned, some thread has a step to make
  (a thread asleep on the condition variable is never left alone with an idle gate), and every step
  reduces the work that is left; so \<open>Drain\<close> comes to return, with an idle gate and
  everything that had been submitted run.\<close>

theorem drain_returns:
  assumes "exec_reach n s" and "0 < n" and "draining s"
  shows "(\<forall>s1. drain_step\<^sup>*\<^sup>* s s1 \<longrightarrow> draining s1 \<longrightarrow>
      (\<exists>s2. drain_step s1 s2) \<and> (\<forall>s2. drain_step s1 s2 \<longrightarrow> drain_work s2 < drain_work s1))
    \<and> (\<exists>s'. drain_step\<^sup>*\<^sup>* s s' \<and> es_phase s' = Drained \<and> es_drained s' = submitted (es_gate s)
         \<and> IsIdleLocked (gt (es_gate s')))"
proof -
  from exec_reach_invs[OF assms(1,2)] have inv: "exec_inv s" "drain_part_ok s" by auto
  then show ?thesis using drain_progress drain_step_work drain_run_invs reach_drained[OF inv assms(3)] by blast
qed

subsection \<open>Concrete runs\<close>

datatype exec_cmd =
    XCheck gtask | XEnqueue gtask | XHand gtask | XTop nat | XExit gtask | XReturn nat
  | XClose | XMark | XDrain | XDrainAgain | XPool | XNotifyAll | XJoined

fun exec_do :: "exec_cmd \<Rightarrow> exec_sys \<Rightarrow> exec_sys" where
  "exec_do (XCheck t) s = submit_check t s"
| "exec_do (XEnqueue t) s = submit_enqueue t s"
| "exec_do (XHand t) s = hand_over t s"
| "exec_do (XTop w) s = s\<lparr>es_pool := worker_top w (es_pool s)\<rparr>"
| "exec_do (XExit t) s = task_exit t s"
| "exec_do (XReturn w) s = task_return w s"
| "exec_do XClose s = stop_close s"
| "exec_do XMark s = stop_mark s"
| "exec_do XDrain s = stop_drain s"
| "exec_do XDrainAgain s = drain_check s"
| "exec_do XPool s = stop_pool s"
| "exec_do XNotifyAll s = s\<lparr>es_pool := Stop_notify_all (es_pool s)\<rparr>"
| "exec_do XJoined s = stop_joined s"

definition pc_in :: "nat \<Rightarrow> worker_pc \<Rightarrow> exec_sys \<Rightarrow> bool" where
  "pc_in w q s \<longleftrightarrow> w < pool.m_nThreadCount (es_pool s) \<and> wpc (es_pool s) w = q"

text \<open>A worker is given by its number where it runs a task; worker 0 is the only one.\<close>

fun exec_can :: "exec_cmd \<Rightarrow> exec_sys \<Rightarrow> bool" where
  "exec_can (XCheck t) s = (fst t \<notin> set (es_used s))"
| "exec_can (XEnqueue t) s = (t \<in> set (es_early s))"
| "exec_can (XHand t) s = (t \<in> set (granted (es_gate s)))"
| "exec_can (XTop w) s = pc_in w WkTop s"
| "exec_can (XExit t) s = (t \<in> set (in_pool (es_gate s)) \<and> pc_in 0 (WkRun (fst t)) s)"
| "exec_can (XReturn w) s = (w < pool.m_nThreadCount (es_pool s) \<and>
     (case wpc (es_pool s) w of WkRun i \<Rightarrow> i \<notin> fst ` set (in_pool (es_gate s)) | _ \<Rightarrow> False))"
| "exec_can XClose s = (es_phase s = Serving)"
| "exec_can XMark s = (es_phase s = GateClosed)"
| "exec_can XDrain s = (es_phase s = Marked)"
| "exec_can XDrainAgain s = (es_phase s = DrainWoken)"
| "exec_can XPool s = (es_phase s = Drained)"
| "exec_can XNotifyAll s = (es_phase s = PoolStopping \<and> stopping_pc (es_pool s) = StopNotify)"
| "exec_can XJoined s = (es_phase s = PoolStopping \<and> stopping_pc (es_pool s) = StopJoin
     \<and> pool.m_nThreadCount (es_pool s) = 1 \<and> wpc (es_pool s) 0 = WkExit)"

lemma exec_can_exit:
  "(i, k) \<in> set (in_pool (es_gate s)) \<Longrightarrow> 0 < pool.m_nThreadCount (es_pool s) \<Longrightarrow> wpc (es_pool s) 0 = WkRun i \<Longrightarrow>
     exec_step s (task_exit (i, k) s)"
  by (rule exec_step.internal[OF exec_internal.exit]) (auto simp: running_def)

lemma exec_can_step: "exec_can c s \<Longrightarrow> exec_step s (exec_do c s)"
  by (cases c) (auto simp: pc_in_def running_def split: worker_pc.splits
      intro: exec_step.intros exec_step.internal[OF exec_internal.hand] exec_step.internal[OF exec_internal.return]
        exec_can_exit exec_step.internal[OF exec_internal.worker[OF worker_step.top]])

fun exec_script_ok :: "exec_cmd list \<Rightarrow> exec_sys \<Rightarrow> bool" where
  "exec_script_ok [] s \<longleftrightarrow> True"
| "exec_script_ok (c # cs) s \<longleftrightarrow> exec_can c s \<and> exec_script_ok cs (exec_do c s)"

lemma exec_script_reach: "exec_reach n s \<Longrightarrow> exec_script_ok cs s \<Longrightarrow> exec_reach n (fold exec_do cs s)"
  by (induction cs arbitrary: s) (auto intro: exec_next exec_can_step)

definition demo_stopping :: exec_sys where
  "demo_stopping = fold exec_do [XCheck (7, kWrite), XCheck (8, kRead), XEnqueue (7, kWrite), XEnqueue (8, kRead),
     XClose, XMark, XDrain] (exec_init 1)"

definition demo_exec_stopped :: exec_sys where
  "demo_exec_stopped = fold exec_do [XHand (7, kWrite), XTop 0, XExit (7, kWrite), XDrainAgain, XHand (8, kRead),
     XReturn 0, XTop 0, XExit (8, kRead), XReturn 0, XDrainAgain, XPool, XNotifyAll, XTop 0, XJoined] demo_stopping"

lemma demo_stopping_reach: "exec_reach 1 demo_stopping"
  unfolding demo_stopping_def by (rule exec_script_reach[OF exec_start]) code_simp

lemma demo_exec_stopped_reach: "exec_reach 1 demo_exec_stopped"
  unfolding demo_exec_stopped_def by (rule exec_script_reach[OF demo_stopping_reach]) code_simp

theorem executor_stop_graceful_witness:
  "es_phase demo_exec_stopped = Stopped \<and> es_drained demo_exec_stopped = [(7, kWrite), (8, kRead)]
   \<and> fst ` set (es_drained demo_exec_stopped) \<subseteq> set (taken (es_pool demo_exec_stopped))"
proof -
  have s: "es_phase demo_exec_stopped = Stopped" "es_drained demo_exec_stopped = [(7, kWrite), (8, kRead)]" by code_simp+
  then show ?thesis
    using executor_stop_graceful[OF demo_exec_stopped_reach _ s(1), THEN conjunct2, THEN conjunct2, THEN conjunct1] by simp
qed

theorem drain_returns_witness:
  "es_phase demo_stopping = DrainWaits
   \<and> (\<exists>s'. drain_step\<^sup>*\<^sup>* demo_stopping s' \<and> es_phase s' = Drained \<and> es_drained s' = [(7, kWrite), (8, kRead)])"
proof -
  have "es_phase demo_stopping = DrainWaits" "submitted (es_gate demo_stopping) = [(7, kWrite), (8, kRead)]"
    by code_simp+
  then show ?thesis using drain_returns[OF demo_stopping_reach, THEN conjunct2] by (auto simp: draining_def)
qed

text \<open>The window that remains: a submission whose early check passed before \<open>Stop\<close> is enqueued
  after \<open>Stop\<close> has returned.  \<open>Submit\<close> reports it as accepted, the pool refuses it and the task
  is dropped; nothing will run it or settle the layer it was to run.\<close>

definition demo_late :: exec_sys where
  "demo_late = fold exec_do [XCheck (7, kWrite), XClose, XMark, XDrain, XPool, XNotifyAll, XTop 0, XJoined,
     XEnqueue (7, kWrite), XHand (7, kWrite)] (exec_init 1)"

theorem accepted_task_dropped:
  "exec_reach 1 demo_late \<and> es_phase demo_late = Stopped \<and> submitted (es_gate demo_late) = [(7, kWrite)]
   \<and> es_dropped demo_late = [(7, kWrite)] \<and> accepted (es_pool demo_late) = []"
proof -
  have "exec_reach 1 demo_late"
    unfolding demo_late_def by (rule exec_script_reach[OF exec_start]) code_simp
  moreover have "es_phase demo_late = Stopped" "submitted (es_gate demo_late) = [(7, kWrite)]"
    "es_dropped demo_late = [(7, kWrite)]" "accepted (es_pool demo_late) = []"
    by code_simp+
  ultimately show ?thesis by blast
qed

end
