(* ===== verification/TimerManager.thy ===== *)
theory TimerManager
  imports StdMap
begin

text \<open>
  \<open>CTimerManager\<close> (\<open>src/Common/Timer/TimerManager.cpp\<close>) over its io thread.  A timer object is
  a number, in the order of creation; the asynchronous waits are those of \<open>asio\<close>, used as its
  documentation says: a wait on a timer ends once, with success when the time has come or with
  \<open>operation_aborted\<close> when the timer is cancelled first; a wait whose time has come is not touched
  by a later cancellation; its handler runs on the io thread while the context is not stopped,
  and handlers that have not run when it stops run after a restart.  A step is one critical
  section, the expiry of a timer, the start of a handler or of its part behind the callback.
  How long a wait takes is not modelled, only the delay it was set up with.
\<close>

datatype wait_state = Waiting | Expired | Aborted

record wait =
  w_timer :: nat
  w_id :: u64
  w_delay :: int
  w_interval :: int
  w_callback :: "nat option"    \<comment> \<open>\<open>None\<close> is an empty function\<close>
  w_state :: wait_state

datatype io_pc = IoNone | IoIdle | IoAfterCallback wait

datatype stop_pc = NotStopping | StopIo | StopJoin

record tmgr =
  m_nNextId :: u64
  m_bRunning :: bool
  m_mapTimers :: "(u64, nat) smap"
  m_mapNamedTimers :: "(string, u64) smap"
  io_waits :: "wait list"
  io_stopped :: bool
  io_thread :: io_pc
  stop_at :: stop_pc
  next_timer :: nat
  fired :: "nat list"           \<comment> \<open>the timers whose callback was due, in that order\<close>

definition kInvalidTimerId :: u64 where
  "kInvalidTimerId = 0"

definition CTimerManager :: tmgr where
  "CTimerManager = \<lparr>m_nNextId = 1, m_bRunning = False, m_mapTimers = [], m_mapNamedTimers = [],
     io_waits = [], io_stopped = False, io_thread = IoNone, stop_at = NotStopping, next_timer = 0, fired = []\<rparr>"

definition Start :: "tmgr \<Rightarrow> bool \<times> tmgr" where
  "Start s = (if m_bRunning s then (False, s)
              else (True, s\<lparr>io_stopped := False, m_bRunning := True, io_thread := IoIdle\<rparr>))"

text \<open>\<open>Schedule\<close>: \<open>async_wait\<close> on the timer, set to expire after \<open>nDelay\<close>.\<close>

definition Schedule :: "nat \<Rightarrow> u64 \<Rightarrow> int \<Rightarrow> int \<Rightarrow> nat option \<Rightarrow> tmgr \<Rightarrow> tmgr" where
  "Schedule pTimer nId nDelay nIntervalMs fnCallback s =
     s\<lparr>io_waits := io_waits s @ [\<lparr>w_timer = pTimer, w_id = nId, w_delay = nDelay, w_interval = nIntervalMs,
                                  w_callback = fnCallback, w_state = Waiting\<rparr>]\<rparr>"

definition AddTimerInternal :: "int \<Rightarrow> int \<Rightarrow> nat option \<Rightarrow> tmgr \<Rightarrow> u64 \<times> tmgr" where
  "AddTimerInternal nDelayMs nIntervalMs fnCallback s =
     (if \<not> m_bRunning s then (kInvalidTimerId, s)
      else let nId = m_nNextId s;
               pTimer = next_timer s;
               nDelay = (if nIntervalMs > 0 then nIntervalMs else nDelayMs)
           in (nId, Schedule pTimer nId nDelay nIntervalMs fnCallback
                 (s\<lparr>m_nNextId := nId + 1, next_timer := pTimer + 1,
                    m_mapTimers := sm_put nId pTimer (m_mapTimers s)\<rparr>)))"

definition AddTimer :: "int \<Rightarrow> nat option \<Rightarrow> tmgr \<Rightarrow> u64 \<times> tmgr" where
  "AddTimer nDelayMs fnCallback s = AddTimerInternal nDelayMs 0 fnCallback s"

definition AddPeriodicTimer :: "int \<Rightarrow> nat option \<Rightarrow> tmgr \<Rightarrow> u64 \<times> tmgr" where
  "AddPeriodicTimer nIntervalMs fnCallback s = AddTimerInternal 0 nIntervalMs fnCallback s"

text \<open>\<open>steady_timer::cancel\<close>.\<close>

definition abort_wait :: "nat \<Rightarrow> wait \<Rightarrow> wait" where
  "abort_wait p w = (if w_timer w = p \<and> w_state w = Waiting then w\<lparr>w_state := Aborted\<rparr> else w)"

definition cancel_timer :: "nat \<Rightarrow> tmgr \<Rightarrow> tmgr" where
  "cancel_timer p s = s\<lparr>io_waits := map (abort_wait p) (io_waits s)\<rparr>"

definition Cancel :: "u64 \<Rightarrow> tmgr \<Rightarrow> bool \<times> tmgr" where
  "Cancel nId s =
     (case sm_find (m_mapTimers s) nId of
        None \<Rightarrow> (False, s)
      | Some p \<Rightarrow> (True, (cancel_timer p s)\<lparr>m_mapTimers := sm_erase nId (m_mapTimers s)\<rparr>))"

text \<open>The second critical section of \<open>AddNamedTimer\<close>, and the call without interference.\<close>

definition name_timer :: "string \<Rightarrow> u64 \<Rightarrow> tmgr \<Rightarrow> tmgr" where
  "name_timer strName nId s = s\<lparr>m_mapNamedTimers := sm_put strName nId (m_mapNamedTimers s)\<rparr>"

definition AddNamedTimer :: "string \<Rightarrow> int \<Rightarrow> nat option \<Rightarrow> tmgr \<Rightarrow> u64 \<times> tmgr" where
  "AddNamedTimer strName nIntervalMs fnCallback s =
     (let (nId, s') = AddTimerInternal 0 nIntervalMs fnCallback s
      in (nId, if nId \<noteq> kInvalidTimerId then name_timer strName nId s' else s'))"

text \<open>The first critical section of \<open>CancelNamedTimer\<close>, and the call.\<close>

definition unname_timer :: "string \<Rightarrow> tmgr \<Rightarrow> u64 option \<times> tmgr" where
  "unname_timer strName s =
     (case sm_find (m_mapNamedTimers s) strName of
        None \<Rightarrow> (None, s)
      | Some nId \<Rightarrow> (Some nId, s\<lparr>m_mapNamedTimers := sm_erase strName (m_mapNamedTimers s)\<rparr>))"

definition CancelNamedTimer :: "string \<Rightarrow> tmgr \<Rightarrow> bool \<times> tmgr" where
  "CancelNamedTimer strName s =
     (case unname_timer strName s of
        (None, s') \<Rightarrow> (False, s')
      | (Some nId, s') \<Rightarrow> Cancel nId s')"

text \<open>\<open>Stop\<close>: the critical section, the stop of the io context and the join.\<close>

definition Stop_locked :: "tmgr \<Rightarrow> tmgr" where
  "Stop_locked s =
     (if \<not> m_bRunning s then s
      else (fold cancel_timer (map snd (m_mapTimers s)) s)
             \<lparr>m_bRunning := False, m_mapTimers := [], stop_at := StopIo\<rparr>)"

definition Stop_io :: "tmgr \<Rightarrow> tmgr" where
  "Stop_io s = s\<lparr>io_stopped := True, stop_at := StopJoin\<rparr>"

definition Stop_joined :: "tmgr \<Rightarrow> tmgr" where
  "Stop_joined s = s\<lparr>io_thread := IoNone, stop_at := NotStopping\<rparr>"

definition IsRunning :: "tmgr \<Rightarrow> bool" where
  "IsRunning s \<longleftrightarrow> m_bRunning s"

text \<open>The handler: with an error it forgets the timer; otherwise it calls the callback, and then
  sets the timer up again when it is periodic and still managed, or forgets it.\<close>

definition handler_start :: "wait \<Rightarrow> tmgr \<Rightarrow> tmgr" where
  "handler_start w s =
     (if w_state w = Aborted then s\<lparr>m_mapTimers := sm_erase (w_id w) (m_mapTimers s)\<rparr>
      else s\<lparr>fired := fired s @ [w_timer w], io_thread := IoAfterCallback w\<rparr>)"

definition handler_end :: "wait \<Rightarrow> tmgr \<Rightarrow> tmgr" where
  "handler_end w s =
     (let s = s\<lparr>io_thread := IoIdle\<rparr>
      in if w_interval w > 0
         then if sm_find (m_mapTimers s) (w_id w) \<noteq> Some (w_timer w) then s
              else Schedule (w_timer w) (w_id w) (w_interval w) (w_interval w) (w_callback w) s
         else s\<lparr>m_mapTimers := sm_erase (w_id w) (m_mapTimers s)\<rparr>)"

definition take_wait :: "nat \<Rightarrow> tmgr \<Rightarrow> tmgr" where
  "take_wait j s = handler_start (io_waits s ! j) (s\<lparr>io_waits := take j (io_waits s) @ drop (Suc j) (io_waits s)\<rparr>)"

definition expire_wait :: "nat \<Rightarrow> tmgr \<Rightarrow> tmgr" where
  "expire_wait j s = s\<lparr>io_waits := (io_waits s)[j := (io_waits s ! j)\<lparr>w_state := Expired\<rparr>]\<rparr>"

inductive tm_step :: "tmgr \<Rightarrow> tmgr \<Rightarrow> bool" where
  start: "stop_at s = NotStopping \<Longrightarrow> tm_step s (snd (Start s))"
| add: "tm_step s (snd (AddTimerInternal nDelayMs nIntervalMs fnCallback s))"
| cancel: "tm_step s (snd (Cancel nId s))"
| name: "tm_step s (name_timer strName nId s)"
| unname: "tm_step s (snd (unname_timer strName s))"
| stop1: "stop_at s = NotStopping \<Longrightarrow> tm_step s (Stop_locked s)"
| stop2: "stop_at s = StopIo \<Longrightarrow> tm_step s (Stop_io s)"
| stop3: "stop_at s = StopJoin \<Longrightarrow> io_thread s = IoIdle \<Longrightarrow> tm_step s (Stop_joined s)"
| expire: "j < length (io_waits s) \<Longrightarrow> w_state (io_waits s ! j) = Waiting \<Longrightarrow> tm_step s (expire_wait j s)"
| handle: "io_thread s = IoIdle \<Longrightarrow> \<not> io_stopped s \<Longrightarrow> j < length (io_waits s) \<Longrightarrow>
    w_state (io_waits s ! j) \<noteq> Waiting \<Longrightarrow> tm_step s (take_wait j s)"
| handled: "io_thread s = IoAfterCallback w \<Longrightarrow> tm_step s (handler_end w s)"

inductive tm_reach :: "tmgr \<Rightarrow> bool" where
  tm_start: "tm_reach CTimerManager"
| tm_next: "tm_reach s \<Longrightarrow> tm_step s s' \<Longrightarrow> tm_reach s'"

subsection \<open>Counting\<close>

text \<open>The waits of a timer, and the callback of it that is running.\<close>

definition waits_of :: "nat \<Rightarrow> (wait \<Rightarrow> bool) \<Rightarrow> tmgr \<Rightarrow> nat" where
  "waits_of p P s = length (filter (\<lambda>w. w_timer w = p \<and> P w) (io_waits s))"

definition in_callback :: "nat \<Rightarrow> tmgr \<Rightarrow> nat" where
  "in_callback p s = (case io_thread s of IoAfterCallback w \<Rightarrow> if w_timer w = p then 1 else 0 | _ \<Rightarrow> 0)"

definition fires :: "nat \<Rightarrow> tmgr \<Rightarrow> nat" where
  "fires p s = count_list (fired s) p"

definition not_aborted :: "wait \<Rightarrow> bool" where
  "not_aborted w \<longleftrightarrow> w_state w \<noteq> Aborted"

text \<open>A timer that has an own identifier, and is known by it.\<close>

definition own_id :: "nat \<Rightarrow> tmgr \<Rightarrow> u64 \<Rightarrow> bool" where
  "own_id p s i \<longleftrightarrow> p < next_timer s \<and> i = of_nat (Suc p)"

definition tm_inv :: "tmgr \<Rightarrow> bool" where
  "tm_inv s \<longleftrightarrow> m_nNextId s = of_nat (Suc (next_timer s))
     \<and> (\<forall>i p. sm_find (m_mapTimers s) i = Some p \<longrightarrow> own_id p s i \<and> waits_of p not_aborted s + in_callback p s = 1)
     \<and> (\<forall>w \<in> set (io_waits s). own_id (w_timer w) s (w_id w))
     \<and> (\<forall>w. io_thread s = IoAfterCallback w \<longrightarrow> own_id (w_timer w) s (w_id w))
     \<and> (\<forall>p. waits_of p (\<lambda>w. True) s + in_callback p s \<le> 1)
     \<and> (\<forall>w \<in> set (io_waits s). w_state w = Waiting \<longrightarrow> sm_find (m_mapTimers s) (w_id w) = Some (w_timer w))"

lemma id_unat: "p < 2 ^ 64 - 1 \<Longrightarrow> unat (of_nat (Suc p) :: u64) = Suc p"
  by (intro of_nat_inverse[OF refl]) simp

lemma own_id_inj: "next_timer s < 2 ^ 64 \<Longrightarrow> own_id p s i \<Longrightarrow> own_id q s i \<Longrightarrow> p = q"
  using id_unat[of p] id_unat[of q] by (simp add: own_id_def)

lemma fresh_id: "next_timer s < 2 ^ 64 - 1 \<Longrightarrow> \<not> own_id p s (of_nat (Suc (next_timer s)))"
  using id_unat[of p] id_unat[of "next_timer s"] by (auto simp: own_id_def)

lemma waits_simps [simp]:
  "waits_of p P (s\<lparr>m_mapTimers := m\<rparr>) = waits_of p P s" "waits_of p P (s\<lparr>m_bRunning := b\<rparr>) = waits_of p P s"
  "waits_of p P (s\<lparr>io_thread := pc\<rparr>) = waits_of p P s" "waits_of p P (s\<lparr>fired := f\<rparr>) = waits_of p P s"
  "in_callback p (s\<lparr>m_mapTimers := m\<rparr>) = in_callback p s" "in_callback p (s\<lparr>io_waits := ws\<rparr>) = in_callback p s"
  "in_callback p (s\<lparr>io_thread := IoIdle\<rparr>) = 0" "in_callback p (s\<lparr>io_thread := IoNone\<rparr>) = 0"
  "in_callback p (s\<lparr>io_thread := IoAfterCallback w\<rparr>) = (if w_timer w = p then 1 else 0)"
  by (simp_all add: waits_of_def in_callback_def)

lemma waits_snoc:
  "waits_of p P (s\<lparr>io_waits := io_waits s @ [w]\<rparr>) = waits_of p P s + (if w_timer w = p \<and> P w then 1 else 0)"
  by (simp add: waits_of_def)

lemma waits_remove:
  assumes "j < length (io_waits s)"
  shows "waits_of p P (s\<lparr>io_waits := take j (io_waits s) @ drop (Suc j) (io_waits s)\<rparr>)
      + (if w_timer (io_waits s ! j) = p \<and> P (io_waits s ! j) then 1 else 0) = waits_of p P s"
proof -
  have "filter Q (io_waits s) = filter Q (take j (io_waits s)) @ filter Q (io_waits s ! j # drop (Suc j) (io_waits s))" for Q
    by (simp only: Cons_nth_drop_Suc[OF assms] filter_append[symmetric] append_take_drop_id)
  then show ?thesis by (simp add: waits_of_def)
qed

lemma waits_cong:
  assumes "length (io_waits s') = length (io_waits s)"
    and "\<And>j. j < length (io_waits s) \<Longrightarrow> w_timer (io_waits s' ! j) = w_timer (io_waits s ! j) \<and> (w_timer (io_waits s ! j) = p \<longrightarrow> P (io_waits s' ! j) = P (io_waits s ! j))"
  shows "waits_of p P s' = waits_of p P s"
proof -
  have "list_all2 (\<lambda>w' w. w_timer w' = w_timer w \<and> (w_timer w = p \<longrightarrow> P w' = P w)) (io_waits s') (io_waits s)"
    using assms by (simp add: list_all2_conv_all_nth)
  then have "length (filter (\<lambda>w. w_timer w = p \<and> P w) (io_waits s')) = length (filter (\<lambda>w. w_timer w = p \<and> P w) (io_waits s))"
    by (induction rule: list_all2_induct) auto
  then show ?thesis by (simp add: waits_of_def)
qed

lemma abort_wait_simps [simp]: "w_timer (abort_wait p w) = w_timer w" "w_id (abort_wait p w) = w_id w"
  "w_interval (abort_wait p w) = w_interval w"
  by (simp_all add: abort_wait_def)

text \<open>Cancelling a set of timers.\<close>

definition abort_all :: "nat list \<Rightarrow> wait \<Rightarrow> wait" where
  "abort_all ps w = (if w_timer w \<in> set ps \<and> w_state w = Waiting then w\<lparr>w_state := Aborted\<rparr> else w)"

lemma abort_all_simps [simp]: "w_timer (abort_all ps w) = w_timer w" "w_id (abort_all ps w) = w_id w"
  "w_interval (abort_all ps w) = w_interval w"
  "map (abort_all []) ws = ws" "abort_all ps (abort_wait p w) = abort_all (p # ps) w"
  by (auto simp: abort_all_def abort_wait_def intro: map_idI)

lemma fold_cancel: "fold cancel_timer ps s = s\<lparr>io_waits := map (abort_all ps) (io_waits s)\<rparr>"
  by (induction ps arbitrary: s) (simp_all add: cancel_timer_def comp_def)

lemma waits_abort: "waits_of p (\<lambda>w. True) (s\<lparr>io_waits := map (abort_all ps) (io_waits s)\<rparr>) = waits_of p (\<lambda>w. True) s"
  by (rule waits_cong) simp_all

lemma waits_abort_other:
  "p \<notin> set ps \<Longrightarrow> waits_of p P (s\<lparr>io_waits := map (abort_all ps) (io_waits s)\<rparr>) = waits_of p P s"
  by (rule waits_cong) (simp_all add: abort_all_def)

subsection \<open>The invariant\<close>

lemma tm_inv_init: "tm_inv CTimerManager"
  by (simp add: tm_inv_def CTimerManager_def waits_of_def in_callback_def)

lemma tm_inv_table: "tm_inv s \<Longrightarrow> sm_find (m_mapTimers s) i = Some p \<Longrightarrow> own_id p s i"
  by (simp add: tm_inv_def)

text \<open>Steps that do not touch timers.\<close>

lemma tm_inv_cong:
  assumes "m_nNextId s' = m_nNextId s" and "next_timer s' = next_timer s" and "m_mapTimers s' = m_mapTimers s"
    and "io_waits s' = io_waits s" and "\<And>p. in_callback p s' = in_callback p s"
    and "\<And>w. io_thread s' = IoAfterCallback w \<Longrightarrow> io_thread s = IoAfterCallback w"
  shows "tm_inv s \<Longrightarrow> tm_inv s'"
proof -
  have eqs: "waits_of p P s' = waits_of p P s" "own_id p s' i = own_id p s i" for p P i
    by (simp_all add: waits_of_def own_id_def assms(2,4))
  show "tm_inv s \<Longrightarrow> tm_inv s'" using assms(6) unfolding tm_inv_def eqs assms(1-5) by blast
qed

lemma tm_inv_grow:
  assumes inv: "tm_inv s" and n: "next_timer s < 2 ^ 64 - 1" and p: "p = next_timer s" and id: "i = of_nat (Suc p)"
    and f: "m_nNextId s' = i + 1" "next_timer s' = Suc p" "m_mapTimers s' = sm_put i p (m_mapTimers s)"
      "io_waits s' = io_waits s @ [w]" "io_thread s' = io_thread s"
    and w: "w_timer w = p" "w_id w = i" "w_state w = Waiting"
  shows "tm_inv s'"
proof -
  note old = inv[unfolded tm_inv_def]
  have not_own: "\<not> own_id q s i" for q using fresh_id[OF n, of q] by (simp only: id p) simp
  have fresh: "sm_find (m_mapTimers s) i = None"
    using old not_own by (cases "sm_find (m_mapTimers s) i") auto
  have small: "own_id q s k \<Longrightarrow> q \<noteq> p" for q k by (auto simp: own_id_def p)
  have none: "waits_of p P s + in_callback p s = 0" for P
  proof -
    have "w_timer v \<noteq> p" if "v \<in> set (io_waits s)" for v using old that small by blast
    then have "waits_of p P s = 0" by (auto simp: waits_of_def filter_empty_conv)
    moreover have "in_callback p s = 0"
    proof (cases "io_thread s")
      case (IoAfterCallback v)
      with old small have "w_timer v \<noteq> p" by blast
      with IoAfterCallback show ?thesis by (simp add: in_callback_def)
    qed (simp_all add: in_callback_def)
    ultimately show ?thesis by simp
  qed
  have own: "own_id q s' k \<longleftrightarrow> own_id q s k \<or> q = p \<and> k = i" for q k
    unfolding own_id_def f(2) p[symmetric] id using less_Suc_eq by auto
  have cnt: "waits_of q P s' = waits_of q P s + (if q = p \<and> P w then 1 else 0)" for q P
    by (auto simp: waits_of_def f(4) w(1))
  have cb: "in_callback q s' = in_callback q s" for q by (simp add: in_callback_def f(5))
  show ?thesis
    unfolding tm_inv_def
  proof (intro conjI allI ballI impI)
    show "m_nNextId s' = of_nat (Suc (next_timer s'))" by (simp add: f id)
    show "own_id q s' k" if "sm_find (m_mapTimers s') k = Some q" for k q
      using that old by (auto simp: own f(3) split: if_splits)
    show "waits_of q not_aborted s' + in_callback q s' = 1" if m: "sm_find (m_mapTimers s') k = Some q" for k q
    proof (cases "k = i")
      case True
      with m have "q = p" by (simp add: f(3))
      then show ?thesis using none by (simp add: cnt cb not_aborted_def w(3))
    next
      case False
      with m have m': "sm_find (m_mapTimers s) k = Some q" by (simp add: f(3))
      then have "q \<noteq> p" using old small by blast
      then show ?thesis using m' old by (simp add: cnt cb)
    qed
    show "own_id (w_timer v) s' (w_id v)" if "v \<in> set (io_waits s')" for v
      using that old by (auto simp: own f(4) w)
    show "own_id (w_timer v) s' (w_id v)" if "io_thread s' = IoAfterCallback v" for v
      using that old by (simp add: own f(5))
    show "waits_of q (\<lambda>w. True) s' + in_callback q s' \<le> 1" for q
    proof (cases "q = p")
      case True
      then show ?thesis using none by (simp add: cnt cb)
    next
      case False
      then show ?thesis using old by (simp add: cnt cb)
    qed
    show "sm_find (m_mapTimers s') (w_id v) = Some (w_timer v)" if v: "v \<in> set (io_waits s')" "w_state v = Waiting" for v
    proof -
      consider "v = w" | "v \<in> set (io_waits s)" using v(1) by (auto simp: f(4))
      then show ?thesis
      proof cases
        case 2
        with v(2) old have m: "sm_find (m_mapTimers s) (w_id v) = Some (w_timer v)" by blast
        then have "w_id v \<noteq> i" using fresh by auto
        with m show ?thesis by (simp add: f(3))
      qed (simp add: f(3) w)
    qed
  qed
qed

lemma tm_inv_add:
  assumes inv: "tm_inv s" and n: "next_timer s < 2 ^ 64 - 1"
  shows "tm_inv (snd (AddTimerInternal d i cb s))"
proof (cases "m_bRunning s")
  case True
  have "m_nNextId s = of_nat (Suc (next_timer s))" using inv by (simp only: tm_inv_def)
  then show ?thesis
    by (rule tm_inv_grow[OF inv n refl, where w = "\<lparr>w_timer = next_timer s, w_id = m_nNextId s,
          w_delay = (if i > 0 then i else d), w_interval = i, w_callback = cb, w_state = Waiting\<rparr>"]) (use True in \<open>simp_all add: AddTimerInternal_def Schedule_def Let_def\<close>)
qed (simp add: AddTimerInternal_def inv)

text \<open>Cancelling timers and forgetting all identifiers that lead to them.\<close>

lemma tm_inv_abort:
  assumes inv: "tm_inv s" and gone: "\<And>i p. p \<in> set ps \<Longrightarrow> sm_find m i \<noteq> Some p"
    and sub: "\<And>i p. sm_find m i = Some p \<Longrightarrow> sm_find (m_mapTimers s) i = Some p"
    and keep: "\<And>i p. sm_find (m_mapTimers s) i = Some p \<Longrightarrow> p \<notin> set ps \<Longrightarrow> sm_find m i = Some p"
  shows "tm_inv (s\<lparr>io_waits := map (abort_all ps) (io_waits s), m_mapTimers := m\<rparr>)"
proof -
  let ?s = "s\<lparr>io_waits := map (abort_all ps) (io_waits s), m_mapTimers := m\<rparr>"
  have all: "waits_of p (\<lambda>w. True) ?s = waits_of p (\<lambda>w. True) s" for p
    using waits_abort[of p ps s] by (simp add: waits_of_def)
  have other: "p \<notin> set ps \<Longrightarrow> waits_of p P ?s = waits_of p P s" for p P
    using waits_abort_other[of p ps P s] by (simp add: waits_of_def)
  have cb: "in_callback p ?s = in_callback p s" for p by (simp add: in_callback_def)
  have own: "own_id p ?s i = own_id p s i" for p i by (simp add: own_id_def)
  have ab: "sm_find m (w_id w) = Some (w_timer w)"
    if "w \<in> set (io_waits s)" "w_state (abort_all ps w) = Waiting" for w
  proof -
    have "w_state w = Waiting" "w_timer w \<notin> set ps" using that(2) by (auto simp: abort_all_def split: if_splits)
    with inv that(1) keep show ?thesis by (auto simp: tm_inv_def)
  qed
  have tbl: "own_id p s i \<and> waits_of p not_aborted ?s + in_callback p s = 1" if "sm_find m i = Some p" for i p
  proof -
    have "p \<notin> set ps" using gone that by blast
    then show ?thesis using inv sub[OF that] other[of p not_aborted] by (simp add: tm_inv_def)
  qed
  show ?thesis
    using inv tbl ab unfolding tm_inv_def all own cb by simp
qed

lemma tm_inv_cancel:
  assumes inv: "tm_inv s" and n: "next_timer s < 2 ^ 64"
  shows "tm_inv (snd (Cancel nId s))"
proof (cases "sm_find (m_mapTimers s) nId")
  case (Some p)
  have inj: "sm_find (m_mapTimers s) i = Some p \<Longrightarrow> i = nId" for i
    using tm_inv_table[OF inv, of i p] tm_inv_table[OF inv Some] by (simp only: own_id_def)
  have "map (abort_wait p) (io_waits s) = map (abort_all [p]) (io_waits s)"
    by (simp add: abort_wait_def abort_all_def)
  then have "snd (Cancel nId s) = s\<lparr>io_waits := map (abort_all [p]) (io_waits s), m_mapTimers := sm_erase nId (m_mapTimers s)\<rparr>"
    using Some by (simp add: Cancel_def cancel_timer_def)
  moreover have "tm_inv \<dots>"
    by (rule tm_inv_abort[OF inv]) (use Some in \<open>auto dest: inj split: if_splits\<close>)
  ultimately show ?thesis by simp
qed (simp add: Cancel_def inv)

lemma tm_inv_stop1:
  assumes inv: "tm_inv s" and ok: "sm_ok (m_mapTimers s)"
  shows "tm_inv (Stop_locked s)"
proof (cases "m_bRunning s")
  case True
  let ?s = "s\<lparr>io_waits := map (abort_all (map snd (m_mapTimers s))) (io_waits s), m_mapTimers := []\<rparr>"
  have "tm_inv ?s"
  proof (rule tm_inv_abort[OF inv])
    fix i p
    assume "sm_find (m_mapTimers s) i = Some p" "p \<notin> set (map snd (m_mapTimers s))"
    then show "sm_find [] i = Some p" by (force dest: sm_find_in_set)
  qed simp_all
  moreover have "Stop_locked s = ?s\<lparr>m_bRunning := False, stop_at := StopIo\<rparr>"
    using True by (simp add: Stop_locked_def fold_cancel)
  ultimately show ?thesis using tm_inv_cong[of "Stop_locked s" ?s] by (simp add: in_callback_def)
qed (simp add: Stop_locked_def inv)

lemma tm_inv_start: "tm_inv s \<Longrightarrow> io_thread s = IoNone \<or> m_bRunning s \<Longrightarrow> tm_inv (snd (Start s))"
  by (rule tm_inv_cong) (auto simp: Start_def in_callback_def split: if_splits)

lemma tm_inv_expire:
  assumes inv: "tm_inv s" and j: "j < length (io_waits s)" "w_state (io_waits s ! j) = Waiting"
  shows "tm_inv (expire_wait j s)"
proof -
  let ?s = "expire_wait j s"
  have at: "io_waits ?s ! k = (if k = j then (io_waits s ! j)\<lparr>w_state := Expired\<rparr> else io_waits s ! k)"
    if "k < length (io_waits s)" for k
    using j(1) that by (simp add: expire_wait_def)
  have cnt: "waits_of p (\<lambda>w. True) ?s = waits_of p (\<lambda>w. True) s"
    "waits_of p not_aborted ?s = waits_of p not_aborted s" for p
    using j(2) by (intro waits_cong; simp add: at not_aborted_def; simp add: expire_wait_def)+
  have same: "own_id p ?s i = own_id p s i" "in_callback p ?s = in_callback p s" "io_thread ?s = io_thread s"
    "m_mapTimers ?s = m_mapTimers s" "m_nNextId ?s = m_nNextId s" "next_timer ?s = next_timer s" for p i
    by (simp_all add: own_id_def in_callback_def expire_wait_def)
  have elem: "w \<in> set (io_waits s) \<or> (w = (io_waits s ! j)\<lparr>w_state := Expired\<rparr>)" if "w \<in> set (io_waits ?s)" for w
    using that set_update_subset_insert[of "io_waits s" j] by (auto simp: expire_wait_def)
  have ids: "own_id (w_timer w) s (w_id w)" if "w \<in> set (io_waits ?s)" for w
  proof -
    have "own_id (w_timer (io_waits s ! j)) s (w_id (io_waits s ! j))" using inv nth_mem[OF j(1)] by (simp add: tm_inv_def)
    then show ?thesis using elem[OF that] inv by (auto simp: tm_inv_def)
  qed
  have tbl: "sm_find (m_mapTimers s) (w_id w) = Some (w_timer w)" if "w \<in> set (io_waits ?s)" "w_state w = Waiting" for w
  proof -
    have "w \<in> set (io_waits s)" using elem[OF that(1)] that(2) by auto
    with that(2) inv show ?thesis unfolding tm_inv_def by blast
  qed
  show ?thesis using inv ids tbl unfolding tm_inv_def same cnt by blast
qed

lemma waits_mono: "waits_of p P s \<le> waits_of p (\<lambda>w. True) s"
proof -
  have "length (filter (\<lambda>w. w_timer w = p \<and> P w) ws) \<le> length (filter (\<lambda>w. w_timer w = p \<and> True) ws)" for ws
    by (induction ws) auto
  then show ?thesis by (simp add: waits_of_def)
qed

lemma waits_pos: "w \<in> set (io_waits s) \<Longrightarrow> P w \<Longrightarrow> 0 < waits_of (w_timer w) P s"
  by (auto simp: waits_of_def filter_empty_conv)

text \<open>A wait without a place in the table: that of a cancelled timer, or of one whose callback is
  running.\<close>

lemma not_in_table:
  assumes inv: "tm_inv s" and n: "next_timer s < 2 ^ 64" and own: "own_id p s i"
    and two: "waits_of p not_aborted s + in_callback p s \<noteq> 1"
  shows "sm_find (m_mapTimers s) i = None"
proof (rule ccontr)
  assume "sm_find (m_mapTimers s) i \<noteq> None"
  then obtain q where q: "sm_find (m_mapTimers s) i = Some q" by blast
  with inv have "own_id q s i" "waits_of q not_aborted s + in_callback q s = 1" unfolding tm_inv_def by blast+
  with own_id_inj[OF n own] two show False by blast
qed

lemma tm_inv_take:
  assumes inv: "tm_inv s" and n: "next_timer s < 2 ^ 64" and idle: "io_thread s = IoIdle"
    and j: "j < length (io_waits s)" and st: "w_state (io_waits s ! j) \<noteq> Waiting"
  shows "tm_inv (take_wait j s)"
proof -
  let ?w = "io_waits s ! j"
  define s1 where "s1 = s\<lparr>io_waits := take j (io_waits s) @ drop (Suc j) (io_waits s)\<rparr>"
  have rem: "waits_of p P s1 + (if w_timer ?w = p \<and> P ?w then 1 else 0) = waits_of p P s" for p P
    unfolding s1_def by (rule waits_remove[OF j])
  note old = inv[unfolded tm_inv_def]
  have own: "own_id (w_timer ?w) s (w_id ?w)" using old j by simp
  have sub: "v \<in> set (io_waits s)" if "v \<in> set (io_waits s1)" for v
    using that by (auto simp: s1_def dest: in_set_takeD in_set_dropD)
  have cb0: "in_callback p s = 0" for p by (simp add: in_callback_def idle)
  have same: "own_id p s1 i = own_id p s i" "m_mapTimers s1 = m_mapTimers s" "m_nNextId s1 = m_nNextId s"
    "next_timer s1 = next_timer s" "io_thread s1 = IoIdle" "in_callback p s1 = 0" for p i
    by (simp_all add: s1_def own_id_def idle in_callback_def)
  have all: "waits_of p (\<lambda>w. True) s \<le> 1" for p
  proof -
    have "waits_of p (\<lambda>w. True) s + in_callback p s \<le> 1" using old by blast
    then show ?thesis by simp
  qed
  have tbl: "own_id p s i \<and> waits_of p not_aborted s = 1" if "sm_find (m_mapTimers s) i = Some p" for i p
  proof -
    have "own_id p s i \<and> waits_of p not_aborted s + in_callback p s = 1" using old that by blast
    then show ?thesis by (simp add: cb0)
  qed
  have waiting: "sm_find (m_mapTimers s) (w_id v) = Some (w_timer v)" if "v \<in> set (io_waits s1)" "w_state v = Waiting" for v
    using sub[OF that(1)] that(2) old by blast
  have ids: "own_id (w_timer v) s (w_id v)" if "v \<in> set (io_waits s1)" for v using sub[OF that] old by blast
  have next_id: "m_nNextId s = of_nat (Suc (next_timer s))" using old by blast
  show ?thesis
  proof (cases "w_state ?w = Aborted")
    case True
    then have na: "\<not> not_aborted ?w" by (simp add: not_aborted_def)
    have "waits_of (w_timer ?w) not_aborted s1 = waits_of (w_timer ?w) not_aborted s"
      using rem[of "w_timer ?w" not_aborted] na by simp
    moreover have "waits_of (w_timer ?w) not_aborted s1 \<le> waits_of (w_timer ?w) (\<lambda>w. True) s1" by (rule waits_mono)
    moreover have "waits_of (w_timer ?w) (\<lambda>w. True) s1 + 1 \<le> 1"
      using rem[of "w_timer ?w" "\<lambda>w. True"] all[of "w_timer ?w"] by simp
    ultimately have "waits_of (w_timer ?w) not_aborted s + in_callback (w_timer ?w) s \<noteq> 1" by (simp add: cb0)
    from not_in_table[OF inv n own this] have "sm_erase (w_id ?w) (m_mapTimers s) = m_mapTimers s"
      by (rule sm_erase_absent)
    then have s': "take_wait j s = s1"
      using True by (simp add: take_wait_def handler_start_def s1_def)
    have cnt: "waits_of p not_aborted s1 = waits_of p not_aborted s" "waits_of p (\<lambda>w. True) s1 \<le> 1" for p
      using rem[of p not_aborted] rem[of p "\<lambda>w. True"] all[of p] na by simp_all
    show ?thesis
      using ids waiting tbl next_id cnt unfolding s' tm_inv_def same by simp
  next
    case False
    then have na: "not_aborted ?w" by (simp add: not_aborted_def)
    define s2 where "s2 = s1\<lparr>fired := fired s1 @ [w_timer ?w], io_thread := IoAfterCallback ?w\<rparr>"
    have s': "take_wait j s = s2"
      using False by (simp add: take_wait_def handler_start_def s1_def s2_def)
    have cnt: "waits_of p P s2 = waits_of p P s1" "in_callback p s2 = (if w_timer ?w = p then 1 else 0)"
      "own_id p s2 i = own_id p s i" "m_mapTimers s2 = m_mapTimers s" "m_nNextId s2 = m_nNextId s"
      "next_timer s2 = next_timer s" "io_waits s2 = io_waits s1" "io_thread s2 = IoAfterCallback v \<longleftrightarrow> v = ?w" for p P i v
      by (auto simp: s2_def waits_of_def in_callback_def own_id_def same(2-4) s1_def)
    have sums: "waits_of p not_aborted s1 + (if w_timer ?w = p then 1 else 0) = waits_of p not_aborted s"
      "waits_of p (\<lambda>w. True) s1 + (if w_timer ?w = p then 1 else 0) \<le> 1" for p
      using rem[of p not_aborted] rem[of p "\<lambda>w. True"] all[of p] na by simp_all
    show ?thesis
      using ids waiting tbl next_id own sums unfolding s' tm_inv_def cnt by simp
  qed
qed

lemma tm_inv_handled:
  assumes inv: "tm_inv s" and n: "next_timer s < 2 ^ 64" and cbk: "io_thread s = IoAfterCallback w"
  shows "tm_inv (handler_end w s)"
proof -
  note old = inv[unfolded tm_inv_def]
  have own: "own_id (w_timer w) s (w_id w)" using old cbk by blast
  have cb: "in_callback p s = (if w_timer w = p then 1 else 0)" for p by (simp add: in_callback_def cbk)
  have all: "waits_of p (\<lambda>w. True) s + (if w_timer w = p then 1 else 0) \<le> 1" for p
  proof -
    have "waits_of p (\<lambda>w. True) s + in_callback p s \<le> 1" using old by blast
    then show ?thesis by (simp add: cb)
  qed
  have none: "waits_of (w_timer w) P s = 0" for P
    using all[of "w_timer w"] waits_mono[of "w_timer w" P s] by simp
  have tbl: "own_id p s i \<and> waits_of p not_aborted s + (if w_timer w = p then 1 else 0) = 1"
    if "sm_find (m_mapTimers s) i = Some p" for i p
  proof -
    have "own_id p s i \<and> waits_of p not_aborted s + in_callback p s = 1" using old that by blast
    then show ?thesis by (simp add: cb)
  qed
  have own_fun: "own_id p s i \<Longrightarrow> own_id p s k \<Longrightarrow> i = k" for p i k by (simp only: own_id_def)
  define s1 where "s1 = s\<lparr>io_thread := IoIdle\<rparr>"
  have same: "own_id p s1 i = own_id p s i" "m_mapTimers s1 = m_mapTimers s" "m_nNextId s1 = m_nNextId s"
    "next_timer s1 = next_timer s" "io_thread s1 = IoIdle" "in_callback p s1 = 0" "io_waits s1 = io_waits s"
    "waits_of p P s1 = waits_of p P s" for p P i
    by (simp_all add: s1_def own_id_def in_callback_def waits_of_def)
  have next_id: "m_nNextId s = of_nat (Suc (next_timer s))" using old by blast
  have ids: "\<forall>v \<in> set (io_waits s). own_id (w_timer v) s (w_id v)" using old by blast
  have waiting: "\<forall>v \<in> set (io_waits s). w_state v = Waiting \<longrightarrow> sm_find (m_mapTimers s) (w_id v) = Some (w_timer v)"
    using old by blast
  consider (gone) "w_interval w > 0" "sm_find (m_mapTimers s) (w_id w) \<noteq> Some (w_timer w)"
    | (again) "w_interval w > 0" "sm_find (m_mapTimers s) (w_id w) = Some (w_timer w)"
    | (once) "\<not> w_interval w > 0" by blast
  then show ?thesis
  proof cases
    case gone
    then have s': "handler_end w s = s1" by (simp add: handler_end_def s1_def Let_def)
    have "p \<noteq> w_timer w" if "sm_find (m_mapTimers s) i = Some p" for i p
      using own_fun[OF own, of i] tbl[OF that] that gone(2) by blast
    then have tbl': "own_id p s i \<and> waits_of p not_aborted s = 1" if "sm_find (m_mapTimers s) i = Some p" for i p
      using tbl[OF that] that by (auto split: if_splits)
    have "waits_of p (\<lambda>w. True) s \<le> 1" for p using all[of p] by (simp split: if_splits)
    then show ?thesis using ids waiting tbl' next_id unfolding s' tm_inv_def same by simp
  next
    case again
    define v where "v = \<lparr>w_timer = w_timer w, w_id = w_id w, w_delay = w_interval w, w_interval = w_interval w,
        w_callback = w_callback w, w_state = Waiting\<rparr>"
    define s2 where "s2 = s1\<lparr>io_waits := io_waits s1 @ [v]\<rparr>"
    have s': "handler_end w s = s2" using again by (simp add: handler_end_def s1_def s2_def v_def Schedule_def Let_def)
    have v: "w_timer v = w_timer w" "w_id v = w_id w" "not_aborted v" by (simp_all add: v_def not_aborted_def)
    have cnt: "waits_of p P s2 = waits_of p P s + (if w_timer w = p \<and> P v then 1 else 0)" "in_callback p s2 = 0"
      "own_id p s2 i = own_id p s i" "m_mapTimers s2 = m_mapTimers s" "m_nNextId s2 = m_nNextId s"
      "next_timer s2 = next_timer s" "io_waits s2 = io_waits s @ [v]" "io_thread s2 = IoIdle" for p P i
      by (auto simp: s2_def s1_def waits_of_def in_callback_def own_id_def v(1))
    show ?thesis
      using ids waiting tbl next_id own all again(2) v unfolding s' tm_inv_def cnt by auto
  next
    case once
    define s2 where "s2 = s1\<lparr>m_mapTimers := sm_erase (w_id w) (m_mapTimers s)\<rparr>"
    have s': "handler_end w s = s2" using once by (simp add: handler_end_def s1_def s2_def Let_def)
    have cnt: "waits_of p P s2 = waits_of p P s" "in_callback p s2 = 0"
      "own_id p s2 i = own_id p s i" "m_mapTimers s2 = sm_erase (w_id w) (m_mapTimers s)" "m_nNextId s2 = m_nNextId s"
      "next_timer s2 = next_timer s" "io_waits s2 = io_waits s" "io_thread s2 = IoIdle" for p P i
      by (simp_all add: s2_def s1_def waits_of_def in_callback_def own_id_def)
    have tbl': "own_id p s i \<and> waits_of p not_aborted s = 1" if "i \<noteq> w_id w" "sm_find (m_mapTimers s) i = Some p" for i p
    proof -
      have "p \<noteq> w_timer w" using own_fun[OF own, of i] tbl[OF that(2)] that(1) by blast
      then show ?thesis using tbl[OF that(2)] by simp
    qed
    have "w_id v \<noteq> w_id w" if "v \<in> set (io_waits s)" for v
    proof
      assume eq: "w_id v = w_id w"
      have "own_id (w_timer v) s (w_id v)" using ids that by blast
      then have "own_id (w_timer v) s (w_id w)" unfolding eq .
      from own_id_inj[OF n this own] have "w_timer v = w_timer w" .
      then show False using waits_pos[OF that, of "\<lambda>w. True"] none[of "\<lambda>w. True"] by simp
    qed
    moreover have "waits_of p (\<lambda>w. True) s \<le> 1" for p using all[of p] by (simp split: if_splits)
    ultimately show ?thesis
      using ids waiting tbl' next_id unfolding s' tm_inv_def cnt by simp
  qed
qed

text \<open>The phases of the io thread.\<close>

definition tm_phase_ok :: "tmgr \<Rightarrow> bool" where
  "tm_phase_ok s \<longleftrightarrow> sm_ok (m_mapTimers s) \<and> (m_bRunning s \<longrightarrow> stop_at s = NotStopping)
     \<and> (io_thread s = IoNone \<longleftrightarrow> stop_at s = NotStopping \<and> \<not> m_bRunning s)
     \<and> (\<not> m_bRunning s \<longrightarrow> m_mapTimers s = [])"

lemma fold_cancel_fields [simp]:
  "m_bRunning (fold cancel_timer ps s) = m_bRunning s" "m_mapTimers (fold cancel_timer ps s) = m_mapTimers s"
  "io_thread (fold cancel_timer ps s) = io_thread s" "next_timer (fold cancel_timer ps s) = next_timer s"
  "fired (fold cancel_timer ps s) = fired s" "stop_at (fold cancel_timer ps s) = stop_at s"
  by (simp_all add: fold_cancel)

lemmas tm_op_defs = Start_def AddTimerInternal_def Schedule_def Cancel_def cancel_timer_def name_timer_def
  unname_timer_def Stop_locked_def Stop_io_def Stop_joined_def expire_wait_def take_wait_def handler_start_def
  handler_end_def

lemma tm_phase_step: "tm_step s s' \<Longrightarrow> tm_phase_ok s \<Longrightarrow> tm_phase_ok s'"
  by (induction rule: tm_step.induct)
    (auto simp: tm_phase_ok_def tm_op_defs Let_def sm_erase_def split: option.splits if_splits)

lemma tm_step_next: "tm_step s s' \<Longrightarrow> next_timer s \<le> next_timer s'"
  by (induction rule: tm_step.induct)
    (auto simp: tm_op_defs Let_def split: option.splits)

lemma tm_inv_step: "tm_step s s' \<Longrightarrow> tm_inv s \<Longrightarrow> tm_phase_ok s \<Longrightarrow> next_timer s' < 2 ^ 64 \<Longrightarrow> tm_inv s'"
proof -
  assume st: "tm_step s s'" and inv: "tm_inv s" and ph: "tm_phase_ok s" and n': "next_timer s' < 2 ^ 64"
  have n: "next_timer s < 2 ^ 64" using tm_step_next[OF st] n' by linarith
  from st show "tm_inv s'"
  proof (cases rule: tm_step.cases)
    case start
    then show ?thesis using tm_inv_start[OF inv] ph by (auto simp: tm_phase_ok_def)
  next
    case (add d i cb)
    show ?thesis
    proof (cases "m_bRunning s")
      case True
      with add n' have "next_timer s < 2 ^ 64 - 1" by (simp add: tm_op_defs Let_def)
      then show ?thesis using tm_inv_add[OF inv] add by simp
    qed (simp add: add AddTimerInternal_def inv)
  next
    case (name x y)
    show ?thesis by (rule tm_inv_cong[OF _ _ _ _ _ _ inv]) (simp_all add: name name_timer_def in_callback_def)
  next
    case (unname x)
    show ?thesis by (rule tm_inv_cong[OF _ _ _ _ _ _ inv]) (simp_all add: unname unname_timer_def in_callback_def split: option.splits)
  next
    case stop2
    show ?thesis by (rule tm_inv_cong[OF _ _ _ _ _ _ inv]) (simp_all add: stop2 Stop_io_def in_callback_def)
  next
    case stop3
    show ?thesis by (rule tm_inv_cong[OF _ _ _ _ _ _ inv]) (simp_all add: stop3 Stop_joined_def in_callback_def)
  qed (use inv n ph in \<open>simp_all add: tm_inv_cancel tm_inv_stop1 tm_inv_expire tm_inv_take tm_inv_handled tm_phase_ok_def\<close>)
qed

lemma tm_reach_phase: "tm_reach s \<Longrightarrow> tm_phase_ok s"
proof (induction rule: tm_reach.induct)
  case (tm_next s s')
  from tm_phase_step[OF tm_next(2,3)] show ?case .
qed (simp add: tm_phase_ok_def CTimerManager_def)

lemma tm_reach_inv: "tm_reach s \<Longrightarrow> next_timer s < 2 ^ 64 \<Longrightarrow> tm_inv s"
proof (induction rule: tm_reach.induct)
  case (tm_next s s')
  have "next_timer s < 2 ^ 64" by (rule le_less_trans[OF tm_step_next[OF tm_next(2)] tm_next(4)])
  from tm_inv_step[OF tm_next(2) tm_next(3)[OF this] tm_reach_phase[OF tm_next(1)] tm_next(4)] show ?case .
qed (rule tm_inv_init)

subsection \<open>What a timer can still do\<close>

text \<open>The firings so far and those that are under way without another wait.\<close>

definition firings_ahead :: "nat \<Rightarrow> tmgr \<Rightarrow> nat" where
  "firings_ahead p s = fires p s + waits_of p not_aborted s"

definition expired :: "wait \<Rightarrow> bool" where
  "expired w \<longleftrightarrow> w_state w = Expired"

definition known :: "tmgr \<Rightarrow> bool" where
  "known s \<longleftrightarrow> (\<forall>p \<in> set (fired s). p < next_timer s) \<and> (\<forall>w \<in> set (io_waits s). w_timer w < next_timer s)
     \<and> (\<forall>w. io_thread s = IoAfterCallback w \<longrightarrow> w_timer w < next_timer s)
     \<and> (\<forall>i p. sm_find (m_mapTimers s) i = Some p \<longrightarrow> p < next_timer s)"

text \<open>The timer \<open>p\<close> will not be set up again: the table does not lead to it, or it is not
  periodic.\<close>

definition unlisted :: "nat \<Rightarrow> tmgr \<Rightarrow> bool" where
  "unlisted p s \<longleftrightarrow> (\<forall>i. sm_find (m_mapTimers s) i \<noteq> Some p)"

definition one_shot :: "nat \<Rightarrow> tmgr \<Rightarrow> bool" where
  "one_shot p s \<longleftrightarrow> (\<forall>w. w \<in> set (io_waits s) \<or> io_thread s = IoAfterCallback w \<longrightarrow> w_timer w = p \<longrightarrow> w_interval w \<le> 0)"

lemma in_remove_nth: "x \<in> set (take j xs @ drop (Suc j) xs) \<Longrightarrow> x \<in> set xs"
  by (auto dest: in_set_takeD in_set_dropD)

lemma in_list_update: "x \<in> set (xs[j := y]) \<Longrightarrow> x = y \<or> x \<in> set xs"
  using set_update_subset_insert by fast

lemma known_step: "tm_step s s' \<Longrightarrow> known s \<Longrightarrow> known s'"
proof (induction rule: tm_step.induct)
  case (expire j s)
  then have "w_timer (io_waits s ! j) < next_timer s" using nth_mem by (auto simp: known_def)
  with expire show ?case by (auto simp: known_def expire_wait_def dest!: in_list_update)
next
  case (handle s j)
  then have "w_timer (io_waits s ! j) < next_timer s" using nth_mem by (auto simp: known_def)
  with handle show ?case
    by (auto simp: known_def take_wait_def handler_start_def split: if_splits dest: in_set_takeD in_set_dropD)
next
  case (add s d i cb)
  then show ?case by (auto simp: known_def AddTimerInternal_def Schedule_def Let_def less_Suc_eq split: if_splits)
next
  case (stop1 s)
  then show ?case by (auto simp: known_def Stop_locked_def fold_cancel)
next
  case (handled s w)
  then show ?case by (auto simp: known_def handler_end_def Schedule_def Let_def split: if_splits)
next
  case (cancel s i)
  then show ?case by (auto simp: known_def Cancel_def cancel_timer_def split: option.splits if_splits)
qed (auto simp: known_def Start_def name_timer_def unname_timer_def Stop_io_def Stop_joined_def split: option.splits if_splits)

lemma tm_reach_known: "tm_reach s \<Longrightarrow> known s"
proof (induction rule: tm_reach.induct)
  case (tm_next s s')
  from known_step[OF tm_next(2,3)] show ?case .
qed (simp add: known_def CTimerManager_def)

lemma waits_aborted_le:
  "waits_of p not_aborted (s\<lparr>io_waits := map (abort_all ps) (io_waits s)\<rparr>) \<le> waits_of p not_aborted s"
proof -
  have "length (filter (\<lambda>w. w_timer w = p \<and> not_aborted w) (map (abort_all ps) ws))
      \<le> length (filter (\<lambda>w. w_timer w = p \<and> not_aborted w) ws)" for ws
    by (induction ws) (auto simp: abort_all_def not_aborted_def)
  then show ?thesis by (simp add: waits_of_def)
qed

lemma ahead_cong: "fired s' = fired s \<Longrightarrow> io_waits s' = io_waits s \<Longrightarrow> firings_ahead p s' = firings_ahead p s"
  by (simp add: firings_ahead_def fires_def waits_of_def)

lemma ahead_cancel: "fired s' = fired s \<Longrightarrow> io_waits s' = map (abort_all ps) (io_waits s) \<Longrightarrow>
    firings_ahead p s' \<le> firings_ahead p s"
  using waits_aborted_le[of p ps s] by (simp add: firings_ahead_def fires_def waits_of_def)

lemma abort_one: "map (abort_wait p) ws = map (abort_all [p]) ws"
  by (simp add: abort_wait_def abort_all_def)

lemma ahead_take:
  assumes "j < length (io_waits s)" and "w_state (io_waits s ! j) \<noteq> Waiting"
  shows "firings_ahead p (take_wait j s) \<le> firings_ahead p s"
proof -
  let ?s = "s\<lparr>io_waits := take j (io_waits s) @ drop (Suc j) (io_waits s)\<rparr>"
  have w: "waits_of p not_aborted (take_wait j s) = waits_of p not_aborted ?s"
    by (simp add: take_wait_def handler_start_def)
  have f: "fires p (take_wait j s) = fires p s + (if w_timer (io_waits s ! j) = p \<and> not_aborted (io_waits s ! j) then 1 else 0)"
    by (auto simp: take_wait_def handler_start_def fires_def not_aborted_def)
  show ?thesis using waits_remove[OF assms(1), of p not_aborted] by (simp add: firings_ahead_def w f)
qed

text \<open>Nothing but the set-up of a periodic timer that is still listed lets a timer fire more
  often than it is already due to.\<close>

lemma ahead_step:
  assumes "tm_step s s'" and "p < next_timer s" and "unlisted p s \<or> one_shot p s"
  shows "firings_ahead p s' \<le> firings_ahead p s"
  using assms
proof (induction rule: tm_step.induct)
  case (add s d i cb)
  then show ?case
    by (auto simp: firings_ahead_def fires_def waits_of_def AddTimerInternal_def Schedule_def Let_def)
next
  case (cancel s i)
  show ?case
  proof (cases "sm_find (m_mapTimers s) i")
    case (Some q)
    show ?thesis
      by (rule ahead_cancel[where ps = "[q]"]) (simp_all add: Some Cancel_def cancel_timer_def abort_one)
  qed (simp add: Cancel_def)
next
  case (stop1 s)
  show ?case
  proof (cases "m_bRunning s")
    case True
    show ?thesis
      by (rule ahead_cancel[where ps = "map snd (m_mapTimers s)"]) (simp_all add: True Stop_locked_def fold_cancel)
  qed (simp add: Stop_locked_def)
next
  case (expire j s)
  have "waits_of p not_aborted (expire_wait j s) = waits_of p not_aborted s"
    using expire(1,2) by (intro waits_cong) (auto simp: expire_wait_def not_aborted_def nth_list_update)
  then show ?case by (simp add: firings_ahead_def fires_def expire_wait_def)
next
  case (handled s w)
  have "w_timer w = p \<Longrightarrow> w_interval w > 0 \<Longrightarrow> sm_find (m_mapTimers s) (w_id w) \<noteq> Some (w_timer w)"
    using handled by (auto simp: unlisted_def one_shot_def)
  then show ?case
    by (auto simp: handler_end_def Let_def Schedule_def firings_ahead_def fires_def waits_of_def)
qed (auto simp: ahead_take intro!: eq_refl[OF ahead_cong] simp: Start_def name_timer_def unname_timer_def
    Stop_io_def Stop_joined_def split: option.split)

lemma unlisted_step: "tm_step s s' \<Longrightarrow> p < next_timer s \<Longrightarrow> unlisted p s \<Longrightarrow> unlisted p s'"
  by (induction rule: tm_step.induct)
    (auto simp: unlisted_def tm_op_defs Let_def split: option.splits if_splits)

lemma one_shot_step: "tm_step s s' \<Longrightarrow> p < next_timer s \<Longrightarrow> one_shot p s \<Longrightarrow> one_shot p s'"
proof (induction rule: tm_step.induct)
  case (expire j s)
  then have "w_timer (io_waits s ! j) = p \<Longrightarrow> w_interval (io_waits s ! j) \<le> 0" by (simp add: one_shot_def)
  with expire show ?case by (auto simp: one_shot_def expire_wait_def dest!: in_list_update)
next
  case (handle s j)
  then have "w_timer (io_waits s ! j) = p \<Longrightarrow> w_interval (io_waits s ! j) \<le> 0" by (simp add: one_shot_def)
  with handle show ?case
    by (auto simp: one_shot_def take_wait_def handler_start_def split: if_splits dest: in_set_takeD in_set_dropD)
next
  case (handled s w)
  then show ?case by (auto simp: one_shot_def handler_end_def Schedule_def Let_def split: if_splits)
next
  case (stop1 s)
  then show ?case by (auto simp: one_shot_def Stop_locked_def fold_cancel)
next
  case (cancel s i)
  then show ?case by (auto simp: one_shot_def Cancel_def cancel_timer_def split: option.splits)
qed (auto simp: one_shot_def Start_def AddTimerInternal_def Schedule_def name_timer_def unname_timer_def
    Stop_io_def Stop_joined_def Let_def split: option.splits if_splits)

lemma ahead_steps:
  assumes "tm_step\<^sup>*\<^sup>* s s'" and "p < next_timer s" and "unlisted p s \<or> one_shot p s"
  shows "firings_ahead p s' \<le> firings_ahead p s"
proof -
  from assms(1) have "(p < next_timer s' \<and> (unlisted p s' \<or> one_shot p s')) \<and> firings_ahead p s' \<le> firings_ahead p s"
  proof (induction rule: rtranclp_induct)
    case (step s1 s2)
    have "p < next_timer s2" using tm_step_next[OF step(2)] step(3) by linarith
    moreover have "unlisted p s2 \<or> one_shot p s2" using unlisted_step one_shot_step step(2,3) by blast
    moreover have "firings_ahead p s2 \<le> firings_ahead p s1" using ahead_step step(2,3) by blast
    ultimately show ?case using step(3) by linarith
  qed (simp add: assms(2,3))
  then show ?thesis by blast
qed

subsection \<open>Properties\<close>

text \<open>Timers and waits correspond: a timer in the table has exactly one wait that was not cancelled
  or a callback that is running, and a timer that is still counting down can be cancelled by the
  identifier it was given.  Identifiers are never reused and never invalid before \<open>2 ^ 64 - 1\<close>
  timers have been created.\<close>

theorem timers_accounted:
  assumes "tm_reach s" and "next_timer s < 2 ^ 64"
  shows "(\<forall>i p. sm_find (m_mapTimers s) i = Some p \<longrightarrow>
            i \<noteq> kInvalidTimerId \<and> unat i = Suc p \<and> waits_of p not_aborted s + in_callback p s = 1)
    \<and> (\<forall>w \<in> set (io_waits s). w_state w = Waiting \<longrightarrow> fst (Cancel (w_id w) s))"
proof (intro conjI allI ballI impI)
  note inv = tm_reach_inv[OF assms]
  fix i p
  assume m: "sm_find (m_mapTimers s) i = Some p"
  then have own: "own_id p s i" and cnt: "waits_of p not_aborted s + in_callback p s = 1"
    using inv unfolding tm_inv_def by blast+
  then have "p < 2 ^ 64 - 1" using assms(2) by (simp add: own_id_def)
  with own show u: "unat i = Suc p" using id_unat[of p] by (simp only: own_id_def)
  then show "i \<noteq> kInvalidTimerId" by (auto simp: kInvalidTimerId_def)
  show "waits_of p not_aborted s + in_callback p s = 1" by (rule cnt)
next
  fix w
  assume "w \<in> set (io_waits s)" "w_state w = Waiting"
  with tm_reach_inv[OF assms] have "sm_find (m_mapTimers s) (w_id w) = Some (w_timer w)" unfolding tm_inv_def by blast
  then show "fst (Cancel (w_id w) s)" by (simp add: Cancel_def)
qed

text \<open>C14. A one-shot timer fires at most once, whatever happens afterwards, restarts included.\<close>

theorem one_shot_fires_once:
  assumes "tm_reach s" and "m_bRunning s" and "tm_step\<^sup>*\<^sup>* (snd (AddTimer d cb s)) s'"
  shows "fires (next_timer s) s' \<le> 1"
proof -
  let ?p = "next_timer s" and ?s = "snd (AddTimer d cb s)"
  have k: "known s" by (rule tm_reach_known[OF assms(1)])
  have "\<forall>w \<in> set (io_waits s). w_timer w \<noteq> ?p" "?p \<notin> set (fired s)"
    "\<And>w. io_thread s = IoAfterCallback w \<Longrightarrow> w_timer w \<noteq> ?p"
    using k by (auto simp: known_def)
  then have "one_shot ?p ?s" "firings_ahead ?p ?s = 1"
    using assms(2)
    by (auto simp: one_shot_def firings_ahead_def fires_def waits_of_def AddTimer_def AddTimerInternal_def
        Schedule_def Let_def filter_empty_conv not_aborted_def count_list_0_iff)
  moreover have "?p < next_timer ?s" using assms(2) by (simp add: AddTimer_def AddTimerInternal_def Schedule_def Let_def)
  ultimately have "firings_ahead ?p s' \<le> 1" using ahead_steps[OF assms(3)] by metis
  then show ?thesis by (simp add: firings_ahead_def)
qed

lemma cancelled_ahead:
  "fired s' = fired s \<Longrightarrow> io_waits s' = map (abort_all ps) (io_waits s) \<Longrightarrow> p \<in> set ps \<Longrightarrow>
     firings_ahead p s' = fires p s + waits_of p expired s"
proof -
  assume f: "fired s' = fired s" and w: "io_waits s' = map (abort_all ps) (io_waits s)" and p: "p \<in> set ps"
  have ab: "not_aborted (abort_all ps v) = expired v" if "w_timer v = p" for v
    using that p by (cases "w_state v") (auto simp: abort_all_def not_aborted_def expired_def)
  have "filter (\<lambda>w. w_timer w = p \<and> not_aborted w) (map (abort_all ps) ws)
      = map (abort_all ps) (filter (\<lambda>w. w_timer w = p \<and> expired w) ws)" for ws
    using ab by (induction ws) auto
  then show ?thesis by (simp add: firings_ahead_def fires_def waits_of_def f w)
qed

text \<open>A cancelled timer fires no more, unless its time had already come when \<open>Cancel\<close> was called
  and only its handler had not run yet; then it fires once.  The same holds of every timer when
  \<open>Stop\<close> has been called, also after a restart.\<close>

theorem cancelled_timer_silent:
  assumes "tm_reach s" and "next_timer s < 2 ^ 64" and "sm_find (m_mapTimers s) nId = Some p"
    and "s1 = snd (Cancel nId s) \<or> (s1 = Stop_locked s \<and> m_bRunning s)" and "tm_step\<^sup>*\<^sup>* s1 s'"
  shows "fires p s' \<le> fires p s + waits_of p expired s \<and> waits_of p expired s \<le> 1"
proof -
  note inv = tm_reach_inv[OF assms(1,2)]
  have p: "own_id p s nId" by (rule tm_inv_table[OF inv assms(3)])
  have inj: "i = nId" if "sm_find (m_mapTimers s) i = Some p" for i
    using tm_inv_table[OF inv that] p by (simp only: own_id_def)
  have "firings_ahead p s1 = fires p s + waits_of p expired s \<and> unlisted p s1 \<and> p < next_timer s1"
    using assms(4)
  proof
    assume s1: "s1 = snd (Cancel nId s)"
    have "firings_ahead p s1 = fires p s + waits_of p expired s"
      by (rule cancelled_ahead[where ps = "[p]"]) (simp_all add: s1 assms(3) Cancel_def cancel_timer_def abort_one)
    moreover have "unlisted p s1"
      using assms(3) by (auto simp: s1 unlisted_def Cancel_def cancel_timer_def dest: inj)
    moreover have "next_timer s1 = next_timer s" by (simp add: s1 assms(3) Cancel_def cancel_timer_def)
    moreover have "p < next_timer s" using p by (simp only: own_id_def)
    ultimately show ?thesis by simp
  next
    assume s1: "s1 = Stop_locked s \<and> m_bRunning s"
    have mem: "p \<in> set (map snd (m_mapTimers s))" using sm_find_in_set[OF assms(3)] by force
    have "firings_ahead p s1 = fires p s + waits_of p expired s"
      by (rule cancelled_ahead[OF _ _ mem]) (simp_all add: s1 Stop_locked_def fold_cancel)
    moreover have "p < next_timer s" using p by (simp only: own_id_def)
    ultimately show ?thesis using s1 by (simp add: unlisted_def Stop_locked_def)
  qed
  then have "firings_ahead p s' \<le> fires p s + waits_of p expired s" using ahead_steps[OF assms(5)] by metis
  moreover have "waits_of p (\<lambda>w. True) s + in_callback p s \<le> 1" using inv unfolding tm_inv_def by blast
  ultimately show ?thesis using waits_mono[of p expired s] by (simp add: firings_ahead_def)
qed

subsection \<open>Concrete runs\<close>

text \<open>A periodic timer is created, its time comes, and it is cancelled before its handler has
  run.\<close>

definition demo_due :: tmgr where
  "demo_due = expire_wait 0 (snd (AddPeriodicTimer 50 (Some 1) (snd (Start CTimerManager))))"

lemma demo_due_reach: "tm_reach demo_due"
proof -
  let ?s = "snd (Start CTimerManager)"
  have a: "tm_step CTimerManager ?s" by (rule tm_step.start) code_simp
  have b: "tm_step ?s (snd (AddPeriodicTimer 50 (Some 1) ?s))" unfolding AddPeriodicTimer_def by (rule tm_step.add)
  have c: "tm_step (snd (AddPeriodicTimer 50 (Some 1) ?s)) demo_due"
    unfolding demo_due_def by (rule tm_step.expire) code_simp+
  show ?thesis by (rule tm_next[OF tm_next[OF tm_next[OF tm_start a] b] c])
qed

theorem timers_accounted_witness:
  "sm_find (m_mapTimers demo_due) 1 = Some 0 \<and> waits_of 0 not_aborted demo_due + in_callback 0 demo_due = 1"
proof -
  have "sm_find (m_mapTimers demo_due) 1 = Some 0" "next_timer demo_due = 1" by code_simp+
  then show ?thesis using timers_accounted[OF demo_due_reach] by simp
qed

text \<open>A one-shot timer that has fired.\<close>

definition demo_shot :: tmgr where
  "demo_shot = take_wait 0 (expire_wait 0 (snd (AddTimer 30 (Some 2) (snd (Start CTimerManager)))))"

theorem one_shot_fires_once_witness: "fires 0 demo_shot = 1 \<and> fires 0 demo_shot \<le> 1"
proof -
  let ?s = "snd (Start CTimerManager)" and ?a = "snd (AddTimer 30 (Some 2) (snd (Start CTimerManager)))"
  have r: "tm_reach ?s" by (rule tm_next[OF tm_start tm_step.start]) code_simp
  have n: "next_timer ?s = 0" "m_bRunning ?s" by code_simp+
  have a: "tm_step ?a (expire_wait 0 ?a)" by (rule tm_step.expire) code_simp+
  have b: "tm_step (expire_wait 0 ?a) demo_shot" unfolding demo_shot_def by (rule tm_step.handle) code_simp+
  have "tm_step\<^sup>*\<^sup>* ?a demo_shot" using a b by (meson converse_rtranclp_into_rtranclp rtranclp.rtrancl_refl)
  from one_shot_fires_once[OF r n(2) this] n(1) show ?thesis by (simp add: numeral_eq_Suc) code_simp
qed

definition demo_fired :: tmgr where
  "demo_fired = take_wait 0 (snd (Cancel 1 demo_due))"

lemma demo_fired_run: "tm_step\<^sup>*\<^sup>* (snd (Cancel 1 demo_due)) demo_fired"
  unfolding demo_fired_def by (rule r_into_rtranclp, rule tm_step.handle) code_simp+

theorem cancelled_timer_silent_witness:
  "fires 0 demo_fired \<le> fires 0 demo_due + waits_of 0 expired demo_due \<and> waits_of 0 expired demo_due = 1"
proof -
  have f: "sm_find (m_mapTimers demo_due) 1 = Some 0" "next_timer demo_due = 1" "waits_of 0 expired demo_due = 1"
    by code_simp+
  have "next_timer demo_due < 2 ^ 64" by (simp add: f(2))
  from cancelled_timer_silent[OF demo_due_reach this f(1) _ demo_fired_run] f(3) show ?thesis by simp
qed

text \<open>\<open>Cancel\<close> reports success and the callback runs afterwards.\<close>

theorem cancelled_timer_fires:
  "tm_reach demo_due \<and> fst (Cancel 1 demo_due) \<and> tm_step\<^sup>*\<^sup>* (snd (Cancel 1 demo_due)) demo_fired
   \<and> fires 0 demo_due = 0 \<and> fires 0 demo_fired = 1"
proof -
  have "fst (Cancel 1 demo_due)" "fires 0 demo_due = 0" "fires 0 demo_fired = 1" by code_simp+
  then show ?thesis using demo_due_reach demo_fired_run by blast
qed

text \<open>The same timer, when the manager is stopped and started again: the callback of a timer that
  \<open>Stop\<close> has forgotten runs after the restart.\<close>

theorem stopped_timer_fires_after_restart:
  "\<exists>s. tm_step\<^sup>*\<^sup>* (Stop_locked demo_due) s \<and> m_mapTimers s = [] \<and> m_bRunning s \<and> fired s = [0]"
proof -
  let ?a = "Stop_io (Stop_locked demo_due)" and ?b = "snd (Start (Stop_joined (Stop_io (Stop_locked demo_due))))"
  have 1: "tm_step (Stop_locked demo_due) ?a" by (rule tm_step.stop2) code_simp
  have 2: "tm_step ?a (Stop_joined ?a)" by (rule tm_step.stop3) code_simp+
  have 3: "tm_step (Stop_joined ?a) ?b" by (rule tm_step.start) code_simp
  have 4: "tm_step ?b (take_wait 0 ?b)" by (rule tm_step.handle) code_simp+
  have "tm_step\<^sup>*\<^sup>* (Stop_locked demo_due) (take_wait 0 ?b)"
    using 1 2 3 4 by (meson converse_rtranclp_into_rtranclp rtranclp.rtrancl_refl)
  moreover have "m_mapTimers (take_wait 0 ?b) = []" "m_bRunning (take_wait 0 ?b)" "fired (take_wait 0 ?b) = [0]"
    by code_simp+
  ultimately show ?thesis by blast
qed

text \<open>A name that is registered twice: the first timer keeps running, and no name leads to it.\<close>

theorem renamed_timer_unreachable:
  "let s = snd (AddNamedTimer ''t'' 20 (Some 2) (snd (AddNamedTimer ''t'' 10 (Some 1) (snd (Start CTimerManager)))));
       (ok, s') = CancelNamedTimer ''t'' s
   in ok \<and> m_mapNamedTimers s' = [] \<and> m_mapTimers s' = [(1, 0)] \<and> \<not> fst (CancelNamedTimer ''t'' s')"
  by code_simp

text \<open>A period of 0 gives a timer that fires once, at once.\<close>

lemma zero_period_is_one_shot:
  "m_bRunning s \<Longrightarrow> \<exists>w. io_waits (snd (AddPeriodicTimer 0 cb s)) = io_waits s @ [w] \<and> w_interval w = 0 \<and> w_delay w = 0"
  by (simp add: AddPeriodicTimer_def AddTimerInternal_def Schedule_def Let_def)

end
