(* ===== verification/TcpClient.thy ===== *)
theory TcpClient
  imports OutputStream
begin

text \<open>
  \<open>CTcpClient\<close> (\<open>src/Common/Network/TcpClient.cpp\<close>): one connection and the thread that runs its
  io context.  A step is one call of the owner, one handler of the io thread, or one event of the
  resolver or the socket.  The io context is never restarted: once it has run out of work it stays
  stopped, and later threads leave \<open>run\<close> at once.
\<close>

datatype io_thread = NoThread | ThreadRuns | ThreadEnded

text \<open>How far connecting has come; a result that is \<open>Some\<close> is the address of the peer.\<close>

datatype attempt = NoAttempt | Resolving | Resolved bool | Connecting | ConnectDone "string option"

datatype client_task = TaskAppend bytes | TaskClose

datatype client_call = OnConnect bool string | OnData bytes | OnClose

record client = out_stream +
  m_strPeerAddress :: string
  m_inputBuffer :: cbuffer
  m_bRunning :: bool
  m_bConnected :: bool
  m_bCloseNotified :: bool
  m_thread :: io_thread
  io_stopped :: bool
  attempt :: attempt
  read_aborted :: bool      \<comment> \<open>the read that failed was aborted by a close\<close>
  write_aborted :: bool
  posted :: "client_task list"
  calls :: "client_call list"
  closed_here :: bool       \<comment> \<open>\<open>CloseOnIoThread\<close> has run\<close>
  write_failed :: bool      \<comment> \<open>a write ended with an error\<close>

text \<open>\<open>nCapacity\<close> is the capacity of an empty string.\<close>

definition CTcpClient :: "nat \<Rightarrow> client" where
  "CTcpClient nCapacity =
     \<lparr>sock_open = False, rd = NoRead, wr = NoWrite, m_strPendingOutput = [], storage = 0, capacity = nCapacity,
      wire = [], appended = [], stale = False, m_strPeerAddress = [], m_inputBuffer = CBuffer 1024,
      m_bRunning = False, m_bConnected = False, m_bCloseNotified = False, m_thread = NoThread, io_stopped = False,
      attempt = NoAttempt, read_aborted = False, write_aborted = False, posted = [], calls = [], closed_here = False,
      write_failed = False\<rparr>"

definition post :: "client_task \<Rightarrow> client \<Rightarrow> client" where
  "post t s = s\<lparr>posted := posted s @ [t]\<rparr>"

definition call :: "client_call \<Rightarrow> client \<Rightarrow> client" where
  "call c s = s\<lparr>calls := calls s @ [c]\<rparr>"

text \<open>\<open>ThreadMain\<close> up to the first handler: \<open>StartConnect\<close> starts the resolver, then \<open>run\<close>.\<close>

definition ThreadMain :: "client \<Rightarrow> client" where
  "ThreadMain s =
     (let s = s\<lparr>attempt := Resolving\<rparr>
      in if io_stopped s then s\<lparr>m_bRunning := False, m_thread := ThreadEnded\<rparr> else s\<lparr>m_thread := ThreadRuns\<rparr>)"

text \<open>\<open>Connect\<close>; \<open>None\<close> is the end of the process: a \<open>std::thread\<close> that was not joined is
  assigned to.\<close>

definition Connect :: "client \<Rightarrow> (bool \<times> client) option" where
  "Connect s =
     (if m_bRunning s then Some (False, s)
      else if m_thread s \<noteq> NoThread then None
      else Some (True, ThreadMain (s\<lparr>m_bConnected := False, m_bCloseNotified := False, m_bRunning := True\<rparr>)))"

definition Send :: "bytes \<Rightarrow> client \<Rightarrow> bool \<times> client" where
  "Send d s = (if \<not> m_bConnected s \<or> d = [] then (False, s) else (True, post (TaskAppend d) s))"

definition Close :: "client \<Rightarrow> client" where
  "Close s = (if \<not> m_bRunning s then s else post TaskClose s)"

text \<open>\<open>Stop\<close>: the part before the join, and the join.\<close>

definition Stop_post :: "client \<Rightarrow> client" where
  "Stop_post s = (if m_bRunning s then post TaskClose (s\<lparr>m_bRunning := False\<rparr>) else s)"

definition Stop_join :: "client \<Rightarrow> client" where
  "Stop_join s = s\<lparr>m_thread := NoThread\<rparr>"

definition IsConnected :: "client \<Rightarrow> bool" where
  "IsConnected s \<longleftrightarrow> m_bConnected s"

definition PeerAddress :: "client \<Rightarrow> string" where
  "PeerAddress s = m_strPeerAddress s"

definition NotifyClose :: "client \<Rightarrow> client" where
  "NotifyClose s = (if m_bCloseNotified s then s else call OnClose (s\<lparr>m_bCloseNotified := True\<rparr>))"

definition DoRead :: "client \<Rightarrow> client" where
  "DoRead s = start_read (s\<lparr>read_aborted := False\<rparr>)"

definition DoWrite :: "client \<Rightarrow> client" where
  "DoWrite s = start_write (s\<lparr>write_aborted := False\<rparr>)"

text \<open>The handler of the resolver, and what \<open>HandleConnect\<close> does with its result; \<open>async_connect\<close>
  opens the socket.\<close>

definition HandleResolve :: "client \<Rightarrow> client" where
  "HandleResolve s =
     (if attempt s = Resolved True then s\<lparr>attempt := Connecting, sock_open := True\<rparr>
      else NotifyClose (call (OnConnect False []) (s\<lparr>attempt := NoAttempt\<rparr>)))"

definition HandleConnect :: "client \<Rightarrow> client" where
  "HandleConnect s =
     (case attempt s of
        ConnectDone (Some peer) \<Rightarrow>
          DoRead (call (OnConnect True peer) (s\<lparr>attempt := NoAttempt, m_strPeerAddress := peer, m_bConnected := True\<rparr>))
      | _ \<Rightarrow> NotifyClose (call (OnConnect False []) (s\<lparr>attempt := NoAttempt\<rparr>)))"

text \<open>\<open>HandleRead\<close>; a read of no bytes is an end of file, which \<open>asio\<close> reports as an error.  \<open>None\<close>
  for an append that does not return.\<close>

definition HandleRead :: "client \<Rightarrow> client option" where
  "HandleRead s =
     (case rd s of
        ReadData d \<Rightarrow>
          (case Buffer.Append (m_inputBuffer s) d of
             None \<Rightarrow> None
           | Some b \<Rightarrow>
               let s = (call (OnData (ToString b)) (s\<lparr>rd := NoRead\<rparr>))\<lparr>m_inputBuffer := RetrieveAll b\<rparr>
               in Some (if \<not> m_bConnected s then s else DoRead s))
      | _ \<Rightarrow> Some (let s = s\<lparr>rd := NoRead\<rparr> in if read_aborted s then s else NotifyClose s))"

definition AppendWrite :: "bytes \<Rightarrow> nat \<Rightarrow> client \<Rightarrow> client" where
  "AppendWrite strData nNewCapacity s =
     (if \<not> sock_open s then s
      else let bWriting = (m_strPendingOutput s \<noteq> []);
               s = append_output strData nNewCapacity s
           in if \<not> bWriting then DoWrite s else s)"

definition HandleWrite :: "client \<Rightarrow> client" where
  "HandleWrite s =
     (case wr s of
        WriteDone n \<Rightarrow>
          let s = s\<lparr>wr := NoWrite, m_strPendingOutput := drop n (m_strPendingOutput s)\<rparr>
          in if m_strPendingOutput s \<noteq> [] then DoWrite s else s
      | _ \<Rightarrow> (let s = s\<lparr>wr := NoWrite\<rparr> in if write_aborted s then s else NotifyClose (s\<lparr>write_failed := True\<rparr>)))"

text \<open>\<open>CloseOnIoThread\<close>: closing the socket aborts what is outstanding, a connection attempt too;
  the resolver is not asked to stop.\<close>

definition CloseOnIoThread :: "client \<Rightarrow> client" where
  "CloseOnIoThread s =
     (let s = (if sock_open s
               then (close_socket s)\<lparr>read_aborted := (if rd s = ReadPending then True else read_aborted s),
                       write_aborted := (case wr s of WritePending st n \<Rightarrow> True | _ \<Rightarrow> write_aborted s),
                       attempt := (if attempt s = Connecting then ConnectDone None else attempt s)\<rparr>
               else s)
      in s\<lparr>m_bConnected := False, closed_here := True\<rparr>)"

fun run_task :: "client_task \<Rightarrow> nat \<Rightarrow> client \<Rightarrow> client" where
  "run_task (TaskAppend d) cap s = AppendWrite d cap s"
| "run_task TaskClose cap s = CloseOnIoThread s"

subsection \<open>Runs\<close>

definition io_runs :: "client \<Rightarrow> bool" where
  "io_runs s \<longleftrightarrow> m_thread s = ThreadRuns"

text \<open>What the resolver and the socket do.\<close>

inductive client_event :: "client \<Rightarrow> client \<Rightarrow> bool" where
  "attempt s = Resolving \<Longrightarrow> client_event s (s\<lparr>attempt := Resolved ok\<rparr>)"
| "attempt s = Connecting \<Longrightarrow> client_event s (s\<lparr>attempt := ConnectDone result\<rparr>)"
| "rd s = ReadPending \<Longrightarrow> d \<noteq> [] \<Longrightarrow> client_event s (s\<lparr>rd := ReadData d\<rparr>)"
| "rd s = ReadPending \<Longrightarrow> client_event s (s\<lparr>rd := ReadError\<rparr>)"
| "wr s = WritePending st len \<Longrightarrow> n \<le> len \<Longrightarrow> length junk = n \<Longrightarrow> client_event s (socket_takes n junk s)"
| "wr s = WritePending st len \<Longrightarrow> client_event s (s\<lparr>wr := WriteError\<rparr>)"

inductive client_step :: "client \<Rightarrow> client \<Rightarrow> bool" where
  connect: "Connect s = Some (b, s') \<Longrightarrow> client_step s s'"
| send: "client_step s (snd (Send d s))"
| close: "client_step s (Close s)"
| stop: "client_step s (Stop_post s)"
| join: "m_thread s \<noteq> ThreadRuns \<Longrightarrow> client_step s (Stop_join s)"
| event: "client_event s s' \<Longrightarrow> client_step s s'"
| resolved: "attempt s = Resolved ok \<Longrightarrow> io_runs s \<Longrightarrow> client_step s (HandleResolve s)"
| connected: "attempt s = ConnectDone result \<Longrightarrow> io_runs s \<Longrightarrow> client_step s (HandleConnect s)"
| read: "rd s = ReadData d \<or> rd s = ReadError \<Longrightarrow> io_runs s \<Longrightarrow> HandleRead s = Some s' \<Longrightarrow> client_step s s'"
| written: "wr s = WriteDone n \<or> wr s = WriteError \<Longrightarrow> io_runs s \<Longrightarrow> client_step s (HandleWrite s)"
| task: "posted s = t # rest \<Longrightarrow> io_runs s \<Longrightarrow> client_step s (run_task t cap (s\<lparr>posted := rest\<rparr>))"
| ended: "io_runs s \<Longrightarrow> attempt s = NoAttempt \<Longrightarrow> rd s = NoRead \<Longrightarrow> wr s = NoWrite \<Longrightarrow> posted s = [] \<Longrightarrow>
    client_step s (s\<lparr>io_stopped := True, m_bRunning := False, m_thread := ThreadEnded\<rparr>)"

inductive client_reach :: "nat \<Rightarrow> client \<Rightarrow> bool" for cap where
  cl_start: "client_reach cap (CTcpClient cap)"
| cl_next: "client_reach cap s \<Longrightarrow> client_step s s' \<Longrightarrow> client_reach cap s'"

subsection \<open>Invariants\<close>

text \<open>What the owner sees: the result of connecting first and once, after a failure nothing but the
  close, and the close at most once.\<close>

definition callback_protocol :: "client_call list \<Rightarrow> bool" where
  "callback_protocol cs \<longleftrightarrow> cs = [] \<or> (\<exists>ok peer rest. cs = OnConnect ok peer # rest
     \<and> (\<forall>b p. OnConnect b p \<notin> set rest) \<and> (\<not> ok \<longrightarrow> set rest \<subseteq> {OnClose}) \<and> count_list rest OnClose \<le> 1)"

definition announced :: "client_call list \<Rightarrow> bool" where
  "announced cs \<longleftrightarrow> (\<exists>peer rest. cs = OnConnect True peer # rest)"

lemma protocol_Nil [simp]: "callback_protocol []" "\<not> announced []"
  by (simp_all add: callback_protocol_def announced_def)

lemma protocol_first [simp]: "callback_protocol [OnConnect ok peer]" "announced [OnConnect ok peer] = ok"
  by (auto simp: callback_protocol_def announced_def)

lemma protocol_data: "callback_protocol cs \<Longrightarrow> announced cs \<Longrightarrow> callback_protocol (cs @ [OnData d])"
  by (auto simp: callback_protocol_def announced_def)

lemma protocol_close:
  "callback_protocol cs \<Longrightarrow> cs \<noteq> [] \<Longrightarrow> OnClose \<notin> set cs \<Longrightarrow> callback_protocol (cs @ [OnClose])"
  by (auto simp: callback_protocol_def count_list_0_iff)

lemma announced_snoc [simp]: "announced cs \<Longrightarrow> announced (cs @ xs)"
  by (auto simp: announced_def)

definition write_ok :: "client \<Rightarrow> bool" where
  "write_ok s \<longleftrightarrow> output_ok s \<and> (wr s \<noteq> NoWrite \<longrightarrow> m_strPendingOutput s \<noteq> [])
     \<and> (\<forall>d. TaskAppend d \<in> set (posted s) \<longrightarrow> d \<noteq> [])"

definition input_ok :: "client \<Rightarrow> bool" where
  "input_ok s \<longleftrightarrow> buf_inv (m_inputBuffer s) \<and> ToString (m_inputBuffer s) = []"

text \<open>While the io context can still run: what the callbacks so far say about the state.\<close>

definition live_ok :: "client \<Rightarrow> bool" where
  "live_ok s \<longleftrightarrow> callback_protocol (calls s) \<and> (OnClose \<in> set (calls s)) = m_bCloseNotified s
     \<and> (attempt s \<noteq> NoAttempt \<longrightarrow> calls s = []) \<and> (rd s \<noteq> NoRead \<longrightarrow> announced (calls s))
     \<and> (m_thread s = ThreadRuns \<longrightarrow> attempt s \<noteq> NoAttempt \<or> calls s \<noteq> [])
     \<and> (m_thread s = NoThread \<longrightarrow> calls s = [] \<and> attempt s = NoAttempt) \<and> m_thread s \<noteq> ThreadEnded
     \<and> (\<not> closed_here s \<longrightarrow> (rd s \<noteq> NoRead \<longrightarrow> m_bConnected s) \<and> \<not> read_aborted s
          \<and> (calls s \<noteq> [] \<and> rd s = NoRead \<longrightarrow> OnClose \<in> set (calls s)))
     \<and> (calls s = [] \<longrightarrow> wr s = NoWrite \<and> \<not> m_bConnected s \<and> (\<forall>d. TaskAppend d \<notin> set (posted s)))
     \<and> (\<not> write_failed s \<and> OnClose \<in> set (calls s) \<longrightarrow> last (calls s) = OnClose \<and> rd s = NoRead)"

definition stopped_ok :: "client \<Rightarrow> bool" where
  "stopped_ok s \<longleftrightarrow> callback_protocol (calls s) \<and> m_thread s \<noteq> ThreadRuns \<and> (closed_here s \<or> OnClose \<in> set (calls s))
     \<and> (\<not> write_failed s \<and> OnClose \<in> set (calls s) \<longrightarrow> last (calls s) = OnClose)"

definition client_inv :: "client \<Rightarrow> bool" where
  "client_inv s \<longleftrightarrow> write_ok s \<and> input_ok s \<and> (if io_stopped s then stopped_ok s else live_ok s)"

lemmas client_part_defs = write_ok_def input_ok_def live_ok_def stopped_ok_def

lemma client_inv_live: "write_ok s \<Longrightarrow> input_ok s \<Longrightarrow> live_ok s \<Longrightarrow> \<not> io_stopped s \<Longrightarrow> client_inv s"
  by (simp add: client_inv_def)

lemma live_not_stopped: "client_inv s \<Longrightarrow> io_runs s \<Longrightarrow> \<not> io_stopped s \<and> write_ok s \<and> input_ok s \<and> live_ok s"
  by (auto simp: client_inv_def stopped_ok_def io_runs_def split: if_splits)

text \<open>Output.\<close>

lemma write_ok_cong:
  "out_stream.truncate s' = out_stream.truncate s \<Longrightarrow> posted s' = posted s \<Longrightarrow> write_ok s \<Longrightarrow> write_ok s'"
  by (cases s; cases s') (simp add: write_ok_def output_defs out_stream.truncate_def split: write_state.splits)

lemma write_ok_rd: "write_ok (s\<lparr>rd := r\<rparr>) = write_ok s"
  by (simp add: write_ok_def)

lemma write_ok_close: "write_ok s \<Longrightarrow> write_ok (close_socket s)"
  using output_ok_close[of s] by (auto simp: write_ok_def close_socket_def split: write_state.splits)

lemma write_ok_AppendWrite: "write_ok s \<Longrightarrow> d \<noteq> [] \<Longrightarrow> write_ok (AppendWrite d cap s)"
  using output_ok_append[of s d cap]
  by (auto simp: write_ok_def AppendWrite_def DoWrite_def start_write_def append_output_def output_defs Let_def
      split: write_state.splits)

lemma write_ok_HandleWrite:
  "write_ok s \<Longrightarrow> wr s = WriteDone n \<or> wr s = WriteError \<Longrightarrow> write_ok (HandleWrite s)"
proof -
  assume ok: "write_ok s" and "wr s = WriteDone n \<or> wr s = WriteError"
  from this(2) show "write_ok (HandleWrite s)"
  proof
    assume w: "wr s = WriteDone n"
    then have "output_ok (s\<lparr>wr := NoWrite, m_strPendingOutput := drop n (m_strPendingOutput s)\<rparr>)"
      using ok output_ok_erase[of s n] by (simp add: write_ok_def)
    with ok w show ?thesis
      by (auto simp: write_ok_def HandleWrite_def DoWrite_def start_write_def output_defs Let_def split: if_splits)
  next
    assume w: "wr s = WriteError"
    with ok show ?thesis
      by (auto simp: write_ok_def HandleWrite_def NotifyClose_def call_def output_defs Let_def split: if_splits)
  qed
qed

lemma write_ok_takes: "write_ok s \<Longrightarrow> wr s = WritePending st len \<Longrightarrow> n \<le> len \<Longrightarrow> write_ok (socket_takes n junk s)"
  using output_ok_takes[of s st len n junk] by (auto simp: write_ok_def socket_takes_def)

lemma write_ok_error: "write_ok s \<Longrightarrow> wr s = WritePending st len \<Longrightarrow> write_ok (s\<lparr>wr := WriteError\<rparr>)"
  by (auto simp: write_ok_def output_defs)

text \<open>The handlers.\<close>

lemma live_HandleResolve:
  assumes "live_ok s" and "write_ok s" and "input_ok s" and "attempt s = Resolved ok"
  shows "live_ok (HandleResolve s) \<and> write_ok (HandleResolve s) \<and> input_ok (HandleResolve s)"
proof -
  have s: "calls s = []" "\<not> m_bCloseNotified s" "rd s = NoRead" "wr s = NoWrite"
    using assms(1,4) by (auto simp: live_ok_def)
  have "callback_protocol [OnConnect False [], OnClose]" using protocol_close[of "[OnConnect False []]"] by simp
  with s assms show ?thesis
    by (auto simp: HandleResolve_def NotifyClose_def call_def live_ok_def write_ok_def input_ok_def output_defs)
qed

lemma live_HandleConnect:
  assumes "live_ok s" and "write_ok s" and "input_ok s" and "attempt s = ConnectDone result"
  shows "live_ok (HandleConnect s) \<and> write_ok (HandleConnect s) \<and> input_ok (HandleConnect s)"
proof -
  have s: "calls s = []" "\<not> m_bCloseNotified s" "rd s = NoRead" "wr s = NoWrite"
    using assms(1,4) by (auto simp: live_ok_def)
  have "callback_protocol [OnConnect False [], OnClose]" using protocol_close[of "[OnConnect False []]"] by simp
  with s assms show ?thesis
    by (auto simp: HandleConnect_def NotifyClose_def call_def DoRead_def start_read_def live_ok_def write_ok_def input_ok_def output_defs
        split: option.splits)
qed

lemma live_NotifyClose: "live_ok s \<Longrightarrow> calls s \<noteq> [] \<Longrightarrow> live_ok (NotifyClose (s\<lparr>rd := NoRead\<rparr>))"
  "live_ok s \<Longrightarrow> calls s \<noteq> [] \<Longrightarrow> live_ok (NotifyClose (s\<lparr>write_failed := True\<rparr>))"
  using protocol_close[of "calls s"] by (auto simp: NotifyClose_def call_def live_ok_def)

lemma live_HandleRead:
  assumes "live_ok s" and "write_ok s" and "input_ok s" and "rd s = ReadData d \<or> rd s = ReadError"
    and "HandleRead s = Some s'"
  shows "live_ok s' \<and> write_ok s' \<and> input_ok s'"
proof (cases "rd s")
  case (ReadData e)
  have "buf_inv (m_inputBuffer s)" "ToString (m_inputBuffer s) = []" using assms(3) by (simp_all add: input_ok_def)
  from Append_content[OF this(1), of e] this(2) obtain b where
    b: "Buffer.Append (m_inputBuffer s) e = Some b" "buf_inv b" "ToString b = e" by auto
  have cs: "announced (calls s)" "callback_protocol (calls s @ [OnData e])"
    using assms(1) ReadData protocol_data by (auto simp: live_ok_def)
  then have ne: "calls s \<noteq> []" by auto
  have s': "s' = (let t = (call (OnData e) (s\<lparr>rd := NoRead\<rparr>))\<lparr>m_inputBuffer := RetrieveAll b\<rparr>
      in if \<not> m_bConnected t then t else DoRead t)"
    using assms(5) ReadData b by (simp add: HandleRead_def Let_def)
  have "live_ok s'"
    using assms(1) ReadData cs ne by (auto simp: s' Let_def call_def DoRead_def start_read_def live_ok_def)
  moreover have "write_ok s'"
    using assms(2) by (auto simp: s' Let_def call_def DoRead_def start_read_def write_ok_def output_defs)
  moreover have "input_ok s'"
    using RetrieveAll_content[OF b(2)] by (simp add: s' Let_def call_def DoRead_def start_read_def input_ok_def)
  ultimately show ?thesis by simp
next
  case ReadError
  then have ne: "calls s \<noteq> []" using assms(1) by (auto simp: live_ok_def)
  have s': "s' = (if read_aborted s then s\<lparr>rd := NoRead\<rparr> else NotifyClose (s\<lparr>rd := NoRead\<rparr>))"
    using assms(5) ReadError by (simp add: HandleRead_def Let_def split: if_splits)
  have "live_ok s'"
  proof (cases "read_aborted s")
    case True
    then have "closed_here s" using assms(1) by (auto simp: live_ok_def)
    with True assms(1) ne ReadError show ?thesis by (auto simp: s' live_ok_def)
  next
    case False
    with live_NotifyClose(1)[OF assms(1) ne] show ?thesis by (simp add: s')
  qed
  moreover have "write_ok s'" "input_ok s'"
    using assms(2,3) by (auto simp: s' NotifyClose_def call_def write_ok_def input_ok_def output_defs)
  ultimately show ?thesis by simp
qed (use assms(4) in auto)

lemma live_HandleWrite:
  assumes "live_ok s" and "input_ok s" and "wr s = WriteDone n \<or> wr s = WriteError"
  shows "live_ok (HandleWrite s) \<and> input_ok (HandleWrite s)"
proof -
  have ne: "calls s \<noteq> []" using assms(1,3) by (auto simp: live_ok_def)
  have wr: "live_ok (s\<lparr>wr := w\<rparr>)" "live_ok (s\<lparr>wr := w, m_strPendingOutput := out\<rparr>)"
    "live_ok (s\<lparr>m_strPendingOutput := out, write_aborted := False, wr := w\<rparr>)" for w out
    using assms(1) ne by (auto simp: live_ok_def)
  have "live_ok (HandleWrite s)"
    using assms(3) wr live_NotifyClose(2)[OF wr(1)[of NoWrite]] ne
    by (auto simp: HandleWrite_def Let_def DoWrite_def start_write_def)
  moreover have "input_ok (HandleWrite s)"
    using assms(2,3) by (auto simp: HandleWrite_def Let_def DoWrite_def start_write_def NotifyClose_def call_def input_ok_def)
  ultimately show ?thesis by simp
qed

lemma live_CloseOnIoThread:
  assumes "live_ok s" and "write_ok s" and "input_ok s" and "m_thread s = ThreadRuns"
  shows "live_ok (CloseOnIoThread s) \<and> write_ok (CloseOnIoThread s) \<and> input_ok (CloseOnIoThread s)"
proof -
  have "write_ok (CloseOnIoThread s)"
    using write_ok_close[OF assms(2)] assms(2) by (auto simp: CloseOnIoThread_def Let_def write_ok_def output_defs)
  moreover have "live_ok (CloseOnIoThread s)"
    using assms(1,4) by (auto simp: CloseOnIoThread_def Let_def close_socket_def live_ok_def split: write_state.splits)
  moreover have "input_ok (CloseOnIoThread s)"
    using assms(3) by (simp add: CloseOnIoThread_def Let_def close_socket_def input_ok_def)
  ultimately show ?thesis by simp
qed

lemma live_AppendWrite:
  assumes "live_ok s" and "input_ok s" and "calls s \<noteq> []"
  shows "live_ok (AppendWrite d cap s) \<and> input_ok (AppendWrite d cap s)"
  using assms by (auto simp: AppendWrite_def Let_def DoWrite_def start_write_def append_output_def live_ok_def input_ok_def)

lemma live_event:
  assumes "client_event s s'" and "live_ok s" and "write_ok s" and "input_ok s"
  shows "live_ok s' \<and> write_ok s' \<and> input_ok s'"
  using assms
proof (induction rule: client_event.induct)
  case (5 s st len n junk)
  then show ?case using write_ok_takes[of s st len n junk] by (auto simp: socket_takes_def live_ok_def input_ok_def)
next
  case (6 s st len)
  then show ?case using write_ok_error[of s st len] by (auto simp: live_ok_def input_ok_def)
qed (auto simp: live_ok_def input_ok_def write_ok_rd, auto simp: write_ok_def output_defs)

text \<open>Nothing happens on a stopped context except what the owner does.\<close>

lemma stopped_event:
  assumes "client_event s s'" and "write_ok s" and "input_ok s"
  shows "write_ok s' \<and> input_ok s' \<and> calls s' = calls s \<and> closed_here s' = closed_here s \<and> m_thread s' = m_thread s
    \<and> io_stopped s' = io_stopped s \<and> write_failed s' = write_failed s"
  using assms
proof (induction rule: client_event.induct)
  case (5 s st len n junk)
  then show ?case using write_ok_takes[of s st len n junk] by (auto simp: socket_takes_def input_ok_def)
next
  case (6 s st len)
  then show ?case using write_ok_error[of s st len] by (auto simp: input_ok_def)
qed (auto simp: input_ok_def write_ok_rd, auto simp: write_ok_def output_defs)

lemma client_inv_event: "client_event s s' \<Longrightarrow> client_inv s \<Longrightarrow> client_inv s'"
  using stopped_event[of s s'] live_event[of s s'] by (auto simp: client_inv_def stopped_ok_def split: if_splits)

lemma client_inv_run:
  assumes inv: "client_inv s" and runs: "io_runs s"
    and keeps: "\<not> io_stopped s \<Longrightarrow> write_ok s \<Longrightarrow> input_ok s \<Longrightarrow> live_ok s \<Longrightarrow>
      live_ok s' \<and> write_ok s' \<and> input_ok s' \<and> \<not> io_stopped s'"
  shows "client_inv s'"
proof -
  have "live_ok s' \<and> write_ok s' \<and> input_ok s' \<and> \<not> io_stopped s'"
    using keeps live_not_stopped[OF inv runs] by blast
  then show ?thesis by (simp add: client_inv_def)
qed

lemma io_stopped_prims:
  "io_stopped (NotifyClose s) = io_stopped s" "io_stopped (call c s) = io_stopped s"
  "io_stopped (DoRead s) = io_stopped s" "io_stopped (DoWrite s) = io_stopped s"
  by (simp_all add: NotifyClose_def call_def DoRead_def DoWrite_def start_read_def start_write_def)

lemma io_stopped_HandleRead: "HandleRead s = Some s' \<Longrightarrow> io_stopped s' = io_stopped s"
  by (auto simp: HandleRead_def Let_def io_stopped_prims split: option.splits read_state.splits if_splits)

lemma io_stopped_handlers:
  "io_stopped (HandleResolve s) = io_stopped s" "io_stopped (HandleConnect s) = io_stopped s"
  "io_stopped (HandleWrite s) = io_stopped s"
  "io_stopped (AppendWrite d cap s) = io_stopped s" "io_stopped (CloseOnIoThread s) = io_stopped s"
proof -
  show "io_stopped (HandleResolve s) = io_stopped s" by (simp add: HandleResolve_def io_stopped_prims)
  show "io_stopped (HandleConnect s) = io_stopped s"
    by (simp add: HandleConnect_def io_stopped_prims split: attempt.split option.split)
  show "io_stopped (HandleWrite s) = io_stopped s"
    by (simp add: HandleWrite_def Let_def io_stopped_prims split: write_state.split)
  show "io_stopped (AppendWrite d cap s) = io_stopped s"
    by (simp add: AppendWrite_def Let_def io_stopped_prims append_output_def)
  show "io_stopped (CloseOnIoThread s) = io_stopped s" by (simp add: CloseOnIoThread_def Let_def close_socket_def)
qed

text \<open>What the owner's calls post.\<close>

lemma client_inv_post:
  "client_inv s \<Longrightarrow> (\<And>d. t = TaskAppend d \<Longrightarrow> d \<noteq> [] \<and> m_bConnected s) \<Longrightarrow> client_inv (post t s)"
proof -
  assume inv: "client_inv s" and t: "\<And>d. t = TaskAppend d \<Longrightarrow> d \<noteq> [] \<and> m_bConnected s"
  have "write_ok s \<Longrightarrow> write_ok (post t s)" using t by (auto simp: write_ok_def post_def output_defs)
  moreover have "live_ok s \<Longrightarrow> live_ok (post t s)" using t by (auto simp: live_ok_def post_def)
  moreover have "input_ok (post t s) = input_ok s" "stopped_ok (post t s) = stopped_ok s" "io_stopped (post t s) = io_stopped s"
    by (simp_all add: input_ok_def stopped_ok_def post_def)
  ultimately show ?thesis using inv by (simp add: client_inv_def split: if_splits)
qed

lemma client_inv_cong:
  assumes "write_ok s' = write_ok s" and "input_ok s' = input_ok s" and "live_ok s' = live_ok s"
    and "stopped_ok s' = stopped_ok s" and "io_stopped s' = io_stopped s"
  shows "client_inv s' = client_inv s"
  by (simp only: client_inv_def assms)

lemma client_inv_not_running: "client_inv (s\<lparr>m_bRunning := False\<rparr>) = client_inv s"
  by (rule client_inv_cong) (simp_all add: client_part_defs output_defs)

lemma client_inv_step:
  assumes "client_step s s'" and inv: "client_inv s"
  shows "client_inv s'"
  using assms
proof (cases rule: client_step.cases)
  case (connect b)
  show ?thesis
  proof (cases "m_bRunning s")
    case False
    then have th: "m_thread s = NoThread" and s': "s' = ThreadMain (s\<lparr>m_bConnected := False, m_bCloseNotified := False, m_bRunning := True\<rparr>)"
      using connect by (auto simp: Connect_def split: if_splits)
    show ?thesis
    proof (cases "io_stopped s")
      case True
      with inv th show ?thesis
        by (auto simp: s' ThreadMain_def Let_def client_inv_def stopped_ok_def write_ok_def input_ok_def output_defs)
    next
      case False
      with inv th show ?thesis
        by (auto simp: s' ThreadMain_def Let_def client_inv_def live_ok_def write_ok_def input_ok_def output_defs)
    qed
  qed (use connect inv in \<open>simp add: Connect_def\<close>)
next
  case (send d)
  then show ?thesis using inv client_inv_post[OF inv, of "TaskAppend d"] by (simp add: Send_def)
next
  case close
  then show ?thesis using inv client_inv_post[OF inv, of TaskClose] by (simp add: Close_def)
next
  case stop
  then show ?thesis using inv client_inv_post[of "s\<lparr>m_bRunning := False\<rparr>" TaskClose] by (simp add: Stop_post_def client_inv_not_running)
next
  case join
  have parts: "write_ok s' = write_ok s" "input_ok s' = input_ok s" "io_stopped s' = io_stopped s"
    by (simp_all add: join(1) Stop_join_def client_part_defs output_defs)
  moreover have "live_ok s \<Longrightarrow> live_ok s'" using join(2) by (cases "m_thread s") (auto simp: live_ok_def join(1) Stop_join_def)
  moreover have "stopped_ok s \<Longrightarrow> stopped_ok s'" by (simp add: stopped_ok_def join(1) Stop_join_def)
  ultimately show ?thesis using inv by (simp add: client_inv_def split: if_splits)
next
  case event
  then show ?thesis using inv by (rule client_inv_event)
next
  case (resolved ok)
  show ?thesis
    by (rule client_inv_run[OF inv resolved(3)]) (use resolved live_HandleResolve in \<open>simp add: io_stopped_handlers\<close>)
next
  case (connected result)
  show ?thesis
    by (rule client_inv_run[OF inv connected(3)]) (use connected live_HandleConnect in \<open>simp add: io_stopped_handlers\<close>)
next
  case (read d)
  show ?thesis
    by (rule client_inv_run[OF inv read(2)]) (use read live_HandleRead io_stopped_HandleRead[OF read(3)] in blast)
next
  case (written n)
  show ?thesis
    by (rule client_inv_run[OF inv written(3)])
      (use written live_HandleWrite write_ok_HandleWrite in \<open>simp add: io_stopped_handlers\<close>)
next
  case (task t rest cap)
  let ?s = "s\<lparr>posted := rest\<rparr>"
  have ok: "\<not> io_stopped ?s" "write_ok ?s" "input_ok ?s" "live_ok ?s"
    using live_not_stopped[OF inv task(3)] task(2) by (auto simp: client_part_defs output_defs)
  have "live_ok s' \<and> write_ok s' \<and> input_ok s' \<and> \<not> io_stopped s'"
  proof (cases t)
    case (TaskAppend d)
    then have "d \<noteq> []" "calls ?s \<noteq> []"
      using live_not_stopped[OF inv task(3)] task(2) by (auto simp: write_ok_def live_ok_def)
    with ok TaskAppend task(1) show "live_ok s' \<and> write_ok s' \<and> input_ok s' \<and> \<not> io_stopped s'"
      using live_AppendWrite[of ?s d cap] write_ok_AppendWrite[of ?s d cap] by (simp add: io_stopped_handlers)
  next
    case TaskClose
    with ok task(1,3) show "live_ok s' \<and> write_ok s' \<and> input_ok s' \<and> \<not> io_stopped s'"
      using live_CloseOnIoThread[of ?s] by (simp add: io_stopped_handlers io_runs_def)
  qed
  then show ?thesis by (simp add: client_inv_def)
next
  case ended
  have "\<not> io_stopped s \<and> write_ok s \<and> input_ok s \<and> live_ok s" by (rule live_not_stopped[OF inv ended(2)])
  then show ?thesis
    using ended by (auto simp: client_inv_def stopped_ok_def live_ok_def io_runs_def write_ok_def input_ok_def output_defs)
qed

lemma client_reach_inv: "client_reach cap s \<Longrightarrow> client_inv s"
proof (induction rule: client_reach.induct)
  case cl_start
  show ?case by (simp add: client_inv_def client_part_defs output_defs CTcpClient_def buf_inv_CBuffer ToString_CBuffer)
qed (rule client_inv_step)

subsection \<open>Properties\<close>

text \<open>C32. The callbacks of the client.  Whatever its owner, the resolver and the socket do, the first
  callback is the result of connecting, which is reported once; after a failure only the close is
  reported; the close is reported at most once; and as long as no write has failed it is the last
  callback of all.\<close>

theorem client_callbacks:
  assumes "client_reach cap s"
  shows "calls s = [] \<or> (\<exists>ok peer rest. calls s = OnConnect ok peer # rest \<and> (\<forall>b p. OnConnect b p \<notin> set rest)
           \<and> (\<not> ok \<longrightarrow> set rest \<subseteq> {OnClose}) \<and> count_list rest OnClose \<le> 1
           \<and> (\<not> write_failed s \<and> OnClose \<in> set rest \<longrightarrow> last rest = OnClose))"
proof -
  have "callback_protocol (calls s)" "\<not> write_failed s \<and> OnClose \<in> set (calls s) \<longrightarrow> last (calls s) = OnClose"
    using client_reach_inv[OF assms] by (auto simp: client_inv_def live_ok_def stopped_ok_def split: if_splits)
  moreover have "last rest = OnClose" if "last (OnConnect ok peer # rest) = OnClose" "OnClose \<in> set rest" for ok peer rest
    using that by (cases rest) auto
  ultimately show ?thesis unfolding callback_protocol_def by (metis list.set_intros(2))
qed

text \<open>The end of a connection.  When the io thread has ended although nobody closed the client on
  this side, the owner has been told: the connection could not be made or the peer closed it, and
  the close callback has run.  Output is not lost on the way: as long as no write was caught by a
  move of the output string, what the socket was given and what is still pending is what was
  appended.\<close>

theorem client_end_reported:
  assumes "client_reach cap s"
  shows "(io_stopped s \<and> \<not> closed_here s \<longrightarrow> OnClose \<in> set (calls s))
    \<and> (\<not> stale s \<longrightarrow> wire s @ drop (done_bytes s) (m_strPendingOutput s) = appended s)"
  using client_reach_inv[OF assms]
  by (auto simp: client_inv_def stopped_ok_def write_ok_def output_ok_def split: if_splits)

subsection \<open>Scenarios\<close>

definition demo_resolving :: client where
  "demo_resolving = (CTcpClient 15)\<lparr>m_bRunning := True, m_thread := ThreadRuns, attempt := Resolving\<rparr>"

lemma demo_resolving_reach: "client_reach 15 demo_resolving"
proof -
  have "Connect (CTcpClient 15) = Some (True, demo_resolving)"
    by (simp add: Connect_def ThreadMain_def CTcpClient_def demo_resolving_def)
  from cl_next[OF cl_start client_step.connect[OF this]] show ?thesis .
qed

definition demo_connected :: client where
  "demo_connected = demo_resolving\<lparr>attempt := NoAttempt, sock_open := True, m_strPeerAddress := ''peer'', m_bConnected := True,
     calls := [OnConnect True ''peer''], rd := ReadPending\<rparr>"

text \<open>From any state that is resolving to the same state connected.\<close>

lemma reach_connected:
  assumes "client_reach cap s" and "attempt s = Resolving" and "io_runs s"
  shows "client_reach cap (HandleConnect (s\<lparr>attempt := ConnectDone (Some ''peer''), sock_open := True\<rparr>))"
proof -
  have "client_reach cap (s\<lparr>attempt := Resolved True\<rparr>)"
    by (rule cl_next[OF assms(1) client_step.event]) (rule client_event.intros(1), rule assms(2))
  then have "client_reach cap (HandleResolve (s\<lparr>attempt := Resolved True\<rparr>))"
    by (rule cl_next[OF _ client_step.resolved]) (use assms(3) in \<open>simp_all add: io_runs_def\<close>)
  then have conn: "client_reach cap (s\<lparr>attempt := Connecting, sock_open := True\<rparr>)" by (simp add: HandleResolve_def)
  have "client_reach cap ((s\<lparr>attempt := Connecting, sock_open := True\<rparr>)\<lparr>attempt := ConnectDone (Some ''peer'')\<rparr>)"
    by (rule cl_next[OF conn client_step.event]) (rule client_event.intros(2), simp)
  moreover have "(s\<lparr>attempt := Connecting, sock_open := True\<rparr>)\<lparr>attempt := ConnectDone (Some ''peer'')\<rparr>
      = s\<lparr>attempt := ConnectDone (Some ''peer''), sock_open := True\<rparr>" by (cases s) simp
  ultimately have "client_reach cap (s\<lparr>attempt := ConnectDone (Some ''peer''), sock_open := True\<rparr>)" by simp
  then show ?thesis
    by (rule cl_next[OF _ client_step.connected]) (use assms(3) in \<open>simp_all add: io_runs_def\<close>)
qed

lemma demo_connected_reach: "client_reach 15 demo_connected"
  using reach_connected[OF demo_resolving_reach]
  by (simp add: demo_resolving_def io_runs_def CTcpClient_def HandleConnect_def DoRead_def start_read_def call_def demo_connected_def)

text \<open>The peer closes, and the io thread ends.\<close>

definition demo_over :: client where
  "demo_over = demo_connected\<lparr>rd := NoRead, m_bCloseNotified := True, calls := [OnConnect True ''peer'', OnClose],
     io_stopped := True, m_bRunning := False, m_thread := ThreadEnded\<rparr>"

lemma demo_over_reach: "client_reach 15 demo_over"
proof -
  have "client_event demo_connected (demo_connected\<lparr>rd := ReadError\<rparr>)"
    by (rule client_event.intros(4)) (simp add: demo_connected_def)
  from cl_next[OF demo_connected_reach client_step.event[OF this]] have 1: "client_reach 15 (demo_connected\<lparr>rd := ReadError\<rparr>)" .
  let ?s = "demo_connected\<lparr>rd := NoRead, m_bCloseNotified := True, calls := [OnConnect True ''peer'', OnClose]\<rparr>"
  have "client_step (demo_connected\<lparr>rd := ReadError\<rparr>) ?s"
    by (rule client_step.read)
      (simp_all add: HandleRead_def NotifyClose_def call_def demo_connected_def demo_resolving_def CTcpClient_def io_runs_def)
  from cl_next[OF 1 this] have 2: "client_reach 15 ?s" .
  have "client_step ?s demo_over"
    using client_step.ended[of ?s] by (simp add: demo_over_def demo_connected_def demo_resolving_def CTcpClient_def io_runs_def)
  from cl_next[OF 2 this] show ?thesis .
qed

theorem client_callbacks_witness:
  "\<exists>rest. calls demo_over = OnConnect True ''peer'' # rest \<and> count_list rest OnClose = 1 \<and> last rest = OnClose"
proof -
  have "calls demo_over = [OnConnect True ''peer'', OnClose]" by (simp add: demo_over_def)
  with client_callbacks[OF demo_over_reach] show ?thesis by auto
qed

theorem client_end_reported_witness: "io_stopped demo_over \<and> \<not> closed_here demo_over \<and> OnClose \<in> set (calls demo_over)"
  using client_end_reported[OF demo_over_reach] by (simp add: demo_over_def demo_connected_def demo_resolving_def CTcpClient_def)

text \<open>A failed write reports the close but leaves \<open>m_bConnected\<close> set and the read running, so that data
  which arrives later is delivered after the close.\<close>

theorem data_after_failed_write:
  "\<exists>s. client_reach 15 s \<and> IsConnected s \<and> rd s = ReadPending
     \<and> calls s = [OnConnect True ''peer'', OnClose, OnData [7]]"
proof -
  let ?w = "demo_connected\<lparr>posted := [TaskAppend [1]]\<rparr>"
  have "client_step demo_connected ?w"
    using client_step.send[of demo_connected "[1]"]
    by (simp add: Send_def post_def demo_connected_def demo_resolving_def CTcpClient_def)
  from cl_next[OF demo_connected_reach this] have 1: "client_reach 15 ?w" .
  let ?x = "AppendWrite [1] 15 (?w\<lparr>posted := []\<rparr>)"
  have 2: "client_reach 15 ?x"
    using cl_next[OF 1 client_step.task[of ?w "TaskAppend [1]" "[]" 15]]
    by (simp add: io_runs_def demo_connected_def demo_resolving_def CTcpClient_def)
  have x: "\<exists>st len. wr ?x = WritePending st len"
    by (simp add: AppendWrite_def DoWrite_def start_write_def append_output_def demo_connected_def demo_resolving_def
        CTcpClient_def Let_def)
  then have 3: "client_reach 15 (?x\<lparr>wr := WriteError\<rparr>)"
    using cl_next[OF 2 client_step.event] client_event.intros(6) by blast
  let ?y = "HandleWrite (?x\<lparr>wr := WriteError\<rparr>)"
  have y: "calls ?y = [OnConnect True ''peer'', OnClose]" "rd ?y = ReadPending" "m_bConnected ?y" "io_runs ?y" "sock_open ?y"
    "m_inputBuffer ?y = CBuffer 1024"
    by (simp_all add: HandleWrite_def NotifyClose_def call_def AppendWrite_def DoWrite_def start_write_def append_output_def
        demo_connected_def demo_resolving_def CTcpClient_def Let_def io_runs_def)
  have 4: "client_reach 15 ?y"
    by (rule cl_next[OF 3 client_step.written])
      (simp_all add: AppendWrite_def DoWrite_def start_write_def append_output_def demo_connected_def demo_resolving_def
        CTcpClient_def Let_def io_runs_def)
  let ?z = "?y\<lparr>rd := ReadData [7]\<rparr>"
  have 5: "client_reach 15 ?z" by (rule cl_next[OF 4 client_step.event]) (rule client_event.intros(3)[OF y(2)], simp)
  from Append_content[OF buf_inv_CBuffer, of 1024 "[7]"] obtain b where
    b: "Buffer.Append (CBuffer 1024) [7] = Some b" "ToString b = [7]" by (auto simp: ToString_CBuffer)
  have hr: "HandleRead ?z = Some (DoRead ((call (OnData [7]) (?z\<lparr>rd := NoRead\<rparr>))\<lparr>m_inputBuffer := RetrieveAll b\<rparr>))"
    using y b by (simp add: HandleRead_def Let_def call_def)
  have "client_reach 15 (DoRead ((call (OnData [7]) (?z\<lparr>rd := NoRead\<rparr>))\<lparr>m_inputBuffer := RetrieveAll b\<rparr>))"
    by (rule cl_next[OF 5 client_step.read[OF _ _ hr]]) (use y(4) in \<open>simp_all add: io_runs_def\<close>)
  moreover have "calls (DoRead ((call (OnData [7]) (?z\<lparr>rd := NoRead\<rparr>))\<lparr>m_inputBuffer := RetrieveAll b\<rparr>))
      = [OnConnect True ''peer'', OnClose, OnData [7]]"
    using y(1) by (simp add: DoRead_def start_read_def call_def)
  ultimately show ?thesis
    using y(3,5) by (intro exI[of _ "DoRead ((call (OnData [7]) (?z\<lparr>rd := NoRead\<rparr>))\<lparr>m_inputBuffer := RetrieveAll b\<rparr>)"])
      (simp add: DoRead_def start_read_def call_def IsConnected_def)
qed

text \<open>After the peer has closed, the client still says that it is connected and \<open>Send\<close> still returns
  true, and nothing will ever run what it posts; and another \<open>Connect\<close> ends the process, because
  the thread that has ended was not joined.\<close>

theorem dead_client_accepts_data:
  "client_reach 15 demo_over \<and> m_thread demo_over = ThreadEnded \<and> IsConnected demo_over \<and> fst (Send [1] demo_over)
     \<and> Connect demo_over = None"
  by (intro conjI demo_over_reach)
    (simp_all add: demo_over_def demo_connected_def demo_resolving_def CTcpClient_def IsConnected_def Send_def Connect_def)

text \<open>A close that is posted while the name is being resolved is lost: the socket is not open yet and
  the resolver is not stopped.  The connection is made all the same, so \<open>Stop\<close>, which waits for the
  io thread, waits until the peer closes.\<close>

theorem stop_while_resolving_is_lost:
  "\<exists>s. client_reach 15 s \<and> \<not> m_bRunning s \<and> posted s = [] \<and> closed_here s \<and> IsConnected s \<and> rd s = ReadPending
     \<and> io_runs s \<and> calls s = [OnConnect True ''peer'']"
proof -
  have "client_reach 15 (Stop_post demo_resolving)" by (rule cl_next[OF demo_resolving_reach client_step.stop])
  then have "client_reach 15 (run_task TaskClose 0 ((Stop_post demo_resolving)\<lparr>posted := []\<rparr>))"
    by (rule cl_next[OF _ client_step.task]) (simp_all add: Stop_post_def post_def demo_resolving_def CTcpClient_def io_runs_def)
  from reach_connected[OF this] show ?thesis
    by (intro exI[of _ "HandleConnect ((run_task TaskClose 0 ((Stop_post demo_resolving)\<lparr>posted := []\<rparr>))\<lparr>attempt := ConnectDone (Some ''peer''), sock_open := True\<rparr>)"])
      (simp add: Stop_post_def post_def demo_resolving_def CTcpClient_def io_runs_def CloseOnIoThread_def HandleConnect_def
        DoRead_def start_read_def call_def IsConnected_def)
qed

text \<open>The close callback is documented for a close on this side too, but such a close is not reported;
  and a client that was stopped can be connected again, successfully, without anything happening.\<close>

theorem local_close_not_reported:
  "\<exists>s. client_reach 15 s \<and> m_thread s = NoThread \<and> closed_here s \<and> calls s = [OnConnect True ''peer'']
     \<and> (\<exists>s'. Connect s = Some (True, s') \<and> m_thread s' = ThreadEnded)"
proof -
  have 1: "client_reach 15 (run_task TaskClose 0 ((Stop_post demo_connected)\<lparr>posted := []\<rparr>))" (is "client_reach _ ?s")
    by (rule cl_next[OF cl_next[OF demo_connected_reach client_step.stop] client_step.task])
      (simp_all add: Stop_post_def post_def demo_connected_def demo_resolving_def CTcpClient_def io_runs_def)
  have s: "rd ?s = ReadError" "read_aborted ?s" "io_runs ?s" "wr ?s = NoWrite" "attempt ?s = NoAttempt" "posted ?s = []"
    "calls ?s = [OnConnect True ''peer'']" "closed_here ?s" "\<not> m_bRunning ?s"
    by (simp_all add: Stop_post_def post_def demo_connected_def demo_resolving_def CTcpClient_def io_runs_def
        CloseOnIoThread_def close_socket_def)
  have "HandleRead ?s = Some (?s\<lparr>rd := NoRead\<rparr>)" using s by (simp add: HandleRead_def)
  then have 2: "client_reach 15 (?s\<lparr>rd := NoRead\<rparr>)" using cl_next[OF 1 client_step.read] s by blast
  then have 3: "client_reach 15 ((?s\<lparr>rd := NoRead\<rparr>)\<lparr>io_stopped := True, m_bRunning := False, m_thread := ThreadEnded\<rparr>)"
    by (rule cl_next[OF _ client_step.ended]) (use s in \<open>simp_all add: io_runs_def\<close>)
  let ?e = "(?s\<lparr>rd := NoRead\<rparr>)\<lparr>io_stopped := True, m_bRunning := False, m_thread := ThreadEnded\<rparr>"
  have "client_reach 15 (Stop_join ?e)" by (rule cl_next[OF 3 client_step.join]) simp
  moreover have "Connect (Stop_join ?e) = Some (True, ThreadMain ((Stop_join ?e)\<lparr>m_bConnected := False, m_bCloseNotified := False, m_bRunning := True\<rparr>))"
    by (simp add: Connect_def Stop_join_def)
  moreover have "m_thread (ThreadMain ((Stop_join ?e)\<lparr>m_bConnected := False, m_bCloseNotified := False, m_bRunning := True\<rparr>)) = ThreadEnded"
    by (simp add: ThreadMain_def Stop_join_def)
  moreover have "m_thread (Stop_join ?e) = NoThread" "closed_here (Stop_join ?e)" "calls (Stop_join ?e) = [OnConnect True ''peer'']"
    using s by (simp_all add: Stop_join_def)
  ultimately show ?thesis by blast
qed

end
