(* ===== verification/UdpSocket.thy ===== *)
theory UdpSocket
  imports Prelude "HOL-Library.Multiset"
begin

text \<open>
  \<open>CUdpSocket\<close> (\<open>src/Common/Network/UdpSocket.cpp\<close>): a bound datagram socket and the thread that
  runs its io context.  Sending resolves the target, then a closure on the io thread sends; a
  resolution may end at any time, with an endpoint or without one.  The operating system decides
  whether a socket can be opened and bound.  The io context is never restarted.
\<close>

type_synonym endpoint = "string \<times> u16"

datatype udp_thread = NoThread | ThreadRuns | ThreadEnded

datatype recv_state = NoRecv | RecvPending | RecvData bytes endpoint | RecvError bool   \<comment> \<open>aborted\<close>

record udp =
  sock_open :: bool
  m_nPort :: u16
  m_bRunning :: bool
  m_thread :: udp_thread
  io_stopped :: bool
  stopping :: bool          \<comment> \<open>\<open>Stop\<close> is waiting for the thread\<close>
  recv :: recv_state
  resolving :: "(endpoint \<times> bytes) list"          \<comment> \<open>targets that are being resolved\<close>
  posted :: "(endpoint \<times> bytes) list"
  sent :: "(endpoint \<times> bytes) list"
  dropped :: "bytes list"                          \<comment> \<open>not resolved, or the socket was closed\<close>
  accepted :: "bytes list"                         \<comment> \<open>what \<open>SendTo\<close> returned true for\<close>
  arrived :: "(bytes \<times> endpoint) list"              \<comment> \<open>what was handed to the data callback\<close>

definition CUdpSocket :: udp where
  "CUdpSocket = \<lparr>sock_open = False, m_nPort = 0, m_bRunning = False, m_thread = NoThread, io_stopped = False, stopping = False,
     recv = NoRecv, resolving = [], posted = [], sent = [], dropped = [], accepted = [], arrived = []\<rparr>"

definition StartReceive :: "udp \<Rightarrow> udp" where
  "StartReceive s = (if \<not> sock_open s then s else s\<lparr>recv := RecvPending\<rparr>)"

text \<open>\<open>ThreadMain\<close> up to the first handler; on a stopped context \<open>run\<close> returns at once.\<close>

definition ThreadMain :: "udp \<Rightarrow> udp" where
  "ThreadMain s =
     (let s = StartReceive s
      in if io_stopped s then s\<lparr>m_bRunning := False, m_thread := ThreadEnded\<rparr> else s\<lparr>m_thread := ThreadRuns\<rparr>)"

text \<open>\<open>Bind\<close>: opening fails for a socket that is open.  \<open>opens\<close> says whether the system can make a
  socket, \<open>binds\<close> which port it gives it, if any.  The outer \<open>None\<close> is the end of the process, by
  the assignment to a thread that was not joined.\<close>

definition Bind :: "bool \<Rightarrow> u16 option \<Rightarrow> udp \<Rightarrow> (bool \<times> udp) option" where
  "Bind opens binds s =
     (if m_bRunning s then Some (False, s)
      else if sock_open s \<or> \<not> opens then Some (False, s)
      else case binds of
             None \<Rightarrow> Some (False, s\<lparr>sock_open := True\<rparr>)
           | Some nPort \<Rightarrow>
               if m_thread s \<noteq> NoThread then None
               else Some (True, ThreadMain (s\<lparr>sock_open := True, m_nPort := nPort, m_bRunning := True\<rparr>)))"

definition SendTo :: "endpoint \<Rightarrow> bytes \<Rightarrow> udp \<Rightarrow> bool \<times> udp" where
  "SendTo target d s =
     (if \<not> m_bRunning s \<or> d = [] then (False, s)
      else (True, s\<lparr>resolving := resolving s @ [(target, d)], accepted := accepted s @ [d]\<rparr>))"

text \<open>The handler of the resolver and the closure it posts.\<close>

definition HandleResolve :: "nat \<Rightarrow> endpoint option \<Rightarrow> udp \<Rightarrow> udp" where
  "HandleResolve j result s =
     (let d = snd (resolving s ! j);
          s = s\<lparr>resolving := take j (resolving s) @ drop (Suc j) (resolving s)\<rparr>
      in case result of
           None \<Rightarrow> s\<lparr>dropped := dropped s @ [d]\<rparr>
         | Some e \<Rightarrow> s\<lparr>posted := posted s @ [(e, d)]\<rparr>)"

definition send_posted :: "udp \<Rightarrow> udp" where
  "send_posted s =
     (case posted s of
        [] \<Rightarrow> s
      | (e, d) # rest \<Rightarrow>
          let s = s\<lparr>posted := rest\<rparr>
          in if \<not> sock_open s then s\<lparr>dropped := dropped s @ [d]\<rparr> else s\<lparr>sent := sent s @ [(e, d)]\<rparr>)"

definition HandleReceive :: "udp \<Rightarrow> udp" where
  "HandleReceive s =
     (case recv s of
        RecvData d from_ \<Rightarrow>
          let s = s\<lparr>recv := NoRecv, arrived := arrived s @ [(d, from_)]\<rparr>
          in if m_bRunning s \<and> sock_open s then StartReceive s else s
      | RecvError aborted \<Rightarrow>
          let s = s\<lparr>recv := NoRecv\<rparr>
          in if \<not> aborted \<and> sock_open s then StartReceive s else s
      | _ \<Rightarrow> s)"

text \<open>\<open>Stop\<close>: up to the join, and the join.\<close>

definition Stop_close :: "udp \<Rightarrow> udp" where
  "Stop_close s =
     (if \<not> m_bRunning s then s
      else s\<lparr>m_bRunning := False, sock_open := False, stopping := True,
             recv := (if recv s = RecvPending then RecvError True else recv s)\<rparr>)"

definition Stop_join :: "udp \<Rightarrow> udp" where
  "Stop_join s = s\<lparr>m_thread := NoThread, stopping := False\<rparr>"

definition LocalPort :: "udp \<Rightarrow> u16" where "LocalPort s = m_nPort s"
definition IsRunning :: "udp \<Rightarrow> bool" where "IsRunning s \<longleftrightarrow> m_bRunning s"

text \<open>The destructor: \<open>Stop\<close>, then the members.  Destroying a thread that was not joined ends the
  process.  It runs when the io thread has come to its end.\<close>

definition destructor_terminates :: "udp \<Rightarrow> bool" where
  "destructor_terminates s \<longleftrightarrow> \<not> m_bRunning s \<and> m_thread s \<noteq> NoThread"

definition io_runs :: "udp \<Rightarrow> bool" where
  "io_runs s \<longleftrightarrow> m_thread s = ThreadRuns"

inductive udp_step :: "udp \<Rightarrow> udp \<Rightarrow> bool" where
  bind: "\<not> stopping s \<Longrightarrow> Bind opens binds s = Some (b, s') \<Longrightarrow> udp_step s s'"
| send: "udp_step s (snd (SendTo target d s))"
| resolved: "j < length (resolving s) \<Longrightarrow> io_runs s \<Longrightarrow> udp_step s (HandleResolve j result s)"
| posted: "posted s \<noteq> [] \<Longrightarrow> io_runs s \<Longrightarrow> udp_step s (send_posted s)"
| arrives: "recv s = RecvPending \<Longrightarrow> udp_step s (s\<lparr>recv := RecvData d src\<rparr>)"
| fails: "recv s = RecvPending \<Longrightarrow> udp_step s (s\<lparr>recv := RecvError False\<rparr>)"
| receive: "recv s \<noteq> NoRecv \<Longrightarrow> recv s \<noteq> RecvPending \<Longrightarrow> io_runs s \<Longrightarrow> udp_step s (HandleReceive s)"
| stop: "\<not> stopping s \<Longrightarrow> udp_step s (Stop_close s)"
| join: "stopping s \<Longrightarrow> m_thread s \<noteq> ThreadRuns \<Longrightarrow> udp_step s (Stop_join s)"
| ended: "io_runs s \<Longrightarrow> resolving s = [] \<Longrightarrow> posted s = [] \<Longrightarrow> recv s = NoRecv \<Longrightarrow>
    udp_step s (s\<lparr>io_stopped := True, m_bRunning := False, m_thread := ThreadEnded\<rparr>)"

inductive udp_reach :: "udp \<Rightarrow> bool" where
  udp_start: "udp_reach CUdpSocket"
| udp_next: "udp_reach s \<Longrightarrow> udp_step s s' \<Longrightarrow> udp_reach s'"

subsection \<open>Payloads are accounted for\<close>

definition payloads :: "udp \<Rightarrow> bytes multiset" where
  "payloads s = mset (map snd (resolving s)) + mset (map snd (posted s)) + mset (map snd (sent s)) + mset (dropped s)"

definition udp_inv :: "udp \<Rightarrow> bool" where
  "udp_inv s \<longleftrightarrow> payloads s = mset (accepted s)
     \<and> (m_bRunning s \<longrightarrow> m_thread s = ThreadRuns \<and> sock_open s \<and> recv s \<noteq> NoRecv \<and> recv s \<noteq> RecvError True)
     \<and> (io_stopped s \<longrightarrow> m_thread s \<noteq> ThreadRuns)"

lemma mset_remove_at:
  assumes "j < length xs"
  shows "mset (map f (take j xs)) + mset (map f (drop (Suc j) xs)) + {#f (xs ! j)#} = mset (map f xs)"
proof -
  have "mset (map f xs) = mset (map f (take j xs @ xs ! j # drop (Suc j) xs))" using id_take_nth_drop[OF assms] by simp
  then show ?thesis by simp
qed

lemma udp_inv_step: "udp_step s s' \<Longrightarrow> udp_inv s \<Longrightarrow> udp_inv s'"
proof (induction rule: udp_step.induct)
  case (bind s opens binds b s')
  then show ?case
    by (auto simp: Bind_def ThreadMain_def StartReceive_def Let_def udp_inv_def payloads_def split: if_splits option.splits)
next
  case (resolved j s result)
  note split = mset_remove_at[OF resolved(1), where f = snd]
  have "payloads (HandleResolve j result s) = payloads s"
    unfolding payloads_def split[symmetric]
    by (cases result) (simp_all add: HandleResolve_def Let_def)
  moreover have "accepted (HandleResolve j result s) = accepted s" "m_bRunning (HandleResolve j result s) = m_bRunning s"
    "m_thread (HandleResolve j result s) = m_thread s" "sock_open (HandleResolve j result s) = sock_open s"
    "recv (HandleResolve j result s) = recv s" "io_stopped (HandleResolve j result s) = io_stopped s"
    by (simp_all add: HandleResolve_def Let_def split: option.split)
  ultimately show ?case using resolved(3) by (simp add: udp_inv_def)
next
  case (posted s)
  then show ?case
    by (auto simp: send_posted_def Let_def udp_inv_def payloads_def split: list.splits prod.splits)
next
  case (receive s)
  then show ?case
    by (cases "recv s") (auto simp: HandleReceive_def StartReceive_def Let_def udp_inv_def payloads_def)
qed (auto simp: SendTo_def Stop_close_def Stop_join_def udp_inv_def payloads_def io_runs_def)

text \<open>The datagrams of the socket.  In every interleaving of the owner, the resolver, the io thread
  and the network, each payload \<open>SendTo\<close> accepted is in exactly one place, as often as it was
  accepted: being resolved, waiting for the io thread, sent, or dropped because its target has no
  address or the socket was closed.  While the socket runs, it is open, its thread runs and a
  receive is outstanding or its handler is due, so no datagram that arrives is ignored for good.\<close>

theorem udp_accounting:
  assumes "udp_reach s"
  shows "payloads s = mset (accepted s)
    \<and> (IsRunning s \<longrightarrow> sock_open s \<and> io_runs s \<and> recv s \<noteq> NoRecv)"
proof -
  have "udp_inv s"
    using assms
  proof (induction rule: udp_reach.induct)
    case udp_start
    show ?case by (simp add: udp_inv_def payloads_def CUdpSocket_def)
  qed (rule udp_inv_step)
  then show ?thesis by (simp add: udp_inv_def IsRunning_def io_runs_def)
qed

subsection \<open>Scenarios\<close>

definition demo_bound :: udp where
  "demo_bound = CUdpSocket\<lparr>sock_open := True, m_nPort := 53, m_bRunning := True, m_thread := ThreadRuns, recv := RecvPending\<rparr>"

lemma demo_bound_reach: "udp_reach demo_bound"
proof -
  have "Bind True (Some 53) CUdpSocket = Some (True, demo_bound)"
    by (simp add: Bind_def ThreadMain_def StartReceive_def CUdpSocket_def demo_bound_def)
  then have "udp_step CUdpSocket demo_bound" by (rule udp_step.bind[rotated]) (simp add: CUdpSocket_def)
  from udp_next[OF udp_start this] show ?thesis .
qed

definition demo_sent :: udp where
  "demo_sent = HandleResolve 0 (Some (''10.0.0.1'', 9)) (snd (SendTo (''host'', 9) [1, 2] demo_bound))"

theorem udp_accounting_witness: "payloads demo_sent = {#[1, 2]#} \<and> posted demo_sent = [((''10.0.0.1'', 9), [1, 2])]"
proof -
  have "udp_reach demo_sent"
    unfolding demo_sent_def
    by (rule udp_next[OF udp_next[OF demo_bound_reach udp_step.send] udp_step.resolved])
      (simp_all add: SendTo_def demo_bound_def CUdpSocket_def io_runs_def)
  moreover have "accepted demo_sent = [[1, 2]]" "posted demo_sent = [((''10.0.0.1'', 9), [1, 2])]"
    by (simp_all add: demo_sent_def HandleResolve_def SendTo_def demo_bound_def CUdpSocket_def)
  ultimately show ?thesis using udp_accounting by simp
qed

text \<open>A bind that fails, because the port is taken, leaves the socket open; every later bind then
  fails at opening it, whatever the port.\<close>

theorem failed_bind_blocks_socket:
  "\<exists>s. udp_reach s \<and> \<not> IsRunning s \<and> Bind True None CUdpSocket = Some (False, s) \<and> Bind True (Some p) s = Some (False, s)
     \<and> Stop_close s = s"
proof -
  have b: "Bind True None CUdpSocket = Some (False, CUdpSocket\<lparr>sock_open := True\<rparr>)" by (simp add: Bind_def CUdpSocket_def)
  then have "udp_step CUdpSocket (CUdpSocket\<lparr>sock_open := True\<rparr>)"
    by (rule udp_step.bind[rotated]) (simp add: CUdpSocket_def)
  from udp_next[OF udp_start this] b show ?thesis
    by (intro exI[of _ "CUdpSocket\<lparr>sock_open := True\<rparr>"]) (simp add: IsRunning_def Bind_def Stop_close_def CUdpSocket_def)
qed

text \<open>A socket that is bound again after \<open>Stop\<close>: \<open>Bind\<close> succeeds, but the new thread leaves the
  stopped io context at once, nothing is received, and because \<open>Stop\<close> finds the socket not running
  it does not join the thread, whose destruction ends the process.\<close>

theorem rebound_socket_terminates:
  "\<exists>s s'. udp_reach s \<and> Bind True (Some 53) s = Some (True, s') \<and> \<not> IsRunning s' \<and> recv s' = RecvPending
     \<and> Stop_close s' = s' \<and> destructor_terminates s'"
proof -
  define e where "e = (HandleReceive (Stop_close demo_bound))\<lparr>io_stopped := True, m_bRunning := False, m_thread := ThreadEnded\<rparr>"
  have "udp_reach (Stop_close demo_bound)"
    by (rule udp_next[OF demo_bound_reach udp_step.stop]) (simp add: demo_bound_def CUdpSocket_def)
  then have "udp_reach (HandleReceive (Stop_close demo_bound))"
    by (rule udp_next[OF _ udp_step.receive]) (simp_all add: Stop_close_def demo_bound_def CUdpSocket_def io_runs_def)
  then have "udp_reach e"
    unfolding e_def
    by (rule udp_next[OF _ udp_step.ended])
      (simp_all add: HandleReceive_def Stop_close_def demo_bound_def CUdpSocket_def io_runs_def)
  then have reach: "udp_reach (Stop_join e)"
    by (rule udp_next[OF _ udp_step.join]) (simp_all add: e_def HandleReceive_def Stop_close_def demo_bound_def CUdpSocket_def)
  define s' where "s' = ThreadMain ((Stop_join e)\<lparr>sock_open := True, m_nPort := 53, m_bRunning := True\<rparr>)"
  have b: "Bind True (Some 53) (Stop_join e) = Some (True, s')"
    by (simp add: Bind_def s'_def Stop_join_def e_def HandleReceive_def Stop_close_def demo_bound_def CUdpSocket_def)
  have "\<not> IsRunning s' \<and> recv s' = RecvPending \<and> Stop_close s' = s' \<and> destructor_terminates s'"
    by (simp add: s'_def Stop_join_def e_def HandleReceive_def Stop_close_def demo_bound_def CUdpSocket_def ThreadMain_def
        StartReceive_def IsRunning_def destructor_terminates_def)
  with reach b show ?thesis by (intro exI[of _ "Stop_join e"] exI[of _ s']) simp
qed

end
