(* ===== verification/TraceText.thy ===== *)
theory TraceText
  imports Promise Text
begin

text \<open>
  The text side of the chain trace (\<open>src/Common/Async/Trace.cpp\<close>, \<open>SourceLoc.h\<close>): the record of
  a layer, \<open>CLayerInfo\<close>, and the functions that turn one layer or a whole chain into text.  The
  literals are the UTF-8 bytes of the source's.
\<close>

subsection \<open>The record of a layer\<close>

record CSourceLoc =
  szFunction :: "string option"
  szFile :: "string option"
  nLine :: int

definition no_loc :: CSourceLoc where
  "no_loc = \<lparr>szFunction = None, szFile = None, nLine = 0\<rparr>"

text \<open>The fields up to \<open>tCreated\<close> are stored with the layer, the others are filled in for a view.  A
  layer is its number, a thread its number; the thread is \<open>None\<close> until the layer has run.\<close>

record CLayerInfo =
  loc :: CSourceLoc
  eMode :: HandlerMode
  eKind :: TaskKind
  upstream :: "nat option"
  spExecName :: "string option"
  nLayerId :: u32
  nChainId :: u32
  bChainRoot :: bool
  bSubChain :: bool
  tid :: "nat option"
  nSelfMs :: int
  tCreated :: int
  nDepth :: int
  bCurrent :: bool
  nAgeMs :: int
  bSettled :: bool
  bFulfilled :: bool
  strMessage :: string

definition new_info :: "int \<Rightarrow> CLayerInfo" where
  "new_info nNow = \<lparr>loc = no_loc, eMode = kModeThen, eKind = Gated kWrite, upstream = None, spExecName = None,
     nLayerId = 0, nChainId = 0, bChainRoot = False, bSubChain = False, tid = None, nSelfMs = 0, tCreated = nNow,
     nDepth = 0, bCurrent = False, nAgeMs = 0, bSettled = False, bFulfilled = False, strMessage = []\<rparr>"

subsection \<open>Literals\<close>

definition kTxtRead :: string where
  "kTxtRead = [CHR 0xE8, CHR 0xAF, CHR 0xBB]"

definition kTxtWrite :: string where
  "kTxtWrite = [CHR 0xE5, CHR 0x86, CHR 0x99]"

definition kTxtDirect :: string where
  "kTxtDirect = [CHR 0xE7, CHR 0x9B, CHR 0xB4]"

definition kTxtNoLoc :: string where
  "kTxtNoLoc = ''('' @ [CHR 0xE6, CHR 0x97, CHR 0xA0, CHR 0xE6, CHR 0xB3, CHR 0xA8, CHR 0xE5, CHR 0x86, CHR 0x8C, CHR
     0xE7, CHR 0x82, CHR 0xB9] @ '')''"

definition kTxtUnsettled :: string where
  "kTxtUnsettled = [CHR 0xE6, CHR 0x9C, CHR 0xAA, CHR 0xE8, CHR 0x90, CHR 0xBD, CHR 0xE5, CHR 0xAE, CHR 0x9A]"

definition kTxtFulfilled :: string where
  "kTxtFulfilled = [CHR 0xE5, CHR 0x85, CHR 0x91, CHR 0xE7, CHR 0x8E, CHR 0xB0]"

definition kTxtRejected :: string where
  "kTxtRejected = [CHR 0xE6, CHR 0x8B, CHR 0x92, CHR 0xE7, CHR 0xBB, CHR 0x9D]"

definition kTxtOpen :: string where
  "kTxtOpen = ''('' @ [CHR 0xE3, CHR 0x80, CHR 0x8C]"

definition kTxtClose :: string where
  "kTxtClose = [CHR 0xE3, CHR 0x80, CHR 0x8D] @ '')''"

definition kTxtChainRoot :: string where
  "kTxtChainRoot = '' ['' @ [CHR 0xE9, CHR 0x93, CHR 0xBE, CHR 0xE6, CHR 0xA0, CHR 0xB9] @ '']''"

definition kTxtSubRoot :: string where
  "kTxtSubRoot = '' ['' @ [CHR 0xE5, CHR 0xAD, CHR 0x90, CHR 0xE9, CHR 0x93, CHR 0xBE, CHR 0xE6, CHR 0xA0, CHR 0xB9] @
     '']''"

definition kTxtChain :: string where
  "kTxtChain = [CHR 0xE9, CHR 0x93, CHR 0xBE] @ ''#''"

definition kTxtLayer :: string where
  "kTxtLayer = [CHR 0xE5, CHR 0xB1, CHR 0x82] @ ''#''"

definition kTxtAge :: string where
  "kTxtAge = [CHR 0xE9, CHR 0xBE, CHR 0x84] @ ''=''"

definition kTxtSelf :: string where
  "kTxtSelf = [CHR 0xE6, CHR 0x9C, CHR 0xAC, CHR 0xE5, CHR 0xB1, CHR 0x82] @ ''=''"

definition kTxtResult :: string where
  "kTxtResult = [CHR 0xE7, CHR 0xBB, CHR 0x93, CHR 0xE6, CHR 0x9E, CHR 0x9C] @ ''=''"

definition kTxtCurrent :: string where
  "kTxtCurrent = ''  '' @ [CHR 0xE2, CHR 0x86, CHR 0x90] @ '' '' @ [CHR 0xE5, CHR 0xBD, CHR 0x93, CHR 0xE5, CHR 0x89, CHR
     0x8D, CHR 0xE5, CHR 0xB1, CHR 0x82]"

definition kTxtHead1 :: string where
  "kTxtHead1 = ''[async '' @ [CHR 0xE9, CHR 0x93, CHR 0xBE] @ ''] '' @ [CHR 0xE5, CHR 0x85, CHR 0xB1] @ '' ''"

definition kTxtHead2 :: string where
  "kTxtHead2 = '' '' @ [CHR 0xE5, CHR 0xB1, CHR 0x82, CHR 0xEF, CHR 0xBC, CHR 0x88, CHR 0xE8, CHR 0xBF, CHR 0x91]
     @ '' '' @ [CHR 0xE2, CHR 0x86, CHR 0x92] @ '' '' @ [CHR 0xE8, CHR 0xBF, CHR 0x9C] @ '' = ''
     @ [CHR 0xE4, CHR 0xBB, CHR 0x8E, CHR 0xE6, CHR 0x9C, CHR 0xAC, CHR 0xE5, CHR 0xB1, CHR 0x82,
     CHR 0xE5, CHR 0xBE, CHR 0x80, CHR 0xE4, CHR 0xB8, CHR 0x8A, CHR 0xE6, CHR 0xB8, CHR 0xB8, CHR 0xE8,
     CHR 0xBF, CHR 0xBD, CHR 0xEF, CHR 0xBC, CHR 0x8C, CHR 0xE8, CHR 0xB0, CHR 0x81, CHR 0xE6, CHR 0x8C,
     CHR 0x82, CHR 0xE7, CHR 0x9A, CHR 0x84, CHR 0xE5, CHR 0xAE, CHR 0x83, CHR 0xEF, CHR 0xBC, CHR 0x9B]
     @ ''#0 = '' @ [CHR 0xE5, CHR 0xBD, CHR 0x93, CHR 0xE5, CHR 0x89, CHR 0x8D, CHR 0xE5, CHR 0xB1,
     CHR 0x82, CHR 0xEF, CHR 0xBC, CHR 0x89, CHR 0x0A]"

definition kTxtElide1 :: string where
  "kTxtElide1 = ''  '' @ [CHR 0xE2, CHR 0x80, CHR 0xA6] @ '' '' @ [CHR 0xE7, CHR 0x9C, CHR 0x81, CHR 0xE7, CHR 0x95, CHR
     0xA5, CHR 0xE4, CHR 0xB8, CHR 0xAD, CHR 0xE9, CHR 0x97, CHR 0xB4] @ '' ''"

definition kTxtElide2 :: string where
  "kTxtElide2 = '' '' @ [CHR 0xE5, CHR 0xB1, CHR 0x82, CHR 0xEF, CHR 0xBC, CHR 0x88, CHR 0xE7, CHR 0x9C, CHR 0x8B, CHR
     0xE5, CHR 0x85, CHR 0xA8, CHR 0xE9, CHR 0x83, CHR 0xA8, CHR 0xEF, CHR 0xBC, CHR 0x9A] @
     ''DumpLayerChain(0) / DescribeLayerChainBlock(0)'' @ [CHR 0xEF, CHR 0xBC, CHR 0x89, CHR 0xE2, CHR 0x80,
     CHR 0xA6, CHR 0x0A]"

definition kTxtNoLayer :: string where
  "kTxtNoLayer = ''[async '' @ [CHR 0xE9, CHR 0x93, CHR 0xBE] @ ''] '' @ [CHR 0xEF, CHR 0xBC, CHR 0x88, CHR 0xE5, CHR
     0xBD, CHR 0x93, CHR 0xE5, CHR 0x89, CHR 0x8D, CHR 0xE4, CHR 0xB8, CHR 0x8D, CHR 0xE5, CHR 0x9C, CHR 0xA8,
     CHR 0xE4, CHR 0xBB, CHR 0xBB, CHR 0xE4, CHR 0xBD, CHR 0x95, CHR 0xE5, CHR 0xB1, CHR 0x82, CHR 0xE5, CHR
     0xA4, CHR 0x84, CHR 0xE7, CHR 0x90, CHR 0x86, CHR 0xE5, CHR 0x99, CHR 0xA8, CHR 0xE9, CHR 0x87, CHR 0x8C,
     CHR 0xEF, CHR 0xBC, CHR 0x9A, CHR 0xE9, CHR 0x80, CHR 0x9A, CHR 0xE7, CHR 0x9F, CHR 0xA5] @ '' / Post ''
     @ [CHR 0xE7, CHR 0x9A, CHR 0x84, CHR 0xE6, CHR 0x97, CHR 0x81, CHR 0xE6, CHR 0x94, CHR 0xAF, CHR 0xE4,
     CHR 0xBB, CHR 0xBB, CHR 0xE5, CHR 0x8A, CHR 0xA1] @ '' / '' @ [CHR 0xE8, CHR 0xB0, CHR 0x83, CHR 0xE7,
     CHR 0x94, CHR 0xA8, CHR 0xE8, CHR 0x80, CHR 0x85, CHR 0xE7, CHR 0xBA, CHR 0xBF, CHR 0xE7, CHR 0xA8, CHR
     0x8B, CHR 0xE9, CHR 0x83, CHR 0xBD, CHR 0xE7, CHR 0x9C, CHR 0x8B, CHR 0xE4, CHR 0xB8, CHR 0x8D, CHR 0xE5,
     CHR 0x88, CHR 0xB0, CHR 0xE5, CHR 0xB1, CHR 0x82, CHR 0xEF, CHR 0xBC, CHR 0x89, CHR 0x0A]"

subsection \<open>Fields as text\<close>

definition MsSince :: "int \<Rightarrow> int \<Rightarrow> int" where
  "MsSince nNow t0 = nNow - t0"

definition ModeText :: "HandlerMode \<Rightarrow> string" where
  "ModeText m = (if m = kModeCatch then ''catch'' else if m = kModeFinally then ''finally'' else ''then'')"

fun KindText :: "TaskKind \<Rightarrow> string" where
  "KindText (Gated kRead) = kTxtRead"
| "KindText (Gated kWrite) = kTxtWrite"
| "KindText kDirect = kTxtDirect"

text \<open>\<open>strrchr\<close>: what follows the last slash.\<close>

definition BaseName :: "string option \<Rightarrow> string" where
  "BaseName pszPath =
     (case pszPath of
        None \<Rightarrow> ''?''
      | Some p \<Rightarrow> rev (takeWhile (\<lambda>c. c \<noteq> CHR ''/'') (rev (c_str p))))"

text \<open>\<open>find\<close> of a text, and what \<open>erase (0, rfind (::) + 2)\<close> leaves.\<close>

fun contains :: "string \<Rightarrow> string \<Rightarrow> bool" where
  "contains pat [] \<longleftrightarrow> pat = []"
| "contains pat (c # s) \<longleftrightarrow> take (length pat) (c # s) = pat \<or> contains pat s"

fun after_scope :: "string \<Rightarrow> string" where
  "after_scope [] = []"
| "after_scope (c # s) =
     (if contains ''::'' s then after_scope s
      else if take 2 (c # s) = ''::'' then drop 2 (c # s) else c # s)"

definition ShortFunc :: "string option \<Rightarrow> string" where
  "ShortFunc pszPretty =
     (case pszPretty of
        None \<Rightarrow> kTxtNoLoc
      | Some p \<Rightarrow>
          let strFunc = takeWhile (\<lambda>c. c \<noteq> CHR ''('') (c_str p)
          in if contains ''<lambda'' strFunc then ''<lambda>'' else after_scope strFunc)"

definition ThreadText :: "nat option \<Rightarrow> string" where
  "ThreadText t = (case t of None \<Rightarrow> ''-'' | Some n \<Rightarrow> decimal n)"

definition ResultText :: "CLayerInfo \<Rightarrow> string" where
  "ResultText info =
     (if \<not> bSettled info then kTxtUnsettled
      else if bFulfilled info then kTxtFulfilled
      else if strMessage info = [] then kTxtRejected
      else kTxtRejected @ kTxtOpen @ strMessage info @ kTxtClose)"

definition ChainRootText :: "CLayerInfo \<Rightarrow> string" where
  "ChainRootText info =
     (if \<not> bChainRoot info then [] else if bSubChain info then kTxtSubRoot else kTxtChainRoot)"

definition ExecText :: "CLayerInfo \<Rightarrow> string" where
  "ExecText info = (case spExecName info of None \<Rightarrow> ''-'' | Some e \<Rightarrow> if e \<noteq> [] then e else ''-'')"

text \<open>\<open>FillView\<close>, given the result of the layer if it has one.\<close>

definition FillView :: "CLayerInfo \<Rightarrow> promise_result option \<Rightarrow> int \<Rightarrow> int \<Rightarrow> int \<Rightarrow> bool \<Rightarrow> CLayerInfo" where
  "FillView info res nNow selfMs depth cur =
     (let info = info\<lparr>nDepth := depth, bCurrent := cur, nAgeMs := MsSince nNow (tCreated info), nSelfMs := selfMs,
                      bSettled := (res \<noteq> None)\<rparr>
      in case res of
           None \<Rightarrow> info
         | Some r \<Rightarrow> info\<lparr>bFulfilled := IsFulfilled r, strMessage := (if IsFulfilled r then [] else Message r)\<rparr>)"

subsection \<open>A layer and a chain as text\<close>

definition DescribeLayer :: "CLayerInfo \<Rightarrow> string" where
  "DescribeLayer info = snprintf 512
     (''#'' @ pad_right 3 (decimal_int (nDepth info)) @ '' '' @ pad_right 7 (ModeText (eMode info)) @ '' ''
      @ pad_right 3 (KindText (eKind info)) @ '' '' @ pad_right 16 (c_str (ShortFunc (szFunction (loc info)))) @ '' ''
      @ c_str (BaseName (szFile (loc info))) @ '':'' @ decimal_int (nLine (loc info)) @ ''  ''
      @ pad_right 12 (take 12 (c_str (pad_right 12 (''['' @ ExecText info @ '']'')))) @ '' ''
      @ kTxtChain @ pad_right 2 (decimal (unat (nChainId info))) @ '' ''
      @ kTxtLayer @ pad_right 3 (decimal (unat (nLayerId info))) @ '' ''
      @ kTxtAge @ decimal_int (nAgeMs info) @ ''ms '' @ kTxtSelf @ decimal_int (nSelfMs info) @ ''ms ''
      @ kTxtResult @ pad_right 8 (c_str (ResultText info)) @ '' tid='' @ pad_right 7 (ThreadText (tid info))
      @ ChainRootText info @ (if bCurrent info then kTxtCurrent else []))"

text \<open>The pieces \<open>DescribeLayerChain\<close> and \<open>DescribeLayerChainBlock\<close> join, given the layers
  visited.\<close>

definition chain_item :: "CLayerInfo \<Rightarrow> string" where
  "chain_item info = snprintf 256
     (''#'' @ decimal_int (nDepth info) @ '' '' @ ModeText (eMode info) @ '' ''
      @ (case szFunction (loc info) of None \<Rightarrow> kTxtNoLoc | Some f \<Rightarrow> c_str f) @ '' (''
      @ (case szFile (loc info) of None \<Rightarrow> ''?'' | Some f \<Rightarrow> c_str f) @ '':'' @ decimal_int (nLine (loc info)) @ '')'')"

definition add_item :: "CLayerInfo \<Rightarrow> string \<Rightarrow> string" where
  "add_item info strChain = (if strChain \<noteq> [] then strChain @ '' <- '' else strChain) @ chain_item info"

definition layer_line :: "CLayerInfo \<Rightarrow> string" where
  "layer_line info = ''  '' @ DescribeLayer info @ [CHR 0x0A]"

text \<open>How many layers the block shows at its head and at its tail.\<close>

definition bElide :: "int \<Rightarrow> nat \<Rightarrow> bool" where
  "bElide nMaxLayers nTotal \<longleftrightarrow> nMaxLayers > 0 \<and> int nTotal > nMaxLayers"

definition nHead :: "int \<Rightarrow> nat \<Rightarrow> nat" where
  "nHead nMaxLayers nTotal = (if bElide nMaxLayers nTotal then nat ((nMaxLayers + 1) div 2) else nTotal)"

definition nTail :: "int \<Rightarrow> nat \<Rightarrow> nat" where
  "nTail nMaxLayers nTotal = (if bElide nMaxLayers nTotal then nat (nMaxLayers div 2) else 0)"

definition chain_block :: "int \<Rightarrow> CLayerInfo list \<Rightarrow> string" where
  "chain_block nMaxLayers vecChain =
     (let nTotal = length vecChain
      in snprintf 512 (kTxtHead1 @ decimal nTotal @ kTxtHead2)
         @ concat (map layer_line (take (nHead nMaxLayers nTotal) vecChain))
         @ (if bElide nMaxLayers nTotal
            then snprintf 512 (kTxtElide1 @ decimal_int (int nTotal - nMaxLayers) @ kTxtElide2)
                 @ concat (map layer_line (drop (nTotal - nTail nMaxLayers nTotal) vecChain))
            else []))"

subsection \<open>What the texts are\<close>

lemma c_str_idem [simp]: "c_str (c_str s) = c_str s"
  by (simp add: c_str_def takeWhile_idem)

text \<open>The file name of a path is its longest suffix without a slash.\<close>

lemma BaseName_suffix:
  "\<exists>pre. c_str p = pre @ BaseName (Some p) \<and> CHR ''/'' \<notin> set (BaseName (Some p)) \<and> (pre = [] \<or> last pre = CHR ''/'')"
proof -
  let ?r = "rev (c_str p)" and ?P = "\<lambda>c. c \<noteq> CHR ''/''"
  have split: "c_str p = rev (dropWhile ?P ?r) @ rev (takeWhile ?P ?r)"
    by (metis rev_append rev_rev_ident takeWhile_dropWhile_id)
  have "rev (dropWhile ?P ?r) = [] \<or> last (rev (dropWhile ?P ?r)) = CHR ''/''"
    using hd_dropWhile[of ?P ?r] by (cases "dropWhile ?P ?r") auto
  moreover have "CHR ''/'' \<notin> set (rev (takeWhile ?P ?r))" by (auto dest: set_takeWhileD)
  moreover have "BaseName (Some p) = rev (takeWhile ?P ?r)" by (simp add: BaseName_def)
  ultimately show ?thesis using split by (intro exI[of _ "rev (dropWhile ?P ?r)"]) simp
qed

lemma contains_iff: "contains pat s \<longleftrightarrow> (\<exists>a b. s = a @ pat @ b)"
proof -
  have "contains pat s \<longleftrightarrow> (\<exists>a b. s = a @ pat @ b)" for s
  proof (induction s)
    case (Cons c s)
    have "(\<exists>a b. c # s = a @ pat @ b) \<longleftrightarrow> (\<exists>b. c # s = pat @ b) \<or> (\<exists>a b. s = a @ pat @ b)"
      by (metis append_Cons append_Nil list.sel(3) list.exhaust)
    also have "(\<exists>b. c # s = pat @ b) \<longleftrightarrow> take (length pat) (c # s) = pat"
      by (metis append_eq_conv_conj append_take_drop_id)
    finally show ?case using Cons by simp
  qed auto
  then show ?thesis .
qed

text \<open>The short name of a function never contains a scope operator or a parameter list.\<close>

lemma after_scope_clean: "\<not> contains ''::'' (after_scope s) \<and> set (after_scope s) \<subseteq> set s"
proof (induction s)
  case (Cons c s)
  show ?case
  proof (cases "contains ''::'' s")
    case False
    then have "\<not> contains ''::'' (drop 1 s)" by (cases s) auto
    with False show ?thesis by (auto simp: dest: in_set_dropD)
  qed (use Cons in auto)
qed simp

theorem short_func_clean:
  "ShortFunc (Some p) = ''<lambda>'' \<or> (\<not> contains ''::'' (ShortFunc (Some p)) \<and> CHR ''('' \<notin> set (ShortFunc (Some p)))"
proof -
  let ?f = "takeWhile (\<lambda>c. c \<noteq> CHR ''('') (c_str p)"
  have "CHR ''('' \<notin> set ?f" by (auto dest: set_takeWhileD)
  with after_scope_clean[of ?f] show ?thesis by (auto simp: ShortFunc_def Let_def)
qed

text \<open>The comment says that a lambda is always shown as \<open><lambda>\<close>.  The compiler writes the
  name of a lambda behind the parameter list of the function it stands in, and that is where the
  text is cut first.\<close>

theorem lambda_shown_as_its_function:
  "ShortFunc (Some ''int main()::<lambda(int)>'') = ''int main'' \<and> ShortFunc (Some ''<lambda(int)>'') = ''<lambda>''"
  by code_simp

text \<open>The block for a limit \<open>n > 0\<close> shows as many layers as there are, but at most \<open>n\<close>; the layers
  shown are the nearest and the farthest, and with the number the marker gives they are all.\<close>

theorem block_limit:
  assumes "0 < nMaxLayers"
  shows "nHead nMaxLayers nTotal + nTail nMaxLayers nTotal = min nTotal (nat nMaxLayers)
    \<and> nTail nMaxLayers nTotal \<le> nHead nMaxLayers nTotal \<and> (bElide nMaxLayers nTotal \<longrightarrow> nHead nMaxLayers nTotal \<le> Suc (nTail nMaxLayers nTotal))
    \<and> (bElide nMaxLayers nTotal \<longrightarrow>
        int (nHead nMaxLayers nTotal + nTail nMaxLayers nTotal) + (int nTotal - nMaxLayers) = int nTotal)"
  using assms by (auto simp: nHead_def nTail_def bElide_def)

end
