(* ===== verification/Trace.thy ===== *)
theory Trace
  imports TraceText
begin

text \<open>
  The recording of chains for debugging (\<open>src/Common/Async/Trace.cpp\<close>, the trace members of
  \<open>PromiseState.h\<close> and their uses in \<open>Promise.h\<close> and \<open>PromiseLayer.h\<close>): every layer stores who it
  was hung on, every thread has a stack of the layers it is running and a stack of explicit
  parents for new chains.  \<open>VisitLayerChain\<close> walks from the running layer up to a layer without
  an upstream; nothing in the walk bounds it, so it is a function that may fail to return.
\<close>

record trace_layer =
  m_trace :: CLayerInfo
  result_of :: "promise_result option"

text \<open>A frame of the stack: the layer and when it started; the stacks of all threads.\<close>

record trace_sys =
  tr_layers :: "trace_layer list"
  g_nNextLayerId :: u32
  g_nNextChainId :: u32
  g_pTopFrame :: "nat \<Rightarrow> (nat option \<times> int) list"
  g_pTopAdopter :: "nat \<Rightarrow> nat option list"

definition trace_init :: trace_sys where
  "trace_init = \<lparr>tr_layers = [], g_nNextLayerId = 1, g_nNextChainId = 1, g_pTopFrame = (\<lambda>th. []), g_pTopAdopter = (\<lambda>th. [])\<rparr>"

definition set_trace :: "nat \<Rightarrow> (CLayerInfo \<Rightarrow> CLayerInfo) \<Rightarrow> trace_sys \<Rightarrow> trace_sys" where
  "set_trace L f s = s\<lparr>tr_layers := (tr_layers s)[L := (tr_layers s ! L)\<lparr>m_trace := f (m_trace (tr_layers s ! L))\<rparr>]\<rparr>"

definition LayerInfo :: "trace_sys \<Rightarrow> nat \<Rightarrow> CLayerInfo" where
  "LayerInfo s L = m_trace (tr_layers s ! L)"

definition TryGetResult :: "trace_sys \<Rightarrow> nat \<Rightarrow> promise_result option" where
  "TryGetResult s L = result_of (tr_layers s ! L)"

definition NextLayerId :: "trace_sys \<Rightarrow> u32 \<times> trace_sys" where
  "NextLayerId s = (g_nNextLayerId s, s\<lparr>g_nNextLayerId := g_nNextLayerId s + 1\<rparr>)"

definition NextChainId :: "trace_sys \<Rightarrow> u32 \<times> trace_sys" where
  "NextChainId s = (g_nNextChainId s, s\<lparr>g_nNextChainId := g_nNextChainId s + 1\<rparr>)"

definition SetTraceLink :: "nat option \<Rightarrow> HandlerMode \<Rightarrow> bool \<Rightarrow> u32 \<Rightarrow> CLayerInfo \<Rightarrow> CLayerInfo" where
  "SetTraceLink pUpstream mode chainRoot nId info =
     info\<lparr>upstream := pUpstream, eMode := mode, bChainRoot := chainRoot,
          bSubChain := (chainRoot \<and> pUpstream \<noteq> None), nChainId := nId\<rparr>"

text \<open>\<open>NewLayerState\<close>; the new layer is the last one.\<close>

definition NewLayerState :: "CSourceLoc \<Rightarrow> TaskKind \<Rightarrow> int \<Rightarrow> trace_sys \<Rightarrow> trace_sys" where
  "NewLayerState l k nNow s =
     (let (nId, s) = NextLayerId s
      in s\<lparr>tr_layers := tr_layers s @ [\<lparr>m_trace = (new_info nNow)\<lparr>eKind := k, loc := l, nLayerId := nId\<rparr>,
                                      result_of = None\<rparr>]\<rparr>)"

text \<open>\<open>CurrentLayerState\<close>: the innermost explicit parent, otherwise the running layer.\<close>

definition CurrentLayerState :: "nat \<Rightarrow> trace_sys \<Rightarrow> nat option" where
  "CurrentLayerState th s =
     (case g_pTopAdopter s th of
        a # _ \<Rightarrow> a
      | [] \<Rightarrow> (case g_pTopFrame s th of [] \<Rightarrow> None | f # _ \<Rightarrow> fst f))"

text \<open>What \<open>StartChain\<close> and \<open>NewFromHandle\<close> record for the first layer of a chain, and
  \<open>NewNextLayer\<close> for a layer behind another.\<close>

definition start_chain :: "nat \<Rightarrow> CSourceLoc \<Rightarrow> TaskKind \<Rightarrow> int \<Rightarrow> trace_sys \<Rightarrow> trace_sys" where
  "start_chain th l k nNow s =
     (let s = NewLayerState l k nNow s;
          L = length (tr_layers s) - 1;
          p = CurrentLayerState th s;
          (nId, s) = NextChainId s
      in set_trace L (SetTraceLink p kModeThen True nId) s)"

definition NewNextLayer :: "nat \<Rightarrow> CSourceLoc \<Rightarrow> HandlerMode \<Rightarrow> TaskKind \<Rightarrow> int \<Rightarrow> trace_sys \<Rightarrow> trace_sys" where
  "NewNextLayer up l mode k nNow s =
     (let s = NewLayerState l k nNow s;
          L = length (tr_layers s) - 1
      in set_trace L (SetTraceLink (Some up) mode False (nChainId (LayerInfo s up))) s)"

text \<open>\<open>CCurrentLayerFrame\<close>: construction and destruction; the name is that of the thread's pool.\<close>

definition enter_frame :: "nat \<Rightarrow> nat option \<Rightarrow> string option \<Rightarrow> int \<Rightarrow> trace_sys \<Rightarrow> trace_sys" where
  "enter_frame th spLayer pool nNow s =
     (let s = s\<lparr>g_pTopFrame := (g_pTopFrame s)(th := (spLayer, nNow) # g_pTopFrame s th)\<rparr>
      in case spLayer of
           None \<Rightarrow> s
         | Some L \<Rightarrow> set_trace L (\<lambda>i. i\<lparr>tid := Some th, spExecName := pool\<rparr>) s)"

definition leave_frame :: "nat \<Rightarrow> trace_sys \<Rightarrow> trace_sys" where
  "leave_frame th s = s\<lparr>g_pTopFrame := (g_pTopFrame s)(th := tl (g_pTopFrame s th))\<rparr>"

definition enter_adopter :: "nat \<Rightarrow> nat option \<Rightarrow> trace_sys \<Rightarrow> trace_sys" where
  "enter_adopter th spAdopter s = s\<lparr>g_pTopAdopter := (g_pTopAdopter s)(th := spAdopter # g_pTopAdopter s th)\<rparr>"

definition leave_adopter :: "nat \<Rightarrow> trace_sys \<Rightarrow> trace_sys" where
  "leave_adopter th s = s\<lparr>g_pTopAdopter := (g_pTopAdopter s)(th := tl (g_pTopAdopter s th))\<rparr>"

definition SetSelfDurationMs :: "nat \<Rightarrow> int \<Rightarrow> trace_sys \<Rightarrow> trace_sys" where
  "SetSelfDurationMs L nMs s = set_trace L (\<lambda>i. i\<lparr>nSelfMs := nMs\<rparr>) s"

definition note_settled :: "nat \<Rightarrow> promise_result \<Rightarrow> trace_sys \<Rightarrow> trace_sys" where
  "note_settled L r s = s\<lparr>tr_layers := (tr_layers s)[L := (tr_layers s ! L)\<lparr>result_of := Some r\<rparr>]\<rparr>"

subsection \<open>Looking at the chain\<close>

text \<open>\<open>CurrentLayer\<close>, for the thread \<open>th\<close>.\<close>

definition CurrentLayer :: "nat \<Rightarrow> int \<Rightarrow> trace_sys \<Rightarrow> CLayerInfo option" where
  "CurrentLayer th nNow s =
     (case g_pTopFrame s th of
        (Some L, t0) # _ \<Rightarrow> Some (FillView (LayerInfo s L) (TryGetResult s L) nNow (MsSince nNow t0) 0 True)
      | _ \<Rightarrow> None)"

text \<open>The loop of \<open>VisitLayerChain\<close>: the layers it visits, in order.\<close>

partial_function (option) visit_loop ::
  "trace_sys \<Rightarrow> int \<Rightarrow> int \<Rightarrow> nat \<Rightarrow> int \<Rightarrow> bool \<Rightarrow> CLayerInfo list option" where
  "visit_loop s nNow elapsed L depth cur =
     (let info = FillView (LayerInfo s L) (TryGetResult s L) nNow
            (if cur then elapsed else nSelfMs (LayerInfo s L)) depth cur
      in case upstream info of
           None \<Rightarrow> Some [info]
         | Some u \<Rightarrow> Option.bind (visit_loop s nNow elapsed u (depth + 1) False) (\<lambda>rest. Some (info # rest)))"

text \<open>\<open>None\<close>: the visit does not return; \<open>Some None\<close>: it returns false, no layer is running.\<close>

definition VisitLayerChain :: "nat \<Rightarrow> int \<Rightarrow> trace_sys \<Rightarrow> CLayerInfo list option option" where
  "VisitLayerChain th nNow s =
     (case g_pTopFrame s th of
        (Some L, t0) # _ \<Rightarrow> map_option Some (visit_loop s nNow (MsSince nNow t0) L 0 True)
      | _ \<Rightarrow> Some None)"

definition DescribeLayerChain :: "nat \<Rightarrow> int \<Rightarrow> trace_sys \<Rightarrow> string option" where
  "DescribeLayerChain th nNow s =
     map_option (\<lambda>v. case v of None \<Rightarrow> [] | Some infos \<Rightarrow> fold add_item infos []) (VisitLayerChain th nNow s)"

definition DescribeLayerChainBlock :: "int \<Rightarrow> nat \<Rightarrow> int \<Rightarrow> trace_sys \<Rightarrow> string option" where
  "DescribeLayerChainBlock nMaxLayers th nNow s =
     map_option (\<lambda>v. case v of None \<Rightarrow> [] | Some infos \<Rightarrow> chain_block nMaxLayers infos) (VisitLayerChain th nNow s)"

definition kDumpMaxLayers :: int where
  "kDumpMaxLayers = 24"

text \<open>What \<open>DumpLayerChain\<close> writes.\<close>

definition DumpLayerChain :: "int \<Rightarrow> nat \<Rightarrow> int \<Rightarrow> trace_sys \<Rightarrow> string option" where
  "DumpLayerChain nMaxLayers th nNow s =
     map_option (\<lambda>b. if b = [] then kTxtNoLayer else b) (DescribeLayerChainBlock nMaxLayers th nNow s)"

subsection \<open>Runs\<close>

inductive trace_step :: "trace_sys \<Rightarrow> trace_sys \<Rightarrow> bool" where
  start: "trace_step s (start_chain th l k nNow s)"
| append: "up < length (tr_layers s) \<Longrightarrow> trace_step s (NewNextLayer up l mode k nNow s)"
| enter: "L < length (tr_layers s) \<Longrightarrow> trace_step s (enter_frame th (Some L) pool nNow s)"
| leave: "g_pTopFrame s th \<noteq> [] \<Longrightarrow> trace_step s (leave_frame th s)"
| adopt: "a = None \<or> (\<exists>L < length (tr_layers s). a = Some L) \<Longrightarrow> trace_step s (enter_adopter th a s)"
| unadopt: "g_pTopAdopter s th \<noteq> [] \<Longrightarrow> trace_step s (leave_adopter th s)"
| self: "L < length (tr_layers s) \<Longrightarrow> trace_step s (SetSelfDurationMs L nMs s)"
| settled: "L < length (tr_layers s) \<Longrightarrow> TryGetResult s L = None \<Longrightarrow> trace_step s (note_settled L r s)"

inductive trace_reach :: "trace_sys \<Rightarrow> bool" where
  trace_start: "trace_reach trace_init"
| trace_next: "trace_reach s \<Longrightarrow> trace_step s s' \<Longrightarrow> trace_reach s'"

subsection \<open>Links point to older layers\<close>

definition is_root :: "trace_sys \<Rightarrow> nat \<Rightarrow> bool" where
  "is_root s k \<longleftrightarrow> bChainRoot (LayerInfo s k)"

definition roots_before :: "trace_sys \<Rightarrow> nat \<Rightarrow> nat" where
  "roots_before s k = card {j. j < k \<and> is_root s j}"

definition link_ok :: "trace_sys \<Rightarrow> nat \<Rightarrow> bool" where
  "link_ok s k \<longleftrightarrow> (\<forall>u. upstream (LayerInfo s k) = Some u \<longrightarrow> u < k)
     \<and> nLayerId (LayerInfo s k) = of_nat (Suc k)
     \<and> bSubChain (LayerInfo s k) = (is_root s k \<and> upstream (LayerInfo s k) \<noteq> None)
     \<and> (if is_root s k then nChainId (LayerInfo s k) = of_nat (Suc (roots_before s k))
        else \<exists>u. upstream (LayerInfo s k) = Some u \<and> nChainId (LayerInfo s k) = nChainId (LayerInfo s u))"

definition stacks_ok :: "trace_sys \<Rightarrow> bool" where
  "stacks_ok s \<longleftrightarrow> (\<forall>th. (\<forall>f \<in> set (g_pTopFrame s th). \<forall>L. fst f = Some L \<longrightarrow> L < length (tr_layers s))
     \<and> (\<forall>L. Some L \<in> set (g_pTopAdopter s th) \<longrightarrow> L < length (tr_layers s)))"

definition trace_inv :: "trace_sys \<Rightarrow> bool" where
  "trace_inv s \<longleftrightarrow> g_nNextLayerId s = of_nat (Suc (length (tr_layers s)))
     \<and> g_nNextChainId s = of_nat (Suc (roots_before s (length (tr_layers s))))
     \<and> (\<forall>k < length (tr_layers s). link_ok s k) \<and> stacks_ok s"

text \<open>Steps that add no layer keep every link.\<close>

definition same_links :: "trace_sys \<Rightarrow> trace_sys \<Rightarrow> bool" where
  "same_links s s' \<longleftrightarrow> length (tr_layers s') = length (tr_layers s)
     \<and> g_nNextLayerId s' = g_nNextLayerId s \<and> g_nNextChainId s' = g_nNextChainId s
     \<and> (\<forall>k < length (tr_layers s). upstream (LayerInfo s' k) = upstream (LayerInfo s k)
          \<and> bChainRoot (LayerInfo s' k) = bChainRoot (LayerInfo s k) \<and> bSubChain (LayerInfo s' k) = bSubChain (LayerInfo s k)
          \<and> nLayerId (LayerInfo s' k) = nLayerId (LayerInfo s k) \<and> nChainId (LayerInfo s' k) = nChainId (LayerInfo s k))"

lemma roots_before_cong: "(\<And>j. j < k \<Longrightarrow> is_root s' j = is_root s j) \<Longrightarrow> roots_before s' k = roots_before s k"
  unfolding roots_before_def by (rule arg_cong[where f = card]) auto

lemma link_ok_cong:
  assumes same: "\<And>j. j \<le> k \<Longrightarrow> upstream (LayerInfo s' j) = upstream (LayerInfo s j) \<and> is_root s' j = is_root s j
      \<and> bSubChain (LayerInfo s' j) = bSubChain (LayerInfo s j) \<and> nLayerId (LayerInfo s' j) = nLayerId (LayerInfo s j)
      \<and> nChainId (LayerInfo s' j) = nChainId (LayerInfo s j)"
    and ok: "link_ok s k"
  shows "link_ok s' k"
proof -
  have roots: "roots_before s' k = roots_before s k" by (rule roots_before_cong) (simp add: same)
  note here = same[OF order_refl]
  have up: "u < k" if "upstream (LayerInfo s k) = Some u" for u using ok that by (simp add: link_ok_def)
  show ?thesis
    using ok here roots same up less_imp_le unfolding link_ok_def by (metis (no_types, lifting))
qed

lemma trace_inv_same:
  assumes "same_links s s'" and "trace_inv s" and "stacks_ok s'"
  shows "trace_inv s'"
proof -
  have links: "link_ok s' k" if "k < length (tr_layers s)" for k
    by (rule link_ok_cong[of k s' s]) (use assms(1,2) that in \<open>auto simp: same_links_def trace_inv_def is_root_def\<close>)
  have "roots_before s' (length (tr_layers s)) = roots_before s (length (tr_layers s))"
    by (rule roots_before_cong) (use assms(1) in \<open>simp add: same_links_def is_root_def\<close>)
  with links assms show ?thesis by (simp add: trace_inv_def same_links_def)
qed

lemma LayerInfo_set_trace:
  "L < length (tr_layers s) \<Longrightarrow> LayerInfo (set_trace L f s) k = (if k = L then f (LayerInfo s L) else LayerInfo s k)"
  by (simp add: LayerInfo_def set_trace_def nth_list_update)

text \<open>A new layer.\<close>

lemma trace_inv_new:
  assumes inv: "trace_inv s" and layers: "tr_layers s' = tr_layers s @ [l]"
    and ids: "g_nNextLayerId s' = g_nNextLayerId s + 1" "g_nNextChainId s' = g_nNextChainId s + (if bChainRoot (m_trace l) then 1 else 0)"
    and stacks: "g_pTopFrame s' = g_pTopFrame s" "g_pTopAdopter s' = g_pTopAdopter s"
    and link: "nLayerId (m_trace l) = g_nNextLayerId s" "bSubChain (m_trace l) = (bChainRoot (m_trace l) \<and> upstream (m_trace l) \<noteq> None)"
      "\<And>u. upstream (m_trace l) = Some u \<Longrightarrow> u < length (tr_layers s)"
      "if bChainRoot (m_trace l) then nChainId (m_trace l) = g_nNextChainId s
       else \<exists>u. upstream (m_trace l) = Some u \<and> nChainId (m_trace l) = nChainId (LayerInfo s u)"
  shows "trace_inv s'"
proof -
  let ?n = "length (tr_layers s)"
  have old: "LayerInfo s' k = LayerInfo s k" if "k < ?n" for k using that by (simp add: LayerInfo_def layers nth_append)
  have new: "LayerInfo s' ?n = m_trace l" by (simp add: LayerInfo_def layers)
  have roots: "roots_before s' k = roots_before s k" if "k \<le> ?n" for k
    by (rule roots_before_cong) (use that old in \<open>simp add: is_root_def\<close>)
  have "{j. j < Suc ?n \<and> is_root s' j} = {j. j < ?n \<and> is_root s' j} \<union> (if bChainRoot (m_trace l) then {?n} else {})"
    using new by (auto simp: is_root_def less_Suc_eq)
  then have count: "roots_before s' (Suc ?n) = roots_before s ?n + (if bChainRoot (m_trace l) then 1 else 0)"
    using roots[OF order_refl] by (simp add: roots_before_def)
  have links: "link_ok s' k" if "k < ?n" for k
    by (rule link_ok_cong[of k s' s]) (use inv that old in \<open>auto simp: trace_inv_def is_root_def\<close>)
  have "link_ok s' ?n"
    using inv link new old roots[OF order_refl] by (auto simp: link_ok_def is_root_def trace_inv_def split: if_splits)
  with links have "\<forall>k < length (tr_layers s'). link_ok s' k" by (simp add: layers less_Suc_eq)
  moreover have "stacks_ok s'"
    using inv by (auto simp: trace_inv_def stacks_ok_def stacks layers intro: less_SucI)
  moreover have "g_nNextLayerId s' = of_nat (Suc (length (tr_layers s')))" "g_nNextChainId s' = of_nat (Suc (roots_before s' (length (tr_layers s'))))"
    using inv by (simp_all add: trace_inv_def ids layers count)
  ultimately show ?thesis by (simp add: trace_inv_def)
qed

lemma CurrentLayerState_ok: "trace_inv s \<Longrightarrow> CurrentLayerState th s = Some u \<Longrightarrow> u < length (tr_layers s)"
proof -
  assume "trace_inv s" and cur: "CurrentLayerState th s = Some u"
  then have frames: "f \<in> set (g_pTopFrame s th) \<Longrightarrow> fst f = Some u \<Longrightarrow> u < length (tr_layers s)"
    and adopters: "Some u \<in> set (g_pTopAdopter s th) \<Longrightarrow> u < length (tr_layers s)" for f
    by (simp_all add: trace_inv_def stacks_ok_def)
  show "u < length (tr_layers s)"
    using cur frames adopters by (auto simp: CurrentLayerState_def split: list.splits)
qed

lemma CurrentLayerState_cong:
  "g_pTopFrame s' = g_pTopFrame s \<Longrightarrow> g_pTopAdopter s' = g_pTopAdopter s \<Longrightarrow> CurrentLayerState th s' = CurrentLayerState th s"
  by (auto simp: CurrentLayerState_def split: list.split)

text \<open>The layer the two creating steps add.\<close>

lemma start_chain_layers:
  "tr_layers (start_chain th l k nNow s) = tr_layers s @ [\<lparr>m_trace = SetTraceLink (CurrentLayerState th s) kModeThen True (g_nNextChainId s)
      ((new_info nNow)\<lparr>eKind := k, loc := l, nLayerId := g_nNextLayerId s\<rparr>), result_of = None\<rparr>]"
  using CurrentLayerState_cong[of "NewLayerState l k nNow s" s]
  by (simp add: start_chain_def NewLayerState_def NextLayerId_def NextChainId_def set_trace_def nth_append Let_def)

lemma NewNextLayer_layers:
  "up < length (tr_layers s) \<Longrightarrow>
   tr_layers (NewNextLayer up l mode k nNow s) = tr_layers s @ [\<lparr>m_trace = SetTraceLink (Some up) mode False (nChainId (LayerInfo s up))
      ((new_info nNow)\<lparr>eKind := k, loc := l, nLayerId := g_nNextLayerId s\<rparr>), result_of = None\<rparr>]"
  by (simp add: NewNextLayer_def NewLayerState_def NextLayerId_def set_trace_def LayerInfo_def nth_append)

lemma trace_inv_step: "trace_step s s' \<Longrightarrow> trace_inv s \<Longrightarrow> trace_inv s'"
proof (induction rule: trace_step.induct)
  case (start s th l k nNow)
  then show ?case
    by (intro trace_inv_new[OF start start_chain_layers])
      (auto simp: start_chain_def NewLayerState_def NextLayerId_def NextChainId_def set_trace_def SetTraceLink_def Let_def
        intro: CurrentLayerState_ok)
next
  case (append up s l mode k nNow)
  then show ?case
    by (intro trace_inv_new[OF append(2) NewNextLayer_layers[OF append(1)]])
      (auto simp: NewNextLayer_def NewLayerState_def NextLayerId_def set_trace_def SetTraceLink_def)
next
  case (enter L s th pool nNow)
  show ?case
    by (rule trace_inv_same[OF _ enter(2)])
      (use enter in \<open>auto simp: same_links_def enter_frame_def Let_def set_trace_def LayerInfo_def nth_list_update trace_inv_def stacks_ok_def\<close>)
next
  case (leave s th)
  have "set (tl (g_pTopFrame s th)) \<subseteq> set (g_pTopFrame s th)" by (cases "g_pTopFrame s th") auto
  then show ?case
    by (intro trace_inv_same[OF _ leave(2)])
      (use leave in \<open>auto simp: same_links_def leave_frame_def LayerInfo_def trace_inv_def stacks_ok_def\<close>)
next
  case (adopt a s th)
  show ?case
    by (rule trace_inv_same[OF _ adopt(2)])
      (use adopt in \<open>auto simp: same_links_def enter_adopter_def LayerInfo_def trace_inv_def stacks_ok_def\<close>)
next
  case (unadopt s th)
  have "set (tl (g_pTopAdopter s th)) \<subseteq> set (g_pTopAdopter s th)" by (cases "g_pTopAdopter s th") auto
  then show ?case
    by (intro trace_inv_same[OF _ unadopt(2)])
      (use unadopt in \<open>auto simp: same_links_def leave_adopter_def LayerInfo_def trace_inv_def stacks_ok_def\<close>)
next
  case (self L s nMs)
  show ?case
    by (rule trace_inv_same[OF _ self(2)])
      (use self in \<open>auto simp: same_links_def SetSelfDurationMs_def set_trace_def LayerInfo_def nth_list_update trace_inv_def stacks_ok_def\<close>)
next
  case (settled L s r)
  show ?case
    by (rule trace_inv_same[OF _ settled(3)])
      (use settled in \<open>auto simp: same_links_def note_settled_def LayerInfo_def nth_list_update trace_inv_def stacks_ok_def\<close>)
qed

lemma trace_reach_inv: "trace_reach s \<Longrightarrow> trace_inv s"
proof (induction rule: trace_reach.induct)
  case trace_start
  then show ?case by (simp add: trace_inv_def trace_init_def stacks_ok_def roots_before_def)
qed (rule trace_inv_step)

subsection \<open>The visit returns\<close>

text \<open>The layers from \<open>L\<close> upwards, as a reference: a recursion that only follows links to older
  layers.\<close>

function ancestors :: "trace_sys \<Rightarrow> nat \<Rightarrow> nat list" where
  "ancestors s L =
     L # (case upstream (LayerInfo s L) of None \<Rightarrow> [] | Some u \<Rightarrow> if u < L then ancestors s u else [])"
  by pat_completeness auto

termination by (relation "measure snd") auto

declare ancestors.simps [simp del]

definition view_of :: "trace_sys \<Rightarrow> int \<Rightarrow> int \<Rightarrow> int \<Rightarrow> bool \<Rightarrow> nat \<Rightarrow> CLayerInfo" where
  "view_of s nNow elapsed depth cur L = FillView (LayerInfo s L) (TryGetResult s L) nNow
     (if cur then elapsed else nSelfMs (LayerInfo s L)) depth cur"

fun views_from :: "trace_sys \<Rightarrow> int \<Rightarrow> int \<Rightarrow> nat list \<Rightarrow> CLayerInfo list" where
  "views_from s nNow depth [] = []"
| "views_from s nNow depth (L # Ls) = view_of s nNow 0 depth False L # views_from s nNow (depth + 1) Ls"

lemma upstream_view: "upstream (view_of s nNow elapsed depth cur L) = upstream (LayerInfo s L)"
  by (simp add: view_of_def FillView_def Let_def split: option.split)

lemma visit_loop_step:
  "visit_loop s nNow elapsed L depth cur =
     (case upstream (LayerInfo s L) of
        None \<Rightarrow> Some [view_of s nNow elapsed depth cur L]
      | Some u \<Rightarrow> map_option (Cons (view_of s nNow elapsed depth cur L)) (visit_loop s nNow elapsed u (depth + 1) False))"
proof -
  have "visit_loop s nNow elapsed L depth cur =
     (case upstream (view_of s nNow elapsed depth cur L) of
        None \<Rightarrow> Some [view_of s nNow elapsed depth cur L]
      | Some u \<Rightarrow> Option.bind (visit_loop s nNow elapsed u (depth + 1) False)
          (\<lambda>rest. Some (view_of s nNow elapsed depth cur L # rest)))"
    by (subst visit_loop.simps) (simp only: view_of_def[symmetric] Let_def)
  then show ?thesis by (simp add: upstream_view map_conv_bind_option comp_def split: option.split)
qed

lemma older: "trace_inv s \<Longrightarrow> L < length (tr_layers s) \<Longrightarrow> upstream (LayerInfo s L) = Some u \<Longrightarrow> u < L"
  by (simp add: trace_inv_def link_ok_def)

lemma visit_loop_ancestors:
  "trace_inv s \<Longrightarrow> L < length (tr_layers s) \<Longrightarrow>
   visit_loop s nNow elapsed L depth cur
     = Some (view_of s nNow elapsed depth cur L # views_from s nNow (depth + 1) (tl (ancestors s L)))"
proof (induction L arbitrary: depth cur rule: less_induct)
  case (less L)
  show ?case
  proof (cases "upstream (LayerInfo s L)")
    case None
    then show ?thesis by (subst visit_loop_step, subst ancestors.simps) simp
  next
    case (Some u)
    with less.prems have u: "u < L" by (rule_tac older)
    have "view_of s nNow elapsed (depth + 1) False u = view_of s nNow 0 (depth + 1) False u" by (simp add: view_of_def)
    moreover have "ancestors s u = u # tl (ancestors s u)" by (subst (1 2) ancestors.simps) simp
    ultimately have "view_of s nNow elapsed (depth + 1) False u # views_from s nNow (depth + 1 + 1) (tl (ancestors s u))
        = views_from s nNow (depth + 1) (ancestors s u)"
      by (metis views_from.simps(2))
    moreover have "tl (ancestors s L) = ancestors s u" using Some u by (subst ancestors.simps) simp
    ultimately show ?thesis
      using less.IH[OF u less.prems(1), of "depth + 1" False] u less.prems(2) Some by (subst visit_loop_step) simp
  qed
qed

lemma ancestors_chain:
  "trace_inv s \<Longrightarrow> L < length (tr_layers s) \<Longrightarrow>
   upstream (LayerInfo s (last (ancestors s L))) = None \<and> sorted_wrt (>) (ancestors s L)
     \<and> (\<forall>i. Suc i < length (ancestors s L) \<longrightarrow>
          upstream (LayerInfo s (ancestors s L ! i)) = Some (ancestors s L ! Suc i))
     \<and> hd (ancestors s L) = L \<and> set (ancestors s L) \<subseteq> {..L}"
proof (induction L rule: less_induct)
  case (less L)
  show ?case
  proof (cases "upstream (LayerInfo s L)")
    case None
    then show ?thesis by (subst (1 2 3 4 5 6 7) ancestors.simps) simp
  next
    case (Some u)
    with less.prems have u: "u < L" by (rule_tac older)
    have eq: "ancestors s L = L # ancestors s u" using Some u by (subst ancestors.simps) simp
    have ne: "ancestors s u \<noteq> []" by (subst ancestors.simps) simp
    have IH: "upstream (LayerInfo s (last (ancestors s u))) = None" "sorted_wrt (>) (ancestors s u)"
      "\<And>i. Suc i < length (ancestors s u) \<Longrightarrow> upstream (LayerInfo s (ancestors s u ! i)) = Some (ancestors s u ! Suc i)"
      "hd (ancestors s u) = u" "set (ancestors s u) \<subseteq> {..u}"
      using less.IH[OF u less.prems(1)] u less.prems(2) by auto
    have "upstream (LayerInfo s ((L # ancestors s u) ! i)) = Some (ancestors s u ! i)" if "i < length (ancestors s u)" for i
      using that Some ne IH(3,4) by (cases i) (auto simp: hd_conv_nth)
    then show ?thesis using IH u ne by (auto simp: eq)
  qed
qed

text \<open>The visit returns, and shows the layers from the running one up to one without an upstream.
  In every reachable state of the trace, for a thread that is running the layer \<open>L\<close>, \<open>VisitLayerChain\<close>
  returns true after it has shown \<open>L\<close> as the current layer at depth 0, then its upstream layer at
  depth 1, and so on, each one older than the one before, up to a layer without an upstream.\<close>

theorem visit_shows_ancestors:
  assumes "trace_reach s" and "g_pTopFrame s th = (Some L, t0) # fs"
  shows "VisitLayerChain th nNow s
      = Some (Some (view_of s nNow (MsSince nNow t0) 0 True L # views_from s nNow 1 (tl (ancestors s L))))
    \<and> upstream (LayerInfo s (last (ancestors s L))) = None \<and> sorted_wrt (>) (ancestors s L)
    \<and> (\<forall>i. Suc i < length (ancestors s L) \<longrightarrow>
         upstream (LayerInfo s (ancestors s L ! i)) = Some (ancestors s L ! Suc i))"
proof -
  have inv: "trace_inv s" by (rule trace_reach_inv[OF assms(1)])
  have "stacks_ok s" using inv by (simp add: trace_inv_def)
  then have L: "L < length (tr_layers s)" unfolding stacks_ok_def using assms(2) by (metis fst_conv list.set_intros(1))
  show ?thesis
    using ancestors_chain[OF inv L] visit_loop_ancestors[OF inv L, of nNow _ 0 True]
    by (simp add: VisitLayerChain_def assms(2))
qed

subsection \<open>Layer and chain numbers\<close>

function chain_root :: "trace_sys \<Rightarrow> nat \<Rightarrow> nat" where
  "chain_root s L =
     (if is_root s L then L
      else case upstream (LayerInfo s L) of None \<Rightarrow> L | Some u \<Rightarrow> if u < L then chain_root s u else L)"
  by pat_completeness auto

termination by (relation "measure snd") auto

declare chain_root.simps [simp del]

lemma chain_root_root:
  "trace_inv s \<Longrightarrow> L < length (tr_layers s) \<Longrightarrow>
   is_root s (chain_root s L) \<and> chain_root s L \<le> L \<and> nChainId (LayerInfo s L) = nChainId (LayerInfo s (chain_root s L))"
proof (induction L rule: less_induct)
  case (less L)
  show ?case
  proof (cases "is_root s L")
    case False
    then obtain u where u: "upstream (LayerInfo s L) = Some u" "u < L" "nChainId (LayerInfo s L) = nChainId (LayerInfo s u)"
      using less.prems unfolding trace_inv_def link_ok_def by metis
    have "chain_root s L = chain_root s u" using False u by (subst chain_root.simps) simp
    then show ?thesis using less.IH[OF u(2) less.prems(1)] u less.prems(2) by auto
  qed (subst (1 2 3) chain_root.simps, simp)
qed

lemma roots_before_mono:
  assumes "is_root s a" and "a < b"
  shows "roots_before s a < roots_before s b"
  unfolding roots_before_def by (rule psubset_card_mono) (use assms in auto)

lemma roots_before_le: "roots_before s k \<le> k"
proof -
  have "roots_before s k \<le> card {..<k}" unfolding roots_before_def by (rule card_mono) auto
  then show ?thesis by simp
qed

lemma of_nat_u32_inj: "a < 2 ^ 32 \<Longrightarrow> b < 2 ^ 32 \<Longrightarrow> (of_nat a :: u32) = of_nat b \<longleftrightarrow> a = b"
  by (simp add: word_of_nat_eq_iff take_bit_nat_eq_self)

text \<open>The numbers in the trace identify what they say.  As long as fewer than \<open>2 ^ 32\<close> layers have
  been created, two layers with the same layer number are the same layer, and two layers have the
  same chain number exactly when they hang on the same chain root.\<close>

theorem chain_numbers:
  assumes reach: "trace_reach s" and n: "length (tr_layers s) < 2 ^ 32 - 1"
    and ab: "a < length (tr_layers s)" "b < length (tr_layers s)"
  shows "(nLayerId (LayerInfo s a) = nLayerId (LayerInfo s b) \<longleftrightarrow> a = b)
    \<and> (nChainId (LayerInfo s a) = nChainId (LayerInfo s b) \<longleftrightarrow> chain_root s a = chain_root s b)"
proof -
  have inv: "trace_inv s" by (rule trace_reach_inv[OF reach])
  then have links: "link_ok s k" if "k < length (tr_layers s)" for k using that by (simp add: trace_inv_def)
  have ids: "nLayerId (LayerInfo s a) = of_nat (Suc a)" "nLayerId (LayerInfo s b) = of_nat (Suc b)"
    using links ab by (simp_all only: link_ok_def)
  have layers: "nLayerId (LayerInfo s a) = nLayerId (LayerInfo s b) \<longleftrightarrow> a = b"
    unfolding ids using of_nat_u32_inj[of "Suc a" "Suc b"] ab n by simp
  define x y where "x = chain_root s a" and "y = chain_root s b"
  have x: "is_root s x" "x \<le> a" "nChainId (LayerInfo s a) = nChainId (LayerInfo s x)"
    and y: "is_root s y" "y \<le> b" "nChainId (LayerInfo s b) = nChainId (LayerInfo s y)"
    using chain_root_root[OF inv] ab by (simp_all add: x_def y_def)
  have "nChainId (LayerInfo s x) = of_nat (Suc (roots_before s x))" "nChainId (LayerInfo s y) = of_nat (Suc (roots_before s y))"
    using links[of x] links[of y] x y ab by (simp_all only: link_ok_def if_True)
  then have "nChainId (LayerInfo s x) = nChainId (LayerInfo s y) \<longleftrightarrow> roots_before s x = roots_before s y"
    using of_nat_u32_inj[of "Suc (roots_before s x)" "Suc (roots_before s y)"] roots_before_le[of s x] roots_before_le[of s y]
      x y ab n by simp
  also have "\<dots> \<longleftrightarrow> x = y" using roots_before_mono[of s x y] roots_before_mono[of s y x] x(1) y(1) by (metis less_irrefl linorder_neqE_nat)
  finally show ?thesis using layers x y by (simp add: x_def y_def)
qed

subsection \<open>A chain and its child chain\<close>

text \<open>A chain of two layers; the second starts a chain while it runs, whose layer is then running
  on another thread.\<close>

definition demo_loc :: "int \<Rightarrow> CSourceLoc" where
  "demo_loc n = \<lparr>szFunction = Some ''void run()'', szFile = Some ''src/demo.cpp'', nLine = n\<rparr>"

definition demo_trace :: trace_sys where
  "demo_trace = enter_frame 2 (Some 2) None 30
     (start_chain 1 (demo_loc 9) (Gated kRead) 20
        (enter_frame 1 (Some 1) (Some ''main'') 10
           (NewNextLayer 0 (demo_loc 8) kModeFinally (Gated kWrite) 5 (start_chain 1 (demo_loc 7) (Gated kWrite) 0 trace_init))))"

lemma start_chain_length: "length (tr_layers (start_chain th l k nNow s)) = Suc (length (tr_layers s))"
  by (simp add: start_chain_layers)

lemma NewNextLayer_length: "up < length (tr_layers s) \<Longrightarrow> length (tr_layers (NewNextLayer up l mode k nNow s)) = Suc (length (tr_layers s))"
  by (simp add: NewNextLayer_layers)

lemma enter_frame_length: "length (tr_layers (enter_frame th a pool nNow s)) = length (tr_layers s)"
  by (simp add: enter_frame_def set_trace_def Let_def split: option.split)

lemmas demo_lengths = start_chain_length NewNextLayer_length enter_frame_length

lemmas trace_intros = trace_start trace_next[OF _ trace_step.start] trace_next[OF _ trace_step.append]
  trace_next[OF _ trace_step.enter] trace_next[OF _ trace_step.adopt]

lemma demo_trace_reach: "trace_reach demo_trace" and demo_trace_length: "length (tr_layers demo_trace) = 3"
proof -
  have 1: "length (tr_layers trace_init) = 0" by (simp add: trace_init_def)
  show "trace_reach demo_trace"
    unfolding demo_trace_def by (intro trace_intros) (simp_all add: demo_lengths 1)
  show "length (tr_layers demo_trace) = 3" by (simp add: demo_trace_def demo_lengths 1)
qed

lemma demo_trace_fields:
  "g_pTopFrame demo_trace 2 = [(Some 2, 30)]" "ancestors demo_trace 2 = [2, 1, 0]"
  "chain_root demo_trace 0 = 0" "chain_root demo_trace 1 = 0" "chain_root demo_trace 2 = 2"
  by code_simp+

theorem visit_shows_ancestors_witness:
  "\<exists>a b c. VisitLayerChain 2 50 demo_trace = Some (Some [a, b, c]) \<and> bCurrent a \<and> bSubChain a \<and> nSelfMs a = 20
     \<and> eMode b = kModeFinally \<and> nDepth b = 1 \<and> bChainRoot c \<and> nAgeMs c = 50"
proof -
  have v: "VisitLayerChain 2 50 demo_trace = Some (Some (view_of demo_trace 50 20 0 True 2 # views_from demo_trace 50 1 [1, 0]))"
    using visit_shows_ancestors[OF demo_trace_reach, of 2 2 30 "[]" 50] by (simp add: demo_trace_fields MsSince_def)
  have "bCurrent (view_of demo_trace 50 20 0 True 2)" "bSubChain (view_of demo_trace 50 20 0 True 2)"
    "nSelfMs (view_of demo_trace 50 20 0 True 2) = 20" "eMode (view_of demo_trace 50 0 1 False 1) = kModeFinally"
    "nDepth (view_of demo_trace 50 0 1 False 1) = 1" "bChainRoot (view_of demo_trace 50 0 2 False 0)"
    "nAgeMs (view_of demo_trace 50 0 2 False 0) = 50" by code_simp+
  with v show ?thesis by simp
qed

theorem chain_numbers_witness:
  "nChainId (LayerInfo demo_trace 0) = nChainId (LayerInfo demo_trace 1)
     \<and> nChainId (LayerInfo demo_trace 1) \<noteq> nChainId (LayerInfo demo_trace 2)"
  using chain_numbers[OF demo_trace_reach, of 0 1] chain_numbers[OF demo_trace_reach, of 1 2]
  by (simp add: demo_trace_fields demo_trace_fields[unfolded One_nat_def] demo_trace_length)

text \<open>The header says that an empty explicit parent means the running layer.  \<open>CurrentLayerState\<close>
  returns the empty parent instead, so a chain started inside such a scope is recorded without a
  parent although a layer is running.\<close>

theorem empty_adopter_hides_running_layer:
  "\<exists>s. trace_reach s \<and> g_pTopFrame s 1 = [(Some 0, 0)] \<and> g_pTopAdopter s 1 = [None]
     \<and> \<not> bSubChain (LayerInfo (start_chain 1 no_loc (Gated kRead) 1 s) 1)"
proof -
  define s where "s = enter_adopter 1 None (enter_frame 1 (Some 0) None 0 (start_chain 1 no_loc (Gated kRead) 0 trace_init))"
  have "trace_reach s"
    unfolding s_def
    by (intro trace_intros) (simp_all add: start_chain_length)
  moreover have "g_pTopFrame s 1 = [(Some 0, 0)]" "g_pTopAdopter s 1 = [None]"
    "\<not> bSubChain (LayerInfo (start_chain 1 no_loc (Gated kRead) 1 s) 1)" unfolding s_def by code_simp+
  ultimately show ?thesis by blast
qed

end
