(* ===== verification/Coroutine.thy ===== *)
theory Coroutine
  imports Promise "HOL-Library.Multiset"
begin

text \<open>
  Stackless coroutines (\<open>src/Common/Coroutine/Coroutine.h\<close>).  The body a user writes between
  \<open>CO_BEGIN\<close> and \<open>CO_END\<close> is a function of the resumption label and the shared context: it runs
  to the next macro and says which one that is, so the \<open>switch\<close> of the macros is the call of the
  body at the stored label.  An awaited promise is a name; it settles at any time, with any result,
  and its notice is delivered once.  The steps are those of the threads involved: a posted resume
  is taken by a worker, a notice arrives, one of the parallel awaits is registered.  Whether the
  executor has stopped, accepts a task or lets one run in place is the environment's choice, as is
  what the awaited chains do to the shared context meanwhile.  The sequential program the macros
  are meant to write is stated at the end, and the machine follows it.
\<close>

subsection \<open>State\<close>

record await_group =
  nPending :: int
  bRejected :: bool
  resultFirst :: promise_result

definition CAwaitAllGroup :: await_group where
  "CAwaitAllGroup = \<lparr>nPending = 0, bRejected = False, resultFirst = Resolve\<rparr>"

text \<open>How a segment of the body ends.\<close>

datatype 'p co_out =
    CoAwait nat TaskKind 'p
  | CoAwaitAll nat TaskKind "'p list"
  | CoReturn promise_result
  | CoEnd                                  \<comment> \<open>\<open>CO_RETURN_VOID\<close>, \<open>CO_END\<close>\<close>
  | CoThrows exn
  | CoThrowsOther

type_synonym ('p, 'c) co_body = "nat \<Rightarrow> 'c \<Rightarrow> 'p co_out \<times> 'c"

text \<open>A notice: of a single await, or of a member of a group; then it is in one of three phases:
  not called yet, about to write the group's first rejection, about to count itself.\<close>

datatype cb_phase = CbWaiting | CbWrites promise_result | CbCounts

record 'p callback =
  cb_group :: "nat option"
  cb_kind :: TaskKind
  cb_promise :: 'p
  cb_phase :: cb_phase

datatype ('p, 'c) co_event =
    Began nat TaskKind 'c        \<comment> \<open>a segment was entered at a label, in a task of a kind\<close>
  | Got 'p promise_result        \<comment> \<open>the result of an awaited promise arrived\<close>
  | Failed                       \<comment> \<open>the body was entered after an awaited promise was rejected\<close>
  | StoppedBy                    \<comment> \<open>the executor could not resume the body\<close>

text \<open>The hot state of the coroutine, its completion layer, and around it the context, the groups,
  the notices that are registered, the awaits that are still being registered, and the resumes that
  the executor has accepted.\<close>

record ('p, 'c) coroutine =
  m_pExec :: bool
  m_wpSelf :: bool                           \<comment> \<open>whether the coroutine can lock itself\<close>
  nStep :: nat
  bTerminated :: bool
  resultTerminate :: promise_result
  m_pSegment :: "nat pstate"
  co_ctx :: 'c
  co_groups :: "await_group list"
  co_callbacks :: "'p callback list"
  co_registering :: "(nat \<times> TaskKind \<times> 'p list) list"
  co_posted :: "TaskKind list"
  co_lost :: bool                            \<comment> \<open>the stopping executor has dropped an accepted resume\<close>
  co_notified :: "(nat \<times> promise_result) list"
  co_log :: "('p, 'c) co_event list"

definition CCoroutine :: "'c \<Rightarrow> ('p, 'c) coroutine" where
  "CCoroutine spContext = \<lparr>m_pExec = False, m_wpSelf = False, nStep = 0, bTerminated = False, resultTerminate = Resolve,
     m_pSegment = SetKind kKindBookkeeping CPromiseState, co_ctx = spContext, co_groups = [], co_callbacks = [],
     co_registering = [], co_posted = [], co_lost = False, co_notified = [], co_log = []\<rparr>"

text \<open>What the environment decides when a notice arrives.\<close>

record co_env =
  exec_stopped :: bool
  in_exec_thread :: bool
  inline_depth :: nat
  can_run_inline :: "task_kind \<Rightarrow> bool"
  pool_pending :: nat
  exec_accepts :: bool

subsection \<open>Operations\<close>

definition co_note :: "('p, 'c) co_event \<Rightarrow> ('p, 'c) coroutine \<Rightarrow> ('p, 'c) coroutine" where
  "co_note ev s = s\<lparr>co_log := co_log s @ [ev]\<rparr>"

definition co_settle :: "promise_result \<Rightarrow> ('p, 'c) coroutine \<Rightarrow> ('p, 'c) coroutine" where
  "co_settle r s =
     (let (hs, st) = Settle_locked r (m_pSegment s)
      in s\<lparr>m_pSegment := st, co_notified := co_notified s @ map (\<lambda>h. (h, r)) hs\<rparr>)"

definition CompleteResult :: "promise_result \<Rightarrow> ('p, 'c) coroutine \<Rightarrow> ('p, 'c) coroutine" where
  "CompleteResult r s = co_settle r s"

definition CompleteDone :: "('p, 'c) coroutine \<Rightarrow> ('p, 'c) coroutine" where
  "CompleteDone s = co_settle Resolve s"

definition CompleteTerminated :: "('p, 'c) coroutine \<Rightarrow> ('p, 'c) coroutine" where
  "CompleteTerminated s = co_settle (resultTerminate s) s"

definition MarkTerminated :: "promise_result \<Rightarrow> ('p, 'c) coroutine \<Rightarrow> ('p, 'c) coroutine" where
  "MarkTerminated r s = s\<lparr>resultTerminate := r, bTerminated := True\<rparr>"

definition Terminate :: "promise_result \<Rightarrow> ('p, 'c) coroutine \<Rightarrow> ('p, 'c) coroutine" where
  "Terminate r s = co_settle r (MarkTerminated r s)"

definition AwaitWait :: "nat \<Rightarrow> TaskKind \<Rightarrow> 'p \<Rightarrow> ('p, 'c) coroutine \<Rightarrow> ('p, 'c) coroutine" where
  "AwaitWait nLine eKind p s = s\<lparr>nStep := nLine,
     co_callbacks := co_callbacks s @ [\<lparr>cb_group = None, cb_kind = eKind, cb_promise = p, cb_phase = CbWaiting\<rparr>]\<rparr>"

definition AwaitAll :: "nat \<Rightarrow> TaskKind \<Rightarrow> 'p list \<Rightarrow> ('p, 'c) coroutine \<Rightarrow> ('p, 'c) coroutine" where
  "AwaitAll nLine eKind ps s =
     (let s = s\<lparr>nStep := nLine, co_groups := co_groups s @ [CAwaitAllGroup\<lparr>nPending := int (length ps)\<rparr>]\<rparr>
      in if length ps = 0 then s
         else s\<lparr>co_registering := co_registering s @ [(length (co_groups s) - 1, eKind, ps)]\<rparr>)"

text \<open>One step of \<open>AwaitEach\<close>: the notice of the next promise of the list is registered.\<close>

definition AwaitEach :: "nat \<Rightarrow> ('p, 'c) coroutine \<Rightarrow> ('p, 'c) coroutine" where
  "AwaitEach i s =
     (case co_registering s ! i of
        (g, eKind, p # rest) \<Rightarrow>
          s\<lparr>co_registering := take i (co_registering s) @ (if rest = [] then [] else [(g, eKind, rest)])
                                @ drop (Suc i) (co_registering s),
            co_callbacks := co_callbacks s
              @ [\<lparr>cb_group = Some g, cb_kind = eKind, cb_promise = p, cb_phase = CbWaiting\<rparr>]\<rparr>
      | (g, eKind, []) \<Rightarrow> s\<lparr>co_registering := take i (co_registering s) @ drop (Suc i) (co_registering s)\<rparr>)"

text \<open>\<open>Run\<close> as the macros write it, in a task of kind \<open>k\<close>, and \<open>Resume\<close> around it.\<close>

definition Resume :: "('p, 'c) co_body \<Rightarrow> TaskKind \<Rightarrow> ('p, 'c) coroutine \<Rightarrow> ('p, 'c) coroutine" where
  "Resume body k s =
     (if nStep s \<noteq> 0 \<and> bTerminated s then CompleteTerminated (co_note Failed s)
      else let (out, c) = body (nStep s) (co_ctx s);
               s = (co_note (Began (nStep s) k (co_ctx s)) s)\<lparr>co_ctx := c\<rparr>
           in case out of
                CoAwait nLine eKind p \<Rightarrow> AwaitWait nLine eKind p s
              | CoAwaitAll nLine eKind ps \<Rightarrow> AwaitAll nLine eKind ps s
              | CoReturn r \<Rightarrow> CompleteResult r s
              | CoEnd \<Rightarrow> CompleteDone s
              | CoThrows e \<Rightarrow> Terminate (Reject (runtime_error (what e))) s
              | CoThrowsOther \<Rightarrow> Terminate kHandlerThrew s)"

text \<open>\<open>PostResume\<close>; whoever calls it holds the coroutine, so it can lock itself once \<open>SetSelf\<close> was
  called.\<close>

definition PostResume :: "co_env \<Rightarrow> TaskKind \<Rightarrow> ('p, 'c) coroutine \<Rightarrow> ('p, 'c) coroutine" where
  "PostResume env k s =
     (if \<not> m_pExec s then Terminate kStopped (co_note StoppedBy s)
      else if \<not> m_wpSelf s then Terminate kStopped (co_note StoppedBy s)
      else if exec_accepts env then s\<lparr>co_posted := co_posted s @ [k]\<rparr>
      else Terminate kStopped (co_note StoppedBy s))"

definition ResumeInline :: "('p, 'c) co_body \<Rightarrow> co_env \<Rightarrow> TaskKind \<Rightarrow> ('p, 'c) coroutine \<Rightarrow> ('p, 'c) coroutine" where
  "ResumeInline body env k s =
     (if \<not> m_pExec s \<or> exec_stopped env then Terminate kStopped (co_note StoppedBy s)
      else if ShouldInline (in_exec_thread env) (inline_depth env) (can_run_inline env) k True (pool_pending env)
      then Resume body k s
      else PostResume env k s)"

definition BindExecutor :: "('p, 'c) coroutine \<Rightarrow> ('p, 'c) coroutine" where
  "BindExecutor s = s\<lparr>m_pExec := True\<rparr>"

definition Reset :: "('p, 'c) coroutine \<Rightarrow> ('p, 'c) coroutine" where
  "Reset s = s\<lparr>m_pSegment := SetKind kKindBookkeeping CPromiseState, nStep := 0, bTerminated := False,
     resultTerminate := Resolve\<rparr>"

definition SetSelf :: "('p, 'c) coroutine \<Rightarrow> ('p, 'c) coroutine" where
  "SetSelf s = s\<lparr>m_wpSelf := True\<rparr>"

definition Start :: "co_env \<Rightarrow> TaskKind \<Rightarrow> ('p, 'c) coroutine \<Rightarrow> ('p, 'c) coroutine" where
  "Start env k s = PostResume env k (Reset (BindExecutor s))"

definition CoStart :: "co_env \<Rightarrow> TaskKind \<Rightarrow> 'c \<Rightarrow> ('p, 'c) coroutine" where
  "CoStart env k spContext = Start env k (SetSelf (CCoroutine spContext))"

subsection \<open>The notices\<close>

definition cb_remove :: "nat \<Rightarrow> ('p, 'c) coroutine \<Rightarrow> ('p, 'c) coroutine" where
  "cb_remove j s = s\<lparr>co_callbacks := take j (co_callbacks s) @ drop (Suc j) (co_callbacks s)\<rparr>"

definition cb_moves :: "nat \<Rightarrow> cb_phase \<Rightarrow> ('p, 'c) coroutine \<Rightarrow> ('p, 'c) coroutine" where
  "cb_moves j ph s = s\<lparr>co_callbacks := (co_callbacks s)[j := (co_callbacks s ! j)\<lparr>cb_phase := ph\<rparr>]\<rparr>"

text \<open>The notice of a single await.\<close>

definition on_await :: "('p, 'c) co_body \<Rightarrow> co_env \<Rightarrow> nat \<Rightarrow> promise_result \<Rightarrow> ('p, 'c) coroutine \<Rightarrow> ('p, 'c) coroutine" where
  "on_await body env j result s =
     (let cb = co_callbacks s ! j;
          s = co_note (Got (cb_promise cb) result) (cb_remove j s);
          s = (if IsRejected result then MarkTerminated result s else s)
      in ResumeInline body env (cb_kind cb) s)"

text \<open>\<open>OnAwaitDone\<close> in three parts: the compare and exchange of \<open>bRejected\<close>, the write of
  \<open>resultFirst\<close>, and the count.\<close>

definition OnAwaitDone_reject :: "nat \<Rightarrow> nat \<Rightarrow> promise_result \<Rightarrow> ('p, 'c) coroutine \<Rightarrow> ('p, 'c) coroutine" where
  "OnAwaitDone_reject j g result s =
     (let s = co_note (Got (cb_promise (co_callbacks s ! j)) result) s
      in if IsRejected result \<and> \<not> bRejected (co_groups s ! g)
         then cb_moves j (CbWrites result) (s\<lparr>co_groups := (co_groups s)[g := (co_groups s ! g)\<lparr>bRejected := True\<rparr>]\<rparr>)
         else cb_moves j CbCounts s)"

definition OnAwaitDone_write :: "nat \<Rightarrow> nat \<Rightarrow> promise_result \<Rightarrow> ('p, 'c) coroutine \<Rightarrow> ('p, 'c) coroutine" where
  "OnAwaitDone_write j g result s =
     cb_moves j CbCounts (s\<lparr>co_groups := (co_groups s)[g := (co_groups s ! g)\<lparr>resultFirst := result\<rparr>]\<rparr>)"

definition OnAwaitDone_count :: "('p, 'c) co_body \<Rightarrow> co_env \<Rightarrow> nat \<Rightarrow> nat \<Rightarrow> ('p, 'c) coroutine \<Rightarrow> ('p, 'c) coroutine" where
  "OnAwaitDone_count body env j g s =
     (let k = cb_kind (co_callbacks s ! j);
          grp = co_groups s ! g;
          s = (cb_remove j s)\<lparr>co_groups := (co_groups s)[g := grp\<lparr>nPending := nPending grp - 1\<rparr>]\<rparr>
      in if nPending grp = 1
         then ResumeInline body env k (if bRejected grp then MarkTerminated (resultFirst grp) s else s)
         else s)"

subsection \<open>Runs\<close>

definition co_take :: "nat \<Rightarrow> ('p, 'c) coroutine \<Rightarrow> ('p, 'c) coroutine" where
  "co_take i s = s\<lparr>co_posted := take i (co_posted s) @ drop (Suc i) (co_posted s)\<rparr>"

text \<open>A handler is registered on the layer that \<open>AsPromise\<close> shows.\<close>

definition co_watch :: "nat \<Rightarrow> ('p, 'c) coroutine \<Rightarrow> ('p, 'c) coroutine" where
  "co_watch h s =
     (case Register_locked (Some h) (m_pSegment s) of
        (None, st) \<Rightarrow> s\<lparr>m_pSegment := st\<rparr>
      | (Some r, st) \<Rightarrow> s\<lparr>m_pSegment := st, co_notified := co_notified s @ [(h, r)]\<rparr>)"

definition cb_at :: "nat \<Rightarrow> nat option \<Rightarrow> cb_phase \<Rightarrow> ('p, 'c) coroutine \<Rightarrow> bool" where
  "cb_at j g ph s \<longleftrightarrow> j < length (co_callbacks s) \<and> cb_group (co_callbacks s ! j) = g \<and> cb_phase (co_callbacks s ! j) = ph"

inductive co_step :: "('p, 'c) co_body \<Rightarrow> ('p, 'c) coroutine \<Rightarrow> ('p, 'c) coroutine \<Rightarrow> bool" for body where
  resumed: "i < length (co_posted s) \<Longrightarrow> co_step body s (Resume body (co_posted s ! i) (co_take i s))"
| dropped: "i < length (co_posted s) \<Longrightarrow> co_step body s ((co_take i s)\<lparr>co_lost := True\<rparr>)"
| registers: "i < length (co_registering s) \<Longrightarrow> co_step body s (AwaitEach i s)"
| arrives: "cb_at j None CbWaiting s \<Longrightarrow> co_step body s (on_await body env j r s)"
| member: "cb_at j (Some g) CbWaiting s \<Longrightarrow> co_step body s (OnAwaitDone_reject j g r s)"
| writes: "cb_at j (Some g) (CbWrites r) s \<Longrightarrow> co_step body s (OnAwaitDone_write j g r s)"
| counts: "cb_at j (Some g) CbCounts s \<Longrightarrow> co_step body s (OnAwaitDone_count body env j g s)"
| watches: "co_step body s (co_watch h s)"
| others: "co_step body s (s\<lparr>co_ctx := c\<rparr>)"

inductive co_reach :: "('p, 'c) co_body \<Rightarrow> TaskKind \<Rightarrow> ('p, 'c) coroutine \<Rightarrow> bool" for body k where
  co_started: "co_reach body k (CoStart env k c)"
| co_goes_on: "co_reach body k s \<Longrightarrow> co_step body s s' \<Longrightarrow> co_reach body k s'"

subsection \<open>The sequential program\<close>

text \<open>What the macros are meant to write: the body runs from an await to the next; an await takes
  one result of each of its promises; when all have arrived the program goes on behind the await, or
  ends with the first rejection among them.\<close>

datatype 'p co_state =
    CoWaits nat TaskKind "'p list" "promise_result option"   \<comment> \<open>label, kind, what is missing, first rejection\<close>
  | CoEnded promise_result

fun after_segment :: "'p co_out \<Rightarrow> 'p co_state" where
  "after_segment (CoAwait nLine k p) = CoWaits nLine k [p] None"
| "after_segment (CoAwaitAll nLine k ps) = CoWaits nLine k ps None"
| "after_segment (CoReturn r) = CoEnded r"
| "after_segment CoEnd = CoEnded Resolve"
| "after_segment (CoThrows e) = CoEnded (capture (Throws e))"
| "after_segment CoThrowsOther = CoEnded (capture ThrowsOther)"

fun co_next :: "('p, 'c) co_body \<Rightarrow> 'p co_state \<Rightarrow> ('p, 'c) co_event \<Rightarrow> 'p co_state option" where
  "co_next body (CoWaits n k ps f) (Got p r) =
     (if p \<in> set ps then Some (CoWaits n k (remove1 p ps) (if f = None \<and> IsRejected r then Some r else f)) else None)"
| "co_next body (CoWaits n k ps f) (Began n' k' c) =
     (if n' = n \<and> k' = k \<and> ps = [] \<and> f = None then Some (after_segment (fst (body n c))) else None)"
| "co_next body (CoWaits n k ps f) Failed = (if ps = [] then map_option CoEnded f else None)"
| "co_next body (CoWaits n k ps f) StoppedBy = (if ps = [] then Some (CoEnded kStopped) else None)"
| "co_next body (CoEnded r) ev = None"

definition co_follow :: "('p, 'c) co_body \<Rightarrow> TaskKind \<Rightarrow> ('p, 'c) co_event list \<Rightarrow> 'p co_state option" where
  "co_follow body k evs = foldl (\<lambda>st ev. Option.bind st (\<lambda>e. co_next body e ev)) (Some (CoWaits 0 k [] None)) evs"

text \<open>Labels are line numbers, and \<open>CO_AWAIT_ALL\<close> has at least one argument.\<close>

definition body_ok :: "('p, 'c) co_body \<Rightarrow> bool" where
  "body_ok body \<longleftrightarrow> (\<forall>n c. case fst (body n c) of
       CoAwait n' k p \<Rightarrow> 0 < n' | CoAwaitAll n' k ps \<Rightarrow> 0 < n' \<and> ps \<noteq> [] | _ \<Rightarrow> True)"

subsection \<open>The invariant\<close>

text \<open>Every coroutine that was started has an executor and knows itself.\<close>

definition bound :: "('p, 'c) coroutine \<Rightarrow> bool" where
  [simp]: "bound s \<longleftrightarrow> m_pExec s \<and> m_wpSelf s"

text \<open>Exactly one carrier moves the coroutine on: an accepted resume, the notice of a single
  await, or the members of one group.\<close>

definition term_is :: "promise_result option \<Rightarrow> ('p, 'c) coroutine \<Rightarrow> bool" where
  "term_is f s \<longleftrightarrow> (case f of None \<Rightarrow> \<not> bTerminated s
     | Some r \<Rightarrow> bTerminated s \<and> resultTerminate s = r \<and> nStep s \<noteq> 0)"

definition resume_due :: "TaskKind \<Rightarrow> promise_result option \<Rightarrow> ('p, 'c) coroutine \<Rightarrow> bool" where
  "resume_due k f s \<longleftrightarrow> co_callbacks s = [] \<and> co_registering s = [] \<and> co_posted s = (if co_lost s then [] else [k])
     \<and> term_is f s"

definition single_due :: "TaskKind \<Rightarrow> 'p list \<Rightarrow> promise_result option \<Rightarrow> ('p, 'c) coroutine \<Rightarrow> bool" where
  "single_due k ps f s \<longleftrightarrow> f = None \<and> nStep s \<noteq> 0 \<and> \<not> bTerminated s \<and> \<not> co_lost s \<and> co_posted s = [] \<and> co_registering s = []
     \<and> (\<exists>p. ps = [p] \<and> co_callbacks s = [\<lparr>cb_group = None, cb_kind = k, cb_promise = p, cb_phase = CbWaiting\<rparr>])"

definition waiting_promises :: "'p callback list \<Rightarrow> 'p multiset" where
  "waiting_promises cbs = mset (map cb_promise (filter (\<lambda>cb. cb_phase cb = CbWaiting) cbs))"

definition writers :: "'p callback list \<Rightarrow> promise_result set" where
  "writers cbs = {r. CbWrites r \<in> set (map cb_phase cbs)}"

definition group_ok :: "await_group \<Rightarrow> promise_result option \<Rightarrow> 'p callback list \<Rightarrow> bool" where
  "group_ok grp f cbs \<longleftrightarrow> (bRejected grp \<longleftrightarrow> f \<noteq> None) \<and> (\<forall>r \<in> writers cbs. f = Some r)
     \<and> (\<forall>r. f = Some r \<longrightarrow> resultFirst grp = r \<or> r \<in> writers cbs)"

definition group_due :: "nat \<Rightarrow> 'p list \<Rightarrow> TaskKind \<Rightarrow> 'p list \<Rightarrow> promise_result option \<Rightarrow> ('p, 'c) coroutine \<Rightarrow> bool" where
  "group_due g rest k ps f s \<longleftrightarrow> nStep s \<noteq> 0 \<and> \<not> bTerminated s \<and> \<not> co_lost s \<and> co_posted s = []
     \<and> g < length (co_groups s)
     \<and> (\<forall>cb \<in> set (co_callbacks s). cb_group cb = Some g \<and> cb_kind cb = k)
     \<and> co_registering s = (if rest = [] then [] else [(g, k, rest)])
     \<and> nPending (co_groups s ! g) = int (length (co_callbacks s) + length rest)
     \<and> (co_callbacks s \<noteq> [] \<or> rest \<noteq> [])
     \<and> mset ps = waiting_promises (co_callbacks s) + mset rest
     \<and> group_ok (co_groups s ! g) f (co_callbacks s)"

fun co_fits :: "'p co_state \<Rightarrow> ('p, 'c) coroutine \<Rightarrow> bool" where
  "co_fits (CoEnded r) s \<longleftrightarrow> Await (m_pSegment s) = Some r \<and> co_callbacks s = [] \<and> co_registering s = []
     \<and> co_posted s = [] \<and> \<not> co_lost s \<and> (\<forall>d \<in> set (co_notified s). snd d = r)"
| "co_fits (CoWaits n k ps f) s \<longleftrightarrow> \<not> m_bSettled (m_pSegment s) \<and> co_notified s = [] \<and> nStep s = n
     \<and> (ps = [] \<and> resume_due k f s \<or> single_due k ps f s \<or> (\<exists>g rest. group_due g rest k ps f s))"

definition co_inv :: "('p, 'c) co_body \<Rightarrow> TaskKind \<Rightarrow> ('p, 'c) coroutine \<Rightarrow> bool" where
  "co_inv body k0 s \<longleftrightarrow> bound s \<and> (\<exists>e. co_follow body k0 (co_log s) = Some e \<and> co_fits e s)"

text \<open>The moment at which the body may be entered.\<close>

definition ready :: "nat \<Rightarrow> promise_result option \<Rightarrow> ('p, 'c) coroutine \<Rightarrow> bool" where
  "ready n f s \<longleftrightarrow> bound s \<and> \<not> m_bSettled (m_pSegment s) \<and> co_notified s = [] \<and> nStep s = n \<and> co_callbacks s = []
     \<and> co_registering s = [] \<and> co_posted s = [] \<and> \<not> co_lost s \<and> term_is f s"

lemma co_follow_snoc [simp]:
  "co_follow body k (evs @ [ev]) = Option.bind (co_follow body k evs) (\<lambda>e. co_next body e ev)"
  by (simp add: co_follow_def)

lemma co_note_simps [simp]:
  "co_log (co_note ev s) = co_log s @ [ev]" "m_pExec (co_note ev s) = m_pExec s" "m_wpSelf (co_note ev s) = m_wpSelf s"
   "nStep (co_note ev s) = nStep s"
  "bTerminated (co_note ev s) = bTerminated s" "resultTerminate (co_note ev s) = resultTerminate s"
  "m_pSegment (co_note ev s) = m_pSegment s" "co_ctx (co_note ev s) = co_ctx s" "co_groups (co_note ev s) = co_groups s"
  "co_callbacks (co_note ev s) = co_callbacks s" "co_registering (co_note ev s) = co_registering s"
  "co_posted (co_note ev s) = co_posted s" "co_lost (co_note ev s) = co_lost s" "co_notified (co_note ev s) = co_notified s"
  by (simp_all add: co_note_def)

lemma co_settle_fits:
  assumes "\<not> m_bSettled (m_pSegment s)" "co_notified s = []" "co_callbacks s = []" "co_registering s = []" "co_posted s = []"
    "\<not> co_lost s"
  shows "co_fits (CoEnded r) (co_settle r s) \<and> co_log (co_settle r s) = co_log s \<and> bound (co_settle r s) = bound s"
  using assms by (auto simp: co_settle_def Settle_locked_def Await_def)

lemma ended_inv:
  assumes "co_follow body k0 (co_log s) = Some (CoEnded r)" "bound s" "\<not> m_bSettled (m_pSegment s)" "co_notified s = []"
    "co_callbacks s = []" "co_registering s = []" "co_posted s = []" "\<not> co_lost s"
  shows "co_inv body k0 (co_settle r s)"
  using co_settle_fits[of s r] assms by (simp add: co_inv_def)

lemma terminate_inv:
  assumes "co_follow body k0 (co_log s) = Some (CoEnded r)" "bound s" "\<not> m_bSettled (m_pSegment s)" "co_notified s = []"
    "co_callbacks s = []" "co_registering s = []" "co_posted s = []" "\<not> co_lost s"
  shows "co_inv body k0 (Terminate r s)"
  unfolding Terminate_def by (rule ended_inv) (use assms in \<open>simp_all add: MarkTerminated_def\<close>)

lemma Resume_inv:
  assumes ok: "body_ok body" and follow: "co_follow body k0 (co_log s) = Some (CoWaits n k [] f)" and rdy: "ready n f s"
  shows "co_inv body k0 (Resume body k s)"
proof (cases f)
  case (Some r)
  then have "nStep s \<noteq> 0" "bTerminated s" "resultTerminate s = r" using rdy by (simp_all add: ready_def term_is_def)
  moreover have "co_inv body k0 (co_settle r (co_note Failed s))"
    by (rule ended_inv) (use rdy follow Some in \<open>simp_all add: ready_def\<close>)
  ultimately show ?thesis by (simp add: Resume_def CompleteTerminated_def)
next
  case None
  then have nt: "\<not> bTerminated s" and n: "nStep s = n" using rdy by (simp_all add: ready_def term_is_def)
  obtain out c where b: "body n (co_ctx s) = (out, c)" by fastforce
  have lab: "case out of CoAwait n' k p \<Rightarrow> 0 < n' | CoAwaitAll n' k ps \<Rightarrow> 0 < n' \<and> ps \<noteq> [] | _ \<Rightarrow> True"
    using ok b unfolding body_ok_def by (metis fst_conv)
  let ?s = "(co_note (Began n k (co_ctx s)) s)\<lparr>co_ctx := c\<rparr>"
  have fol: "co_follow body k0 (co_log ?s) = Some (after_segment out)" using follow None b by simp
  note rdy = rdy[unfolded ready_def]
  show ?thesis
  proof (cases out)
    case (CoAwait n' k' p)
    then have "co_fits (CoWaits n' k' [p] None) (AwaitWait n' k' p ?s)"
      using rdy nt lab by (simp add: AwaitWait_def single_due_def)
    then show ?thesis using CoAwait b n nt fol rdy by (simp add: Resume_def co_inv_def AwaitWait_def)
  next
    case (CoAwaitAll n' k' ps)
    then have "group_due (length (co_groups s)) ps k' ps None (AwaitAll n' k' ps ?s)"
      using rdy nt lab by (simp add: AwaitAll_def group_due_def waiting_promises_def group_ok_def writers_def CAwaitAllGroup_def)
    then have "co_fits (CoWaits n' k' ps None) (AwaitAll n' k' ps ?s)"
      using rdy by (auto simp: AwaitAll_def Let_def)
    moreover have "co_log (AwaitAll n' k' ps ?s) = co_log ?s" "bound (AwaitAll n' k' ps ?s)"
      using rdy by (simp_all add: AwaitAll_def Let_def)
    moreover have "Resume body k s = AwaitAll n' k' ps ?s" using CoAwaitAll b n nt by (simp add: Resume_def)
    ultimately show ?thesis using CoAwaitAll fol unfolding co_inv_def by simp
  next
    case (CoReturn r)
    have "co_inv body k0 (co_settle r ?s)" by (rule ended_inv) (use fol CoReturn rdy in simp_all)
    then show ?thesis using CoReturn b n nt by (simp add: Resume_def CompleteResult_def)
  next
    case CoEnd
    have "co_inv body k0 (co_settle Resolve ?s)" by (rule ended_inv) (use fol CoEnd rdy in simp_all)
    then show ?thesis using CoEnd b n nt by (simp add: Resume_def CompleteDone_def)
  next
    case (CoThrows e)
    have "co_inv body k0 (Terminate (Reject (runtime_error (what e))) ?s)"
      by (rule terminate_inv) (use fol CoThrows rdy in simp_all)
    then show ?thesis using CoThrows b n nt by (simp add: Resume_def)
  next
    case CoThrowsOther
    have "co_inv body k0 (Terminate kHandlerThrew ?s)" by (rule terminate_inv) (use fol CoThrowsOther rdy in simp_all)
    then show ?thesis using CoThrowsOther b n nt by (simp add: Resume_def)
  qed
qed

lemma stopped_inv:
  assumes "co_follow body k0 (co_log s) = Some (CoWaits n k [] f)" and "ready n f s"
  shows "co_inv body k0 (Terminate kStopped (co_note StoppedBy s))"
  by (rule terminate_inv) (use assms in \<open>simp_all add: ready_def\<close>)

lemma PostResume_inv:
  assumes "co_follow body k0 (co_log s) = Some (CoWaits n k [] f)" and "ready n f s"
  shows "co_inv body k0 (PostResume env k s)"
proof (cases "exec_accepts env")
  case True
  then have "PostResume env k s = s\<lparr>co_posted := [k]\<rparr>" using assms(2) by (simp add: PostResume_def ready_def)
  then show ?thesis
    using assms by (auto simp: co_inv_def ready_def resume_due_def term_is_def split: option.splits)
next
  case False
  then have "PostResume env k s = Terminate kStopped (co_note StoppedBy s)" by (simp add: PostResume_def)
  with stopped_inv[OF assms] show ?thesis by simp
qed

lemma ResumeInline_inv:
  assumes "body_ok body" and "co_follow body k0 (co_log s) = Some (CoWaits n k [] f)" and "ready n f s"
  shows "co_inv body k0 (ResumeInline body env k s)"
  using stopped_inv[OF assms(2,3)] Resume_inv[OF assms] PostResume_inv[OF assms(2,3)] by (simp add: ResumeInline_def)

lemma CoStart_inv: "co_inv body k (CoStart env k c)"
  unfolding CoStart_def Start_def
  by (rule PostResume_inv[where n = 0 and f = None])
    (simp_all add: co_follow_def ready_def term_is_def Reset_def BindExecutor_def SetSelf_def CCoroutine_def)

subsection \<open>Every step keeps the invariant\<close>

lemma mset_take_drop: "j < length xs \<Longrightarrow> mset (take j xs @ drop (Suc j) xs) = mset xs - {#xs ! j#}"
  by (metis add_mset_remove_trivial id_take_nth_drop mset.simps(2) mset_append union_mset_add_mset_right)

lemma set_take_drop: "set (take j xs @ drop (Suc j) xs) \<subseteq> set xs"
  by (auto dest: in_set_takeD in_set_dropD)

lemma split_at: "j < length xs \<Longrightarrow> xs = take j xs @ xs ! j # drop (Suc j) xs"
  by (rule id_take_nth_drop)

lemma writers_append [simp]: "writers (xs @ ys) = writers xs \<union> writers ys"
  by (auto simp: writers_def)

lemma writers_Cons [simp]: "writers (cb # cbs) = (case cb_phase cb of CbWrites r \<Rightarrow> {r} | _ \<Rightarrow> {}) \<union> writers cbs"
  by (auto simp: writers_def split: cb_phase.splits)

lemma writers_Nil [simp]: "writers [] = {}"
  by (simp add: writers_def)

lemma writers_moves:
  assumes "j < length cbs"
  shows "writers cbs = writers (take j cbs @ drop (Suc j) cbs) \<union> writers [cbs ! j]"
    and "writers (cbs[j := cb]) = writers (take j cbs @ drop (Suc j) cbs) \<union> writers [cb]"
proof -
  show "writers cbs = writers (take j cbs @ drop (Suc j) cbs) \<union> writers [cbs ! j]"
    by (subst split_at[OF assms]) (simp only: writers_append writers_Cons writers_Nil, blast)
  show "writers (cbs[j := cb]) = writers (take j cbs @ drop (Suc j) cbs) \<union> writers [cb]"
    by (subst upd_conv_take_nth_drop[OF assms]) (simp only: writers_append writers_Cons writers_Nil, blast)
qed

lemma waiting_moves:
  assumes "j < length cbs" "cb_phase ph' \<noteq> CbWaiting"
  shows "waiting_promises (cbs[j := ph']) = waiting_promises cbs
     - (if cb_phase (cbs ! j) = CbWaiting then {#cb_promise (cbs ! j)#} else {#})"
proof -
  have c: "cbs = take j cbs @ cbs ! j # drop (Suc j) cbs" using assms(1) by (rule id_take_nth_drop)
  have u: "cbs[j := ph'] = take j cbs @ ph' # drop (Suc j) cbs" using assms(1) by (rule upd_conv_take_nth_drop)
  show ?thesis unfolding u by (subst (3) c) (use assms in \<open>simp add: waiting_promises_def\<close>)
qed

text \<open>What a member of the group of the running await finds.\<close>

lemma member_cases:
  assumes inv: "co_inv body k0 s" and at: "cb_at j (Some g) ph s"
  obtains n k ps f rest where "bound s" "co_follow body k0 (co_log s) = Some (CoWaits n k ps f)"
    "\<not> m_bSettled (m_pSegment s)" "co_notified s = []" "nStep s = n" "group_due g rest k ps f s"
proof -
  obtain e where e: "bound s" "co_follow body k0 (co_log s) = Some e" "co_fits e s" using inv by (auto simp: co_inv_def)
  have cb: "j < length (co_callbacks s)" "cb_group (co_callbacks s ! j) = Some g" using at by (simp_all add: cb_at_def)
  then have ne: "co_callbacks s \<noteq> []" by auto
  obtain n k ps f where w: "e = CoWaits n k ps f" using e(3) ne by (cases e) auto
  have fits: "\<not> m_bSettled (m_pSegment s)" "co_notified s = []" "nStep s = n" using e(3) w by auto
  have "\<not> resume_due k f s" using ne by (simp add: resume_due_def)
  moreover have "\<not> single_due k ps f s" using cb by (auto simp: single_due_def)
  ultimately obtain g' rest where g': "group_due g' rest k ps f s" using e(3) w by auto
  then have "cb_group (co_callbacks s ! j) = Some g'" using cb(1) nth_mem unfolding group_due_def by blast
  then have "g' = g" using cb(2) by simp
  with that[OF e(1) e(2)[unfolded w] fits] g' show ?thesis by blast
qed

lemma co_fits_group:
  "\<not> m_bSettled (m_pSegment s) \<Longrightarrow> co_notified s = [] \<Longrightarrow> group_due g rest k ps f s \<Longrightarrow> co_fits (CoWaits (nStep s) k ps f) s"
  by auto

lemma member_inv:
  assumes inv: "co_inv body k0 s" and at: "cb_at j (Some g) CbWaiting s"
  shows "co_inv body k0 (OnAwaitDone_reject j g r s)"
proof -
  from member_cases[OF inv at] obtain n k ps f rest where
    e: "bound s" "co_follow body k0 (co_log s) = Some (CoWaits n k ps f)"
    and fits: "\<not> m_bSettled (m_pSegment s)" "co_notified s = []" "nStep s = n" and g: "group_due g rest k ps f s" by blast
  let ?cb = "co_callbacks s ! j" and ?f = "if f = None \<and> IsRejected r then Some r else f"
  have j: "j < length (co_callbacks s)" "cb_phase ?cb = CbWaiting" using at by (simp_all add: cb_at_def)
  have gl: "g < length (co_groups s)" and rej: "bRejected (co_groups s ! g) \<longleftrightarrow> f \<noteq> None"
    using g by (simp_all add: group_due_def group_ok_def)
  have "?cb \<in> set (co_callbacks s)" using j by simp
  then have "cb_promise ?cb \<in># waiting_promises (co_callbacks s)" using j(2) by (auto simp: waiting_promises_def)
  then have p: "cb_promise ?cb \<in># mset ps" "cb_promise ?cb \<in># waiting_promises (co_callbacks s)"
    using g by (simp_all add: group_due_def)
  define s' where "s' = OnAwaitDone_reject j g r s"
  define ph where "ph = (if f = None \<and> IsRejected r then CbWrites r else CbCounts)"
  have cbs: "co_callbacks s' = (co_callbacks s)[j := ?cb\<lparr>cb_phase := ph\<rparr>]"
    using rej by (auto simp: s'_def ph_def OnAwaitDone_reject_def cb_moves_def Let_def)
  have grp: "co_groups s' ! g = (co_groups s ! g)\<lparr>bRejected := (?f \<noteq> None)\<rparr>" "length (co_groups s') = length (co_groups s)"
    using rej gl by (auto simp: s'_def OnAwaitDone_reject_def cb_moves_def Let_def)
  have same: "nStep s' = nStep s" "bTerminated s' = bTerminated s" "co_lost s' = co_lost s" "co_posted s' = co_posted s"
    "co_registering s' = co_registering s" "bound s' = bound s" "m_pSegment s' = m_pSegment s"
    "co_notified s' = co_notified s" "co_log s' = co_log s @ [Got (cb_promise ?cb) r]"
    by (simp_all add: s'_def OnAwaitDone_reject_def cb_moves_def Let_def)
  have inset: "cb \<in> set (co_callbacks s') \<Longrightarrow> cb \<in> set (co_callbacks s) \<or> cb = ?cb\<lparr>cb_phase := ph\<rparr>" for cb
    unfolding cbs using set_update_subset_insert by fastforce
  have w: "waiting_promises (co_callbacks s') = waiting_promises (co_callbacks s) - {#cb_promise ?cb#}"
    unfolding cbs using waiting_moves[OF j(1), of "?cb\<lparr>cb_phase := ph\<rparr>"] j(2) by (simp add: ph_def)
  have wr: "writers (co_callbacks s') = writers (co_callbacks s) \<union> (if f = None \<and> IsRejected r then {r} else {})"
    unfolding cbs using writers_moves[OF j(1)] j(2) by (simp add: ph_def)
  have ok: "group_ok (co_groups s' ! g) ?f (co_callbacks s')"
    using g unfolding group_due_def group_ok_def wr grp(1) by auto
  have "group_due g rest k (remove1 (cb_promise ?cb) ps) ?f s'"
    unfolding group_due_def
  proof (intro conjI)
    show "mset (remove1 (cb_promise ?cb) ps) = waiting_promises (co_callbacks s') + mset rest"
      unfolding w using g p by (simp add: group_due_def)
    show "\<forall>cb\<in>set (co_callbacks s'). cb_group cb = Some g \<and> cb_kind cb = k"
    proof
      fix cb assume "cb \<in> set (co_callbacks s')"
      then show "cb_group cb = Some g \<and> cb_kind cb = k"
        using inset g \<open>?cb \<in> set (co_callbacks s)\<close> unfolding group_due_def by fastforce
    qed
    show "group_ok (co_groups s' ! g) ?f (co_callbacks s')" by (rule ok)
  qed (use g gl same grp cbs in \<open>simp_all add: group_due_def\<close>)
  then have "co_fits (CoWaits (nStep s') k (remove1 (cb_promise ?cb) ps) ?f) s'"
    using fits same by (intro co_fits_group) simp_all
  moreover have "co_follow body k0 (co_log s') = Some (CoWaits n k (remove1 (cb_promise ?cb) ps) ?f)"
    using e(2) p(1) by (simp add: same)
  ultimately show ?thesis unfolding co_inv_def s'_def[symmetric] using same e(1) fits(3) by auto
qed

lemma writes_inv:
  assumes inv: "co_inv body k0 s" and at: "cb_at j (Some g) (CbWrites r) s"
  shows "co_inv body k0 (OnAwaitDone_write j g r s)"
proof -
  from member_cases[OF inv at] obtain n k ps f rest where
    e: "bound s" "co_follow body k0 (co_log s) = Some (CoWaits n k ps f)"
    and fits: "\<not> m_bSettled (m_pSegment s)" "co_notified s = []" "nStep s = n" and g: "group_due g rest k ps f s" by blast
  let ?cb = "co_callbacks s ! j"
  have j: "j < length (co_callbacks s)" "cb_phase ?cb = CbWrites r" using at by (simp_all add: cb_at_def)
  have gl: "g < length (co_groups s)" using g by (simp add: group_due_def)
  define s' where "s' = OnAwaitDone_write j g r s"
  have cbs: "co_callbacks s' = (co_callbacks s)[j := ?cb\<lparr>cb_phase := CbCounts\<rparr>]"
    by (simp add: s'_def OnAwaitDone_write_def cb_moves_def)
  have grp: "co_groups s' ! g = (co_groups s ! g)\<lparr>resultFirst := r\<rparr>" "length (co_groups s') = length (co_groups s)"
    using gl by (simp_all add: s'_def OnAwaitDone_write_def cb_moves_def)
  have same: "nStep s' = nStep s" "bTerminated s' = bTerminated s" "co_lost s' = co_lost s" "co_posted s' = co_posted s"
    "co_registering s' = co_registering s" "bound s' = bound s" "m_pSegment s' = m_pSegment s"
    "co_notified s' = co_notified s" "co_log s' = co_log s"
    by (simp_all add: s'_def OnAwaitDone_write_def cb_moves_def)
  have inset: "cb \<in> set (co_callbacks s') \<Longrightarrow> cb \<in> set (co_callbacks s) \<or> cb = ?cb\<lparr>cb_phase := CbCounts\<rparr>" for cb
    unfolding cbs using set_update_subset_insert by fastforce
  have cb: "?cb \<in> set (co_callbacks s)" using j by simp
  have ok: "group_ok (co_groups s ! g) f (co_callbacks s)" using g by (simp add: group_due_def)
  have "r \<in> writers (co_callbacks s)" using cb j(2) by (force simp: writers_def)
  then have f: "f = Some r" using ok unfolding group_ok_def by blast
  have w: "waiting_promises (co_callbacks s') = waiting_promises (co_callbacks s)"
    unfolding cbs using waiting_moves[OF j(1), of "?cb\<lparr>cb_phase := CbCounts\<rparr>"] j(2) by simp
  have "group_due g rest k ps f s'"
    unfolding group_due_def
  proof (intro conjI)
    show "\<forall>cb\<in>set (co_callbacks s'). cb_group cb = Some g \<and> cb_kind cb = k"
      using inset g cb unfolding group_due_def by fastforce
    show "group_ok (co_groups s' ! g) f (co_callbacks s')"
      using ok f writers_moves(1)[OF j(1)] writers_moves(2)[OF j(1), of "?cb\<lparr>cb_phase := CbCounts\<rparr>"]
      unfolding group_ok_def grp(1) cbs by auto
  qed (use g gl same grp cbs w in \<open>simp_all add: group_due_def\<close>)
  then have "co_fits (CoWaits (nStep s') k ps f) s'" using fits same by (intro co_fits_group) simp_all
  then show ?thesis unfolding co_inv_def s'_def[symmetric] using same e fits(3) by auto
qed

lemma counts_inv:
  assumes body: "body_ok body" and inv: "co_inv body k0 s" and at: "cb_at j (Some g) CbCounts s"
  shows "co_inv body k0 (OnAwaitDone_count body env j g s)"
proof -
  from member_cases[OF inv at] obtain n k ps f rest where
    e: "bound s" "co_follow body k0 (co_log s) = Some (CoWaits n k ps f)"
    and fits: "\<not> m_bSettled (m_pSegment s)" "co_notified s = []" "nStep s = n" and g: "group_due g rest k ps f s" by blast
  let ?cb = "co_callbacks s ! j" and ?grp = "co_groups s ! g"
  have j: "j < length (co_callbacks s)" "cb_phase ?cb = CbCounts" using at by (simp_all add: cb_at_def)
  have gl: "g < length (co_groups s)" using g by (simp add: group_due_def)
  have k: "cb_kind ?cb = k" using g j(1) nth_mem unfolding group_due_def by blast
  define s' where "s' = (cb_remove j s)\<lparr>co_groups := (co_groups s)[g := ?grp\<lparr>nPending := nPending ?grp - 1\<rparr>]\<rparr>"
  have step: "OnAwaitDone_count body env j g s = (if nPending ?grp = 1
      then ResumeInline body env k (if bRejected ?grp then MarkTerminated (resultFirst ?grp) s' else s') else s')"
    unfolding OnAwaitDone_count_def s'_def k Let_def ..
  have cbs: "co_callbacks s' = take j (co_callbacks s) @ drop (Suc j) (co_callbacks s)"
    by (simp add: s'_def cb_remove_def)
  have same: "nStep s' = nStep s" "bTerminated s' = bTerminated s" "co_lost s' = co_lost s" "co_posted s' = co_posted s"
    "co_registering s' = co_registering s" "bound s' = bound s" "m_pSegment s' = m_pSegment s"
    "co_notified s' = co_notified s" "co_log s' = co_log s"
    by (simp_all add: s'_def cb_remove_def)
  have split: "co_callbacks s = take j (co_callbacks s) @ ?cb # drop (Suc j) (co_callbacks s)"
    using j(1) by (rule id_take_nth_drop)
  have len: "length (co_callbacks s) = Suc (length (co_callbacks s'))" using j(1) unfolding cbs by simp
  have w: "waiting_promises (co_callbacks s') = waiting_promises (co_callbacks s)"
    unfolding cbs by (subst (3) split) (simp add: waiting_promises_def j(2))
  have pend: "nPending ?grp = int (length (co_callbacks s) + length rest)" using g by (simp add: group_due_def)
  show ?thesis
  proof (cases "nPending ?grp = 1")
    case True
    then have one: "co_callbacks s' = []" "rest = []" using pend len by (auto simp flip: of_nat_add)
    have "length (co_callbacks s) = 1" using len one by simp
    then have all: "co_callbacks s = [?cb]" using j(1) by (cases "co_callbacks s") simp_all
    have "mset ps = waiting_promises (co_callbacks s') + mset rest" unfolding w using g by (simp add: group_due_def)
    then have ps: "ps = []" by (simp add: one waiting_promises_def)
    have ok: "group_ok ?grp f [?cb]" using g all unfolding group_due_def by metis
    let ?s = "if bRejected ?grp then MarkTerminated (resultFirst ?grp) s' else s'"
    have "ready n f ?s"
      using g ok j(2) one fits e(1) same
      by (cases f) (auto simp: ready_def group_due_def group_ok_def term_is_def MarkTerminated_def)
    moreover have "co_log ?s = co_log s" by (simp add: same MarkTerminated_def)
    ultimately have "co_inv body k0 (ResumeInline body env k ?s)"
      using ResumeInline_inv[OF body, of k0 ?s n k f env] e(2) ps by simp
    then show ?thesis using True step by simp
  next
    case False
    have grp: "co_groups s' ! g = ?grp\<lparr>nPending := nPending ?grp - 1\<rparr>" using gl by (simp add: s'_def)
    have "group_due g rest k ps f s'"
      unfolding group_due_def
    proof (intro conjI)
      show "\<forall>cb\<in>set (co_callbacks s'). cb_group cb = Some g \<and> cb_kind cb = k"
        using g set_take_drop[of j "co_callbacks s"] unfolding cbs group_due_def by blast
      show "nPending (co_groups s' ! g) = int (length (co_callbacks s') + length rest)"
        unfolding grp using pend len by simp
      show "co_callbacks s' \<noteq> [] \<or> rest \<noteq> []" using False pend len by auto
      have wr: "writers (co_callbacks s') = writers (co_callbacks s)"
        unfolding cbs writers_moves(1)[OF j(1)] by (simp add: j(2))
      have "group_ok ?grp f (co_callbacks s)" using g by (simp add: group_due_def)
      then show "group_ok (co_groups s' ! g) f (co_callbacks s')" unfolding group_ok_def wr grp by simp
    qed (use g gl same w in \<open>simp_all add: group_due_def s'_def cb_remove_def\<close>)
    then have "co_fits (CoWaits (nStep s') k ps f) s'" using fits same by (intro co_fits_group) simp_all
    then show ?thesis unfolding co_inv_def using step False same e fits(3) by auto
  qed
qed

lemma arrives_inv:
  assumes body: "body_ok body" and inv: "co_inv body k0 s" and at: "cb_at j None CbWaiting s"
  shows "co_inv body k0 (on_await body env j r s)"
proof -
  obtain e where e: "bound s" "co_follow body k0 (co_log s) = Some e" "co_fits e s" using inv by (auto simp: co_inv_def)
  have cb: "j < length (co_callbacks s)" "cb_group (co_callbacks s ! j) = None" using at by (simp_all add: cb_at_def)
  then have ne: "co_callbacks s \<noteq> []" by auto
  obtain n k ps f where w: "e = CoWaits n k ps f" using e(3) ne by (cases e) auto
  have "\<not> resume_due k f s" using ne by (simp add: resume_due_def)
  moreover have "\<not> group_due g rest k ps f s" for g rest using cb nth_mem unfolding group_due_def by fastforce
  ultimately have sd: "single_due k ps f s" using e(3) w by auto
  then obtain p where p: "ps = [p]" "co_callbacks s = [\<lparr>cb_group = None, cb_kind = k, cb_promise = p, cb_phase = CbWaiting\<rparr>]"
    and f: "f = None" by (auto simp: single_due_def)
  have j: "j = 0" using cb(1) p by simp
  let ?s = "co_note (Got p r) (cb_remove 0 s)"
  let ?s' = "if IsRejected r then MarkTerminated r ?s else ?s"
  have "co_follow body k0 (co_log ?s') = Some (CoWaits n k [] (if IsRejected r then Some r else None))"
    using e(2) w p f by (simp add: MarkTerminated_def cb_remove_def)
  moreover have "ready n (if IsRejected r then Some r else None) ?s'"
    using sd e(1,3) w p by (simp add: ready_def single_due_def term_is_def MarkTerminated_def cb_remove_def)
  ultimately have "co_inv body k0 (ResumeInline body env k ?s')" by (rule ResumeInline_inv[OF body])
  moreover have "on_await body env j r s = ResumeInline body env k ?s'" using p j by (simp add: on_await_def Let_def)
  ultimately show ?thesis by simp
qed

lemma registers_inv:
  assumes inv: "co_inv body k0 s" and i: "i < length (co_registering s)"
  shows "co_inv body k0 (AwaitEach i s)"
proof -
  obtain e where e: "bound s" "co_follow body k0 (co_log s) = Some e" "co_fits e s" using inv by (auto simp: co_inv_def)
  have ne: "co_registering s \<noteq> []" using i by auto
  obtain n k ps f where w: "e = CoWaits n k ps f" using e(3) ne by (cases e) auto
  have "\<not> resume_due k f s" "\<not> single_due k ps f s" using ne by (simp_all add: resume_due_def single_due_def)
  then obtain g rest where g: "group_due g rest k ps f s" using e(3) w by auto
  then have reg: "co_registering s = [(g, k, rest)]" "rest \<noteq> []" using ne by (auto simp: group_due_def split: if_splits)
  then obtain p ps' where r: "rest = p # ps'" by (cases rest) auto
  have i0: "i = 0" using i reg by simp
  let ?cb = "\<lparr>cb_group = Some g, cb_kind = k, cb_promise = p, cb_phase = CbWaiting\<rparr>"
  have s': "AwaitEach i s = s\<lparr>co_registering := (if ps' = [] then [] else [(g, k, ps')]), co_callbacks := co_callbacks s @ [?cb]\<rparr>"
    using i0 reg r by (simp add: AwaitEach_def)
  have "group_due g ps' k ps f (AwaitEach i s)"
    using g unfolding s' r group_due_def by (auto simp: waiting_promises_def group_ok_def)
  moreover have "m_pSegment (AwaitEach i s) = m_pSegment s" "co_notified (AwaitEach i s) = co_notified s"
    "nStep (AwaitEach i s) = nStep s" "co_log (AwaitEach i s) = co_log s" "bound (AwaitEach i s) = bound s"
    by (simp_all add: s')
  ultimately show ?thesis using e w co_fits_group[of "AwaitEach i s" g ps' k ps f] unfolding co_inv_def by auto
qed

lemma posted_cases:
  assumes inv: "co_inv body k0 s" and i: "i < length (co_posted s)"
  obtains n k f where "co_follow body k0 (co_log s) = Some (CoWaits n k [] f)" "co_posted s ! i = k" "ready n f (co_take i s)"
    "resume_due k f ((co_take i s)\<lparr>co_lost := True\<rparr>)"
proof -
  obtain e where e: "bound s" "co_follow body k0 (co_log s) = Some e" "co_fits e s" using inv by (auto simp: co_inv_def)
  have ne: "co_posted s \<noteq> []" using i by auto
  obtain n k ps f where w: "e = CoWaits n k ps f" using e(3) ne by (cases e) auto
  have "\<not> single_due k ps f s" "\<not> group_due g rest k ps f s" for g rest using ne by (simp_all add: single_due_def group_due_def)
  then have rd: "ps = []" "resume_due k f s" using e(3) w by auto
  then have p: "co_posted s = [k]" "i = 0" using i by (auto simp: resume_due_def split: if_splits)
  show ?thesis
  proof (rule that)
    show "ready n f (co_take i s)"
      using rd p e w by (auto simp: ready_def resume_due_def co_take_def term_is_def split: option.splits)
    show "resume_due k f ((co_take i s)\<lparr>co_lost := True\<rparr>)"
      using rd p by (auto simp: resume_due_def co_take_def term_is_def split: option.splits)
  qed (use e w rd p in simp_all)
qed

text \<open>Steps that touch neither the carrier nor the log.\<close>

lemma co_fits_cong:
  assumes "co_fits (CoWaits n k ps f) s" and "\<not> m_bSettled (m_pSegment s')" "co_notified s' = []" "nStep s' = nStep s"
    "bTerminated s' = bTerminated s" "resultTerminate s' = resultTerminate s" "co_lost s' = co_lost s"
    "co_posted s' = co_posted s" "co_registering s' = co_registering s" "co_callbacks s' = co_callbacks s"
    "co_groups s' = co_groups s"
  shows "co_fits (CoWaits n k ps f) s'"
proof -
  have "resume_due k f s' = resume_due k f s" "single_due k ps f s' = single_due k ps f s"
    "group_due g rest k ps f s' = group_due g rest k ps f s" for g rest
    unfolding resume_due_def single_due_def group_due_def term_is_def assms(3-) by (rule refl)+
  then show ?thesis using assms by simp
qed

lemma watches_inv:
  assumes "co_inv body k0 s"
  shows "co_inv body k0 (co_watch h s)"
proof -
  obtain e where e: "bound s" "co_follow body k0 (co_log s) = Some e" "co_fits e s" using assms by (auto simp: co_inv_def)
  show ?thesis
  proof (cases "m_bSettled (m_pSegment s)")
    case True
    then obtain r where r: "e = CoEnded r" using e(3) by (cases e) auto
    have w: "co_watch h s = s\<lparr>co_notified := co_notified s @ [(h, m_result (m_pSegment s))]\<rparr>"
      using True by (simp add: co_watch_def Register_locked_def)
    have "co_fits e (co_watch h s)" using e(3) r True by (simp add: w Await_def)
    then show ?thesis using e by (simp add: co_inv_def w)
  next
    case False
    then obtain n k ps f where c: "e = CoWaits n k ps f" using e(3) by (cases e) (auto simp: Await_def)
    define st where "st = snd (Register_locked (Some h) (m_pSegment s))"
    have w: "co_watch h s = s\<lparr>m_pSegment := st\<rparr>" "\<not> m_bSettled st"
      using False by (auto simp: co_watch_def Register_locked_def st_def)
    have "co_fits e (s\<lparr>m_pSegment := st\<rparr>)"
      unfolding c by (rule co_fits_cong[OF e(3)[unfolded c]]) (use e(3) w(2) c in simp_all)
    then show ?thesis using e by (simp add: co_inv_def w)
  qed
qed

lemma others_inv: "co_inv body k0 s \<Longrightarrow> co_inv body k0 (s\<lparr>co_ctx := c\<rparr>)"
proof -
  assume "co_inv body k0 s"
  then obtain e where e: "bound s" "co_follow body k0 (co_log s) = Some e" "co_fits e s" by (auto simp: co_inv_def)
  have "co_fits e (s\<lparr>co_ctx := c\<rparr>)"
  proof (cases e)
    case (CoWaits n k ps f)
    show ?thesis unfolding CoWaits by (rule co_fits_cong[OF e(3)[unfolded CoWaits]]) (use e(3) CoWaits in simp_all)
  qed (use e(3) in simp)
  then show ?thesis using e by (simp add: co_inv_def)
qed

lemma co_inv_step: "co_step body s s' \<Longrightarrow> body_ok body \<Longrightarrow> co_inv body k0 s \<Longrightarrow> co_inv body k0 s'"
proof (induction rule: co_step.induct)
  case (resumed i s)
  from posted_cases[OF resumed(3,1)] obtain n k f where p: "co_follow body k0 (co_log s) = Some (CoWaits n k [] f)"
    "co_posted s ! i = k" "ready n f (co_take i s)" by blast
  have "co_log (co_take i s) = co_log s" by (simp add: co_take_def)
  then show ?case using Resume_inv[OF resumed(2) _ p(3), of k0 k] p(1,2) by simp
next
  case (dropped i s)
  from posted_cases[OF dropped(3,1)] obtain n k f where p: "co_follow body k0 (co_log s) = Some (CoWaits n k [] f)"
    "ready n f (co_take i s)" "resume_due k f ((co_take i s)\<lparr>co_lost := True\<rparr>)" by blast
  then show ?case by (auto simp: co_inv_def ready_def co_take_def)
next
  case (registers i s)
  then show ?case by (simp add: registers_inv)
next
  case (arrives j s env r)
  then show ?case by (simp add: arrives_inv)
next
  case (member j g s r)
  then show ?case by (simp add: member_inv)
next
  case (writes j g r s)
  then show ?case by (simp add: writes_inv)
next
  case (counts j g s env)
  then show ?case by (simp add: counts_inv)
qed (simp_all add: watches_inv others_inv)

lemma co_reach_inv: "co_reach body k s \<Longrightarrow> body_ok body \<Longrightarrow> co_inv body k s"
  by (induction rule: co_reach.induct) (auto intro: CoStart_inv co_inv_step)

subsection \<open>Properties\<close>

text \<open>C33. A coroutine is its sequential program.  Whatever threads run it and whichever way it is
  resumed, in place or by a posted task, what happened is a run of the sequential program: segments
  start only at the label of the last await, in a task of the kind that await gave, and only when
  every awaited promise has delivered exactly one result and none was a rejection.  It is settled
  exactly when that program has ended, with the program's result, and this is the only result that
  anyone who waits for the coroutine ever receives.\<close>

theorem coroutine_sequential:
  assumes "co_reach body k s" and "body_ok body"
  shows "\<exists>e. co_follow body k (co_log s) = Some e
     \<and> Await (m_pSegment s) = (case e of CoEnded r \<Rightarrow> Some r | _ \<Rightarrow> None)
     \<and> (\<forall>d \<in> set (co_notified s). e = CoEnded (snd d))"
proof -
  obtain e where e: "co_follow body k (co_log s) = Some e" "co_fits e s"
    using co_reach_inv[OF assms] by (auto simp: co_inv_def)
  then show ?thesis by (intro exI[of _ e]) (cases e; auto simp: Await_def)
qed

text \<open>C34. A coroutine is never forgotten.  When none of its notices is under way, no await is being
  registered and no resume is posted, it is settled, or the stopping executor dropped its resume, or
  it waits for promises that have not settled, and these are exactly the ones the program awaits.\<close>

theorem coroutine_progress:
  assumes "co_reach body k s" and "body_ok body"
    and "co_posted s = []" "co_registering s = []" "\<And>cb. cb \<in> set (co_callbacks s) \<Longrightarrow> cb_phase cb = CbWaiting"
  shows "Await (m_pSegment s) \<noteq> None \<or> co_lost s
     \<or> (\<exists>n k' ps f. co_follow body k (co_log s) = Some (CoWaits n k' ps f) \<and> ps \<noteq> []
          \<and> mset ps = mset (map cb_promise (co_callbacks s)))"
proof -
  obtain e where e: "co_follow body k (co_log s) = Some e" "co_fits e s"
    using co_reach_inv[OF assms(1,2)] by (auto simp: co_inv_def)
  show ?thesis
  proof (cases e)
    case (CoWaits n k' ps f)
    have w: "waiting_promises (co_callbacks s) = mset (map cb_promise (co_callbacks s))"
      using assms(5) by (simp add: waiting_promises_def)
    consider "resume_due k' f s" | "single_due k' ps f s" | g rest where "group_due g rest k' ps f s"
      using e(2) CoWaits by auto
    then show ?thesis
    proof cases
      case 1
      then show ?thesis using assms(3) by (auto simp: resume_due_def split: if_splits)
    next
      case 2
      then show ?thesis using e(1) CoWaits by (auto simp: single_due_def)
    next
      case 3
      then have "mset ps = mset (map cb_promise (co_callbacks s))" "co_callbacks s \<noteq> []"
        using assms(4) w by (auto simp: group_due_def split: if_splits)
      then show ?thesis using e(1) CoWaits by auto
    qed
  qed (use e(2) in simp)
qed

subsection \<open>Scenarios\<close>

text \<open>A coroutine that awaits one promise and then two at once.  The second of the two is
  rejected.\<close>

definition demo_body :: "(nat, nat) co_body" where
  "demo_body n c =
     (if n = 0 then (CoAwait 1 (Gated kRead) 7, c + 1)
      else if n = 1 then (CoAwaitAll 2 (Gated kWrite) [8, 9], c + 10)
      else (CoEnd, c + 100))"

definition demo_env :: co_env where
  "demo_env = \<lparr>exec_stopped = False, in_exec_thread = False, inline_depth = 0, can_run_inline = (\<lambda>_. False),
     pool_pending = 0, exec_accepts = True\<rparr>"

definition demo_lost :: promise_result where
  "demo_lost = Reject (runtime_error ''lost'')"

definition demo_awaiting :: "(nat, nat) coroutine" where
  "demo_awaiting =
     (let s = CoStart demo_env (Gated kWrite) 0;
          s = Resume demo_body (co_posted s ! 0) (co_take 0 s);
          s = on_await demo_body demo_env 0 Resolve s;
          s = Resume demo_body (co_posted s ! 0) (co_take 0 s)
      in AwaitEach 0 (AwaitEach 0 s))"

definition demo_rejected :: "(nat, nat) coroutine" where
  "demo_rejected =
     (let s = OnAwaitDone_reject 1 0 demo_lost demo_awaiting;
          s = OnAwaitDone_write 1 0 demo_lost s;
          s = OnAwaitDone_count demo_body demo_env 1 0 s;
          s = OnAwaitDone_reject 0 0 Resolve s;
          s = OnAwaitDone_count demo_body demo_env 0 0 s
      in Resume demo_body (co_posted s ! 0) (co_take 0 s))"

lemma demo_body_ok: "body_ok demo_body"
  by (simp add: body_ok_def demo_body_def)

lemma demo_awaiting_reach: "co_reach demo_body (Gated kWrite) demo_awaiting"
  unfolding demo_awaiting_def Let_def
  by (rule co_goes_on[OF _ co_step.registers], rule co_goes_on[OF _ co_step.registers],
      rule co_goes_on[OF _ co_step.resumed], rule co_goes_on[OF _ co_step.arrives], rule co_goes_on[OF _ co_step.resumed],
      rule co_started) code_simp+

lemma demo_rejected_reach: "co_reach demo_body (Gated kWrite) demo_rejected"
  unfolding demo_rejected_def Let_def
  by (rule co_goes_on[OF _ co_step.resumed], rule co_goes_on[OF _ co_step.counts], rule co_goes_on[OF _ co_step.member],
      rule co_goes_on[OF _ co_step.counts], rule co_goes_on[OF _ co_step.writes], rule co_goes_on[OF _ co_step.member],
      rule demo_awaiting_reach) code_simp+

theorem coroutine_sequential_witness:
  "co_log demo_rejected = [Began 0 (Gated kWrite) 0, Got 7 Resolve, Began 1 (Gated kRead) 1, Got 9 demo_lost,
     Got 8 Resolve, Failed] \<and> Await (m_pSegment demo_rejected) = Some demo_lost"
proof -
  have log: "co_log demo_rejected = [Began 0 (Gated kWrite) 0, Got 7 Resolve, Began 1 (Gated kRead) 1, Got 9 demo_lost,
     Got 8 Resolve, Failed]" by code_simp
  have "co_follow demo_body (Gated kWrite) (co_log demo_rejected) = Some (CoEnded demo_lost)"
    unfolding log by code_simp
  with coroutine_sequential[OF demo_rejected_reach demo_body_ok] have "Await (m_pSegment demo_rejected) = Some demo_lost"
    by auto
  with log show ?thesis by simp
qed

theorem coroutine_progress_witness:
  "\<exists>n k ps f. co_follow demo_body (Gated kWrite) (co_log demo_awaiting) = Some (CoWaits n k ps f) \<and> ps \<noteq> []
     \<and> mset ps = mset (map cb_promise (co_callbacks demo_awaiting))"
proof -
  have s: "co_posted demo_awaiting = []" "co_registering demo_awaiting = []" "Await (m_pSegment demo_awaiting) = None"
    "co_lost demo_awaiting = False" "map cb_phase (co_callbacks demo_awaiting) = [CbWaiting, CbWaiting]"
    by code_simp+
  have "cb_phase cb = CbWaiting" if "cb \<in> set (co_callbacks demo_awaiting)" for cb
  proof -
    have "cb_phase cb \<in> set (map cb_phase (co_callbacks demo_awaiting))" using that by simp
    then show ?thesis unfolding s(5) by simp
  qed
  then show ?thesis
    using coroutine_progress[OF demo_awaiting_reach demo_body_ok s(1,2)] s(3,4) by simp
qed

end
