(* ===== verification/Spec2Isabelle.thy ===== *)
theory Spec2Isabelle
  imports UserDemo ExampleService EventDispatcher Buffer Application FileStore Config ReadWriteGate ThreadPool PromiseLaws
    Combine ExecutorStop TimerManager TcpClient UdpSocket Trace Coroutine
begin

text \<open>
  A model of the COM-style server framework of this repository.  (The full header is completed
  with the list of components below.)
\<close>

end
